(* ===== verification/Prelude.thy ===== *)
theory Prelude
  imports Main "HOL-Library.Word"
begin

text \<open>
  Shared vocabulary of the development: the fixed-width integer types the sources use, the
  sentinel values they reserve, the constants of \<^verbatim>\<open>src/src/common/include/configs.h\<close>, the error
  values that stand for the exceptions of \<^verbatim>\<open>src/src/common/include/exception.h\<close>, and generic list,
  map and arithmetic lemmas.
\<close>

section \<open>Machine types and sentinels\<close>

type_synonym u8 = "8 word"
type_synonym u16 = "16 word"
type_synonym u32 = "32 word"
type_synonym u64 = "64 word"

text \<open>
  Page indices, byte offsets and sizes that the sources keep far below their width are natural
  numbers with the truncation to the C++ type written out where a conversion happens;
  identifiers and counters whose wrap-around is observable are words.
\<close>

type_synonym page_idx = nat
type_synonym table_id = u64
type_synonym node_offset = u64

definition UINT32_MAX :: nat where
  "UINT32_MAX = 4294967295"

definition to_u32 :: "nat \<Rightarrow> nat" where
  "to_u32 n = n mod 4294967296"

definition UINT64_MAX :: u64 where
  "UINT64_MAX = - 1"

definition INT64_MAX :: u64 where
  "INT64_MAX = 9223372036854775807"

definition DEFAULT_VECTOR_CAPACITY :: nat where
  "DEFAULT_VECTOR_CAPACITY = 2 ^ 11"

definition DEFAULT_PAGE_SIZE :: nat where
  "DEFAULT_PAGE_SIZE = 2 ^ 12"

definition LARGE_PAGE_SIZE :: nat where
  "LARGE_PAGE_SIZE = 2 ^ 18"

lemma to_u32_small [simp]: "n < UINT32_MAX \<Longrightarrow> to_u32 n = n"
  by (simp add: to_u32_def UINT32_MAX_def)

lemma to_u32_le_max: "to_u32 n \<le> UINT32_MAX"
proof -
  have "n mod 4294967296 < (4294967296 :: nat)" by simp
  then show ?thesis by (simp add: to_u32_def UINT32_MAX_def)
qed

section \<open>Errors\<close>

text \<open>
  One constructor per exception class the modelled code throws; the argument is the message's
  fixed part.  \<open>UndefinedBehaviour\<close> marks the places where the C++ code has no defined result
  (an out-of-range vector access, a dereferenced end iterator, a null pointer), \<open>Blocks\<close>
  a spin or mutex wait that no other step of the modelled sequence ends.
\<close>

datatype error =
    BaseException string
  | TransactionManagerException string
  | StorageException string
  | RuntimeException string
  | BufferManagerException string
  | CatalogException string
  | ConversionException string
  | CSVReaderException string
  | CopyCSVException string
  | BinderException string
  | UndefinedBehaviour string
  | Blocks

type_synonym 'a result = "error + 'a"

definition bind_result :: "'a result \<Rightarrow> ('a \<Rightarrow> 'b result) \<Rightarrow> 'b result" where
  "bind_result r f = (case r of Inl e \<Rightarrow> Inl e | Inr x \<Rightarrow> f x)"

definition is_error :: "'a result \<Rightarrow> bool" where
  "is_error r = (case r of Inl _ \<Rightarrow> True | Inr _ \<Rightarrow> False)"

lemma bind_result_Inl [simp]: "bind_result (Inl e) f = Inl e"
  by (simp add: bind_result_def)

lemma bind_result_Inr [simp]: "bind_result (Inr x) f = f x"
  by (simp add: bind_result_def)

lemma is_error_simps [simp]: "is_error (Inl e)" "\<not> is_error (Inr x)"
  by (simp_all add: is_error_def)

lemma bind_result_eq_Inr:
  "bind_result r f = Inr y \<longleftrightarrow> (\<exists>x. r = Inr x \<and> f x = Inr y)"
  by (cases r) auto

lemma bind_result_eq_Inl:
  "bind_result r f = Inl e \<longleftrightarrow> r = Inl e \<or> (\<exists>x. r = Inr x \<and> f x = Inl e)"
  by (cases r) auto

section \<open>Collections\<close>

text \<open>
  \<open>inv_simps\<close> holds the definitions of the components' representation invariants,
  \<open>op_defs\<close> the definitions of their operations: a preservation proof unfolds both.
\<close>

named_theorems inv_simps \<open>definitions of representation invariants\<close>
named_theorems op_defs \<open>definitions of operations\<close>

section \<open>Generic lemmas\<close>

lemma map_upd_other [simp]: "j \<noteq> i \<Longrightarrow> (m(i \<mapsto> v)) j = m j"
  by simp

lemma nth_append_last [simp]: "(xs @ [x]) ! length xs = x"
  by simp

lemma all_less_Suc: "(\<forall>k < Suc n. P k) \<longleftrightarrow> (\<forall>k < n. P k) \<and> P n"
  by (auto simp: less_Suc_eq)

lemma list_update_same_length: "length (xs[i := v]) = length xs"
  by simp

lemma div_mod_decomp: "(n::nat) = (n div k) * k + n mod k"
  by simp

lemma div_less_iff: "0 < (k::nat) \<Longrightarrow> n div k < m \<longleftrightarrow> n < m * k"
  by (rule div_less_iff_less_mult)

lemma div_mod_inj:
  assumes "(a::nat) div k = b div k" and "a mod k = b mod k"
  shows "a = b"
  using assms by (metis div_mult_mod_eq)

end
