(* ===== verification/Interfaces.thy ===== *)
theory Interfaces
  imports Prelude
begin

text \<open>
  The contracts between components, as locales: what a client may rely on and what a provider
  promises.  Every locale is interpreted on the model of the component that provides it, in that
  component's theory.
\<close>

section \<open>Append-only logs\<close>

text \<open>
  A log whose states represent record sequences.  \<open>room s\<close> bounds from below how many more records
  can be appended; every append uses up at most one unit of it.
\<close>

locale record_log =
  fixes append_rec :: "'s \<Rightarrow> 'r \<Rightarrow> 's"
    and represents :: "'s \<Rightarrow> 'r list \<Rightarrow> bool"
    and room :: "'s \<Rightarrow> nat"
    and read_back :: "'s \<Rightarrow> 'r list result"
  assumes append_represents:
      "represents s log \<Longrightarrow> 0 < room s \<Longrightarrow> represents (append_rec s r) (log @ [r])"
    and append_room: "represents s log \<Longrightarrow> 0 < room s \<Longrightarrow> room s \<le> Suc (room (append_rec s r))"
    and read_back_represents: "represents s log \<Longrightarrow> read_back s = Inr log"
begin

lemma appends_represent:
  "represents s log \<Longrightarrow> length rs \<le> room s \<Longrightarrow>
     represents (fold (\<lambda>r t. append_rec t r) rs s) (log @ rs)"
proof (induction rs arbitrary: s log)
  case (Cons r rs)
  have room: "0 < room s" using Cons.prems by simp
  have "represents (append_rec s r) (log @ [r])"
    by (rule append_represents[OF Cons.prems(1) room])
  moreover have "length rs \<le> room (append_rec s r)"
    using append_room[OF Cons.prems(1) room, of r] Cons.prems(2) by simp
  ultimately have "represents (fold (\<lambda>r t. append_rec t r) rs (append_rec s r)) ((log @ [r]) @ rs)"
    by (rule Cons.IH)
  then show ?case by simp
qed simp

lemma appends_read_back:
  "represents s log \<Longrightarrow> length rs \<le> room s \<Longrightarrow>
     read_back (fold (\<lambda>r t. append_rec t r) rs s) = Inr (log @ rs)"
  by (intro read_back_represents appends_represent)

lemma represents_unique: "represents s log \<Longrightarrow> represents s log' \<Longrightarrow> log = log'"
  using read_back_represents[of s log] read_back_represents[of s log'] by simp

end

section \<open>Two-version stores\<close>

text \<open>
  The concurrency design of the system keeps two versions of every structure: the one the
  read-only transactions see and the one of the (single) write transaction.  A write creates or
  changes only the write version; a checkpoint installs it, a rollback drops it.
\<close>

locale two_version_store =
  fixes ro_view :: "'s \<Rightarrow> 'v"
    and wr_view :: "'s \<Rightarrow> 'v"
    and write_op :: "'op \<Rightarrow> 's \<Rightarrow> 's"
    and apply_op :: "'op \<Rightarrow> 'v \<Rightarrow> 'v"
    and checkpoint :: "'s \<Rightarrow> 's"
    and rollback :: "'s \<Rightarrow> 's"
    and ok :: "'s \<Rightarrow> bool"
  assumes write_ro: "ok s \<Longrightarrow> ro_view (write_op x s) = ro_view s"
    and write_wr: "ok s \<Longrightarrow> wr_view (write_op x s) = apply_op x (wr_view s)"
    and write_ok: "ok s \<Longrightarrow> ok (write_op x s)"
    and checkpoint_ro: "ok s \<Longrightarrow> ro_view (checkpoint s) = wr_view s"
    and checkpoint_wr: "ok s \<Longrightarrow> wr_view (checkpoint s) = wr_view s"
    and checkpoint_ok: "ok s \<Longrightarrow> ok (checkpoint s)"
    and rollback_ro: "ok s \<Longrightarrow> ro_view (rollback s) = ro_view s"
    and rollback_wr: "ok s \<Longrightarrow> wr_view (rollback s) = ro_view s"
    and rollback_ok: "ok s \<Longrightarrow> ok (rollback s)"
begin

lemma writes_ok: "ok s \<Longrightarrow> ok (fold write_op xs s)"
  by (induction xs arbitrary: s) (auto simp: write_ok)

text \<open>Isolation: however many writes a transaction does, readers keep their view.\<close>

lemma writes_isolated: "ok s \<Longrightarrow> ro_view (fold write_op xs s) = ro_view s"
  by (induction xs arbitrary: s) (auto simp: write_ok write_ro)

lemma writes_wr: "ok s \<Longrightarrow> wr_view (fold write_op xs s) = fold apply_op xs (wr_view s)"
  by (induction xs arbitrary: s) (auto simp: write_ok write_wr)

text \<open>Atomicity: a commit publishes all the writes at once, an abort none.\<close>

lemma commit_publishes:
  "ok s \<Longrightarrow> ro_view (checkpoint (fold write_op xs s)) = fold apply_op xs (wr_view s)"
  by (simp add: checkpoint_ro writes_ok writes_wr)

lemma abort_discards:
  "ok s \<Longrightarrow> ro_view (rollback (fold write_op xs s)) = ro_view s \<and>
     wr_view (rollback (fold write_op xs s)) = ro_view s"
  by (simp add: rollback_ro rollback_wr writes_ok writes_isolated)

end

section \<open>Key indexes\<close>

text \<open>
  An index from keys to values.  The abstract machine is a map.  Appending promises something only for a key that
  is not in the index and while the index has room; deleting reports whether the key was there.
\<close>

datatype ('k, 'v) index_op = Append 'k 'v | Delete 'k

fun abs_op :: "('k, 'v) index_op \<Rightarrow> ('k \<rightharpoonup> 'v) \<Rightarrow> bool \<times> ('k \<rightharpoonup> 'v)" where
  "abs_op (Append k v) kv = (if kv k = None then (True, kv(k \<mapsto> v)) else (False, kv))"
| "abs_op (Delete k) kv = (kv k \<noteq> None, kv(k := None))"

fun abs_ops :: "('k, 'v) index_op list \<Rightarrow> ('k \<rightharpoonup> 'v) \<Rightarrow> bool list \<times> ('k \<rightharpoonup> 'v)" where
  "abs_ops [] kv = ([], kv)"
| "abs_ops (op # ops) kv = (let (b, kv1) = abs_op op kv; (bs, kv2) = abs_ops ops kv1 in (b # bs, kv2))"

fun fresh_appends :: "('k, 'v) index_op list \<Rightarrow> ('k \<rightharpoonup> 'v) \<Rightarrow> bool" where
  "fresh_appends [] kv \<longleftrightarrow> True"
| "fresh_appends (op # ops) kv \<longleftrightarrow>
     (case op of Append k v \<Rightarrow> kv k = None | Delete k \<Rightarrow> True) \<and> fresh_appends ops (snd (abs_op op kv))"

text \<open>The calls of a history on the implementation, with what each returned.\<close>

fun run_ops :: "('s \<Rightarrow> 'k \<Rightarrow> 'v \<Rightarrow> (bool \<times> 's) result) \<Rightarrow> ('s \<Rightarrow> 'k \<Rightarrow> (bool \<times> 's) result) \<Rightarrow> 's \<Rightarrow>
    ('k, 'v) index_op list \<Rightarrow> (bool list \<times> 's) result" where
  "run_ops app del s [] = Inr ([], s)"
| "run_ops app del s (op # ops) =
     bind_result (case op of Append k v \<Rightarrow> app s k v | Delete k \<Rightarrow> del s k) (\<lambda>(b, s1).
       bind_result (run_ops app del s1 ops) (\<lambda>(bs, s2). Inr (b # bs, s2)))"

locale key_index =
  fixes lookup :: "'s \<Rightarrow> 'k \<Rightarrow> 'v option result"
    and append :: "'s \<Rightarrow> 'k \<Rightarrow> 'v \<Rightarrow> (bool \<times> 's) result"
    and delete :: "'s \<Rightarrow> 'k \<Rightarrow> (bool \<times> 's) result"
    and represents :: "'s \<Rightarrow> ('k \<rightharpoonup> 'v) \<Rightarrow> bool"
    and room :: nat
  assumes lookup_represents: "represents s kv \<Longrightarrow> lookup s k = Inr (kv k)"
    and append_represents: "represents s kv \<Longrightarrow> kv k = None \<Longrightarrow> card (dom kv) < room \<Longrightarrow>
      \<exists>s'. append s k v = Inr (True, s') \<and> represents s' (kv(k \<mapsto> v))"
    and delete_represents: "represents s kv \<Longrightarrow>
      \<exists>s'. delete s k = Inr (kv k \<noteq> None, s') \<and> represents s' (kv(k := None))"
    and represents_finite: "represents s kv \<Longrightarrow> finite (dom kv)"
begin

lemma represents_unique: "represents s kv \<Longrightarrow> represents s kv' \<Longrightarrow> kv = kv'"
  using lookup_represents[of s kv] lookup_represents[of s kv'] by auto

lemma card_abs_op: "finite (dom kv) \<Longrightarrow> card (dom (snd (abs_op op kv))) \<le> card (dom kv) + 1"
  by (cases op) (auto simp: card_insert_if card_Diff1_le intro: order_trans[OF card_Diff1_le])

lemma op_represents:
  assumes "represents s kv" "fresh_appends [op] kv" "card (dom kv) < room"
  obtains s' where "(case op of Append k v \<Rightarrow> append s k v | Delete k \<Rightarrow> delete s k) = Inr (fst (abs_op op kv), s')"
    "represents s' (snd (abs_op op kv))"
proof (cases op)
  case (Append k v)
  then show thesis using append_represents[OF assms(1), of k v] assms(2,3) that by auto
next
  case (Delete k)
  then show thesis using delete_represents[OF assms(1), of k] that by auto
qed

text \<open>A history of calls refines the history of the map.\<close>

lemma history_represents:
  "represents s kv \<Longrightarrow> fresh_appends ops kv \<Longrightarrow> card (dom kv) + length ops \<le> room \<Longrightarrow>
    \<exists>s'. run_ops append delete s ops = Inr (fst (abs_ops ops kv), s') \<and> represents s' (snd (abs_ops ops kv))"
proof (induction ops arbitrary: s kv)
  case (Cons op ops)
  have f: "fresh_appends [op] kv" "card (dom kv) < room" using Cons.prems(2,3) by auto
  obtain s1 where 1: "(case op of Append k v \<Rightarrow> append s k v | Delete k \<Rightarrow> delete s k) = Inr (fst (abs_op op kv), s1)"
      "represents s1 (snd (abs_op op kv))"
    by (rule op_represents[OF Cons.prems(1) f])
  have "fresh_appends ops (snd (abs_op op kv))" "card (dom (snd (abs_op op kv))) + length ops \<le> room"
    using Cons.prems(2,3) card_abs_op[OF represents_finite[OF Cons.prems(1)], of op] by auto
  from Cons.IH[OF 1(2) this] obtain s' where
    "run_ops append delete s1 ops = Inr (fst (abs_ops ops (snd (abs_op op kv))), s')"
    "represents s' (snd (abs_ops ops (snd (abs_op op kv))))" by blast
  then show ?case using 1(1) by (simp add: Let_def split_def)
qed simp

end

end
