(* ===== verification/Wal_Record.thy ===== *)
theory Wal_Record
  imports Prelude
begin

text \<open>
  The records of the write-ahead log: \<^verbatim>\<open>src/src/storage/wal/include/wal_record.h\<close> and
  \<^verbatim>\<open>src/src/storage/wal/wal_record.cpp\<close>.  A tagged union of the source is a datatype whose
  constructors are the union's tags; the \<open>operator==\<close> of every struct is its own definition
  and is shown to decide equality.  \<open>sizeof\<close> of a record is computed from the field types by
  the layout rules of the C++ ABI, because the log places records by it.
\<close>

section \<open>Storage structure identifiers\<close>

datatype RelDirection = FWD | BWD

datatype ListFileType = BASE_LISTS | HEADERS | METADATA

record RelNodeTableAndDir =
  relTableID :: table_id
  srcNodeTableID :: table_id
  dir :: RelDirection

record RelPropertyListID =
  relNodeTableAndDir :: RelNodeTableAndDir
  propertyID :: u32

text \<open>The constructors are the values of \<open>ListType\<close>, each with its member of the union.\<close>

datatype ListFileID =
    UNSTRUCTURED_NODE_PROPERTY_LISTS ListFileType table_id
  | ADJ_LISTS ListFileType RelNodeTableAndDir
  | REL_PROPERTY_LISTS ListFileType RelPropertyListID

record StructuredNodePropertyColumnID =
  columnTableID :: table_id
  columnPropertyID :: u32

text \<open>
  The constructors are the values of \<open>StorageStructureType\<close>; the flag is the struct's
  \<open>isOverflow\<close> field.
\<close>

datatype StorageStructureID =
    STRUCTURED_NODE_PROPERTY_COLUMN (isOverflow: bool) StructuredNodePropertyColumnID
  | LISTS (isOverflow: bool) ListFileID
  | NODE_INDEX (isOverflow: bool) table_id

definition eq_RelNodeTableAndDir :: "RelNodeTableAndDir \<Rightarrow> RelNodeTableAndDir \<Rightarrow> bool" where
  "eq_RelNodeTableAndDir l r \<longleftrightarrow>
     relTableID l = relTableID r \<and> srcNodeTableID l = srcNodeTableID r \<and> dir l = dir r"

definition eq_RelPropertyListID :: "RelPropertyListID \<Rightarrow> RelPropertyListID \<Rightarrow> bool" where
  "eq_RelPropertyListID l r \<longleftrightarrow>
     eq_RelNodeTableAndDir (relNodeTableAndDir l) (relNodeTableAndDir r) \<and>
     propertyID l = propertyID r"

fun eq_ListFileID :: "ListFileID \<Rightarrow> ListFileID \<Rightarrow> bool" where
  "eq_ListFileID (UNSTRUCTURED_NODE_PROPERTY_LISTS f t) (UNSTRUCTURED_NODE_PROPERTY_LISTS f' t') =
     (f = f' \<and> t = t')"
| "eq_ListFileID (ADJ_LISTS f a) (ADJ_LISTS f' a') = (f = f' \<and> eq_RelNodeTableAndDir a a')"
| "eq_ListFileID (REL_PROPERTY_LISTS f p) (REL_PROPERTY_LISTS f' p') =
     (f = f' \<and> eq_RelPropertyListID p p')"
| "eq_ListFileID _ _ = False"

definition eq_StructuredNodePropertyColumnID ::
  "StructuredNodePropertyColumnID \<Rightarrow> StructuredNodePropertyColumnID \<Rightarrow> bool" where
  "eq_StructuredNodePropertyColumnID l r \<longleftrightarrow>
     columnTableID l = columnTableID r \<and> columnPropertyID l = columnPropertyID r"

fun eq_StorageStructureID :: "StorageStructureID \<Rightarrow> StorageStructureID \<Rightarrow> bool" where
  "eq_StorageStructureID (STRUCTURED_NODE_PROPERTY_COLUMN v c)
     (STRUCTURED_NODE_PROPERTY_COLUMN v' c') = (v = v' \<and> eq_StructuredNodePropertyColumnID c c')"
| "eq_StorageStructureID (LISTS v l) (LISTS v' l') = (v = v' \<and> eq_ListFileID l l')"
| "eq_StorageStructureID (NODE_INDEX v t) (NODE_INDEX v' t') = (v = v' \<and> t = t')"
| "eq_StorageStructureID _ _ = False"

definition newStructuredNodePropertyColumnID ::
  "table_id \<Rightarrow> u32 \<Rightarrow> bool \<Rightarrow> StorageStructureID" where
  "newStructuredNodePropertyColumnID tableID propID ovf =
     STRUCTURED_NODE_PROPERTY_COLUMN ovf \<lparr>columnTableID = tableID, columnPropertyID = propID\<rparr>"

definition newStructuredNodePropertyMainColumnID :: "table_id \<Rightarrow> u32 \<Rightarrow> StorageStructureID" where
  "newStructuredNodePropertyMainColumnID tableID propID =
     newStructuredNodePropertyColumnID tableID propID False"

definition newStructuredNodePropertyColumnOverflowPagesID ::
  "table_id \<Rightarrow> u32 \<Rightarrow> StorageStructureID" where
  "newStructuredNodePropertyColumnOverflowPagesID tableID propID =
     newStructuredNodePropertyColumnID tableID propID True"

text \<open>
  \<open>newNodeIndexID\<close> never assigns \<open>isOverflow\<close>: the argument \<open>uninit\<close> is whatever the
  uninitialised field holds.
\<close>

definition newNodeIndexID :: "bool \<Rightarrow> table_id \<Rightarrow> StorageStructureID" where
  "newNodeIndexID uninit tableID = NODE_INDEX uninit tableID"

definition newUnstructuredNodePropertyListsID ::
  "table_id \<Rightarrow> ListFileType \<Rightarrow> StorageStructureID" where
  "newUnstructuredNodePropertyListsID tableID f =
     LISTS False (UNSTRUCTURED_NODE_PROPERTY_LISTS f tableID)"

definition newAdjListsID ::
  "table_id \<Rightarrow> table_id \<Rightarrow> RelDirection \<Rightarrow> ListFileType \<Rightarrow> StorageStructureID" where
  "newAdjListsID tableID srcID d f =
     LISTS False (ADJ_LISTS f \<lparr>relTableID = tableID, srcNodeTableID = srcID, dir = d\<rparr>)"

text \<open>
  The first two parameters are passed on in order, although the source names them
  \<open>nodeTableID\<close> and \<open>relTableID\<close>: its only caller passes the relation table first.
\<close>

definition newRelPropertyListsID ::
  "table_id \<Rightarrow> table_id \<Rightarrow> RelDirection \<Rightarrow> u32 \<Rightarrow> ListFileType \<Rightarrow> StorageStructureID" where
  "newRelPropertyListsID nodeTabID relTabID d propID f =
     LISTS False (REL_PROPERTY_LISTS f
       \<lparr>relNodeTableAndDir = \<lparr>relTableID = nodeTabID, srcNodeTableID = relTabID, dir = d\<rparr>,
        propertyID = propID\<rparr>)"

section \<open>Log records\<close>

record PageUpdateOrInsertRecord =
  storageStructureID :: StorageStructureID
  pageIdxInOriginalFile :: page_idx
  pageIdxInWAL :: page_idx
  isInsert :: bool

record OverflowFileNextBytePosRecord =
  ovfStorageStructureID :: StorageStructureID
  prevNextBytePosToWriteTo :: u64

datatype WALRecord =
    PAGE_UPDATE_OR_INSERT_RECORD PageUpdateOrInsertRecord
  | TABLE_STATISTICS_RECORD bool
  | COMMIT_RECORD u64
  | CATALOG_RECORD
  | NODE_TABLE_RECORD table_id
  | REL_TABLE_RECORD table_id
  | OVERFLOW_FILE_NEXT_BYTE_POS_RECORD OverflowFileNextBytePosRecord
  | COPY_NODE_CSV_RECORD table_id
  | COPY_REL_CSV_RECORD table_id
  | DROP_TABLE_RECORD bool table_id

definition eq_PageUpdateOrInsertRecord ::
  "PageUpdateOrInsertRecord \<Rightarrow> PageUpdateOrInsertRecord \<Rightarrow> bool" where
  "eq_PageUpdateOrInsertRecord l r \<longleftrightarrow>
     eq_StorageStructureID (storageStructureID l) (storageStructureID r) \<and>
     pageIdxInOriginalFile l = pageIdxInOriginalFile r \<and>
     pageIdxInWAL l = pageIdxInWAL r \<and> isInsert l = isInsert r"

definition eq_OverflowFileNextBytePosRecord ::
  "OverflowFileNextBytePosRecord \<Rightarrow> OverflowFileNextBytePosRecord \<Rightarrow> bool" where
  "eq_OverflowFileNextBytePosRecord l r \<longleftrightarrow>
     eq_StorageStructureID (ovfStorageStructureID l) (ovfStorageStructureID r) \<and>
     prevNextBytePosToWriteTo l = prevNextBytePosToWriteTo r"

text \<open>As in the source: first the tags, then the union member the tag selects.\<close>

definition eq_WALRecord :: "WALRecord \<Rightarrow> WALRecord \<Rightarrow> bool" where
  "eq_WALRecord l r =
     (case l of
        PAGE_UPDATE_OR_INSERT_RECORD p \<Rightarrow>
          (case r of PAGE_UPDATE_OR_INSERT_RECORD p' \<Rightarrow> eq_PageUpdateOrInsertRecord p p'
           | _ \<Rightarrow> False)
      | COMMIT_RECORD t \<Rightarrow> (case r of COMMIT_RECORD t' \<Rightarrow> t = t' | _ \<Rightarrow> False)
      | TABLE_STATISTICS_RECORD b \<Rightarrow>
          (case r of TABLE_STATISTICS_RECORD b' \<Rightarrow> b = b' | _ \<Rightarrow> False)
      | CATALOG_RECORD \<Rightarrow> (case r of CATALOG_RECORD \<Rightarrow> True | _ \<Rightarrow> False)
      | NODE_TABLE_RECORD t \<Rightarrow> (case r of NODE_TABLE_RECORD t' \<Rightarrow> t = t' | _ \<Rightarrow> False)
      | REL_TABLE_RECORD t \<Rightarrow> (case r of REL_TABLE_RECORD t' \<Rightarrow> t = t' | _ \<Rightarrow> False)
      | OVERFLOW_FILE_NEXT_BYTE_POS_RECORD p \<Rightarrow>
          (case r of OVERFLOW_FILE_NEXT_BYTE_POS_RECORD p' \<Rightarrow> eq_OverflowFileNextBytePosRecord p p'
           | _ \<Rightarrow> False)
      | COPY_NODE_CSV_RECORD t \<Rightarrow> (case r of COPY_NODE_CSV_RECORD t' \<Rightarrow> t = t' | _ \<Rightarrow> False)
      | COPY_REL_CSV_RECORD t \<Rightarrow> (case r of COPY_REL_CSV_RECORD t' \<Rightarrow> t = t' | _ \<Rightarrow> False)
      | DROP_TABLE_RECORD b t \<Rightarrow>
          (case r of DROP_TABLE_RECORD b' t' \<Rightarrow> b = b' \<and> t = t' | _ \<Rightarrow> False))"

definition newPageInsertOrUpdateRecord ::
  "StorageStructureID \<Rightarrow> page_idx \<Rightarrow> page_idx \<Rightarrow> bool \<Rightarrow> WALRecord" where
  "newPageInsertOrUpdateRecord sid orig inWAL ins = PAGE_UPDATE_OR_INSERT_RECORD
     \<lparr>storageStructureID = sid, pageIdxInOriginalFile = orig, pageIdxInWAL = inWAL,
      isInsert = ins\<rparr>"

definition newPageUpdateRecord :: "StorageStructureID \<Rightarrow> page_idx \<Rightarrow> page_idx \<Rightarrow> WALRecord" where
  "newPageUpdateRecord sid orig inWAL = newPageInsertOrUpdateRecord sid orig inWAL False"

definition newPageInsertRecord :: "StorageStructureID \<Rightarrow> page_idx \<Rightarrow> page_idx \<Rightarrow> WALRecord" where
  "newPageInsertRecord sid orig inWAL = newPageInsertOrUpdateRecord sid orig inWAL True"

definition newOverflowFileNextBytePosRecord :: "StorageStructureID \<Rightarrow> u64 \<Rightarrow> WALRecord" where
  "newOverflowFileNextBytePosRecord sid prev = OVERFLOW_FILE_NEXT_BYTE_POS_RECORD
     \<lparr>ovfStorageStructureID = sid, prevNextBytePosToWriteTo = prev\<rparr>"

fun is_commit :: "WALRecord \<Rightarrow> bool" where
  "is_commit (COMMIT_RECORD _) = True"
| "is_commit _ = False"

section \<open>Layout\<close>

text \<open>
  A type's layout is its size and alignment.  A struct places each member at the next multiple
  of the member's alignment and is padded to a multiple of its own; a union overlays its members.
\<close>

type_synonym layout = "nat \<times> nat"

definition align_up :: "nat \<Rightarrow> nat \<Rightarrow> nat" where
  "align_up n a = ((n + a - 1) div a) * a"

fun struct_end :: "nat \<Rightarrow> layout list \<Rightarrow> nat" where
  "struct_end off [] = off"
| "struct_end off ((sz, al) # fs) = struct_end (align_up off al + sz) fs"

definition struct_layout :: "layout list \<Rightarrow> layout" where
  "struct_layout fs = (let al = Max (set (map snd fs)) in (align_up (struct_end 0 fs) al, al))"

definition union_layout :: "layout list \<Rightarrow> layout" where
  "union_layout fs =
     (let al = Max (set (map snd fs)) in (align_up (Max (set (map fst fs))) al, al))"

definition layout_u8 :: layout where "layout_u8 = (1, 1)"
definition layout_u32 :: layout where "layout_u32 = (4, 4)"
definition layout_u64 :: layout where "layout_u64 = (8, 8)"

definition layout_RelNodeTableAndDir :: layout where
  "layout_RelNodeTableAndDir = struct_layout [layout_u64, layout_u64, layout_u8]"

definition layout_ListFileID :: layout where
  "layout_ListFileID = struct_layout [layout_u8, layout_u8,
     union_layout [struct_layout [layout_u64], struct_layout [layout_RelNodeTableAndDir],
       struct_layout [layout_RelNodeTableAndDir, layout_u32]]]"

definition layout_StorageStructureID :: layout where
  "layout_StorageStructureID = struct_layout [layout_u8, layout_u8,
     union_layout [struct_layout [layout_u64, layout_u32], layout_ListFileID,
       struct_layout [layout_u64]]]"

definition layout_WALRecord :: layout where
  "layout_WALRecord = struct_layout [layout_u8,
     union_layout
       [struct_layout [layout_StorageStructureID, layout_u64, layout_u64, layout_u8],
        struct_layout [layout_u64], struct_layout [layout_u64], struct_layout [layout_u64],
        struct_layout [layout_StorageStructureID, layout_u64], struct_layout [layout_u64],
        struct_layout [layout_u64], struct_layout [layout_u8],
        struct_layout [layout_u8, layout_u64]]]"

definition sizeof_WALRecord :: nat where
  "sizeof_WALRecord = fst layout_WALRecord"

lemmas layout_defs = layout_u8_def layout_u32_def layout_u64_def layout_RelNodeTableAndDir_def
  layout_ListFileID_def layout_StorageStructureID_def layout_WALRecord_def struct_layout_def
  union_layout_def align_up_def

lemma sizeof_WALRecord_eq [simp]: "sizeof_WALRecord = 80"
  by (simp add: sizeof_WALRecord_def layout_defs)

section \<open>The comparison operators decide equality\<close>

lemma eq_RelNodeTableAndDir_iff [simp]: "eq_RelNodeTableAndDir l r \<longleftrightarrow> l = r"
  by (auto simp: eq_RelNodeTableAndDir_def)

lemma eq_RelPropertyListID_iff [simp]: "eq_RelPropertyListID l r \<longleftrightarrow> l = r"
  by (auto simp: eq_RelPropertyListID_def)

lemma eq_ListFileID_iff [simp]: "eq_ListFileID l r \<longleftrightarrow> l = r"
  by (cases l; cases r) auto

lemma eq_StructuredNodePropertyColumnID_iff [simp]:
  "eq_StructuredNodePropertyColumnID l r \<longleftrightarrow> l = r"
  by (auto simp: eq_StructuredNodePropertyColumnID_def)

lemma eq_StorageStructureID_iff [simp]: "eq_StorageStructureID l r \<longleftrightarrow> l = r"
  by (cases l; cases r) auto

lemma eq_PageUpdateOrInsertRecord_iff [simp]: "eq_PageUpdateOrInsertRecord l r \<longleftrightarrow> l = r"
  by (auto simp: eq_PageUpdateOrInsertRecord_def)

lemma eq_OverflowFileNextBytePosRecord_iff [simp]:
  "eq_OverflowFileNextBytePosRecord l r \<longleftrightarrow> l = r"
  by (auto simp: eq_OverflowFileNextBytePosRecord_def)

lemma eq_WALRecord_iff: "eq_WALRecord l r \<longleftrightarrow> l = r"
  by (cases l) (auto simp: eq_WALRecord_def split: WALRecord.splits)

end
