(* ===== verification/File_Handle.thy ===== *)
theory File_Handle
  imports Prelude Wal_Record
begin

unbundle bit_operations_syntax

text \<open>
  The in-memory image of a paged file: \<^verbatim>\<open>src/src/storage/buffer_manager/file_handle.cpp\<close>,
  \<^verbatim>\<open>include/file_handle.h\<close> and its extension with page versions
  \<^verbatim>\<open>versioned_file_handle.cpp\<close>, \<^verbatim>\<open>include/versioned_file_handle.h\<close>.

  A \<open>vector<unique_ptr<...>>\<close> is a list of options, \<open>None\<close> the null pointer.  The file's bytes
  are not part of the handle (the buffer pool theory owns them).  The shared mutex only
  serialises the operations, which the sequential model already does.
\<close>

section \<open>FileHandle\<close>

record FileHandle =
  flags :: u8
  pageLocks :: "bool option list"
  pageIdxToFrameMap :: "page_idx option list"
  numPages :: nat
  pageCapacity :: nat

definition isLargePaged :: "('a) FileHandle_scheme \<Rightarrow> bool" where
  "isLargePaged fh \<longleftrightarrow> flags fh AND 1 \<noteq> 0"

definition isNewTmpFile :: "('a) FileHandle_scheme \<Rightarrow> bool" where
  "isNewTmpFile fh \<longleftrightarrow> flags fh AND 2 \<noteq> 0"

definition createFileIfNotExists :: "('a) FileHandle_scheme \<Rightarrow> bool" where
  "createFileIfNotExists fh \<longleftrightarrow> flags fh AND 4 \<noteq> 0"

definition getPageSize :: "('a) FileHandle_scheme \<Rightarrow> nat" where
  "getPageSize fh = (if isLargePaged fh then LARGE_PAGE_SIZE else DEFAULT_PAGE_SIZE)"

definition isAFrame :: "page_idx \<Rightarrow> bool" where
  "isAFrame mappedFrameIdx \<longleftrightarrow> UINT32_MAX \<noteq> mappedFrameIdx"

text \<open>\<open>vector::resize(n)\<close> truncates or appends default (null) elements.\<close>

definition vec_resize :: "nat \<Rightarrow> 'b \<Rightarrow> 'b list \<Rightarrow> 'b list" where
  "vec_resize n d xs = take n xs @ replicate (n - length xs) d"

definition addNewPageLockAndFramePtrWithoutLock ::
  "('a) FileHandle_scheme \<Rightarrow> page_idx \<Rightarrow> ('a) FileHandle_scheme" where
  "addNewPageLockAndFramePtrWithoutLock fh i =
     fh\<lparr>pageLocks := (pageLocks fh)[i := Some False],
        pageIdxToFrameMap := (pageIdxToFrameMap fh)[i := Some UINT32_MAX]\<rparr>"

definition initPageIdxToFrameMapAndLocks :: "('a) FileHandle_scheme \<Rightarrow> ('a) FileHandle_scheme" where
  "initPageIdxToFrameMapAndLocks fh =
     fold (\<lambda>i h. addNewPageLockAndFramePtrWithoutLock h i) [0..<numPages fh]
       (fh\<lparr>pageIdxToFrameMap := vec_resize (pageCapacity fh) None (pageIdxToFrameMap fh),
           pageLocks := vec_resize (pageCapacity fh) None (pageLocks fh)\<rparr>)"

text \<open>
  The constructors.  \<open>fileLength\<close> is what the operating system reports for the opened file;
  the number of pages is the rounded-up quotient.
\<close>

definition constructExistingFileHandle :: "u8 \<Rightarrow> nat \<Rightarrow> FileHandle" where
  "constructExistingFileHandle fl fileLength =
     (let fh0 = \<lparr>flags = fl, pageLocks = [], pageIdxToFrameMap = [], numPages = 0,
                 pageCapacity = 0\<rparr>;
          n = to_u32 ((fileLength + getPageSize fh0 - 1) div getPageSize fh0)
      in initPageIdxToFrameMapAndLocks (fh0\<lparr>numPages := n, pageCapacity := n\<rparr>))"

definition constructNewFileHandle :: "u8 \<Rightarrow> FileHandle" where
  "constructNewFileHandle fl = initPageIdxToFrameMapAndLocks
     \<lparr>flags = fl, pageLocks = [], pageIdxToFrameMap = [], numPages = 0, pageCapacity = 0\<rparr>"

definition newFileHandle :: "u8 \<Rightarrow> nat \<Rightarrow> FileHandle" where
  "newFileHandle fl fileLength =
     (if fl AND 2 = 0 then constructExistingFileHandle fl fileLength
      else constructNewFileHandle fl)"

definition resetToZeroPagesAndPageCapacity :: "('a) FileHandle_scheme \<Rightarrow> ('a) FileHandle_scheme" where
  "resetToZeroPagesAndPageCapacity fh =
     initPageIdxToFrameMapAndLocks (fh\<lparr>numPages := 0, pageCapacity := 0\<rparr>)"

text \<open>\<open>test_and_set\<close> on the page's flag; the result says whether this call took the lock.\<close>

definition acquire :: "('a) FileHandle_scheme \<Rightarrow> page_idx \<Rightarrow> (bool \<times> ('a) FileHandle_scheme) result" where
  "acquire fh i =
     (if length (pageLocks fh) \<le> i then Inl (RuntimeException ''pageIdx is >= pageLocks.size()'')
      else case pageLocks fh ! i of
        None \<Rightarrow> Inl (UndefinedBehaviour ''null page lock'')
      | Some b \<Rightarrow> Inr (\<not> b, fh\<lparr>pageLocks := (pageLocks fh)[i := Some True]\<rparr>))"

definition acquirePageLock ::
  "('a) FileHandle_scheme \<Rightarrow> page_idx \<Rightarrow> bool \<Rightarrow> (bool \<times> ('a) FileHandle_scheme) result" where
  "acquirePageLock fh i block =
     bind_result (acquire fh i)
       (\<lambda>(got, fh'). if block \<and> \<not> got then Inl Blocks else Inr (got, fh'))"

definition releasePageLock ::
  "('a) FileHandle_scheme \<Rightarrow> page_idx \<Rightarrow> ('a) FileHandle_scheme result" where
  "releasePageLock fh i =
     (if length (pageLocks fh) \<le> i \<or> pageLocks fh ! i = None
      then Inl (UndefinedBehaviour ''null page lock'')
      else Inr (fh\<lparr>pageLocks := (pageLocks fh)[i := Some False]\<rparr>))"

definition getFrameIdx :: "('a) FileHandle_scheme \<Rightarrow> page_idx \<Rightarrow> page_idx result" where
  "getFrameIdx fh i =
     (if length (pageIdxToFrameMap fh) \<le> i then Inl (UndefinedBehaviour ''frame map index'')
      else case pageIdxToFrameMap fh ! i of
        None \<Rightarrow> Inl (UndefinedBehaviour ''null frame pointer'')
      | Some f \<Rightarrow> Inr f)"

definition swizzle :: "('a) FileHandle_scheme \<Rightarrow> page_idx \<Rightarrow> page_idx \<Rightarrow> ('a) FileHandle_scheme" where
  "swizzle fh i f = fh\<lparr>pageIdxToFrameMap := (pageIdxToFrameMap fh)[i := Some f]\<rparr>"

definition unswizzle :: "('a) FileHandle_scheme \<Rightarrow> page_idx \<Rightarrow> ('a) FileHandle_scheme" where
  "unswizzle fh i = swizzle fh i UINT32_MAX"

text \<open>
  The capacity grows by a fifth: \<open>(uint32_t)(pageCapacity * 1.2)\<close>.  The double nearest to 1.2 is
  below it by less than a quarter unit in the last place, so the product of any 32-bit capacity
  truncates to the integer quotient.
\<close>

definition addNewPageWithoutLock :: "('a) FileHandle_scheme \<Rightarrow> page_idx \<times> ('a) FileHandle_scheme" where
  "addNewPageWithoutLock fh =
     (let fh1 =
        (if numPages fh = pageCapacity fh then
           let c = max (to_u32 (pageCapacity fh + 1)) (to_u32 (pageCapacity fh * 6 div 5))
           in fh\<lparr>pageCapacity := c,
                 pageIdxToFrameMap := vec_resize c None (pageIdxToFrameMap fh),
                 pageLocks := vec_resize c None (pageLocks fh)\<rparr>
         else fh);
          fh2 = addNewPageLockAndFramePtrWithoutLock fh1 (numPages fh1)
      in (numPages fh2, fh2\<lparr>numPages := to_u32 (numPages fh2 + 1)\<rparr>))"

definition addNewPage :: "('a) FileHandle_scheme \<Rightarrow> page_idx \<times> ('a) FileHandle_scheme" where
  "addNewPage fh = addNewPageWithoutLock fh"

definition removePageIdxAndTruncateIfNecessaryWithoutLock ::
  "('a) FileHandle_scheme \<Rightarrow> page_idx \<Rightarrow> ('a) FileHandle_scheme" where
  "removePageIdxAndTruncateIfNecessaryWithoutLock fh i =
     (if numPages fh \<le> i then fh
      else (fold (\<lambda>j h. h\<lparr>pageIdxToFrameMap := (pageIdxToFrameMap h)[j := None],
                         pageLocks := (pageLocks h)[j := None]\<rparr>)
              [i..<numPages fh] fh)\<lparr>numPages := i\<rparr>)"

definition removePageIdxAndTruncateIfNecessary ::
  "('a) FileHandle_scheme \<Rightarrow> page_idx \<Rightarrow> ('a) FileHandle_scheme" where
  "removePageIdxAndTruncateIfNecessary fh i = removePageIdxAndTruncateIfNecessaryWithoutLock fh i"

section \<open>VersionedFileHandle\<close>

definition MULTI_VERSION_FILE_PAGE_GROUP_SIZE :: nat where
  "MULTI_VERSION_FILE_PAGE_GROUP_SIZE = 64"

record VersionedFileHandle = FileHandle +
  storageStructureIDForWALRecord :: StorageStructureID
  pageVersions :: "page_idx list list"
  pageGroupLocks :: "bool list"

record PageElementCursor =
  cursorPageIdx :: page_idx
  posInPage :: nat

text \<open>\<open>PageUtils::getPageElementCursorForPos\<close>, with its casts to 32 and 16 bits.\<close>

definition getPageElementCursorForPos :: "nat \<Rightarrow> nat \<Rightarrow> PageElementCursor" where
  "getPageElementCursorForPos elementPos numElementsPerPage =
     \<lparr>cursorPageIdx = to_u32 (elementPos div numElementsPerPage),
      posInPage = (elementPos mod numElementsPerPage) mod 65536\<rparr>"

definition getNumPageGroups :: "('a) VersionedFileHandle_scheme \<Rightarrow> nat" where
  "getNumPageGroups fh =
     (numPages fh + MULTI_VERSION_FILE_PAGE_GROUP_SIZE - 1) div MULTI_VERSION_FILE_PAGE_GROUP_SIZE"

definition resizePageGroupLocksAndPageVersionsToNumPageGroupsWithoutLock ::
  "('a) VersionedFileHandle_scheme \<Rightarrow> ('a) VersionedFileHandle_scheme" where
  "resizePageGroupLocksAndPageVersionsToNumPageGroupsWithoutLock fh =
     (let n = getNumPageGroups fh in
      if length (pageGroupLocks fh) = n then fh
      else fh\<lparr>pageGroupLocks := vec_resize n False (pageGroupLocks fh),
              pageVersions := vec_resize n [] (pageVersions fh)\<rparr>)"

definition newVersionedFileHandle ::
  "StorageStructureID \<Rightarrow> u8 \<Rightarrow> nat \<Rightarrow> VersionedFileHandle" where
  "newVersionedFileHandle sid fl fileLength =
     resizePageGroupLocksAndPageVersionsToNumPageGroupsWithoutLock
       (FileHandle.extend (newFileHandle fl fileLength)
          \<lparr>storageStructureIDForWALRecord = sid, pageVersions = [], pageGroupLocks = []\<rparr>)"

definition hasWALPageVersionNoPageLock ::
  "('a) VersionedFileHandle_scheme \<Rightarrow> page_idx \<Rightarrow> bool result" where
  "hasWALPageVersionNoPageLock fh i =
     (let c = getPageElementCursorForPos i MULTI_VERSION_FILE_PAGE_GROUP_SIZE in
      if length (pageVersions fh) \<le> cursorPageIdx c then Inl (UndefinedBehaviour ''pageVersions index'')
      else let g = pageVersions fh ! cursorPageIdx c in
        if g = [] then Inr False
        else if length g \<le> posInPage c then Inl (UndefinedBehaviour ''pageVersions index'')
        else Inr (g ! posInPage c \<noteq> UINT32_MAX))"

definition getWALPageVersionNoPageLock ::
  "('a) VersionedFileHandle_scheme \<Rightarrow> page_idx \<Rightarrow> page_idx result" where
  "getWALPageVersionNoPageLock fh i =
     (let c = getPageElementCursorForPos i MULTI_VERSION_FILE_PAGE_GROUP_SIZE in
      if length (pageVersions fh) \<le> cursorPageIdx c \<or>
         length (pageVersions fh ! cursorPageIdx c) \<le> posInPage c
      then Inl (UndefinedBehaviour ''pageVersions index'')
      else Inr (pageVersions fh ! cursorPageIdx c ! posInPage c))"

text \<open>
  The page group's spin lock is taken and cleared inside the call; it is only seen taken by a
  concurrent caller.
\<close>

definition createPageVersionGroupIfNecessary ::
  "('a) VersionedFileHandle_scheme \<Rightarrow> page_idx \<Rightarrow> ('a) VersionedFileHandle_scheme result" where
  "createPageVersionGroupIfNecessary fh i =
     (let g = cursorPageIdx (getPageElementCursorForPos i MULTI_VERSION_FILE_PAGE_GROUP_SIZE) in
      if length (pageGroupLocks fh) \<le> g \<or> length (pageVersions fh) \<le> g
      then Inl (UndefinedBehaviour ''page group index'')
      else if pageGroupLocks fh ! g then Inl Blocks
      else if pageVersions fh ! g = []
      then Inr (fh\<lparr>pageVersions := (pageVersions fh)[g :=
                  replicate MULTI_VERSION_FILE_PAGE_GROUP_SIZE UINT32_MAX]\<rparr>)
      else Inr fh)"

definition setWALPageVersionNoLock ::
  "('a) VersionedFileHandle_scheme \<Rightarrow> page_idx \<Rightarrow> page_idx \<Rightarrow> ('a) VersionedFileHandle_scheme result" where
  "setWALPageVersionNoLock fh i w =
     (let c = getPageElementCursorForPos i MULTI_VERSION_FILE_PAGE_GROUP_SIZE in
      if length (pageVersions fh) \<le> cursorPageIdx c \<or>
         length (pageVersions fh ! cursorPageIdx c) \<le> posInPage c
      then Inl (UndefinedBehaviour ''pageVersions index'')
      else Inr (fh\<lparr>pageVersions := (pageVersions fh)[cursorPageIdx c :=
             (pageVersions fh ! cursorPageIdx c)[posInPage c := w]]\<rparr>))"

definition setWALPageVersion ::
  "('a) VersionedFileHandle_scheme \<Rightarrow> page_idx \<Rightarrow> page_idx \<Rightarrow> ('a) VersionedFileHandle_scheme result" where
  "setWALPageVersion fh i w = setWALPageVersionNoLock fh i w"

definition clearWALPageVersionIfNecessary ::
  "('a) VersionedFileHandle_scheme \<Rightarrow> page_idx \<Rightarrow> ('a) VersionedFileHandle_scheme result" where
  "clearWALPageVersionIfNecessary fh i =
     (if numPages fh \<le> i then Inr fh
      else bind_result (createPageVersionGroupIfNecessary fh i) (\<lambda>fh1.
           bind_result (setWALPageVersionNoLock fh1 i UINT32_MAX) (\<lambda>fh2.
           releasePageLock fh2 i)))"

definition addNewPageVersioned ::
  "('a) VersionedFileHandle_scheme \<Rightarrow> page_idx \<times> ('a) VersionedFileHandle_scheme" where
  "addNewPageVersioned fh =
     (let (i, fh1) = addNewPageWithoutLock fh
      in (i, resizePageGroupLocksAndPageVersionsToNumPageGroupsWithoutLock fh1))"

definition removePageIdxAndTruncateIfNecessaryVersioned ::
  "('a) VersionedFileHandle_scheme \<Rightarrow> page_idx \<Rightarrow> ('a) VersionedFileHandle_scheme" where
  "removePageIdxAndTruncateIfNecessaryVersioned fh i =
     resizePageGroupLocksAndPageVersionsToNumPageGroupsWithoutLock
       (removePageIdxAndTruncateIfNecessaryWithoutLock fh i)"


section \<open>Representation invariant of FileHandle\<close>

text \<open>
  Both vectors have \<open>pageCapacity\<close> slots, and the slots of the file's pages are allocated.
\<close>

definition fh_inv :: "('a) FileHandle_scheme \<Rightarrow> bool" where
  "fh_inv fh \<longleftrightarrow> numPages fh \<le> pageCapacity fh \<and>
     length (pageLocks fh) = pageCapacity fh \<and>
     length (pageIdxToFrameMap fh) = pageCapacity fh \<and>
     (\<forall>i < numPages fh. pageLocks fh ! i \<noteq> None \<and> pageIdxToFrameMap fh ! i \<noteq> None)"

lemmas [inv_simps] = fh_inv_def

lemma length_vec_resize [simp]: "length (vec_resize n d xs) = n"
  by (simp add: vec_resize_def)

lemma nth_vec_resize_old [simp]: "i < n \<Longrightarrow> i < length xs \<Longrightarrow> vec_resize n d xs ! i = xs ! i"
  by (simp add: vec_resize_def nth_append)

lemma nth_vec_resize_new: "i < n \<Longrightarrow> length xs \<le> i \<Longrightarrow> vec_resize n d xs ! i = d"
  by (simp add: vec_resize_def nth_append)

lemma set_vec_resize: "x \<in> set (vec_resize n d xs) \<Longrightarrow> x \<in> set xs \<or> x = d"
  by (auto simp: vec_resize_def dest: in_set_takeD)

lemma addPtr_simps [simp]:
  "numPages (addNewPageLockAndFramePtrWithoutLock fh i) = numPages fh"
  "pageCapacity (addNewPageLockAndFramePtrWithoutLock fh i) = pageCapacity fh"
  "flags (addNewPageLockAndFramePtrWithoutLock fh i) = flags fh"
  "pageLocks (addNewPageLockAndFramePtrWithoutLock fh i) = (pageLocks fh)[i := Some False]"
  "pageIdxToFrameMap (addNewPageLockAndFramePtrWithoutLock fh i) =
     (pageIdxToFrameMap fh)[i := Some UINT32_MAX]"
  "FileHandle.more (addNewPageLockAndFramePtrWithoutLock fh i) = FileHandle.more fh"
  by (simp_all add: addNewPageLockAndFramePtrWithoutLock_def)

text \<open>What \<open>addNewPageLockAndFramePtrWithoutLock\<close> over a range of pages does to the two vectors.\<close>

lemma fold_addPtr:
  fixes fh :: "('a) FileHandle_scheme"
  defines "f \<equiv> \<lambda>i (h :: ('a) FileHandle_scheme). addNewPageLockAndFramePtrWithoutLock h i"
  shows "numPages (fold f is fh) = numPages fh"
    and "pageCapacity (fold f is fh) = pageCapacity fh"
    and "length (pageLocks (fold f is fh)) = length (pageLocks fh)"
    and "length (pageIdxToFrameMap (fold f is fh)) = length (pageIdxToFrameMap fh)"
    and "j < length (pageLocks fh) \<Longrightarrow>
           pageLocks (fold f is fh) ! j = (if j \<in> set is then Some False else pageLocks fh ! j)"
    and "j < length (pageIdxToFrameMap fh) \<Longrightarrow>
           pageIdxToFrameMap (fold f is fh) ! j =
             (if j \<in> set is then Some UINT32_MAX else pageIdxToFrameMap fh ! j)"
  unfolding f_def by (induction "is" arbitrary: fh) auto

lemma initPageIdxToFrameMapAndLocks_inv:
  assumes "numPages fh \<le> pageCapacity fh"
  shows "fh_inv (initPageIdxToFrameMapAndLocks fh)"
  using assms by (auto simp: fh_inv_def initPageIdxToFrameMapAndLocks_def fold_addPtr)

lemma initPageIdxToFrameMapAndLocks_numPages [simp]:
  "numPages (initPageIdxToFrameMapAndLocks fh) = numPages fh"
  by (simp add: initPageIdxToFrameMapAndLocks_def fold_addPtr)

lemma newFileHandle_inv: "fh_inv (newFileHandle fl n)"
  by (simp add: newFileHandle_def constructExistingFileHandle_def constructNewFileHandle_def
      Let_def initPageIdxToFrameMapAndLocks_inv)

lemma resetToZero_inv: "fh_inv (resetToZeroPagesAndPageCapacity fh)"
  by (simp add: resetToZeroPagesAndPageCapacity_def initPageIdxToFrameMapAndLocks_inv)

text \<open>Growing the capacity keeps it within 32 bits and above the number of pages.\<close>

lemma grown_capacity:
  assumes "c < UINT32_MAX"
  shows "c < max (to_u32 (c + 1)) (to_u32 (c * 6 div 5))"
proof -
  have "to_u32 (c + 1) = c + 1" using assms by (simp add: to_u32_def UINT32_MAX_def)
  then show ?thesis by simp
qed

lemma addNewPageWithoutLock_props:
  assumes inv: "fh_inv fh" and small: "numPages fh < UINT32_MAX"
    and add: "addNewPageWithoutLock fh = (i, fh')"
  shows "i = numPages fh" and "numPages fh' = numPages fh + 1" and "fh_inv fh'"
    and "pageIdxToFrameMap fh' ! i = Some UINT32_MAX" and "pageLocks fh' ! i = Some False"
    and "\<And>j. j < numPages fh \<Longrightarrow> pageIdxToFrameMap fh' ! j = pageIdxToFrameMap fh ! j \<and>
             pageLocks fh' ! j = pageLocks fh ! j"
    and "FileHandle.more fh' = FileHandle.more fh"
proof -
  let ?c = "max (to_u32 (pageCapacity fh + 1)) (to_u32 (pageCapacity fh * 6 div 5))"
  have u: "to_u32 (Suc (numPages fh)) = Suc (numPages fh)"
    using small by (simp add: to_u32_def UINT32_MAX_def)
  have c: "numPages fh = pageCapacity fh \<Longrightarrow> pageCapacity fh < ?c"
    using grown_capacity[of "pageCapacity fh"] small by simp
  note d = add[symmetric, unfolded addNewPageWithoutLock_def Let_def]
  show "i = numPages fh" and "numPages fh' = numPages fh + 1"
    and "FileHandle.more fh' = FileHandle.more fh"
    using d u by (auto split: if_splits)
  show "pageIdxToFrameMap fh' ! i = Some UINT32_MAX" and "pageLocks fh' ! i = Some False"
    using d inv c by (auto simp: fh_inv_def split: if_splits)
  show "fh_inv fh'"
    using d inv c u by (auto simp: fh_inv_def nth_list_update less_Suc_eq split: if_splits)
  fix j assume "j < numPages fh"
  then show "pageIdxToFrameMap fh' ! j = pageIdxToFrameMap fh ! j \<and>
      pageLocks fh' ! j = pageLocks fh ! j"
    using d inv c by (auto simp: fh_inv_def nth_list_update split: if_splits)
qed

lemma fold_reset:
  fixes fh :: "('a) FileHandle_scheme"
  defines "f \<equiv> \<lambda>j (h :: ('a) FileHandle_scheme).
    h\<lparr>pageIdxToFrameMap := (pageIdxToFrameMap h)[j := None], pageLocks := (pageLocks h)[j := None]\<rparr>"
  shows "pageCapacity (fold f is fh) = pageCapacity fh"
    and "length (pageLocks (fold f is fh)) = length (pageLocks fh)"
    and "length (pageIdxToFrameMap (fold f is fh)) = length (pageIdxToFrameMap fh)"
    and "FileHandle.more (fold f is fh) = FileHandle.more fh"
    and "j \<notin> set is \<Longrightarrow> pageLocks (fold f is fh) ! j = pageLocks fh ! j"
    and "j \<notin> set is \<Longrightarrow> pageIdxToFrameMap (fold f is fh) ! j = pageIdxToFrameMap fh ! j"
  unfolding f_def by (induction "is" arbitrary: fh) auto

lemma removePage_props:
  assumes "fh_inv fh"
  shows "fh_inv (removePageIdxAndTruncateIfNecessaryWithoutLock fh i)"
    and "numPages (removePageIdxAndTruncateIfNecessaryWithoutLock fh i) = min i (numPages fh)"
    and "FileHandle.more (removePageIdxAndTruncateIfNecessaryWithoutLock fh i) = FileHandle.more fh"
  using assms
  by (auto simp: fh_inv_def removePageIdxAndTruncateIfNecessaryWithoutLock_def fold_reset)

lemma acquirePageLock_free:
  assumes "fh_inv fh" and "i < numPages fh" and "pageLocks fh ! i = Some False"
  shows "acquirePageLock fh i b = Inr (True, fh\<lparr>pageLocks := (pageLocks fh)[i := Some True]\<rparr>)"
  using assms by (auto simp: acquirePageLock_def acquire_def fh_inv_def)

section \<open>Page versions\<close>

definition vfh_inv :: "('a) VersionedFileHandle_scheme \<Rightarrow> bool" where
  "vfh_inv fh \<longleftrightarrow> fh_inv fh \<and> numPages fh \<le> UINT32_MAX \<and>
     length (pageGroupLocks fh) = getNumPageGroups fh \<and>
     length (pageVersions fh) = getNumPageGroups fh \<and>
     True \<notin> set (pageGroupLocks fh) \<and>
     (\<forall>g \<in> set (pageVersions fh). g = [] \<or> length g = MULTI_VERSION_FILE_PAGE_GROUP_SIZE)"

lemmas [inv_simps] = vfh_inv_def

text \<open>The abstract view: the WAL page that holds the updated version of a page, if there is one.\<close>

definition walVersion :: "('a) VersionedFileHandle_scheme \<Rightarrow> page_idx \<Rightarrow> page_idx option" where
  "walVersion fh i =
     (if length (pageVersions fh) \<le> i div 64 then None
      else let g = pageVersions fh ! (i div 64) in
        if g = [] \<or> g ! (i mod 64) = UINT32_MAX then None else Some (g ! (i mod 64)))"

lemma cursor64 [simp]:
  "i \<le> UINT32_MAX \<Longrightarrow>
     getPageElementCursorForPos i MULTI_VERSION_FILE_PAGE_GROUP_SIZE =
       \<lparr>cursorPageIdx = i div 64, posInPage = i mod 64\<rparr>"
  by (simp add: getPageElementCursorForPos_def MULTI_VERSION_FILE_PAGE_GROUP_SIZE_def to_u32_def
      UINT32_MAX_def)

lemma group_in_range:
  assumes "vfh_inv fh" and "i < numPages fh"
  shows "i div 64 < length (pageVersions fh)" and "i div 64 < length (pageGroupLocks fh)"
    and "i \<le> UINT32_MAX"
    and "pageVersions fh ! (i div 64) = [] \<or> length (pageVersions fh ! (i div 64)) = 64"
    and "\<not> pageGroupLocks fh ! (i div 64)"
proof -
  show 1: "i div 64 < length (pageVersions fh)" and 2: "i div 64 < length (pageGroupLocks fh)"
    using assms by (simp_all add: vfh_inv_def getNumPageGroups_def
        MULTI_VERSION_FILE_PAGE_GROUP_SIZE_def div_less_iff_less_mult)
  show "i \<le> UINT32_MAX" using assms by (simp add: vfh_inv_def)
  show "pageVersions fh ! (i div 64) = [] \<or> length (pageVersions fh ! (i div 64)) = 64"
    using assms 1 by (auto simp: vfh_inv_def MULTI_VERSION_FILE_PAGE_GROUP_SIZE_def)
  show "\<not> pageGroupLocks fh ! (i div 64)"
    using assms(1) nth_mem[OF 2] by (metis (full_types) vfh_inv_def)
qed

lemma hasWALPageVersion_iff:
  assumes "vfh_inv fh" and "i < numPages fh"
  shows "hasWALPageVersionNoPageLock fh i = Inr (walVersion fh i \<noteq> None)"
  using group_in_range[OF assms]
  by (auto simp: hasWALPageVersionNoPageLock_def walVersion_def Let_def)

lemma getWALPageVersion_Some:
  assumes "vfh_inv fh" and "i < numPages fh" and "walVersion fh i = Some w"
  shows "getWALPageVersionNoPageLock fh i = Inr w"
  using group_in_range[OF assms(1,2)] assms(3)
  by (auto simp: getWALPageVersionNoPageLock_def walVersion_def Let_def split: if_splits)

lemma getNumPageGroups_update [simp]:
  "getNumPageGroups (fh\<lparr>pageVersions := v\<rparr>) = getNumPageGroups fh"
  by (simp add: getNumPageGroups_def)

lemma createPageVersionGroup_props:
  assumes inv: "vfh_inv fh" and i: "i < numPages fh"
  obtains fh' where "createPageVersionGroupIfNecessary fh i = Inr fh'" and "vfh_inv fh'"
    and "numPages fh' = numPages fh" and "walVersion fh' = walVersion fh"
    and "pageLocks fh' = pageLocks fh"
    and "length (pageVersions fh' ! (i div 64)) = 64"
proof -
  note g = group_in_range[OF assms]
  show ?thesis
  proof (cases "pageVersions fh ! (i div 64) = []")
    case False
    then show ?thesis
      using that[of fh] g inv by (simp add: createPageVersionGroupIfNecessary_def)
  next
    case True
    let ?fh = "fh\<lparr>pageVersions := (pageVersions fh)[i div 64 := replicate 64 UINT32_MAX]\<rparr>"
    have "vfh_inv ?fh"
      using inv set_update_subset_insert[of "pageVersions fh" "i div 64" "replicate 64 UINT32_MAX"]
      by (auto simp: vfh_inv_def fh_inv_def MULTI_VERSION_FILE_PAGE_GROUP_SIZE_def)
    moreover have "walVersion ?fh = walVersion fh"
    proof
      fix j
      show "walVersion ?fh j = walVersion fh j"
        using g True by (cases "j div 64 = i div 64") (simp_all add: walVersion_def Let_def)
    qed
    ultimately show ?thesis
      using that[of ?fh] g True
      by (simp add: createPageVersionGroupIfNecessary_def MULTI_VERSION_FILE_PAGE_GROUP_SIZE_def
          cursor64[unfolded MULTI_VERSION_FILE_PAGE_GROUP_SIZE_def])
  qed
qed

lemma setWALPageVersionNoLock_props:
  assumes inv: "vfh_inv fh" and i: "i < numPages fh"
    and grp: "length (pageVersions fh ! (i div 64)) = 64"
  obtains fh' where "setWALPageVersionNoLock fh i w = Inr fh'" and "vfh_inv fh'"
    and "numPages fh' = numPages fh" and "pageLocks fh' = pageLocks fh"
    and "walVersion fh' = (walVersion fh)(i := if w = UINT32_MAX then None else Some w)"
proof -
  note g = group_in_range[OF inv i]
  let ?g = "(pageVersions fh ! (i div 64))[i mod 64 := w]"
  let ?fh = "fh\<lparr>pageVersions := (pageVersions fh)[i div 64 := ?g]\<rparr>"
  have "vfh_inv ?fh"
    using inv grp set_update_subset_insert[of "pageVersions fh" "i div 64" ?g]
    by (auto simp: vfh_inv_def fh_inv_def MULTI_VERSION_FILE_PAGE_GROUP_SIZE_def)
  moreover have "walVersion ?fh = (walVersion fh)(i := if w = UINT32_MAX then None else Some w)"
  proof
    fix j
    have "pageVersions fh ! (i div 64) \<noteq> []" using grp by auto
    moreover have "j \<noteq> i \<Longrightarrow> j div 64 = i div 64 \<Longrightarrow> j mod 64 \<noteq> i mod 64"
      using div_mod_inj by blast
    ultimately show "walVersion ?fh j =
        ((walVersion fh)(i := if w = UINT32_MAX then None else Some w)) j"
      using g grp
      by (cases "j = i"; cases "j div 64 = i div 64")
        (simp_all add: walVersion_def Let_def nth_list_update)
  qed
  ultimately show ?thesis
    using that[of ?fh] g grp by (simp add: setWALPageVersionNoLock_def Let_def not_le)
qed

lemma vfh_inv_more_lock:
  "vfh_inv fh \<Longrightarrow> i < numPages fh \<Longrightarrow> vfh_inv (fh\<lparr>pageLocks := (pageLocks fh)[i := Some b]\<rparr>)"
  by (auto simp: vfh_inv_def fh_inv_def getNumPageGroups_def nth_list_update)

lemma clearWALPageVersion_props:
  assumes inv: "vfh_inv fh" and i: "i < numPages fh"
  obtains fh' where "clearWALPageVersionIfNecessary fh i = Inr fh'" and "vfh_inv fh'"
    and "numPages fh' = numPages fh" and "walVersion fh' = (walVersion fh)(i := None)"
    and "pageLocks fh' ! i = Some False"
proof -
  obtain fh1 where 1: "createPageVersionGroupIfNecessary fh i = Inr fh1" "vfh_inv fh1"
    "numPages fh1 = numPages fh" "walVersion fh1 = walVersion fh"
    "length (pageVersions fh1 ! (i div 64)) = 64" "pageLocks fh1 = pageLocks fh"
    using createPageVersionGroup_props[OF inv i] by blast
  obtain fh2 where 2: "setWALPageVersionNoLock fh1 i UINT32_MAX = Inr fh2" "vfh_inv fh2"
    "numPages fh2 = numPages fh" "walVersion fh2 = (walVersion fh)(i := None)"
    "pageLocks fh2 = pageLocks fh"
    by (rule setWALPageVersionNoLock_props[OF 1(2) _ 1(5), of UINT32_MAX]) (use 1 i in auto)
  let ?fh = "fh2\<lparr>pageLocks := (pageLocks fh2)[i := Some False]\<rparr>"
  have len: "i < length (pageLocks fh2)" and nn: "pageLocks fh2 ! i \<noteq> None"
    using 2 i by (auto simp: vfh_inv_def fh_inv_def)
  have "walVersion ?fh = walVersion fh2"
    by (rule ext) (simp add: walVersion_def)
  then show ?thesis
    using that[of ?fh] 1 2 i len nn vfh_inv_more_lock[OF 2(2), of i False]
    by (simp add: clearWALPageVersionIfNecessary_def releasePageLock_def not_le)
qed

lemma clearWALPageVersion_beyond:
  "numPages fh \<le> i \<Longrightarrow> clearWALPageVersionIfNecessary fh i = Inr fh"
  by (simp add: clearWALPageVersionIfNecessary_def)

lemma ceil64_mono: "(m::nat) \<le> n \<Longrightarrow> (m + 63) div 64 \<le> (n + 63) div 64"
  by (simp add: div_le_mono)

lemma vfh_resize_props:
  assumes fh: "fh_inv fh" "numPages fh \<le> UINT32_MAX"
    and len: "length (pageGroupLocks fh) = length (pageVersions fh)"
    and rest: "True \<notin> set (pageGroupLocks fh)"
      "\<forall>g \<in> set (pageVersions fh). g = [] \<or> length g = MULTI_VERSION_FILE_PAGE_GROUP_SIZE"
  defines "fh' \<equiv> resizePageGroupLocksAndPageVersionsToNumPageGroupsWithoutLock fh"
  shows "vfh_inv fh'" and "numPages fh' = numPages fh"
    and "j div 64 < getNumPageGroups fh \<Longrightarrow> walVersion fh' j = walVersion fh j"
    and "length (pageVersions fh') = getNumPageGroups fh"
proof -
  let ?n = "getNumPageGroups fh"
  have n': "getNumPageGroups fh' = ?n"
    by (simp add: fh'_def resizePageGroupLocksAndPageVersionsToNumPageGroupsWithoutLock_def
        getNumPageGroups_def Let_def)
  have inv': "fh_inv fh'"
    using fh by (simp add: fh'_def fh_inv_def Let_def
        resizePageGroupLocksAndPageVersionsToNumPageGroupsWithoutLock_def)
  show np: "numPages fh' = numPages fh"
    by (simp add: fh'_def resizePageGroupLocksAndPageVersionsToNumPageGroupsWithoutLock_def Let_def)
  have "length (pageGroupLocks fh') = ?n" and l: "length (pageVersions fh') = ?n"
    using len by (simp_all add: fh'_def Let_def
        resizePageGroupLocksAndPageVersionsToNumPageGroupsWithoutLock_def)
  moreover have "True \<notin> set (pageGroupLocks fh')"
    using rest(1) by (auto simp: fh'_def Let_def dest!: set_vec_resize
        simp: resizePageGroupLocksAndPageVersionsToNumPageGroupsWithoutLock_def)
  moreover have "\<forall>g \<in> set (pageVersions fh'). g = [] \<or> length g = MULTI_VERSION_FILE_PAGE_GROUP_SIZE"
    using rest(2) by (auto simp: fh'_def Let_def dest!: set_vec_resize
        simp: resizePageGroupLocksAndPageVersionsToNumPageGroupsWithoutLock_def)
  ultimately show "vfh_inv fh'"
    using inv' fh np n' by (simp add: vfh_inv_def)
  show "length (pageVersions fh') = getNumPageGroups fh" by (rule l)
  assume "j div 64 < getNumPageGroups fh"
  then show "walVersion fh' j = walVersion fh j"
    using len by (cases "j div 64 < length (pageVersions fh)")
      (auto simp: fh'_def walVersion_def Let_def nth_vec_resize_new
        resizePageGroupLocksAndPageVersionsToNumPageGroupsWithoutLock_def)
qed

lemma getNumPageGroups_mono: "numPages fh \<le> numPages fh' \<Longrightarrow> getNumPageGroups fh \<le> getNumPageGroups fh'"
  by (simp add: getNumPageGroups_def MULTI_VERSION_FILE_PAGE_GROUP_SIZE_def div_le_mono)

lemma walVersion_cong: "pageVersions fh = pageVersions fh' \<Longrightarrow> walVersion fh = walVersion fh'"
  by (rule ext) (simp add: walVersion_def)

lemma vfh_fields_more:
  fixes fh fh' :: "('a) VersionedFileHandle_scheme"
  assumes "FileHandle.more fh = FileHandle.more fh'"
  shows "pageVersions fh = pageVersions fh'" and "pageGroupLocks fh = pageGroupLocks fh'"
  using assms by (cases fh; cases fh'; simp)+

lemma addNewPageVersioned_props:
  assumes inv: "vfh_inv fh" and small: "numPages fh < UINT32_MAX"
  obtains fh' where "addNewPageVersioned fh = (numPages fh, fh')" and "vfh_inv fh'"
    and "numPages fh' = Suc (numPages fh)" and "walVersion fh' = walVersion fh"
    and "getFrameIdx fh' (numPages fh) = Inr UINT32_MAX"
proof -
  obtain i fh1 where a: "addNewPageWithoutLock fh = (i, fh1)" by force
  have fhi: "fh_inv fh" using inv by (simp add: vfh_inv_def)
  note p = addNewPageWithoutLock_props[OF fhi small a]
  note v = vfh_fields_more[OF p(7)]
  let ?fh = "resizePageGroupLocksAndPageVersionsToNumPageGroupsWithoutLock fh1"
  have len: "length (pageGroupLocks fh1) = length (pageVersions fh1)"
    using inv v by (simp add: vfh_inv_def)
  have "numPages fh1 \<le> UINT32_MAX" using p(2) small by simp
  note r = vfh_resize_props[OF p(3) this len]
  have vi: "vfh_inv ?fh" and np: "numPages ?fh = numPages fh1"
    and l: "length (pageVersions ?fh) = getNumPageGroups fh1"
    and wv: "\<And>j. j div 64 < getNumPageGroups fh1 \<Longrightarrow> walVersion ?fh j = walVersion fh1 j"
    using r inv v by (auto simp: vfh_inv_def)
  have "getNumPageGroups fh \<le> getNumPageGroups fh1"
    using p(2) by (intro getNumPageGroups_mono) simp
  moreover have "length (pageVersions fh1) = getNumPageGroups fh"
    using inv v(1) by (simp add: vfh_inv_def)
  ultimately have "walVersion ?fh j = walVersion fh1 j" for j
    using wv[of j] l by (cases "j div 64 < getNumPageGroups fh1") (auto simp: walVersion_def)
  then have "walVersion ?fh = walVersion fh1" by blast
  moreover have "pageIdxToFrameMap ?fh = pageIdxToFrameMap fh1"
    by (simp add: resizePageGroupLocksAndPageVersionsToNumPageGroupsWithoutLock_def Let_def)
  then have "getFrameIdx ?fh (numPages fh) = Inr UINT32_MAX"
    using p by (auto simp: getFrameIdx_def fh_inv_def)
  ultimately show ?thesis
    using vi np p a walVersion_cong[OF v(1)]
    by (intro that[of ?fh]) (auto simp: addNewPageVersioned_def)
qed

lemma truncateVersioned_props:
  assumes inv: "vfh_inv fh" and i: "i < numPages fh"
  defines "fh' \<equiv> removePageIdxAndTruncateIfNecessaryVersioned fh i"
  shows "vfh_inv fh'" and "numPages fh' = i"
    and "j div 64 < getNumPageGroups fh' \<Longrightarrow> walVersion fh' j = walVersion fh j"
proof -
  have fhi: "fh_inv fh" using inv by (simp add: vfh_inv_def)
  let ?fh = "removePageIdxAndTruncateIfNecessaryWithoutLock fh i"
  note p = removePage_props[OF fhi, of i]
  note v = vfh_fields_more[OF p(3)]
  have len: "length (pageGroupLocks ?fh) = length (pageVersions ?fh)"
    using inv v by (simp add: vfh_inv_def)
  have small: "numPages ?fh \<le> UINT32_MAX" using p(2) inv i by (simp add: vfh_inv_def)
  note r = vfh_resize_props[OF p(1) small len]
  show "vfh_inv fh'" "numPages fh' = i"
    using r inv v p(2) i unfolding fh'_def removePageIdxAndTruncateIfNecessaryVersioned_def
    by (auto simp: vfh_inv_def)
  assume j: "j div 64 < getNumPageGroups fh'"
  have n: "getNumPageGroups fh' = getNumPageGroups ?fh"
    using \<open>numPages fh' = i\<close> p(2) i by (simp add: getNumPageGroups_def)
  have le: "getNumPageGroups ?fh \<le> length (pageVersions ?fh)"
    using getNumPageGroups_mono[of ?fh fh] p(2) i inv v(1) by (simp add: vfh_inv_def)
  show "walVersion fh' j = walVersion fh j"
    using j n le len v(1) unfolding fh'_def removePageIdxAndTruncateIfNecessaryVersioned_def
    by (auto simp: walVersion_def Let_def
        resizePageGroupLocksAndPageVersionsToNumPageGroupsWithoutLock_def)
qed

section \<open>Properties\<close>

abbreviation exampleVersionedHandle :: VersionedFileHandle where
  "exampleVersionedHandle \<equiv>
     \<lparr>flags = 0, pageLocks = replicate 3 (Some False),
      pageIdxToFrameMap = replicate 3 (Some UINT32_MAX), numPages = 3, pageCapacity = 3,
      storageStructureIDForWALRecord = NODE_INDEX False 0,
      pageVersions = [(replicate 64 UINT32_MAX)[1 := 7, 2 := 8]], pageGroupLocks = [False]\<rparr>"

lemma exampleVersionedHandle_inv: "vfh_inv exampleVersionedHandle"
  by (simp add: vfh_inv_def fh_inv_def getNumPageGroups_def
      MULTI_VERSION_FILE_PAGE_GROUP_SIZE_def UINT32_MAX_def)

lemma exampleVersionedHandle_version: "walVersion exampleVersionedHandle 2 = Some 8"
  by (simp add: walVersion_def UINT32_MAX_def)

text \<open>
  recording the WAL version of a page and reading it back.  On a well-formed versioned file
  handle the pair \<open>createPageVersionGroupIfNecessary\<close>, \<open>setWALPageVersion\<close> always succeeds for a
  page of the file, the version read back is the one written, no other page's version changes,
  and \<open>clearWALPageVersionIfNecessary\<close> removes exactly that version and frees the page's lock.
\<close>

theorem wal_page_version_roundtrip:
  assumes inv: "vfh_inv fh" and i: "i < numPages fh" and w: "w \<noteq> UINT32_MAX"
  shows "\<exists>fh1 fh2 fh3.
    createPageVersionGroupIfNecessary fh i = Inr fh1 \<and> setWALPageVersion fh1 i w = Inr fh2 \<and>
    vfh_inv fh2 \<and> hasWALPageVersionNoPageLock fh2 i = Inr True \<and>
    getWALPageVersionNoPageLock fh2 i = Inr w \<and>
    (\<forall>j. j \<noteq> i \<longrightarrow> walVersion fh2 j = walVersion fh j) \<and>
    clearWALPageVersionIfNecessary fh2 i = Inr fh3 \<and> vfh_inv fh3 \<and>
    hasWALPageVersionNoPageLock fh3 i = Inr False \<and> pageLocks fh3 ! i = Some False \<and>
    (\<forall>j. j \<noteq> i \<longrightarrow> walVersion fh3 j = walVersion fh j)"
proof -
  obtain fh1 where 1: "createPageVersionGroupIfNecessary fh i = Inr fh1" "vfh_inv fh1"
    "numPages fh1 = numPages fh" "walVersion fh1 = walVersion fh"
    "length (pageVersions fh1 ! (i div 64)) = 64"
    using createPageVersionGroup_props[OF inv i] by blast
  obtain fh2 where 2: "setWALPageVersionNoLock fh1 i w = Inr fh2" "vfh_inv fh2"
    "numPages fh2 = numPages fh" "walVersion fh2 = (walVersion fh)(i \<mapsto> w)"
    by (rule setWALPageVersionNoLock_props[OF 1(2) _ 1(5), of w]) (use 1 i w in auto)
  obtain fh3 where 3: "clearWALPageVersionIfNecessary fh2 i = Inr fh3" "vfh_inv fh3"
    "numPages fh3 = numPages fh2" "walVersion fh3 = (walVersion fh2)(i := None)"
    "pageLocks fh3 ! i = Some False"
    by (rule clearWALPageVersion_props[OF 2(2)]) (use 2 i in auto)
  show ?thesis
    using 1 2 3 i hasWALPageVersion_iff[OF 2(2)] hasWALPageVersion_iff[OF 3(2)]
      getWALPageVersion_Some[OF 2(2), of i w]
    by (intro exI[of _ fh1] exI[of _ fh2] exI[of _ fh3]) (simp add: setWALPageVersion_def)
qed

theorem wal_page_version_roundtrip_witness:
  "\<exists>fh1 fh2. createPageVersionGroupIfNecessary exampleVersionedHandle 0 = Inr fh1 \<and>
     setWALPageVersion fh1 0 9 = Inr fh2 \<and> getWALPageVersionNoPageLock fh2 0 = Inr 9"
  using wal_page_version_roundtrip[OF exampleVersionedHandle_inv, of 0 9]
  by (auto simp: UINT32_MAX_def)

text \<open>
  rolling back two page insertions of one transaction leaves the second page's WAL version
  behind.  The replayer clears page \<open>i\<close>, truncates the handle to \<open>i\<close>, and then skips the clearing
  of page \<open>i + 1\<close> because that page is gone; when the pages are added again, page \<open>i + 1\<close>
  is reported as having the old WAL version.
\<close>

theorem rollback_keeps_stale_version:
  assumes inv: "vfh_inv fh" and i: "Suc i < numPages fh" and grp: "Suc i mod 64 > 1"
    and w: "walVersion fh (Suc i) = Some w"
  shows "\<exists>fh1 fh3 fh4 fh5.
    clearWALPageVersionIfNecessary fh i = Inr fh1 \<and>
    clearWALPageVersionIfNecessary (removePageIdxAndTruncateIfNecessaryVersioned fh1 i) (Suc i)
      = Inr fh3 \<and>
    addNewPageVersioned fh3 = (i, fh4) \<and> addNewPageVersioned fh4 = (Suc i, fh5) \<and>
    hasWALPageVersionNoPageLock fh5 (Suc i) = Inr True \<and>
    getWALPageVersionNoPageLock fh5 (Suc i) = Inr w"
proof -
  obtain fh1 where 1: "clearWALPageVersionIfNecessary fh i = Inr fh1" "vfh_inv fh1"
    "numPages fh1 = numPages fh" "walVersion fh1 = (walVersion fh)(i := None)"
    by (rule clearWALPageVersion_props[OF inv, of i]) (use i in auto)
  let ?fh = "removePageIdxAndTruncateIfNecessaryVersioned fh1 i"
  have t: "vfh_inv ?fh" "numPages ?fh = i"
    "Suc i div 64 < getNumPageGroups ?fh \<Longrightarrow> walVersion ?fh (Suc i) = walVersion fh1 (Suc i)"
    using truncateVersioned_props[OF 1(2), of i] 1(3) i by auto
  have "Suc i mod 64 = Suc (i mod 64)" using grp by (simp add: mod_Suc split: if_splits)
  then have "0 < i mod 64" and "Suc i div 64 = i div 64" using grp by (simp_all add: div_Suc)
  moreover have "Suc q * 64 \<le> q * 64 + r + 63" if "0 < r" for q r :: nat
    using that by simp
  from this[OF \<open>0 < i mod 64\<close>, of "i div 64"] have "Suc (i div 64) * 64 \<le> i + 63"
    by (simp only: div_mult_mod_eq)
  then have "Suc (i div 64) \<le> (i + 63) div 64"
    by (simp only: less_eq_div_iff_mult_less_eq)
  ultimately have "Suc i div 64 < (i + 63) div 64" by linarith
  then have stale: "walVersion ?fh (Suc i) = Some w"
    using t 1(4) w by (simp add: getNumPageGroups_def MULTI_VERSION_FILE_PAGE_GROUP_SIZE_def)
  have small: "Suc i < UINT32_MAX" using i inv by (simp add: vfh_inv_def)
  obtain fh4 where 4: "addNewPageVersioned ?fh = (i, fh4)" "vfh_inv fh4" "numPages fh4 = Suc i"
    "walVersion fh4 = walVersion ?fh"
    by (rule addNewPageVersioned_props[OF t(1)]) (use t(2) small in auto)
  obtain fh5 where 5: "addNewPageVersioned fh4 = (Suc i, fh5)" "vfh_inv fh5"
    "numPages fh5 = Suc (Suc i)" "walVersion fh5 = walVersion fh4"
    by (rule addNewPageVersioned_props[OF 4(2)]) (use 4 small in auto)
  have "walVersion fh5 (Suc i) = Some w" using 4 5 stale by simp
  moreover have "clearWALPageVersionIfNecessary ?fh (Suc i) = Inr ?fh"
    using t(2) by (simp add: clearWALPageVersion_beyond)
  ultimately show ?thesis
    using 1(1) 4(1) 5 hasWALPageVersion_iff[OF 5(2), of "Suc i"]
      getWALPageVersion_Some[OF 5(2), of "Suc i" w]
    by (intro exI[of _ fh1] exI[of _ ?fh] exI[of _ fh4] exI[of _ fh5]) simp
qed

theorem rollback_keeps_stale_version_witness:
  "\<exists>fh1 fh3 fh4 fh5.
    clearWALPageVersionIfNecessary exampleVersionedHandle 1 = Inr fh1 \<and>
    clearWALPageVersionIfNecessary (removePageIdxAndTruncateIfNecessaryVersioned fh1 1) 2
      = Inr fh3 \<and>
    addNewPageVersioned fh3 = (1, fh4) \<and> addNewPageVersioned fh4 = (2, fh5) \<and>
    getWALPageVersionNoPageLock fh5 2 = Inr 8"
  using rollback_keeps_stale_version[OF exampleVersionedHandle_inv, of 1 8]
    exampleVersionedHandle_version
  by (auto simp: numeral_2_eq_2)

end
