(* ===== verification/Wal.thy ===== *)
theory Wal
  imports Prelude Interfaces Wal_Record File_Handle
begin

text \<open>
  The write-ahead log: \<^verbatim>\<open>src/src/storage/wal/wal.cpp\<close> and \<^verbatim>\<open>include/wal.h\<close>.  Log records are
  appended to header pages that are chained by page index; data pages (the new images of database
  pages) are allocated in the same file in between.  The header page being filled is kept in
  memory and written out when it is full or when the log is read.

  A header page is its two prefix fields and the records at their byte offsets; a page of the
  file is a header page, a data page of arbitrary content, or not yet written.  The mutex makes
  every public operation atomic, which the sequential model has by construction.
\<close>

section \<open>State\<close>

definition WAL_HEADER_PAGE_SIZE :: nat where
  "WAL_HEADER_PAGE_SIZE = DEFAULT_PAGE_SIZE"

definition WAL_HEADER_PAGE_PREFIX_FIELD_SIZES :: nat where
  "WAL_HEADER_PAGE_PREFIX_FIELD_SIZES = 8 + 4"

record header_page =
  numRecords :: nat
  nextHeaderPageIdx :: page_idx
  recordAt :: "nat \<Rightarrow> WALRecord option"

datatype 'p wal_page = HeaderPage header_page | DataPage 'p

record 'p wal_file =
  pageAt :: "page_idx \<Rightarrow> 'p wal_page option"
  sizeInPages :: nat

definition writePageToFile :: "'p wal_file \<Rightarrow> page_idx \<Rightarrow> 'p wal_page \<Rightarrow> 'p wal_file" where
  "writePageToFile f i p =
     f\<lparr>pageAt := (pageAt f)(i \<mapsto> p), sizeInPages := max (sizeInPages f) (i + 1)\<rparr>"

text \<open>
  \<open>walFrames\<close> are the buffer manager's frames that hold pages of this file, with their dirty flag.
\<close>

record 'p WAL =
  fileHandle :: FileHandle
  walFile :: "'p wal_file"
  walFrames :: "page_idx \<Rightarrow> ('p \<times> bool) option"
  offsetInCurrentHeaderPage :: nat
  currentHeaderPageIdx :: page_idx
  currentHeaderPageBuffer :: header_page
  isLastLoggedRecordCommit :: bool
  updatedUnstructuredPropertyLists :: "ListFileID list"

section \<open>Header pages\<close>

definition incrementNumRecordsInCurrentHeaderPage :: "'p WAL \<Rightarrow> 'p WAL" where
  "incrementNumRecordsInCurrentHeaderPage w =
     w\<lparr>currentHeaderPageBuffer :=
        (currentHeaderPageBuffer w)\<lparr>numRecords := numRecords (currentHeaderPageBuffer w) + 1\<rparr>\<rparr>"

definition setNextHeaderPageOfCurrentHeaderPage :: "'p WAL \<Rightarrow> page_idx \<Rightarrow> 'p WAL" where
  "setNextHeaderPageOfCurrentHeaderPage w i =
     w\<lparr>currentHeaderPageBuffer := (currentHeaderPageBuffer w)\<lparr>nextHeaderPageIdx := to_u32 i\<rparr>\<rparr>"

text \<open>Only the two prefix fields are overwritten; stale records stay in the buffer.\<close>

definition resetCurrentHeaderPagePrefix :: "'p WAL \<Rightarrow> 'p WAL" where
  "resetCurrentHeaderPagePrefix w =
     w\<lparr>currentHeaderPageBuffer :=
         (currentHeaderPageBuffer w)\<lparr>numRecords := 0, nextHeaderPageIdx := UINT32_MAX\<rparr>,
       offsetInCurrentHeaderPage := WAL_HEADER_PAGE_PREFIX_FIELD_SIZES\<rparr>"

definition isEmptyWAL :: "'p WAL \<Rightarrow> bool" where
  "isEmptyWAL w \<longleftrightarrow> currentHeaderPageIdx w = 0 \<and> numRecords (currentHeaderPageBuffer w) = 0"

text \<open>\<open>writePage(currentHeaderPageBuffer, currentHeaderPageIdx)\<close>.\<close>

definition writeHeaderPage :: "'p WAL \<Rightarrow> 'p WAL" where
  "writeHeaderPage w =
     w\<lparr>walFile := writePageToFile (walFile w) (currentHeaderPageIdx w)
                    (HeaderPage (currentHeaderPageBuffer w))\<rparr>"

definition flushHeaderPages :: "'p WAL \<Rightarrow> 'p WAL" where
  "flushHeaderPages w = (if isEmptyWAL w then w else writeHeaderPage w)"

definition addNewWALPage :: "'p WAL \<Rightarrow> page_idx \<times> 'p WAL" where
  "addNewWALPage w =
     (let (i, fh) = addNewPage (fileHandle w) in (i, w\<lparr>fileHandle := fh\<rparr>))"

definition writeWALRecordToBytes :: "WALRecord \<Rightarrow> 'p WAL \<Rightarrow> 'p WAL" where
  "writeWALRecordToBytes r w =
     w\<lparr>currentHeaderPageBuffer := (currentHeaderPageBuffer w)
         \<lparr>recordAt := (recordAt (currentHeaderPageBuffer w))(offsetInCurrentHeaderPage w \<mapsto> r)\<rparr>,
       offsetInCurrentHeaderPage := offsetInCurrentHeaderPage w + sizeof_WALRecord\<rparr>"

definition startNextHeaderPage :: "'p WAL \<Rightarrow> 'p WAL" where
  "startNextHeaderPage w =
     (let (i, w1) = addNewWALPage w;
          w2 = resetCurrentHeaderPagePrefix
                 (writeHeaderPage (setNextHeaderPageOfCurrentHeaderPage w1 i))
      in w2\<lparr>currentHeaderPageIdx := i\<rparr>)"

definition addNewWALRecordNoLock :: "'p WAL \<Rightarrow> WALRecord \<Rightarrow> 'p WAL" where
  "addNewWALRecordNoLock w r =
     (let w1 = (if offsetInCurrentHeaderPage w + sizeof_WALRecord > WAL_HEADER_PAGE_SIZE
                then startNextHeaderPage w else w);
          w2 = writeWALRecordToBytes r (incrementNumRecordsInCurrentHeaderPage w1)
      in w2\<lparr>isLastLoggedRecordCommit := is_commit r\<rparr>)"

section \<open>Logging operations\<close>

definition logPageUpdateRecord ::
  "'p WAL \<Rightarrow> StorageStructureID \<Rightarrow> page_idx \<Rightarrow> page_idx \<times> 'p WAL" where
  "logPageUpdateRecord w sid orig =
     (let (i, w1) = addNewWALPage w
      in (i, addNewWALRecordNoLock w1 (newPageUpdateRecord sid orig i)))"

definition logPageInsertRecord ::
  "'p WAL \<Rightarrow> StorageStructureID \<Rightarrow> page_idx \<Rightarrow> page_idx \<times> 'p WAL" where
  "logPageInsertRecord w sid orig =
     (let (i, w1) = addNewWALPage w
      in (i, addNewWALRecordNoLock w1 (newPageInsertRecord sid orig i)))"

definition logCommit :: "'p WAL \<Rightarrow> u64 \<Rightarrow> 'p WAL" where
  "logCommit w transactionID = addNewWALRecordNoLock w (COMMIT_RECORD transactionID)"

definition logTableStatisticsRecord :: "'p WAL \<Rightarrow> bool \<Rightarrow> 'p WAL" where
  "logTableStatisticsRecord w isNodeTable =
     addNewWALRecordNoLock w (TABLE_STATISTICS_RECORD isNodeTable)"

definition logCatalogRecord :: "'p WAL \<Rightarrow> 'p WAL" where
  "logCatalogRecord w = addNewWALRecordNoLock w CATALOG_RECORD"

definition logNodeTableRecord :: "'p WAL \<Rightarrow> table_id \<Rightarrow> 'p WAL" where
  "logNodeTableRecord w tableID = addNewWALRecordNoLock w (NODE_TABLE_RECORD tableID)"

definition logRelTableRecord :: "'p WAL \<Rightarrow> table_id \<Rightarrow> 'p WAL" where
  "logRelTableRecord w tableID = addNewWALRecordNoLock w (REL_TABLE_RECORD tableID)"

definition logOverflowFileNextBytePosRecord ::
  "'p WAL \<Rightarrow> StorageStructureID \<Rightarrow> u64 \<Rightarrow> 'p WAL" where
  "logOverflowFileNextBytePosRecord w sid prev =
     addNewWALRecordNoLock w (newOverflowFileNextBytePosRecord sid prev)"

definition logCopyNodeCSVRecord :: "'p WAL \<Rightarrow> table_id \<Rightarrow> 'p WAL" where
  "logCopyNodeCSVRecord w tableID = addNewWALRecordNoLock w (COPY_NODE_CSV_RECORD tableID)"

definition logCopyRelCSVRecord :: "'p WAL \<Rightarrow> table_id \<Rightarrow> 'p WAL" where
  "logCopyRelCSVRecord w tableID = addNewWALRecordNoLock w (COPY_REL_CSV_RECORD tableID)"

definition logDropTableRecord :: "'p WAL \<Rightarrow> bool \<Rightarrow> table_id \<Rightarrow> 'p WAL" where
  "logDropTableRecord w isNodeTable tableID =
     addNewWALRecordNoLock w (DROP_TABLE_RECORD isNodeTable tableID)"

definition addToUpdatedUnstructuredPropertyLists :: "'p WAL \<Rightarrow> ListFileID \<Rightarrow> 'p WAL" where
  "addToUpdatedUnstructuredPropertyLists w l =
     w\<lparr>updatedUnstructuredPropertyLists := updatedUnstructuredPropertyLists w @ [l]\<rparr>"

section \<open>Reading the log\<close>

record 'p WALIterator =
  itFile :: "'p wal_file"
  itOffset :: nat
  itBuffer :: header_page
  numRecordsReadInCurrentHeaderPage :: nat

text \<open>
  \<open>readPage\<close> into the buffer \<open>buf\<close>: reading at the end of the file delivers no bytes and leaves the
  buffer as it is, reading beyond it throws; reading an unwritten or a data page as a header has
  no defined meaning.
\<close>

definition readHeaderPage :: "'p wal_file \<Rightarrow> header_page \<Rightarrow> page_idx \<Rightarrow> header_page result" where
  "readHeaderPage f buf i =
     (if i = sizeInPages f then Inr buf
      else if sizeInPages f < i then Inl (BaseException ''Cannot read from file'')
      else case pageAt f i of Some (HeaderPage h) \<Rightarrow> Inr h
        | _ \<Rightarrow> Inl (UndefinedBehaviour ''not a header page''))"

definition emptyHeaderPage :: header_page where
  "emptyHeaderPage = \<lparr>numRecords = 0, nextHeaderPageIdx = UINT32_MAX, recordAt = (\<lambda>_. None)\<rparr>"

definition newWALIterator :: "'p WAL \<Rightarrow> 'p WALIterator result" where
  "newWALIterator w =
     (let it0 = \<lparr>itFile = walFile w, itOffset = WAL_HEADER_PAGE_PREFIX_FIELD_SIZES,
                 itBuffer = emptyHeaderPage, numRecordsReadInCurrentHeaderPage = 0\<rparr>
      in if numPages (fileHandle w) > 0
         then bind_result (readHeaderPage (walFile w) emptyHeaderPage 0) (\<lambda>h. Inr (it0\<lparr>itBuffer := h\<rparr>))
         else Inr it0)"

definition getIterator :: "'p WAL \<Rightarrow> ('p WAL \<times> 'p WALIterator) result" where
  "getIterator w =
     (let w1 = flushHeaderPages w in bind_result (newWALIterator w1) (\<lambda>it. Inr (w1, it)))"

definition hasNextRecordNoLock :: "'p WALIterator \<Rightarrow> bool" where
  "hasNextRecordNoLock it \<longleftrightarrow> numRecordsReadInCurrentHeaderPage it < numRecords (itBuffer it)"

definition getNextRecord :: "'p WALIterator \<Rightarrow> (WALRecord \<times> 'p WALIterator) result" where
  "getNextRecord it =
     (if \<not> hasNextRecordNoLock it
      then Inl (RuntimeException ''WALIterator cannot read  more log records from the WAL.'')
      else case recordAt (itBuffer it) (itOffset it) of
        None \<Rightarrow> Inl (UndefinedBehaviour ''unwritten record'')
      | Some r \<Rightarrow>
          let it1 = it\<lparr>itOffset := itOffset it + sizeof_WALRecord,
                       numRecordsReadInCurrentHeaderPage :=
                         numRecordsReadInCurrentHeaderPage it + 1\<rparr>;
              next' = nextHeaderPageIdx (itBuffer it)
          in if numRecordsReadInCurrentHeaderPage it1 = numRecords (itBuffer it) \<and>
                next' \<noteq> UINT32_MAX
             then bind_result (readHeaderPage (itFile it) (itBuffer it) next') (\<lambda>h.
                    Inr (r, it1\<lparr>itBuffer := h, itOffset := WAL_HEADER_PAGE_PREFIX_FIELD_SIZES,
                                numRecordsReadInCurrentHeaderPage := 0\<rparr>))
             else Inr (r, it1))"

text \<open>
  The loop \<open>while (it.hasNextRecord()) it.getNextRecord(rec)\<close> of the callers, with a bound on the
  number of records read; running out of it is \<open>Blocks\<close> (the loop does not end).
\<close>

fun readRecords :: "nat \<Rightarrow> 'p WALIterator \<Rightarrow> WALRecord list result" where
  "readRecords 0 it = (if hasNextRecordNoLock it then Inl Blocks else Inr [])"
| "readRecords (Suc n) it =
     (if hasNextRecordNoLock it
      then bind_result (getNextRecord it) (\<lambda>(r, it').
           bind_result (readRecords n it') (\<lambda>rs. Inr (r # rs)))
      else Inr [])"

section \<open>Opening, flushing and clearing\<close>

definition setIsLastRecordCommit :: "nat \<Rightarrow> 'p WAL \<Rightarrow> 'p WAL result" where
  "setIsLastRecordCommit fuel w =
     bind_result (newWALIterator w) (\<lambda>it.
       if \<not> hasNextRecordNoLock it then Inr w
       else bind_result (readRecords fuel it) (\<lambda>rs.
         Inr (if is_commit (last rs) then w\<lparr>isLastLoggedRecordCommit := True\<rparr> else w)))"

definition initCurrentPage :: "nat \<Rightarrow> 'p WAL \<Rightarrow> 'p WAL result" where
  "initCurrentPage fuel w =
     (let w1 = w\<lparr>currentHeaderPageIdx := 0, isLastLoggedRecordCommit := False\<rparr> in
      if numPages (fileHandle w1) = 0
      then Inr (resetCurrentHeaderPagePrefix (snd (addNewWALPage w1)))
      else bind_result (readHeaderPage (walFile w1) (currentHeaderPageBuffer w1) 0) (\<lambda>h.
             setIsLastRecordCommit fuel (w1\<lparr>currentHeaderPageBuffer := h\<rparr>)))"

text \<open>The constructor: opens the file, an empty one if it had to be created.\<close>

definition newWAL :: "nat \<Rightarrow> 'p wal_file \<Rightarrow> 'p WAL result" where
  "newWAL fuel file =
     initCurrentPage fuel
       \<lparr>fileHandle = newFileHandle 4 (sizeInPages file * DEFAULT_PAGE_SIZE), walFile = file, walFrames = (\<lambda>_. None),
        offsetInCurrentHeaderPage = 9223372036854775807, currentHeaderPageIdx = 2147483647,
        currentHeaderPageBuffer = \<lparr>numRecords = 0, nextHeaderPageIdx = 0, recordAt = (\<lambda>_. None)\<rparr>,
        isLastLoggedRecordCommit = False, updatedUnstructuredPropertyLists = []\<rparr>"

definition flushFrame :: "'p WAL \<Rightarrow> page_idx \<Rightarrow> 'p WAL" where
  "flushFrame w i =
     (case walFrames w i of
        None \<Rightarrow> w
      | Some (p, dirty) \<Rightarrow>
          w\<lparr>walFile := (if dirty then writePageToFile (walFile w) i (DataPage p) else walFile w),
            walFrames := (walFrames w)(i := None)\<rparr>)"

definition flushAllPages :: "'p WAL \<Rightarrow> 'p WAL" where
  "flushAllPages w =
     (if isEmptyWAL w then w
      else let w1 = flushHeaderPages w
           in fold (\<lambda>i v. flushFrame v i) [0..<numPages (fileHandle w1)] w1)"

text \<open>
  \<open>clearWAL\<close> drops the frames, truncates the file and starts a fresh header page.  The
  \<^verbatim>\<open>*.wal\<close> versions of other files, which it also deletes, are not part of the model.
\<close>

definition clearWAL :: "nat \<Rightarrow> 'p WAL \<Rightarrow> 'p WAL result" where
  "clearWAL fuel w =
     initCurrentPage fuel (w\<lparr>walFrames := (\<lambda>i. if i < numPages (fileHandle w) then None
                                               else walFrames w i),
        fileHandle := resetToZeroPagesAndPageCapacity (fileHandle w),
        walFile := \<lparr>pageAt = (\<lambda>_. None), sizeInPages = 0\<rparr>\<rparr>)"


section \<open>What a state of the log represents\<close>

text \<open>A header page with exactly the records \<open>rs\<close> and the successor \<open>nxt\<close>.\<close>

definition hdr_rep :: "header_page \<Rightarrow> WALRecord list \<Rightarrow> page_idx \<Rightarrow> bool" where
  "hdr_rep h rs nxt \<longleftrightarrow> numRecords h = length rs \<and> nextHeaderPageIdx h = nxt \<and>
     (\<forall>k < length rs. recordAt h (12 + 80 * k) = Some (rs ! k))"

definition chain_head :: "(page_idx \<times> WALRecord list) list \<Rightarrow> page_idx \<Rightarrow> page_idx" where
  "chain_head cs nxt = (case cs of [] \<Rightarrow> nxt | c # _ \<Rightarrow> fst c)"

lemma chain_head_simps [simp]: "chain_head [] n = n" "chain_head ((i, rs) # cs) n = i"
  by (simp_all add: chain_head_def)

text \<open>The header pages in the file, chained up to the page index \<open>nxt\<close>.\<close>

fun chain_rep :: "(page_idx \<Rightarrow> 'p wal_page option) \<Rightarrow> (page_idx \<times> WALRecord list) list \<Rightarrow> page_idx \<Rightarrow> bool"
where
  "chain_rep f [] nxt = True"
| "chain_rep f ((i, rs) # cs) nxt =
     (rs \<noteq> [] \<and> (\<exists>h. f i = Some (HeaderPage h) \<and> hdr_rep h rs (chain_head cs nxt)) \<and>
      chain_rep f cs nxt)"

definition file_ok :: "'p wal_file \<Rightarrow> bool" where
  "file_ok f \<longleftrightarrow> (\<forall>i. pageAt f i \<noteq> None \<longrightarrow> i < sizeInPages f)"

text \<open>
  The representation: full header pages \<open>cs\<close> in the file, the current one in the buffer.
\<close>

definition wal_parts ::
  "'p WAL \<Rightarrow> (page_idx \<times> WALRecord list) list \<Rightarrow> WALRecord list \<Rightarrow> bool" where
  "wal_parts w cs rs \<longleftrightarrow>
     chain_rep (pageAt (walFile w)) cs (currentHeaderPageIdx w) \<and>
     hdr_rep (currentHeaderPageBuffer w) rs UINT32_MAX \<and>
     offsetInCurrentHeaderPage w = 12 + 80 * length rs \<and> length rs \<le> 51 \<and>
     chain_head cs (currentHeaderPageIdx w) = 0 \<and>
     currentHeaderPageIdx w \<notin> fst ` set cs \<and>
     (\<forall>i \<in> fst ` set cs. i < numPages (fileHandle w)) \<and>
     currentHeaderPageIdx w < numPages (fileHandle w) \<and>
     length (concat (map snd cs)) + 51 \<le> 51 * numPages (fileHandle w) \<and>
     (cs \<noteq> [] \<longrightarrow> rs \<noteq> []) \<and> (rs = [] \<longrightarrow> sizeInPages (walFile w) = 0) \<and>
     fh_inv (fileHandle w) \<and> numPages (fileHandle w) \<le> UINT32_MAX \<and> file_ok (walFile w) \<and>
     sizeInPages (walFile w) \<le> numPages (fileHandle w)"

definition wal_rep :: "'p WAL \<Rightarrow> WALRecord list \<Rightarrow> bool" where
  "wal_rep w log \<longleftrightarrow>
     (\<exists>cs rs. wal_parts w cs rs \<and> log = concat (map snd cs) @ rs) \<and>
     isLastLoggedRecordCommit w = (log \<noteq> [] \<and> is_commit (last log))"

text \<open>Pages the log can still allocate; an append needs at most one.\<close>

definition wal_room :: "'p WAL \<Rightarrow> nat" where
  "wal_room w = UINT32_MAX - numPages (fileHandle w)"

lemmas page_sizes = WAL_HEADER_PAGE_SIZE_def WAL_HEADER_PAGE_PREFIX_FIELD_SIZES_def
  DEFAULT_PAGE_SIZE_def

lemma chain_rep_upd:
  "i \<notin> fst ` set cs \<Longrightarrow> chain_rep (f(i \<mapsto> p)) cs n = chain_rep f cs n"
  by (induction f cs n rule: chain_rep.induct) auto

lemma chain_rep_snoc:
  "chain_rep f cs i \<Longrightarrow> rs \<noteq> [] \<Longrightarrow> f i = Some (HeaderPage h) \<Longrightarrow> hdr_rep h rs n \<Longrightarrow>
     chain_rep f (cs @ [(i, rs)]) n"
proof (induction cs)
  case (Cons c cs)
  then show ?case by (cases c; cases cs) auto
qed simp

lemma chain_head_snoc: "chain_head (cs @ [(i, rs)]) n = chain_head cs i"
  by (cases cs) (auto simp: chain_head_def)

lemma hdr_rep_snoc:
  assumes "hdr_rep h rs n"
  shows "hdr_rep (h\<lparr>numRecords := numRecords h + 1,
    recordAt := (recordAt h)(12 + 80 * length rs \<mapsto> r)\<rparr>) (rs @ [r]) n"
  using assms by (auto simp: hdr_rep_def nth_append less_Suc_eq)

section \<open>Appending\<close>

lemma addNewWALPage_props:
  assumes "wal_parts w cs rs" and "0 < wal_room w" and "addNewWALPage w = (i, w')"
  shows "i = numPages (fileHandle w)" and "wal_parts w' cs rs"
    and "numPages (fileHandle w') = Suc (numPages (fileHandle w))"
    and "walFile w' = walFile w" and "isLastLoggedRecordCommit w' = isLastLoggedRecordCommit w"
    and "offsetInCurrentHeaderPage w' = offsetInCurrentHeaderPage w"
    and "currentHeaderPageBuffer w' = currentHeaderPageBuffer w"
    and "currentHeaderPageIdx w' = currentHeaderPageIdx w"
proof -
  obtain fh where a: "addNewPageWithoutLock (fileHandle w) = (i, fh)" and w': "w' = w\<lparr>fileHandle := fh\<rparr>"
    using assms(3) by (auto simp: addNewWALPage_def addNewPage_def split: prod.splits)
  have "fh_inv (fileHandle w)" and small: "numPages (fileHandle w) < UINT32_MAX"
    using assms(1,2) by (simp_all add: wal_parts_def wal_room_def)
  note p = addNewPageWithoutLock_props[OF this a]
  show "i = numPages (fileHandle w)" by (rule p(1))
  show "wal_parts w' cs rs" using assms(1) p(2,3) small by (auto simp: wal_parts_def w')
  show "numPages (fileHandle w') = Suc (numPages (fileHandle w))" using p(2) by (simp add: w')
qed (use assms(3) in \<open>auto simp: addNewWALPage_def addNewPage_def split: prod.splits\<close>)

lemma file_ok_write: "file_ok f \<Longrightarrow> file_ok (writePageToFile f i p)"
  by (auto simp: file_ok_def writePageToFile_def)

text \<open>A full current header page is linked to a fresh one and written to the file.\<close>

lemma startNextHeaderPage_props:
  assumes parts: "wal_parts w cs rs" and rs: "rs \<noteq> []" and room: "0 < wal_room w"
  defines "w' \<equiv> startNextHeaderPage w"
  shows "hdr_rep (currentHeaderPageBuffer w') [] UINT32_MAX"
    and "offsetInCurrentHeaderPage w' = 12"
    and "chain_rep (pageAt (walFile w')) (cs @ [(currentHeaderPageIdx w, rs)]) (currentHeaderPageIdx w')"
    and "currentHeaderPageIdx w' = numPages (fileHandle w)"
    and "numPages (fileHandle w') = Suc (numPages (fileHandle w))"
    and "fh_inv (fileHandle w')" and "file_ok (walFile w')"
    and "sizeInPages (walFile w') \<le> numPages (fileHandle w)"
proof -
  obtain i w1 where a: "addNewWALPage w = (i, w1)" by force
  note p = addNewWALPage_props[OF parts room a]
  let ?h = "(currentHeaderPageBuffer w)\<lparr>nextHeaderPageIdx := i\<rparr>"
  have iu: "to_u32 i = i" using p(1) room by (intro to_u32_small) (simp add: wal_room_def)
  have w': "w' = w1\<lparr>walFile := writePageToFile (walFile w) (currentHeaderPageIdx w) (HeaderPage ?h),
      currentHeaderPageBuffer := ?h\<lparr>numRecords := 0, nextHeaderPageIdx := UINT32_MAX\<rparr>,
      offsetInCurrentHeaderPage := 12, currentHeaderPageIdx := i\<rparr>"
    using a p iu by (simp add: w'_def startNextHeaderPage_def setNextHeaderPageOfCurrentHeaderPage_def
        writeHeaderPage_def resetCurrentHeaderPagePrefix_def page_sizes)
  show "hdr_rep (currentHeaderPageBuffer w') [] UINT32_MAX" and
    "offsetInCurrentHeaderPage w' = 12" and
    "currentHeaderPageIdx w' = numPages (fileHandle w)" and
    "numPages (fileHandle w') = Suc (numPages (fileHandle w))" and
    "fh_inv (fileHandle w')" and "file_ok (walFile w')"
    using p parts by (auto simp: w' hdr_rep_def wal_parts_def file_ok_write)
  show "sizeInPages (walFile w') \<le> numPages (fileHandle w)" using parts by (simp add: w' wal_parts_def writePageToFile_def)
  let ?f = "(pageAt (walFile w))(currentHeaderPageIdx w \<mapsto> HeaderPage ?h)"
  have "chain_rep ?f cs (currentHeaderPageIdx w)"
    using parts by (simp add: wal_parts_def chain_rep_upd)
  then have "chain_rep ?f (cs @ [(currentHeaderPageIdx w, rs)]) i"
    by (rule chain_rep_snoc[where h = ?h]) (use parts rs in \<open>auto simp: wal_parts_def hdr_rep_def\<close>)
  then show "chain_rep (pageAt (walFile w')) (cs @ [(currentHeaderPageIdx w, rs)])
      (currentHeaderPageIdx w')"
    by (simp add: w' writePageToFile_def)
qed

text \<open>The pages of the log with records; the others are free for data.\<close>

definition hdrPages :: "'p WAL \<Rightarrow> (page_idx \<times> WALRecord list) list \<Rightarrow> page_idx set" where
  "hdrPages w cs = insert (currentHeaderPageIdx w) (fst ` set cs)"

lemma addNewWALRecord_parts:
  assumes parts: "wal_parts w cs rs" and room: "0 < wal_room w"
  shows "\<exists>cs' rs'. wal_parts (addNewWALRecordNoLock w r) cs' rs' \<and>
      concat (map snd cs') @ rs' = (concat (map snd cs) @ rs) @ [r] \<and> rs' \<noteq> [] \<and>
      hdrPages (addNewWALRecordNoLock w r) cs' \<subseteq> insert (numPages (fileHandle w)) (hdrPages w cs)"
    and "numPages (fileHandle (addNewWALRecordNoLock w r)) \<le> Suc (numPages (fileHandle w))"
    and "numPages (fileHandle w) \<le> numPages (fileHandle (addNewWALRecordNoLock w r))"
proof -
  let ?w = "addNewWALRecordNoLock w r"
  have off: "offsetInCurrentHeaderPage w = 12 + 80 * length rs" and len: "length rs \<le> 51"
    using parts by (simp_all add: wal_parts_def)
  note defs = addNewWALRecordNoLock_def writeWALRecordToBytes_def
    incrementNumRecordsInCurrentHeaderPage_def page_sizes
  have "(\<exists>cs' rs'. wal_parts ?w cs' rs' \<and>
      concat (map snd cs') @ rs' = (concat (map snd cs) @ rs) @ [r] \<and> rs' \<noteq> [] \<and>
      hdrPages ?w cs' \<subseteq> insert (numPages (fileHandle w)) (hdrPages w cs)) \<and>
      numPages (fileHandle ?w) \<le> Suc (numPages (fileHandle w)) \<and> numPages (fileHandle w) \<le> numPages (fileHandle ?w)"
  proof (cases "length rs = 51")
    case False
    then have fits: "\<not> offsetInCurrentHeaderPage w + sizeof_WALRecord > WAL_HEADER_PAGE_SIZE"
      using off len by (simp add: page_sizes)
    have hd: "hdr_rep (currentHeaderPageBuffer ?w) (rs @ [r]) UINT32_MAX"
      using hdr_rep_snoc[of "currentHeaderPageBuffer w" rs UINT32_MAX r] parts fits off
      by (simp add: defs Let_def wal_parts_def)
    have "wal_parts ?w cs (rs @ [r])"
      using parts fits off False len hd by (auto simp: defs Let_def wal_parts_def)
    moreover have "numPages (fileHandle ?w) = numPages (fileHandle w)"
      using fits by (simp add: defs Let_def)
    moreover have "hdrPages ?w cs = hdrPages w cs" using fits by (simp add: defs Let_def hdrPages_def)
    ultimately show ?thesis by (intro conjI exI[of _ cs] exI[of _ "rs @ [r]"]) auto
  next
    case True
    then have full: "offsetInCurrentHeaderPage w + sizeof_WALRecord > WAL_HEADER_PAGE_SIZE"
      and ne: "rs \<noteq> []" using off by (auto simp: page_sizes)
    note p = startNextHeaderPage_props[OF parts ne room]
    let ?cs = "cs @ [(currentHeaderPageIdx w, rs)]"
    have hd: "hdr_rep (currentHeaderPageBuffer ?w) ([] @ [r]) UINT32_MAX"
      using hdr_rep_snoc[OF p(1), of r] full p(2) by (simp add: defs Let_def)
    have "wal_parts ?w ?cs [r]"
      using parts full hd p room chain_head_snoc[of cs "currentHeaderPageIdx w" rs]
      by (auto simp: defs Let_def wal_parts_def wal_room_def)
    moreover have "numPages (fileHandle ?w) = Suc (numPages (fileHandle w))"
      using full p(5) by (simp add: defs Let_def)
    moreover have "hdrPages ?w ?cs = insert (numPages (fileHandle w)) (hdrPages w cs)"
      using full p(4) by (auto simp: defs Let_def hdrPages_def)
    ultimately show ?thesis by (intro conjI exI[of _ ?cs] exI[of _ "[r]"]) auto
  qed
  then show "\<exists>cs' rs'. wal_parts ?w cs' rs' \<and>
      concat (map snd cs') @ rs' = (concat (map snd cs) @ rs) @ [r] \<and> rs' \<noteq> [] \<and>
      hdrPages ?w cs' \<subseteq> insert (numPages (fileHandle w)) (hdrPages w cs)"
    and "numPages (fileHandle ?w) \<le> Suc (numPages (fileHandle w))" and "numPages (fileHandle w) \<le> numPages (fileHandle ?w)"
    by blast+
qed

lemma addNewWALRecord_rep:
  assumes "wal_rep w log" and "0 < wal_room w"
  shows "wal_rep (addNewWALRecordNoLock w r) (log @ [r])"
    and "wal_room w \<le> Suc (wal_room (addNewWALRecordNoLock w r))"
proof -
  obtain cs rs where p: "wal_parts w cs rs" and log: "log = concat (map snd cs) @ rs"
    using assms(1) by (auto simp: wal_rep_def)
  note a = addNewWALRecord_parts[OF p assms(2), of r]
  have "isLastLoggedRecordCommit (addNewWALRecordNoLock w r) = is_commit r"
    by (simp add: addNewWALRecordNoLock_def Let_def)
  with a(1) show "wal_rep (addNewWALRecordNoLock w r) (log @ [r])"
    unfolding wal_rep_def log by (metis last_snoc snoc_eq_iff_butlast)
  show "wal_room w \<le> Suc (wal_room (addNewWALRecordNoLock w r))"
    using a(2) by (simp add: wal_room_def)
qed

section \<open>Reading back\<close>

lemma readRecords_chain:
  assumes "chain_rep (pageAt f) ps UINT32_MAX" and "\<forall>i \<in> fst ` set ps. i \<noteq> UINT32_MAX"
    and "file_ok f" and "hdr_rep h rs (chain_head ps UINT32_MAX)" and "k < length rs"
    and "length (drop k rs @ concat (map snd ps)) \<le> n"
  shows "readRecords n \<lparr>itFile = f, itOffset = 12 + 80 * k, itBuffer = h,
           numRecordsReadInCurrentHeaderPage = k\<rparr> = Inr (drop k rs @ concat (map snd ps))"
  using assms
proof (induction n arbitrary: ps h rs k)
  case 0
  then show ?case by simp
next
  case (Suc n)
  let ?it = "\<lambda>k h. \<lparr>itFile = f, itOffset = 12 + 80 * k, itBuffer = h,
    numRecordsReadInCurrentHeaderPage = k\<rparr>"
  have num: "numRecords h = length rs" and rec: "recordAt h (12 + 80 * k) = Some (rs ! k)"
    and nxt: "nextHeaderPageIdx h = chain_head ps UINT32_MAX"
    using Suc.prems(4,5) by (auto simp: hdr_rep_def)
  have drop: "drop k rs = rs ! k # drop (Suc k) rs"
    using Suc.prems(5) by (simp add: Cons_nth_drop_Suc)
  have has: "hasNextRecordNoLock (?it k h)"
    using Suc.prems(5) num by (simp add: hasNextRecordNoLock_def)
  consider (same) "Suc k < length rs" | (lastp) "Suc k = length rs" "ps = []"
    | (nextp) i rs' ps' where "Suc k = length rs" "ps = (i, rs') # ps'"
    using Suc.prems(5) by (cases ps) (auto simp: less_Suc_eq_le nat_less_le)
  then show ?case
  proof cases
    case same
    have "getNextRecord (?it k h) = Inr (rs ! k, ?it (Suc k) h)"
      using has rec num same by (simp add: getNextRecord_def Let_def)
    moreover have "readRecords n (?it (Suc k) h) = Inr (drop (Suc k) rs @ concat (map snd ps))"
      using Suc.prems same drop by (intro Suc.IH) simp_all
    ultimately show ?thesis using has drop by simp
  next
    case lastp
    have "getNextRecord (?it k h) = Inr (rs ! k, ?it (Suc k) h)"
      using has rec num nxt lastp by (simp add: getNextRecord_def Let_def)
    moreover have "readRecords n (?it (Suc k) h) = Inr []"
      using num lastp by (cases n) (simp_all add: hasNextRecordNoLock_def)
    ultimately show ?thesis using has drop lastp by simp
  next
    case nextp
    obtain h' where h': "pageAt f i = Some (HeaderPage h')" "hdr_rep h' rs' (chain_head ps' UINT32_MAX)"
      and rs': "rs' \<noteq> []"
      using Suc.prems(1) nextp by auto
    have "i < sizeInPages f" using Suc.prems(3) h'(1) by (auto simp: file_ok_def)
    then have "getNextRecord (?it k h) = Inr (rs ! k, ?it 0 h')"
      using has rec num nxt nextp h'(1) Suc.prems(2)
      by (simp add: getNextRecord_def Let_def readHeaderPage_def page_sizes)
    moreover have "readRecords n (?it 0 h') = Inr (drop 0 rs' @ concat (map snd ps'))"
      using Suc.prems nextp h' rs' drop by (intro Suc.IH) simp_all
    ultimately show ?thesis using has drop nextp by simp
  qed
qed

text \<open>The records an iterator opened on the log delivers, with room for \<open>fuel\<close> of them.\<close>

definition readLog :: "nat \<Rightarrow> 'p WAL \<Rightarrow> WALRecord list result" where
  "readLog fuel w = bind_result (getIterator w) (\<lambda>(w', it). readRecords fuel it)"

lemma isEmptyWAL_iff:
  assumes "wal_parts w cs rs" shows "isEmptyWAL w \<longleftrightarrow> concat (map snd cs) @ rs = []"
proof -
  have "cs \<noteq> [] \<Longrightarrow> chain_head cs (currentHeaderPageIdx w) \<noteq> currentHeaderPageIdx w"
    using assms by (cases cs) (auto simp: wal_parts_def)
  moreover have "cs \<noteq> [] \<Longrightarrow> rs \<noteq> []" and "numRecords (currentHeaderPageBuffer w) = length rs"
    using assms by (auto simp: wal_parts_def hdr_rep_def)
  ultimately show ?thesis
    using assms by (cases "cs = []") (auto simp: isEmptyWAL_def wal_parts_def)
qed

text \<open>After the flush all header pages, the current one included, are in the file.\<close>

lemma flushed_chain:
  assumes p: "wal_parts w cs rs" and ne: "rs \<noteq> []"
  defines "ps \<equiv> cs @ [(currentHeaderPageIdx w, rs)]"
  defines "f \<equiv> walFile (flushHeaderPages w)"
  shows "chain_rep (pageAt f) ps UINT32_MAX" and "\<forall>i \<in> fst ` set ps. i \<noteq> UINT32_MAX"
    and "file_ok f" and "chain_head ps UINT32_MAX = 0" and "ps \<noteq> []"
    and "concat (map snd ps) = concat (map snd cs) @ rs"
proof -
  have f: "f = writePageToFile (walFile w) (currentHeaderPageIdx w)
      (HeaderPage (currentHeaderPageBuffer w))"
    using isEmptyWAL_iff[OF p] ne by (simp add: f_def flushHeaderPages_def writeHeaderPage_def)
  have "chain_rep (pageAt f) cs (currentHeaderPageIdx w)"
    using p by (simp add: f writePageToFile_def wal_parts_def chain_rep_upd)
  then show "chain_rep (pageAt f) ps UINT32_MAX" unfolding ps_def
    by (rule chain_rep_snoc[where h = "currentHeaderPageBuffer w"])
      (use p ne in \<open>auto simp: f writePageToFile_def wal_parts_def\<close>)
  show "\<forall>i \<in> fst ` set ps. i \<noteq> UINT32_MAX" using p by (auto simp: ps_def wal_parts_def)
  show "file_ok f" using p by (simp add: f file_ok_write wal_parts_def)
  show "chain_head ps UINT32_MAX = 0" using p by (simp add: ps_def chain_head_snoc wal_parts_def)
  show "ps \<noteq> []" and "concat (map snd ps) = concat (map snd cs) @ rs" by (simp_all add: ps_def)
qed

lemma newWALIterator_chain:
  assumes "chain_rep (pageAt (walFile w)) ps UINT32_MAX" and "\<forall>i \<in> fst ` set ps. i \<noteq> UINT32_MAX"
    and "file_ok (walFile w)" and "chain_head ps UINT32_MAX = 0" and "ps \<noteq> []"
    and "0 < numPages (fileHandle w)" and "length (concat (map snd ps)) \<le> n"
  shows "\<exists>it. newWALIterator w = Inr it \<and> hasNextRecordNoLock it \<and>
           readRecords n it = Inr (concat (map snd ps))"
proof -
  obtain rs ps' where ps: "ps = (0, rs) # ps'" using assms(4,5) by (cases ps) auto
  obtain h where h: "pageAt (walFile w) 0 = Some (HeaderPage h)"
      "hdr_rep h rs (chain_head ps' UINT32_MAX)" "rs \<noteq> []"
    using assms(1) ps by auto
  have "0 < sizeInPages (walFile w)" using assms(3) h(1) by (auto simp: file_ok_def)
  then have "newWALIterator w = Inr \<lparr>itFile = walFile w, itOffset = 12 + 80 * 0, itBuffer = h,
      numRecordsReadInCurrentHeaderPage = 0\<rparr>"
    using h(1) assms(6) by (simp add: newWALIterator_def Let_def readHeaderPage_def page_sizes)
  moreover have "readRecords n \<lparr>itFile = walFile w, itOffset = 12 + 80 * 0, itBuffer = h,
      numRecordsReadInCurrentHeaderPage = 0\<rparr> = Inr (drop 0 rs @ concat (map snd ps'))"
    using assms h ps by (intro readRecords_chain) auto
  ultimately show ?thesis
    using ps h by (auto simp: hasNextRecordNoLock_def hdr_rep_def)
qed

lemma readLog_parts:
  assumes p: "wal_parts w cs rs" and log: "log = concat (map snd cs) @ rs" and len: "length log \<le> n"
  shows "readLog n w = Inr log"
proof -
  have np: "0 < numPages (fileHandle (flushHeaderPages w))"
    using p by (auto simp: wal_parts_def flushHeaderPages_def writeHeaderPage_def)
  show ?thesis
  proof (cases "rs = []")
    case True
    then have "cs = []" and empty: "isEmptyWAL w" and "sizeInPages (walFile w) = 0"
      using p isEmptyWAL_iff[OF p] by (auto simp: wal_parts_def)
    then show ?thesis
      using np True log by (cases n) (auto simp: readLog_def getIterator_def newWALIterator_def
          flushHeaderPages_def readHeaderPage_def emptyHeaderPage_def hasNextRecordNoLock_def)
  next
    case False
    note c = flushed_chain[OF p False]
    from newWALIterator_chain[OF c(1-5) np, of n] c(6) log len
    show ?thesis by (auto simp: readLog_def getIterator_def Let_def)
  qed
qed

lemma readLog_rep: "wal_rep w log \<Longrightarrow> length log \<le> n \<Longrightarrow> readLog n w = Inr log"
  by (auto simp: wal_rep_def intro: readLog_parts)

lemma wal_rep_length: "wal_rep w log \<Longrightarrow> length log \<le> 51 * numPages (fileHandle w)"
  by (auto simp: wal_rep_def wal_parts_def)

text \<open>The log is an append-only record log; reading needs at most 51 records per page.\<close>

interpretation wal: record_log addNewWALRecordNoLock wal_rep wal_room
  "\<lambda>w. readLog (51 * numPages (fileHandle w)) w"
  by unfold_locales (auto intro: addNewWALRecord_rep readLog_rep wal_rep_length)

section \<open>Opening, clearing, crash and reopen\<close>

lemma wal_rep_empty:
  assumes "fh_inv fh" and "numPages fh = 1" and "off = 12" and "cur = 0"
    and "numRecords buf = 0" and "nextHeaderPageIdx buf = UINT32_MAX"
  shows "wal_rep \<lparr>fileHandle = fh, walFile = \<lparr>pageAt = (\<lambda>_. None), sizeInPages = 0\<rparr>,
    walFrames = fr, offsetInCurrentHeaderPage = off, currentHeaderPageIdx = cur,
    currentHeaderPageBuffer = buf, isLastLoggedRecordCommit = False,
    updatedUnstructuredPropertyLists = ls\<rparr> []"
  using assms
  by (auto simp: wal_rep_def wal_parts_def hdr_rep_def file_ok_def UINT32_MAX_def
      intro!: exI[of _ "[]"])

text \<open>On an empty file \<open>initCurrentPage\<close> allocates the first header page.\<close>

lemma initCurrentPage_empty:
  assumes "fh_inv (fileHandle w)" and "numPages (fileHandle w) = 0"
    and "walFile w = \<lparr>pageAt = (\<lambda>_. None), sizeInPages = 0\<rparr>"
  shows "\<exists>w'. initCurrentPage n w = Inr w' \<and> wal_rep w' [] \<and>
     wal_room w' = UINT32_MAX - 1 \<and> walFrames w' = walFrames w"
proof -
  let ?w = "w\<lparr>currentHeaderPageIdx := 0, isLastLoggedRecordCommit := False\<rparr>"
  obtain i fh where a: "addNewPageWithoutLock (fileHandle w) = (i, fh)" by force
  have small: "numPages (fileHandle w) < UINT32_MAX" using assms(2) by (simp add: UINT32_MAX_def)
  note p = addNewPageWithoutLock_props[OF assms(1) small a]
  let ?w' = "resetCurrentHeaderPagePrefix (?w\<lparr>fileHandle := fh\<rparr>)"
  have "initCurrentPage n w = Inr ?w'"
    using assms(2) a by (simp add: initCurrentPage_def addNewWALPage_def addNewPage_def)
  moreover have "wal_rep ?w' []"
    using assms p by (cases w) (auto simp: resetCurrentHeaderPagePrefix_def page_sizes
        intro!: wal_rep_empty)
  ultimately show ?thesis
    using p(2) assms(2) by (auto simp: wal_room_def resetCurrentHeaderPagePrefix_def)
qed

lemma resetToZero_numPages [simp]: "numPages (resetToZeroPagesAndPageCapacity fh) = 0"
  by (simp add: resetToZeroPagesAndPageCapacity_def)

lemma newFileHandle_numPages:
  "n < UINT32_MAX \<Longrightarrow> numPages (newFileHandle 4 (n * DEFAULT_PAGE_SIZE)) = n"
  by (simp add: newFileHandle_def constructExistingFileHandle_def Let_def getPageSize_def
      isLargePaged_def page_sizes to_u32_def UINT32_MAX_def)

lemma newWALIterator_cong:
  "walFile w = walFile w' \<Longrightarrow> fileHandle w = fileHandle w' \<Longrightarrow> newWALIterator w = newWALIterator w'"
  by (simp add: newWALIterator_def Let_def)

text \<open>What a reopened log file shows when the file holds the header chain \<open>ps\<close>.\<close>

lemma newWAL_chain:
  assumes c: "chain_rep (pageAt f) ps UINT32_MAX" "\<forall>i \<in> fst ` set ps. i \<noteq> UINT32_MAX" "file_ok f"
      "chain_head ps UINT32_MAX = 0" "ps \<noteq> []"
    and size: "sizeInPages f < UINT32_MAX" and n: "length (concat (map snd ps)) \<le> n"
  shows "\<exists>w. newWAL n f = Inr w \<and> \<not> isEmptyWAL w \<and>
     isLastLoggedRecordCommit w = is_commit (last (concat (map snd ps))) \<and>
     readLog n w = Inr (concat (map snd ps)) \<and> walFile (flushHeaderPages w) = f \<and> updatedUnstructuredPropertyLists w = []"
proof -
  obtain rs ps' where ps: "ps = (0, rs) # ps'" using c(4,5) by (cases ps) auto
  obtain h where h: "pageAt f 0 = Some (HeaderPage h)"
      "hdr_rep h rs (chain_head ps' UINT32_MAX)" "rs \<noteq> []"
    using c(1) ps by auto
  have pos: "0 < sizeInPages f" using c(3) h(1) by (auto simp: file_ok_def)
  let ?fh = "newFileHandle 4 (sizeInPages f * DEFAULT_PAGE_SIZE)"
  have np: "numPages ?fh = sizeInPages f" using newFileHandle_numPages[OF size] .
  let ?w = "\<lparr>fileHandle = ?fh, walFile = f, walFrames = (\<lambda>_. None),
    offsetInCurrentHeaderPage = 9223372036854775807, currentHeaderPageIdx = 0,
    currentHeaderPageBuffer = h, isLastLoggedRecordCommit = False,
    updatedUnstructuredPropertyLists = []\<rparr>"
  obtain it where it: "newWALIterator ?w = Inr it" "hasNextRecordNoLock it"
      "readRecords n it = Inr (concat (map snd ps))"
    using newWALIterator_chain[of ?w ps n] c n np pos by auto
  define v where "v = ?w\<lparr>isLastLoggedRecordCommit := is_commit (last (concat (map snd ps)))\<rparr>"
  have v: "walFile v = f" "fileHandle v = ?fh" "currentHeaderPageIdx v = 0"
      "currentHeaderPageBuffer v = h"
      "isLastLoggedRecordCommit v = is_commit (last (concat (map snd ps)))"
    by (simp_all add: v_def)
  have "newWAL n f = Inr v"
    using np pos h(1) it
    by (simp add: newWAL_def initCurrentPage_def readHeaderPage_def setIsLastRecordCommit_def v_def)
  moreover have ne: "\<not> isEmptyWAL v" using h v by (simp add: isEmptyWAL_def hdr_rep_def)
  moreover have rw: "writePageToFile f 0 (HeaderPage h) = f"
    using h(1) pos by (cases f) (simp add: writePageToFile_def fun_upd_idem max_def)
  moreover have "newWALIterator (flushHeaderPages v) = newWALIterator ?w"
    using rw ne v by (intro newWALIterator_cong) (simp_all add: flushHeaderPages_def writeHeaderPage_def)
  moreover have "walFile (flushHeaderPages v) = f" "updatedUnstructuredPropertyLists v = []"
    using rw ne v by (simp_all add: flushHeaderPages_def writeHeaderPage_def v_def)
  ultimately show ?thesis
    using it v(5) by (auto simp: readLog_def getIterator_def Let_def)
qed

text \<open>Writing a data page that is not a header page leaves the log alone.\<close>

definition writeDataPage :: "'p WAL \<Rightarrow> page_idx \<Rightarrow> 'p \<Rightarrow> 'p WAL" where
  "writeDataPage w i p = w\<lparr>walFile := writePageToFile (walFile w) i (DataPage p)\<rparr>"

lemma writeDataPage_parts:
  assumes "wal_parts w cs rs" and "rs \<noteq> []" and "i \<notin> fst ` set cs" and "i < numPages (fileHandle w)"
  shows "wal_parts (writeDataPage w i p) cs rs"
  using assms
  by (auto simp: wal_parts_def writeDataPage_def writePageToFile_def chain_rep_upd file_ok_def)

section \<open>Properties\<close>

abbreviation emptyFile :: "'p wal_file" where
  "emptyFile \<equiv> \<lparr>pageAt = (\<lambda>_. None), sizeInPages = 0\<rparr>"

lemma newWAL_empty:
  "\<exists>w. newWAL n (emptyFile :: 'p wal_file) = Inr w \<and> wal_rep w [] \<and> wal_room w = UINT32_MAX - 1"
proof -
  have "fh_inv (newFileHandle 4 0)" by (rule newFileHandle_inv)
  moreover have "numPages (newFileHandle 4 0) = 0"
    using newFileHandle_numPages[of 0] by (simp add: UINT32_MAX_def)
  ultimately have "\<exists>w'. initCurrentPage n
      \<lparr>fileHandle = newFileHandle 4 0, walFile = (emptyFile :: 'p wal_file), walFrames = (\<lambda>_. None),
       offsetInCurrentHeaderPage = 9223372036854775807, currentHeaderPageIdx = 2147483647,
       currentHeaderPageBuffer = \<lparr>numRecords = 0, nextHeaderPageIdx = 0, recordAt = (\<lambda>_. None)\<rparr>,
       isLastLoggedRecordCommit = False, updatedUnstructuredPropertyLists = []\<rparr> = Inr w' \<and>
      wal_rep w' [] \<and> wal_room w' = UINT32_MAX - 1 \<and> walFrames w' = (\<lambda>_. None)"
    using initCurrentPage_empty[of "\<lparr>fileHandle = newFileHandle 4 0,
       walFile = (emptyFile :: 'p wal_file), walFrames = (\<lambda>_. None),
       offsetInCurrentHeaderPage = 9223372036854775807, currentHeaderPageIdx = 2147483647,
       currentHeaderPageBuffer = \<lparr>numRecords = 0, nextHeaderPageIdx = 0, recordAt = (\<lambda>_. None)\<rparr>,
       isLastLoggedRecordCommit = False, updatedUnstructuredPropertyLists = []\<rparr>" n]
    by simp
  then show ?thesis by (auto simp: newWAL_def)
qed

text \<open>
  C4: the log delivers what was logged.  Whatever sequence of records is appended to a log
  created on an empty file (up to the number of pages a file can have), the iterator reads back
  exactly that sequence in order, across any number of chained header pages, and the flag that
  recovery consults tells whether the last of them is a commit record.
\<close>

theorem wal_reads_back_what_was_logged:
  assumes "newWAL n (emptyFile :: 'p wal_file) = Inr w" and "length recs < UINT32_MAX"
  shows "readLog (length recs) (fold (\<lambda>r v. addNewWALRecordNoLock v r) recs w) = Inr recs \<and>
    (isLastLoggedRecordCommit (fold (\<lambda>r v. addNewWALRecordNoLock v r) recs w) \<longleftrightarrow>
      recs \<noteq> [] \<and> is_commit (last recs))"
proof -
  have "wal_rep w []" and "wal_room w = UINT32_MAX - 1"
    using newWAL_empty[of n, where 'p = 'p] assms(1) by auto
  then have "wal_rep (fold (\<lambda>r v. addNewWALRecordNoLock v r) recs w) recs"
    using wal.appends_represent[of w "[]" recs] assms(2) by simp
  then show ?thesis
    by (auto simp: readLog_rep wal_rep_def)
qed

theorem wal_reads_back_what_was_logged_witness:
  "\<exists>w :: nat WAL. newWAL 1 emptyFile = Inr w \<and>
     readLog (Suc (Suc 0)) (addNewWALRecordNoLock (addNewWALRecordNoLock w CATALOG_RECORD)
       (COMMIT_RECORD 7)) = Inr [CATALOG_RECORD, COMMIT_RECORD 7]"
proof -
  obtain w :: "nat WAL" where w: "newWAL 1 emptyFile = Inr w" using newWAL_empty by blast
  show ?thesis
    using wal_reads_back_what_was_logged[OF w, of "[CATALOG_RECORD, COMMIT_RECORD 7]"] w
    by (auto simp: UINT32_MAX_def)
qed

text \<open>
  C5: the log survives a restart.  The destructor flushes the current header page; opening the
  file again shows a non-empty log with the same records, and the commit flag, recomputed by
  scanning the file, is the one the running system had.
\<close>

theorem wal_survives_reopen:
  assumes rep: "wal_rep w log" and ne: "log \<noteq> []"
    and size: "sizeInPages (walFile (flushHeaderPages w)) < UINT32_MAX"
  shows "\<exists>w'. newWAL (length log) (walFile (flushHeaderPages w)) = Inr w' \<and> \<not> isEmptyWAL w' \<and>
     isLastLoggedRecordCommit w' = isLastLoggedRecordCommit w \<and>
     readLog (length log) w' = Inr log"
proof -
  obtain cs rs where p: "wal_parts w cs rs" and log: "log = concat (map snd cs) @ rs"
    and flag: "isLastLoggedRecordCommit w = (log \<noteq> [] \<and> is_commit (last log))"
    using rep by (auto simp: wal_rep_def)
  have "rs \<noteq> []" using p ne log by (auto simp: wal_parts_def)
  note c = flushed_chain[OF p this]
  show ?thesis
    using newWAL_chain[OF c(1-5) size, of "length log"] c(6) log flag ne by fastforce
qed

theorem wal_survives_reopen_witness:
  "\<exists>(w :: nat WAL) w'. newWAL 1 emptyFile = Inr w \<and>
     newWAL (length [COMMIT_RECORD 7])
       (walFile (flushHeaderPages (addNewWALRecordNoLock w (COMMIT_RECORD 7)))) = Inr w' \<and>
     isLastLoggedRecordCommit w'"
proof -
  obtain w :: "nat WAL" where w: "newWAL 1 emptyFile = Inr w" "wal_rep w []"
      "wal_room w = UINT32_MAX - 1"
    using newWAL_empty by blast
  let ?w = "addNewWALRecordNoLock w (COMMIT_RECORD 7)"
  have r: "wal_rep ?w [COMMIT_RECORD 7]"
    using addNewWALRecord_rep(1)[OF w(2)] w(3) by (simp add: UINT32_MAX_def)
  have np: "numPages (fileHandle w) \<le> 1" and idx: "currentHeaderPageIdx w = 0"
    and sz: "sizeInPages (walFile w) = 0" and off: "offsetInCurrentHeaderPage w = 12"
    using w by (auto simp: wal_rep_def wal_parts_def wal_room_def UINT32_MAX_def)
  have "sizeInPages (walFile (flushHeaderPages ?w)) < UINT32_MAX"
    using idx sz off by (simp add: flushHeaderPages_def writeHeaderPage_def writePageToFile_def
        addNewWALRecordNoLock_def writeWALRecordToBytes_def page_sizes UINT32_MAX_def
        incrementNumRecordsInCurrentHeaderPage_def)
  from wal_survives_reopen[OF r _ this] w(1) r show ?thesis by (auto simp: wal_rep_def)
qed

text \<open>
  Logging a page update hands out a page that no later part of the log uses.  The record is
  appended with the index of a freshly allocated page; writing any content to that page keeps
  the log readable and unchanged.
\<close>

theorem logPageUpdateRecord_page_is_private:
  assumes rep: "wal_rep w log" and room: "2 \<le> wal_room w"
    and call: "logPageUpdateRecord w sid orig = (i, w')"
  shows "i = numPages (fileHandle w) \<and>
    readLog (Suc (length log)) w' = Inr (log @ [newPageUpdateRecord sid orig i]) \<and>
    readLog (Suc (length log)) (writeDataPage w' i p) =
      Inr (log @ [newPageUpdateRecord sid orig i])"
proof -
  obtain cs rs where p: "wal_parts w cs rs" and log: "log = concat (map snd cs) @ rs"
    using rep by (auto simp: wal_rep_def)
  obtain w1 where a: "addNewWALPage w = (i, w1)"
    and w': "w' = addNewWALRecordNoLock w1 (newPageUpdateRecord sid orig i)"
    using call by (auto simp: logPageUpdateRecord_def split: prod.splits)
  have pos: "0 < wal_room w" using room by simp
  note q = addNewWALPage_props[OF p pos a]
  have i: "i = numPages (fileHandle w)" by (rule q(1))
  have r1: "0 < wal_room w1" using q(3) room by (simp add: wal_room_def)
  have new: "i \<notin> hdrPages w1 cs" using p i q(8) by (auto simp: wal_parts_def hdrPages_def)
  obtain cs' rs' where p': "wal_parts w' cs' rs'" "rs' \<noteq> []" "concat (map snd cs') @ rs' = log @ [newPageUpdateRecord sid orig i]"
      "hdrPages w' cs' \<subseteq> insert (numPages (fileHandle w1)) (hdrPages w1 cs)"
    using addNewWALRecord_parts(1)[OF q(2) r1, of "newPageUpdateRecord sid orig i"] w' log by auto
  have ni: "i \<notin> fst ` set cs'" using p'(4) new q(3) i by (auto simp: hdrPages_def)
  have np: "i < numPages (fileHandle w')" using addNewWALRecord_parts(3)[OF q(2) r1, of "newPageUpdateRecord sid orig i"] w' q(3) i by simp
  have flag: "isLastLoggedRecordCommit w' = False"
    by (simp add: w' addNewWALRecordNoLock_def Let_def newPageUpdateRecord_def
        newPageInsertOrUpdateRecord_def)
  have nc: "\<not> is_commit (newPageUpdateRecord sid orig i)"
    by (simp add: newPageUpdateRecord_def newPageInsertOrUpdateRecord_def)
  have "wal_rep w' (log @ [newPageUpdateRecord sid orig i])"
    using p'(1,3) flag nc unfolding wal_rep_def by (metis last_snoc)
  moreover have "wal_rep (writeDataPage w' i p) (log @ [newPageUpdateRecord sid orig i])"
    using writeDataPage_parts[OF p'(1,2) ni np, of p] p'(3) flag nc unfolding wal_rep_def
    by (simp add: writeDataPage_def) metis
  ultimately show ?thesis using i by (simp add: readLog_rep)
qed

theorem logPageUpdateRecord_page_is_private_witness:
  "\<exists>(w :: nat WAL) i w'. newWAL 1 emptyFile = Inr w \<and>
     logPageUpdateRecord w (NODE_INDEX False 3) 5 = (i, w') \<and>
     readLog (Suc 0) (writeDataPage w' i 42) = Inr [newPageUpdateRecord (NODE_INDEX False 3) 5 i]"
proof -
  obtain w :: "nat WAL" where w: "newWAL 1 emptyFile = Inr w" "wal_rep w []"
      "wal_room w = UINT32_MAX - 1"
    using newWAL_empty by blast
  obtain i w' where c: "logPageUpdateRecord w (NODE_INDEX False 3) 5 = (i, w')" by force
  have "2 \<le> wal_room w" using w(3) by (simp add: UINT32_MAX_def)
  from logPageUpdateRecord_page_is_private[OF w(2) this c, of 42] w(1) c
  show ?thesis by auto
qed

text \<open>
  Clearing the log empties it, whatever state it was in, and gives back all pages.
\<close>

theorem clearWAL_empties_log:
  "\<exists>w'. clearWAL n w = Inr w' \<and> wal_rep w' [] \<and> isEmptyWAL w' \<and> readLog 0 w' = Inr [] \<and>
     \<not> isLastLoggedRecordCommit w' \<and> wal_room w' = UINT32_MAX - 1"
proof -
  obtain w' where w': "clearWAL n w = Inr w'" "wal_rep w' []" "wal_room w' = UINT32_MAX - 1"
    unfolding clearWAL_def using initCurrentPage_empty[of "w\<lparr>walFrames := _, fileHandle :=
        resetToZeroPagesAndPageCapacity (fileHandle w), walFile := emptyFile\<rparr>" n]
    by (auto simp: resetToZero_inv)
  moreover have "isEmptyWAL w'"
    using w'(2) isEmptyWAL_iff by (auto simp: wal_rep_def)
  ultimately show ?thesis
    using readLog_rep[of w' "[]" 0] by (auto simp: wal_rep_def)
qed

end
