(* ===== verification/Storage_Structure.thy ===== *)
theory Storage_Structure
  imports Wal
begin

text \<open>
  Transactional access to the pages of a storage structure: \<^verbatim>\<open>src/src/storage/storage_structure/storage_structure_utils.cpp\<close>.
  The state holds the versioned file handle, the file on disk, the frames of the buffer manager with pages of this file, and the
  log with its frames.  Pinning is transparent: it finds the page in a frame or reads it, and it does not run out of frames
  (theory \<open>Buffer_Pool\<close> has the frames themselves).  \<open>junk\<close> is what a frame holds that was claimed without reading the page.
\<close>

section \<open>Operations\<close>

record 'p paged_file =
  vfh :: VersionedFileHandle
  dbFile :: "page_idx \<Rightarrow> 'p option"
  bmFrames :: "page_idx \<Rightarrow> 'p option"

record 'p storage = "'p paged_file" +
  wal :: "'p WAL"

text \<open>Reading right at the end of a file delivers no bytes and throws nothing; reading beyond it throws.\<close>

definition atEndOfFile :: "(page_idx \<Rightarrow> 'p option) \<Rightarrow> page_idx \<Rightarrow> bool" where
  "atEndOfFile f i \<longleftrightarrow> f i = None \<and> list_all (\<lambda>j. f j \<noteq> None) [0..<i]"

text \<open>Pinning a page of the file, with its content.\<close>

definition pinOriginalPage :: "'p \<Rightarrow> 'p storage \<Rightarrow> page_idx \<Rightarrow> bool \<Rightarrow> ('p \<times> 'p storage) result" where
  "pinOriginalPage junk st i doNotReadFromFile =
     (case bmFrames st i of
        Some p \<Rightarrow> Inr (p, st)
      | None \<Rightarrow>
          if doNotReadFromFile \<or> atEndOfFile (dbFile st) i then Inr (junk, st\<lparr>bmFrames := (bmFrames st)(i \<mapsto> junk)\<rparr>)
          else case dbFile st i of
                 Some p \<Rightarrow> Inr (p, st\<lparr>bmFrames := (bmFrames st)(i \<mapsto> p)\<rparr>)
               | None \<Rightarrow> Inl (BaseException ''Cannot read from file''))"

text \<open>Reading a data page of the log into a buffer that holds \<open>buf\<close>, with the same conventions as \<open>readHeaderPage\<close>.\<close>

definition readDataPage :: "'p wal_file \<Rightarrow> 'p \<Rightarrow> page_idx \<Rightarrow> 'p result" where
  "readDataPage f buf i =
     (if i = sizeInPages f then Inr buf
      else if sizeInPages f < i then Inl (BaseException ''Cannot read from file'')
      else case pageAt f i of Some (DataPage p) \<Rightarrow> Inr p | _ \<Rightarrow> Inl (UndefinedBehaviour ''not a data page''))"

text \<open>Pinning a data page of the log; afterwards the page is in a frame.\<close>

definition pinWALPage :: "'p \<Rightarrow> 'p WAL \<Rightarrow> page_idx \<Rightarrow> bool \<Rightarrow> 'p WAL result" where
  "pinWALPage junk w i doNotReadFromFile =
     (case walFrames w i of
        Some _ \<Rightarrow> Inr w
      | None \<Rightarrow>
          if doNotReadFromFile then Inr (w\<lparr>walFrames := (walFrames w)(i \<mapsto> (junk, False))\<rparr>)
          else bind_result (readDataPage (walFile w) junk i) (\<lambda>p. Inr (w\<lparr>walFrames := (walFrames w)(i \<mapsto> (p, False))\<rparr>)))"

definition addNewPageToFileHandle :: "'p \<Rightarrow> 'p storage \<Rightarrow> 'p storage result" where
  "addNewPageToFileHandle junk st =
     (let (i, fh1) = addNewPageVersioned (vfh st);
          (pageIdxInWAL, w1) = logPageInsertRecord (wal st) (storageStructureIDForWALRecord fh1) i
      in bind_result (pinWALPage junk w1 pageIdxInWAL True) (\<lambda>w2.
         bind_result (createPageVersionGroupIfNecessary fh1 i) (\<lambda>fh2.
         bind_result (setWALPageVersion fh2 i pageIdxInWAL) (\<lambda>fh3.
           Inr (st\<lparr>vfh := fh3, wal := w2\<lparr>walFrames := (walFrames w2)(pageIdxInWAL := map_option (\<lambda>(p, _). (p, True)) (walFrames w2 pageIdxInWAL))\<rparr>\<rparr>)))))"

definition createWALVersionIfNecessaryAndPinPage :: "'p \<Rightarrow> 'p storage \<Rightarrow> page_idx \<Rightarrow> bool \<Rightarrow> (page_idx \<times> 'p storage) result" where
  "createWALVersionIfNecessaryAndPinPage junk st i insertingNewPage =
     bind_result (createPageVersionGroupIfNecessary (vfh st) i) (\<lambda>fh1.
     bind_result (acquirePageLock fh1 i True) (\<lambda>(_, fh2).
     bind_result (hasWALPageVersionNoPageLock fh2 i) (\<lambda>hasVersion.
       if hasVersion
       then bind_result (getWALPageVersionNoPageLock fh2 i) (\<lambda>pageIdxInWAL.
            bind_result (pinWALPage junk (wal st) pageIdxInWAL False) (\<lambda>w1.
              Inr (pageIdxInWAL, st\<lparr>vfh := fh2, wal := w1\<rparr>)))
       else let (pageIdxInWAL, w1) = logPageUpdateRecord (wal st) (storageStructureIDForWALRecord fh2) i
            in bind_result (pinWALPage junk w1 pageIdxInWAL True) (\<lambda>w2.
               bind_result (pinOriginalPage junk (st\<lparr>vfh := fh2, wal := w2\<rparr>) i insertingNewPage) (\<lambda>(p, st1).
               bind_result (setWALPageVersionNoLock (vfh st1) i pageIdxInWAL) (\<lambda>fh3.
                 Inr (pageIdxInWAL, st1\<lparr>vfh := fh3, wal := (wal st1)\<lparr>walFrames := (walFrames (wal st1))(pageIdxInWAL \<mapsto> (p, True))\<rparr>\<rparr>)))))))"

text \<open>What the code does with the frame of a log page: read its content, or change it in place; the dirty flag is left alone.\<close>

definition frameContent :: "'p storage \<Rightarrow> page_idx \<Rightarrow> 'p option" where
  "frameContent st w = map_option fst (walFrames (wal st) w)"

definition changeFrame :: "page_idx \<Rightarrow> ('p \<Rightarrow> 'p) \<Rightarrow> 'p storage \<Rightarrow> 'p storage" where
  "changeFrame w f st = st\<lparr>wal := (wal st)\<lparr>walFrames := (walFrames (wal st))(w := map_option (map_prod f id) (walFrames (wal st) w))\<rparr>\<rparr>"

definition unpinPageIdxInWALAndReleaseOriginalPageLock :: "'p storage \<Rightarrow> page_idx \<Rightarrow> 'p storage result" where
  "unpinPageIdxInWALAndReleaseOriginalPageLock st i =
     bind_result (releasePageLock (vfh st) i) (\<lambda>fh1. Inr (st\<lparr>vfh := fh1\<rparr>))"

definition updatePage :: "'p \<Rightarrow> 'p storage \<Rightarrow> page_idx \<Rightarrow> bool \<Rightarrow> ('p \<Rightarrow> 'p) \<Rightarrow> 'p storage result" where
  "updatePage junk st i isInsertingNewPage updateOp =
     bind_result (createWALVersionIfNecessaryAndPinPage junk st i isInsertingNewPage) (\<lambda>(w, st1).
       unpinPageIdxInWALAndReleaseOriginalPageLock (changeFrame w updateOp st1) i)"

definition readWALVersionOfPage :: "'p \<Rightarrow> 'p storage \<Rightarrow> page_idx \<Rightarrow> ('p \<times> 'p storage) result" where
  "readWALVersionOfPage junk st i =
     bind_result (getWALPageVersionNoPageLock (vfh st) i) (\<lambda>w.
     bind_result (pinWALPage junk (wal st) w False) (\<lambda>w1.
       case walFrames w1 w of
         None \<Rightarrow> Inl (UndefinedBehaviour ''frame'')
       | Some (p, _) \<Rightarrow>
           bind_result (unpinPageIdxInWALAndReleaseOriginalPageLock (st\<lparr>wal := w1\<rparr>) i) (\<lambda>st1. Inr (p, st1))))"

definition getFileHandleAndPhysicalPageIdxToPin :: "'p storage \<Rightarrow> page_idx \<Rightarrow> bool \<Rightarrow> (bool \<times> page_idx) result" where
  "getFileHandleAndPhysicalPageIdxToPin st i isReadTrx =
     (if isReadTrx then Inr (False, i)
      else bind_result (hasWALPageVersionNoPageLock (vfh st) i) (\<lambda>hasVersion.
             if \<not> hasVersion then Inr (False, i)
             else bind_result (getWALPageVersionNoPageLock (vfh st) i) (\<lambda>w. Inr (True, w))))"

text \<open>The page of an element of a column and its position there; a column grows by one page when the element is past its end.\<close>

definition createWALVersionOfPageIfNecessaryForElement ::
  "'p \<Rightarrow> 'p storage \<Rightarrow> nat \<Rightarrow> nat \<Rightarrow> (page_idx \<times> page_idx \<times> nat \<times> 'p storage) result" where
  "createWALVersionOfPageIfNecessaryForElement junk st elementOffset numElementsPerPage =
     (let c = getPageElementCursorForPos elementOffset numElementsPerPage;
          insertingNewPage = (numPages (vfh st) \<le> cursorPageIdx c)
      in if insertingNewPage \<and> cursorPageIdx c \<noteq> numPages (vfh st) then Inl (UndefinedBehaviour ''assertion'')
         else bind_result (if insertingNewPage then addNewPageToFileHandle junk st else Inr st) (\<lambda>st1.
              bind_result (createWALVersionIfNecessaryAndPinPage junk st1 (cursorPageIdx c) insertingNewPage) (\<lambda>(w, st2).
                Inr (cursorPageIdx c, w, posInPage c, st2))))"

section \<open>Two views of the pages\<close>

text \<open>The content of a page for the write transaction; for the others it is the file.\<close>

definition wrPage :: "'p storage \<Rightarrow> page_idx \<Rightarrow> 'p option" where
  "wrPage st i = (case walVersion (vfh st) i of None \<Rightarrow> dbFile st i | Some w \<Rightarrow> frameContent st w)"

text \<open>
  \<open>L\<close> are the locked pages.  Every version is in a frame, different pages have different versions, and a frame of a page without
  a version has the content of the file.
\<close>

definition storage_ok :: "page_idx set \<Rightarrow> 'p storage \<Rightarrow> bool" where
  "storage_ok L st \<longleftrightarrow> vfh_inv (vfh st) \<and> fh_inv (fileHandle (wal st)) \<and>
     (\<forall>i < numPages (vfh st). pageLocks (vfh st) ! i = Some (i \<in> L)) \<and>
     (\<forall>i w. walVersion (vfh st) i = Some w \<longrightarrow> i < numPages (vfh st) \<and> w < numPages (fileHandle (wal st)) \<and> walFrames (wal st) w \<noteq> None) \<and>
     inj_on (walVersion (vfh st)) (dom (walVersion (vfh st))) \<and>
     (\<forall>i p. bmFrames st i = Some p \<longrightarrow> walVersion (vfh st) i = None \<longrightarrow> dbFile st i = Some p)"

lemmas [inv_simps] = storage_ok_def

abbreviation sidOf :: "('p, 'x) paged_file_scheme \<Rightarrow> StorageStructureID" where
  "sidOf st \<equiv> storageStructureIDForWALRecord (vfh st)"

definition walPages :: "'p storage \<Rightarrow> nat" where
  "walPages st = numPages (fileHandle (wal st))"

lemma addNewWALPage_effect:
  assumes "fh_inv (fileHandle w)" "numPages (fileHandle w) < UINT32_MAX" "addNewWALPage w = (i, w1)"
  shows "i = numPages (fileHandle w)" "fh_inv (fileHandle w1)" "numPages (fileHandle w1) = Suc (numPages (fileHandle w))"
    "walFrames w1 = walFrames w"
proof -
  obtain fh where a: "addNewPageWithoutLock (fileHandle w) = (i, fh)" and w1: "w1 = w\<lparr>fileHandle := fh\<rparr>"
    using assms(3) by (auto simp: addNewWALPage_def addNewPage_def split: prod.splits)
  note p = addNewPageWithoutLock_props[OF assms(1,2) a]
  show "i = numPages (fileHandle w)" "fh_inv (fileHandle w1)" "numPages (fileHandle w1) = Suc (numPages (fileHandle w))"
    "walFrames w1 = walFrames w"
    using p(1-3) by (simp_all add: w1)
qed

lemma addNewWALRecord_effect:
  assumes "fh_inv (fileHandle w)" "numPages (fileHandle w) < UINT32_MAX"
  shows "fh_inv (fileHandle (addNewWALRecordNoLock w r))" "walFrames (addNewWALRecordNoLock w r) = walFrames w"
    "numPages (fileHandle w) \<le> numPages (fileHandle (addNewWALRecordNoLock w r))"
    "numPages (fileHandle (addNewWALRecordNoLock w r)) \<le> Suc (numPages (fileHandle w))"
proof -
  obtain i w1 where a: "addNewWALPage w = (i, w1)" by fastforce
  note p = addNewWALPage_effect[OF assms a]
  show "fh_inv (fileHandle (addNewWALRecordNoLock w r))" "walFrames (addNewWALRecordNoLock w r) = walFrames w"
    "numPages (fileHandle w) \<le> numPages (fileHandle (addNewWALRecordNoLock w r))"
    "numPages (fileHandle (addNewWALRecordNoLock w r)) \<le> Suc (numPages (fileHandle w))"
    using p assms(1) by (simp_all add: addNewWALRecordNoLock_def writeWALRecordToBytes_def incrementNumRecordsInCurrentHeaderPage_def
        startNextHeaderPage_def a resetCurrentHeaderPagePrefix_def writeHeaderPage_def setNextHeaderPageOfCurrentHeaderPage_def Let_def)
qed

lemma logPage_effect:
  assumes "fh_inv (fileHandle w)" "numPages (fileHandle w) + 2 \<le> UINT32_MAX" "addNewWALPage w = (k, w0)" "w1 = addNewWALRecordNoLock w0 r"
  shows "k = numPages (fileHandle w)" "fh_inv (fileHandle w1)" "walFrames w1 = walFrames w"
    "numPages (fileHandle w) < numPages (fileHandle w1)" "numPages (fileHandle w1) \<le> numPages (fileHandle w) + 2"
proof -
  have "numPages (fileHandle w) < UINT32_MAX" using assms(2) by simp
  note p = addNewWALPage_effect[OF assms(1) this assms(3)]
  have "numPages (fileHandle w0) < UINT32_MAX" using p(3) assms(2) by simp
  note q = addNewWALRecord_effect[OF p(2) this, of r]
  show "k = numPages (fileHandle w)" "fh_inv (fileHandle w1)" "walFrames w1 = walFrames w"
    "numPages (fileHandle w) < numPages (fileHandle w1)" "numPages (fileHandle w1) \<le> numPages (fileHandle w) + 2"
    using p q assms(4) by simp_all
qed

lemma logPageRecord_calls:
  "logPageUpdateRecord w sid i = (k, w1) \<Longrightarrow> \<exists>w0. addNewWALPage w = (k, w0) \<and> w1 = addNewWALRecordNoLock w0 (newPageUpdateRecord sid i k)"
  "logPageInsertRecord w sid i = (k, w1) \<Longrightarrow> \<exists>w0. addNewWALPage w = (k, w0) \<and> w1 = addNewWALRecordNoLock w0 (newPageInsertRecord sid i k)"
  by (auto simp: logPageUpdateRecord_def logPageInsertRecord_def split: prod.splits)

section \<open>Creating a version\<close>

lemma createGroup_exact:
  assumes "vfh_inv fh" "i < numPages fh"
  obtains vs where "createPageVersionGroupIfNecessary fh i = Inr (fh\<lparr>pageVersions := vs\<rparr>)" "vfh_inv (fh\<lparr>pageVersions := vs\<rparr>)"
    "walVersion (fh\<lparr>pageVersions := vs\<rparr>) = walVersion fh" "length (vs ! (i div 64)) = 64"
proof -
  obtain fh1 where 1: "createPageVersionGroupIfNecessary fh i = Inr fh1" "vfh_inv fh1" "walVersion fh1 = walVersion fh"
    "length (pageVersions fh1 ! (i div 64)) = 64"
    using createPageVersionGroup_props[OF assms] by blast
  have "fh1 = fh\<lparr>pageVersions := pageVersions fh1\<rparr>"
    using 1(1) by (auto simp: createPageVersionGroupIfNecessary_def Let_def split: if_splits)
  then show thesis using 1 that[of "pageVersions fh1"] by simp
qed

lemma setVersion_exact:
  assumes "vfh_inv fh" "i < numPages fh" "length (pageVersions fh ! (i div 64)) = 64" "w \<noteq> UINT32_MAX"
  obtains vs where "setWALPageVersionNoLock fh i w = Inr (fh\<lparr>pageVersions := vs\<rparr>)" "vfh_inv (fh\<lparr>pageVersions := vs\<rparr>)"
    "walVersion (fh\<lparr>pageVersions := vs\<rparr>) = (walVersion fh)(i \<mapsto> w)"
proof -
  obtain fh1 where 1: "setWALPageVersionNoLock fh i w = Inr fh1" "vfh_inv fh1" "walVersion fh1 = (walVersion fh)(i \<mapsto> w)"
    by (rule setWALPageVersionNoLock_props[OF assms(1-3), of w]) (use assms(4) in auto)
  have "fh1 = fh\<lparr>pageVersions := pageVersions fh1\<rparr>"
    using 1(1) by (auto simp: setWALPageVersionNoLock_def Let_def split: if_splits)
  then show thesis using 1 that[of "pageVersions fh1"] by simp
qed

text \<open>What the frame of a page holds when it is pinned for an update.\<close>

definition pinnedContent :: "'p \<Rightarrow> 'p storage \<Rightarrow> page_idx \<Rightarrow> bool \<Rightarrow> 'p option" where
  "pinnedContent junk st i isNew =
     (if walVersion (vfh st) i = None \<and> isNew then Some (case bmFrames st i of None \<Rightarrow> junk | Some p \<Rightarrow> p) else wrPage st i)"

lemma locks_walVersion [simp]:
  "walVersion (fh\<lparr>pageLocks := ls\<rparr>) = walVersion fh" "walVersion (fh\<lparr>numPages := n\<rparr>) = walVersion fh"
  by (rule walVersion_cong, simp)+

lemma storage_ok_version:
  assumes "storage_ok L st" "walVersion (vfh st) i = Some w"
  shows "i < numPages (vfh st)" "w < walPages st" "walFrames (wal st) w \<noteq> None" "walVersion (vfh st) j = Some w \<Longrightarrow> j = i"
  using assms by (auto simp: storage_ok_def walPages_def inj_on_def dom_def)

lemma wrPage_cong:
  "walVersion (vfh st1) = walVersion (vfh st) \<Longrightarrow> dbFile st1 = dbFile st \<Longrightarrow> wal st1 = wal st \<Longrightarrow> wrPage st1 = wrPage st"
  by (rule ext) (simp add: wrPage_def frameContent_def split: option.splits)

lemma lockForUpdate:
  assumes "vfh_inv fh" "i < numPages fh" "pageLocks fh ! i = Some False"
  obtains fh1 fh2 where "createPageVersionGroupIfNecessary fh i = Inr fh1" "acquirePageLock fh1 i True = Inr (True, fh2)" "vfh_inv fh2"
    "walVersion fh2 = walVersion fh" "pageLocks fh2 = (pageLocks fh)[i := Some True]" "numPages fh2 = numPages fh"
    "length (pageVersions fh2 ! (i div 64)) = 64" "storageStructureIDForWALRecord fh2 = storageStructureIDForWALRecord fh"
proof -
  obtain vs where 1: "createPageVersionGroupIfNecessary fh i = Inr (fh\<lparr>pageVersions := vs\<rparr>)" "vfh_inv (fh\<lparr>pageVersions := vs\<rparr>)"
    "walVersion (fh\<lparr>pageVersions := vs\<rparr>) = walVersion fh" "length (vs ! (i div 64)) = 64"
    by (rule createGroup_exact[OF assms(1,2)])
  let ?fh1 = "fh\<lparr>pageVersions := vs\<rparr>"
  let ?fh2 = "?fh1\<lparr>pageLocks := (pageLocks fh)[i := Some True]\<rparr>"
  have "fh_inv ?fh1" using 1(2) by (simp add: vfh_inv_def)
  then have "acquirePageLock ?fh1 i True = Inr (True, ?fh2)" using acquirePageLock_free[of ?fh1 i] assms(2,3) by simp
  moreover have "vfh_inv ?fh2" using vfh_inv_more_lock[OF 1(2), of i True] assms(2) by simp
  moreover have "walVersion ?fh2 = walVersion fh" using 1(3) by simp
  ultimately show thesis using that[of ?fh1 ?fh2] 1(1,4) by simp
qed

lemma createWALVersion_old:
  assumes ok: "storage_ok L st" and i: "i < numPages (vfh st)" "i \<notin> L" and v: "walVersion (vfh st) i = Some w"
  shows "\<exists>st1. createWALVersionIfNecessaryAndPinPage junk st i isNew = Inr (w, st1) \<and> storage_ok (insert i L) st1 \<and>
    walVersion (vfh st1) = walVersion (vfh st) \<and> wal st1 = wal st \<and> dbFile st1 = dbFile st \<and> bmFrames st1 = bmFrames st \<and>
    numPages (vfh st1) = numPages (vfh st) \<and> sidOf st1 = sidOf st"
proof -
  have inv: "vfh_inv (vfh st)" "pageLocks (vfh st) ! i = Some False" using ok i by (simp_all add: storage_ok_def)
  obtain fh1 fh2 where 1: "createPageVersionGroupIfNecessary (vfh st) i = Inr fh1" "acquirePageLock fh1 i True = Inr (True, fh2)" "vfh_inv fh2"
    "walVersion fh2 = walVersion (vfh st)" "pageLocks fh2 = (pageLocks (vfh st))[i := Some True]" "numPages fh2 = numPages (vfh st)"
    "storageStructureIDForWALRecord fh2 = sidOf st"
    by (rule lockForUpdate[OF inv(1) i(1) inv(2)])
  have 2: "hasWALPageVersionNoPageLock fh2 i = Inr True" "getWALPageVersionNoPageLock fh2 i = Inr w"
    using hasWALPageVersion_iff[OF 1(3), of i] getWALPageVersion_Some[OF 1(3), of i w] 1(4,6) v i(1) by simp_all
  obtain x where x: "walFrames (wal st) w = Some x" using storage_ok_version(3)[OF ok v] by auto
  have "createWALVersionIfNecessaryAndPinPage junk st i isNew = Inr (w, st\<lparr>vfh := fh2\<rparr>)"
    using 1(1,2) 2 x by (simp add: createWALVersionIfNecessaryAndPinPage_def pinWALPage_def)
  moreover have "i < length (pageLocks (vfh st))" using inv i(1) by (simp add: vfh_inv_def fh_inv_def)
  then have "storage_ok (insert i L) (st\<lparr>vfh := fh2\<rparr>)"
    using ok 1(3-6) i by (auto simp: storage_ok_def nth_list_update)
  ultimately show ?thesis using 1(4,6,7) by auto
qed

lemma pinOriginal_ok:
  assumes ok: "storage_ok L st" and v: "walVersion (vfh st) i = None" and p: "pinnedContent junk st i isNew = Some p"
    and st1: "dbFile st1 = dbFile st" "bmFrames st1 = bmFrames st"
  shows "\<exists>bm. pinOriginalPage junk st1 i isNew = Inr (p, st1\<lparr>bmFrames := bm\<rparr>) \<and> bm = (bmFrames st)(i \<mapsto> p)"
proof (cases "bmFrames st i")
  case None
  then show ?thesis using v p st1 by (cases isNew) (auto simp: pinOriginalPage_def pinnedContent_def wrPage_def atEndOfFile_def)
next
  case (Some q)
  have "dbFile st i = Some q" using ok Some v by (simp add: storage_ok_def)
  then have "q = p" using v p Some by (cases isNew) (auto simp: pinnedContent_def wrPage_def)
  moreover have "st1 = st1\<lparr>bmFrames := bmFrames st\<rparr>" using st1(2) by (cases st1) simp
  ultimately show ?thesis using Some st1 by (intro exI[of _ "bmFrames st"]) (auto simp: pinOriginalPage_def)
qed

lemma createWALVersion_new:
  assumes ok: "storage_ok L st" and i: "i < numPages (vfh st)" "i \<notin> L" and v: "walVersion (vfh st) i = None"
    and p: "pinnedContent junk st i isNew = Some p" and room: "walPages st + 2 \<le> UINT32_MAX"
  shows "\<exists>st1. createWALVersionIfNecessaryAndPinPage junk st i isNew = Inr (walPages st, st1) \<and> storage_ok (insert i L) st1 \<and>
    walVersion (vfh st1) = (walVersion (vfh st))(i \<mapsto> walPages st) \<and> walFrames (wal st1) = (walFrames (wal st))(walPages st \<mapsto> (p, True)) \<and>
    dbFile st1 = dbFile st \<and> numPages (vfh st1) = numPages (vfh st) \<and> walPages st1 \<le> walPages st + 2 \<and> sidOf st1 = sidOf st \<and>
    wal st1 = (snd (logPageUpdateRecord (wal st) (sidOf st) i))\<lparr>walFrames := walFrames (wal st1)\<rparr> \<and> bmFrames st1 = (bmFrames st)(i \<mapsto> p)"
proof -
  have inv: "vfh_inv (vfh st)" "pageLocks (vfh st) ! i = Some False" using ok i by (simp_all add: storage_ok_def)
  obtain fh1 fh2 where 1: "createPageVersionGroupIfNecessary (vfh st) i = Inr fh1" "acquirePageLock fh1 i True = Inr (True, fh2)" "vfh_inv fh2"
    "walVersion fh2 = walVersion (vfh st)" "pageLocks fh2 = (pageLocks (vfh st))[i := Some True]" "numPages fh2 = numPages (vfh st)"
    "length (pageVersions fh2 ! (i div 64)) = 64" "storageStructureIDForWALRecord fh2 = sidOf st"
    by (rule lockForUpdate[OF inv(1) i(1) inv(2)])
  have 3: "hasWALPageVersionNoPageLock fh2 i = Inr False"
    using hasWALPageVersion_iff[OF 1(3), of i] 1(4,6) v i(1) by simp
  obtain k w1 where lg: "logPageUpdateRecord (wal st) (storageStructureIDForWALRecord fh2) i = (k, w1)" by fastforce
  have fhw: "fh_inv (fileHandle (wal st))" using ok by (simp add: storage_ok_def)
  obtain w0 where w0: "addNewWALPage (wal st) = (k, w0)"
    "w1 = addNewWALRecordNoLock w0 (newPageUpdateRecord (storageStructureIDForWALRecord fh2) i k)"
    using logPageRecord_calls(1)[OF lg] by blast
  note e = logPage_effect[OF fhw room[unfolded walPages_def] w0]
  have k: "k = walPages st" using e(1) by (simp add: walPages_def)
  obtain x where w2: "pinWALPage junk w1 k True = Inr (w1\<lparr>walFrames := (walFrames (wal st))(k := x)\<rparr>)"
  proof (cases "walFrames (wal st) k")
    case (Some y)
    have "w1 = w1\<lparr>walFrames := (walFrames (wal st))(k := Some y)\<rparr>" using Some e(3) by (cases w1) (simp add: fun_upd_idem)
    then show thesis using that[of "Some y"] Some e(3) by (simp add: pinWALPage_def)
  next
    case None
    then show thesis using that[of "Some (junk, False)"] e(3) by (simp add: pinWALPage_def)
  qed
  let ?w2 = "w1\<lparr>walFrames := (walFrames (wal st))(k := x)\<rparr>"
  obtain bm where 4: "pinOriginalPage junk (st\<lparr>vfh := fh2, wal := ?w2\<rparr>) i isNew = Inr (p, st\<lparr>vfh := fh2, wal := ?w2, bmFrames := bm\<rparr>)"
    "bm = (bmFrames st)(i \<mapsto> p)"
    using pinOriginal_ok[OF ok v p, of "st\<lparr>vfh := fh2, wal := ?w2\<rparr>"] by auto
  have "k \<noteq> UINT32_MAX" using k room by simp
  then obtain vs where 5: "setWALPageVersionNoLock fh2 i k = Inr (fh2\<lparr>pageVersions := vs\<rparr>)" "vfh_inv (fh2\<lparr>pageVersions := vs\<rparr>)"
    "walVersion (fh2\<lparr>pageVersions := vs\<rparr>) = (walVersion (vfh st))(i \<mapsto> k)"
    using setVersion_exact[OF 1(3), of i k] i(1) 1(4,6,7) by auto
  let ?st = "st\<lparr>vfh := fh2\<lparr>pageVersions := vs\<rparr>, bmFrames := bm, wal := w1\<lparr>walFrames := (walFrames (wal st))(k \<mapsto> (p, True))\<rparr>\<rparr>"
  have c: "createWALVersionIfNecessaryAndPinPage junk st i isNew = Inr (k, ?st)"
    using 1(1,2) 3 lg w2 4 5 by (simp add: createWALVersionIfNecessaryAndPinPage_def)
  have len: "i < length (pageLocks (vfh st))" using inv i(1) by (simp add: vfh_inv_def fh_inv_def)
  have old: "walVersion (vfh st) j \<noteq> Some k" for j using storage_ok_version(2)[OF ok, of j k] k by auto
  have "inj_on ((walVersion (vfh st))(i \<mapsto> k)) (insert i (dom (walVersion (vfh st))))"
    using ok old by (auto simp: storage_ok_def inj_on_def)
  moreover have "v < numPages (fileHandle w1)" if "walVersion (vfh st) j = Some v" for j v
    using storage_ok_version(2)[OF ok that] e(4) by (simp add: walPages_def)
  ultimately have "storage_ok (insert i L) ?st"
    unfolding storage_ok_def using ok 5(2,3) e(2,4) len i 4(2) k 1(5,6) by (auto simp: storage_ok_def nth_list_update walPages_def)
  then show ?thesis using c k 5(3) e(5) 1(6,8) lg 4(2) by (auto simp: walPages_def)
qed

text \<open>The log after a version of the page was made sure of.\<close>

definition versionedWAL :: "'p storage \<Rightarrow> page_idx \<Rightarrow> 'p \<Rightarrow> 'p WAL" where
  "versionedWAL st i p =
     (case walVersion (vfh st) i of
        Some _ \<Rightarrow> wal st
      | None \<Rightarrow> (snd (logPageUpdateRecord (wal st) (sidOf st) i))\<lparr>walFrames := (walFrames (wal st))(walPages st \<mapsto> (p, True))\<rparr>)"

lemma createWALVersion_props:
  assumes ok: "storage_ok L st" and i: "i < numPages (vfh st)" "i \<notin> L" and p: "pinnedContent junk st i isNew = Some p"
    and room: "walPages st + 2 \<le> UINT32_MAX"
  obtains w st1 where "createWALVersionIfNecessaryAndPinPage junk st i isNew = Inr (w, st1)" "storage_ok (insert i L) st1"
    "walVersion (vfh st1) = (walVersion (vfh st))(i \<mapsto> w)" "frameContent st1 w = Some p" "wrPage st1 = (wrPage st)(i \<mapsto> p)"
    "dbFile st1 = dbFile st" "numPages (vfh st1) = numPages (vfh st)" "walPages st1 \<le> walPages st + 2"
    "wal st1 = versionedWAL st i p" "sidOf st1 = sidOf st" "w = (case walVersion (vfh st) i of Some w' \<Rightarrow> w' | None \<Rightarrow> walPages st)"
    "bmFrames st1 = (if walVersion (vfh st) i = None then (bmFrames st)(i \<mapsto> p) else bmFrames st)"
proof (cases "walVersion (vfh st) i")
  case (Some w)
  then obtain st1 where s: "createWALVersionIfNecessaryAndPinPage junk st i isNew = Inr (w, st1)" "storage_ok (insert i L) st1"
    "walVersion (vfh st1) = walVersion (vfh st)" "wal st1 = wal st" "dbFile st1 = dbFile st" "numPages (vfh st1) = numPages (vfh st)"
    "sidOf st1 = sidOf st" "bmFrames st1 = bmFrames st"
    using createWALVersion_old[OF ok i, of w junk isNew] by blast
  have "wrPage st1 = wrPage st" using s(3-5) by (intro wrPage_cong)
  moreover have "wrPage st i = Some p" using p Some by (simp add: pinnedContent_def)
  moreover have "(wrPage st)(i \<mapsto> p) = wrPage st" "(walVersion (vfh st))(i \<mapsto> w) = walVersion (vfh st)"
    using calculation(2) Some by (simp_all add: fun_upd_idem)
  moreover have "frameContent st1 w = Some p" using calculation(2) Some s(4) by (simp add: wrPage_def frameContent_def)
  ultimately show thesis
    using s Some by (intro that[of w st1]) (simp_all add: walPages_def versionedWAL_def)
next
  case None
  obtain st1 where s: "createWALVersionIfNecessaryAndPinPage junk st i isNew = Inr (walPages st, st1)" "storage_ok (insert i L) st1"
    "walVersion (vfh st1) = (walVersion (vfh st))(i \<mapsto> walPages st)"
    "walFrames (wal st1) = (walFrames (wal st))(walPages st \<mapsto> (p, True))" "dbFile st1 = dbFile st"
    "numPages (vfh st1) = numPages (vfh st)" "walPages st1 \<le> walPages st + 2" "sidOf st1 = sidOf st"
    "wal st1 = (snd (logPageUpdateRecord (wal st) (sidOf st) i))\<lparr>walFrames := walFrames (wal st1)\<rparr>" "bmFrames st1 = (bmFrames st)(i \<mapsto> p)"
    using createWALVersion_new[OF ok i None p room] by blast
  have old: "walVersion (vfh st) j \<noteq> Some (walPages st)" for j using storage_ok_version(2)[OF ok, of j "walPages st"] by auto
  have "wrPage st1 j = ((wrPage st)(i \<mapsto> p)) j" for j
    using s(3-5) old[of j] by (auto simp: wrPage_def frameContent_def split: option.splits)
  then have "wrPage st1 = (wrPage st)(i \<mapsto> p)" by blast
  moreover have "wal st1 = versionedWAL st i p" using s(4,9) None by (simp add: versionedWAL_def)
  ultimately show thesis using s(1-8,10) None by (intro that[of "walPages st" st1]) (simp_all add: frameContent_def)
qed

section \<open>Updating and reading\<close>

lemma changeFrame_props:
  assumes "storage_ok L st" "walVersion (vfh st) i = Some w" "frameContent st w = Some p"
  shows "storage_ok L (changeFrame w f st)" "frameContent (changeFrame w f st) w = Some (f p)"
    "wrPage (changeFrame w f st) = (wrPage st)(i \<mapsto> f p)" "vfh (changeFrame w f st) = vfh st" "dbFile (changeFrame w f st) = dbFile st"
    "walPages (changeFrame w f st) = walPages st" "bmFrames (changeFrame w f st) = bmFrames st"
proof -
  obtain q d where "walFrames (wal st) w = Some (q, d)" using assms(3) by (auto simp: frameContent_def)
  then show "storage_ok L (changeFrame w f st)" using assms by (auto simp: storage_ok_def changeFrame_def)
  show fc: "frameContent (changeFrame w f st) w = Some (f p)" using assms(3) by (auto simp: frameContent_def changeFrame_def)
  have other: "frameContent (changeFrame w f st) k = frameContent st k" if "k \<noteq> w" for k
    using that by (simp add: frameContent_def changeFrame_def)
  have "wrPage (changeFrame w f st) j = ((wrPage st)(i \<mapsto> f p)) j" for j
  proof (cases "j = i")
    case True
    then show ?thesis using fc assms(2) by (simp add: wrPage_def changeFrame_def)
  next
    case False
    then have "walVersion (vfh st) j \<noteq> Some w" using storage_ok_version(4)[OF assms(1,2), of j] by auto
    then show ?thesis using False other by (auto simp: wrPage_def changeFrame_def split: option.splits)
  qed
  then show "wrPage (changeFrame w f st) = (wrPage st)(i \<mapsto> f p)" by blast
qed (simp_all add: changeFrame_def walPages_def)

lemma release_props:
  assumes "storage_ok L st" "i < numPages (vfh st)"
  obtains st1 where "unpinPageIdxInWALAndReleaseOriginalPageLock st i = Inr st1" "storage_ok (L - {i}) st1"
    "walVersion (vfh st1) = walVersion (vfh st)" "wal st1 = wal st" "dbFile st1 = dbFile st" "wrPage st1 = wrPage st"
    "numPages (vfh st1) = numPages (vfh st)" "bmFrames st1 = bmFrames st" "sidOf st1 = sidOf st"
proof -
  let ?fh = "(vfh st)\<lparr>pageLocks := (pageLocks (vfh st))[i := Some False]\<rparr>"
  have inv: "vfh_inv (vfh st)" and len: "i < length (pageLocks (vfh st))" and nn: "pageLocks (vfh st) ! i \<noteq> None"
    using assms by (auto simp: storage_ok_def vfh_inv_def fh_inv_def)
  have "vfh_inv ?fh" using vfh_inv_more_lock[OF inv assms(2)] by simp
  then have "storage_ok (L - {i}) (st\<lparr>vfh := ?fh\<rparr>)" using assms len by (auto simp: storage_ok_def nth_list_update)
  moreover have "wrPage (st\<lparr>vfh := ?fh\<rparr>) = wrPage st" by (rule wrPage_cong) simp_all
  ultimately show thesis
    using that[of "st\<lparr>vfh := ?fh\<rparr>"] len nn by (simp add: unpinPageIdxInWALAndReleaseOriginalPageLock_def releasePageLock_def not_le)
qed

lemma updatePage_props:
  assumes ok: "storage_ok L st" and i: "i < numPages (vfh st)" "i \<notin> L" and p: "pinnedContent junk st i isNew = Some p"
    and room: "walPages st + 2 \<le> UINT32_MAX"
  obtains st1 w where "updatePage junk st i isNew f = Inr st1" "storage_ok L st1" "wrPage st1 = (wrPage st)(i \<mapsto> f p)"
    "walVersion (vfh st1) = (walVersion (vfh st))(i \<mapsto> w)" "dbFile st1 = dbFile st" "numPages (vfh st1) = numPages (vfh st)"
    "walPages st1 \<le> walPages st + 2" "sidOf st1 = sidOf st" "w = (case walVersion (vfh st) i of Some w' \<Rightarrow> w' | None \<Rightarrow> walPages st)"
    "wal st1 = (versionedWAL st i p)\<lparr>walFrames := (walFrames (versionedWAL st i p))
                  (w := map_option (map_prod f id) (walFrames (versionedWAL st i p) w))\<rparr>"
    "bmFrames st1 = (if walVersion (vfh st) i = None then (bmFrames st)(i \<mapsto> p) else bmFrames st)"
proof -
  obtain w st1 where 1: "createWALVersionIfNecessaryAndPinPage junk st i isNew = Inr (w, st1)" "storage_ok (insert i L) st1"
    "walVersion (vfh st1) = (walVersion (vfh st))(i \<mapsto> w)" "frameContent st1 w = Some p" "wrPage st1 = (wrPage st)(i \<mapsto> p)"
    "dbFile st1 = dbFile st" "numPages (vfh st1) = numPages (vfh st)" "walPages st1 \<le> walPages st + 2"
    "wal st1 = versionedWAL st i p" "sidOf st1 = sidOf st" "w = (case walVersion (vfh st) i of Some w' \<Rightarrow> w' | None \<Rightarrow> walPages st)"
    "bmFrames st1 = (if walVersion (vfh st) i = None then (bmFrames st)(i \<mapsto> p) else bmFrames st)"
    by (rule createWALVersion_props[OF assms])
  have "walVersion (vfh st1) i = Some w" using 1(3) by simp
  note 2 = changeFrame_props[OF 1(2) this 1(4), of f]
  have "i < numPages (vfh (changeFrame w f st1))" using 2(4) 1(7) i(1) by simp
  then obtain st2 where 3: "unpinPageIdxInWALAndReleaseOriginalPageLock (changeFrame w f st1) i = Inr st2" "storage_ok (insert i L - {i}) st2"
    "walVersion (vfh st2) = walVersion (vfh (changeFrame w f st1))" "wal st2 = wal (changeFrame w f st1)" "dbFile st2 = dbFile (changeFrame w f st1)"
    "wrPage st2 = wrPage (changeFrame w f st1)" "numPages (vfh st2) = numPages (vfh (changeFrame w f st1))" "bmFrames st2 = bmFrames (changeFrame w f st1)" "sidOf st2 = sidOf (changeFrame w f st1)"
    by (rule release_props[OF 2(1)])
  have "insert i L - {i} = L" using i(2) by auto
  then show thesis
    using that[of st2 w] 1 2 3 by (simp add: updatePage_def walPages_def changeFrame_def)
qed

section \<open>Adding a page\<close>

lemma addNewPageVersioned_exact:
  assumes inv: "vfh_inv fh" and small: "numPages fh < UINT32_MAX"
  obtains fh' where "addNewPageVersioned fh = (numPages fh, fh')" "vfh_inv fh'" "numPages fh' = Suc (numPages fh)"
    "walVersion fh' = walVersion fh" "storageStructureIDForWALRecord fh' = storageStructureIDForWALRecord fh"
    "\<forall>j < numPages fh. pageLocks fh' ! j = pageLocks fh ! j" "pageLocks fh' ! numPages fh = Some False"
proof -
  obtain fh' where 1: "addNewPageVersioned fh = (numPages fh, fh')" "vfh_inv fh'" "numPages fh' = Suc (numPages fh)" "walVersion fh' = walVersion fh"
    by (rule addNewPageVersioned_props[OF assms])
  obtain i fh1 where a: "addNewPageWithoutLock fh = (i, fh1)" by force
  have fhi: "fh_inv fh" using inv by (simp add: vfh_inv_def)
  note p = addNewPageWithoutLock_props[OF fhi small a]
  have "fh' = resizePageGroupLocksAndPageVersionsToNumPageGroupsWithoutLock fh1" using 1(1) a by (simp add: addNewPageVersioned_def)
  then have f: "pageLocks fh' = pageLocks fh1" "storageStructureIDForWALRecord fh' = storageStructureIDForWALRecord fh1"
    by (simp_all add: resizePageGroupLocksAndPageVersionsToNumPageGroupsWithoutLock_def Let_def)
  have "storageStructureIDForWALRecord fh1 = storageStructureIDForWALRecord fh" using p(7) by (cases fh; cases fh1) simp
  then show thesis using that[OF 1] f p(1,5,6) by auto
qed

lemma addNewPageToFileHandle_props:
  assumes ok: "storage_ok {} st" and small: "numPages (vfh st) < UINT32_MAX" and room: "walPages st + 2 \<le> UINT32_MAX"
    and free: "walFrames (wal st) (walPages st) = None"
  obtains st1 where "addNewPageToFileHandle junk st = Inr st1" "storage_ok {} st1" "numPages (vfh st1) = Suc (numPages (vfh st))"
    "walVersion (vfh st1) = (walVersion (vfh st))(numPages (vfh st) \<mapsto> walPages st)" "dbFile st1 = dbFile st" "sidOf st1 = sidOf st"
    "wrPage st1 = (wrPage st)(numPages (vfh st) \<mapsto> junk)" "bmFrames st1 = bmFrames st"
    "wal st1 = (snd (logPageInsertRecord (wal st) (sidOf st) (numPages (vfh st))))\<lparr>walFrames := (walFrames (wal st))(walPages st \<mapsto> (junk, True))\<rparr>"
proof -
  let ?i = "numPages (vfh st)"
  have inv: "vfh_inv (vfh st)" and fhw: "fh_inv (fileHandle (wal st))" using ok by (simp_all add: storage_ok_def)
  obtain fh1 where 1: "addNewPageVersioned (vfh st) = (?i, fh1)" "vfh_inv fh1" "numPages fh1 = Suc ?i"
    "walVersion fh1 = walVersion (vfh st)" "storageStructureIDForWALRecord fh1 = sidOf st"
    "\<forall>j < ?i. pageLocks fh1 ! j = pageLocks (vfh st) ! j" "pageLocks fh1 ! ?i = Some False"
    by (rule addNewPageVersioned_exact[OF inv small])
  obtain k w1 where lg: "logPageInsertRecord (wal st) (sidOf st) ?i = (k, w1)" by fastforce
  obtain w0 where w0: "addNewWALPage (wal st) = (k, w0)" "w1 = addNewWALRecordNoLock w0 (newPageInsertRecord (sidOf st) ?i k)"
    using logPageRecord_calls(2)[OF lg] by blast
  note e = logPage_effect[OF fhw room[unfolded walPages_def] w0]
  have k: "k = walPages st" using e(1) by (simp add: walPages_def)
  have i1: "?i < numPages fh1" using 1(3) by simp
  obtain vs where 2: "createPageVersionGroupIfNecessary fh1 ?i = Inr (fh1\<lparr>pageVersions := vs\<rparr>)" "vfh_inv (fh1\<lparr>pageVersions := vs\<rparr>)"
    "walVersion (fh1\<lparr>pageVersions := vs\<rparr>) = walVersion fh1" "length (vs ! (?i div 64)) = 64"
    by (rule createGroup_exact[OF 1(2) i1])
  have i2: "?i < numPages (fh1\<lparr>pageVersions := vs\<rparr>)" "length (pageVersions (fh1\<lparr>pageVersions := vs\<rparr>) ! (?i div 64)) = 64" "k \<noteq> UINT32_MAX"
    using i1 2(4) k room by simp_all
  obtain vs' where 3: "setWALPageVersionNoLock (fh1\<lparr>pageVersions := vs\<rparr>) ?i k = Inr (fh1\<lparr>pageVersions := vs'\<rparr>)"
    "vfh_inv (fh1\<lparr>pageVersions := vs'\<rparr>)" "walVersion (fh1\<lparr>pageVersions := vs'\<rparr>) = (walVersion fh1)(?i \<mapsto> k)"
    by (rule setVersion_exact[OF 2(2) i2]) (use 2(3) in auto)
  let ?st = "st\<lparr>vfh := fh1\<lparr>pageVersions := vs'\<rparr>, wal := w1\<lparr>walFrames := (walFrames (wal st))(k \<mapsto> (junk, True))\<rparr>\<rparr>"
  have c: "addNewPageToFileHandle junk st = Inr ?st"
    using 1(1,5) lg 2(1) 3(1) e(3) free k by (simp add: addNewPageToFileHandle_def pinWALPage_def setWALPageVersion_def)
  have old: "walVersion (vfh st) j \<noteq> Some k" for j using storage_ok_version(2)[OF ok, of j k] k by auto
  have "inj_on ((walVersion (vfh st))(?i \<mapsto> k)) (insert ?i (dom (walVersion (vfh st))))"
    using ok old by (auto simp: storage_ok_def inj_on_def)
  moreover have "j < ?i" "v < numPages (fileHandle w1)" if "walVersion (vfh st) j = Some v" for j v
    using storage_ok_version(1,2)[OF ok that] e(4) by (simp_all add: walPages_def)
  ultimately have "storage_ok {} ?st"
    unfolding storage_ok_def using ok 3(2,3) e(2,4) k 1(3,4,6,7) by (auto simp: storage_ok_def walPages_def less_Suc_eq)
  moreover have "wrPage ?st j = ((wrPage st)(?i \<mapsto> junk)) j" for j
    using 3(3) 1(4) old[of j] by (auto simp: wrPage_def frameContent_def split: option.splits)
  then have "wrPage ?st = (wrPage st)(?i \<mapsto> junk)" by blast
  ultimately show thesis using that[of ?st] c 1(3,4,5) 3(3) k lg by simp
qed

lemma readWALVersion_props:
  assumes ok: "storage_ok L st" and i: "i \<notin> L" and v: "walVersion (vfh st) i = Some w" and p: "wrPage st i = Some p"
  obtains st1 where "readWALVersionOfPage junk st i = Inr (p, st1)" "storage_ok L st1" "walVersion (vfh st1) = walVersion (vfh st)"
    "wal st1 = wal st" "dbFile st1 = dbFile st" "wrPage st1 = wrPage st" "numPages (vfh st1) = numPages (vfh st)" "bmFrames st1 = bmFrames st"
proof -
  have lt: "i < numPages (vfh st)" using storage_ok_version(1)[OF ok v] .
  have inv: "vfh_inv (vfh st)" using ok by (simp add: storage_ok_def)
  obtain d where d: "walFrames (wal st) w = Some (p, d)" using p v by (auto simp: wrPage_def frameContent_def)
  obtain st1 where 1: "unpinPageIdxInWALAndReleaseOriginalPageLock st i = Inr st1" "storage_ok (L - {i}) st1"
    "walVersion (vfh st1) = walVersion (vfh st)" "wal st1 = wal st" "dbFile st1 = dbFile st" "wrPage st1 = wrPage st"
    "numPages (vfh st1) = numPages (vfh st)" "bmFrames st1 = bmFrames st"
    by (rule release_props[OF ok lt])
  have "L - {i} = L" using i by auto
  then show thesis
    using that[of st1] 1 d getWALPageVersion_Some[OF inv lt v] by (simp add: readWALVersionOfPage_def pinWALPage_def)
qed

section \<open>Eviction of a log frame\<close>

text \<open>The buffer manager may evict the frame of a log page that is not pinned; a dirty one is written to the log file.\<close>

definition evictWALFrame :: "page_idx \<Rightarrow> 'p storage \<Rightarrow> 'p storage" where
  "evictWALFrame w st = st\<lparr>wal := flushFrame (wal st) w\<rparr>"

lemma updatePage_evicted:
  assumes "vfh_inv (vfh st)" "i < numPages (vfh st)" "pageLocks (vfh st) ! i = Some False" "walVersion (vfh st) i = Some w"
    and "walFrames (wal st) w = None" "readDataPage (walFile (wal st)) junk w = Inr p"
  obtains st1 where "updatePage junk st i isNew f = Inr st1" "vfh_inv (vfh st1)" "i < numPages (vfh st1)"
    "pageLocks (vfh st1) ! i = Some False" "walVersion (vfh st1) i = Some w" "walFile (wal st1) = walFile (wal st)"
    "walFrames (wal st1) w = Some (f p, False)"
proof -
  obtain fh1 fh2 where 1: "createPageVersionGroupIfNecessary (vfh st) i = Inr fh1" "acquirePageLock fh1 i True = Inr (True, fh2)" "vfh_inv fh2"
    "walVersion fh2 = walVersion (vfh st)" "pageLocks fh2 = (pageLocks (vfh st))[i := Some True]" "numPages fh2 = numPages (vfh st)"
    by (rule lockForUpdate[OF assms(1-3)])
  have 2: "hasWALPageVersionNoPageLock fh2 i = Inr True" "getWALPageVersionNoPageLock fh2 i = Inr w"
    using hasWALPageVersion_iff[OF 1(3), of i] getWALPageVersion_Some[OF 1(3), of i w] 1(4,6) assms(2,4) by simp_all
  have len: "i < length (pageLocks fh2)" using 1(3,6) assms(2) by (simp add: vfh_inv_def fh_inv_def)
  let ?fh3 = "fh2\<lparr>pageLocks := (pageLocks fh2)[i := Some False]\<rparr>"
  have inv3: "vfh_inv ?fh3" using vfh_inv_more_lock[OF 1(3)] 1(6) assms(2) by simp
  let ?st = "st\<lparr>vfh := ?fh3, wal := (wal st)\<lparr>walFrames := (walFrames (wal st))(w \<mapsto> (f p, False))\<rparr>\<rparr>"
  have "pageLocks fh2 ! i = Some True" using len 1(5) by simp
  then have "updatePage junk st i isNew f = Inr ?st"
    using 1(1,2) 2 assms(5,6) len
    by (simp add: updatePage_def createWALVersionIfNecessaryAndPinPage_def pinWALPage_def changeFrame_def
        unpinPageIdxInWALAndReleaseOriginalPageLock_def releasePageLock_def)
  then show thesis using that[of ?st] inv3 1(4,6) assms(2,4) len by simp
qed

text \<open>
  C34: an update is lost when the frame is evicted twice.  The first update of a page marks the frame of its log page dirty; a later
  update of the same page pins the log page and changes it, but does not mark it dirty.  If the buffer manager evicts the frame
  between the two updates and again after the second one, the transaction reads back the page without the second update.
\<close>

theorem second_update_lost_on_eviction:
  assumes ok: "storage_ok {} st" and i: "i < numPages (vfh st)" and v: "walVersion (vfh st) i = None" and p: "dbFile st i = Some p"
    and room: "walPages st + 2 \<le> UINT32_MAX"
  shows "\<exists>st1 st2 st3. updatePage junk st i False f = Inr st1 \<and>
    updatePage junk (evictWALFrame (walPages st) st1) i False g = Inr st2 \<and> wrPage st2 i = Some (g (f p)) \<and>
    readWALVersionOfPage junk (evictWALFrame (walPages st) st2) i = Inr (f p, st3)"
proof -
  let ?k = "walPages st"
  have c: "pinnedContent junk st i False = Some p" using v p by (simp add: pinnedContent_def wrPage_def)
  obtain st0 where 0: "createWALVersionIfNecessaryAndPinPage junk st i False = Inr (?k, st0)" "storage_ok {i} st0"
    "walVersion (vfh st0) = (walVersion (vfh st))(i \<mapsto> ?k)" "walFrames (wal st0) = (walFrames (wal st))(?k \<mapsto> (p, True))"
    "numPages (vfh st0) = numPages (vfh st)"
    using createWALVersion_new[OF ok i _ v c room] by auto
  have "walVersion (vfh st0) i = Some ?k" "frameContent st0 ?k = Some p" using 0(3,4) by (simp_all add: frameContent_def)
  note ch = changeFrame_props[OF 0(2) this, of f]
  obtain st1 where 1: "unpinPageIdxInWALAndReleaseOriginalPageLock (changeFrame ?k f st0) i = Inr st1" "storage_ok ({i} - {i}) st1"
    "walVersion (vfh st1) = walVersion (vfh (changeFrame ?k f st0))" "wal st1 = wal (changeFrame ?k f st0)"
    "numPages (vfh st1) = numPages (vfh (changeFrame ?k f st0))"
    using release_props[OF ch(1), of i] ch(4) 0(5) i by (metis (no_types, lifting))
  have u1: "updatePage junk st i False f = Inr st1" using 0(1) 1(1) by (simp add: updatePage_def)
  let ?e1 = "evictWALFrame ?k st1"
  have fr: "walFrames (wal st1) ?k = Some (f p, True)" using 1(4) 0(4) by (simp add: changeFrame_def)
  have e1: "vfh ?e1 = vfh st1" "walFrames (wal ?e1) ?k = None" "readDataPage (walFile (wal ?e1)) junk ?k = Inr (f p)"
    using fr by (simp_all add: evictWALFrame_def flushFrame_def writePageToFile_def readDataPage_def max_def)
  have s1: "vfh_inv (vfh ?e1)" "i < numPages (vfh ?e1)" "pageLocks (vfh ?e1) ! i = Some False" "walVersion (vfh ?e1) i = Some ?k"
    using 1(2,3,5) ch(4) 0(3,5) i e1(1) by (simp_all add: storage_ok_def)
  obtain st2 where 2: "updatePage junk ?e1 i False g = Inr st2" "vfh_inv (vfh st2)" "i < numPages (vfh st2)"
    "pageLocks (vfh st2) ! i = Some False" "walVersion (vfh st2) i = Some ?k" "walFile (wal st2) = walFile (wal ?e1)"
    "walFrames (wal st2) ?k = Some (g (f p), False)"
    by (rule updatePage_evicted[OF s1 e1(2,3)])
  let ?e2 = "evictWALFrame ?k st2"
  have e2: "vfh ?e2 = vfh st2" "walFrames (wal ?e2) ?k = None" "readDataPage (walFile (wal ?e2)) junk ?k = Inr (f p)"
    using 2(6,7) e1(3) by (simp_all add: evictWALFrame_def flushFrame_def)
  have "getWALPageVersionNoPageLock (vfh ?e2) i = Inr ?k" using getWALPageVersion_Some[OF 2(2,3,5)] e2(1) by simp
  moreover have "\<exists>fh. releasePageLock (vfh ?e2) i = Inr fh"
    using 2(2,3,4) e2(1) by (auto simp: releasePageLock_def vfh_inv_def fh_inv_def)
  ultimately have "\<exists>st3. readWALVersionOfPage junk ?e2 i = Inr (f p, st3)"
    using e2(2,3) by (auto simp: readWALVersionOfPage_def pinWALPage_def unpinPageIdxInWALAndReleaseOriginalPageLock_def)
  moreover have "wrPage st2 i = Some (g (f p))" using 2(5,7) by (simp add: wrPage_def frameContent_def)
  ultimately show ?thesis using u1 2(1) by blast
qed

abbreviation exampleStorage :: "nat storage" where
  "exampleStorage \<equiv>
     \<lparr>vfh = exampleVersionedHandle\<lparr>pageVersions := [[]]\<rparr>, dbFile = (\<lambda>_. None)(0 \<mapsto> 5), bmFrames = (\<lambda>_. None),
      wal = \<lparr>fileHandle = newFileHandle 4 0, walFile = emptyFile, walFrames = (\<lambda>_. None), offsetInCurrentHeaderPage = 12,
             currentHeaderPageIdx = 0, currentHeaderPageBuffer = emptyHeaderPage, isLastLoggedRecordCommit = False,
             updatedUnstructuredPropertyLists = []\<rparr>\<rparr>"

lemma exampleStorage_versions: "walVersion (vfh exampleStorage) = (\<lambda>_. None)"
proof
  fix i
  show "walVersion (vfh exampleStorage) i = None" by (cases "i div 64") (simp_all add: walVersion_def)
qed

lemma exampleStorage_ok: "storage_ok {} exampleStorage" "walPages exampleStorage = 0"
proof -
  have "vfh_inv (vfh exampleStorage)"
    by (simp add: vfh_inv_def fh_inv_def getNumPageGroups_def MULTI_VERSION_FILE_PAGE_GROUP_SIZE_def UINT32_MAX_def)
  moreover have "pageLocks (vfh exampleStorage) ! i = Some False" if "i < 3" for i using that by simp
  ultimately show "storage_ok {} exampleStorage"
    unfolding storage_ok_def exampleStorage_versions using newFileHandle_inv[of 4 0] by simp
  show "walPages exampleStorage = 0" using newFileHandle_numPages[of 0] by (simp add: walPages_def UINT32_MAX_def)
qed

theorem second_update_lost_on_eviction_witness:
  "\<exists>st1 st2 st3. updatePage 0 exampleStorage 0 False Suc = Inr st1 \<and>
    updatePage 0 (evictWALFrame 0 st1) 0 False (\<lambda>x. x + 10) = Inr st2 \<and> wrPage st2 0 = Some 16 \<and>
    readWALVersionOfPage 0 (evictWALFrame 0 st2) 0 = Inr (6, st3)"
proof -
  have "walPages exampleStorage + 2 \<le> UINT32_MAX" using exampleStorage_ok(2) by (simp add: UINT32_MAX_def)
  then show ?thesis
    using second_update_lost_on_eviction[OF exampleStorage_ok(1), of 0 5 0 Suc "\<lambda>x. x + 10"] exampleStorage_versions
    unfolding exampleStorage_ok(2) by (simp del: fun_upd_apply add: fun_upd_same)
qed

end
