(* ===== verification/Wal_Replayer.thy ===== *)
theory Wal_Replayer
  imports Storage_Structure
begin

text \<open>
  Commit, rollback and recovery: \<^verbatim>\<open>src/src/storage/wal_replayer.cpp\<close> and the part of
  \<^verbatim>\<open>src/src/main/database.cpp\<close> that drives it.  The database is a family of paged files, one for each storage structure, and the
  log.  The records of the log that concern other components (the catalog, statistics, tables) lead to calls of these components;
  the calls are recorded in order as \<open>effects\<close>.
\<close>

section \<open>The replayer\<close>

datatype replay_effect =
    OverwriteNodesStatisticsFile | CheckpointNodesStatistics | RollbackNodesStatistics
  | OverwriteRelsStatisticsFile | CheckpointRelsStatistics
  | OverwriteCatalogFile | CheckpointCatalog
  | CreateEmptyDBFilesForNewNodeTable table_id | CreateNodeTable table_id
  | CreateEmptyDBFilesForNewRelTable table_id | CreateRelTable table_id
  | ResetNextBytePosToWriteTo StorageStructureID u64 | ResetLoggedNewOverflowFileNextBytePosRecord StorageStructureID
  | ReplaceNodeFiles table_id | LoadNodeTable table_id
  | ReplaceRelPropertyFiles table_id | LoadRelTable table_id | SetAdjListsAndColumns
  | RemoveNodeTable table_id | RemoveRelTable table_id
  | RemoveDBFilesForNodeTable table_id | RemoveDBFilesForRelTable table_id
  | CheckpointLists table_id | RollbackLists table_id

record 'p database =
  files :: "StorageStructureID \<Rightarrow> 'p paged_file"
  dbWal :: "'p WAL"
  effects :: "replay_effect list"

record 'p replayer = "'p database" +
  pageBuffer :: 'p

definition addEffects :: "replay_effect list \<Rightarrow> 'p replayer \<Rightarrow> 'p replayer" where
  "addEffects es s = s\<lparr>effects := effects s @ es\<rparr>"

text \<open>The file of a storage structure.\<close>

fun getFileInfoForReadWrite :: "StorageStructureID \<Rightarrow> StorageStructureID result" where
  "getFileInfoForReadWrite (STRUCTURED_NODE_PROPERTY_COLUMN v c) = Inr (STRUCTURED_NODE_PROPERTY_COLUMN v c)"
| "getFileInfoForReadWrite (LISTS v (UNSTRUCTURED_NODE_PROPERTY_LISTS f t)) = Inr (LISTS v (UNSTRUCTURED_NODE_PROPERTY_LISTS f t))"
| "getFileInfoForReadWrite (LISTS v l) =
     Inl (RuntimeException ''There should not be any code path yet triggering getting List file name for anything other than UnstructuredNodePropertyList ListType.'')"
| "getFileInfoForReadWrite (NODE_INDEX v t) =
     Inl (RuntimeException ''There should not be any code path yet triggering getting NODE_INDEX file name from StorageStructureID.'')"

text \<open>The null pointer of the source is \<open>None\<close>: the pages of disk arrays are not in the buffer manager.\<close>

fun getVersionedFileHandleIfWALVersionAndBMShouldBeCleared :: "StorageStructureID \<Rightarrow> StorageStructureID option result" where
  "getVersionedFileHandleIfWALVersionAndBMShouldBeCleared (STRUCTURED_NODE_PROPERTY_COLUMN v c) = Inr (Some (STRUCTURED_NODE_PROPERTY_COLUMN v c))"
| "getVersionedFileHandleIfWALVersionAndBMShouldBeCleared (LISTS v (UNSTRUCTURED_NODE_PROPERTY_LISTS f t)) =
     Inr (if f = BASE_LISTS then Some (LISTS v (UNSTRUCTURED_NODE_PROPERTY_LISTS f t)) else None)"
| "getVersionedFileHandleIfWALVersionAndBMShouldBeCleared (LISTS v l) =
     Inl (RuntimeException ''There should not be any code path yet triggering getting List type name for anything other than UnstructuredNodePropertyList.'')"
| "getVersionedFileHandleIfWALVersionAndBMShouldBeCleared (NODE_INDEX v t) =
     Inl (RuntimeException ''Unrecognized StorageStructureType inside WALReplayer::replay().'')"

definition truncateFileIfInsertion :: "PageUpdateOrInsertRecord \<Rightarrow> VersionedFileHandle \<Rightarrow> VersionedFileHandle" where
  "truncateFileIfInsertion r fh =
     (if isInsert r then removePageIdxAndTruncateIfNecessaryVersioned fh (pageIdxInOriginalFile r) else fh)"

definition updateFrameIfPageIsInFrame :: "(page_idx \<Rightarrow> 'p option) \<Rightarrow> 'p \<Rightarrow> page_idx \<Rightarrow> (page_idx \<Rightarrow> 'p option)" where
  "updateFrameIfPageIsInFrame bm newPage i = (if bm i \<noteq> None then bm(i \<mapsto> newPage) else bm)"

definition checkpointOrRollbackVersionedFileHandleAndBufferManager ::
  "bool \<Rightarrow> PageUpdateOrInsertRecord \<Rightarrow> 'p replayer \<Rightarrow> 'p replayer result" where
  "checkpointOrRollbackVersionedFileHandleAndBufferManager isCheckpoint r s =
     bind_result (getVersionedFileHandleIfWALVersionAndBMShouldBeCleared (storageStructureID r)) (\<lambda>handle.
       case handle of
         None \<Rightarrow> Inr s
       | Some sid \<Rightarrow>
           bind_result (clearWALPageVersionIfNecessary (vfh (files s sid)) (pageIdxInOriginalFile r)) (\<lambda>fh1.
             Inr (if isCheckpoint
                  then s\<lparr>files := (files s)(sid := (files s sid)\<lparr>vfh := fh1,
                           bmFrames := updateFrameIfPageIsInFrame (bmFrames (files s sid)) (pageBuffer s) (pageIdxInOriginalFile r)\<rparr>)\<rparr>
                  else s\<lparr>files := (files s)(sid := (files s sid)\<lparr>vfh := truncateFileIfInsertion r fh1\<rparr>)\<rparr>)))"

definition replayPageRecord :: "bool \<Rightarrow> bool \<Rightarrow> PageUpdateOrInsertRecord \<Rightarrow> 'p replayer \<Rightarrow> 'p replayer result" where
  "replayPageRecord isRecovering isCheckpoint r s =
     bind_result (getFileInfoForReadWrite (storageStructureID r)) (\<lambda>sid.
     bind_result (if isCheckpoint
                  then bind_result (readDataPage (walFile (dbWal s)) (pageBuffer s) (pageIdxInWAL r)) (\<lambda>p.
                         Inr (s\<lparr>pageBuffer := p,
                           files := (files s)(sid := (files s sid)\<lparr>dbFile := (dbFile (files s sid))(pageIdxInOriginalFile r \<mapsto> p)\<rparr>)\<rparr>))
                  else Inr s) (\<lambda>s1.
       if \<not> isRecovering then checkpointOrRollbackVersionedFileHandleAndBufferManager isCheckpoint r s1 else Inr s1))"

definition replayOverflowRecord :: "bool \<Rightarrow> bool \<Rightarrow> OverflowFileNextBytePosRecord \<Rightarrow> 'p replayer \<Rightarrow> 'p replayer result" where
  "replayOverflowRecord isRecovering isCheckpoint r s =
     (if isRecovering then Inr s
      else let sid = ovfStorageStructureID r;
               reset = Inr (addEffects ((if isCheckpoint then [] else [ResetNextBytePosToWriteTo sid (prevNextBytePosToWriteTo r)]) @
                                        [ResetLoggedNewOverflowFileNextBytePosRecord sid]) s)
           in if \<not> isOverflow sid then Inl (UndefinedBehaviour ''assertion'')
              else case sid of
                     STRUCTURED_NODE_PROPERTY_COLUMN v c \<Rightarrow> reset
                   | LISTS v (UNSTRUCTURED_NODE_PROPERTY_LISTS BASE_LISTS t) \<Rightarrow> reset
                   | LISTS v l \<Rightarrow> Inl (UndefinedBehaviour ''assertion'')
                   | NODE_INDEX v t \<Rightarrow> Inl (RuntimeException ''Unsupported storageStructureType for OVERFLOW_FILE_NEXT_BYTE_POS_RECORD.''))"

fun replayWALRecord :: "bool \<Rightarrow> bool \<Rightarrow> WALRecord \<Rightarrow> 'p replayer \<Rightarrow> 'p replayer result" where
  "replayWALRecord isRecovering isCheckpoint (PAGE_UPDATE_OR_INSERT_RECORD r) s = replayPageRecord isRecovering isCheckpoint r s"
| "replayWALRecord isRecovering isCheckpoint (TABLE_STATISTICS_RECORD isNodeTable) s =
     Inr (addEffects
       (if isCheckpoint
        then (if isNodeTable
              then OverwriteNodesStatisticsFile # (if isRecovering then [] else [CheckpointNodesStatistics])
              else OverwriteRelsStatisticsFile # (if isRecovering then [] else [CheckpointRelsStatistics]))
        else [RollbackNodesStatistics]) s)"
| "replayWALRecord isRecovering isCheckpoint (COMMIT_RECORD _) s = Inr s"
| "replayWALRecord isRecovering isCheckpoint CATALOG_RECORD s =
     Inr (addEffects (if isCheckpoint then OverwriteCatalogFile # (if isRecovering then [] else [CheckpointCatalog]) else []) s)"
| "replayWALRecord isRecovering isCheckpoint (NODE_TABLE_RECORD t) s =
     Inr (addEffects (if isCheckpoint then CreateEmptyDBFilesForNewNodeTable t # (if isRecovering then [] else [CreateNodeTable t]) else []) s)"
| "replayWALRecord isRecovering isCheckpoint (REL_TABLE_RECORD t) s =
     Inr (addEffects (if isCheckpoint then CreateEmptyDBFilesForNewRelTable t # (if isRecovering then [] else [CreateRelTable t]) else []) s)"
| "replayWALRecord isRecovering isCheckpoint (OVERFLOW_FILE_NEXT_BYTE_POS_RECORD r) s = replayOverflowRecord isRecovering isCheckpoint r s"
| "replayWALRecord isRecovering isCheckpoint (COPY_NODE_CSV_RECORD t) s =
     Inr (addEffects (if isCheckpoint then ReplaceNodeFiles t # (if isRecovering then [] else [LoadNodeTable t]) else []) s)"
| "replayWALRecord isRecovering isCheckpoint (COPY_REL_CSV_RECORD t) s =
     Inr (addEffects (if isCheckpoint then ReplaceRelPropertyFiles t # (if isRecovering then [] else [LoadRelTable t, SetAdjListsAndColumns]) else []) s)"
| "replayWALRecord isRecovering isCheckpoint (DROP_TABLE_RECORD isNodeTable t) s =
     Inr (addEffects
       (if isCheckpoint
        then (if isNodeTable then (if isRecovering then [] else [RemoveNodeTable t]) @ [RemoveDBFilesForNodeTable t]
              else (if isRecovering then [] else [RemoveRelTable t]) @ [RemoveDBFilesForRelTable t])
        else []) s)"

text \<open>The loop over the records; \<open>fuel\<close> bounds their number as in \<open>readRecords\<close>.\<close>

fun replayRecords :: "nat \<Rightarrow> bool \<Rightarrow> bool \<Rightarrow> 'p WALIterator \<Rightarrow> 'p replayer \<Rightarrow> 'p replayer result" where
  "replayRecords 0 isRecovering isCheckpoint it s = (if hasNextRecordNoLock it then Inl Blocks else Inr s)"
| "replayRecords (Suc n) isRecovering isCheckpoint it s =
     (if hasNextRecordNoLock it
      then bind_result (getNextRecord it) (\<lambda>(r, it').
           bind_result (replayWALRecord isRecovering isCheckpoint r s) (replayRecords n isRecovering isCheckpoint it'))
      else Inr s)"

fun replayLists :: "bool \<Rightarrow> ListFileID list \<Rightarrow> 'p replayer \<Rightarrow> 'p replayer result" where
  "replayLists isCheckpoint [] s = Inr s"
| "replayLists isCheckpoint (UNSTRUCTURED_NODE_PROPERTY_LISTS f t # ls) s =
     replayLists isCheckpoint ls (addEffects [if isCheckpoint then CheckpointLists t else RollbackLists t] s)"
| "replayLists isCheckpoint (l # ls) s = Inl (RuntimeException ''Transactional updates to ListType is not supported.'')"

definition replay :: "nat \<Rightarrow> 'p \<Rightarrow> bool \<Rightarrow> bool \<Rightarrow> 'p database \<Rightarrow> 'p database result" where
  "replay fuel zeroPage isRecovering isCheckpoint db =
     (if \<not> isRecovering \<and> isCheckpoint \<and> \<not> isLastLoggedRecordCommit (dbWal db)
      then Inl (StorageException ''Cannot checkpointWAL because last logged record is not a commit record.'')
      else if isRecovering \<and> \<not> isLastLoggedRecordCommit (dbWal db)
      then Inl (StorageException ''System should not try to rollback when the last logged record is not a commit record.'')
      else bind_result (getIterator (dbWal db)) (\<lambda>(w, it).
           bind_result (replayRecords fuel isRecovering isCheckpoint it
                          (database.extend (db\<lparr>dbWal := w\<rparr>) \<lparr>pageBuffer = zeroPage\<rparr>)) (\<lambda>s.
           bind_result (replayLists isCheckpoint (updatedUnstructuredPropertyLists (dbWal s)) s) (\<lambda>s1. Inr (database.truncate s1)))))"

section \<open>Driving the replayer\<close>

definition checkpointOrRollbackAndClearWAL :: "nat \<Rightarrow> 'p \<Rightarrow> bool \<Rightarrow> bool \<Rightarrow> 'p database \<Rightarrow> 'p database result" where
  "checkpointOrRollbackAndClearWAL fuel zeroPage isRecovering isCheckpoint db =
     bind_result (replay fuel zeroPage isRecovering isCheckpoint db) (\<lambda>db1.
     bind_result (clearWAL fuel (dbWal db1)) (\<lambda>w. Inr (db1\<lparr>dbWal := w\<rparr>)))"

definition recoverIfNecessary :: "nat \<Rightarrow> 'p \<Rightarrow> 'p database \<Rightarrow> 'p database result" where
  "recoverIfNecessary fuel zeroPage db =
     (if isEmptyWAL (dbWal db) then Inr db
      else if isLastLoggedRecordCommit (dbWal db) then checkpointOrRollbackAndClearWAL fuel zeroPage True True db
      else bind_result (clearWAL fuel (dbWal db)) (\<lambda>w. Inr (db\<lparr>dbWal := w\<rparr>)))"

text \<open>
  The commit and the rollback of a write transaction whose updates are in the log
  (\<open>commitAndCheckpointOrRollback\<close> from the point where the transaction manager logs the commit).
\<close>

definition commitTransaction :: "nat \<Rightarrow> 'p \<Rightarrow> u64 \<Rightarrow> 'p database \<Rightarrow> 'p database result" where
  "commitTransaction fuel zeroPage transactionID db =
     checkpointOrRollbackAndClearWAL fuel zeroPage False True (db\<lparr>dbWal := flushAllPages (logCommit (dbWal db) transactionID)\<rparr>)"

definition rollbackTransaction :: "nat \<Rightarrow> 'p \<Rightarrow> 'p database \<Rightarrow> 'p database result" where
  "rollbackTransaction fuel zeroPage db = checkpointOrRollbackAndClearWAL fuel zeroPage False False db"

section \<open>The log that is read\<close>

fun replayAll :: "bool \<Rightarrow> bool \<Rightarrow> WALRecord list \<Rightarrow> 'p replayer \<Rightarrow> 'p replayer result" where
  "replayAll R C [] s = Inr s"
| "replayAll R C (r # rs) s = bind_result (replayWALRecord R C r s) (replayAll R C rs)"

lemma replayRecords_eq: "readRecords n it = Inr rs \<Longrightarrow> replayRecords n R C it s = replayAll R C rs s"
proof (induction n arbitrary: it rs s)
  case 0
  then show ?case by (auto split: if_splits)
next
  case (Suc n)
  show ?case
  proof (cases "hasNextRecordNoLock it")
    case True
    then obtain r it' rs' where 1: "getNextRecord it = Inr (r, it')" "readRecords n it' = Inr rs'" "rs = r # rs'"
      using Suc.prems by (auto simp: bind_result_eq_Inr)
    have "replayRecords n R C it' = replayAll R C rs'" using Suc.IH[OF 1(2)] by blast
    then show ?thesis using True 1 by simp
  qed (use Suc.prems in simp)
qed

lemma replayAll_append: "replayAll R C (xs @ ys) s = bind_result (replayAll R C xs s) (replayAll R C ys)"
proof (induction xs arbitrary: s)
  case (Cons x xs)
  then show ?case by (cases "replayWALRecord R C x s") simp_all
qed simp

lemma getIterator_rep:
  assumes "wal_parts w cs rs" "log = concat (map snd cs) @ rs" "length log \<le> n"
  obtains it where "getIterator w = Inr (flushHeaderPages w, it)" "readRecords n it = Inr log"
proof -
  have "readLog n w = Inr log" by (rule readLog_parts[OF assms])
  then show thesis using that by (auto simp: readLog_def getIterator_def bind_result_eq_Inr Let_def)
qed

text \<open>Flushing writes every dirty frame to its page and keeps the log.\<close>

lemma wal_parts_frames [simp]: "wal_parts (w\<lparr>walFrames := x\<rparr>) cs rs = wal_parts w cs rs"
  by (simp add: wal_parts_def)

definition flushedPages :: "'p WAL \<Rightarrow> page_idx set \<Rightarrow> page_idx \<Rightarrow> 'p wal_page option" where
  "flushedPages w K k =
     (if k \<in> K then (case walFrames w k of Some (p, True) \<Rightarrow> Some (DataPage p) | _ \<Rightarrow> pageAt (walFile w) k) else pageAt (walFile w) k)"

lemma flushFrame_parts:
  assumes "wal_parts w cs rs" "rs \<noteq> []" "\<forall>k. walFrames w k \<noteq> None \<longrightarrow> k \<notin> fst ` set cs \<and> k < numPages (fileHandle w)"
  shows "wal_parts (flushFrame w i) cs rs"
proof (cases "walFrames w i")
  case (Some x)
  obtain p d where x: "x = (p, d)" by (cases x)
  have "i \<notin> fst ` set cs" "i < numPages (fileHandle w)" using assms(3) Some by auto
  then show ?thesis
    using writeDataPage_parts[OF assms(1,2), of i p] assms(1) Some x by (simp add: flushFrame_def writeDataPage_def wal_parts_def)
qed (use assms in \<open>simp add: flushFrame_def\<close>)

lemma flushFrame_simps [simp]:
  "currentHeaderPageIdx (flushFrame w i) = currentHeaderPageIdx w" "isLastLoggedRecordCommit (flushFrame w i) = isLastLoggedRecordCommit w"
  "updatedUnstructuredPropertyLists (flushFrame w i) = updatedUnstructuredPropertyLists w" "fileHandle (flushFrame w i) = fileHandle w"
  "walFrames (flushFrame w i) = (walFrames w)(i := None)" "currentHeaderPageBuffer (flushFrame w i) = currentHeaderPageBuffer w"
  "pageAt (walFile (flushFrame w i)) = flushedPages w {i}"
  by (auto simp: flushFrame_def fun_upd_idem_iff flushedPages_def writePageToFile_def split: option.splits)

lemma flushFrames:
  fixes ks
  assumes "wal_parts w cs rs" "rs \<noteq> []" "\<forall>k. walFrames w k \<noteq> None \<longrightarrow> k \<notin> fst ` set cs \<and> k < numPages (fileHandle w)"
  defines "w' \<equiv> fold (\<lambda>i v. flushFrame v i) ks w"
  shows "wal_parts w' cs rs \<and> currentHeaderPageIdx w' = currentHeaderPageIdx w \<and> isLastLoggedRecordCommit w' = isLastLoggedRecordCommit w \<and>
    updatedUnstructuredPropertyLists w' = updatedUnstructuredPropertyLists w \<and> currentHeaderPageBuffer w' = currentHeaderPageBuffer w \<and>
    pageAt (walFile w') = flushedPages w (set ks) \<and> (\<forall>k. walFrames w k = None \<longrightarrow> walFrames w' k = None) \<and> fileHandle w' = fileHandle w"
  using assms(1,3) unfolding w'_def
proof (induction ks arbitrary: w)
  case Nil
  then show ?case by (auto simp: flushedPages_def)
next
  case (Cons k ks)
  have "\<forall>j. walFrames (flushFrame w k) j \<noteq> None \<longrightarrow> j \<notin> fst ` set cs \<and> j < numPages (fileHandle (flushFrame w k))"
    using Cons.prems(2) by simp
  note 1 = Cons.IH[OF flushFrame_parts[OF Cons.prems(1) assms(2) Cons.prems(2)] this]
  have "flushedPages (flushFrame w k) (set ks) = flushedPages w (set (k # ks))"
    by (rule ext) (auto simp: flushedPages_def split: option.splits bool.splits)
  then show ?case using 1 by simp
qed

lemma flushHeaderPages_parts:
  assumes "wal_parts w cs rs" "rs \<noteq> []"
  shows "wal_parts (flushHeaderPages w) cs rs" "walFrames (flushHeaderPages w) = walFrames w"
    "fileHandle (flushHeaderPages w) = fileHandle w" "currentHeaderPageIdx (flushHeaderPages w) = currentHeaderPageIdx w"
    "isLastLoggedRecordCommit (flushHeaderPages w) = isLastLoggedRecordCommit w"
    "updatedUnstructuredPropertyLists (flushHeaderPages w) = updatedUnstructuredPropertyLists w"
    "k \<noteq> currentHeaderPageIdx w \<Longrightarrow> pageAt (walFile (flushHeaderPages w)) k = pageAt (walFile w) k"
    "flushHeaderPages w = writeHeaderPage w"
proof -
  have f: "flushHeaderPages w = writeHeaderPage w" using isEmptyWAL_iff[OF assms(1)] assms(2) by (simp add: flushHeaderPages_def)
  show "wal_parts (flushHeaderPages w) cs rs"
    using assms unfolding f by (auto simp: wal_parts_def writeHeaderPage_def writePageToFile_def chain_rep_upd file_ok_def)
qed (simp_all add: flushHeaderPages_def writeHeaderPage_def writePageToFile_def isEmptyWAL_iff[OF assms(1)] assms(2))

lemma flushAllPages_props:
  assumes p: "wal_parts w cs rs" "rs \<noteq> []" and free: "\<forall>k. walFrames w k \<noteq> None \<longrightarrow> k \<notin> hdrPages w cs \<and> k < numPages (fileHandle w)"
  shows "wal_parts (flushAllPages w) cs rs" "currentHeaderPageIdx (flushAllPages w) = currentHeaderPageIdx w"
    "isLastLoggedRecordCommit (flushAllPages w) = isLastLoggedRecordCommit w"
    "updatedUnstructuredPropertyLists (flushAllPages w) = updatedUnstructuredPropertyLists w"
    "walFrames w k = Some (x, True) \<Longrightarrow> k < numPages (fileHandle w) \<Longrightarrow> pageAt (walFile (flushAllPages w)) k = Some (DataPage x)"
    "walFrames w k = None \<Longrightarrow> walFrames (flushAllPages w) k = None" "fileHandle (flushAllPages w) = fileHandle w"
    "walFile (flushHeaderPages (flushAllPages w)) = walFile (flushAllPages w)"
proof -
  note f = flushHeaderPages_parts[OF p]
  have "\<forall>k. walFrames (flushHeaderPages w) k \<noteq> None \<longrightarrow> k \<notin> fst ` set cs \<and> k < numPages (fileHandle (flushHeaderPages w))"
    using free f(2,3) by (simp add: hdrPages_def)
  note g = flushFrames[OF f(1) p(2) this, of "[0..<numPages (fileHandle w)]"]
  have eq: "flushAllPages w = fold (\<lambda>i v. flushFrame v i) [0..<numPages (fileHandle w)] (flushHeaderPages w)"
    using isEmptyWAL_iff[OF p(1)] p(2) f(3) by (simp add: flushAllPages_def Let_def)
  show "wal_parts (flushAllPages w) cs rs" "currentHeaderPageIdx (flushAllPages w) = currentHeaderPageIdx w"
    "isLastLoggedRecordCommit (flushAllPages w) = isLastLoggedRecordCommit w"
    "updatedUnstructuredPropertyLists (flushAllPages w) = updatedUnstructuredPropertyLists w"
    "walFrames w k = None \<Longrightarrow> walFrames (flushAllPages w) k = None" "fileHandle (flushAllPages w) = fileHandle w"
    using g f(2-6) unfolding eq by simp_all
  let ?c = "currentHeaderPageIdx w" and ?f = "walFile (flushAllPages w)"
  have "walFrames w ?c = None" using free[rule_format, of ?c] by (cases "walFrames w ?c") (auto simp: hdrPages_def)
  then have "pageAt ?f ?c = Some (HeaderPage (currentHeaderPageBuffer (flushAllPages w)))"
    using g f(2,8) unfolding eq by (simp add: flushedPages_def writeHeaderPage_def writePageToFile_def)
  moreover have "file_ok ?f" using g unfolding eq by (simp add: wal_parts_def)
  ultimately have "writePageToFile ?f ?c (HeaderPage (currentHeaderPageBuffer (flushAllPages w))) = ?f"
    by (cases ?f) (force simp: writePageToFile_def fun_upd_idem file_ok_def max_def)
  then show "walFile (flushHeaderPages (flushAllPages w)) = ?f"
    using g f(4) unfolding eq by (simp add: flushHeaderPages_def writeHeaderPage_def)
  assume "walFrames w k = Some (x, True)" "k < numPages (fileHandle w)"
  then show "pageAt (walFile (flushAllPages w)) k = Some (DataPage x)"
    using g f(2) unfolding eq by (simp add: flushedPages_def)
qed

section \<open>Replaying page records\<close>

text \<open>A file between transactions or during one: the handle is well formed and no page is locked.\<close>

definition plainFile :: "'p paged_file \<Rightarrow> bool" where
  "plainFile F \<longleftrightarrow> vfh_inv (vfh F) \<and> (\<forall>i < numPages (vfh F). pageLocks (vfh F) ! i = Some False)"

lemma clearVersion_exact:
  assumes inv: "vfh_inv fh" and i: "i < numPages fh"
  obtains fh' where "clearWALPageVersionIfNecessary fh i = Inr fh'" "vfh_inv fh'" "numPages fh' = numPages fh"
    "walVersion fh' = (walVersion fh)(i := None)" "\<forall>j. pageLocks fh' ! j = (if j = i then Some False else pageLocks fh ! j)"
    "storageStructureIDForWALRecord fh' = storageStructureIDForWALRecord fh"
proof -
  obtain fh' where 1: "clearWALPageVersionIfNecessary fh i = Inr fh'" "vfh_inv fh'" "numPages fh' = numPages fh"
    "walVersion fh' = (walVersion fh)(i := None)" "pageLocks fh' ! i = Some False"
    by (rule clearWALPageVersion_props[OF assms])
  then obtain fh1 fh2 where 2: "createPageVersionGroupIfNecessary fh i = Inr fh1" "setWALPageVersionNoLock fh1 i UINT32_MAX = Inr fh2"
    "releasePageLock fh2 i = Inr fh'"
    using i by (auto simp: clearWALPageVersionIfNecessary_def bind_result_eq_Inr)
  have "fh1 = fh\<lparr>pageVersions := pageVersions fh1\<rparr>"
    using 2(1) by (auto simp: createPageVersionGroupIfNecessary_def Let_def split: if_splits)
  then obtain vs1 where v1: "fh1 = fh\<lparr>pageVersions := vs1\<rparr>" by blast
  obtain vs2 where v2: "fh2 = fh1\<lparr>pageVersions := vs2\<rparr>" using 2(2) by (auto simp: setWALPageVersionNoLock_def Let_def split: if_splits)
  have "fh' = fh2\<lparr>pageLocks := (pageLocks fh2)[i := Some False]\<rparr>"
    using 2(3) by (auto simp: releasePageLock_def split: if_splits option.splits)
  then show thesis using that[OF 1(1-4)] 1(5) v1 v2 by simp
qed

lemma truncateVersioned_exact:
  assumes inv: "vfh_inv fh" and i: "i < numPages fh"
  defines "fh' \<equiv> removePageIdxAndTruncateIfNecessaryVersioned fh i"
  shows "vfh_inv fh'" "numPages fh' = i" "j < i \<Longrightarrow> walVersion fh' j = walVersion fh j" "j < i \<Longrightarrow> pageLocks fh' ! j = pageLocks fh ! j"
    "storageStructureIDForWALRecord fh' = storageStructureIDForWALRecord fh"
proof -
  note t = truncateVersioned_props[OF inv i]
  show "vfh_inv fh'" "numPages fh' = i" using t(1,2) by (simp_all add: fh'_def)
  let ?r = "removePageIdxAndTruncateIfNecessaryWithoutLock fh i"
  have f: "pageLocks fh' = pageLocks ?r" "storageStructureIDForWALRecord fh' = storageStructureIDForWALRecord ?r"
    by (simp_all add: fh'_def removePageIdxAndTruncateIfNecessaryVersioned_def
        resizePageGroupLocksAndPageVersionsToNumPageGroupsWithoutLock_def Let_def)
  have "fh_inv fh" using inv by (simp add: vfh_inv_def)
  then have "FileHandle.more ?r = FileHandle.more fh" by (rule removePage_props(3))
  then show "storageStructureIDForWALRecord fh' = storageStructureIDForWALRecord fh" unfolding f by (cases fh; cases ?r) simp
  assume j: "j < i"
  then show "pageLocks fh' ! j = pageLocks fh ! j"
    unfolding f using i by (simp add: removePageIdxAndTruncateIfNecessaryWithoutLock_def fold_reset)
  have "j div 64 < getNumPageGroups fh'"
    using j \<open>numPages fh' = i\<close> by (simp add: getNumPageGroups_def MULTI_VERSION_FILE_PAGE_GROUP_SIZE_def)
  then show "walVersion fh' j = walVersion fh j" using t(3) by (simp add: fh'_def)
qed

text \<open>The structures whose pages go through the buffer manager.\<close>

definition versionedStructure :: "StorageStructureID \<Rightarrow> bool" where
  "versionedStructure sid \<longleftrightarrow> getVersionedFileHandleIfWALVersionAndBMShouldBeCleared sid = Inr (Some sid)"

lemma versionedStructure_file: "versionedStructure sid \<Longrightarrow> getFileInfoForReadWrite sid = Inr sid"
  by (cases sid rule: getFileInfoForReadWrite.cases) (simp_all add: versionedStructure_def)

type_synonym 'p file_view = "(page_idx \<Rightarrow> 'p option) \<times> (page_idx \<Rightarrow> page_idx option) \<times> (page_idx \<Rightarrow> 'p option) \<times> nat \<times> StorageStructureID"

definition file_view :: "'p paged_file \<Rightarrow> 'p file_view" where
  "file_view F = (dbFile F, walVersion (vfh F), bmFrames F, numPages (vfh F), sidOf F)"

fun checkpointView :: "page_idx \<Rightarrow> 'p \<Rightarrow> 'p file_view \<Rightarrow> 'p file_view" where
  "checkpointView i p (d, v, b, n, x) = (d(i \<mapsto> p), v(i := None), b(i := map_option (\<lambda>_. p) (b i)), n, x)"

lemma checkpointPage:
  assumes "versionedStructure (storageStructureID r)" "plainFile (files s (storageStructureID r))"
    and "pageIdxInOriginalFile r < numPages (vfh (files s (storageStructureID r)))"
    and "readDataPage (walFile (dbWal s)) (pageBuffer s) (pageIdxInWAL r) = Inr p"
  shows "\<exists>F. replayPageRecord False True r s = Inr (s\<lparr>pageBuffer := p, files := (files s)(storageStructureID r := F)\<rparr>) \<and> plainFile F \<and>
    file_view F = checkpointView (pageIdxInOriginalFile r) p (file_view (files s (storageStructureID r)))"
proof -
  let ?sid = "storageStructureID r" and ?i = "pageIdxInOriginalFile r"
  let ?F = "files s ?sid"
  have inv: "vfh_inv (vfh ?F)" using assms(2) by (simp add: plainFile_def)
  obtain fh where 1: "clearWALPageVersionIfNecessary (vfh ?F) ?i = Inr fh" "vfh_inv fh" "numPages fh = numPages (vfh ?F)"
    "walVersion fh = (walVersion (vfh ?F))(?i := None)" "\<forall>j. pageLocks fh ! j = (if j = ?i then Some False else pageLocks (vfh ?F) ! j)"
    "storageStructureIDForWALRecord fh = sidOf ?F"
    by (rule clearVersion_exact[OF inv assms(3)])
  let ?F' = "?F\<lparr>dbFile := (dbFile ?F)(?i \<mapsto> p), vfh := fh, bmFrames := updateFrameIfPageIsInFrame (bmFrames ?F) p ?i\<rparr>"
  have "replayPageRecord False True r s = Inr (s\<lparr>pageBuffer := p, files := (files s)(?sid := ?F')\<rparr>)"
    using assms(1,4) versionedStructure_file[OF assms(1)] 1(1)
    by (simp add: replayPageRecord_def checkpointOrRollbackVersionedFileHandleAndBufferManager_def versionedStructure_def)
  moreover have "plainFile ?F'" using 1 assms(2) by (simp add: plainFile_def)
  moreover have "file_view ?F' = checkpointView ?i p (file_view ?F)"
    using 1 by (auto simp: file_view_def updateFrameIfPageIsInFrame_def fun_eq_iff)
  ultimately show ?thesis by blast
qed

lemma recoverPage:
  assumes "versionedStructure (storageStructureID r)" "readDataPage (walFile (dbWal s)) (pageBuffer s) (pageIdxInWAL r) = Inr p"
  shows "replayPageRecord True True r s = Inr (s\<lparr>pageBuffer := p, files := (files s)(storageStructureID r :=
    (files s (storageStructureID r))\<lparr>dbFile := (dbFile (files s (storageStructureID r)))(pageIdxInOriginalFile r \<mapsto> p)\<rparr>)\<rparr>)"
  using assms versionedStructure_file[OF assms(1)] by (simp add: replayPageRecord_def)

abbreviation pageRecs :: "PageUpdateOrInsertRecord list \<Rightarrow> WALRecord list" where
  "pageRecs rs \<equiv> map PAGE_UPDATE_OR_INSERT_RECORD rs"

definition viewStep :: "(page_idx \<Rightarrow> 'p) \<Rightarrow> StorageStructureID \<Rightarrow> PageUpdateOrInsertRecord \<Rightarrow> 'p file_view \<Rightarrow> 'p file_view" where
  "viewStep c sid r v = (if storageStructureID r = sid then checkpointView (pageIdxInOriginalFile r) (c (pageIdxInWAL r)) v else v)"

definition plainFiles :: "('p, 'x) database_scheme \<Rightarrow> bool" where
  "plainFiles s \<longleftrightarrow> (\<forall>sid. versionedStructure sid \<longrightarrow> plainFile (files s sid))"

lemma checkpointPages:
  assumes "plainFiles s"
    and "\<forall>r \<in> set rs. versionedStructure (storageStructureID r) \<and> pageIdxInOriginalFile r < numPages (vfh (files s (storageStructureID r))) \<and>
      (\<forall>buf. readDataPage (walFile (dbWal s)) buf (pageIdxInWAL r) = Inr (c (pageIdxInWAL r)))"
  shows "\<exists>s'. replayAll False True (pageRecs rs) s = Inr s' \<and> dbWal s' = dbWal s \<and> effects s' = effects s \<and> plainFiles s' \<and>
    (\<forall>sid. file_view (files s' sid) = fold (viewStep c sid) rs (file_view (files s sid)))"
  using assms
proof (induction rs arbitrary: s)
  case (Cons r rs)
  let ?sid = "storageStructureID r"
  have r: "versionedStructure ?sid" "pageIdxInOriginalFile r < numPages (vfh (files s ?sid))"
    "readDataPage (walFile (dbWal s)) (pageBuffer s) (pageIdxInWAL r) = Inr (c (pageIdxInWAL r))" "plainFile (files s ?sid)"
    using Cons.prems by (auto simp: plainFiles_def)
  obtain F where F: "replayPageRecord False True r s = Inr (s\<lparr>pageBuffer := c (pageIdxInWAL r), files := (files s)(?sid := F)\<rparr>)" "plainFile F"
    "file_view F = checkpointView (pageIdxInOriginalFile r) (c (pageIdxInWAL r)) (file_view (files s ?sid))"
    using checkpointPage[OF r(1,4,2,3)] by blast
  let ?s = "s\<lparr>pageBuffer := c (pageIdxInWAL r), files := (files s)(?sid := F)\<rparr>"
  have np: "numPages (vfh F) = numPages (vfh (files s ?sid))" using F(3) by (simp add: file_view_def)
  have fv: "file_view (files ?s sid) = viewStep c sid r (file_view (files s sid))" for sid using F(3) by (simp add: viewStep_def)
  have ok: "plainFiles ?s" using Cons.prems(1) F(2) by (simp add: plainFiles_def)
  have rest: "\<forall>r \<in> set rs. versionedStructure (storageStructureID r) \<and> pageIdxInOriginalFile r < numPages (vfh (files ?s (storageStructureID r))) \<and>
      (\<forall>buf. readDataPage (walFile (dbWal ?s)) buf (pageIdxInWAL r) = Inr (c (pageIdxInWAL r)))"
  proof
    fix q assume "q \<in> set rs"
    then show "versionedStructure (storageStructureID q) \<and> pageIdxInOriginalFile q < numPages (vfh (files ?s (storageStructureID q))) \<and>
      (\<forall>buf. readDataPage (walFile (dbWal ?s)) buf (pageIdxInWAL q) = Inr (c (pageIdxInWAL q)))"
      using Cons.prems(2) np by (cases "storageStructureID q = ?sid") auto
  qed
  obtain s' where "replayAll False True (pageRecs rs) ?s = Inr s' \<and> dbWal s' = dbWal ?s \<and> effects s' = effects ?s \<and> plainFiles s' \<and>
    (\<forall>sid. file_view (files s' sid) = fold (viewStep c sid) rs (file_view (files ?s sid)))"
    using Cons.IH[OF ok rest] by blast
  then show ?case using F(1) fv by simp
qed simp

lemma fold_viewStep_fst: "fst V = fst V' \<Longrightarrow> fst (fold (viewStep c sid) rs V) = fst (fold (viewStep c sid) rs V')"
proof (induction rs arbitrary: V V')
  case (Cons r rs)
  have "fst (viewStep c sid r V) = fst (viewStep c sid r V')" using Cons.prems by (cases V; cases V') (simp add: viewStep_def)
  then show ?case using Cons.IH[of "viewStep c sid r V" "viewStep c sid r V'"] by simp
qed simp

lemma recoverPages:
  assumes "\<forall>r \<in> set rs. versionedStructure (storageStructureID r) \<and> (\<forall>buf. readDataPage (walFile (dbWal s)) buf (pageIdxInWAL r) = Inr (c (pageIdxInWAL r)))"
  shows "\<exists>s'. replayAll True True (pageRecs rs) s = Inr s' \<and> dbWal s' = dbWal s \<and> effects s' = effects s \<and>
    (\<forall>sid. dbFile (files s' sid) = fst (fold (viewStep c sid) rs (file_view (files s sid))))"
  using assms
proof (induction rs arbitrary: s)
  case Nil
  then show ?case by (simp add: file_view_def)
next
  case (Cons r rs)
  let ?sid = "storageStructureID r" and ?p = "c (pageIdxInWAL r)"
  let ?s = "s\<lparr>pageBuffer := ?p, files := (files s)(?sid := (files s ?sid)\<lparr>dbFile := (dbFile (files s ?sid))(pageIdxInOriginalFile r \<mapsto> ?p)\<rparr>)\<rparr>"
  have 1: "replayPageRecord True True r s = Inr ?s" using Cons.prems by (intro recoverPage) simp_all
  have "fst (file_view (files ?s sid)) = fst (viewStep c sid r (file_view (files s sid)))" for sid
    by (simp add: viewStep_def file_view_def)
  then have "fst (fold (viewStep c sid) rs (file_view (files ?s sid))) = fst (fold (viewStep c sid) (r # rs) (file_view (files s sid)))" for sid
    using fold_viewStep_fst[of "file_view (files ?s sid)"] by simp
  moreover obtain s' where "replayAll True True (pageRecs rs) ?s = Inr s' \<and> dbWal s' = dbWal ?s \<and> effects s' = effects ?s \<and>
    (\<forall>sid. dbFile (files s' sid) = fst (fold (viewStep c sid) rs (file_view (files ?s sid))))"
    using Cons.IH[of ?s] Cons.prems by fastforce
  ultimately show ?case using 1 by simp
qed

lemma fold_viewStep:
  assumes "\<forall>r \<in> set rs. storageStructureID r = sid \<longrightarrow> pageIdxInWAL r = k (pageIdxInOriginalFile r)"
  defines "upd \<equiv> \<lambda>i. \<exists>r \<in> set rs. storageStructureID r = sid \<and> pageIdxInOriginalFile r = i"
  shows "fold (viewStep c sid) rs (d, v, b, n, x) =
    (\<lambda>i. if upd i then Some (c (k i)) else d i, \<lambda>i. if upd i then None else v i,
     \<lambda>i. if upd i then map_option (\<lambda>_. c (k i)) (b i) else b i, n, x)"
  using assms(1) unfolding upd_def
proof (induction rs arbitrary: d v b)
  case Nil
  then show ?case by simp
next
  case (Cons r rs)
  show ?case
  proof (cases "storageStructureID r = sid")
    case True
    then have "k (pageIdxInOriginalFile r) = pageIdxInWAL r" using Cons.prems by simp
    then show ?thesis using Cons.IH Cons.prems True by (auto simp: viewStep_def fun_eq_iff option.map_comp o_def)
  next
    case False
    then show ?thesis using Cons.IH Cons.prems by (simp add: viewStep_def)
  qed
qed

section \<open>A write transaction\<close>

text \<open>The paged file of a structure together with the log, as the operations of \<open>Storage_Structure\<close> take it.\<close>

definition storageOf :: "'p database \<Rightarrow> StorageStructureID \<Rightarrow> 'p storage" where
  "storageOf db sid = paged_file.extend (files db sid) (storage.fields (dbWal db))"

definition putStorage :: "'p database \<Rightarrow> StorageStructureID \<Rightarrow> 'p storage \<Rightarrow> 'p database" where
  "putStorage db sid st = db\<lparr>files := (files db)(sid := paged_file.truncate st), dbWal := wal st\<rparr>"

lemma storageOf_simps [simp]:
  "vfh (storageOf db sid) = vfh (files db sid)" "dbFile (storageOf db sid) = dbFile (files db sid)"
  "bmFrames (storageOf db sid) = bmFrames (files db sid)" "wal (storageOf db sid) = dbWal db"
  "walPages (storageOf db sid) = numPages (fileHandle (dbWal db))"
  by (simp_all add: storageOf_def paged_file.defs storage.defs walPages_def)

lemma putStorage_simps [simp]:
  "dbWal (putStorage db sid st) = wal st" "effects (putStorage db sid st) = effects db"
  "storageOf (putStorage db sid st) sid = st"
  by (cases st; simp add: putStorage_def storageOf_def paged_file.defs storage.defs)+

lemma putStorage_files: "files (putStorage db sid st) = (files db)(sid := paged_file.truncate st)"
  by (simp add: putStorage_def)

lemma truncate_simps [simp]:
  "vfh (paged_file.truncate st) = vfh st" "dbFile (paged_file.truncate st) = dbFile st" "bmFrames (paged_file.truncate st) = bmFrames st"
  by (simp_all add: paged_file.defs)

text \<open>The pages as the write transaction sees them.\<close>

definition wrView :: "'p database \<Rightarrow> StorageStructureID \<Rightarrow> page_idx \<Rightarrow> 'p option" where
  "wrView db sid = wrPage (storageOf db sid)"

text \<open>
  The state of a transaction that wrote the page records \<open>prs\<close>: every record is the version of a page and every version has a
  record, different records have different log pages, none of which is a header page, and the frames of the log hold these
  pages, all of them dirty.
\<close>

definition txn_inv :: "'p database \<Rightarrow> PageUpdateOrInsertRecord list \<Rightarrow> bool" where
  "txn_inv db prs \<longleftrightarrow>
     (\<exists>cs rs. wal_parts (dbWal db) cs rs \<and> concat (map snd cs) @ rs = pageRecs prs \<and>
        pageIdxInWAL ` set prs \<inter> hdrPages (dbWal db) cs = {}) \<and>
     (\<forall>sid. versionedStructure sid \<longrightarrow> storage_ok {} (storageOf db sid) \<and> sidOf (files db sid) = sid) \<and>
     (\<forall>r \<in> set prs. versionedStructure (storageStructureID r) \<and>
        walVersion (vfh (files db (storageStructureID r))) (pageIdxInOriginalFile r) = Some (pageIdxInWAL r)) \<and>
     (\<forall>sid i. versionedStructure sid \<longrightarrow> walVersion (vfh (files db sid)) i \<noteq> None \<longrightarrow>
        (\<exists>r \<in> set prs. storageStructureID r = sid \<and> pageIdxInOriginalFile r = i)) \<and>
     inj_on pageIdxInWAL (set prs) \<and>
     (\<forall>k p d. walFrames (dbWal db) k = Some (p, d) \<longrightarrow> d \<and> k \<in> pageIdxInWAL ` set prs)"

lemma logPage_parts:
  assumes p: "wal_parts w cs rs" and room: "2 \<le> wal_room w" and a: "addNewWALPage w = (k, w0)" and w1: "w1 = addNewWALRecordNoLock w0 r"
  obtains cs' rs' where "wal_parts w1 cs' rs'" "concat (map snd cs') @ rs' = (concat (map snd cs) @ rs) @ [r]"
    "hdrPages w1 cs' \<subseteq> insert (Suc k) (hdrPages w cs)" "k \<notin> hdrPages w1 cs'" "k = numPages (fileHandle w)"
proof -
  have "0 < wal_room w" using room by simp
  note q = addNewWALPage_props[OF p this a]
  have r1: "0 < wal_room w0" using q(3) room by (simp add: wal_room_def)
  have h: "hdrPages w0 cs = hdrPages w cs" using q(8) by (simp add: hdrPages_def)
  obtain cs' rs' where 1: "wal_parts w1 cs' rs'" "concat (map snd cs') @ rs' = (concat (map snd cs) @ rs) @ [r]"
    "hdrPages w1 cs' \<subseteq> insert (numPages (fileHandle w0)) (hdrPages w0 cs)"
    using addNewWALRecord_parts(1)[OF q(2) r1, of r] w1 by auto
  have "k \<notin> hdrPages w cs" using p q(1) by (auto simp: hdrPages_def wal_parts_def)
  then have "k \<notin> hdrPages w1 cs'" using 1(3) h q(1,3) by auto
  then show thesis using that[OF 1(1,2)] 1(3) h q(1,3) by auto
qed

lemma wal_room_iff: "2 \<le> wal_room w \<longleftrightarrow> numPages (fileHandle w) + 2 \<le> UINT32_MAX"
  by (auto simp: wal_room_def)

lemma txn_invI:
  assumes "wal_parts (dbWal db) cs rs" "concat (map snd cs) @ rs = pageRecs prs" "pageIdxInWAL ` set prs \<inter> hdrPages (dbWal db) cs = {}"
    and "\<And>sid. versionedStructure sid \<Longrightarrow> storage_ok {} (storageOf db sid) \<and> sidOf (files db sid) = sid"
    and "\<And>r. r \<in> set prs \<Longrightarrow> versionedStructure (storageStructureID r) \<and>
      walVersion (vfh (files db (storageStructureID r))) (pageIdxInOriginalFile r) = Some (pageIdxInWAL r)"
    and "\<And>sid i. versionedStructure sid \<Longrightarrow> walVersion (vfh (files db sid)) i \<noteq> None \<Longrightarrow>
      \<exists>r \<in> set prs. storageStructureID r = sid \<and> pageIdxInOriginalFile r = i"
    and "inj_on pageIdxInWAL (set prs)" "\<And>k p d. walFrames (dbWal db) k = Some (p, d) \<Longrightarrow> d \<and> k \<in> pageIdxInWAL ` set prs"
  shows "txn_inv db prs"
proof -
  have 1: "\<exists>cs rs. wal_parts (dbWal db) cs rs \<and> concat (map snd cs) @ rs = pageRecs prs \<and> pageIdxInWAL ` set prs \<inter> hdrPages (dbWal db) cs = {}"
    using assms(1-3) by blast
  have 2: "\<forall>sid. versionedStructure sid \<longrightarrow> storage_ok {} (storageOf db sid) \<and> sidOf (files db sid) = sid" using assms(4) by blast
  have 3: "\<forall>r \<in> set prs. versionedStructure (storageStructureID r) \<and>
      walVersion (vfh (files db (storageStructureID r))) (pageIdxInOriginalFile r) = Some (pageIdxInWAL r)" using assms(5) by blast
  have 4: "\<forall>sid i. versionedStructure sid \<longrightarrow> walVersion (vfh (files db sid)) i \<noteq> None \<longrightarrow>
      (\<exists>r \<in> set prs. storageStructureID r = sid \<and> pageIdxInOriginalFile r = i)" using assms(6) by blast
  have 5: "\<forall>k p d. walFrames (dbWal db) k = Some (p, d) \<longrightarrow> d \<and> k \<in> pageIdxInWAL ` set prs" using assms(8) by blast
  show ?thesis unfolding txn_inv_def by (intro conjI 1 2 3 4 5 assms(7))
qed

lemma txn_invD:
  assumes "txn_inv db prs"
  shows "versionedStructure sid \<Longrightarrow> storage_ok {} (storageOf db sid)" "versionedStructure sid \<Longrightarrow> sidOf (files db sid) = sid"
    "r \<in> set prs \<Longrightarrow> versionedStructure (storageStructureID r)"
    "r \<in> set prs \<Longrightarrow> walVersion (vfh (files db (storageStructureID r))) (pageIdxInOriginalFile r) = Some (pageIdxInWAL r)"
    "versionedStructure sid \<Longrightarrow> walVersion (vfh (files db sid)) i \<noteq> None \<Longrightarrow>
      \<exists>r \<in> set prs. storageStructureID r = sid \<and> pageIdxInOriginalFile r = i"
    "inj_on pageIdxInWAL (set prs)" "walFrames (dbWal db) k = Some (p, d) \<Longrightarrow> d \<and> k \<in> pageIdxInWAL ` set prs"
  using assms unfolding txn_inv_def by blast+

lemma txn_inv_version:
  assumes inv: "txn_inv db prs" and sid: "versionedStructure sid" and v: "walVersion (vfh (files db sid)) i = Some k"
  shows "\<exists>r \<in> set prs. storageStructureID r = sid \<and> pageIdxInOriginalFile r = i \<and> pageIdxInWAL r = k"
    "k < numPages (fileHandle (dbWal db))" "\<exists>p. walFrames (dbWal db) k = Some (p, True)" "i < numPages (vfh (files db sid))"
    "versionedStructure sid' \<Longrightarrow> walVersion (vfh (files db sid')) j = Some k \<Longrightarrow> sid' = sid \<and> j = i"
proof -
  have ok: "storage_ok {} (storageOf db sid)" using inv sid by (simp add: txn_inv_def)
  have v': "walVersion (vfh (storageOf db sid)) i = Some k" using v by simp
  note o = storage_ok_version[OF ok v']
  show "k < numPages (fileHandle (dbWal db))" "i < numPages (vfh (files db sid))" using o(1,2) by simp_all
  obtain x where "walFrames (dbWal db) k = Some x" using o(3) by auto
  then show "\<exists>p. walFrames (dbWal db) k = Some (p, True)" using txn_invD(7)[OF inv, of k "fst x" "snd x"] by (cases x) simp
  have rec: "\<exists>r \<in> set prs. storageStructureID r = sid' \<and> pageIdxInOriginalFile r = j \<and> pageIdxInWAL r = k"
    if "versionedStructure sid'" "walVersion (vfh (files db sid')) j = Some k" for sid' j
    using txn_invD(5)[OF inv that(1), of j] txn_invD(4)[OF inv] that(2) by fastforce
  show "\<exists>r \<in> set prs. storageStructureID r = sid \<and> pageIdxInOriginalFile r = i \<and> pageIdxInWAL r = k" by (rule rec[OF sid v])
  assume "versionedStructure sid'" "walVersion (vfh (files db sid')) j = Some k"
  then show "sid' = sid \<and> j = i" using rec rec[OF sid v] txn_invD(6)[OF inv] by (metis inj_onD)
qed

lemma storage_ok_wal:
  assumes "storage_ok L st" "fh_inv (fileHandle w)" "numPages (fileHandle (wal st)) \<le> numPages (fileHandle w)"
    and "\<forall>k. walFrames (wal st) k \<noteq> None \<longrightarrow> walFrames w k \<noteq> None"
  shows "storage_ok L (st\<lparr>wal := w\<rparr>)"
proof -
  have "w' < numPages (fileHandle w)" if "walVersion (vfh st) i = Some w'" for i w'
    using storage_ok_version(2)[OF assms(1) that] assms(3) by (simp add: walPages_def)
  then show ?thesis using assms unfolding storage_ok_def by simp
qed

lemma storageOf_put_other: "sid' \<noteq> sid \<Longrightarrow> storageOf (putStorage db sid st) sid' = (storageOf db sid')\<lparr>wal := wal st\<rparr>"
  by (simp add: storageOf_def putStorage_def paged_file.defs storage.defs)

text \<open>A step that logs a new record.\<close>

lemma txn_inv_log:
  assumes inv: "txn_inv db prs" and sid: "versionedStructure sid" and new: "walVersion (vfh (files db sid)) i = None"
    and room: "numPages (fileHandle (dbWal db)) + 2 \<le> UINT32_MAX"
    and lg: "addNewWALPage (dbWal db) = (k, w0)" "w1 = addNewWALRecordNoLock w0 (PAGE_UPDATE_OR_INSERT_RECORD r)"
    and r: "storageStructureID r = sid" "pageIdxInOriginalFile r = i" "pageIdxInWAL r = k"
    and st: "storage_ok {} st" "sidOf st = sid" "walVersion (vfh st) = (walVersion (vfh (files db sid)))(i \<mapsto> k)"
      "wal st = w1\<lparr>walFrames := (walFrames (dbWal db))(k \<mapsto> (p, True))\<rparr>"
  shows "txn_inv (putStorage db sid st) (prs @ [r])"
    "versionedStructure sid' \<Longrightarrow> sid' \<noteq> sid \<Longrightarrow> wrView (putStorage db sid st) sid' = wrView db sid'"
proof -
  let ?db = "putStorage db sid st"
  obtain cs rs where p: "wal_parts (dbWal db) cs rs" "concat (map snd cs) @ rs = pageRecs prs"
    "pageIdxInWAL ` set prs \<inter> hdrPages (dbWal db) cs = {}"
    using inv by (auto simp: txn_inv_def)
  have fhw: "fh_inv (fileHandle (dbWal db))" using p(1) by (simp add: wal_parts_def)
  obtain cs' rs' where p': "wal_parts w1 cs' rs'" "concat (map snd cs') @ rs' = (concat (map snd cs) @ rs) @ [PAGE_UPDATE_OR_INSERT_RECORD r]"
    "hdrPages w1 cs' \<subseteq> insert (Suc k) (hdrPages (dbWal db) cs)" "k \<notin> hdrPages w1 cs'" "k = numPages (fileHandle (dbWal db))"
    by (rule logPage_parts[OF p(1) _ lg]) (use room wal_room_iff in blast)
  note e = logPage_effect[OF fhw room lg]
  have old: "pageIdxInWAL q < k" if "q \<in> set prs" for q
    using txn_inv_version(2)[OF inv, of "storageStructureID q" "pageIdxInOriginalFile q" "pageIdxInWAL q"] txn_invD(3,4)[OF inv that] p'(5) by simp
  have hd: "hdrPages (wal st) cs' = hdrPages w1 cs'" by (simp add: st(4) hdrPages_def)
  have "pageIdxInWAL q \<notin> hdrPages w1 cs'" if "q \<in> set prs" for q using p'(3) p(3) old[OF that] that by fastforce
  then have A: "pageIdxInWAL ` set (prs @ [r]) \<inter> hdrPages (wal st) cs' = {}" using p'(4) r(3) hd by auto
  have B: "wal_parts (wal st) cs' rs'" "concat (map snd cs') @ rs' = pageRecs (prs @ [r])" using p' p(2) by (simp_all add: st(4))
  have C: "storage_ok {} (storageOf ?db s) \<and> sidOf (files ?db s) = s" if s: "versionedStructure s" for s
  proof (cases "s = sid")
    case True
    then show ?thesis using st(1,2) by (simp add: putStorage_files)
  next
    case False
    have "storage_ok {} ((storageOf db s)\<lparr>wal := wal st\<rparr>)"
      by (rule storage_ok_wal) (use txn_invD(1)[OF inv s] e in \<open>auto simp: st(4)\<close>)
    then show ?thesis using False txn_invD(2)[OF inv s] by (simp add: storageOf_put_other putStorage_files)
  qed
  have D: "versionedStructure (storageStructureID q) \<and>
      walVersion (vfh (files ?db (storageStructureID q))) (pageIdxInOriginalFile q) = Some (pageIdxInWAL q)" if "q \<in> set (prs @ [r])" for q
  proof (cases "q = r")
    case True
    then show ?thesis using r sid st(3) by (simp add: putStorage_files)
  next
    case False
    then have q: "versionedStructure (storageStructureID q)"
      "walVersion (vfh (files db (storageStructureID q))) (pageIdxInOriginalFile q) = Some (pageIdxInWAL q)"
      using that txn_invD(3,4)[OF inv, of q] by auto
    then show ?thesis using st(3) new by (auto simp: putStorage_files)
  qed
  have E: "\<exists>q \<in> set (prs @ [r]). storageStructureID q = s \<and> pageIdxInOriginalFile q = j"
    if "versionedStructure s" "walVersion (vfh (files ?db s)) j \<noteq> None" for s j
  proof (cases "s = sid \<and> j = i")
    case True
    then show ?thesis using r by auto
  next
    case False
    then have "walVersion (vfh (files db s)) j \<noteq> None" using that(2) st(3) by (auto simp: putStorage_files split: if_splits)
    then show ?thesis using txn_invD(5)[OF inv that(1)] by auto
  qed
  have "pageIdxInWAL r \<notin> pageIdxInWAL ` set prs" using old r(3) by fastforce
  then have F: "inj_on pageIdxInWAL (set (prs @ [r]))" using txn_invD(6)[OF inv] by (auto simp: inj_on_insert)
  have G: "d \<and> j \<in> pageIdxInWAL ` set (prs @ [r])" if "walFrames (wal st) j = Some (q, d)" for j q d
    using that txn_invD(7)[OF inv, of j q d] r(3) by (auto simp: st(4) split: if_splits)
  have dw: "wal st = dbWal ?db" by simp
  show "txn_inv ?db (prs @ [r])"
    by (rule txn_invI[where cs = cs' and rs = rs', OF B(1)[unfolded dw] B(2) A[unfolded dw] C D E F G[unfolded dw]])
  assume s: "versionedStructure sid'" "sid' \<noteq> sid"
  show "wrView ?db sid' = wrView db sid'"
  proof
    fix j
    show "wrView ?db sid' j = wrView db sid' j"
    proof (cases "walVersion (vfh (files db sid')) j")
      case (Some w)
      then have "w \<noteq> k" using txn_inv_version(2)[OF inv s(1) Some] p'(5) by simp
      then show ?thesis using Some s(2) by (simp add: wrView_def storageOf_put_other wrPage_def frameContent_def st(4))
    qed (use s(2) in \<open>simp add: wrView_def storageOf_put_other wrPage_def\<close>)
  qed
qed

text \<open>A step that changes a page with a version.\<close>

lemma txn_inv_change:
  assumes inv: "txn_inv db prs" and sid: "versionedStructure sid" and v: "walVersion (vfh (files db sid)) i = Some w"
    and st: "storage_ok {} st" "sidOf st = sid" "walVersion (vfh st) = walVersion (vfh (files db sid))"
      "wal st = (dbWal db)\<lparr>walFrames := (walFrames (dbWal db))(w := map_option (map_prod f id) (walFrames (dbWal db) w))\<rparr>"
  shows "txn_inv (putStorage db sid st) prs"
    "versionedStructure sid' \<Longrightarrow> sid' \<noteq> sid \<Longrightarrow> wrView (putStorage db sid st) sid' = wrView db sid'"
proof -
  let ?db = "putStorage db sid st"
  obtain cs rs where p: "wal_parts (dbWal db) cs rs" "concat (map snd cs) @ rs = pageRecs prs"
    "pageIdxInWAL ` set prs \<inter> hdrPages (dbWal db) cs = {}"
    using inv by (auto simp: txn_inv_def)
  have dw: "wal st = dbWal ?db" by simp
  have A: "wal_parts (dbWal ?db) cs rs" "hdrPages (dbWal ?db) cs = hdrPages (dbWal db) cs"
    using p(1) by (simp_all add: st(4) hdrPages_def)
  have vs: "walVersion (vfh (files ?db s)) = walVersion (vfh (files db s))" for s using st(3) by (simp add: putStorage_files)
  have C: "storage_ok {} (storageOf ?db s) \<and> sidOf (files ?db s) = s" if s: "versionedStructure s" for s
  proof (cases "s = sid")
    case True
    then show ?thesis using st(1,2) by (simp add: putStorage_files)
  next
    case False
    have fh: "fh_inv (fileHandle (dbWal db))" using p(1) by (simp add: wal_parts_def)
    have "storage_ok {} ((storageOf db s)\<lparr>wal := wal st\<rparr>)"
      by (rule storage_ok_wal) (use txn_invD(1)[OF inv s] fh in \<open>auto simp: st(4)\<close>)
    then show ?thesis using False txn_invD(2)[OF inv s] by (simp add: storageOf_put_other putStorage_files)
  qed
  have G: "d \<and> j \<in> pageIdxInWAL ` set prs" if "walFrames (dbWal ?db) j = Some (q, d)" for j q d
    using that txn_invD(7)[OF inv, of j _ d] by (auto simp: st(4) split: if_splits)
  show "txn_inv ?db prs"
    by (rule txn_invI[where cs = cs and rs = rs, OF A(1) p(2) _ C _ _ txn_invD(6)[OF inv] G])
      (use p(3) A(2) txn_invD(3,4,5)[OF inv] in \<open>simp_all add: vs\<close>)
  assume s: "versionedStructure sid'" "sid' \<noteq> sid"
  show "wrView ?db sid' = wrView db sid'"
  proof
    fix j
    show "wrView ?db sid' j = wrView db sid' j"
    proof (cases "walVersion (vfh (files db sid')) j")
      case (Some k)
      then have "k \<noteq> w" using txn_inv_version(5)[OF inv sid v s(1)] s(2) by auto
      then show ?thesis using Some s(2) by (simp add: wrView_def storageOf_put_other wrPage_def frameContent_def st(4))
    qed (use s(2) in \<open>simp add: wrView_def storageOf_put_other wrPage_def\<close>)
  qed
qed

datatype 'p page_op = UpdatePage StorageStructureID page_idx "'p \<Rightarrow> 'p" | AddPage StorageStructureID

fun runOp :: "'p \<Rightarrow> 'p page_op \<Rightarrow> 'p database \<Rightarrow> 'p database result" where
  "runOp junk (UpdatePage sid i f) db = bind_result (updatePage junk (storageOf db sid) i False f) (\<lambda>st. Inr (putStorage db sid st))"
| "runOp junk (AddPage sid) db = bind_result (addNewPageToFileHandle junk (storageOf db sid)) (\<lambda>st. Inr (putStorage db sid st))"

text \<open>The same on the contents of the pages and the number of pages of every file.\<close>

type_synonym 'p pages_view = "StorageStructureID \<Rightarrow> (page_idx \<Rightarrow> 'p option) \<times> nat"

fun absOp :: "'p \<Rightarrow> 'p page_op \<Rightarrow> 'p pages_view \<Rightarrow> 'p pages_view" where
  "absOp junk (UpdatePage sid i f) m = m(sid := ((fst (m sid))(i := map_option f (fst (m sid) i)), snd (m sid)))"
| "absOp junk (AddPage sid) m = m(sid := ((fst (m sid))(snd (m sid) \<mapsto> junk), Suc (snd (m sid))))"

fun opOk :: "'p page_op \<Rightarrow> 'p pages_view \<Rightarrow> bool" where
  "opOk (UpdatePage sid i f) m \<longleftrightarrow> versionedStructure sid \<and> i < snd (m sid) \<and> fst (m sid) i \<noteq> None"
| "opOk (AddPage sid) m \<longleftrightarrow> versionedStructure sid \<and> snd (m sid) < UINT32_MAX"

definition txnView :: "'p database \<Rightarrow> 'p pages_view" where
  "txnView db sid = (wrView db sid, numPages (vfh (files db sid)))"

definition diskView :: "'p database \<Rightarrow> 'p pages_view" where
  "diskView db sid = (dbFile (files db sid), numPages (vfh (files db sid)))"

definition sameOn :: "'p pages_view \<Rightarrow> 'p pages_view \<Rightarrow> bool" where
  "sameOn m m' \<longleftrightarrow> (\<forall>sid. versionedStructure sid \<longrightarrow> m sid = m' sid)"

lemma lists_simps [simp]:
  "addNewWALPage w = (k, w0) \<Longrightarrow> updatedUnstructuredPropertyLists w0 = updatedUnstructuredPropertyLists w"
  "updatedUnstructuredPropertyLists (addNewWALRecordNoLock w r) = updatedUnstructuredPropertyLists w"
  by (auto simp: addNewWALPage_def addNewWALRecordNoLock_def writeWALRecordToBytes_def incrementNumRecordsInCurrentHeaderPage_def
      startNextHeaderPage_def resetCurrentHeaderPagePrefix_def writeHeaderPage_def setNextHeaderPageOfCurrentHeaderPage_def Let_def split: prod.splits)

text \<open>What a step of a transaction keeps.\<close>

definition txn_step_ok :: "'p database \<Rightarrow> 'p database \<Rightarrow> bool" where
  "txn_step_ok db db' \<longleftrightarrow> (\<forall>sid. dbFile (files db' sid) = dbFile (files db sid)) \<and> effects db' = effects db \<and>
     updatedUnstructuredPropertyLists (dbWal db') = updatedUnstructuredPropertyLists (dbWal db) \<and>
     numPages (fileHandle (dbWal db')) \<le> numPages (fileHandle (dbWal db)) + 2"

text \<open>
  The frames of the file's own pages hold the file's content, which is what the read transactions see, and the pages that
  the transaction added are those past the \<open>n0\<close> pages the file had before.
\<close>

definition txn_extra :: "(StorageStructureID \<Rightarrow> nat) \<Rightarrow> 'p database \<Rightarrow> PageUpdateOrInsertRecord list \<Rightarrow> bool" where
  "txn_extra n0 db prs \<longleftrightarrow> (\<forall>sid. versionedStructure sid \<longrightarrow>
     (\<forall>i p. bmFrames (files db sid) i = Some p \<longrightarrow> dbFile (files db sid) i = Some p) \<and> n0 sid \<le> numPages (vfh (files db sid)) \<and>
     pageIdxInOriginalFile ` {r \<in> set prs. storageStructureID r = sid \<and> isInsert r} = {n0 sid..<numPages (vfh (files db sid))})"

lemma txn_extra_update:
  assumes "txn_extra n0 db prs" "versionedStructure sid" "numPages (vfh st) = numPages (vfh (files db sid))" "dbFile st = dbFile (files db sid)"
    and "\<forall>i p. bmFrames st i = Some p \<longrightarrow> dbFile st i = Some p" "prs' = prs \<or> (\<exists>r. prs' = prs @ [r] \<and> \<not> isInsert r)"
  shows "txn_extra n0 (putStorage db sid st) prs'"
proof -
  have "{r \<in> set prs'. storageStructureID r = s \<and> isInsert r} = {r \<in> set prs. storageStructureID r = s \<and> isInsert r}" for s using assms(6) by auto
  then show ?thesis using assms(1-5) by (simp add: txn_extra_def putStorage_files)
qed

lemma txn_extra_insert:
  assumes "txn_extra n0 db prs" "versionedStructure sid" "numPages (vfh st) = Suc (numPages (vfh (files db sid)))" "dbFile st = dbFile (files db sid)"
    and "bmFrames st = bmFrames (files db sid)" "storageStructureID r = sid" "pageIdxInOriginalFile r = numPages (vfh (files db sid))" "isInsert r"
  shows "txn_extra n0 (putStorage db sid st) (prs @ [r])"
proof -
  have "{q \<in> set (prs @ [r]). storageStructureID q = s \<and> isInsert q} =
    (if s = sid then insert r else id) {q \<in> set prs. storageStructureID q = s \<and> isInsert q}" for s using assms(6,8) by auto
  moreover have "n0 sid \<le> numPages (vfh (files db sid))" using assms(1,2) by (simp add: txn_extra_def)
  ultimately show ?thesis using assms(1-5,7) by (simp add: txn_extra_def putStorage_files atLeastLessThanSuc le_SucI)
qed

lemma updateOp_props:
  assumes inv: "txn_inv db prs" and op: "opOk (UpdatePage sid i f) (txnView db)" and room: "numPages (fileHandle (dbWal db)) + 2 \<le> UINT32_MAX"
    and ex: "txn_extra n0 db prs"
  shows "\<exists>db' prs'. runOp junk (UpdatePage sid i f) db = Inr db' \<and> txn_inv db' prs' \<and>
    sameOn (txnView db') (absOp junk (UpdatePage sid i f) (txnView db)) \<and> txn_step_ok db db' \<and> txn_extra n0 db' prs' \<and>
    length prs' \<le> Suc (length prs)"
proof -
  let ?st = "storageOf db sid"
  obtain p where sid: "versionedStructure sid" and i: "i < numPages (vfh ?st)" and p: "wrPage ?st i = Some p"
    using op by (auto simp: txnView_def wrView_def)
  have ok: "storage_ok {} ?st" by (rule txn_invD(1)[OF inv sid])
  have pc: "pinnedContent junk ?st i False = Some p" using p by (simp add: pinnedContent_def)
  have rm: "walPages ?st + 2 \<le> UINT32_MAX" using room by simp
  obtain st w where 1: "updatePage junk ?st i False f = Inr st" "storage_ok {} st" "wrPage st = (wrPage ?st)(i \<mapsto> f p)"
    "walVersion (vfh st) = (walVersion (vfh ?st))(i \<mapsto> w)" "dbFile st = dbFile ?st" "numPages (vfh st) = numPages (vfh ?st)"
    "walPages st \<le> walPages ?st + 2" "sidOf st = sidOf ?st" "w = (case walVersion (vfh ?st) i of Some w' \<Rightarrow> w' | None \<Rightarrow> walPages ?st)"
    "wal st = (versionedWAL ?st i p)\<lparr>walFrames := (walFrames (versionedWAL ?st i p))
                (w := map_option (map_prod f id) (walFrames (versionedWAL ?st i p) w))\<rparr>"
    "bmFrames st = (if walVersion (vfh ?st) i = None then (bmFrames ?st)(i \<mapsto> p) else bmFrames ?st)"
    by (rule updatePage_props[OF ok i _ pc rm, where f = f, OF empty_iff[THEN iffD1, THEN notI]]) assumption+
  have sd: "sidOf st = sid" using 1(8) txn_invD(2)[OF inv sid] by simp
  let ?db = "putStorage db sid st"
  have "\<exists>prs'. txn_inv ?db prs' \<and> (prs' = prs \<or> (\<exists>r. prs' = prs @ [r] \<and> \<not> isInsert r)) \<and> updatedUnstructuredPropertyLists (wal st) = updatedUnstructuredPropertyLists (dbWal db) \<and>
    (\<forall>s. versionedStructure s \<longrightarrow> s \<noteq> sid \<longrightarrow> wrView ?db s = wrView db s)"
  proof (cases "walVersion (vfh (files db sid)) i")
    case (Some k)
    then have w: "w = k" "walVersion (vfh st) = walVersion (vfh (files db sid))" using 1(4,9) by (simp_all add: fun_upd_idem)
    have ws: "wal st = (dbWal db)\<lparr>walFrames := (walFrames (dbWal db))(k := map_option (map_prod f id) (walFrames (dbWal db) k))\<rparr>"
      using 1(10) Some w(1) by (simp add: versionedWAL_def)
    note c = txn_inv_change[OF inv sid Some 1(2) sd w(2) ws]
    show ?thesis using c ws by (intro exI[of _ prs]) auto
  next
    case None
    have w: "w = walPages ?st" using 1(9) None by simp
    obtain k w1 where lg: "logPageUpdateRecord (dbWal db) (sidOf ?st) i = (k, w1)" by fastforce
    obtain w0 where w0: "addNewWALPage (dbWal db) = (k, w0)" "w1 = addNewWALRecordNoLock w0 (newPageUpdateRecord (sidOf ?st) i k)"
      using logPageRecord_calls(1)[OF lg] by blast
    have fhw: "fh_inv (fileHandle (dbWal db))" using ok by (simp add: storage_ok_def)
    have k: "k = w" using logPage_effect(1)[OF fhw room w0] w by simp
    define r where "r = \<lparr>storageStructureID = sid, pageIdxInOriginalFile = i, pageIdxInWAL = k, isInsert = False\<rparr>"
    have r: "newPageUpdateRecord (sidOf ?st) i k = PAGE_UPDATE_OR_INSERT_RECORD r"
      using txn_invD(2)[OF inv sid] by (simp add: newPageUpdateRecord_def newPageInsertOrUpdateRecord_def r_def)
    have ws: "wal st = w1\<lparr>walFrames := (walFrames (dbWal db))(k \<mapsto> (f p, True))\<rparr>"
      using 1(10) None lg w k by (simp add: versionedWAL_def)
    have vs: "walVersion (vfh st) = (walVersion (vfh (files db sid)))(i \<mapsto> k)" using 1(4) k by simp
    note c = txn_inv_log[OF inv sid None room w0(1) w0(2)[unfolded r] _ _ _ 1(2) sd vs ws]
    show ?thesis using c w0 by (intro exI[of _ "prs @ [r]"]) (simp add: r_def ws)
  qed
  then obtain prs' where 2: "txn_inv ?db prs'" "updatedUnstructuredPropertyLists (wal st) = updatedUnstructuredPropertyLists (dbWal db)"
    "\<forall>s. versionedStructure s \<longrightarrow> s \<noteq> sid \<longrightarrow> wrView ?db s = wrView db s"
    "prs' = prs \<or> (\<exists>r. prs' = prs @ [r] \<and> \<not> isInsert r)" by blast
  have "wrView ?db sid = (wrView db sid)(i \<mapsto> f p)" using 1(3) by (simp add: wrView_def)
  then have "sameOn (txnView ?db) (absOp junk (UpdatePage sid i f) (txnView db))"
    using 2(3) 1(6) p by (auto simp: sameOn_def txnView_def putStorage_files wrView_def)
  moreover have "txn_step_ok db ?db" using 1(5,7) 2(2) by (auto simp: txn_step_ok_def putStorage_files walPages_def)
  moreover have "\<forall>j q. bmFrames st j = Some q \<longrightarrow> dbFile st j = Some q"
    using 1(5,11) ex sid p by (auto simp: txn_extra_def wrPage_def split: if_splits option.splits)
  then have "txn_extra n0 ?db prs'" using txn_extra_update[OF ex sid _ _ _ 2(4)] 1(5,6) by simp
  moreover have "length prs' \<le> Suc (length prs)" using 2(4) by auto
  ultimately show ?thesis using 1(1) 2(1) by (intro exI[of _ ?db] exI[of _ prs']) simp
qed

lemma addOp_props:
  assumes inv: "txn_inv db prs" and op: "opOk (AddPage sid) (txnView db)" and room: "numPages (fileHandle (dbWal db)) + 2 \<le> UINT32_MAX"
    and ex: "txn_extra n0 db prs"
  shows "\<exists>db' prs'. runOp junk (AddPage sid) db = Inr db' \<and> txn_inv db' prs' \<and>
    sameOn (txnView db') (absOp junk (AddPage sid) (txnView db)) \<and> txn_step_ok db db' \<and> txn_extra n0 db' prs' \<and>
    length prs' \<le> Suc (length prs)"
proof -
  let ?st = "storageOf db sid" and ?i = "numPages (vfh (files db sid))"
  have sid: "versionedStructure sid" and small: "numPages (vfh ?st) < UINT32_MAX" using op by (simp_all add: txnView_def)
  have ok: "storage_ok {} ?st" by (rule txn_invD(1)[OF inv sid])
  have rm: "walPages ?st + 2 \<le> UINT32_MAX" using room by simp
  have free: "walFrames (wal ?st) (walPages ?st) = None"
  proof (cases "walFrames (dbWal db) (numPages (fileHandle (dbWal db)))")
    case (Some x)
    then obtain q where q: "q \<in> set prs" "pageIdxInWAL q = numPages (fileHandle (dbWal db))"
      using txn_invD(7)[OF inv, of _ "fst x" "snd x"] by (metis imageE prod.collapse)
    then show ?thesis using txn_inv_version(2)[OF inv txn_invD(3,4)[OF inv q(1)]] by simp
  qed simp
  obtain st where 1: "addNewPageToFileHandle junk ?st = Inr st" "storage_ok {} st" "numPages (vfh st) = Suc (numPages (vfh ?st))"
    "walVersion (vfh st) = (walVersion (vfh ?st))(numPages (vfh ?st) \<mapsto> walPages ?st)" "dbFile st = dbFile ?st" "sidOf st = sidOf ?st"
    "wrPage st = (wrPage ?st)(numPages (vfh ?st) \<mapsto> junk)" "bmFrames st = bmFrames ?st"
    "wal st = (snd (logPageInsertRecord (wal ?st) (sidOf ?st) (numPages (vfh ?st))))\<lparr>walFrames := (walFrames (wal ?st))(walPages ?st \<mapsto> (junk, True))\<rparr>"
    by (rule addNewPageToFileHandle_props[OF ok small rm free])
  have sd: "sidOf st = sid" using 1(6) txn_invD(2)[OF inv sid] by simp
  let ?db = "putStorage db sid st"
  obtain k w1 where lg: "logPageInsertRecord (dbWal db) (sidOf ?st) ?i = (k, w1)" by fastforce
  obtain w0 where w0: "addNewWALPage (dbWal db) = (k, w0)" "w1 = addNewWALRecordNoLock w0 (newPageInsertRecord (sidOf ?st) ?i k)"
    using logPageRecord_calls(2)[OF lg] by blast
  have fhw: "fh_inv (fileHandle (dbWal db))" using ok by (simp add: storage_ok_def)
  note e = logPage_effect[OF fhw room w0]
  define r where "r = \<lparr>storageStructureID = sid, pageIdxInOriginalFile = ?i, pageIdxInWAL = k, isInsert = True\<rparr>"
  have r: "newPageInsertRecord (sidOf ?st) ?i k = PAGE_UPDATE_OR_INSERT_RECORD r"
    using txn_invD(2)[OF inv sid] by (simp add: newPageInsertRecord_def newPageInsertOrUpdateRecord_def r_def)
  have ws: "wal st = w1\<lparr>walFrames := (walFrames (dbWal db))(k \<mapsto> (junk, True))\<rparr>" using 1(9) lg e(1) by simp
  have vs: "walVersion (vfh st) = (walVersion (vfh (files db sid)))(?i \<mapsto> k)" using 1(4) e(1) by simp
  have new: "walVersion (vfh (files db sid)) ?i = None" using txn_inv_version(4)[OF inv sid] by fastforce
  note c = txn_inv_log[OF inv sid new room w0(1) w0(2)[unfolded r] _ _ _ 1(2) sd vs ws]
  have 2: "txn_inv ?db (prs @ [r])" "\<forall>s. versionedStructure s \<longrightarrow> s \<noteq> sid \<longrightarrow> wrView ?db s = wrView db s" using c by (simp_all add: r_def)
  have "wrView ?db sid = (wrView db sid)(?i \<mapsto> junk)" using 1(7) by (simp add: wrView_def)
  then have "sameOn (txnView ?db) (absOp junk (AddPage sid) (txnView db))"
    using 2(2) 1(3) by (auto simp: sameOn_def txnView_def putStorage_files)
  moreover have "txn_step_ok db ?db" using 1(5) e(5) w0 by (auto simp: txn_step_ok_def putStorage_files ws)
  moreover have "txn_extra n0 ?db (prs @ [r])" using txn_extra_insert[OF ex sid] 1(3,5,8) by (simp add: r_def)
  ultimately show ?thesis using 1(1) 2(1) by (intro exI[of _ ?db] exI[of _ "prs @ [r]"]) simp
qed

fun runOps :: "'p \<Rightarrow> 'p page_op list \<Rightarrow> 'p database \<Rightarrow> 'p database result" where
  "runOps junk [] db = Inr db"
| "runOps junk (op # ops) db = bind_result (runOp junk op db) (runOps junk ops)"

fun opsOk :: "'p \<Rightarrow> 'p page_op list \<Rightarrow> 'p pages_view \<Rightarrow> bool" where
  "opsOk junk [] m \<longleftrightarrow> True"
| "opsOk junk (op # ops) m \<longleftrightarrow> opOk op m \<and> opsOk junk ops (absOp junk op m)"

lemma sameOn_simps: "sameOn m m" "sameOn m m' \<Longrightarrow> sameOn m' m" "sameOn m m' \<Longrightarrow> sameOn m' m'' \<Longrightarrow> sameOn m m''"
  by (simp_all add: sameOn_def)

lemma sameOn_absOp: "sameOn m m' \<Longrightarrow> opOk op m \<Longrightarrow> sameOn (absOp junk op m) (absOp junk op m')"
  by (cases op) (auto simp: sameOn_def)

lemma sameOn_opOk: "sameOn m m' \<Longrightarrow> opOk op m = opOk op m'"
  by (cases op) (auto simp: sameOn_def)

lemma sameOn_opsOk: "sameOn m m' \<Longrightarrow> opsOk junk ops m \<Longrightarrow> opsOk junk ops m' \<and> sameOn (fold (absOp junk) ops m) (fold (absOp junk) ops m')"
proof (induction ops arbitrary: m m')
  case (Cons op ops)
  have "opOk op m" "opsOk junk ops (absOp junk op m)" using Cons.prems(2) by simp_all
  then show ?case using Cons.IH[OF sameOn_absOp[OF Cons.prems(1), of op junk]] sameOn_opOk[OF Cons.prems(1), of op] by simp
qed simp

lemma runOp_props:
  assumes "txn_inv db prs" "opOk op (txnView db)" "numPages (fileHandle (dbWal db)) + 2 \<le> UINT32_MAX"
    and "txn_extra n0 db prs"
  shows "\<exists>db' prs'. runOp junk op db = Inr db' \<and> txn_inv db' prs' \<and> sameOn (txnView db') (absOp junk op (txnView db)) \<and> txn_step_ok db db' \<and>
    txn_extra n0 db' prs' \<and> length prs' \<le> Suc (length prs)"
proof (cases op)
  case (UpdatePage sid i f)
  show ?thesis unfolding UpdatePage by (rule updateOp_props[OF assms(1) assms(2)[unfolded UpdatePage] assms(3,4)])
next
  case (AddPage sid)
  show ?thesis unfolding AddPage by (rule addOp_props[OF assms(1) assms(2)[unfolded AddPage] assms(3,4)])
qed

lemma runOps_props:
  assumes "txn_inv db prs" "opsOk junk ops (txnView db)" "numPages (fileHandle (dbWal db)) + 2 * length ops \<le> UINT32_MAX"
    and "txn_extra n0 db prs"
  shows "\<exists>db' prs'. runOps junk ops db = Inr db' \<and> txn_inv db' prs' \<and> sameOn (txnView db') (fold (absOp junk) ops (txnView db)) \<and>
    (\<forall>sid. dbFile (files db' sid) = dbFile (files db sid)) \<and> effects db' = effects db \<and>
    updatedUnstructuredPropertyLists (dbWal db') = updatedUnstructuredPropertyLists (dbWal db) \<and>
    numPages (fileHandle (dbWal db')) \<le> numPages (fileHandle (dbWal db)) + 2 * length ops \<and> txn_extra n0 db' prs' \<and>
    length prs' \<le> length prs + length ops"
  using assms
proof (induction ops arbitrary: db prs)
  case Nil
  then show ?case using sameOn_simps(1) by auto
next
  case (Cons op ops)
  obtain db1 prs1 where 1: "runOp junk op db = Inr db1" "txn_inv db1 prs1" "sameOn (txnView db1) (absOp junk op (txnView db))" "txn_step_ok db db1"
    "txn_extra n0 db1 prs1" "length prs1 \<le> Suc (length prs)"
  proof -
    have "opOk op (txnView db)" "numPages (fileHandle (dbWal db)) + 2 \<le> UINT32_MAX" using Cons.prems(2,3) by simp_all
    then show thesis using runOp_props[OF Cons.prems(1) _ _ Cons.prems(4), of op junk] that by blast
  qed
  note o = sameOn_opsOk[OF sameOn_simps(2)[OF 1(3)], of junk ops]
  have ok: "opsOk junk ops (txnView db1)" and eq: "sameOn (fold (absOp junk) ops (absOp junk op (txnView db))) (fold (absOp junk) ops (txnView db1))"
    using o Cons.prems(2) by simp_all
  have room: "numPages (fileHandle (dbWal db1)) + 2 * length ops \<le> UINT32_MAX"
    and n1: "numPages (fileHandle (dbWal db1)) \<le> numPages (fileHandle (dbWal db)) + 2" using Cons.prems(3) 1(4) by (simp_all add: txn_step_ok_def)
  obtain db2 prs2 where 2: "runOps junk ops db1 = Inr db2" "txn_inv db2 prs2" "sameOn (txnView db2) (fold (absOp junk) ops (txnView db1))"
    "\<forall>sid. dbFile (files db2 sid) = dbFile (files db1 sid)" "effects db2 = effects db1"
    "updatedUnstructuredPropertyLists (dbWal db2) = updatedUnstructuredPropertyLists (dbWal db1)"
    "numPages (fileHandle (dbWal db2)) \<le> numPages (fileHandle (dbWal db1)) + 2 * length ops" "txn_extra n0 db2 prs2" "length prs2 \<le> length prs1 + length ops"
    using Cons.IH[OF 1(2) ok room 1(5)] by blast
  have "sameOn (txnView db2) (fold (absOp junk) (op # ops) (txnView db))" using sameOn_simps(3)[OF 2(3) sameOn_simps(2)[OF eq]] by simp
  then show ?case using 1(1,4,6) 2 n1 by (intro exI[of _ db2] exI[of _ prs2]) (simp add: txn_step_ok_def)
qed

section \<open>Commit\<close>

lemma clearWAL_props:
  obtains w' where "clearWAL n w = Inr w'" "wal_rep w' []" "wal_room w' = UINT32_MAX - 1"
    "walFrames w' = (\<lambda>i. if i < numPages (fileHandle w) then None else walFrames w i)"
    "updatedUnstructuredPropertyLists w' = updatedUnstructuredPropertyLists w"
proof -
  obtain w' where 1: "clearWAL n w = Inr w'" "wal_rep w' []" "wal_room w' = UINT32_MAX - 1"
    "walFrames w' = (\<lambda>i. if i < numPages (fileHandle w) then None else walFrames w i)"
    unfolding clearWAL_def using initCurrentPage_empty[of "w\<lparr>walFrames := _, fileHandle :=
        resetToZeroPagesAndPageCapacity (fileHandle w), walFile := emptyFile\<rparr>" n]
    by (auto simp: resetToZero_inv)
  then have "updatedUnstructuredPropertyLists w' = updatedUnstructuredPropertyLists w"
    by (auto simp: clearWAL_def initCurrentPage_def resetCurrentHeaderPagePrefix_def addNewWALPage_def split: prod.splits)
  then show thesis using that 1 by blast
qed

text \<open>The database between two transactions, after the log was cleared.\<close>

lemma txn_inv_clear:
  assumes w: "wal_rep w []" "walFrames w = (\<lambda>_. None)"
    and F: "\<And>sid. versionedStructure sid \<Longrightarrow> plainFile (G sid) \<and> sidOf (G sid) = sid \<and> walVersion (vfh (G sid)) = (\<lambda>_. None) \<and>
      (\<forall>i p. bmFrames (G sid) i = Some p \<longrightarrow> dbFile (G sid) i = Some p)"
  shows "txn_inv \<lparr>files = G, dbWal = w, effects = e\<rparr> []"
proof -
  obtain cs rs where p: "wal_parts w cs rs" "concat (map snd cs) @ rs = []" using w(1) by (auto simp: wal_rep_def)
  have "storage_ok {} (storageOf \<lparr>files = G, dbWal = w, effects = e\<rparr> sid)" if "versionedStructure sid" for sid
    using F[OF that] p(1) by (auto simp: storage_ok_def plainFile_def wal_parts_def)
  then show ?thesis using p w(2) F by (intro txn_invI[where cs = cs and rs = rs]) simp_all
qed

definition database_ok :: "'p database \<Rightarrow> bool" where
  "database_ok db \<longleftrightarrow> txn_inv db [] \<and> updatedUnstructuredPropertyLists (dbWal db) = []"

lemma database_ok_views:
  assumes "database_ok db"
  shows "versionedStructure sid \<Longrightarrow> walVersion (vfh (files db sid)) i = None" "sameOn (txnView db) (diskView db)"
    "txn_extra (\<lambda>sid. numPages (vfh (files db sid))) db []"
proof -
  have inv: "txn_inv db []" using assms by (simp add: database_ok_def)
  show v: "walVersion (vfh (files db sid)) i = None" if "versionedStructure sid" for sid i using txn_invD(5)[OF inv that, of i] by fastforce
  show "sameOn (txnView db) (diskView db)" by (auto simp: sameOn_def txnView_def diskView_def wrView_def wrPage_def v)
  have "\<forall>i p. bmFrames (files db sid) i = Some p \<longrightarrow> dbFile (files db sid) i = Some p" if "versionedStructure sid" for sid
    using txn_invD(1)[OF inv that] v[OF that] by (simp add: storage_ok_def)
  then show "txn_extra (\<lambda>sid. numPages (vfh (files db sid))) db []" by (simp add: txn_extra_def)
qed

text \<open>The log pages of a transaction after the commit record and the flush.\<close>

lemma commit_log:
  fixes t
  assumes inv: "txn_inv db prs" and room: "numPages (fileHandle (dbWal db)) < UINT32_MAX"
  defines "w \<equiv> flushAllPages (logCommit (dbWal db) t)"
  shows "wal_rep w (pageRecs prs @ [COMMIT_RECORD t])" "isLastLoggedRecordCommit w"
    "updatedUnstructuredPropertyLists w = updatedUnstructuredPropertyLists (dbWal db)"
    "walFrames (dbWal db) k = None \<Longrightarrow> walFrames w k = None" "numPages (fileHandle (dbWal db)) \<le> numPages (fileHandle w)"
    "walFrames (dbWal db) k = Some (p, True) \<Longrightarrow> readDataPage (walFile (flushHeaderPages w)) buf k = Inr p"
    "walFrames (dbWal db) k = Some (p, True) \<Longrightarrow> readDataPage (walFile w) buf k = Inr p"
    "walFile (flushHeaderPages w) = walFile w" "sizeInPages (walFile w) \<le> Suc (numPages (fileHandle (dbWal db)))"
proof -
  let ?w1 = "logCommit (dbWal db) t"
  obtain cs rs where p: "wal_parts (dbWal db) cs rs" "concat (map snd cs) @ rs = pageRecs prs"
    "pageIdxInWAL ` set prs \<inter> hdrPages (dbWal db) cs = {}"
    using inv by (auto simp: txn_inv_def)
  have r: "0 < wal_room (dbWal db)" and fhw: "fh_inv (fileHandle (dbWal db))" using room p(1) by (auto simp: wal_room_def wal_parts_def)
  obtain cs' rs' where p': "wal_parts ?w1 cs' rs'" "concat (map snd cs') @ rs' = pageRecs prs @ [COMMIT_RECORD t]" "rs' \<noteq> []"
    "hdrPages ?w1 cs' \<subseteq> insert (numPages (fileHandle (dbWal db))) (hdrPages (dbWal db) cs)"
    using addNewWALRecord_parts(1)[OF p(1) r, of "COMMIT_RECORD t"] p(2) by (auto simp: logCommit_def)
  note e = addNewWALRecord_effect[OF fhw room, of "COMMIT_RECORD t", folded logCommit_def]
  have K: "k \<in> pageIdxInWAL ` set prs" "k < numPages (fileHandle (dbWal db))" if "walFrames (dbWal db) k = Some (p, d)" for k p d
  proof -
    show "k \<in> pageIdxInWAL ` set prs" using txn_invD(7)[OF inv that] by simp
    then obtain q where "q \<in> set prs" "k = pageIdxInWAL q" by auto
    then show "k < numPages (fileHandle (dbWal db))" using txn_inv_version(2)[OF inv txn_invD(3,4)[OF inv]] by simp
  qed
  have free: "\<forall>k. walFrames ?w1 k \<noteq> None \<longrightarrow> k \<notin> hdrPages ?w1 cs' \<and> k < numPages (fileHandle ?w1)"
  proof (intro allI impI)
    fix k assume "walFrames ?w1 k \<noteq> None"
    then obtain x d where "walFrames (dbWal db) k = Some (x, d)" using e(2) by auto
    note k = K[OF this]
    have "k \<notin> hdrPages (dbWal db) cs" using k(1) p(3) by auto
    then show "k \<notin> hdrPages ?w1 cs' \<and> k < numPages (fileHandle ?w1)" using k(2) p'(4) e(3) by auto
  qed
  note f = flushAllPages_props[OF p'(1,3) free, folded w_def]
  have cm: "isLastLoggedRecordCommit ?w1" by (simp add: logCommit_def addNewWALRecordNoLock_def Let_def)
  show "walFile (flushHeaderPages w) = walFile w" using f(8) by (simp add: w_def)
  show "sizeInPages (walFile w) \<le> Suc (numPages (fileHandle (dbWal db)))" using f(1,7) e(4) by (simp add: wal_parts_def)
  show c: "isLastLoggedRecordCommit w" using f(3) cm by simp
  show "wal_rep w (pageRecs prs @ [COMMIT_RECORD t])" unfolding wal_rep_def using f(1) p'(2) c by (metis is_commit.simps(1) last_snoc snoc_eq_iff_butlast)
  show "updatedUnstructuredPropertyLists w = updatedUnstructuredPropertyLists (dbWal db)" using f(4) by (simp add: logCommit_def)
  show "walFrames (dbWal db) k = None \<Longrightarrow> walFrames w k = None" using f(6) e(2) by simp
  show "numPages (fileHandle (dbWal db)) \<le> numPages (fileHandle w)" using f(7) e(3) by simp
  assume k: "walFrames (dbWal db) k = Some (p, True)"
  then have pg: "pageAt (walFile w) k = Some (DataPage p)" using f(5)[of k p] e(2,3) K(2)[OF k] by simp
  have "file_ok (walFile w)" using f(1) by (simp add: wal_parts_def)
  then show "readDataPage (walFile w) buf k = Inr p" using pg by (auto simp: readDataPage_def file_ok_def)
  have "k \<noteq> currentHeaderPageIdx w" using free k e(2) f(2) by (auto simp: hdrPages_def)
  note h = flushHeaderPages_parts[OF f(1) p'(3)]
  have "pageAt (walFile (flushHeaderPages w)) k = Some (DataPage p)" using h(7)[OF \<open>k \<noteq> currentHeaderPageIdx w\<close>] pg by simp
  moreover have "file_ok (walFile (flushHeaderPages w))" using h(1) by (simp add: wal_parts_def)
  ultimately show "readDataPage (walFile (flushHeaderPages w)) buf k = Inr p" by (auto simp: readDataPage_def file_ok_def)
qed

definition logContent :: "'p database \<Rightarrow> page_idx \<Rightarrow> 'p" where
  "logContent db k = fst (the (walFrames (dbWal db) k))"

lemma txn_version_iff:
  assumes inv: "txn_inv db prs" and sid: "versionedStructure sid"
  shows "(\<exists>r \<in> set prs. storageStructureID r = sid \<and> pageIdxInOriginalFile r = i) \<longleftrightarrow> walVersion (vfh (files db sid)) i \<noteq> None"
  using txn_invD(4,5)[OF inv] sid by (metis option.distinct(1))

lemma wrView_content:
  assumes inv: "txn_inv db prs" and sid: "versionedStructure sid"
  shows "wrView db sid i = (if walVersion (vfh (files db sid)) i \<noteq> None then Some (logContent db (the (walVersion (vfh (files db sid)) i)))
    else dbFile (files db sid) i)"
proof (cases "walVersion (vfh (files db sid)) i")
  case (Some k)
  obtain p where "walFrames (dbWal db) k = Some (p, True)" using txn_inv_version(3)[OF inv sid Some] by blast
  then show ?thesis using Some by (simp add: wrView_def wrPage_def frameContent_def logContent_def)
qed (simp add: wrView_def wrPage_def)

text \<open>The views of the files after all records of the transaction were replayed.\<close>

lemma fold_views:
  assumes inv: "txn_inv db prs" and sid: "versionedStructure sid"
  shows "fold (viewStep (logContent db) sid) prs (file_view (files db sid)) =
    (wrView db sid, \<lambda>_. None,
     \<lambda>i. if walVersion (vfh (files db sid)) i \<noteq> None then map_option (\<lambda>_. the (wrView db sid i)) (bmFrames (files db sid) i) else bmFrames (files db sid) i,
     numPages (vfh (files db sid)), sid)"
proof -
  have "\<forall>r \<in> set prs. storageStructureID r = sid \<longrightarrow> pageIdxInWAL r = the (walVersion (vfh (files db sid)) (pageIdxInOriginalFile r))"
    using txn_invD(4)[OF inv] by fastforce
  note f = fold_viewStep[OF this, of "logContent db"]
  show ?thesis
    unfolding file_view_def f txn_version_iff[OF inv sid] wrView_content[OF inv sid] txn_invD(2)[OF inv sid]
    by (auto simp: fun_eq_iff wrView_content[OF inv sid])
qed

lemma plainFiles_txn:
  assumes "txn_inv db prs" "files s = files db"
  shows "plainFiles s"
  unfolding plainFiles_def plainFile_def using txn_invD(1)[OF assms(1)] assms(2) by (auto simp: storage_ok_def)

lemma commit_props:
  assumes inv: "txn_inv db prs" and room: "numPages (fileHandle (dbWal db)) < UINT32_MAX"
    and ls: "updatedUnstructuredPropertyLists (dbWal db) = []" and fuel: "length prs < fuel"
  shows "\<exists>db'. commitTransaction fuel z t db = Inr db' \<and> database_ok db' \<and> sameOn (diskView db') (txnView db) \<and> effects db' = effects db"
proof -
  let ?w = "flushAllPages (logCommit (dbWal db) t)"
  note c = commit_log[OF inv room, where t = t]
  obtain cs rs where pt: "wal_parts ?w cs rs" "pageRecs prs @ [COMMIT_RECORD t] = concat (map snd cs) @ rs" using c(1) by (auto simp: wal_rep_def)
  obtain it where it: "getIterator ?w = Inr (flushHeaderPages ?w, it)" "readRecords fuel it = Inr (pageRecs prs @ [COMMIT_RECORD t])"
    by (rule getIterator_rep[OF pt, of fuel]) (use fuel in auto)
  let ?s = "database.extend (db\<lparr>dbWal := flushHeaderPages ?w\<rparr>) \<lparr>pageBuffer = z\<rparr>"
  have s: "files ?s = files db" "dbWal ?s = flushHeaderPages ?w" "effects ?s = effects db" by (simp_all add: database.defs)
  have recs: "\<forall>r \<in> set prs. versionedStructure (storageStructureID r) \<and> pageIdxInOriginalFile r < numPages (vfh (files ?s (storageStructureID r))) \<and>
      (\<forall>buf. readDataPage (walFile (dbWal ?s)) buf (pageIdxInWAL r) = Inr (logContent db (pageIdxInWAL r)))"
  proof
    fix r assume "r \<in> set prs"
    note v = txn_invD(3,4)[OF inv this]
    obtain p where p: "walFrames (dbWal db) (pageIdxInWAL r) = Some (p, True)" using txn_inv_version(3)[OF inv v] by blast
    then show "versionedStructure (storageStructureID r) \<and> pageIdxInOriginalFile r < numPages (vfh (files ?s (storageStructureID r))) \<and>
      (\<forall>buf. readDataPage (walFile (dbWal ?s)) buf (pageIdxInWAL r) = Inr (logContent db (pageIdxInWAL r)))"
      using v(1) txn_inv_version(4)[OF inv v] c(6)[OF p] unfolding s by (simp add: logContent_def)
  qed
  obtain s' where s': "replayAll False True (pageRecs prs) ?s = Inr s'" "dbWal s' = dbWal ?s" "effects s' = effects ?s" "plainFiles s'"
    "\<forall>sid. file_view (files s' sid) = fold (viewStep (logContent db) sid) prs (file_view (files ?s sid))"
    using checkpointPages[OF plainFiles_txn[OF inv s(1)] recs] by blast
  have ls': "updatedUnstructuredPropertyLists (dbWal s') = []" using s'(2) s(2) c(3) ls by (simp add: flushHeaderPages_def writeHeaderPage_def)
  moreover have "replayRecords fuel False True it ?s = Inr s'" using replayRecords_eq[OF it(2)] s'(1) by (simp add: replayAll_append)
  ultimately have rp: "replay fuel z False True (db\<lparr>dbWal := ?w\<rparr>) = Inr (database.truncate s')"
    using it(1) c(2) by (simp add: replay_def)
  obtain w' where w': "clearWAL fuel (dbWal s') = Inr w'" "wal_rep w' []"
    "walFrames w' = (\<lambda>i. if i < numPages (fileHandle (dbWal s')) then None else walFrames (dbWal s') i)"
    "updatedUnstructuredPropertyLists w' = updatedUnstructuredPropertyLists (dbWal s')"
    by (rule clearWAL_props)
  let ?db = "\<lparr>files = files s', dbWal = w', effects = effects s'\<rparr>"
  have ct: "commitTransaction fuel z t db = Inr ?db"
    using rp w'(1) by (simp add: commitTransaction_def checkpointOrRollbackAndClearWAL_def database.defs)
  have fv: "file_view (files s' sid) = (wrView db sid, \<lambda>_. None,
     \<lambda>i. if walVersion (vfh (files db sid)) i \<noteq> None then map_option (\<lambda>_. the (wrView db sid i)) (bmFrames (files db sid) i) else bmFrames (files db sid) i,
     numPages (vfh (files db sid)), sid)" if "versionedStructure sid" for sid
    using s'(5) s(1) fold_views[OF inv that] by simp
  have "walFrames w' = (\<lambda>_. None)"
  proof
    fix k
    have "walFrames (dbWal db) k = None" if "numPages (fileHandle (dbWal db)) \<le> k"
      using that txn_invD(7)[OF inv] txn_inv_version(2)[OF inv txn_invD(3,4)[OF inv]] by (metis imageE not_None_eq not_le prod.collapse)
    then show "walFrames w' k = None"
      using w'(3) s'(2) s(2) c(4,5) by (simp add: flushHeaderPages_def writeHeaderPage_def)
  qed
  then have "txn_inv ?db []"
  proof (rule txn_inv_clear[OF w'(2)])
    fix sid assume sid: "versionedStructure sid"
    have bm: "bmFrames (files db sid) i = Some p \<Longrightarrow> walVersion (vfh (files db sid)) i = None \<Longrightarrow> dbFile (files db sid) i = Some p" for i p
      using txn_invD(1)[OF inv sid] by (simp add: storage_ok_def)
    show "plainFile (files s' sid) \<and> sidOf (files s' sid) = sid \<and> walVersion (vfh (files s' sid)) = (\<lambda>_. None) \<and>
      (\<forall>i p. bmFrames (files s' sid) i = Some p \<longrightarrow> dbFile (files s' sid) i = Some p)"
      using fv[OF sid] s'(4) sid bm by (auto simp: file_view_def plainFiles_def wrView_content[OF inv sid])
  qed
  then have "database_ok ?db" using ls' w'(4) by (simp add: database_ok_def)
  moreover have "sameOn (diskView ?db) (txnView db)" using fv by (auto simp: sameOn_def diskView_def txnView_def file_view_def)
  ultimately show ?thesis using ct s'(3) s(3) by auto
qed

section \<open>Rollback\<close>

definition pagesAfter :: "StorageStructureID \<Rightarrow> PageUpdateOrInsertRecord \<Rightarrow> nat \<Rightarrow> nat" where
  "pagesAfter sid r n = (if storageStructureID r = sid \<and> isInsert r then min n (pageIdxInOriginalFile r) else n)"

lemma rollbackPage:
  assumes sid: "versionedStructure (storageStructureID r)" and F: "plainFile (files s (storageStructureID r))"
  shows "\<exists>F. replayPageRecord False False r s = Inr (s\<lparr>files := (files s)(storageStructureID r := F)\<rparr>) \<and> plainFile F \<and>
    dbFile F = dbFile (files s (storageStructureID r)) \<and> bmFrames F = bmFrames (files s (storageStructureID r)) \<and>
    numPages (vfh F) = pagesAfter (storageStructureID r) r (numPages (vfh (files s (storageStructureID r)))) \<and>
    (\<forall>j < numPages (vfh F). walVersion (vfh F) j = (if j = pageIdxInOriginalFile r then None else walVersion (vfh (files s (storageStructureID r))) j))"
proof -
  let ?sid = "storageStructureID r" and ?i = "pageIdxInOriginalFile r"
  let ?F = "files s ?sid"
  have call: "replayPageRecord False False r s = Inr (s\<lparr>files := (files s)(?sid := ?F\<lparr>vfh := truncateFileIfInsertion r fh\<rparr>)\<rparr>)"
    if "clearWALPageVersionIfNecessary (vfh ?F) ?i = Inr fh" for fh
    using that sid versionedStructure_file[OF sid]
    by (simp add: replayPageRecord_def checkpointOrRollbackVersionedFileHandleAndBufferManager_def versionedStructure_def)
  show ?thesis
  proof (cases "?i < numPages (vfh ?F)")
    case False
    then have "truncateFileIfInsertion r (vfh ?F) = vfh ?F"
      using F by (auto simp: truncateFileIfInsertion_def removePageIdxAndTruncateIfNecessaryVersioned_def plainFile_def vfh_inv_def
          removePageIdxAndTruncateIfNecessaryWithoutLock_def resizePageGroupLocksAndPageVersionsToNumPageGroupsWithoutLock_def)
    then show ?thesis
      using call[of "vfh ?F"] False F by (intro exI[of _ ?F]) (auto simp: clearWALPageVersion_beyond pagesAfter_def)
  next
    case True
    have "vfh_inv (vfh ?F)" using F by (simp add: plainFile_def)
    then obtain fh where 1: "clearWALPageVersionIfNecessary (vfh ?F) ?i = Inr fh" "vfh_inv fh" "numPages fh = numPages (vfh ?F)"
      "walVersion fh = (walVersion (vfh ?F))(?i := None)" "\<forall>j. pageLocks fh ! j = (if j = ?i then Some False else pageLocks (vfh ?F) ! j)"
      using clearVersion_exact[of "vfh ?F" ?i] True by metis
    have i: "?i < numPages fh" using 1(3) True by simp
    note t = truncateVersioned_exact[OF 1(2) i]
    let ?F' = "?F\<lparr>vfh := truncateFileIfInsertion r fh\<rparr>"
    have n: "numPages (vfh ?F') = pagesAfter ?sid r (numPages (vfh ?F))" using t(2) 1(3) True by (simp add: truncateFileIfInsertion_def pagesAfter_def)
    have "plainFile ?F'"
      using 1(2,3,5) t(1,2,4) F True by (simp add: plainFile_def truncateFileIfInsertion_def)
    moreover have "\<forall>j < numPages (vfh ?F'). walVersion (vfh ?F') j = (if j = ?i then None else walVersion (vfh ?F) j)"
      using t(2,3) 1(4) by (simp add: truncateFileIfInsertion_def)
    ultimately show ?thesis using call[OF 1(1)] n by (intro exI[of _ ?F']) simp
  qed
qed

lemma rollbackPages:
  assumes "plainFiles s" "\<forall>r \<in> set rs. versionedStructure (storageStructureID r)"
    and "\<And>sid i. versionedStructure sid \<Longrightarrow> i < numPages (vfh (files s sid)) \<Longrightarrow> walVersion (vfh (files s sid)) i \<noteq> None \<Longrightarrow>
      \<exists>r \<in> set rs. storageStructureID r = sid \<and> pageIdxInOriginalFile r = i"
  shows "\<exists>s'. replayAll False False (pageRecs rs) s = Inr s' \<and> dbWal s' = dbWal s \<and> effects s' = effects s \<and> plainFiles s' \<and>
    (\<forall>sid. dbFile (files s' sid) = dbFile (files s sid) \<and> bmFrames (files s' sid) = bmFrames (files s sid) \<and>
       numPages (vfh (files s' sid)) = fold (pagesAfter sid) rs (numPages (vfh (files s sid)))) \<and>
    (\<forall>sid i. versionedStructure sid \<longrightarrow> i < numPages (vfh (files s' sid)) \<longrightarrow> walVersion (vfh (files s' sid)) i = None)"
  using assms
proof (induction rs arbitrary: s)
  case Nil
  have "walVersion (vfh (files s sid)) i = None" if "versionedStructure sid" "i < numPages (vfh (files s sid))" for sid i
    using Nil.prems(3)[OF that] by (cases "walVersion (vfh (files s sid)) i") auto
  then show ?case using Nil.prems(1) by simp
next
  case (Cons r rs)
  let ?sid = "storageStructureID r"
  have v: "versionedStructure ?sid" "plainFile (files s ?sid)" using Cons.prems(1,2) by (simp_all add: plainFiles_def)
  obtain F where F: "replayPageRecord False False r s = Inr (s\<lparr>files := (files s)(?sid := F)\<rparr>)" "plainFile F" "dbFile F = dbFile (files s ?sid)"
    "bmFrames F = bmFrames (files s ?sid)" "numPages (vfh F) = pagesAfter ?sid r (numPages (vfh (files s ?sid)))"
    "\<forall>j < numPages (vfh F). walVersion (vfh F) j = (if j = pageIdxInOriginalFile r then None else walVersion (vfh (files s ?sid)) j)"
    using rollbackPage[OF v] by blast
  let ?s = "s\<lparr>files := (files s)(?sid := F)\<rparr>"
  have pf: "plainFiles ?s" and vs: "\<forall>r \<in> set rs. versionedStructure (storageStructureID r)" using Cons.prems(1,2) F(2) by (auto simp: plainFiles_def)
  have le: "numPages (vfh F) \<le> numPages (vfh (files s ?sid))" using F(5) by (simp add: pagesAfter_def)
  have "\<exists>q \<in> set rs. storageStructureID q = sid \<and> pageIdxInOriginalFile q = i"
    if "versionedStructure sid" "i < numPages (vfh (files ?s sid))" "walVersion (vfh (files ?s sid)) i \<noteq> None" for sid i
  proof (cases "sid = ?sid")
    case True
    then have "i \<noteq> pageIdxInOriginalFile r" "walVersion (vfh (files s sid)) i \<noteq> None" "i < numPages (vfh (files s sid))"
      using that(2,3) F(6) le by (auto split: if_splits)
    then show ?thesis using Cons.prems(3)[OF that(1)] by auto
  next
    case False
    then show ?thesis using Cons.prems(3)[OF that(1), of i] that(2,3) by auto
  qed
  from Cons.IH[OF pf vs this] obtain s' where s': "replayAll False False (pageRecs rs) ?s = Inr s'" "dbWal s' = dbWal s" "effects s' = effects s" "plainFiles s'"
    "\<forall>sid. dbFile (files s' sid) = dbFile (files ?s sid) \<and> bmFrames (files s' sid) = bmFrames (files ?s sid) \<and>
       numPages (vfh (files s' sid)) = fold (pagesAfter sid) rs (numPages (vfh (files ?s sid)))"
    "\<forall>sid i. versionedStructure sid \<longrightarrow> i < numPages (vfh (files s' sid)) \<longrightarrow> walVersion (vfh (files s' sid)) i = None"
    by auto
  have "dbFile (files s' sid) = dbFile (files s sid) \<and> bmFrames (files s' sid) = bmFrames (files s sid) \<and>
    numPages (vfh (files s' sid)) = fold (pagesAfter sid) (r # rs) (numPages (vfh (files s sid)))" for sid
    using s'(5) F(3-5) by (cases "sid = ?sid") (simp_all add: pagesAfter_def)
  then show ?case using F(1) s'(1-4,6) by simp
qed

lemma fold_pagesAfter:
  "fold (pagesAfter sid) rs n \<le> n" "\<forall>r \<in> set rs. storageStructureID r = sid \<and> isInsert r \<longrightarrow> fold (pagesAfter sid) rs n \<le> pageIdxInOriginalFile r"
  "fold (pagesAfter sid) rs n = n \<or> fold (pagesAfter sid) rs n \<in> pageIdxInOriginalFile ` {r \<in> set rs. storageStructureID r = sid \<and> isInsert r}"
proof (induction rs arbitrary: n)
  case (Cons r rs)
  have le: "pagesAfter sid r m \<le> m" "storageStructureID r = sid \<Longrightarrow> isInsert r \<Longrightarrow> pagesAfter sid r m \<le> pageIdxInOriginalFile r"
    "pagesAfter sid r m = m \<or> (storageStructureID r = sid \<and> isInsert r \<and> pagesAfter sid r m = pageIdxInOriginalFile r)" for m
    by (auto simp: pagesAfter_def)
  {
    case 1
    show ?case using order_trans[OF Cons.IH(1)[of "pagesAfter sid r n"] le(1)] by simp
  next
    case 2
    show ?case using order_trans[OF Cons.IH(1)[of "pagesAfter sid r n"] le(2)] Cons.IH(2)[of "pagesAfter sid r n"] by simp
  next
    case 3
    show ?case using Cons.IH(3)[of "pagesAfter sid r n"] le(3)[of n] by auto
  }
qed simp_all

lemma pages_restored:
  assumes ex: "txn_extra n0 db prs" and sid: "versionedStructure sid"
  shows "fold (pagesAfter sid) prs (numPages (vfh (files db sid))) = n0 sid"
proof -
  let ?n = "numPages (vfh (files db sid))"
  let ?I = "{r \<in> set prs. storageStructureID r = sid \<and> isInsert r}"
  have I: "n0 sid \<le> ?n" "pageIdxInOriginalFile ` ?I = {n0 sid..<?n}" using ex sid by (simp_all add: txn_extra_def)
  note f = fold_pagesAfter[where sid = sid and rs = prs and n = ?n]
  have lo: "n0 sid \<le> fold (pagesAfter sid) prs ?n" using f(3) I by auto
  moreover have "fold (pagesAfter sid) prs ?n \<le> n0 sid"
  proof (cases "n0 sid = ?n")
    case True
    then show ?thesis using f(1) by simp
  next
    case False
    then have "n0 sid \<in> pageIdxInOriginalFile ` ?I" using I by simp
    then show ?thesis using f(2) by auto
  qed
  ultimately show ?thesis by simp
qed

lemma rollback_props:
  assumes inv: "txn_inv db prs" and ex: "txn_extra n0 db prs" and ls: "updatedUnstructuredPropertyLists (dbWal db) = []" and fuel: "length prs \<le> fuel"
  shows "\<exists>db'. rollbackTransaction fuel z db = Inr db' \<and> wal_rep (dbWal db') [] \<and> effects db' = effects db \<and>
    (\<forall>sid. versionedStructure sid \<longrightarrow> plainFile (files db' sid) \<and> dbFile (files db' sid) = dbFile (files db sid) \<and>
       bmFrames (files db' sid) = bmFrames (files db sid) \<and> numPages (vfh (files db' sid)) = n0 sid \<and>
       (\<forall>i < n0 sid. walVersion (vfh (files db' sid)) i = None))"
proof -
  obtain cs rs where pt: "wal_parts (dbWal db) cs rs" "pageRecs prs = concat (map snd cs) @ rs" using inv by (auto simp: txn_inv_def)
  obtain it where it: "getIterator (dbWal db) = Inr (flushHeaderPages (dbWal db), it)" "readRecords fuel it = Inr (pageRecs prs)"
    by (rule getIterator_rep[OF pt, of fuel]) (use fuel in auto)
  let ?s = "database.extend (db\<lparr>dbWal := flushHeaderPages (dbWal db)\<rparr>) \<lparr>pageBuffer = z\<rparr>"
  have s: "files ?s = files db" "dbWal ?s = flushHeaderPages (dbWal db)" "effects ?s = effects db" by (simp_all add: database.defs)
  have "\<exists>s'. replayAll False False (pageRecs prs) ?s = Inr s' \<and> dbWal s' = dbWal ?s \<and> effects s' = effects ?s \<and> plainFiles s' \<and>
    (\<forall>sid. dbFile (files s' sid) = dbFile (files ?s sid) \<and> bmFrames (files s' sid) = bmFrames (files ?s sid) \<and>
       numPages (vfh (files s' sid)) = fold (pagesAfter sid) prs (numPages (vfh (files ?s sid)))) \<and>
    (\<forall>sid i. versionedStructure sid \<longrightarrow> i < numPages (vfh (files s' sid)) \<longrightarrow> walVersion (vfh (files s' sid)) i = None)"
    by (rule rollbackPages[OF plainFiles_txn[OF inv s(1)]]) (use txn_invD(3,5)[OF inv] in \<open>simp_all add: s(1) del: not_None_eq\<close>)
  then obtain s' where s': "replayAll False False (pageRecs prs) ?s = Inr s'" "dbWal s' = dbWal ?s" "effects s' = effects ?s" "plainFiles s'"
    "\<forall>sid. dbFile (files s' sid) = dbFile (files ?s sid) \<and> bmFrames (files s' sid) = bmFrames (files ?s sid) \<and>
       numPages (vfh (files s' sid)) = fold (pagesAfter sid) prs (numPages (vfh (files ?s sid)))"
    "\<forall>sid i. versionedStructure sid \<longrightarrow> i < numPages (vfh (files s' sid)) \<longrightarrow> walVersion (vfh (files s' sid)) i = None"
    by blast
  have "updatedUnstructuredPropertyLists (dbWal s') = []" using s'(2) s(2) ls by (simp add: flushHeaderPages_def writeHeaderPage_def)
  moreover have "replayRecords fuel False False it ?s = Inr s'" using replayRecords_eq[OF it(2)] s'(1) by simp
  ultimately have rp: "replay fuel z False False db = Inr (database.truncate s')" using it(1) by (simp add: replay_def)
  obtain w' where w': "clearWAL fuel (dbWal s') = Inr w'" "wal_rep w' []" by (rule clearWAL_props)
  let ?db = "\<lparr>files = files s', dbWal = w', effects = effects s'\<rparr>"
  have "rollbackTransaction fuel z db = Inr ?db"
    using rp w'(1) by (simp add: rollbackTransaction_def checkpointOrRollbackAndClearWAL_def database.defs)
  moreover have "numPages (vfh (files s' sid)) = n0 sid" if "versionedStructure sid" for sid
    using pages_restored[OF ex that] s'(5) s(1) by simp
  ultimately show ?thesis using w'(2) s' s by (auto simp: plainFiles_def)
qed

section \<open>Recovery\<close>

text \<open>Opening the database again: the log is read from its file, and of the other files only the content on disk counts.\<close>

lemma recover_call:
  assumes "readLog n w = Inr recs" "isLastLoggedRecordCommit w" "\<not> isEmptyWAL w"
    and "replayAll True True recs \<lparr>files = G, dbWal = flushHeaderPages w, effects = e, pageBuffer = z\<rparr> = Inr s'"
    and "updatedUnstructuredPropertyLists (dbWal s') = []"
  shows "\<exists>db'. recoverIfNecessary n z \<lparr>files = G, dbWal = w, effects = e\<rparr> = Inr db' \<and> files db' = files s' \<and> isEmptyWAL (dbWal db')"
proof -
  obtain it where it: "getIterator w = Inr (flushHeaderPages w, it)" "readRecords n it = Inr recs"
    using assms(1) by (auto simp: readLog_def getIterator_def bind_result_eq_Inr Let_def)
  have rp: "replay n z True True \<lparr>files = G, dbWal = w, effects = e\<rparr> = Inr (database.truncate s')"
    using it assms(2,4,5) replayRecords_eq[OF it(2), of True True] by (simp add: replay_def database.defs)
  obtain w' where w': "clearWAL n (dbWal s') = Inr w'" "wal_rep w' []" by (rule clearWAL_props)
  have "isEmptyWAL w'" using w'(2) isEmptyWAL_iff by (auto simp: wal_rep_def)
  then show ?thesis
    using rp w'(1) assms(2,3) by (simp add: recoverIfNecessary_def checkpointOrRollbackAndClearWAL_def database.defs)
qed

lemma recovery_props:
  assumes inv: "txn_inv db prs" and room': "Suc (numPages (fileHandle (dbWal db))) < UINT32_MAX" and fuel: "length prs < fuel"
    and G: "\<And>sid. dbFile (G sid) = dbFile (files db sid)"
  shows "\<exists>w db'. newWAL fuel (walFile (flushAllPages (logCommit (dbWal db) t))) = Inr w \<and>
    recoverIfNecessary fuel z \<lparr>files = G, dbWal = w, effects = e\<rparr> = Inr db' \<and> isEmptyWAL (dbWal db') \<and>
    (\<forall>sid. versionedStructure sid \<longrightarrow> dbFile (files db' sid) = wrView db sid)"
proof -
  let ?w = "flushAllPages (logCommit (dbWal db) t)" and ?log = "pageRecs prs @ [COMMIT_RECORD t]"
  have room: "numPages (fileHandle (dbWal db)) < UINT32_MAX" using room' by simp
  note c = commit_log[OF inv room, where t = t]
  have size: "sizeInPages (walFile ?w) < UINT32_MAX" using c(9) room' by simp
  obtain cs rs where pt: "wal_parts ?w cs rs" "?log = concat (map snd cs) @ rs" using c(1) by (auto simp: wal_rep_def)
  have ne: "rs \<noteq> []" using pt by (auto simp: wal_parts_def)
  note f = flushed_chain[OF pt(1) ne, unfolded c(8)]
  obtain w where w: "newWAL fuel (walFile ?w) = Inr w" "\<not> isEmptyWAL w" "isLastLoggedRecordCommit w" "readLog fuel w = Inr ?log"
    "walFile (flushHeaderPages w) = walFile ?w" "updatedUnstructuredPropertyLists w = []"
    using newWAL_chain[OF f(1-5) size, of fuel, unfolded trans[OF f(6) pt(2)[symmetric]]] fuel by auto
  let ?s = "\<lparr>files = G, dbWal = flushHeaderPages w, effects = e, pageBuffer = z\<rparr>"
  have recs: "\<forall>r \<in> set prs. versionedStructure (storageStructureID r) \<and>
      (\<forall>buf. readDataPage (walFile (dbWal ?s)) buf (pageIdxInWAL r) = Inr (logContent db (pageIdxInWAL r)))"
  proof
    fix r assume "r \<in> set prs"
    note v = txn_invD(3,4)[OF inv this]
    obtain p where "walFrames (dbWal db) (pageIdxInWAL r) = Some (p, True)" using txn_inv_version(3)[OF inv v] by blast
    then show "versionedStructure (storageStructureID r) \<and>
      (\<forall>buf. readDataPage (walFile (dbWal ?s)) buf (pageIdxInWAL r) = Inr (logContent db (pageIdxInWAL r)))"
      using v(1) c(7) w(5) by (simp add: logContent_def)
  qed
  obtain s' where s': "replayAll True True (pageRecs prs) ?s = Inr s'" "dbWal s' = dbWal ?s"
    "\<forall>sid. dbFile (files s' sid) = fst (fold (viewStep (logContent db) sid) prs (file_view (files ?s sid)))"
    using recoverPages[OF recs] by blast
  have ls: "updatedUnstructuredPropertyLists (dbWal s') = []" using s'(2) w(6) by (simp add: flushHeaderPages_def writeHeaderPage_def)
  have "replayAll True True ?log ?s = Inr s'" using s'(1) by (simp add: replayAll_append)
  then obtain db' where db': "recoverIfNecessary fuel z \<lparr>files = G, dbWal = w, effects = e\<rparr> = Inr db'" "files db' = files s'" "isEmptyWAL (dbWal db')"
    using recover_call[OF w(4,3,2) _ ls] by blast
  have "dbFile (files s' sid) = wrView db sid" if sid: "versionedStructure sid" for sid
  proof -
    have "fst (file_view (files ?s sid)) = fst (file_view (files db sid))" using G by (simp add: file_view_def)
    then show ?thesis using s'(3) fold_viewStep_fst[of "file_view (files ?s sid)" "file_view (files db sid)"] fold_views[OF inv sid] by simp
  qed
  then show ?thesis using w(1) db' by auto
qed

text \<open>The log of a transaction that updates one page of a database with a fresh log, before its data page is flushed.\<close>

lemma fresh_log_fields:
  assumes "wal_parts w cs rs" "concat (map snd cs) @ rs = []"
  shows "currentHeaderPageIdx w = 0" "offsetInCurrentHeaderPage w = 12" "sizeInPages (walFile w) = 0"
proof -
  have "cs = []"
  proof (rule ccontr)
    assume "cs \<noteq> []"
    then obtain i x cs' where "cs = (i, x) # cs'" by (cases cs) auto
    then show False using assms by (auto simp: wal_parts_def)
  qed
  then show "currentHeaderPageIdx w = 0" "offsetInCurrentHeaderPage w = 12" "sizeInPages (walFile w) = 0" using assms by (simp_all add: wal_parts_def)
qed

lemma addRecord_fields:
  assumes "offsetInCurrentHeaderPage w + sizeof_WALRecord \<le> WAL_HEADER_PAGE_SIZE"
  shows "walFile (addNewWALRecordNoLock w r) = walFile w" "currentHeaderPageIdx (addNewWALRecordNoLock w r) = currentHeaderPageIdx w"
    "offsetInCurrentHeaderPage (addNewWALRecordNoLock w r) = offsetInCurrentHeaderPage w + sizeof_WALRecord"
    "numRecords (currentHeaderPageBuffer (addNewWALRecordNoLock w r)) = Suc (numRecords (currentHeaderPageBuffer w))"
  using assms by (simp_all add: addNewWALRecordNoLock_def writeWALRecordToBytes_def incrementNumRecordsInCurrentHeaderPage_def)

lemma torn_log:
  fixes t fr
  assumes ok: "database_ok db" and fresh: "numPages (fileHandle (dbWal db)) = 1"
    and lg: "addNewWALPage (dbWal db) = (k, w0)" "w1 = addNewWALRecordNoLock w0 r"
  defines "f \<equiv> walFile (flushHeaderPages (logCommit (w1\<lparr>walFrames := fr\<rparr>) t))"
  shows "k = 1" "sizeInPages f = 1"
    "\<exists>w. newWAL 2 f = Inr w \<and> \<not> isEmptyWAL w \<and> isLastLoggedRecordCommit w \<and> readLog 2 w = Inr [r, COMMIT_RECORD t] \<and>
      walFile (flushHeaderPages w) = f \<and> updatedUnstructuredPropertyLists w = []"
proof -
  let ?w2 = "logCommit (w1\<lparr>walFrames := fr\<rparr>) t"
  obtain cs rs where p: "wal_parts (dbWal db) cs rs" "concat (map snd cs) @ rs = []" using ok by (auto simp: database_ok_def txn_inv_def)
  have room: "2 \<le> wal_room (dbWal db)" "0 < wal_room (dbWal db)" using fresh by (simp_all add: wal_room_def UINT32_MAX_def)
  note q = addNewWALPage_props[OF p(1) room(2) lg(1)]
  show "k = 1" using q(1) fresh by simp
  note l = fresh_log_fields[OF p]
  have fits: "offsetInCurrentHeaderPage w0 + sizeof_WALRecord \<le> WAL_HEADER_PAGE_SIZE" using q(6) l(2) by (simp add: page_sizes)
  note a = addRecord_fields[OF fits, of r, folded lg(2)]
  have "offsetInCurrentHeaderPage (w1\<lparr>walFrames := fr\<rparr>) + sizeof_WALRecord \<le> WAL_HEADER_PAGE_SIZE" using a(3) q(6) l(2) by (simp add: page_sizes)
  note b = addRecord_fields[OF this, of "COMMIT_RECORD t", folded logCommit_def]
  have hd: "currentHeaderPageIdx ?w2 = 0" "walFile ?w2 = walFile (dbWal db)" "numRecords (currentHeaderPageBuffer ?w2) \<noteq> 0"
    using a b q(4,8) l(1) by simp_all
  then show sz: "sizeInPages f = 1" using l(3) by (simp add: f_def flushHeaderPages_def isEmptyWAL_def writeHeaderPage_def writePageToFile_def)
  obtain cs1 rs1 where p1: "wal_parts w1 cs1 rs1" "concat (map snd cs1) @ rs1 = (concat (map snd cs) @ rs) @ [r]"
    by (rule logPage_parts[OF p(1) room(1) lg])
  have p1': "wal_parts (w1\<lparr>walFrames := fr\<rparr>) cs1 rs1" using p1(1) by simp
  have fhw: "fh_inv (fileHandle (dbWal db))" using p(1) by (simp add: wal_parts_def)
  have "numPages (fileHandle w1) \<le> 3" using logPage_effect(5)[OF fhw _ lg] fresh by (simp add: UINT32_MAX_def)
  then have "0 < wal_room (w1\<lparr>walFrames := fr\<rparr>)" by (simp add: wal_room_def UINT32_MAX_def)
  then obtain cs2 rs2 where p2: "wal_parts ?w2 cs2 rs2" "concat (map snd cs2) @ rs2 = [r, COMMIT_RECORD t]" "rs2 \<noteq> []"
    using addNewWALRecord_parts(1)[OF p1', of "COMMIT_RECORD t", folded logCommit_def] p1(2) p(2) by auto
  note c = flushed_chain[OF p2(1,3), folded f_def]
  have "sizeInPages f < UINT32_MAX" using sz by (simp add: UINT32_MAX_def)
  then show "\<exists>w. newWAL 2 f = Inr w \<and> \<not> isEmptyWAL w \<and> isLastLoggedRecordCommit w \<and> readLog 2 w = Inr [r, COMMIT_RECORD t] \<and>
      walFile (flushHeaderPages w) = f \<and> updatedUnstructuredPropertyLists w = []"
    using newWAL_chain[OF c(1-5), of 2, unfolded trans[OF c(6) p2(2)]] by auto
qed

section \<open>Properties\<close>


abbreviation exampleFiles :: "StorageStructureID \<Rightarrow> nat paged_file" where
  "exampleFiles \<equiv> \<lambda>sid. \<lparr>vfh = exampleVersionedHandle\<lparr>storageStructureIDForWALRecord := sid, pageVersions := [[]]\<rparr>,
     dbFile = (\<lambda>_. None)(0 \<mapsto> 5), bmFrames = (\<lambda>_. None)\<rparr>"

abbreviation exampleColumn :: StorageStructureID where
  "exampleColumn \<equiv> STRUCTURED_NODE_PROPERTY_COLUMN False \<lparr>columnTableID = 1, columnPropertyID = 0\<rparr>"

lemma exampleColumn_versioned: "versionedStructure exampleColumn"
  by (simp add: versionedStructure_def)

lemma exampleDatabase:
  obtains w :: "nat WAL" where "database_ok \<lparr>files = exampleFiles, dbWal = w, effects = []\<rparr>" "numPages (fileHandle w) = 1"
proof -
  obtain w :: "nat WAL" where w: "wal_rep w []" "wal_room w = UINT32_MAX - 1" "walFrames w = (\<lambda>i. if i < numPages (fileHandle (wal exampleStorage))
      then None else walFrames (wal exampleStorage) i)" "updatedUnstructuredPropertyLists w = updatedUnstructuredPropertyLists (wal exampleStorage)"
    by (rule clearWAL_props)
  have n: "numPages (fileHandle w) = 1" using w(1,2) by (auto simp: wal_room_def wal_rep_def wal_parts_def UINT32_MAX_def)
  have "vfh_inv (exampleVersionedHandle\<lparr>storageStructureIDForWALRecord := sid, pageVersions := [[]]\<rparr>)" for sid
    by (simp add: vfh_inv_def fh_inv_def getNumPageGroups_def MULTI_VERSION_FILE_PAGE_GROUP_SIZE_def UINT32_MAX_def)
  moreover have "walVersion (exampleVersionedHandle\<lparr>storageStructureIDForWALRecord := sid, pageVersions := [[]]\<rparr>) = (\<lambda>_. None)" for sid
    using exampleStorage_versions by (simp add: walVersion_def fun_eq_iff)
  ultimately have "txn_inv \<lparr>files = exampleFiles, dbWal = w, effects = []\<rparr> []"
    using w(1,3) by (intro txn_inv_clear) (auto simp: plainFile_def)
  then show thesis using that[of w] w(4) n by (simp add: database_ok_def)
qed


text \<open>
  C3: a rollback leaves no trace in the pages a file had.  After any sequence of page updates and additions the rollback
  succeeds, the contents of all files are those from before the transaction, every file has its old number of pages again,
  and the writer's view of these pages, like the frames of the buffer manager, is the file's content.
\<close>

theorem rollback_restores_pages:
  assumes ok: "database_ok db" and ops: "opsOk junk ops (diskView db)"
    and room: "numPages (fileHandle (dbWal db)) + 2 * length ops \<le> UINT32_MAX" and fuel: "length ops \<le> fuel"
  shows "\<exists>db1 db2. runOps junk ops db = Inr db1 \<and> rollbackTransaction fuel z db1 = Inr db2 \<and> sameOn (diskView db2) (diskView db) \<and>
    (\<forall>sid i. versionedStructure sid \<longrightarrow> i < numPages (vfh (files db sid)) \<longrightarrow> wrView db2 sid i = dbFile (files db sid) i) \<and>
    (\<forall>sid i p. versionedStructure sid \<longrightarrow> bmFrames (files db2 sid) i = Some p \<longrightarrow> dbFile (files db sid) i = Some p)"
proof -
  note v = database_ok_views[OF ok]
  have inv: "txn_inv db []" and ls: "updatedUnstructuredPropertyLists (dbWal db) = []" using ok by (simp_all add: database_ok_def)
  have o: "opsOk junk ops (txnView db)" using sameOn_opsOk[OF sameOn_simps(2)[OF v(2)] ops] by blast
  from runOps_props[OF inv o room v(3)] obtain db1 prs where 1: "runOps junk ops db = Inr db1" "txn_inv db1 prs"
    "\<forall>sid. dbFile (files db1 sid) = dbFile (files db sid)" "updatedUnstructuredPropertyLists (dbWal db1) = []"
    "txn_extra (\<lambda>sid. numPages (vfh (files db sid))) db1 prs" "length prs \<le> length ops"
    using ls by auto
  have "length prs \<le> fuel" using 1(6) fuel by simp
  from rollback_props[OF 1(2,5,4) this, of z] obtain db2 where 2: "rollbackTransaction fuel z db1 = Inr db2"
    "\<forall>sid. versionedStructure sid \<longrightarrow> plainFile (files db2 sid) \<and> dbFile (files db2 sid) = dbFile (files db1 sid) \<and>
       bmFrames (files db2 sid) = bmFrames (files db1 sid) \<and> numPages (vfh (files db2 sid)) = numPages (vfh (files db sid)) \<and>
       (\<forall>i < numPages (vfh (files db sid)). walVersion (vfh (files db2 sid)) i = None)" by auto
  have "sameOn (diskView db2) (diskView db)" using 2(2) 1(3) by (simp add: sameOn_def diskView_def)
  moreover have "wrView db2 sid i = dbFile (files db sid) i" if "versionedStructure sid" "i < numPages (vfh (files db sid))" for sid i
    using 2(2) 1(3) that by (simp add: wrView_def wrPage_def)
  moreover have "dbFile (files db sid) i = Some p" if "versionedStructure sid" "bmFrames (files db2 sid) i = Some p" for sid i p
    using 2(2) 1(3,5) that by (simp add: txn_extra_def)
  ultimately show ?thesis using 1(1) 2(1) by blast
qed

theorem rollback_restores_pages_witness:
  "\<exists>(db :: nat database) db1 db2. runOps 0 [UpdatePage exampleColumn 0 Suc, AddPage exampleColumn] db = Inr db1 \<and>
     rollbackTransaction 2 0 db1 = Inr db2 \<and> dbFile (files db2 exampleColumn) 0 = Some 5 \<and> numPages (vfh (files db2 exampleColumn)) = 3"
proof -
  obtain w :: "nat WAL" where w: "database_ok \<lparr>files = exampleFiles, dbWal = w, effects = []\<rparr>" "numPages (fileHandle w) = 1"
    by (rule exampleDatabase)
  let ?db = "\<lparr>files = exampleFiles, dbWal = w, effects = []\<rparr>" and ?ops = "[UpdatePage exampleColumn 0 Suc, AddPage exampleColumn]"
  have "opsOk 0 ?ops (diskView ?db)" using exampleColumn_versioned by (simp add: diskView_def UINT32_MAX_def)
  then obtain db1 db2 where 1: "runOps 0 ?ops ?db = Inr db1" "rollbackTransaction 2 0 db1 = Inr db2" "sameOn (diskView db2) (diskView ?db)"
    using rollback_restores_pages[OF w(1), of 0 ?ops 2 0] w(2) by (auto simp: UINT32_MAX_def)
  have "diskView db2 exampleColumn = ((\<lambda>_. None)(0 \<mapsto> 5), 3)" using 1(3) exampleColumn_versioned by (simp add: sameOn_def diskView_def)
  then show ?thesis using 1(1,2) by (intro exI[of _ ?db] exI[of _ db1] exI[of _ db2]) (simp add: diskView_def)
qed



text \<open>
  C33: a crash in the middle of a commit corrupts the database.  The flush of the log writes the header pages, with the commit
  record, before it writes the data pages.  If the system stops in between, the log looks committed when it is opened again, and
  the recovery reads the data page right at the end of the log file, which delivers nothing and raises no error: it overwrites the
  page of the database with the initial content of its page buffer, and both the old and the new content are lost.
\<close>

theorem crash_between_flushes_corrupts_page:
  assumes ok: "database_ok db" and fresh: "numPages (fileHandle (dbWal db)) = 1"
    and sid: "versionedStructure sid" and i: "i < numPages (vfh (files db sid))" and p: "dbFile (files db sid) i = Some p"
  shows "\<exists>db1 w db2. runOp junk (UpdatePage sid i f) db = Inr db1 \<and>
    newWAL 2 (walFile (flushHeaderPages (logCommit (dbWal db1) t))) = Inr w \<and>
    recoverIfNecessary 2 zeroPage \<lparr>files = files db, dbWal = w, effects = []\<rparr> = Inr db2 \<and> dbFile (files db2 sid) i = Some zeroPage"
proof -
  let ?st = "storageOf db sid"
  have inv: "txn_inv db []" using ok by (simp add: database_ok_def)
  note sok = txn_invD(1,2)[OF inv sid]
  have new: "walVersion (vfh ?st) i = None" using database_ok_views(1)[OF ok sid] by simp
  have pc: "pinnedContent junk ?st i False = Some p" using p new by (simp add: pinnedContent_def wrPage_def)
  have i': "i < numPages (vfh ?st)" "i \<notin> {}" and rm: "walPages ?st + 2 \<le> UINT32_MAX" using i fresh by (simp_all add: UINT32_MAX_def)
  obtain st w where 1: "updatePage junk ?st i False f = Inr st" "w = (case walVersion (vfh ?st) i of Some w' \<Rightarrow> w' | None \<Rightarrow> walPages ?st)"
    "wal st = (versionedWAL ?st i p)\<lparr>walFrames := (walFrames (versionedWAL ?st i p))
                (w := map_option (map_prod f id) (walFrames (versionedWAL ?st i p) w))\<rparr>"
    by (rule updatePage_props[OF sok(1) i' pc rm])
  obtain k w1 where lg: "logPageUpdateRecord (dbWal db) sid i = (k, w1)" by fastforce
  obtain w0 where w0: "addNewWALPage (dbWal db) = (k, w0)" "w1 = addNewWALRecordNoLock w0 (newPageUpdateRecord sid i k)"
    using logPageRecord_calls(1)[OF lg] by blast
  obtain fr where ws: "wal st = w1\<lparr>walFrames := fr\<rparr>" using 1(3) new lg sok(2) by (simp add: versionedWAL_def)
  define r where "r = \<lparr>storageStructureID = sid, pageIdxInOriginalFile = i, pageIdxInWAL = k, isInsert = False\<rparr>"
  have r: "newPageUpdateRecord sid i k = PAGE_UPDATE_OR_INSERT_RECORD r"
    by (simp add: newPageUpdateRecord_def newPageInsertOrUpdateRecord_def r_def)
  note tl = torn_log(1)[OF ok fresh w0(1) w0(2)[unfolded r]] torn_log(2,3)[OF ok fresh w0(1) w0(2)[unfolded r], where fr = fr and t = t, folded ws]
  let ?f = "walFile (flushHeaderPages (logCommit (wal st) t))"
  obtain w' where w': "newWAL 2 ?f = Inr w'" "\<not> isEmptyWAL w'" "isLastLoggedRecordCommit w'"
    "readLog 2 w' = Inr [PAGE_UPDATE_OR_INSERT_RECORD r, COMMIT_RECORD t]" "walFile (flushHeaderPages w') = ?f" "updatedUnstructuredPropertyLists w' = []"
    using tl(3) by blast
  let ?s = "\<lparr>files = files db, dbWal = flushHeaderPages w', effects = [], pageBuffer = zeroPage\<rparr>"
  have "readDataPage (walFile (dbWal ?s)) (pageBuffer ?s) (pageIdxInWAL r) = Inr zeroPage" using w'(5) tl(1,2) by (simp add: readDataPage_def r_def)
  moreover have "versionedStructure (storageStructureID r)" using sid by (simp add: r_def)
  ultimately obtain s' where s': "replayAll True True [PAGE_UPDATE_OR_INSERT_RECORD r, COMMIT_RECORD t] ?s = Inr s'" "dbWal s' = dbWal ?s"
    "dbFile (files s' sid) i = Some zeroPage"
    using recoverPage[of r ?s zeroPage] by (simp add: r_def)
  have "updatedUnstructuredPropertyLists (dbWal s') = []" using s'(2) w'(6) by (simp add: flushHeaderPages_def writeHeaderPage_def)
  from recover_call[OF w'(4,3,2) s'(1) this] obtain db2 where "recoverIfNecessary 2 zeroPage \<lparr>files = files db, dbWal = w', effects = []\<rparr> = Inr db2"
    "files db2 = files s'" by blast
  then show ?thesis using 1(1) w'(1) s'(3) by (intro exI[of _ "putStorage db sid st"] exI[of _ w'] exI[of _ db2]) simp
qed

theorem crash_between_flushes_corrupts_page_witness:
  "\<exists>(db :: nat database) db1 w db2. dbFile (files db exampleColumn) 0 = Some 5 \<and> runOp 0 (UpdatePage exampleColumn 0 Suc) db = Inr db1 \<and>
     newWAL 2 (walFile (flushHeaderPages (logCommit (dbWal db1) 7))) = Inr w \<and>
     recoverIfNecessary 2 0 \<lparr>files = files db, dbWal = w, effects = []\<rparr> = Inr db2 \<and> dbFile (files db2 exampleColumn) 0 = Some 0"
proof -
  obtain w :: "nat WAL" where w: "database_ok \<lparr>files = exampleFiles, dbWal = w, effects = []\<rparr>" "numPages (fileHandle w) = 1"
    by (rule exampleDatabase)
  let ?db = "\<lparr>files = exampleFiles, dbWal = w, effects = []\<rparr>"
  have "\<exists>db1 w db2. runOp 0 (UpdatePage exampleColumn 0 Suc) ?db = Inr db1 \<and> newWAL 2 (walFile (flushHeaderPages (logCommit (dbWal db1) 7))) = Inr w \<and>
    recoverIfNecessary 2 0 \<lparr>files = files ?db, dbWal = w, effects = []\<rparr> = Inr db2 \<and> dbFile (files db2 exampleColumn) 0 = Some 0"
    by (rule crash_between_flushes_corrupts_page[OF w(1) _ exampleColumn_versioned, of 0 5]) (use w(2) in simp_all)
  moreover have "dbFile (files ?db exampleColumn) 0 = Some 5" by simp
  ultimately show ?thesis by blast
qed

end
