(* ===== verification/Buffer_Pool.thy ===== *)
theory Buffer_Pool
  imports Prelude File_Handle
begin

text \<open>
  The buffer pool: \<^verbatim>\<open>src/src/storage/buffer_manager/buffer_pool.cpp\<close> and
  \<^verbatim>\<open>include/buffer_pool.h\<close>.  The state joins the pool (frames, clock hand, metrics) with what its
  operations change outside it: the file handles, named by numbers in place of their addresses, and the
  contents of the files, one value per page.  An operation returns its result or the exception it throws
  together with the state, since an exception leaves behind what was done before it.

  The model is of one caller at a time: page locks and frame locks are taken and released as in the code, and
  a blocking acquisition of a lock that is already held gives \<open>Blocks\<close>.
\<close>

section \<open>State\<close>

record BufferManagerMetrics =
  numPins :: nat
  numEvicts :: nat
  numEvictFails :: nat
  numRecentlyAccessedWalkover :: nat
  numCacheHit :: nat
  numCacheMiss :: nat
  numDirtyPageWriteIO :: nat

record 'p Frame =
  fileHandlePtr :: "nat option"
  framePageIdx :: page_idx
  pinCount :: u32
  recentlyAccessed :: bool
  isDirty :: bool
  buffer :: 'p
  frameLock :: bool

record 'p BufferPool =
  bufferCache :: "'p Frame list"
  clockHand :: nat
  numFrames :: nat
  bmMetrics :: BufferManagerMetrics
  handles :: "nat \<Rightarrow> FileHandle"
  files :: "nat \<Rightarrow> page_idx \<Rightarrow> 'p"

type_synonym ('p, 'a) pool_op = "'p BufferPool \<Rightarrow> 'a result \<times> 'p BufferPool"

definition EMPTY_PIN_COUNT :: u32 where
  "EMPTY_PIN_COUNT = - 1"

definition frameAt :: "'p BufferPool \<Rightarrow> nat \<Rightarrow> 'p Frame" where
  "frameAt s f = bufferCache s ! f"

definition setFrame :: "nat \<Rightarrow> 'p Frame \<Rightarrow> 'p BufferPool \<Rightarrow> 'p BufferPool" where
  "setFrame f fr s = s\<lparr>bufferCache := (bufferCache s)[f := fr]\<rparr>"

definition setHandle :: "nat \<Rightarrow> FileHandle \<Rightarrow> 'p BufferPool \<Rightarrow> 'p BufferPool" where
  "setHandle h fh s = s\<lparr>handles := (handles s)(h := fh)\<rparr>"

definition bumpMetrics ::
  "(BufferManagerMetrics \<Rightarrow> BufferManagerMetrics) \<Rightarrow> 'p BufferPool \<Rightarrow> 'p BufferPool" where
  "bumpMetrics g s = s\<lparr>bmMetrics := g (bmMetrics s)\<rparr>"

definition op_bind :: "('p, 'a) pool_op \<Rightarrow> ('a \<Rightarrow> ('p, 'b) pool_op) \<Rightarrow> ('p, 'b) pool_op" where
  "op_bind m g s = (case m s of (Inl e, s1) \<Rightarrow> (Inl e, s1) | (Inr x, s1) \<Rightarrow> g x s1)"

definition op_return :: "'a \<Rightarrow> ('p, 'a) pool_op" where
  "op_return x s = (Inr x, s)"

definition op_throw :: "error \<Rightarrow> ('p, 'a) pool_op" where
  "op_throw e s = (Inl e, s)"

definition op_modify :: "('p BufferPool \<Rightarrow> 'p BufferPool) \<Rightarrow> ('p, unit) pool_op" where
  "op_modify g s = (Inr (), g s)"

section \<open>Frames\<close>

definition resetFrameWithoutLock :: "'p Frame \<Rightarrow> 'p Frame" where
  "resetFrameWithoutLock fr =
     fr\<lparr>fileHandlePtr := None, framePageIdx := UINT32_MAX, pinCount := EMPTY_PIN_COUNT,
        recentlyAccessed := False, isDirty := False\<rparr>"

definition newFrame :: "'p \<Rightarrow> 'p Frame" where
  "newFrame b = \<lparr>fileHandlePtr = None, framePageIdx = UINT32_MAX, pinCount = EMPTY_PIN_COUNT,
     recentlyAccessed = False, isDirty = False, buffer = b, frameLock = False\<rparr>"

definition acquireFrameLock :: "nat \<Rightarrow> bool \<Rightarrow> ('p, bool) pool_op" where
  "acquireFrameLock f block s =
     (let got = (\<not> frameLock (frameAt s f))
      in if block \<and> \<not> got then (Inl Blocks, s)
         else (Inr got, setFrame f ((frameAt s f)\<lparr>frameLock := True\<rparr>) s))"

definition releaseFrameLock :: "nat \<Rightarrow> ('p, unit) pool_op" where
  "releaseFrameLock f = op_modify (\<lambda>s. setFrame f ((frameAt s f)\<lparr>frameLock := False\<rparr>) s)"

text \<open>Page locks and the frame map, in the handle.\<close>

definition lockPage :: "nat \<Rightarrow> page_idx \<Rightarrow> bool \<Rightarrow> ('p, bool) pool_op" where
  "lockPage h p block s =
     (case acquirePageLock (handles s h) p block of
        Inl e \<Rightarrow> (Inl e, s)
      | Inr (got, fh) \<Rightarrow> (Inr got, setHandle h fh s))"

definition unlockPage :: "nat \<Rightarrow> page_idx \<Rightarrow> ('p, unit) pool_op" where
  "unlockPage h p s =
     (case releasePageLock (handles s h) p of
        Inl e \<Rightarrow> (Inl e, s)
      | Inr fh \<Rightarrow> (Inr (), setHandle h fh s))"

definition frameIdxOf :: "nat \<Rightarrow> page_idx \<Rightarrow> ('p, page_idx) pool_op" where
  "frameIdxOf h p s = (getFrameIdx (handles s h) p, s)"

section \<open>Moving pages between frames and files\<close>

definition flushIfDirty :: "nat \<Rightarrow> ('p, unit) pool_op" where
  "flushIfDirty f s =
     (let fr = frameAt s f
      in if isDirty fr
         then case fileHandlePtr fr of
                None \<Rightarrow> (Inl (UndefinedBehaviour ''file handle of an empty frame''), s)
              | Some h \<Rightarrow> (Inr (), bumpMetrics (numDirtyPageWriteIO_update Suc)
                              (s\<lparr>files := (files s)(h := (files s h)(framePageIdx fr := buffer fr))\<rparr>))
         else (Inr (), s))"

definition clearFrameAndUnswizzleWithoutLock :: "nat \<Rightarrow> nat \<Rightarrow> page_idx \<Rightarrow> ('p, unit) pool_op" where
  "clearFrameAndUnswizzleWithoutLock f h p = op_modify (\<lambda>s.
     let s1 = setFrame f (resetFrameWithoutLock (frameAt s f)) s
     in setHandle h (unswizzle (handles s1 h) p) s1)"

definition readNewPageIntoFrame :: "nat \<Rightarrow> nat \<Rightarrow> page_idx \<Rightarrow> bool \<Rightarrow> ('p, unit) pool_op" where
  "readNewPageIntoFrame f h p doNotReadFromFile = op_modify (\<lambda>s.
     let fr = (frameAt s f)\<lparr>pinCount := 1, recentlyAccessed := True, isDirty := False,
                            framePageIdx := p, fileHandlePtr := Some h\<rparr>
     in setFrame f (if doNotReadFromFile then fr else fr\<lparr>buffer := files s h p\<rparr>) s)"

definition fillEmptyFrame :: "nat \<Rightarrow> nat \<Rightarrow> page_idx \<Rightarrow> bool \<Rightarrow> ('p, bool) pool_op" where
  "fillEmptyFrame f h p doNotReadFromFile =
     op_bind (acquireFrameLock f False) (\<lambda>got.
       if \<not> got then op_return False
       else (\<lambda>s.
         if pinCount (frameAt s f) = EMPTY_PIN_COUNT
         then op_bind (readNewPageIntoFrame f h p doNotReadFromFile) (\<lambda>_.
              op_bind (releaseFrameLock f) (\<lambda>_. op_return True)) s
         else op_bind (releaseFrameLock f) (\<lambda>_. op_return False) s))"

definition tryEvict :: "nat \<Rightarrow> nat \<Rightarrow> page_idx \<Rightarrow> bool \<Rightarrow> ('p, bool) pool_op" where
  "tryEvict f h p doNotReadFromFile s =
     (if recentlyAccessed (frameAt s f)
      then (Inr False, bumpMetrics (numRecentlyAccessedWalkover_update Suc)
                         (setFrame f ((frameAt s f)\<lparr>recentlyAccessed := False\<rparr>) s))
      else op_bind (acquireFrameLock f False) (\<lambda>got.
        if \<not> got then op_return False
        else (\<lambda>s1.
          let pageIdxInFrame = framePageIdx (frameAt s1 f)
          in case fileHandlePtr (frameAt s1 f) of
               None \<Rightarrow> op_throw (UndefinedBehaviour ''file handle of an empty frame'') s1
             | Some h1 \<Rightarrow>
                 op_bind (lockPage h1 pageIdxInFrame False) (\<lambda>gotPage.
                   if \<not> gotPage
                   then op_bind (op_modify (bumpMetrics (numEvictFails_update Suc))) (\<lambda>_.
                        op_bind (releaseFrameLock f) (\<lambda>_. op_return False))
                   else (\<lambda>s2.
                     if pinCount (frameAt s2 f) \<noteq> 0
                     then op_bind (op_modify (bumpMetrics (numEvictFails_update Suc))) (\<lambda>_.
                          op_bind (unlockPage h1 pageIdxInFrame) (\<lambda>_.
                          op_bind (releaseFrameLock f) (\<lambda>_. op_return False))) s2
                     else op_bind (flushIfDirty f) (\<lambda>_.
                          op_bind (clearFrameAndUnswizzleWithoutLock f h1 pageIdxInFrame) (\<lambda>_.
                          op_bind (unlockPage h1 pageIdxInFrame) (\<lambda>_.
                          op_bind (readNewPageIntoFrame f h p doNotReadFromFile) (\<lambda>_.
                          op_bind (releaseFrameLock f) (\<lambda>_.
                          op_bind (op_modify (bumpMetrics (numEvicts_update Suc))) (\<lambda>_.
                            op_return True)))))) s2)) s1)) s)"

text \<open>With one caller the compare-and-swap succeeds at the first try.\<close>

definition moveClockHand :: "nat \<Rightarrow> ('p, unit) pool_op" where
  "moveClockHand newClockHand = op_modify (\<lambda>s.
     if clockHand s > newClockHand then s else s\<lparr>clockHand := newClockHand\<rparr>)"

fun claimLoop :: "nat \<Rightarrow> nat \<Rightarrow> page_idx \<Rightarrow> bool \<Rightarrow> nat list \<Rightarrow> ('p, page_idx) pool_op" where
  "claimLoop localClockHand h p doNotReadFromFile [] =
     op_throw (BufferManagerException ''Cannot find a frame to evict from.'')"
| "claimLoop localClockHand h p doNotReadFromFile (i # is) = (\<lambda>s.
     let f = (localClockHand mod numFrames s + i) mod numFrames s;
         pc = pinCount (frameAt s f)
     in if pc = EMPTY_PIN_COUNT
        then op_bind (fillEmptyFrame f h p doNotReadFromFile) (\<lambda>ok.
               if ok then op_bind (moveClockHand (localClockHand + i + 1)) (\<lambda>_. op_return f)
               else claimLoop localClockHand h p doNotReadFromFile is) s
        else if pc = 0
        then op_bind (tryEvict f h p doNotReadFromFile) (\<lambda>ok.
               if ok then op_bind (moveClockHand (localClockHand + i + 1)) (\<lambda>_. op_return f)
               else claimLoop localClockHand h p doNotReadFromFile is) s
        else claimLoop localClockHand h p doNotReadFromFile is s)"

definition claimAFrame :: "nat \<Rightarrow> page_idx \<Rightarrow> bool \<Rightarrow> ('p, page_idx) pool_op" where
  "claimAFrame h p doNotReadFromFile s =
     claimLoop (clockHand s) h p doNotReadFromFile [0..<2 * numFrames s] s"

section \<open>Public operations\<close>

text \<open>The value is the frame whose buffer the returned pointer denotes.\<close>

definition pinWithoutAcquiringPageLock :: "nat \<Rightarrow> page_idx \<Rightarrow> bool \<Rightarrow> ('p, page_idx) pool_op" where
  "pinWithoutAcquiringPageLock h p doNotReadFromFile =
     op_bind (frameIdxOf h p) (\<lambda>frameIdx.
     op_bind (if isAFrame frameIdx
              then op_modify (\<lambda>s. setFrame frameIdx
                     ((frameAt s frameIdx)\<lparr>pinCount := pinCount (frameAt s frameIdx) + 1,
                                            recentlyAccessed := True\<rparr>) s)
              else op_bind (claimAFrame h p doNotReadFromFile) (\<lambda>f.
                   op_bind (op_modify (\<lambda>s. setHandle h (swizzle (handles s h) p f) s)) (\<lambda>_.
                   op_modify (if doNotReadFromFile then (\<lambda>s. s)
                              else bumpMetrics (numCacheMiss_update Suc))))) (\<lambda>_.
     op_bind (op_modify (bumpMetrics (numPins_update Suc))) (\<lambda>_. frameIdxOf h p)))"

definition pinPage :: "nat \<Rightarrow> page_idx \<Rightarrow> bool \<Rightarrow> ('p, page_idx) pool_op" where
  "pinPage h p doNotReadFromFile =
     op_bind (lockPage h p True) (\<lambda>_.
     op_bind (pinWithoutAcquiringPageLock h p doNotReadFromFile) (\<lambda>f.
     op_bind (unlockPage h p) (\<lambda>_. op_return f)))"

definition pin :: "nat \<Rightarrow> page_idx \<Rightarrow> ('p, page_idx) pool_op" where
  "pin h p = pinPage h p False"

definition pinWithoutReadingFromFile :: "nat \<Rightarrow> page_idx \<Rightarrow> ('p, page_idx) pool_op" where
  "pinWithoutReadingFromFile h p = pinPage h p True"

definition unpinWithoutAcquiringPageLock :: "nat \<Rightarrow> page_idx \<Rightarrow> ('p, unit) pool_op" where
  "unpinWithoutAcquiringPageLock h p =
     op_bind (frameIdxOf h p) (\<lambda>f.
       if isAFrame f
       then op_modify (\<lambda>s. setFrame f ((frameAt s f)\<lparr>pinCount := pinCount (frameAt s f) - 1\<rparr>) s)
       else op_throw (UndefinedBehaviour ''bufferCache index''))"

definition unpin :: "nat \<Rightarrow> page_idx \<Rightarrow> ('p, unit) pool_op" where
  "unpin h p = op_bind (lockPage h p True) (\<lambda>_.
     op_bind (unpinWithoutAcquiringPageLock h p) (\<lambda>_. unlockPage h p))"

definition setPinnedPageDirty :: "nat \<Rightarrow> page_idx \<Rightarrow> ('p, unit) pool_op" where
  "setPinnedPageDirty h p =
     op_bind (lockPage h p True) (\<lambda>_.
     op_bind (frameIdxOf h p) (\<lambda>f. (\<lambda>s.
       if \<not> isAFrame f \<or> pinCount (frameAt s f) < 1
       then op_bind (unlockPage h p) (\<lambda>_. op_throw (BufferManagerException
              ''If a page is not in memory or is not pinned, cannot set it to isDirty'')) s
       else op_bind (op_modify (setFrame f ((frameAt s f)\<lparr>isDirty := True\<rparr>))) (\<lambda>_. unlockPage h p) s)))"

definition removePageFromFrame :: "nat \<Rightarrow> page_idx \<Rightarrow> bool \<Rightarrow> ('p, unit) pool_op" where
  "removePageFromFrame h p shouldFlush =
     op_bind (lockPage h p True) (\<lambda>_.
     op_bind (frameIdxOf h p) (\<lambda>f.
     op_bind (if isAFrame f
              then op_bind (acquireFrameLock f True) (\<lambda>_.
                   op_bind (if shouldFlush then flushIfDirty f else op_return ()) (\<lambda>_.
                   op_bind (clearFrameAndUnswizzleWithoutLock f h p) (\<lambda>_. releaseFrameLock f)))
              else op_return ()) (\<lambda>_.
     unlockPage h p)))"

fun removePages :: "nat \<Rightarrow> bool \<Rightarrow> page_idx list \<Rightarrow> ('p, unit) pool_op" where
  "removePages h shouldFlush [] = op_return ()"
| "removePages h shouldFlush (p # ps) =
     op_bind (removePageFromFrame h p shouldFlush) (\<lambda>_. removePages h shouldFlush ps)"

definition removeFilePagesFromFrames :: "nat \<Rightarrow> ('p, unit) pool_op" where
  "removeFilePagesFromFrames h s = removePages h False [0..<numPages (handles s h)] s"

definition flushAllDirtyPagesInFrames :: "nat \<Rightarrow> ('p, unit) pool_op" where
  "flushAllDirtyPagesInFrames h s = removePages h True [0..<numPages (handles s h)] s"

definition removePageFromFrameWithoutFlushingIfNecessary :: "nat \<Rightarrow> page_idx \<Rightarrow> ('p, unit) pool_op" where
  "removePageFromFrameWithoutFlushingIfNecessary h p s =
     (if p \<ge> numPages (handles s h) then (Inr (), s) else removePageFromFrame h p False s)"

definition updateFrameIfPageIsInFrameWithoutPageOrFrameLock :: "nat \<Rightarrow> 'p \<Rightarrow> page_idx \<Rightarrow> ('p, unit) pool_op" where
  "updateFrameIfPageIsInFrameWithoutPageOrFrameLock h newPage p =
     op_bind (frameIdxOf h p) (\<lambda>f.
       if isAFrame f then op_modify (\<lambda>s. setFrame f ((frameAt s f)\<lparr>buffer := newPage\<rparr>) s)
       else op_return ())"

definition framesForSize :: "nat \<Rightarrow> nat \<Rightarrow> nat" where
  "framesForSize pageSize maxSize = (maxSize + pageSize - 1) div pageSize"

definition newBufferPool :: "nat \<Rightarrow> nat \<Rightarrow> 'p \<Rightarrow> (nat \<Rightarrow> FileHandle) \<Rightarrow> (nat \<Rightarrow> page_idx \<Rightarrow> 'p) \<Rightarrow> 'p BufferPool" where
  "newBufferPool pageSize maxSize zero hs fs =
     \<lparr>bufferCache = replicate (framesForSize pageSize maxSize) (newFrame zero), clockHand = 0,
      numFrames = framesForSize pageSize maxSize,
      bmMetrics = \<lparr>numPins = 0, numEvicts = 0, numEvictFails = 0, numRecentlyAccessedWalkover = 0,
        numCacheHit = 0, numCacheMiss = 0, numDirtyPageWriteIO = 0\<rparr>,
      handles = hs, files = fs\<rparr>"

definition resize :: "nat \<Rightarrow> nat \<Rightarrow> 'p \<Rightarrow> ('p, unit) pool_op" where
  "resize pageSize newSize zero s =
     (if numFrames s * pageSize > newSize
      then (Inl (BufferManagerException ''Resizing to a smaller Buffer Pool Size is unsupported!''), s)
      else let n = framesForSize pageSize newSize
           in (Inr (), s\<lparr>bufferCache := bufferCache s @ replicate (n - numFrames s) (newFrame zero),
                         numFrames := n\<rparr>))"

section \<open>Representation invariant and the pages a client sees\<close>

definition frameOf :: "'p BufferPool \<Rightarrow> nat \<Rightarrow> page_idx \<Rightarrow> page_idx option" where
  "frameOf s h p = (case pageIdxToFrameMap (handles s h) ! p of
                      Some f \<Rightarrow> if isAFrame f then Some f else None | None \<Rightarrow> None)"

text \<open>The content of a page: its frame's buffer when it is resident, the file's otherwise.\<close>

definition page_view :: "'p BufferPool \<Rightarrow> nat \<Rightarrow> page_idx \<Rightarrow> 'p" where
  "page_view s h p = (case frameOf s h p of Some f \<Rightarrow> buffer (frameAt s f) | None \<Rightarrow> files s h p)"

text \<open>
  Frames and the handles' frame maps point at each other; a frame that nobody has pinned and that is not
  marked dirty agrees with the file.  \<open>L\<close> is the set of pages whose lock is held.
\<close>

definition bp_inv :: "(nat \<times> page_idx) set \<Rightarrow> 'p BufferPool \<Rightarrow> bool" where
  "bp_inv L s \<longleftrightarrow>
     0 < numFrames s \<and> length (bufferCache s) = numFrames s \<and> numFrames s < UINT32_MAX \<and>
     (\<forall>h. fh_inv (handles s h)) \<and>
     (\<forall>h. \<forall>p < numPages (handles s h). pageLocks (handles s h) ! p = Some ((h, p) \<in> L)) \<and>
     (\<forall>f < numFrames s. \<not> frameLock (frameAt s f)) \<and>
     (\<forall>h. \<forall>p < numPages (handles s h). \<forall>f. frameOf s h p = Some f \<longrightarrow>
        f < numFrames s \<and> pinCount (frameAt s f) \<noteq> EMPTY_PIN_COUNT \<and>
        fileHandlePtr (frameAt s f) = Some h \<and> framePageIdx (frameAt s f) = p) \<and>
     (\<forall>f < numFrames s. pinCount (frameAt s f) \<noteq> EMPTY_PIN_COUNT \<longrightarrow>
        (\<exists>h. fileHandlePtr (frameAt s f) = Some h \<and> framePageIdx (frameAt s f) < numPages (handles s h) \<and>
             frameOf s h (framePageIdx (frameAt s f)) = Some f)) \<and>
     (\<forall>f < numFrames s. \<forall>h. pinCount (frameAt s f) = 0 \<longrightarrow> \<not> isDirty (frameAt s f) \<longrightarrow>
        fileHandlePtr (frameAt s f) = Some h \<longrightarrow> buffer (frameAt s f) = files s h (framePageIdx (frameAt s f)))"

definition core :: "'p BufferPool \<Rightarrow> 'p Frame list \<times> nat \<times> (nat \<Rightarrow> FileHandle) \<times> (nat \<Rightarrow> page_idx \<Rightarrow> 'p)" where
  "core s = (bufferCache s, numFrames s, handles s, files s)"

lemma core_iff:
  "core s = core t \<longleftrightarrow> bufferCache s = bufferCache t \<and> numFrames s = numFrames t \<and>
     handles s = handles t \<and> files s = files t"
  by (simp add: core_def)

lemma bp_inv_core: "core s = core t \<Longrightarrow> bp_inv L s = bp_inv L t"
  by (simp add: core_iff bp_inv_def frameAt_def frameOf_def)

lemma page_view_core: "core s = core t \<Longrightarrow> page_view s = page_view t"
  by (intro ext) (auto simp: core_iff page_view_def frameAt_def frameOf_def split: option.splits)

lemma core_bump [simp]:
  "core (bumpMetrics g s) = core s" "core (s\<lparr>clockHand := c\<rparr>) = core s"
  by (simp_all add: core_def bumpMetrics_def)

lemma bump_simps [simp]:
  "frameAt (bumpMetrics g s) f = frameAt s f" "handles (bumpMetrics g s) = handles s"
  "files (bumpMetrics g s) = files s" "numFrames (bumpMetrics g s) = numFrames s"
  "bufferCache (bumpMetrics g s) = bufferCache s"
  by (simp_all add: bumpMetrics_def frameAt_def)

lemma set_simps [simp]:
  "numFrames (setFrame f fr s) = numFrames s" "handles (setFrame f fr s) = handles s"
  "files (setFrame f fr s) = files s" "clockHand (setFrame f fr s) = clockHand s"
  "bufferCache (setFrame f fr s) = (bufferCache s)[f := fr]"
  "numFrames (setHandle h fh s) = numFrames s" "bufferCache (setHandle h fh s) = bufferCache s"
  "files (setHandle h fh s) = files s" "frameAt (setHandle h fh s) f = frameAt s f"
  "handles (setHandle h fh s) = (handles s)(h := fh)" "clockHand (setHandle h fh s) = clockHand s"
  by (simp_all add: setFrame_def setHandle_def frameAt_def)

lemma frameAt_setFrame:
  "f < length (bufferCache s) \<Longrightarrow> frameAt (setFrame f fr s) g = (if g = f then fr else frameAt s g)"
  by (simp add: frameAt_def setFrame_def)

lemma frameAt_files [simp]: "frameAt (s\<lparr>files := x\<rparr>) f = frameAt s f"
  by (simp add: frameAt_def)

lemmas op_simps = op_bind_def op_return_def op_throw_def op_modify_def

lemma frameOf_handles: "handles s = handles t \<Longrightarrow> frameOf s = frameOf t"
  by (intro ext) (simp add: frameOf_def)

lemma lockPage_ok:
  assumes "fh_inv (handles s h)" and "p < numPages (handles s h)"
    and "pageLocks (handles s h) ! p = Some False"
  shows "lockPage h p b s =
           (Inr True, setHandle h ((handles s h)\<lparr>pageLocks := (pageLocks (handles s h))[p := Some True]\<rparr>) s)"
  using assms by (simp add: lockPage_def acquirePageLock_def acquire_def fh_inv_def)

lemma unlockPage_ok:
  assumes "fh_inv (handles s h)" and "p < numPages (handles s h)"
  shows "unlockPage h p s =
           (Inr (), setHandle h ((handles s h)\<lparr>pageLocks := (pageLocks (handles s h))[p := Some False]\<rparr>) s)"
  using assms by (auto simp: unlockPage_def releasePageLock_def fh_inv_def)

lemma frameIdxOf_ok:
  assumes "fh_inv (handles s h)" and "p < numPages (handles s h)"
  shows "frameIdxOf h p s = (Inr (case frameOf s h p of Some f \<Rightarrow> f | None \<Rightarrow> UINT32_MAX), s)"
  using assms
  by (auto simp: frameIdxOf_def getFrameIdx_def fh_inv_def frameOf_def isAFrame_def split: option.splits)

lemma isAFrame_frameOf: "bp_inv L s \<Longrightarrow> p < numPages (handles s h) \<Longrightarrow> frameOf s h p = Some f \<Longrightarrow> isAFrame f"
  by (auto simp: frameOf_def split: option.splits if_splits)

lemma not_isAFrame_max [simp]: "\<not> isAFrame UINT32_MAX"
  by (simp add: isAFrame_def)

section \<open>Eviction and loading as pure state changes\<close>

definition evictS :: "bool \<Rightarrow> nat \<Rightarrow> 'p BufferPool \<Rightarrow> 'p BufferPool" where
  "evictS w f s =
     (let fr = frameAt s f; h1 = the (fileHandlePtr fr); p1 = framePageIdx fr
      in setHandle h1 (unswizzle (handles s h1) p1)
           (setFrame f (resetFrameWithoutLock fr)
              (if w \<and> isDirty fr then s\<lparr>files := (files s)(h1 := (files s h1)(p1 := buffer fr))\<rparr> else s)))"

definition loadS :: "nat \<Rightarrow> nat \<Rightarrow> page_idx \<Rightarrow> bool \<Rightarrow> 'p BufferPool \<Rightarrow> 'p BufferPool" where
  "loadS f h p nr s =
     setFrame f ((frameAt s f)\<lparr>pinCount := 1, recentlyAccessed := True, isDirty := False,
       framePageIdx := p, fileHandlePtr := Some h,
       buffer := if nr then buffer (frameAt s f) else files s h p, frameLock := False\<rparr>) s"

lemma update_same: "xs ! p = v \<Longrightarrow> xs[p := v] = xs"
  by auto

lemma reset_lock:
  "resetFrameWithoutLock (fr\<lparr>frameLock := b\<rparr>) = (resetFrameWithoutLock fr)\<lparr>frameLock := b\<rparr>"
  by (cases fr) (simp add: resetFrameWithoutLock_def)

lemma bp_inv_size: "bp_inv L s \<Longrightarrow> 0 < numFrames s \<and> length (bufferCache s) = numFrames s \<and> numFrames s < UINT32_MAX"
  unfolding bp_inv_def by blast

lemma bp_inv_fh: "bp_inv L s \<Longrightarrow> fh_inv (handles s h)"
  unfolding bp_inv_def by blast

lemma bp_inv_lock: "bp_inv L s \<Longrightarrow> p < numPages (handles s h) \<Longrightarrow> pageLocks (handles s h) ! p = Some ((h, p) \<in> L)"
  unfolding bp_inv_def by blast

lemma bp_inv_frameLock: "bp_inv L s \<Longrightarrow> f < numFrames s \<Longrightarrow> \<not> frameLock (frameAt s f)"
  unfolding bp_inv_def by blast

lemma bp_inv_map:
  "bp_inv L s \<Longrightarrow> p < numPages (handles s h) \<Longrightarrow> frameOf s h p = Some f \<Longrightarrow>
     f < numFrames s \<and> pinCount (frameAt s f) \<noteq> EMPTY_PIN_COUNT \<and>
     fileHandlePtr (frameAt s f) = Some h \<and> framePageIdx (frameAt s f) = p"
  unfolding bp_inv_def by blast

lemma bp_inv_clean:
  "bp_inv L s \<Longrightarrow> f < numFrames s \<Longrightarrow> pinCount (frameAt s f) = 0 \<Longrightarrow> fileHandlePtr (frameAt s f) = Some h \<Longrightarrow>
     isDirty (frameAt s f) \<or> buffer (frameAt s f) = files s h (framePageIdx (frameAt s f))"
  unfolding bp_inv_def by blast

lemmas bp_invD = bp_inv_size bp_inv_fh bp_inv_lock bp_inv_frameLock bp_inv_map bp_inv_clean

lemma resident_frame:
  assumes "bp_inv L s" and "f < numFrames s" and "pinCount (frameAt s f) \<noteq> EMPTY_PIN_COUNT"
  shows "\<exists>h. fileHandlePtr (frameAt s f) = Some h \<and> framePageIdx (frameAt s f) < numPages (handles s h) \<and>
             frameOf s h (framePageIdx (frameAt s f)) = Some f"
  using assms unfolding bp_inv_def by blast

lemma fillEmptyFrame_ok:
  assumes inv: "bp_inv L s" and f: "f < numFrames s" and e: "pinCount (frameAt s f) = EMPTY_PIN_COUNT"
  shows "\<exists>s'. fillEmptyFrame f h p nr s = (Inr True, s') \<and> core s' = core (loadS f h p nr s) \<and>
              clockHand s' = clockHand s"
proof -
  have len: "f < length (bufferCache s)" and lk: "\<not> frameLock (frameAt s f)"
    using inv f by (auto simp: bp_inv_def)
  show ?thesis
    using len lk e
    by (simp add: fillEmptyFrame_def op_simps acquireFrameLock_def Let_def readNewPageIntoFrame_def
        releaseFrameLock_def frameAt_setFrame core_def loadS_def)
qed

lemma tryEvict_walkover:
  assumes "recentlyAccessed (frameAt s f)"
  shows "\<exists>s'. tryEvict f h p nr s = (Inr False, s') \<and> clockHand s' = clockHand s \<and>
              core s' = core (setFrame f ((frameAt s f)\<lparr>recentlyAccessed := False\<rparr>) s)"
  using assms by (simp add: tryEvict_def bumpMetrics_def core_def)

lemma fh_upd_eq: "(fh\<lparr>pageLocks := l\<rparr>)\<lparr>pageLocks := l'\<rparr> = fh\<lparr>pageLocks := l'\<rparr>"
  by simp

lemma unswizzle_locks:
  "unswizzle (fh\<lparr>pageLocks := l\<rparr>) p = (unswizzle fh p)\<lparr>pageLocks := l\<rparr>"
  "pageLocks (unswizzle fh p) = pageLocks fh" "numPages (unswizzle fh p) = numPages fh"
  by (simp_all add: unswizzle_def swizzle_def)

lemma swizzle_inv: "fh_inv fh \<Longrightarrow> fh_inv (swizzle fh p f)"
  by (cases "p < pageCapacity fh") (auto simp: fh_inv_def swizzle_def nth_list_update)

lemma unswizzle_inv: "fh_inv fh \<Longrightarrow> fh_inv (unswizzle fh p)"
  by (simp add: unswizzle_def swizzle_inv)

lemma fh_inv_locks: "fh_inv fh \<Longrightarrow> fh_inv (fh\<lparr>pageLocks := (pageLocks fh)[p := Some b]\<rparr>)"
  by (cases "p < pageCapacity fh") (auto simp: fh_inv_def nth_list_update)

lemma unswizzle_relock:
  "pageLocks fh ! p = Some False \<Longrightarrow>
     (unswizzle (fh\<lparr>pageLocks := (pageLocks fh)[p := Some True]\<rparr>) q)
       \<lparr>pageLocks := (pageLocks (unswizzle (fh\<lparr>pageLocks := (pageLocks fh)[p := Some True]\<rparr>) q))[p := Some False]\<rparr> =
     unswizzle fh q"
  by (cases fh) (simp add: unswizzle_def swizzle_def update_same)

lemma load_core:
  assumes "handles a = handles b" "files a = files b" "numFrames a = numFrames b"
    "bufferCache a = xs[f := fr\<lparr>frameLock := True\<rparr>]" "bufferCache b = xs[f := fr]" "f < length xs"
  shows "core (snd (releaseFrameLock f (snd (readNewPageIntoFrame f h p nr a)))) = core (loadS f h p nr b)"
    and "clockHand (snd (releaseFrameLock f (snd (readNewPageIntoFrame f h p nr a)))) = clockHand a"
  using assms
  by (simp_all add: readNewPageIntoFrame_def releaseFrameLock_def op_modify_def Let_def loadS_def core_iff
      frameAt_def setFrame_def)

text \<open>The part of \<open>tryEvict\<close> after both locks are taken.\<close>

lemma tryEvict_locked:
  assumes "\<not> recentlyAccessed (frameAt s f)" and "\<not> frameLock (frameAt s f)"
    and "fileHandlePtr (frameAt s f) = Some h1" and "f < length (bufferCache s)"
    and "fh_inv (handles s h1)" and "framePageIdx (frameAt s f) < numPages (handles s h1)"
    and "pageLocks (handles s h1) ! framePageIdx (frameAt s f) = Some False"
    and "pinCount (frameAt s f) = 0"
  shows "\<exists>s'. tryEvict f h p nr s = (Inr True, s') \<and> core s' = core (loadS f h p nr (evictS True f s)) \<and>
              clockHand s' = clockHand s"
proof -
  let ?fr = "frameAt s f" and ?fh = "handles s h1"
  let ?p1 = "framePageIdx ?fr"
  let ?fhl = "?fh\<lparr>pageLocks := (pageLocks ?fh)[?p1 := Some True]\<rparr>"
  let ?s1 = "setFrame f (?fr\<lparr>frameLock := True\<rparr>) s"
  let ?s2 = "setHandle h1 ?fhl ?s1"
  have l: "acquireFrameLock f False s = (Inr True, ?s1)"
    using assms(2) by (simp add: acquireFrameLock_def Let_def)
  have fr1: "frameAt ?s1 f = ?fr\<lparr>frameLock := True\<rparr>" using assms(4) by (simp add: frameAt_setFrame)
  have lp: "lockPage h1 ?p1 False ?s1 = (Inr True, ?s2)"
    using lockPage_ok[of ?s1 h1 ?p1 False] assms(5-7) by simp
  let ?s3 = "if isDirty ?fr then bumpMetrics (numDirtyPageWriteIO_update Suc)
               (?s2\<lparr>files := (files s)(h1 := (files s h1)(?p1 := buffer ?fr))\<rparr>) else ?s2"
  have fl: "flushIfDirty f ?s2 = (Inr (), ?s3)"
    using assms(3) fr1 by (simp add: flushIfDirty_def Let_def)
  let ?s4 = "setHandle h1 (unswizzle ?fhl ?p1) (setFrame f (resetFrameWithoutLock (?fr\<lparr>frameLock := True\<rparr>)) ?s3)"
  have fr3: "frameAt ?s3 f = ?fr\<lparr>frameLock := True\<rparr>" using fr1 by simp
  have cl: "clearFrameAndUnswizzleWithoutLock f h1 ?p1 ?s3 = (Inr (), ?s4)"
    using fr3 by (simp add: clearFrameAndUnswizzleWithoutLock_def op_modify_def Let_def)
  let ?s5 = "setHandle h1 (unswizzle ?fh ?p1) ?s4"
  have "fh_inv (handles ?s4 h1)" "?p1 < numPages (handles ?s4 h1)"
    using assms(5,6) unswizzle_inv[OF fh_inv_locks[OF assms(5)]] by (simp_all add: unswizzle_locks)
  from unlockPage_ok[OF this] have ul: "unlockPage h1 ?p1 ?s4 = (Inr (), ?s5)"
    using unswizzle_relock[OF assms(7), of ?p1] by simp
  have len: "f < length (bufferCache ?s5)" using assms(4) by simp
  have te: "tryEvict f h p nr s = (Inr True, bumpMetrics (numEvicts_update Suc)
      (snd (releaseFrameLock f (snd (readNewPageIntoFrame f h p nr ?s5)))))"
    using assms(1,3,8) l lp fl cl ul fr1
    by (simp add: tryEvict_def op_simps Let_def readNewPageIntoFrame_def releaseFrameLock_def)
  have c5: "handles ?s5 = handles (evictS True f s)" "files ?s5 = files (evictS True f s)"
    "numFrames ?s5 = numFrames (evictS True f s)" "clockHand ?s5 = clockHand s"
    "bufferCache ?s5 = (bufferCache s)[f := (resetFrameWithoutLock ?fr)\<lparr>frameLock := True\<rparr>]"
    "bufferCache (evictS True f s) = (bufferCache s)[f := resetFrameWithoutLock ?fr]"
    using assms(3) by (simp_all add: evictS_def Let_def reset_lock bumpMetrics_def)
  note load = load_core[OF c5(1,2,3,5,6) assms(4), of h p nr]
  show ?thesis unfolding te using load c5(4) by (simp add: bumpMetrics_def core_def)
qed

lemma frameOf_setHandle:
  "frameOf (setHandle h (swizzle fh p f) s) h' q =
     (if h' = h then (case (pageIdxToFrameMap fh)[p := Some f] ! q of
                        Some g \<Rightarrow> if isAFrame g then Some g else None | None \<Rightarrow> None)
      else frameOf s h' q)"
  by (simp add: frameOf_def swizzle_def)

lemma frameOf_swizzle:
  assumes "fh_inv (handles s h)" and "p < numPages (handles s h)"
  shows "frameOf (setHandle h (swizzle (handles s h) p f) s) h' q =
     (if h' = h \<and> q = p then (if isAFrame f then Some f else None) else frameOf s h' q)"
  using assms by (auto simp: frameOf_def swizzle_def fh_inv_def nth_list_update)

lemma frameOf_setFrame [simp]: "frameOf (setFrame f fr s) = frameOf s"
  by (intro ext) (simp add: frameOf_def)

lemma frameOf_files [simp]: "frameOf (s\<lparr>files := x\<rparr>) = frameOf s"
  by (intro ext) (simp add: frameOf_def)

lemma evictS_simps:
  assumes "f < length (bufferCache s)" and "fileHandlePtr (frameAt s f) = Some h1"
    and "fh_inv (handles s h1)" and "framePageIdx (frameAt s f) < numPages (handles s h1)"
  shows "frameAt (evictS w f s) g = (if g = f then resetFrameWithoutLock (frameAt s f) else frameAt s g)"
    and "numFrames (evictS w f s) = numFrames s" and "length (bufferCache (evictS w f s)) = length (bufferCache s)"
    and "handles (evictS w f s) = (handles s)(h1 := unswizzle (handles s h1) (framePageIdx (frameAt s f)))"
    and "frameOf (evictS w f s) h q =
           (if h = h1 \<and> q = framePageIdx (frameAt s f) then None else frameOf s h q)"
    and "files (evictS w f s) = (if w \<and> isDirty (frameAt s f)
           then (files s)(h1 := (files s h1)(framePageIdx (frameAt s f) := buffer (frameAt s f))) else files s)"
proof -
  show "frameAt (evictS w f s) g = (if g = f then resetFrameWithoutLock (frameAt s f) else frameAt s g)"
    using assms(1) by (simp add: evictS_def Let_def frameAt_def)
  show "frameOf (evictS w f s) h q = (if h = h1 \<and> q = framePageIdx (frameAt s f) then None else frameOf s h q)"
  proof -
    have "handles (evictS w f s) =
        handles (setHandle h1 (swizzle (handles s h1) (framePageIdx (frameAt s f)) UINT32_MAX) s)"
      using assms(2) by (simp add: evictS_def Let_def unswizzle_def)
    from frameOf_handles[OF this] show ?thesis
      using frameOf_swizzle[OF assms(3,4), of UINT32_MAX h q] by simp
  qed
qed (use assms in \<open>simp_all add: evictS_def Let_def\<close>)

lemma evictS_inv:
  assumes inv: "bp_inv L s" and f: "f < numFrames s" and ne: "pinCount (frameAt s f) \<noteq> EMPTY_PIN_COUNT"
  shows "bp_inv L (evictS w f s)" 
    and "q < numPages (handles s h) \<Longrightarrow> page_view (evictS w f s) h q =
           (if frameOf s h q = Some f
            then if w \<and> isDirty (frameAt s f) then buffer (frameAt s f) else files s h q
            else page_view s h q)"
    and "fileHandlePtr (frameAt s f) = Some h \<Longrightarrow> frameOf (evictS w f s) h (framePageIdx (frameAt s f)) = None"
    and "q < numPages (handles s h) \<Longrightarrow> files (evictS w f s) h q =
           (if frameOf s h q = Some f \<and> w \<and> isDirty (frameAt s f) then buffer (frameAt s f) else files s h q)"
    and "q < numPages (handles s h) \<Longrightarrow> frameOf (evictS w f s) h q =
           (if frameOf s h q = Some f then None else frameOf s h q)"
    and "g \<noteq> f \<Longrightarrow> frameAt (evictS w f s) g = frameAt s g"
    and "pinCount (frameAt (evictS w f s) f) = EMPTY_PIN_COUNT"
    and "frameOf s h q = None \<Longrightarrow> frameOf (evictS w f s) h q = None"
    and "numPages (handles (evictS w f s) h) = numPages (handles s h)"
proof -
  obtain h1 where h1: "fileHandlePtr (frameAt s f) = Some h1" "framePageIdx (frameAt s f) < numPages (handles s h1)"
      "frameOf s h1 (framePageIdx (frameAt s f)) = Some f"
    using resident_frame[OF inv f ne] by auto
  have base: "f < length (bufferCache s)" "fh_inv (handles s h1)"
    using bp_inv_size[OF inv] f bp_inv_fh[OF inv] by auto
  note ev = evictS_simps[OF base(1) h1(1) base(2) h1(2)]
  have np: "numPages (handles (evictS w f s) h) = numPages (handles s h)" for h
    by (simp add: ev unswizzle_locks)
  then show "numPages (handles (evictS w f s) h) = numPages (handles s h)" .
  have uniq: "h' = h1 \<and> q = framePageIdx (frameAt s f)" if "frameOf s h' q = Some f" "q < numPages (handles s h')" for h' q
    using bp_inv_map[OF inv that(2,1)] h1(1) by auto
  have fhs: "fh_inv (handles (evictS w f s) h)" for h
    using bp_inv_fh[OF inv, of h] unswizzle_inv[OF base(2)] by (simp add: ev)
  have locks: "pageLocks (handles (evictS w f s) h) = pageLocks (handles s h)" for h
    by (simp add: ev unswizzle_locks)
  have E: "pinCount (resetFrameWithoutLock (frameAt s f)) = EMPTY_PIN_COUNT"
    "frameLock (resetFrameWithoutLock (frameAt s f)) = frameLock (frameAt s f)"
    by (simp_all add: resetFrameWithoutLock_def)
  have other: "g = f" if "fileHandlePtr (frameAt s g) = Some h1"
      "framePageIdx (frameAt s g) = framePageIdx (frameAt s f)"
      "pinCount (frameAt s g) \<noteq> EMPTY_PIN_COUNT" "g < numFrames s" for g
    using resident_frame[OF inv that(4,3)] that(1,2) h1(3) by simp
  show "bp_inv L (evictS w f s)"
    unfolding bp_inv_def np locks
  proof (intro conjI allI impI)
    show "0 < numFrames (evictS w f s)" "length (bufferCache (evictS w f s)) = numFrames (evictS w f s)"
      "numFrames (evictS w f s) < UINT32_MAX" using bp_inv_size[OF inv] by (auto simp: ev)
    show "fh_inv (handles (evictS w f s) h)" for h by (rule fhs)
    show "pageLocks (handles s h) ! p = Some ((h, p) \<in> L)" if "p < numPages (handles s h)" for h p
      by (rule bp_inv_lock[OF inv that])
    show "\<not> frameLock (frameAt (evictS w f s) g)" if "g < numFrames (evictS w f s)" for g
      using bp_inv_frameLock[OF inv] that f by (auto simp: ev E)
    fix h p g assume p: "p < numPages (handles s h)" and g: "frameOf (evictS w f s) h p = Some g"
    then have g': "frameOf s h p = Some g" "\<not> (h = h1 \<and> p = framePageIdx (frameAt s f))"
      by (auto simp: ev split: if_splits)
    then have "g \<noteq> f" using uniq p by blast
    then show "g < numFrames (evictS w f s)" "pinCount (frameAt (evictS w f s) g) \<noteq> EMPTY_PIN_COUNT"
      "fileHandlePtr (frameAt (evictS w f s) g) = Some h" "framePageIdx (frameAt (evictS w f s) g) = p"
      using bp_inv_map[OF inv p g'(1)] by (auto simp: ev)
  next
    fix g assume g: "g < numFrames (evictS w f s)" "pinCount (frameAt (evictS w f s) g) \<noteq> EMPTY_PIN_COUNT"
    then have gf: "g \<noteq> f" "g < numFrames s" "pinCount (frameAt s g) \<noteq> EMPTY_PIN_COUNT"
      by (auto simp: ev E split: if_splits)
    then obtain h where "fileHandlePtr (frameAt s g) = Some h" "framePageIdx (frameAt s g) < numPages (handles s h)"
        "frameOf s h (framePageIdx (frameAt s g)) = Some g"
      using resident_frame[OF inv] by blast
    then show "\<exists>h. fileHandlePtr (frameAt (evictS w f s) g) = Some h \<and>
        framePageIdx (frameAt (evictS w f s) g) < numPages (handles s h) \<and>
        frameOf (evictS w f s) h (framePageIdx (frameAt (evictS w f s) g)) = Some g"
      using gf h1(3) by (auto simp: ev)
  next
    fix g h assume g: "g < numFrames (evictS w f s)" "pinCount (frameAt (evictS w f s) g) = 0"
      "\<not> isDirty (frameAt (evictS w f s) g)" "fileHandlePtr (frameAt (evictS w f s) g) = Some h"
    have zero: "(0 :: u32) \<noteq> EMPTY_PIN_COUNT" by (simp add: EMPTY_PIN_COUNT_def)
    have gf: "g \<noteq> f" using g(2) zero E(1) by (auto simp: ev)
    then have "buffer (frameAt s g) = files s h (framePageIdx (frameAt s g))"
      using bp_inv_clean[OF inv, of g h] g by (auto simp: ev)
    moreover have "\<not> (h = h1 \<and> framePageIdx (frameAt s g) = framePageIdx (frameAt s f))"
      using other[of g] g gf zero by (auto simp: ev)
    ultimately show "buffer (frameAt (evictS w f s) g) = files (evictS w f s) h (framePageIdx (frameAt (evictS w f s) g))"
      using gf by (auto simp: ev)
  qed
  have here: "frameOf s h q = Some f \<longleftrightarrow> h = h1 \<and> q = framePageIdx (frameAt s f)" if "q < numPages (handles s h)"
    using uniq[of h q] that h1(3) by blast
  show "page_view (evictS w f s) h q =
      (if frameOf s h q = Some f
       then if w \<and> isDirty (frameAt s f) then buffer (frameAt s f) else files s h q
       else page_view s h q)" if "q < numPages (handles s h)"
    using here[OF that] h1(3) by (cases "frameOf s h q") (auto simp: page_view_def ev)
  show "files (evictS w f s) h q =
      (if frameOf s h q = Some f \<and> w \<and> isDirty (frameAt s f) then buffer (frameAt s f) else files s h q)"
    if "q < numPages (handles s h)" using here[OF that] by (auto simp: ev)
  show "frameOf (evictS w f s) h q = (if frameOf s h q = Some f then None else frameOf s h q)"
    if "q < numPages (handles s h)" using here[OF that] by (auto simp: ev)
  show "fileHandlePtr (frameAt s f) = Some h \<Longrightarrow> frameOf (evictS w f s) h (framePageIdx (frameAt s f)) = None"
    using h1(1) by (simp add: ev)
  show "g \<noteq> f \<Longrightarrow> frameAt (evictS w f s) g = frameAt s g" by (simp add: ev)
  show "pinCount (frameAt (evictS w f s) f) = EMPTY_PIN_COUNT" by (simp add: ev E)
  show "frameOf s h q = None \<Longrightarrow> frameOf (evictS w f s) h q = None" by (simp add: ev)
qed

definition loadedS :: "nat \<Rightarrow> nat \<Rightarrow> page_idx \<Rightarrow> bool \<Rightarrow> 'p BufferPool \<Rightarrow> 'p BufferPool" where
  "loadedS f h p nr s = (let s1 = loadS f h p nr s in setHandle h (swizzle (handles s1 h) p f) s1)"

lemma loadedS_simps:
  assumes "f < length (bufferCache s)" and "fh_inv (handles s h)" and "p < numPages (handles s h)"
    and "isAFrame f"
  shows "frameAt (loadedS f h p nr s) g =
           (if g = f then (frameAt s f)\<lparr>pinCount := 1, recentlyAccessed := True, isDirty := False,
              framePageIdx := p, fileHandlePtr := Some h,
              buffer := if nr then buffer (frameAt s f) else files s h p, frameLock := False\<rparr>
            else frameAt s g)"
    and "numFrames (loadedS f h p nr s) = numFrames s"
    and "length (bufferCache (loadedS f h p nr s)) = length (bufferCache s)"
    and "handles (loadedS f h p nr s) = (handles s)(h := swizzle (handles s h) p f)"
    and "frameOf (loadedS f h p nr s) h' q = (if h' = h \<and> q = p then Some f else frameOf s h' q)"
    and "files (loadedS f h p nr s) = files s"
proof -
  show "frameAt (loadedS f h p nr s) g =
           (if g = f then (frameAt s f)\<lparr>pinCount := 1, recentlyAccessed := True, isDirty := False,
              framePageIdx := p, fileHandlePtr := Some h,
              buffer := if nr then buffer (frameAt s f) else files s h p, frameLock := False\<rparr>
            else frameAt s g)"
    using assms(1) by (simp add: loadedS_def Let_def loadS_def frameAt_setFrame)
  have "handles (loadedS f h p nr s) = handles (setHandle h (swizzle (handles s h) p f) s)"
    by (simp add: loadedS_def Let_def loadS_def)
  from frameOf_handles[OF this]
  show "frameOf (loadedS f h p nr s) h' q = (if h' = h \<and> q = p then Some f else frameOf s h' q)"
    using frameOf_swizzle[OF assms(2,3), of f h' q] assms(4) by simp
qed (simp_all add: loadedS_def Let_def loadS_def)

lemma swizzle_simps [simp]:
  "numPages (swizzle fh p f) = numPages fh" "pageLocks (swizzle fh p f) = pageLocks fh"
  by (simp_all add: swizzle_def)

lemma loadedS_inv:
  assumes inv: "bp_inv L s" and f: "f < numFrames s" and e: "pinCount (frameAt s f) = EMPTY_PIN_COUNT"
    and p: "p < numPages (handles s h)" and none: "frameOf s h p = None"
  shows "bp_inv L (loadedS f h p nr s)" and "frameOf (loadedS f h p nr s) h p = Some f"
    and "pinCount (frameAt (loadedS f h p nr s) f) = 1"
    and "q < numPages (handles s h') \<Longrightarrow> (h', q) \<noteq> (h, p) \<or> \<not> nr \<Longrightarrow>
           page_view (loadedS f h p nr s) h' q = page_view s h' q"
    and "numPages (handles (loadedS f h p nr s) h') = numPages (handles s h')"
proof -
  have len: "f < length (bufferCache s)" and af: "isAFrame f"
    using bp_inv_size[OF inv] f by (auto simp: isAFrame_def)
  note ld = loadedS_simps[OF len bp_inv_fh[OF inv] p af]
  have np: "numPages (handles (loadedS f h p nr s) h') = numPages (handles s h')" for h' by (simp add: ld)
  then show "numPages (handles (loadedS f h p nr s) h') = numPages (handles s h')" .
  show "frameOf (loadedS f h p nr s) h p = Some f" "pinCount (frameAt (loadedS f h p nr s) f) = 1"
    by (simp_all add: ld)
  have notf: "g \<noteq> f" if "frameOf s h' q = Some g" "q < numPages (handles s h')" for g h' q
    using bp_inv_map[OF inv that(2,1)] e by auto
  have one: "(1 :: u32) \<noteq> EMPTY_PIN_COUNT" "(1 :: u32) \<noteq> 0" by (simp_all add: EMPTY_PIN_COUNT_def)
  show "bp_inv L (loadedS f h p nr s)"
    unfolding bp_inv_def np
  proof (intro conjI allI impI)
    show "0 < numFrames (loadedS f h p nr s)" "length (bufferCache (loadedS f h p nr s)) = numFrames (loadedS f h p nr s)"
      "numFrames (loadedS f h p nr s) < UINT32_MAX" using bp_inv_size[OF inv] by (auto simp: ld)
    show "fh_inv (handles (loadedS f h p nr s) h')" for h'
      using bp_inv_fh[OF inv, of h'] swizzle_inv[OF bp_inv_fh[OF inv, of h]] by (simp add: ld)
    show "pageLocks (handles (loadedS f h p nr s) h') ! q = Some ((h', q) \<in> L)" if "q < numPages (handles s h')" for h' q
      using bp_inv_lock[OF inv that] by (cases "h' = h") (simp_all add: ld)
    show "\<not> frameLock (frameAt (loadedS f h p nr s) g)" if "g < numFrames (loadedS f h p nr s)" for g
      using bp_inv_frameLock[OF inv, of g] that by (simp add: ld)
    fix h' q g assume q: "q < numPages (handles s h')" and g: "frameOf (loadedS f h p nr s) h' q = Some g"
    have "g < numFrames s \<and> pinCount (frameAt (loadedS f h p nr s) g) \<noteq> EMPTY_PIN_COUNT \<and>
      fileHandlePtr (frameAt (loadedS f h p nr s) g) = Some h' \<and> framePageIdx (frameAt (loadedS f h p nr s) g) = q"
    proof (cases "h' = h \<and> q = p")
      case True
      then have "g = f" using g by (simp add: ld)
      then show ?thesis using True f one by (simp add: ld)
    next
      case False
      then have "frameOf s h' q = Some g" using g by (auto simp: ld)
      then show ?thesis using bp_inv_map[OF inv q] notf[OF _ q] by (simp add: ld)
    qed
    then show "g < numFrames (loadedS f h p nr s)" "pinCount (frameAt (loadedS f h p nr s) g) \<noteq> EMPTY_PIN_COUNT"
      "fileHandlePtr (frameAt (loadedS f h p nr s) g) = Some h'" "framePageIdx (frameAt (loadedS f h p nr s) g) = q"
      by (simp_all add: ld)
  next
    fix g assume g: "g < numFrames (loadedS f h p nr s)" "pinCount (frameAt (loadedS f h p nr s) g) \<noteq> EMPTY_PIN_COUNT"
    show "\<exists>h'. fileHandlePtr (frameAt (loadedS f h p nr s) g) = Some h' \<and>
        framePageIdx (frameAt (loadedS f h p nr s) g) < numPages (handles s h') \<and>
        frameOf (loadedS f h p nr s) h' (framePageIdx (frameAt (loadedS f h p nr s) g)) = Some g"
    proof (cases "g = f")
      case True
      then show ?thesis using p by (simp add: ld)
    next
      case False
      then obtain h' where h': "fileHandlePtr (frameAt s g) = Some h'" "framePageIdx (frameAt s g) < numPages (handles s h')"
          "frameOf s h' (framePageIdx (frameAt s g)) = Some g"
        using resident_frame[OF inv, of g] g by (auto simp: ld)
      then have "\<not> (h' = h \<and> framePageIdx (frameAt s g) = p)" using none by auto
      then show ?thesis using h' False by (auto simp: ld)
    qed
  next
    fix g h' assume g: "g < numFrames (loadedS f h p nr s)" "pinCount (frameAt (loadedS f h p nr s) g) = 0"
      "\<not> isDirty (frameAt (loadedS f h p nr s) g)" "fileHandlePtr (frameAt (loadedS f h p nr s) g) = Some h'"
    then have "g \<noteq> f" using one by (auto simp: ld)
    then show "buffer (frameAt (loadedS f h p nr s) g) =
        files (loadedS f h p nr s) h' (framePageIdx (frameAt (loadedS f h p nr s) g))"
      using bp_inv_clean[OF inv, of g h'] g by (simp add: ld)
  qed
  assume q: "q < numPages (handles s h')" and c: "(h', q) \<noteq> (h, p) \<or> \<not> nr"
  show "page_view (loadedS f h p nr s) h' q = page_view s h' q"
  proof (cases "h' = h \<and> q = p")
    case True
    then show ?thesis using c none by (auto simp: page_view_def ld)
  next
    case False
    then show ?thesis using notf[OF _ q] by (auto simp: page_view_def ld split: option.splits)
  qed
qed

section \<open>The clock\<close>

text \<open>A failed probe changes at most the frame's second-chance bit.\<close>

definition walked :: "'p BufferPool \<Rightarrow> 'p BufferPool \<Rightarrow> bool" where
  "walked s t \<longleftrightarrow> numFrames t = numFrames s \<and> handles t = handles s \<and> files t = files s \<and>
     length (bufferCache t) = length (bufferCache s) \<and>
     (\<forall>g < length (bufferCache s). \<exists>b. frameAt t g = (frameAt s g)\<lparr>recentlyAccessed := b\<rparr> \<and>
        (b \<longrightarrow> recentlyAccessed (frameAt s g)))"

lemma walked_refl: "walked s s"
  by (auto simp: walked_def intro!: exI[of _ "recentlyAccessed (frameAt s _)"])

lemma walked_trans: "walked s t \<Longrightarrow> walked t u \<Longrightarrow> walked s u"
  unfolding walked_def by (clarsimp, fastforce)

lemma walked_frame:
  assumes "walked s t" and "g < length (bufferCache s)"
  shows "pinCount (frameAt t g) = pinCount (frameAt s g)" "isDirty (frameAt t g) = isDirty (frameAt s g)"
    "buffer (frameAt t g) = buffer (frameAt s g)" "frameLock (frameAt t g) = frameLock (frameAt s g)"
    "fileHandlePtr (frameAt t g) = fileHandlePtr (frameAt s g)"
    "framePageIdx (frameAt t g) = framePageIdx (frameAt s g)"
    "recentlyAccessed (frameAt t g) \<Longrightarrow> recentlyAccessed (frameAt s g)"
proof -
  obtain b where "frameAt t g = (frameAt s g)\<lparr>recentlyAccessed := b\<rparr>" "b \<longrightarrow> recentlyAccessed (frameAt s g)"
    using assms by (auto simp: walked_def)
  then show "pinCount (frameAt t g) = pinCount (frameAt s g)" "isDirty (frameAt t g) = isDirty (frameAt s g)"
    "buffer (frameAt t g) = buffer (frameAt s g)" "frameLock (frameAt t g) = frameLock (frameAt s g)"
    "fileHandlePtr (frameAt t g) = fileHandlePtr (frameAt s g)"
    "framePageIdx (frameAt t g) = framePageIdx (frameAt s g)"
    "recentlyAccessed (frameAt t g) \<Longrightarrow> recentlyAccessed (frameAt s g)"
    by simp_all
qed

lemma walked_frameOf: "walked s t \<Longrightarrow> frameOf t = frameOf s"
  by (rule frameOf_handles) (simp add: walked_def)

lemma walked_inv:
  assumes w: "walked s t" and inv: "bp_inv L s"
  shows "bp_inv L t"
proof -
  note fr = walked_frame[OF w]
  have eq: "numFrames t = numFrames s" "handles t = handles s" "files t = files s"
    "length (bufferCache t) = length (bufferCache s)" "length (bufferCache s) = numFrames s"
    using w bp_inv_size[OF inv] by (auto simp: walked_def)
  show ?thesis
    unfolding bp_inv_def eq walked_frameOf[OF w]
  proof (intro conjI allI impI)
    fix h p f assume "p < numPages (handles s h)" "frameOf s h p = Some f"
    from bp_inv_map[OF inv this] show "f < numFrames s" "pinCount (frameAt t f) \<noteq> EMPTY_PIN_COUNT"
      "fileHandlePtr (frameAt t f) = Some h" "framePageIdx (frameAt t f) = p"
      using fr eq(5) by auto
  next
    fix f assume f: "f < numFrames s" "pinCount (frameAt t f) \<noteq> EMPTY_PIN_COUNT"
    then show "\<exists>h. fileHandlePtr (frameAt t f) = Some h \<and> framePageIdx (frameAt t f) < numPages (handles s h) \<and>
        frameOf s h (framePageIdx (frameAt t f)) = Some f"
      using resident_frame[OF inv, of f] fr eq(5) by auto
  next
    fix f h assume "f < numFrames s" "pinCount (frameAt t f) = 0" "\<not> isDirty (frameAt t f)"
      "fileHandlePtr (frameAt t f) = Some h"
    then show "buffer (frameAt t f) = files s h (framePageIdx (frameAt t f))"
      using bp_inv_clean[OF inv, of f h] fr eq(5) by auto
  qed (use bp_invD[OF inv] fr eq in \<open>auto\<close>)
qed

lemma walked_view: "walked s t \<Longrightarrow> bp_inv L s \<Longrightarrow> p < numPages (handles s h) \<Longrightarrow> page_view t h p = page_view s h p"
  using walked_frame(3)[of s t] walked_frameOf[of s t] bp_inv_size[of L s] bp_inv_map[of L s p h]
  by (auto simp: page_view_def walked_def split: option.splits)

lemma walked_setFlag:
  "f < length (bufferCache s) \<Longrightarrow> core t = core (setFrame f ((frameAt s f)\<lparr>recentlyAccessed := False\<rparr>) s) \<Longrightarrow>
     walked s t"
  unfolding walked_def core_iff
  by (intro conjI allI impI, simp_all)
    (rule_tac x = "g \<noteq> f \<and> recentlyAccessed (frameAt s g)" in exI, auto simp: frameAt_def nth_list_update)

text \<open>One probe of the clock: success on an empty frame or an unpinned frame without second chance.\<close>

definition claimed :: "nat \<Rightarrow> nat \<Rightarrow> page_idx \<Rightarrow> bool \<Rightarrow> 'p BufferPool \<Rightarrow> 'p BufferPool \<Rightarrow> bool" where
  "claimed f h p nr s s' \<longleftrightarrow> f < numFrames s \<and>
     (pinCount (frameAt s f) = EMPTY_PIN_COUNT \<and> core s' = core (loadS f h p nr s) \<or>
      pinCount (frameAt s f) = 0 \<and> core s' = core (loadS f h p nr (evictS True f s)))"

definition free_frame :: "'p BufferPool \<Rightarrow> nat \<Rightarrow> bool" where
  "free_frame s f \<longleftrightarrow> pinCount (frameAt s f) = EMPTY_PIN_COUNT \<or>
     (pinCount (frameAt s f) = 0 \<and> \<not> recentlyAccessed (frameAt s f))"

lemma tryEvict_cases:
  assumes inv: "bp_inv L s" and L: "L \<subseteq> {(h, p)}" and none: "frameOf s h p = None"
    and f: "f < numFrames s" and pc: "pinCount (frameAt s f) = 0"
  shows "(if recentlyAccessed (frameAt s f)
          then \<exists>s'. tryEvict f h p nr s = (Inr False, s') \<and> walked s s' \<and> \<not> recentlyAccessed (frameAt s' f)
          else \<exists>s'. tryEvict f h p nr s = (Inr True, s') \<and> claimed f h p nr s s')"
proof -
  have ne: "(0 :: u32) \<noteq> EMPTY_PIN_COUNT" by (simp add: EMPTY_PIN_COUNT_def)
  have len: "f < length (bufferCache s)" using bp_inv_size[OF inv] f by simp
  show ?thesis
  proof (cases "recentlyAccessed (frameAt s f)")
    case True
    then obtain s' where s': "tryEvict f h p nr s = (Inr False, s')"
        "core s' = core (setFrame f ((frameAt s f)\<lparr>recentlyAccessed := False\<rparr>) s)"
      using tryEvict_walkover[of s f h p nr] by blast
    have "frameAt s' f = (frameAt s f)\<lparr>recentlyAccessed := False\<rparr>"
      using s'(2) len by (simp add: core_iff frameAt_def)
    then show ?thesis using True s'(1) walked_setFlag[OF len s'(2)] by simp
  next
    case False
    obtain h1 where h1: "fileHandlePtr (frameAt s f) = Some h1" "framePageIdx (frameAt s f) < numPages (handles s h1)"
        "frameOf s h1 (framePageIdx (frameAt s f)) = Some f"
      using resident_frame[OF inv f] pc ne by auto
    have "(h1, framePageIdx (frameAt s f)) \<notin> L" using L none h1(3) by auto
    then have "pageLocks (handles s h1) ! framePageIdx (frameAt s f) = Some False"
      using bp_inv_lock[OF inv h1(2)] by simp
    from tryEvict_locked[OF False bp_inv_frameLock[OF inv f] h1(1) len bp_inv_fh[OF inv] h1(2) this pc, of h p nr]
    show ?thesis using False f pc by (auto simp: claimed_def)
  qed
qed

lemma claimLoop_probe:
  fixes s :: "'p BufferPool" and c i
  assumes inv: "bp_inv L s" and L: "L \<subseteq> {(h, p)}" and none: "frameOf s h p = None"
  defines "f \<equiv> (c mod numFrames s + i) mod numFrames s"
  shows "(\<exists>s'. claimLoop c h p nr (i # ks) s = (Inr f, s') \<and> claimed f h p nr s s') \<or>
         \<not> free_frame s f \<and> (\<exists>s'. claimLoop c h p nr (i # ks) s = claimLoop c h p nr ks s' \<and> walked s s' \<and>
            (pinCount (frameAt s f) = 0 \<longrightarrow> free_frame s' f))"
proof -
  have f: "f < numFrames s" using bp_inv_size[OF inv] by (simp add: f_def)
  have len: "f < length (bufferCache s)" using bp_inv_size[OF inv] f by simp
  have ne: "(0 :: u32) \<noteq> EMPTY_PIN_COUNT" by (simp add: EMPTY_PIN_COUNT_def)
  have clk: "core (snd (moveClockHand k s')) = core s'" "fst (moveClockHand k s') = Inr ()" for k and s' :: "'p BufferPool"
    by (simp_all add: moveClockHand_def op_modify_def)
  consider (empty) "pinCount (frameAt s f) = EMPTY_PIN_COUNT"
    | (walk) "pinCount (frameAt s f) = 0" "recentlyAccessed (frameAt s f)"
    | (evict) "pinCount (frameAt s f) = 0" "\<not> recentlyAccessed (frameAt s f)"
    | (pinned) "pinCount (frameAt s f) \<noteq> EMPTY_PIN_COUNT" "pinCount (frameAt s f) \<noteq> 0" by blast
  then show ?thesis
  proof cases
    case empty
    obtain s' where s': "fillEmptyFrame f h p nr s = (Inr True, s')" "core s' = core (loadS f h p nr s)"
      using fillEmptyFrame_ok[OF inv f empty] by blast
    then have "claimed f h p nr s (snd (moveClockHand (c + i + 1) s'))"
      using clk f empty by (simp add: claimed_def)
    then show ?thesis
      using s'(1) empty clk(2)[of "c + i + 1" s']
      by (intro disjI1 exI[of _ "snd (moveClockHand (c + i + 1) s')"])
        (simp add: f_def[symmetric] Let_def op_simps split_beta split: prod.splits sum.splits)
  next
    case walk
    obtain s' where s': "tryEvict f h p nr s = (Inr False, s')" "walked s s'" "\<not> recentlyAccessed (frameAt s' f)"
      using tryEvict_cases[OF inv L none f walk(1), of nr] walk(2) by auto
    have "claimLoop c h p nr (i # ks) s = claimLoop c h p nr ks s'"
      using s'(1) walk ne by (simp add: f_def[symmetric] Let_def op_simps)
    moreover have "\<not> free_frame s f" using walk ne by (simp add: free_frame_def)
    moreover have "free_frame s' f" using s'(3) walked_frame(1)[OF s'(2) len] walk by (simp add: free_frame_def)
    ultimately show ?thesis using s'(2) by blast
  next
    case evict
    obtain s' where s': "tryEvict f h p nr s = (Inr True, s')" "claimed f h p nr s s'"
      using tryEvict_cases[OF inv L none f evict(1), of nr] evict(2) by auto
    then have "claimed f h p nr s (snd (moveClockHand (c + i + 1) s'))" using clk by (simp add: claimed_def)
    then show ?thesis
      using s'(1) evict ne clk(2)[of "c + i + 1" s']
      by (intro disjI1 exI[of _ "snd (moveClockHand (c + i + 1) s')"])
        (simp add: f_def[symmetric] Let_def op_simps split_beta split: prod.splits sum.splits)
  next
    case pinned
    then have "claimLoop c h p nr (i # ks) s = claimLoop c h p nr ks s" by (simp add: f_def[symmetric] Let_def)
    then show ?thesis using pinned walked_refl by (auto simp: free_frame_def)
  qed
qed

lemma claimLoop_result:
  assumes "bp_inv L s" and "L \<subseteq> {(h, p)}" and "frameOf s h p = None"
  shows "(\<exists>f t s'. claimLoop c h p nr is s = (Inr f, s') \<and> walked s t \<and> claimed f h p nr t s') \<or>
         (\<exists>s'. claimLoop c h p nr is s =
             (Inl (BufferManagerException ''Cannot find a frame to evict from.''), s') \<and> walked s s')"
  using assms
proof (induction "is" arbitrary: s)
  case Nil
  then show ?case using walked_refl by (auto simp: op_throw_def)
next
  case (Cons i "is")
  from claimLoop_probe[OF Cons.prems, where c = c and i = i and nr = nr and ks = "is"] show ?case
  proof
    assume "\<exists>s'. claimLoop c h p nr (i # is) s = (Inr ((c mod numFrames s + i) mod numFrames s), s') \<and>
      claimed ((c mod numFrames s + i) mod numFrames s) h p nr s s'"
    then show ?thesis using walked_refl[of s] by blast
  next
    assume "\<not> free_frame s ((c mod numFrames s + i) mod numFrames s) \<and>
      (\<exists>s'. claimLoop c h p nr (i # is) s = claimLoop c h p nr is s' \<and> walked s s' \<and>
        (pinCount (frameAt s ((c mod numFrames s + i) mod numFrames s)) = 0 \<longrightarrow>
         free_frame s' ((c mod numFrames s + i) mod numFrames s)))"
    then obtain s' where s': "claimLoop c h p nr (i # is) s = claimLoop c h p nr is s'" "walked s s'" by blast
    have "frameOf s' h p = None" using walked_frameOf[OF s'(2)] Cons.prems(3) by simp
    from Cons.IH[OF walked_inv[OF s'(2) Cons.prems(1)] Cons.prems(2) this] show ?thesis
      unfolding s'(1) using walked_trans[OF s'(2)] by blast
  qed
qed

lemma free_frame_walked:
  "walked s t \<Longrightarrow> f < length (bufferCache s) \<Longrightarrow> free_frame s f \<Longrightarrow> free_frame t f"
  using walked_frame[of s t f] by (auto simp: free_frame_def)

lemma claimLoop_finds_free:
  assumes "bp_inv L s" and "L \<subseteq> {(h, p)}" and "frameOf s h p = None"
    and "i \<in> set is" and "free_frame s ((c mod numFrames s + i) mod numFrames s)"
  shows "\<exists>f s'. claimLoop c h p nr is s = (Inr f, s')"
  using assms
proof (induction "is" arbitrary: s)
  case (Cons j "is")
  let ?f = "(c mod numFrames s + i) mod numFrames s"
  from claimLoop_probe[OF Cons.prems(1-3), where c = c and i = j and nr = nr and ks = "is"]
  consider (ok) s' where "claimLoop c h p nr (j # is) s = (Inr ((c mod numFrames s + j) mod numFrames s), s')"
    | (next_probe) s' where "\<not> free_frame s ((c mod numFrames s + j) mod numFrames s)"
        "claimLoop c h p nr (j # is) s = claimLoop c h p nr is s'" "walked s s'" by blast
  then show ?case
  proof cases
    case next_probe
    then have i: "i \<in> set is" using Cons.prems(4,5) by auto
    have size: "?f < length (bufferCache s)" using bp_inv_size[OF Cons.prems(1)] by simp
    have "frameOf s' h p = None" using walked_frameOf[OF next_probe(3)] Cons.prems(3) by simp
    moreover have "free_frame s' ?f" by (rule free_frame_walked[OF next_probe(3) size Cons.prems(5)])
    moreover have "numFrames s' = numFrames s" using next_probe(3) by (simp add: walked_def)
    ultimately show ?thesis
      unfolding next_probe(2) using Cons.IH[OF walked_inv[OF next_probe(3) Cons.prems(1)] Cons.prems(2) _ i] by simp
  qed blast
qed simp

lemma claimLoop_two_passes:
  assumes "bp_inv L s" and "L \<subseteq> {(h, p)}" and "frameOf s h p = None"
    and "i \<in> set is" and "j \<in> set js"
    and "(c mod numFrames s + j) mod numFrames s = (c mod numFrames s + i) mod numFrames s"
    and "pinCount (frameAt s ((c mod numFrames s + i) mod numFrames s)) \<in> {0, EMPTY_PIN_COUNT}"
  shows "\<exists>f s'. claimLoop c h p nr (is @ js) s = (Inr f, s')"
  using assms
proof (induction "is" arbitrary: s)
  case (Cons k "is")
  let ?f = "(c mod numFrames s + i) mod numFrames s"
  from claimLoop_probe[OF Cons.prems(1-3), where c = c and i = k and nr = nr and ks = "is @ js"]
  consider (ok) s' where "claimLoop c h p nr (k # is @ js) s = (Inr ((c mod numFrames s + k) mod numFrames s), s')"
    | (next_probe) s' where "\<not> free_frame s ((c mod numFrames s + k) mod numFrames s)"
        "claimLoop c h p nr (k # is @ js) s = claimLoop c h p nr (is @ js) s'" "walked s s'"
        "pinCount (frameAt s ((c mod numFrames s + k) mod numFrames s)) = 0 \<longrightarrow>
           free_frame s' ((c mod numFrames s + k) mod numFrames s)" by blast
  then show ?case
  proof cases
    case next_probe
    have size: "?f < length (bufferCache s)" using bp_inv_size[OF Cons.prems(1)] by simp
    note inv' = walked_inv[OF next_probe(3) Cons.prems(1)]
    have none': "frameOf s' h p = None" using walked_frameOf[OF next_probe(3)] Cons.prems(3) by simp
    have nf: "numFrames s' = numFrames s" using next_probe(3) by (simp add: walked_def)
    have pc: "pinCount (frameAt s' ?f) = pinCount (frameAt s ?f)" by (rule walked_frame(1)[OF next_probe(3) size])
    show ?thesis
    proof (cases "k = i")
      case True
      have "pinCount (frameAt s ?f) = 0" using next_probe(1) True Cons.prems(7) by (auto simp: free_frame_def)
      then have "free_frame s' ?f" using next_probe(4) True by simp
      then show ?thesis
        using claimLoop_finds_free[OF inv' Cons.prems(2) none', of j "is @ js" c nr] next_probe(2) Cons.prems(5,6) nf
        by simp
    next
      case False
      then have "i \<in> set is" using Cons.prems(4) by simp
      then show ?thesis
        using Cons.IH[OF inv' Cons.prems(2) none'] next_probe(2) Cons.prems(5-7) nf pc by simp
    qed
  qed simp
qed simp

lemma claimAFrame_succeeds:
  assumes inv: "bp_inv L s" and "L \<subseteq> {(h, p)}" and "frameOf s h p = None"
    and f: "f < numFrames s" and pc: "pinCount (frameAt s f) \<in> {0, EMPTY_PIN_COUNT}"
  shows "\<exists>g s'. claimAFrame h p nr s = (Inr g, s')"
proof -
  let ?n = "numFrames s" and ?c = "clockHand s"
  define i where "i = (f + (?n - ?c mod ?n)) mod ?n"
  have n: "0 < ?n" using bp_inv_size[OF inv] by simp
  have cm: "?c mod ?n < ?n" using n by simp
  have "(?c mod ?n + i) mod ?n = (?c mod ?n + (f + (?n - ?c mod ?n))) mod ?n"
    unfolding i_def by (rule mod_add_right_eq)
  also have "?c mod ?n + (f + (?n - ?c mod ?n)) = f + ?n" using cm by simp
  finally have idx: "(?c mod ?n + i) mod ?n = f" using f by simp
  have "(?c mod ?n + (i + ?n)) mod ?n = ((?c mod ?n + i) + ?n) mod ?n" by (simp add: add.assoc)
  then have idx2: "(?c mod ?n + (i + ?n)) mod ?n = f" using idx by simp
  have "i < ?n" using n by (simp add: i_def)
  moreover have "[0..<2 * ?n] = [0..<?n] @ [?n..<2 * ?n]"
    using upt_add_eq_append[of 0 ?n ?n] by (simp add: mult_2)
  ultimately show ?thesis
    using claimLoop_two_passes[OF assms(1-3), of i "[0..<?n]" "i + ?n" "[?n..<2 * ?n]" ?c nr] idx idx2 pc
    by (simp add: claimAFrame_def)
qed

section \<open>Locks and single-frame updates keep the invariant\<close>

definition setPageLock :: "nat \<Rightarrow> page_idx \<Rightarrow> bool \<Rightarrow> 'p BufferPool \<Rightarrow> 'p BufferPool" where
  "setPageLock h p b s = setHandle h ((handles s h)\<lparr>pageLocks := (pageLocks (handles s h))[p := Some b]\<rparr>) s"

lemma setPageLock_simps [simp]:
  "frameAt (setPageLock h p b s) f = frameAt s f" "frameOf (setPageLock h p b s) = frameOf s"
  "numPages (handles (setPageLock h p b s) h') = numPages (handles s h')"
  "files (setPageLock h p b s) = files s" "numFrames (setPageLock h p b s) = numFrames s"
  "bufferCache (setPageLock h p b s) = bufferCache s" "page_view (setPageLock h p b s) = page_view s"
  by (simp_all add: setPageLock_def frameOf_def page_view_def fun_eq_iff split: option.splits)

lemma setPageLock_inv:
  assumes inv: "bp_inv L s" and p: "p < numPages (handles s h)"
  shows "bp_inv (if b then insert (h, p) L else L - {(h, p)}) (setPageLock h p b s)"
proof -
  have fh: "fh_inv (handles (setPageLock h p b s) h')" for h'
    using bp_inv_fh[OF inv, of h'] fh_inv_locks[OF bp_inv_fh[OF inv, of h]] by (simp add: setPageLock_def)
  have len: "p < length (pageLocks (handles s h))" using bp_inv_fh[OF inv, of h] p by (auto simp: fh_inv_def)
  have lock: "pageLocks (handles (setPageLock h p b s) h') ! q =
      Some ((h', q) \<in> (if b then insert (h, p) L else L - {(h, p)}))" if "q < numPages (handles s h')" for h' q
    using bp_inv_lock[OF inv that] len by (auto simp: setPageLock_def nth_list_update)
  show ?thesis
    unfolding bp_inv_def setPageLock_simps
    using inv fh lock unfolding bp_inv_def by blast
qed

lemma lockPage_free:
  assumes "bp_inv L s" and "p < numPages (handles s h)" and "(h, p) \<notin> L"
  shows "lockPage h p b s = (Inr True, setPageLock h p True s)"
  using lockPage_ok[OF bp_inv_fh[OF assms(1)] assms(2)] bp_inv_lock[OF assms(1,2)] assms(3)
  by (simp add: setPageLock_def)

lemma unlockPage_held:
  assumes "bp_inv L s" and "p < numPages (handles s h)"
  shows "unlockPage h p s = (Inr (), setPageLock h p False s)"
  using unlockPage_ok[OF bp_inv_fh[OF assms(1)] assms(2)] by (simp add: setPageLock_def)

lemma setFrame_inv:
  assumes inv: "bp_inv L s" and f: "f < numFrames s" and r: "pinCount (frameAt s f) \<noteq> EMPTY_PIN_COUNT"
    and fr: "fileHandlePtr fr = fileHandlePtr (frameAt s f)" "framePageIdx fr = framePageIdx (frameAt s f)"
      "frameLock fr = frameLock (frameAt s f)" "pinCount fr \<noteq> EMPTY_PIN_COUNT"
    and clean: "\<And>h. pinCount fr = 0 \<Longrightarrow> \<not> isDirty fr \<Longrightarrow> fileHandlePtr fr = Some h \<Longrightarrow> buffer fr = files s h (framePageIdx fr)"
  shows "bp_inv L (setFrame f fr s)"
proof -
  have len: "f < length (bufferCache s)" using bp_inv_size[OF inv] f by simp
  note at = frameAt_setFrame[OF len, of fr]
  show ?thesis
    unfolding bp_inv_def set_simps frameOf_setFrame length_list_update at
  proof (intro conjI allI impI)
    fix h p g assume "p < numPages (handles s h)" "frameOf s h p = Some g"
    from bp_inv_map[OF inv this] show "g < numFrames s"
      "pinCount (if g = f then fr else frameAt s g) \<noteq> EMPTY_PIN_COUNT"
      "fileHandlePtr (if g = f then fr else frameAt s g) = Some h"
      "framePageIdx (if g = f then fr else frameAt s g) = p" using fr by auto
  next
    fix g assume g: "g < numFrames s" "pinCount (if g = f then fr else frameAt s g) \<noteq> EMPTY_PIN_COUNT"
    then show "\<exists>h. fileHandlePtr (if g = f then fr else frameAt s g) = Some h \<and>
        framePageIdx (if g = f then fr else frameAt s g) < numPages (handles s h) \<and>
        frameOf s h (framePageIdx (if g = f then fr else frameAt s g)) = Some g"
      using resident_frame[OF inv g(1)] r fr by (cases "g = f") auto
  next
    fix g h assume "g < numFrames s" "pinCount (if g = f then fr else frameAt s g) = 0"
      "\<not> isDirty (if g = f then fr else frameAt s g)" "fileHandlePtr (if g = f then fr else frameAt s g) = Some h"
    then show "buffer (if g = f then fr else frameAt s g) =
        files s h (framePageIdx (if g = f then fr else frameAt s g))"
      using bp_inv_clean[OF inv, of g h] clean[of h] by (cases "g = f") auto
  next
    fix g assume "g < numFrames s"
    then show "\<not> frameLock (if g = f then fr else frameAt s g)"
      using bp_inv_frameLock[OF inv, of g] bp_inv_frameLock[OF inv f] fr(3) by simp
  qed (use bp_inv_size[OF inv] bp_inv_fh[OF inv] bp_inv_lock[OF inv] in auto)
qed

lemma setFrame_view:
  assumes inv: "bp_inv L s" and f: "f < numFrames s" and q: "q < numPages (handles s h)"
  shows "page_view (setFrame f fr s) h q = (if frameOf s h q = Some f then buffer fr else page_view s h q)"
  using bp_inv_size[OF inv] f
  by (auto simp: page_view_def frameAt_setFrame split: option.splits)

section \<open>Pinning\<close>

lemma claimed_loaded:
  assumes inv: "bp_inv L s" and c: "claimed f h p nr s s'" and p: "p < numPages (handles s h)"
    and none: "frameOf s h p = None"
  defines "t \<equiv> setHandle h (swizzle (handles s' h) p f) s'"
  shows "bp_inv L t" and "frameOf t h p = Some f" and "pinCount (frameAt t f) = 1"
    and "\<And>h' q. q < numPages (handles s h') \<Longrightarrow> (h', q) \<noteq> (h, p) \<or> \<not> nr \<Longrightarrow> page_view t h' q = page_view s h' q"
    and "\<And>h'. numPages (handles t h') = numPages (handles s h')" and "numFrames t = numFrames s"
proof -
  show "numFrames t = numFrames s"
    using c by (auto simp: claimed_def t_def core_iff loadS_def evictS_def Let_def split: if_splits)
  have ne: "(0 :: u32) \<noteq> EMPTY_PIN_COUNT" by (simp add: EMPTY_PIN_COUNT_def)
  have f: "f < numFrames s" using c by (simp add: claimed_def)
  obtain e where e: "core s' = core (loadS f h p nr e)" "bp_inv L e" "pinCount (frameAt e f) = EMPTY_PIN_COUNT"
      "frameOf e h p = None" "\<And>h' q. q < numPages (handles s h') \<Longrightarrow> page_view e h' q = page_view s h' q"
      "\<And>h'. numPages (handles e h') = numPages (handles s h')" "f < numFrames e"
  proof (cases "pinCount (frameAt s f) = EMPTY_PIN_COUNT")
    case True
    then show ?thesis using that[of s] c inv none f ne by (auto simp: claimed_def)
  next
    case False
    then have pc: "pinCount (frameAt s f) = 0" and core: "core s' = core (loadS f h p nr (evictS True f s))"
      using c by (auto simp: claimed_def)
    obtain h1 where h1: "fileHandlePtr (frameAt s f) = Some h1" "frameOf s h1 (framePageIdx (frameAt s f)) = Some f"
        "framePageIdx (frameAt s f) < numPages (handles s h1)"
      using resident_frame[OF inv f False] by blast
    note ev = evictS_inv[OF inv f False, where w = True]
    have "page_view (evictS True f s) h' q = page_view s h' q" if "q < numPages (handles s h')" for h' q
    proof -
      have "isDirty (frameAt s f) \<or> buffer (frameAt s f) = files s h' q" if fo: "frameOf s h' q = Some f"
        using bp_inv_clean[OF inv f pc, of h'] bp_inv_map[OF inv \<open>q < numPages (handles s h')\<close> fo] by auto
      then show ?thesis using ev(2)[OF that] by (auto simp: page_view_def split: if_splits)
    qed
    moreover have "frameOf (evictS True f s) h p = None" using ev(5)[OF p] none by simp
    moreover have "f < numFrames (evictS True f s)" using f by (simp add: evictS_def Let_def)
    ultimately show ?thesis using that[of "evictS True f s"] core ev(1,7,9) by blast
  qed
  have ct: "core t = core (loadedS f h p nr e)"
    using e(1) by (simp add: t_def loadedS_def Let_def core_iff)
  have p': "p < numPages (handles e h)" using p e(6) by simp
  note ld = loadedS_inv[OF e(2,7,3) p' e(4), where nr = nr]
  have fo: "frameOf t = frameOf (loadedS f h p nr e)" using ct by (intro frameOf_handles) (simp add: core_iff)
  show "bp_inv L t" using ld(1) bp_inv_core[OF ct] by simp
  show "frameOf t h p = Some f" using ld(2) fo by simp
  show "pinCount (frameAt t f) = 1" using ld(3) ct by (simp add: core_iff frameAt_def)
  show "numPages (handles t h') = numPages (handles s h')" for h' using ld(5)[where h' = h'] ct e(6) by (simp add: core_iff)
  show "page_view t h' q = page_view s h' q" if "q < numPages (handles s h')" "(h', q) \<noteq> (h, p) \<or> \<not> nr" for h' q
    using ld(4)[where q = q and h' = h'] that e(5,6) page_view_core[OF ct] by simp
qed

lemma u32_inc: "(x :: u32) \<noteq> EMPTY_PIN_COUNT \<Longrightarrow> x + 1 \<noteq> 0"
  by (auto simp: EMPTY_PIN_COUNT_def add_eq_0_iff2)

text \<open>A page can be pinned when it is resident or some frame can be claimed.\<close>

definition pin_room :: "'p BufferPool \<Rightarrow> nat \<Rightarrow> page_idx \<Rightarrow> bool" where
  "pin_room s h p = (case frameOf s h p of
     Some f \<Rightarrow> pinCount (frameAt s f) + 1 \<noteq> EMPTY_PIN_COUNT
   | None \<Rightarrow> \<exists>f < numFrames s. pinCount (frameAt s f) \<in> {0, EMPTY_PIN_COUNT})"

lemma pin_room_setPageLock [simp]: "pin_room (setPageLock h p b s) h' q = pin_room s h' q"
  by (simp add: pin_room_def split: option.splits)

lemma pinWithoutLock_ok:
  assumes inv: "bp_inv L s" and L: "L \<subseteq> {(h, p)}" and p: "p < numPages (handles s h)"
    and room: "pin_room s h p"
  shows "\<exists>f t. pinWithoutAcquiringPageLock h p nr s = (Inr f, t) \<and> bp_inv L t \<and> frameOf t h p = Some f \<and>
           pinCount (frameAt t f) \<noteq> 0 \<and>
           (\<forall>h' q. q < numPages (handles s h') \<longrightarrow> (h', q) \<noteq> (h, p) \<or> \<not> nr \<or> frameOf s h p \<noteq> None \<longrightarrow>
              page_view t h' q = page_view s h' q) \<and>
           (\<forall>h'. numPages (handles t h') = numPages (handles s h')) \<and> numFrames t = numFrames s"
proof (cases "frameOf s h p")
  case (Some f)
  note m = bp_inv_map[OF inv p Some]
  let ?t = "setFrame f ((frameAt s f)\<lparr>pinCount := pinCount (frameAt s f) + 1, recentlyAccessed := True\<rparr>) s"
  have len: "f < length (bufferCache s)" using m bp_inv_size[OF inv] by simp
  have inv': "bp_inv L ?t" using m room[unfolded pin_room_def] Some u32_inc by (intro setFrame_inv[OF inv]) auto
  have t': "pinWithoutAcquiringPageLock h p nr s = (Inr f, bumpMetrics (numPins_update Suc) ?t)"
    using frameIdxOf_ok[OF bp_inv_fh[OF inv] p] frameIdxOf_ok[of "bumpMetrics (numPins_update Suc) ?t" h p]
      bp_inv_fh[OF inv, of h] p Some isAFrame_frameOf[OF inv p Some]
    by (simp add: pinWithoutAcquiringPageLock_def op_simps frameOf_def)
  have view: "page_view ?t h' q = page_view s h' q" if "q < numPages (handles s h')" for h' q
    using setFrame_view[OF inv _ that, of f] m by (auto simp: page_view_def)
  have c: "core (bumpMetrics (numPins_update Suc) ?t) = core ?t" by simp
  show ?thesis
    using t' inv' bp_inv_core[OF c] page_view_core[OF c] view Some u32_inc m len
    by (intro exI[of _ f] exI[of _ "bumpMetrics (numPins_update Suc) ?t"])
      (simp add: frameAt_setFrame frameOf_def)
next
  case None
  then obtain g where "g < numFrames s" "pinCount (frameAt s g) \<in> {0, EMPTY_PIN_COUNT}" using room None by (auto simp: pin_room_def)
  then obtain f s' where cl: "claimAFrame h p nr s = (Inr f, s')"
    using claimAFrame_succeeds[OF inv L None] by blast
  then obtain t where t: "walked s t" "claimed f h p nr t s'"
    using claimLoop_result[OF inv L None, of "clockHand s" nr "[0..<2 * numFrames s]"]
    by (auto simp: claimAFrame_def)
  have inv_t: "bp_inv L t" and none_t: "frameOf t h p = None" and p_t: "p < numPages (handles t h)"
    using walked_inv[OF t(1) inv] walked_frameOf[OF t(1)] None p t(1) by (auto simp: walked_def)
  let ?u = "setHandle h (swizzle (handles s' h) p f) s'"
  note ld = claimed_loaded[OF inv_t t(2) p_t none_t]
  let ?v = "bumpMetrics (numPins_update Suc) (if nr then ?u else bumpMetrics (numCacheMiss_update Suc) ?u)"
  have c: "core ?v = core ?u" by simp
  have fo: "frameOf ?v = frameOf ?u" by (rule frameOf_handles) simp
  have pv: "p < numPages (handles ?v h)" using ld(5)[of h] p_t by simp
  have inv_v: "bp_inv L ?v" using ld(1) bp_inv_core[OF c] by simp
  have "frameIdxOf h p ?v = (Inr f, ?v)"
    using frameIdxOf_ok[OF bp_inv_fh[OF inv_v] pv] fo ld(2) by simp
  then have r: "pinWithoutAcquiringPageLock h p nr s = (Inr f, ?v)"
    using frameIdxOf_ok[OF bp_inv_fh[OF inv] p] None cl
    by (cases nr) (simp_all add: pinWithoutAcquiringPageLock_def op_simps)
  have np: "numPages (handles t h') = numPages (handles s h')" for h' using t(1) by (simp add: walked_def)
  have view: "page_view ?v h' q = page_view s h' q" if "q < numPages (handles s h')" "(h', q) \<noteq> (h, p) \<or> \<not> nr" for h' q
    using ld(4)[of q h'] that np walked_view[OF t(1) inv that(1)] page_view_core[OF c] by simp
  show ?thesis
    using r inv_v fo ld(2,3) view None np ld(5,6) t(1)[unfolded walked_def] by (intro exI[of _ f] exI[of _ ?v]) (simp add: frameAt_def)
qed

lemma pinPage_ok:
  assumes inv: "bp_inv {} s" and p: "p < numPages (handles s h)"
    and room: "pin_room s h p"
  shows "\<exists>f t. pinPage h p nr s = (Inr f, t) \<and> bp_inv {} t \<and> frameOf t h p = Some f \<and>
           pinCount (frameAt t f) \<noteq> 0 \<and>
           (\<forall>h' q. q < numPages (handles s h') \<longrightarrow> (h', q) \<noteq> (h, p) \<or> \<not> nr \<or> frameOf s h p \<noteq> None \<longrightarrow>
              page_view t h' q = page_view s h' q) \<and>
           (\<forall>h'. numPages (handles t h') = numPages (handles s h')) \<and> numFrames t = numFrames s"
proof -
  let ?s1 = "setPageLock h p True s"
  have inv1: "bp_inv {(h, p)} ?s1" using setPageLock_inv[OF inv p, of True] by simp
  obtain f t where t: "pinWithoutAcquiringPageLock h p nr ?s1 = (Inr f, t)" "bp_inv {(h, p)} t" "frameOf t h p = Some f"
      "pinCount (frameAt t f) \<noteq> 0" "\<And>h'. numPages (handles t h') = numPages (handles s h')"
      "numFrames t = numFrames s"
      "\<And>h' q. q < numPages (handles s h') \<Longrightarrow> (h', q) \<noteq> (h, p) \<or> \<not> nr \<or> frameOf s h p \<noteq> None \<Longrightarrow>
         page_view t h' q = page_view s h' q"
    using pinWithoutLock_ok[OF inv1, of h p nr] p room by auto
  have pt: "p < numPages (handles t h)" using p t(5) by simp
  have "pinPage h p nr s = (Inr f, setPageLock h p False t)"
    using lockPage_free[OF inv p, of True] t(1) unlockPage_held[OF t(2) pt]
    by (simp add: pinPage_def op_simps)
  moreover have "bp_inv {} (setPageLock h p False t)" using setPageLock_inv[OF t(2) pt, of False] by simp
  ultimately show ?thesis
    using t(3-7) by (intro exI[of _ f] exI[of _ "setPageLock h p False t"]) simp
qed


definition samplePool :: "nat BufferPool" where
  "samplePool = newBufferPool 4096 8192 0 (\<lambda>_. newFileHandle 0 12288) (\<lambda>h p. 10 * h + p)"

lemma newBufferPool_inv:
  assumes "0 < framesForSize ps mx" and "framesForSize ps mx < UINT32_MAX" and "\<forall>h. fh_inv (hs h)"
    and "\<forall>h. \<forall>p < numPages (hs h). pageLocks (hs h) ! p = Some False \<and> pageIdxToFrameMap (hs h) ! p = Some UINT32_MAX"
  shows "bp_inv {} (newBufferPool ps mx z hs fs)"
  using assms by (auto simp: bp_inv_def newBufferPool_def frameAt_def frameOf_def newFrame_def EMPTY_PIN_COUNT_def)

lemma newFileHandle_free:
  assumes "p < numPages (newFileHandle fl n)"
  shows "pageLocks (newFileHandle fl n) ! p = Some False \<and> pageIdxToFrameMap (newFileHandle fl n) ! p = Some UINT32_MAX"
  using assms
  by (auto simp: newFileHandle_def constructExistingFileHandle_def constructNewFileHandle_def Let_def
      initPageIdxToFrameMapAndLocks_def fold_addPtr)

lemma samplePool_inv: "bp_inv {} samplePool"
  unfolding samplePool_def
  by (rule newBufferPool_inv) (simp_all add: framesForSize_def UINT32_MAX_def newFileHandle_inv newFileHandle_free)

lemma samplePool_pages: "numPages (handles samplePool h) = 3"
  by (simp add: samplePool_def newBufferPool_def newFileHandle_def constructExistingFileHandle_def Let_def
      initPageIdxToFrameMapAndLocks_def fold_addPtr getPageSize_def isLargePaged_def DEFAULT_PAGE_SIZE_def to_u32_def)

lemma samplePool_free:
  "p < 3 \<Longrightarrow> frameOf samplePool h p = None" "pinCount (frameAt samplePool 0) = EMPTY_PIN_COUNT" "numFrames samplePool = 2"
proof -
  assume "p < 3"
  then show "frameOf samplePool h p = None"
    using newFileHandle_free[of p 0 12288] samplePool_pages[of h]
    by (simp add: frameOf_def samplePool_def newBufferPool_def)
qed (simp_all add: samplePool_def newBufferPool_def framesForSize_def frameAt_def newFrame_def)


text \<open>
  when every frame is pinned by somebody, pinning a page that is not resident throws, and the page's lock stays
  held: \<open>pin\<close> has no handler between taking and releasing it.  Every later operation on the page blocks forever.
\<close>

theorem failed_pin_leaks_page_lock:
  assumes inv: "bp_inv {} s" and p: "p < numPages (handles s h)" and none: "frameOf s h p = None"
    and full: "\<forall>f < numFrames s. pinCount (frameAt s f) \<notin> {0, EMPTY_PIN_COUNT}"
  shows "\<exists>t. pin h p s = (Inl (BufferManagerException ''Cannot find a frame to evict from.''), t) \<and>
           fst (pin h p t) = Inl Blocks \<and> fst (unpin h p t) = Inl Blocks"
proof -
  let ?s1 = "setPageLock h p True s"
  have inv1: "bp_inv {(h, p)} ?s1" using setPageLock_inv[OF inv p, of True] by simp
  have none1: "frameOf ?s1 h p = None" using none by simp
  have "\<not> claimed f h p nr t s'" if "walked ?s1 t" for f nr t s'
    using that full walked_frame(1)[OF that, of f] bp_inv_size[OF inv] by (auto simp: claimed_def walked_def)
  then obtain t where t: "claimAFrame h p False ?s1 =
      (Inl (BufferManagerException ''Cannot find a frame to evict from.''), t)" "walked ?s1 t"
    using claimLoop_result[OF inv1 _ none1, of "clockHand ?s1" False "[0..<2 * numFrames ?s1]"]
    by (auto simp: claimAFrame_def)
  have "pin h p s = (Inl (BufferManagerException ''Cannot find a frame to evict from.''), t)"
    using lockPage_free[OF inv p, of True] frameIdxOf_ok[OF bp_inv_fh[OF inv1], of p h] p none1 t(1)
    by (simp add: pin_def pinPage_def pinWithoutAcquiringPageLock_def op_simps)
  moreover have "acquirePageLock (handles t h) p True = Inl Blocks"
  proof -
    have inv_t: "bp_inv {(h, p)} t" by (rule walked_inv[OF t(2) inv1])
    have "p < numPages (handles t h)" using t(2) p by (simp add: walked_def)
    then show ?thesis
      using bp_inv_lock[OF inv_t, of p h] bp_inv_fh[OF inv_t, of h] by (auto simp: acquirePageLock_def acquire_def fh_inv_def)
  qed
  ultimately show ?thesis
    by (simp add: pin_def pinPage_def unpin_def op_simps lockPage_def)
qed

definition onePool :: "nat BufferPool" where
  "onePool = newBufferPool 4096 4096 0 (\<lambda>_. newFileHandle 0 12288) (\<lambda>h p. 10 * h + p)"

lemma onePool_inv: "bp_inv {} onePool"
  unfolding onePool_def
  by (rule newBufferPool_inv) (simp_all add: framesForSize_def UINT32_MAX_def newFileHandle_inv newFileHandle_free)

lemma onePool_simps:
  "numPages (handles onePool h) = 3" "numFrames onePool = 1" "pinCount (frameAt onePool 0) = EMPTY_PIN_COUNT"
  "p < 3 \<Longrightarrow> frameOf onePool h p = None"
proof -
  have same: "handles onePool = handles samplePool" by (simp add: onePool_def samplePool_def newBufferPool_def)
  then show "numPages (handles onePool h) = 3" using samplePool_pages by simp
  show "p < 3 \<Longrightarrow> frameOf onePool h p = None" using samplePool_free(1)[of p h] frameOf_handles[OF same] by simp
qed (simp_all add: onePool_def newBufferPool_def framesForSize_def frameAt_def newFrame_def)

theorem failed_pin_leaks_page_lock_witness:
  "\<exists>f s t. pin 0 0 onePool = (Inr f, s) \<and>
     pin 0 1 s = (Inl (BufferManagerException ''Cannot find a frame to evict from.''), t) \<and>
     fst (pin 0 1 t) = Inl Blocks"
proof -
  have "pin_room onePool 0 0"
    using onePool_simps(4)[of 0 0] onePool_simps(2,3) by (simp add: pin_room_def)
  then obtain f s where s: "pin 0 0 onePool = (Inr f, s)" "bp_inv {} s" "frameOf s 0 0 = Some f"
      "pinCount (frameAt s f) \<noteq> 0" "numFrames s = 1" "numPages (handles s 0) = 3"
    using pinPage_ok[OF onePool_inv, of 0 0 False] onePool_simps(1,2) by (auto simp: pin_def)
  have f: "f < 1" "pinCount (frameAt s f) \<noteq> EMPTY_PIN_COUNT" "fileHandlePtr (frameAt s f) = Some 0" "framePageIdx (frameAt s f) = 0"
    using bp_inv_map[OF s(2) _ s(3)] s(5,6) by auto
  have "frameOf s 0 1 = None"
  proof (rule ccontr)
    assume "frameOf s 0 1 \<noteq> None"
    then obtain g where "frameOf s 0 1 = Some g" by auto
    from bp_inv_map[OF s(2) _ this] s(5,6) f show False by auto
  qed
  then show ?thesis
    using failed_pin_leaks_page_lock[OF s(2), of 1 0] s f by auto
qed

section \<open>Removing and flushing pages\<close>

lemma removePage_ok:
  assumes inv: "bp_inv {} s" and p: "p < numPages (handles s h)"
  shows "\<exists>t. removePageFromFrame h p fl s = (Inr (), t) \<and>
           core t = core (case frameOf s h p of None \<Rightarrow> s | Some f \<Rightarrow> evictS fl f s)"
proof -
  let ?s1 = "setPageLock h p True s"
  have inv1: "bp_inv {(h, p)} ?s1" using setPageLock_inv[OF inv p, of True] by simp
  have lk: "lockPage h p True s = (Inr True, ?s1)" by (rule lockPage_free[OF inv p]) simp
  have p1: "p < numPages (handles ?s1 h)" using p by simp
  have free: "pageLocks (handles s h) ! p = Some False" using bp_inv_lock[OF inv p] by simp
  show ?thesis
  proof (cases "frameOf s h p")
    case None
    have "core (setPageLock h p False ?s1) = core s"
      using free by (simp add: setPageLock_def core_iff update_same)
    then show ?thesis
      using lk None frameIdxOf_ok[OF bp_inv_fh[OF inv1] p1] unlockPage_held[OF inv1 p1]
      by (simp add: removePageFromFrame_def op_simps)
  next
    case (Some f)
    note m = bp_inv_map[OF inv p Some]
    have len: "f < length (bufferCache s)" and fl0: "\<not> frameLock (frameAt s f)"
      using m bp_inv_size[OF inv] bp_inv_frameLock[OF inv] by auto
    let ?fr = "frameAt s f"
    let ?s2 = "setFrame f (?fr\<lparr>frameLock := True\<rparr>) ?s1"
    let ?s3 = "if fl \<and> isDirty ?fr then bumpMetrics (numDirtyPageWriteIO_update Suc)
               (?s2\<lparr>files := (files s)(h := (files s h)(p := buffer ?fr))\<rparr>) else ?s2"
    let ?s4 = "setHandle h (unswizzle (handles ?s1 h) p)
                 (setFrame f (resetFrameWithoutLock (?fr\<lparr>frameLock := True\<rparr>)) ?s3)"
    let ?s5 = "setFrame f ((resetFrameWithoutLock ?fr)\<lparr>frameLock := False\<rparr>) ?s4"
    let ?s6 = "setHandle h (unswizzle (handles s h) p) ?s5"
    have a: "acquireFrameLock f True ?s1 = (Inr True, ?s2)"
      using fl0 by (simp add: acquireFrameLock_def Let_def)
    have b: "(if fl then flushIfDirty f else op_return ()) ?s2 = (Inr (), ?s3)"
      using m len by (simp add: flushIfDirty_def Let_def frameAt_setFrame op_return_def)
    have c: "clearFrameAndUnswizzleWithoutLock f h p ?s3 = (Inr (), ?s4)"
      using len by (simp add: clearFrameAndUnswizzleWithoutLock_def op_modify_def Let_def frameAt_setFrame)
    have d: "releaseFrameLock f ?s4 = (Inr (), ?s5)"
      using len by (simp add: releaseFrameLock_def op_modify_def frameAt_setFrame reset_lock)
    have "fh_inv (handles ?s5 h)" "p < numPages (handles ?s5 h)"
      using p unswizzle_inv[OF bp_inv_fh[OF inv1, of h]] by (simp_all add: unswizzle_locks)
    from unlockPage_ok[OF this] have e: "unlockPage h p ?s5 = (Inr (), ?s6)"
      using unswizzle_relock[OF free, of p] by (simp add: setPageLock_def)
    have "removePageFromFrame h p fl s = (Inr (), ?s6)"
      using lk Some frameIdxOf_ok[OF bp_inv_fh[OF inv1] p1] isAFrame_frameOf[OF inv p Some] a b c d e
      by (simp add: removePageFromFrame_def op_simps)
    moreover have "core ?s6 = core (evictS fl f s)"
      using m fl0 by (cases "frameAt s f") (simp add: core_iff evictS_def Let_def setPageLock_def resetFrameWithoutLock_def)
    ultimately show ?thesis using Some by auto
  qed
qed

text \<open>What a flush of the page would leave in the file.\<close>

definition flushed_file :: "'p BufferPool \<Rightarrow> nat \<Rightarrow> page_idx \<Rightarrow> 'p" where
  "flushed_file s h p = (case frameOf s h p of
     Some f \<Rightarrow> if isDirty (frameAt s f) then buffer (frameAt s f) else files s h p | None \<Rightarrow> files s h p)"

definition page_same :: "'p BufferPool \<Rightarrow> 'p BufferPool \<Rightarrow> nat \<Rightarrow> page_idx \<Rightarrow> bool" where
  "page_same s t h q \<longleftrightarrow> frameOf t h q = frameOf s h q \<and> page_view t h q = page_view s h q \<and>
     flushed_file t h q = flushed_file s h q \<and> files t h q = files s h q"

lemma removePage_effect:
  assumes inv: "bp_inv {} s" and p: "p < numPages (handles s h)"
  shows "\<exists>t. removePageFromFrame h p fl s = (Inr (), t) \<and> bp_inv {} t \<and> frameOf t h p = None \<and>
           files t h p = (if fl then flushed_file s h p else files s h p) \<and>
           (\<forall>h' q. q < numPages (handles s h') \<longrightarrow> (h', q) \<noteq> (h, p) \<longrightarrow> page_same s t h' q) \<and>
           (\<forall>h'. numPages (handles t h') = numPages (handles s h'))"
proof -
  obtain t where t: "removePageFromFrame h p fl s = (Inr (), t)"
      "core t = core (case frameOf s h p of None \<Rightarrow> s | Some f \<Rightarrow> evictS fl f s)"
    using removePage_ok[OF inv p] by blast
  have eq: "frameOf t = frameOf u" "frameAt t = frameAt u" "files t = files u" "handles t = handles u"
    "page_view t = page_view u" "flushed_file t = flushed_file u" "bp_inv {} t = bp_inv {} u"
    if "core t = core u" for u :: "'a BufferPool"
    using that page_view_core[OF that] bp_inv_core[OF that]
    by (auto simp: core_iff flushed_file_def frameOf_def frameAt_def fun_eq_iff split: option.splits)
  show ?thesis
  proof (cases "frameOf s h p")
    case None
    then have "core t = core s" using t(2) by simp
    from eq[OF this] show ?thesis
      using t(1) inv None by (intro exI[of _ t]) (simp add: page_same_def flushed_file_def)
  next
    case (Some f)
    note m = bp_inv_map[OF inv p Some]
    have c: "core t = core (evictS fl f s)" using t(2) Some by simp
    note ev = evictS_inv[OF inv conjunct1[OF m] conjunct1[OF conjunct2[OF m]], where w = fl]
    have here: "frameOf s h' q = Some f \<longleftrightarrow> (h', q) = (h, p)" if "q < numPages (handles s h')" for h' q
      using bp_inv_map[OF inv that, of f] m Some by auto
    have same: "page_same s t h' q" if q: "q < numPages (handles s h')" and ne: "(h', q) \<noteq> (h, p)" for h' q
    proof -
      have nf: "frameOf s h' q \<noteq> Some f" using here[OF q] ne by simp
      have fo: "frameOf t h' q = frameOf s h' q" and fi: "files t h' q = files s h' q"
        using eq[OF c] ev(5)[OF q] ev(4)[OF q] nf by simp_all
      have "frameAt t g = frameAt s g" if "frameOf s h' q = Some g" for g
        using eq(2)[OF c] ev(6)[of g] that nf by auto
      then show ?thesis
        using fo fi by (auto simp: page_same_def page_view_def flushed_file_def split: option.splits)
    qed
    have "files t h p = (if fl then flushed_file s h p else files s h p)"
      using eq(3)[OF c] ev(4)[OF p] Some by (simp add: flushed_file_def)
    moreover have "frameOf t h p = None" using eq(1)[OF c] ev(5)[OF p] Some by simp
    ultimately show ?thesis using t(1) eq(4,7)[OF c] ev(1,9) same by (intro exI[of _ t]) simp
  qed
qed

lemma removePages_effect:
  assumes "bp_inv {} s" and "distinct ps" and "\<forall>p \<in> set ps. p < numPages (handles s h)"
  shows "\<exists>t. removePages h fl ps s = (Inr (), t) \<and> bp_inv {} t \<and>
           (\<forall>p \<in> set ps. frameOf t h p = None \<and>
              files t h p = (if fl then flushed_file s h p else files s h p)) \<and>
           (\<forall>h' q. q < numPages (handles s h') \<longrightarrow> h' \<noteq> h \<or> q \<notin> set ps \<longrightarrow> page_same s t h' q) \<and>
           (\<forall>h'. numPages (handles t h') = numPages (handles s h'))"
  using assms
proof (induction ps arbitrary: s)
  case Nil
  then show ?case by (simp add: op_return_def page_same_def)
next
  case (Cons p ps)
  then obtain t where t: "removePageFromFrame h p fl s = (Inr (), t)" "bp_inv {} t" "frameOf t h p = None"
      "files t h p = (if fl then flushed_file s h p else files s h p)"
      "\<And>h' q. q < numPages (handles s h') \<Longrightarrow> (h', q) \<noteq> (h, p) \<Longrightarrow> page_same s t h' q"
      "\<And>h'. numPages (handles t h') = numPages (handles s h')"
    using removePage_effect[OF Cons.prems(1), of p h fl] by auto
  obtain u where u: "removePages h fl ps t = (Inr (), u)" "bp_inv {} u"
      "\<And>q. q \<in> set ps \<Longrightarrow> frameOf u h q = None \<and> files u h q = (if fl then flushed_file t h q else files t h q)"
      "\<And>h' q. q < numPages (handles t h') \<Longrightarrow> h' \<noteq> h \<or> q \<notin> set ps \<Longrightarrow> page_same t u h' q"
      "\<And>h'. numPages (handles u h') = numPages (handles t h')"
    using Cons.IH[OF t(2)] Cons.prems t(6) by auto
  have pu: "page_same t u h p" using u(4)[of p h] Cons.prems t(6) by auto
  have here: "frameOf u h q = None \<and> files u h q = (if fl then flushed_file s h q else files s h q)"
    if "q \<in> set (p # ps)" for q
  proof (cases "q = p")
    case True
    then show ?thesis using pu t(3,4) by (simp add: page_same_def)
  next
    case False
    then have q: "q \<in> set ps" "q < numPages (handles s h)" using that Cons.prems(3) by auto
    then show ?thesis using u(3)[OF q(1)] t(5)[OF q(2)] False by (simp add: page_same_def)
  qed
  have "page_same s u h' q" if "q < numPages (handles s h')" "h' \<noteq> h \<or> q \<notin> set (p # ps)" for h' q
  proof -
    have "page_same s t h' q" by (rule t(5)[OF that(1)]) (use that(2) in auto)
    moreover have "page_same t u h' q" by (rule u(4)) (use that t(6) in auto)
    ultimately show ?thesis by (simp add: page_same_def)
  qed
  then show ?case using t(1) u here t(6) by (intro exI[of _ u]) (simp add: op_bind_def)
qed



text \<open>The client's own write through the pointer that \<open>pin\<close> returned.\<close>

definition clientWrite :: "nat \<Rightarrow> 'p \<Rightarrow> 'p BufferPool \<Rightarrow> 'p BufferPool" where
  "clientWrite f v s = setFrame f ((frameAt s f)\<lparr>buffer := v\<rparr>) s"

lemma setFrame_setPageLock: "setFrame f fr (setPageLock h p b s) = setPageLock h p b (setFrame f fr s)"
  by (simp add: setFrame_def setPageLock_def setHandle_def)

lemma relock_id:
  assumes "pageLocks (handles s h) ! p = Some False"
  shows "setPageLock h p False (setPageLock h p True s) = s"
  using assms by (cases s) (simp add: setPageLock_def setHandle_def update_same fun_upd_idem)

lemma setPinnedPageDirty_ok:
  assumes inv: "bp_inv {} s" and p: "p < numPages (handles s h)"
  shows "setPinnedPageDirty h p s =
     (case frameOf s h p of
        Some f \<Rightarrow> if pinCount (frameAt s f) \<noteq> 0 then (Inr (), setFrame f ((frameAt s f)\<lparr>isDirty := True\<rparr>) s)
                  else (Inl (BufferManagerException
                    ''If a page is not in memory or is not pinned, cannot set it to isDirty''), s)
      | None \<Rightarrow> (Inl (BufferManagerException
                    ''If a page is not in memory or is not pinned, cannot set it to isDirty''), s))"
proof -
  let ?s1 = "setPageLock h p True s"
  have inv1: "bp_inv {(h, p)} ?s1" using setPageLock_inv[OF inv p, of True] by simp
  have p1: "p < numPages (handles ?s1 h)" using p by simp
  have free: "pageLocks (handles s h) ! p = Some False" using bp_inv_lock[OF inv p] by simp
  note base = lockPage_free[OF inv p, of True] frameIdxOf_ok[OF bp_inv_fh[OF inv1] p1]
    unlockPage_held[OF inv1 p1] relock_id[OF free]
  have zero: "(x :: u32) < 1 \<longleftrightarrow> x = 0" for x
    by (simp add: word_less_nat_alt unat_eq_0)
  show ?thesis
  proof (cases "frameOf s h p")
    case None
    then show ?thesis using base by (simp add: setPinnedPageDirty_def op_simps)
  next
    case (Some f)
    let ?s2 = "setFrame f ((frameAt s f)\<lparr>isDirty := True\<rparr>) s"
    have "fh_inv (handles (setPageLock h p True ?s2) h)" "p < numPages (handles (setPageLock h p True ?s2) h)"
      using bp_inv_fh[OF inv1, of h] p by (simp_all add: setPageLock_def)
    from unlockPage_ok[OF this] have "unlockPage h p (setPageLock h p True ?s2) = (Inr (), ?s2)"
      using relock_id[of ?s2 h p] free by (simp add: setPageLock_def[symmetric])
    then show ?thesis
      using base Some isAFrame_frameOf[OF inv p Some] zero
      by (simp add: setPinnedPageDirty_def op_simps setFrame_setPageLock)
  qed
qed

lemma unpin_ok:
  assumes inv: "bp_inv {} s" and p: "p < numPages (handles s h)" and f: "frameOf s h p = Some f"
  shows "unpin h p s = (Inr (), setFrame f ((frameAt s f)\<lparr>pinCount := pinCount (frameAt s f) - 1\<rparr>) s)"
proof -
  let ?s1 = "setPageLock h p True s"
  let ?s2 = "setFrame f ((frameAt s f)\<lparr>pinCount := pinCount (frameAt s f) - 1\<rparr>) s"
  have inv1: "bp_inv {(h, p)} ?s1" using setPageLock_inv[OF inv p, of True] by simp
  have p1: "p < numPages (handles ?s1 h)" using p by simp
  have free: "pageLocks (handles s h) ! p = Some False" using bp_inv_lock[OF inv p] by simp
  have "fh_inv (handles (setPageLock h p True ?s2) h)" "p < numPages (handles (setPageLock h p True ?s2) h)"
    using bp_inv_fh[OF inv1, of h] p by (simp_all add: setPageLock_def)
  from unlockPage_ok[OF this] have "unlockPage h p (setPageLock h p True ?s2) = (Inr (), ?s2)"
    using relock_id[of ?s2 h p] free by (simp add: setPageLock_def[symmetric])
  then show ?thesis
    using lockPage_free[OF inv p, of True] frameIdxOf_ok[OF bp_inv_fh[OF inv1] p1] f isAFrame_frameOf[OF inv p f]
    by (simp add: unpin_def unpinWithoutAcquiringPageLock_def op_simps setFrame_setPageLock)
qed

text \<open>
  writing a page through the pool.  A client that has pinned the page, writes into the buffer and marks the page dirty
  changes the content of exactly that page; unpinning it then keeps the invariant, so the write survives any
  later eviction.  Marking a page that is not resident or not pinned is refused.
\<close>

theorem client_write_is_kept:
  assumes "bp_inv {} s" and "p < numPages (handles s h)"
  shows "case frameOf s h p of
           None \<Rightarrow> is_error (fst (setPinnedPageDirty h p s))
         | Some f \<Rightarrow> pinCount (frameAt s f) \<noteq> 0 \<longrightarrow>
             (\<exists>t u. setPinnedPageDirty h p (clientWrite f v s) = (Inr (), t) \<and> unpin h p t = (Inr (), u) \<and>
                bp_inv {} u \<and> page_view u h p = v \<and>
                (\<forall>h' q. q < numPages (handles s h') \<longrightarrow> (h', q) \<noteq> (h, p) \<longrightarrow> page_view u h' q = page_view s h' q))"
proof (cases "frameOf s h p")
  case None
  then show ?thesis using setPinnedPageDirty_ok[OF assms] by simp
next
  case (Some f)
  note m = bp_inv_map[OF assms(1,2) Some]
  have len: "f < length (bufferCache s)" using m bp_inv_size[OF assms(1)] by simp
  have "\<exists>t u. setPinnedPageDirty h p (clientWrite f v s) = (Inr (), t) \<and> unpin h p t = (Inr (), u) \<and>
      bp_inv {} u \<and> page_view u h p = v \<and>
      (\<forall>h' q. q < numPages (handles s h') \<longrightarrow> (h', q) \<noteq> (h, p) \<longrightarrow> page_view u h' q = page_view s h' q)"
    if pc: "pinCount (frameAt s f) \<noteq> 0"
  proof -
    let ?w = "clientWrite f v s"
    let ?t = "setFrame f ((frameAt ?w f)\<lparr>isDirty := True\<rparr>) ?w"
    let ?u = "setFrame f ((frameAt ?t f)\<lparr>pinCount := pinCount (frameAt ?t f) - 1\<rparr>) ?t"
    have w: "bp_inv {} ?w" unfolding clientWrite_def by (rule setFrame_inv[OF assms(1)]) (use m pc in auto)
    have wf: "frameAt ?w f = (frameAt s f)\<lparr>buffer := v\<rparr>" "f < numFrames ?w" "handles ?w = handles s" "frameOf ?w = frameOf s"
      using len m by (simp_all add: clientWrite_def frameAt_setFrame)
    have t: "bp_inv {} ?t" by (rule setFrame_inv[OF w]) (use wf m pc in auto)
    have lent: "f < length (bufferCache ?w)" using len by (simp add: clientWrite_def)
    have tf: "frameAt ?t f = (frameAt s f)\<lparr>buffer := v, isDirty := True\<rparr>" using lent wf(1) by (simp add: frameAt_setFrame)
    have ne: "pinCount (frameAt s f) - 1 \<noteq> EMPTY_PIN_COUNT" using pc by (simp add: EMPTY_PIN_COUNT_def)
    have u: "bp_inv {} ?u" by (rule setFrame_inv[OF t]) (use tf wf m ne in auto)
    have dirty: "setPinnedPageDirty h p ?w = (Inr (), ?t)"
      using setPinnedPageDirty_ok[OF w, of p h] assms(2) wf Some pc by simp
    have unp: "unpin h p ?t = (Inr (), ?u)" using unpin_ok[OF t, of p h f] assms(2) wf Some by simp
    have view: "page_view ?u h' q = (if frameOf s h' q = Some f then v else page_view s h' q)"
      if "q < numPages (handles s h')" for h' q
      using setFrame_view[OF t, of f q h'] setFrame_view[OF w, of f q h'] setFrame_view[OF assms(1), of f q h'] that m wf tf
      by (simp add: clientWrite_def)
    have "(h', q) = (h, p)" if "frameOf s h' q = Some f" "q < numPages (handles s h')" for h' q
      using bp_inv_map[OF assms(1) that(2,1)] m by simp
    then have "page_view ?u h' q = page_view s h' q" if "q < numPages (handles s h')" "(h', q) \<noteq> (h, p)" for h' q
      using view[OF that(1)] that by (simp only: if_split) blast
    moreover have "page_view ?u h p = v" using view[OF assms(2)] Some by (simp only: if_True refl)
    ultimately show ?thesis using dirty unp u by blast
  qed
  then show ?thesis using Some by simp
qed

theorem client_write_is_kept_witness:
  "\<exists>f s t u. pin 0 0 onePool = (Inr f, s) \<and> setPinnedPageDirty 0 0 (clientWrite f 99 s) = (Inr (), t) \<and>
     unpin 0 0 t = (Inr (), u) \<and> page_view u 0 0 = 99"
proof -
  have "pin_room onePool 0 0"
    using onePool_simps(4)[of 0 0] onePool_simps(2,3) by (simp add: pin_room_def)
  then obtain f s where s: "pin 0 0 onePool = (Inr f, s)" "bp_inv {} s" "frameOf s 0 0 = Some f"
      "pinCount (frameAt s f) \<noteq> 0" "numPages (handles s 0) = 3"
    using pinPage_ok[OF onePool_inv, of 0 0 False] onePool_simps(1,2) by (auto simp: pin_def)
  have "0 < numPages (handles s 0)" using s(5) by simp
  from client_write_is_kept[OF s(2) this, of 99] show ?thesis using s(1,3,4) by auto
qed

end
