(* ===== verification/Transaction_Manager.thy ===== *)
theory Transaction_Manager
  imports Prelude Interfaces Wal
begin

text \<open>
  The transaction manager: \<^verbatim>\<open>src/src/transaction/transaction_manager.cpp\<close>,
  \<^verbatim>\<open>include/transaction_manager.h\<close> and \<^verbatim>\<open>include/transaction.h\<close>.

  Every public function runs under \<open>mtxForSerializingPublicFunctionCalls\<close>, so its effect is one
  function on the manager's state; the second part of the theory is the step relation of
  concurrent callers at the granularity of the two mutexes.
\<close>

section \<open>State and operations\<close>

datatype TransactionType = READ_ONLY | WRITE

record Transaction =
  trxType :: TransactionType
  trxID :: u64

definition isReadOnly :: "Transaction \<Rightarrow> bool" where
  "isReadOnly t \<longleftrightarrow> trxType t = READ_ONLY"

definition isWriteTransaction :: "Transaction \<Rightarrow> bool" where
  "isWriteTransaction t \<longleftrightarrow> trxType t = WRITE"

record 'p TransactionManager =
  wal :: "'p WAL"
  activeWriteTransactionID :: u64
  activeReadOnlyTransactionIDs :: "u64 list"
  lastTransactionID :: u64
  lastCommitID :: u64
  checkPointWaitTimeoutForTransactionsToLeaveInMicros :: nat

definition THREAD_SLEEP_TIME_WHEN_WAITING_IN_MICROS :: nat where
  "THREAD_SLEEP_TIME_WHEN_WAITING_IN_MICROS = 100"

definition newTransactionManager :: "'p WAL \<Rightarrow> 'p TransactionManager" where
  "newTransactionManager w =
     \<lparr>wal = w, activeWriteTransactionID = INT64_MAX, activeReadOnlyTransactionIDs = [],
      lastTransactionID = 0, lastCommitID = 0,
      checkPointWaitTimeoutForTransactionsToLeaveInMicros = 5000000\<rparr>"

definition hasActiveWriteTransactionNoLock :: "'p TransactionManager \<Rightarrow> bool" where
  "hasActiveWriteTransactionNoLock m \<longleftrightarrow> activeWriteTransactionID m \<noteq> INT64_MAX"

definition beginWriteTransaction ::
  "'p TransactionManager \<Rightarrow> (Transaction \<times> 'p TransactionManager) result" where
  "beginWriteTransaction m =
     (if hasActiveWriteTransactionNoLock m
      then Inl (TransactionManagerException ''Cannot start a new write transaction in the system.'')
      else let i = lastTransactionID m + 1
           in Inr (\<lparr>trxType = WRITE, trxID = i\<rparr>,
                   m\<lparr>lastTransactionID := i, activeWriteTransactionID := i\<rparr>))"

definition beginReadOnlyTransaction ::
  "'p TransactionManager \<Rightarrow> Transaction \<times> 'p TransactionManager" where
  "beginReadOnlyTransaction m =
     (let i = lastTransactionID m + 1
      in (\<lparr>trxType = READ_ONLY, trxID = i\<rparr>,
          m\<lparr>lastTransactionID := i,
            activeReadOnlyTransactionIDs := List.insert i (activeReadOnlyTransactionIDs m)\<rparr>))"

definition assertActiveWriteTransationIsCorrectNoLock ::
  "'p TransactionManager \<Rightarrow> Transaction \<Rightarrow> unit result" where
  "assertActiveWriteTransationIsCorrectNoLock m t =
     (if activeWriteTransactionID m \<noteq> trxID t
      then Inl (TransactionManagerException
             ''The ID of the committing write transaction is not equal to the ID of the activeWriteTransaction'')
      else Inr ())"

definition clearActiveWriteTransactionIfWriteTransactionNoLock ::
  "'p TransactionManager \<Rightarrow> Transaction \<Rightarrow> 'p TransactionManager" where
  "clearActiveWriteTransactionIfWriteTransactionNoLock m t =
     (if isWriteTransaction t then m\<lparr>activeWriteTransactionID := INT64_MAX\<rparr> else m)"

definition commitOrRollbackNoLock ::
  "'p TransactionManager \<Rightarrow> Transaction \<Rightarrow> bool \<Rightarrow> 'p TransactionManager result" where
  "commitOrRollbackNoLock m t isCommit =
     (if isReadOnly t
      then Inr (m\<lparr>activeReadOnlyTransactionIDs := removeAll (trxID t) (activeReadOnlyTransactionIDs m)\<rparr>)
      else bind_result (assertActiveWriteTransationIsCorrectNoLock m t) (\<lambda>_.
        Inr (if isCommit
             then m\<lparr>wal := logCommit (wal m) (trxID t), lastCommitID := lastCommitID m + 1\<rparr>
             else m)))"

definition commit :: "'p TransactionManager \<Rightarrow> Transaction \<Rightarrow> 'p TransactionManager result" where
  "commit m t = bind_result (commitOrRollbackNoLock m t True) (\<lambda>m1.
     Inr (clearActiveWriteTransactionIfWriteTransactionNoLock m1 t))"

definition rollback :: "'p TransactionManager \<Rightarrow> Transaction \<Rightarrow> 'p TransactionManager result" where
  "rollback m t = bind_result (commitOrRollbackNoLock m t False) (\<lambda>m1.
     Inr (clearActiveWriteTransactionIfWriteTransactionNoLock m1 t))"

definition commitButKeepActiveWriteTransaction ::
  "'p TransactionManager \<Rightarrow> Transaction \<Rightarrow> 'p TransactionManager result" where
  "commitButKeepActiveWriteTransaction m t = commitOrRollbackNoLock m t True"

definition manuallyClearActiveWriteTransaction ::
  "'p TransactionManager \<Rightarrow> Transaction \<Rightarrow> 'p TransactionManager result" where
  "manuallyClearActiveWriteTransaction m t =
     bind_result (assertActiveWriteTransationIsCorrectNoLock m t) (\<lambda>_.
       Inr (clearActiveWriteTransactionIfWriteTransactionNoLock m t))"

text \<open>
  The waiting loop of \<open>stopNewTransactionsAndWaitUntilAllReadTransactionsLeave\<close>.  Its caller holds
  the mutex that every commit and rollback needs, so the set of active readers is the same in
  every iteration.  The value is the number of sleeps, or the timeout.
\<close>

function waitForReaders :: "u64 list \<Rightarrow> nat \<Rightarrow> nat \<Rightarrow> nat result" where
  "waitForReaders readers timeout numTimesWaited =
     (if readers \<noteq> [] then
        if (numTimesWaited + 1) * THREAD_SLEEP_TIME_WHEN_WAITING_IN_MICROS > timeout
        then Inl (TransactionManagerException ''Timeout waiting for read transactions to leave'')
        else waitForReaders readers timeout (numTimesWaited + 1)
      else Inr numTimesWaited)"
  by pat_completeness auto
termination
  by (relation "measure (\<lambda>(r, t, n). t - n)") (auto simp: THREAD_SLEEP_TIME_WHEN_WAITING_IN_MICROS_def)

declare waitForReaders.simps [simp del]

section \<open>Concurrent callers\<close>

text \<open>
  A thread calls one public function at a time.  \<open>begin*\<close> take \<open>mtxForStartingNewTransactions\<close>
  and then \<open>mtxForSerializingPublicFunctionCalls\<close> and release both at the end;
  commit, rollback and the other functions take only the second; the stop function takes the
  second and then the first, which it keeps (also when it throws) until
  \<open>allowReceivingNewTransactions\<close>.
\<close>

datatype pc =
    Idle
  | BeginHasStart bool            \<comment> \<open>begin a write (True) or read transaction, holding the start mutex\<close>
  | StopHasPublic                 \<comment> \<open>stop function, holding the public mutex\<close>
  | StopWaiting nat               \<comment> \<open>in the waiting loop, holding both\<close>
  | Stopped                       \<comment> \<open>returned (or threw), still holding the start mutex\<close>

record 'p tm_sys =
  mgr :: "'p TransactionManager"
  startOwner :: "nat option"
  publicOwner :: "nat option"
  pcs :: "nat \<Rightarrow> pc"
  openTrx :: "Transaction list"   \<comment> \<open>handed out and neither committed nor rolled back\<close>

definition init_sys :: "'p WAL \<Rightarrow> 'p tm_sys" where
  "init_sys w = \<lparr>mgr = newTransactionManager w, startOwner = None, publicOwner = None,
     pcs = (\<lambda>_. Idle), openTrx = []\<rparr>"

inductive tm_step :: "'p tm_sys \<Rightarrow> 'p tm_sys \<Rightarrow> bool" where
  begin_start:
    "pcs s i = Idle \<Longrightarrow> startOwner s = None \<Longrightarrow>
     tm_step s (s\<lparr>pcs := (pcs s)(i := BeginHasStart b), startOwner := Some i\<rparr>)"
| begin_write:
    "pcs s i = BeginHasStart True \<Longrightarrow> publicOwner s = None \<Longrightarrow>
     beginWriteTransaction (mgr s) = Inr (t, m) \<Longrightarrow>
     tm_step s (s\<lparr>pcs := (pcs s)(i := Idle), startOwner := None, mgr := m,
                  openTrx := t # openTrx s\<rparr>)"
| begin_write_error:
    "pcs s i = BeginHasStart True \<Longrightarrow> publicOwner s = None \<Longrightarrow>
     beginWriteTransaction (mgr s) = Inl e \<Longrightarrow>
     tm_step s (s\<lparr>pcs := (pcs s)(i := Idle), startOwner := None\<rparr>)"
| begin_read:
    "pcs s i = BeginHasStart False \<Longrightarrow> publicOwner s = None \<Longrightarrow>
     beginReadOnlyTransaction (mgr s) = (t, m) \<Longrightarrow>
     tm_step s (s\<lparr>pcs := (pcs s)(i := Idle), startOwner := None, mgr := m,
                  openTrx := t # openTrx s\<rparr>)"
| finish:
    "pcs s i = Idle \<or> pcs s i = Stopped \<Longrightarrow> publicOwner s = None \<Longrightarrow> t \<in> set (openTrx s) \<Longrightarrow>
     (if c then commit (mgr s) t else rollback (mgr s) t) = Inr m \<Longrightarrow>
     tm_step s (s\<lparr>mgr := m, openTrx := removeAll t (openTrx s)\<rparr>)"
| commit_keep:
    "pcs s i = Idle \<or> pcs s i = Stopped \<Longrightarrow> publicOwner s = None \<Longrightarrow> t \<in> set (openTrx s) \<Longrightarrow>
     isWriteTransaction t \<Longrightarrow> commitButKeepActiveWriteTransaction (mgr s) t = Inr m \<Longrightarrow>
     tm_step s (s\<lparr>mgr := m\<rparr>)"
| clear_active:
    "pcs s i = Idle \<or> pcs s i = Stopped \<Longrightarrow> publicOwner s = None \<Longrightarrow> t \<in> set (openTrx s) \<Longrightarrow>
     isWriteTransaction t \<Longrightarrow> manuallyClearActiveWriteTransaction (mgr s) t = Inr m \<Longrightarrow>
     tm_step s (s\<lparr>mgr := m, openTrx := removeAll t (openTrx s)\<rparr>)"
| stop_public:
    "pcs s i = Idle \<Longrightarrow> publicOwner s = None \<Longrightarrow>
     tm_step s (s\<lparr>pcs := (pcs s)(i := StopHasPublic), publicOwner := Some i\<rparr>)"
| stop_start:
    "pcs s i = StopHasPublic \<Longrightarrow> startOwner s = None \<Longrightarrow>
     tm_step s (s\<lparr>pcs := (pcs s)(i := StopWaiting 0), startOwner := Some i\<rparr>)"
| stop_done:
    "pcs s i = StopWaiting n \<Longrightarrow> activeReadOnlyTransactionIDs (mgr s) = [] \<Longrightarrow>
     tm_step s (s\<lparr>pcs := (pcs s)(i := Stopped), publicOwner := None\<rparr>)"
| stop_sleep:
    "pcs s i = StopWaiting n \<Longrightarrow> activeReadOnlyTransactionIDs (mgr s) \<noteq> [] \<Longrightarrow>
     (n + 1) * THREAD_SLEEP_TIME_WHEN_WAITING_IN_MICROS
       \<le> checkPointWaitTimeoutForTransactionsToLeaveInMicros (mgr s) \<Longrightarrow>
     tm_step s (s\<lparr>pcs := (pcs s)(i := StopWaiting (n + 1))\<rparr>)"
| stop_timeout:
    "pcs s i = StopWaiting n \<Longrightarrow> activeReadOnlyTransactionIDs (mgr s) \<noteq> [] \<Longrightarrow>
     (n + 1) * THREAD_SLEEP_TIME_WHEN_WAITING_IN_MICROS
       > checkPointWaitTimeoutForTransactionsToLeaveInMicros (mgr s) \<Longrightarrow>
     tm_step s (s\<lparr>pcs := (pcs s)(i := Stopped), publicOwner := None\<rparr>)"
| allow:
    "pcs s i = Stopped \<Longrightarrow>
     tm_step s (s\<lparr>pcs := (pcs s)(i := Idle), startOwner := None\<rparr>)"

text \<open>States reachable in a given number of steps.\<close>

inductive tm_reach :: "'p WAL \<Rightarrow> nat \<Rightarrow> 'p tm_sys \<Rightarrow> bool" for w where
  start: "tm_reach w 0 (init_sys w)"
| step: "tm_reach w n s \<Longrightarrow> tm_step s t \<Longrightarrow> tm_reach w (Suc n) t"


inductive_cases tm_stepE: "tm_step s t"
inductive_cases tm_reach_SucE: "tm_reach w (Suc n) s"
inductive_cases tm_reach_0E: "tm_reach w 0 s"

lemmas tm_op_defs = beginWriteTransaction_def beginReadOnlyTransaction_def commit_def rollback_def
  commitButKeepActiveWriteTransaction_def manuallyClearActiveWriteTransaction_def
  commitOrRollbackNoLock_def assertActiveWriteTransationIsCorrectNoLock_def
  clearActiveWriteTransactionIfWriteTransactionNoLock_def hasActiveWriteTransactionNoLock_def
  isReadOnly_def isWriteTransaction_def

declare tm_op_defs [op_defs]

section \<open>Functional behaviour of the operations\<close>

lemma not_write_is_read: "isWriteTransaction t \<longleftrightarrow> \<not> isReadOnly t"
  by (cases "trxType t") (simp_all add: isWriteTransaction_def isReadOnly_def)

lemma commitOrRollback_cases:
  "commitOrRollbackNoLock m t c =
     (if isReadOnly t then
        Inr (m\<lparr>activeReadOnlyTransactionIDs := removeAll (trxID t) (activeReadOnlyTransactionIDs m)\<rparr>)
      else if activeWriteTransactionID m = trxID t then
        Inr (if c then m\<lparr>wal := logCommit (wal m) (trxID t), lastCommitID := lastCommitID m + 1\<rparr> else m)
      else Inl (TransactionManagerException
             ''The ID of the committing write transaction is not equal to the ID of the activeWriteTransaction''))"
  by (simp add: commitOrRollbackNoLock_def assertActiveWriteTransationIsCorrectNoLock_def)

lemma waitForReaders_no_readers: "waitForReaders [] timeout n = Inr n"
  by (subst waitForReaders.simps) simp

lemma waitForReaders_readers:
  "readers \<noteq> [] \<Longrightarrow> waitForReaders readers timeout n =
     Inl (TransactionManagerException ''Timeout waiting for read transactions to leave'')"
proof (induction readers timeout n rule: waitForReaders.induct)
  case (1 readers timeout n)
  then show ?case by (subst waitForReaders.simps) auto
qed

section \<open>Invariants of concurrent callers\<close>

definition holds_start :: "pc \<Rightarrow> bool" where
  "holds_start p = (case p of BeginHasStart _ \<Rightarrow> True | StopWaiting _ \<Rightarrow> True | Stopped \<Rightarrow> True | _ \<Rightarrow> False)"

definition holds_public :: "pc \<Rightarrow> bool" where
  "holds_public p = (case p of StopHasPublic \<Rightarrow> True | StopWaiting _ \<Rightarrow> True | _ \<Rightarrow> False)"

lemma holds_simps [simp]:
  "holds_start (BeginHasStart b)" "holds_start (StopWaiting n)" "holds_start Stopped"
  "\<not> holds_start Idle" "\<not> holds_start StopHasPublic"
  "holds_public StopHasPublic" "holds_public (StopWaiting n)"
  "\<not> holds_public Idle" "\<not> holds_public (BeginHasStart b)" "\<not> holds_public Stopped"
  by (simp_all add: holds_start_def holds_public_def)

text \<open>The two mutexes are owned by exactly the threads whose program counter says so.\<close>

definition lock_inv :: "'p tm_sys \<Rightarrow> bool" where
  "lock_inv s \<longleftrightarrow> (\<forall>i. holds_start (pcs s i) \<longleftrightarrow> startOwner s = Some i) \<and>
                  (\<forall>i. holds_public (pcs s i) \<longleftrightarrow> publicOwner s = Some i)"

lemma lock_inv_init: "lock_inv (init_sys w)"
  by (simp add: lock_inv_def init_sys_def)

lemma lock_inv_step:
  assumes step: "tm_step s t" and inv: "lock_inv s"
  shows "lock_inv t"
proof -
  have start: "\<And>i. holds_start (pcs s i) \<longleftrightarrow> startOwner s = Some i"
    and public: "\<And>i. holds_public (pcs s i) \<longleftrightarrow> publicOwner s = Some i"
    using inv by (auto simp: lock_inv_def)
  show ?thesis
    using step by cases (insert start public, auto simp: lock_inv_def split: if_splits; metis holds_simps)+
qed

lemma tm_reach_lock_inv: "tm_reach w n s \<Longrightarrow> lock_inv s"
  by (induction rule: tm_reach.induct) (auto intro: lock_inv_init lock_inv_step)

text \<open>
  The transactions handed out and not yet finished are the ones the manager counts as active:
  identifiers are distinct, the active write identifier is that of the open write transaction.
\<close>

definition trx_inv :: "Transaction list \<Rightarrow> 'p TransactionManager \<Rightarrow> bool" where
  "trx_inv ts m \<longleftrightarrow>
     distinct (map trxID ts) \<and>
     (\<forall>t \<in> set ts. trxID t \<le> lastTransactionID m) \<and>
     set (activeReadOnlyTransactionIDs m) = trxID ` {t \<in> set ts. isReadOnly t} \<and>
     (\<forall>t \<in> set ts. isWriteTransaction t \<longrightarrow> trxID t = activeWriteTransactionID m) \<and>
     (hasActiveWriteTransactionNoLock m \<longrightarrow>
        (\<exists>t \<in> set ts. isWriteTransaction t \<and> trxID t = activeWriteTransactionID m))"

declare trx_inv_def [inv_simps]

lemma next_id:
  assumes "unat (x :: u64) < 9223372036854775806"
  shows "x < x + 1" and "x + 1 \<noteq> INT64_MAX" and "x < INT64_MAX"
proof -
  have "x + 1 \<noteq> 0"
  proof
    assume "x + 1 = 0"
    then have "x = - 1" by (simp add: add_eq_0_iff2)
    then show False using assms by (simp add: unsigned_minus_1_eq_mask mask_eq_exp_minus_1)
  qed
  then have "unat (x + 1) = Suc (unat x)"
    by (metis add.commute unatSuc)
  then show "x < x + 1" and "x + 1 \<noteq> INT64_MAX" and "x < INT64_MAX"
    using assms by (auto simp: word_less_nat_alt INT64_MAX_def)
qed

lemma readers_Cons:
  "{u \<in> set (t # ts). isReadOnly u} =
     (if isReadOnly t then insert t {u \<in> set ts. isReadOnly u} else {u \<in> set ts. isReadOnly u})"
  by auto

lemma trx_inv_begin:
  assumes inv: "trx_inv ts m" and small: "unat (lastTransactionID m) < 9223372036854775806"
  shows "beginWriteTransaction m = Inr (t, m1) \<Longrightarrow> trx_inv (t # ts) m1"
    and "beginReadOnlyTransaction m = (t, m1) \<Longrightarrow> trx_inv (t # ts) m1"
proof -
  let ?i = "lastTransactionID m + 1"
  have old: "\<forall>u \<in> set ts. trxID u < ?i"
    using inv next_id(1)[OF small] by (auto simp: trx_inv_def)
  then have fresh: "?i \<notin> trxID ` set ts" by auto
  have real_id: "\<forall>u \<in> set ts. trxID u \<noteq> INT64_MAX"
    using inv next_id(3)[OF small] by (fastforce simp: trx_inv_def)
  note base = inv old fresh real_id
  show "trx_inv (t # ts) m1" if "beginWriteTransaction m = Inr (t, m1)"
    using that base
    by (auto simp: trx_inv_def tm_op_defs Let_def split: if_splits)
  show "trx_inv (t # ts) m1" if begun: "beginReadOnlyTransaction m = (t, m1)"
  proof -
    have t: "isReadOnly t" "trxID t = ?i"
      and m1: "m1 = m\<lparr>lastTransactionID := ?i,
                 activeReadOnlyTransactionIDs := List.insert ?i (activeReadOnlyTransactionIDs m)\<rparr>"
      using begun by (auto simp: beginReadOnlyTransaction_def Let_def isReadOnly_def)
    show ?thesis
      unfolding trx_inv_def readers_Cons using base t
      by (auto simp: trx_inv_def m1 hasActiveWriteTransactionNoLock_def not_write_is_read)
  qed
qed

lemma distinct_trxID_removeAll:
  "distinct (map trxID ts) \<Longrightarrow> distinct (map trxID (removeAll t ts))"
  by (induction ts) auto

lemma trx_inv_close:
  assumes inv: "trx_inv ts m" and t: "t \<in> set ts"
    and m1: "commitOrRollbackNoLock m t c = Inr m1"
  shows "trx_inv (removeAll t ts) (clearActiveWriteTransactionIfWriteTransactionNoLock m1 t)"
proof -
  have inj: "inj_on trxID (set ts)" using inv by (simp add: trx_inv_def distinct_map)
  then have same: "u = t" if "u \<in> set ts" "trxID u = trxID t" for u
    using that t by (auto dest: inj_onD)
  show ?thesis
  proof (cases "isReadOnly t")
    case True
    have "trxID ` {u \<in> set (removeAll t ts). isReadOnly u} = trxID ` {u \<in> set ts. isReadOnly u} - {trxID t}"
      using same by auto
    then show ?thesis
      using inv m1 True
      by (auto simp: trx_inv_def commitOrRollback_cases not_write_is_read distinct_trxID_removeAll
          clearActiveWriteTransactionIfWriteTransactionNoLock_def hasActiveWriteTransactionNoLock_def)
  next
    case False
    have "{u \<in> set (removeAll t ts). isReadOnly u} = {u \<in> set ts. isReadOnly u}"
      using False by auto
    moreover have "isReadOnly u" if "u \<in> set ts" "u \<noteq> t" for u
    proof (rule ccontr)
      assume "\<not> isReadOnly u"
      then have "trxID u = trxID t" using inv t that False by (simp add: trx_inv_def not_write_is_read)
      then show False using same that by auto
    qed
    ultimately show ?thesis
      using inv m1 False
      by (auto simp: trx_inv_def commitOrRollback_cases not_write_is_read distinct_trxID_removeAll
          clearActiveWriteTransactionIfWriteTransactionNoLock_def hasActiveWriteTransactionNoLock_def
          split: if_splits)
  qed
qed

lemma trx_inv_keep:
  "trx_inv ts m \<Longrightarrow> isWriteTransaction t \<Longrightarrow> commitOrRollbackNoLock m t c = Inr m1 \<Longrightarrow> trx_inv ts m1"
  by (auto simp: trx_inv_def commitOrRollback_cases not_write_is_read hasActiveWriteTransactionNoLock_def
      split: if_splits)

lemma manuallyClear_is_rollback:
  "isWriteTransaction t \<Longrightarrow> manuallyClearActiveWriteTransaction m t = rollback m t"
  by (simp add: manuallyClearActiveWriteTransaction_def rollback_def commitOrRollbackNoLock_def
      not_write_is_read assertActiveWriteTransationIsCorrectNoLock_def)

lemma lastTransactionID_ops:
  "beginWriteTransaction m = Inr (t, m1) \<Longrightarrow> lastTransactionID m1 = lastTransactionID m + 1"
  "beginReadOnlyTransaction m = (t, m1) \<Longrightarrow> lastTransactionID m1 = lastTransactionID m + 1"
  "commit m t = Inr m1 \<Longrightarrow> lastTransactionID m1 = lastTransactionID m"
  "rollback m t = Inr m1 \<Longrightarrow> lastTransactionID m1 = lastTransactionID m"
  "commitButKeepActiveWriteTransaction m t = Inr m1 \<Longrightarrow> lastTransactionID m1 = lastTransactionID m"
  by (auto simp: tm_op_defs bind_result_eq_Inr Let_def split: if_splits)

lemma unat_next_le: "unat (x + 1 :: u64) \<le> Suc (unat x)"
  by (cases "x + 1 = 0") (simp_all add: unatSuc add.commute[of x])

lemma tm_step_lastTransactionID:
  "tm_step s t \<Longrightarrow> unat (lastTransactionID (mgr t)) \<le> Suc (unat (lastTransactionID (mgr s)))"
  by (cases rule: tm_step.cases)
    (auto simp: lastTransactionID_ops manuallyClear_is_rollback unat_next_le split: if_splits)

lemma tm_reach_counter: "tm_reach w n s \<Longrightarrow> unat (lastTransactionID (mgr s)) \<le> n"
  by (induction rule: tm_reach.induct)
    (auto simp: init_sys_def newTransactionManager_def dest!: tm_step_lastTransactionID)

lemma trx_inv_step:
  assumes "tm_step s t" and "trx_inv (openTrx s) (mgr s)"
    and "unat (lastTransactionID (mgr s)) < 9223372036854775806"
  shows "trx_inv (openTrx t) (mgr t)"
  using assms
  by cases (auto simp: trx_inv_begin commit_def rollback_def bind_result_eq_Inr trx_inv_close
      manuallyClear_is_rollback commitButKeepActiveWriteTransaction_def trx_inv_keep split: if_splits)

lemma tm_reach_trx_inv:
  "tm_reach w n s \<Longrightarrow> n \<le> 9223372036854775806 \<Longrightarrow> trx_inv (openTrx s) (mgr s)"
proof (induction rule: tm_reach.induct)
  case start
  show ?case by (simp add: init_sys_def newTransactionManager_def trx_inv_def hasActiveWriteTransactionNoLock_def)
next
  case (step n s t)
  then show ?case using tm_reach_counter[OF step.hyps(1)] by (intro trx_inv_step[of s t]) auto
qed

section \<open>Properties\<close>

lemma at_most_one_if_same_id:
  "distinct (map trxID ts) \<Longrightarrow> \<forall>t \<in> set ts. P t \<longrightarrow> trxID t = a \<Longrightarrow> length (filter P ts) \<le> 1"
proof (induction ts)
  case (Cons t ts)
  have "filter P ts = []" if "P t"
  proof -
    have "trxID u = trxID t" if "u \<in> set ts" "P u" for u
      using that \<open>P t\<close> Cons.prems(2) by simp
    moreover have "trxID t \<notin> trxID ` set ts" using Cons.prems(1) by simp
    ultimately show ?thesis by (metis filter_False imageI)
  qed
  then show ?case using Cons by auto
qed simp

text \<open>
  C12: single writer.  In every interleaving of concurrent callers (shorter than the 63-bit range
  of identifiers below the sentinel) at most one write transaction is open, every open transaction
  has its own identifier, and the manager's bookkeeping is exact: its reader set holds the
  identifiers of the open read transactions and a write transaction counts as active iff
  one is open.
\<close>

theorem single_writer:
  assumes "tm_reach w n s" and "n \<le> 9223372036854775806"
  shows "length (filter isWriteTransaction (openTrx s)) \<le> 1 \<and>
    distinct (map trxID (openTrx s)) \<and>
    set (activeReadOnlyTransactionIDs (mgr s)) = trxID ` {t \<in> set (openTrx s). isReadOnly t} \<and>
    (hasActiveWriteTransactionNoLock (mgr s) \<longleftrightarrow> (\<exists>t \<in> set (openTrx s). isWriteTransaction t))"
proof -
  have inv: "trx_inv (openTrx s) (mgr s)" by (rule tm_reach_trx_inv[OF assms])
  have "\<forall>t \<in> set (openTrx s). trxID t \<noteq> INT64_MAX"
  proof
    fix t assume t: "t \<in> set (openTrx s)"
    have "unat (trxID t) \<le> n"
      using inv t tm_reach_counter[OF assms(1)] by (fastforce simp: trx_inv_def word_le_nat_alt)
    then show "trxID t \<noteq> INT64_MAX" using assms(2) by (auto simp: INT64_MAX_def)
  qed
  then show ?thesis
    using inv at_most_one_if_same_id[of "openTrx s" isWriteTransaction "activeWriteTransactionID (mgr s)"]
    by (auto simp: trx_inv_def hasActiveWriteTransactionNoLock_def)
qed

theorem single_writer_witness:
  "\<exists>(w :: nat WAL) s. newWAL 1 emptyFile = Inr w \<and> tm_reach w 2 s \<and>
     openTrx s = [\<lparr>trxType = WRITE, trxID = 1\<rparr>] \<and> hasActiveWriteTransactionNoLock (mgr s)"
proof -
  obtain w :: "nat WAL" where w: "newWAL 1 emptyFile = Inr w" using newWAL_empty by blast
  let ?s1 = "(init_sys w)\<lparr>pcs := (pcs (init_sys w))(0 := BeginHasStart True), startOwner := Some 0\<rparr>"
  let ?m = "(mgr ?s1)\<lparr>lastTransactionID := 1, activeWriteTransactionID := 1\<rparr>"
  let ?s2 = "?s1\<lparr>pcs := (pcs ?s1)(0 := Idle), startOwner := None, mgr := ?m,
                 openTrx := \<lparr>trxType = WRITE, trxID = 1\<rparr> # openTrx ?s1\<rparr>"
  have "tm_step (init_sys w) ?s1" by (rule tm_step.begin_start) (simp_all add: init_sys_def)
  moreover have "tm_step ?s1 ?s2"
    by (rule tm_step.begin_write)
      (simp_all add: init_sys_def newTransactionManager_def beginWriteTransaction_def
        hasActiveWriteTransactionNoLock_def)
  ultimately have "tm_reach w 2 ?s2"
    by (metis (no_types) tm_reach.start tm_reach.step numeral_2_eq_2)
  then show ?thesis
    using single_writer[of w 2 ?s2] w
    by (intro exI[of _ w] exI[of _ ?s2]) (simp add: init_sys_def isWriteTransaction_def)
qed

text \<open>
  Committing the active write transaction appends exactly one \<open>COMMIT_RECORD\<close> with its
  identifier to the log, makes the log's last record a commit record (the condition under which
  recovery redoes the log) and frees the writer slot; rolling it back leaves the log alone.
  For any other write transaction both throw and change nothing.
\<close>

theorem commit_and_rollback_of_writer:
  assumes "wal_rep (wal m) log" and "0 < wal_room (wal m)" and "isWriteTransaction t"
  shows "if activeWriteTransactionID m = trxID t
         then (\<exists>m1. commit m t = Inr m1 \<and> wal_rep (wal m1) (log @ [COMMIT_RECORD (trxID t)]) \<and>
                  isLastLoggedRecordCommit (wal m1) \<and> \<not> hasActiveWriteTransactionNoLock m1 \<and>
                  lastCommitID m1 = lastCommitID m + 1) \<and>
              (\<exists>m2. rollback m t = Inr m2 \<and> wal m2 = wal m \<and> \<not> hasActiveWriteTransactionNoLock m2)
         else is_error (commit m t) \<and> is_error (rollback m t)"
proof (cases "activeWriteTransactionID m = trxID t")
  case True
  have rep: "wal_rep (logCommit (wal m) (trxID t)) (log @ [COMMIT_RECORD (trxID t)])"
    unfolding logCommit_def by (rule addNewWALRecord_rep(1)[OF assms(1,2)])
  have last: "isLastLoggedRecordCommit (logCommit (wal m) (trxID t))"
    using rep by (auto simp: wal_rep_def wal_parts_def)
  show ?thesis
    using True rep last assms(3)
    by (simp add: commit_def rollback_def commitOrRollback_cases not_write_is_read
        clearActiveWriteTransactionIfWriteTransactionNoLock_def hasActiveWriteTransactionNoLock_def)
next
  case False
  then show ?thesis
    using assms(3) by (simp add: commit_def rollback_def commitOrRollback_cases not_write_is_read)
qed

theorem commit_and_rollback_of_writer_witness:
  "\<exists>(w :: nat WAL) m1. newWAL 1 emptyFile = Inr w \<and>
     commit ((newTransactionManager w)\<lparr>activeWriteTransactionID := 5\<rparr>) \<lparr>trxType = WRITE, trxID = 5\<rparr> = Inr m1 \<and>
     wal_rep (wal m1) [COMMIT_RECORD 5]"
proof -
  obtain w :: "nat WAL" where w: "newWAL 1 emptyFile = Inr w" "wal_rep w []"
      "wal_room w = UINT32_MAX - 1"
    using newWAL_empty by blast
  show ?thesis
    using commit_and_rollback_of_writer[of "(newTransactionManager w)\<lparr>activeWriteTransactionID := 5\<rparr>" "[]"
        "\<lparr>trxType = WRITE, trxID = 5\<rparr>"] w
    by (auto simp: newTransactionManager_def UINT32_MAX_def isWriteTransaction_def)
qed

definition waiting_step :: "nat \<Rightarrow> 'p tm_sys \<Rightarrow> 'p tm_sys \<Rightarrow> bool" where
  "waiting_step i s t \<longleftrightarrow> tm_step s t \<and> (\<exists>k. pcs s i = StopWaiting k)"

lemma waiting_freezes_manager:
  assumes "lock_inv s" and "waiting_step i s t"
  shows "mgr t = mgr s"
proof -
  obtain k where step: "tm_step s t" and k: "pcs s i = StopWaiting k"
    using assms(2) by (auto simp: waiting_step_def)
  have "publicOwner s = Some i" using assms(1) k unfolding lock_inv_def by (metis holds_simps(7))
  with step show ?thesis by cases auto
qed

lemma waiting_freezes_manager_star:
  assumes "(waiting_step i)\<^sup>*\<^sup>* s t" and "lock_inv s"
  shows "mgr t = mgr s \<and> lock_inv t"
  using assms
proof (induction rule: rtranclp_induct)
  case (step t u)
  then have "lock_inv t" and same: "mgr t = mgr s" by auto
  then show ?case
    using waiting_freezes_manager[of t i u] step.hyps lock_inv_step[of t u]
    by (auto simp: waiting_step_def)
qed simp


text \<open>A run to a state in which thread 1 waits for the reader with identifier 1.\<close>

definition run_begin_read :: "'p WAL \<Rightarrow> 'p tm_sys" where
  "run_begin_read w = (init_sys w)
     \<lparr>mgr := snd (beginReadOnlyTransaction (newTransactionManager w)),
      openTrx := [fst (beginReadOnlyTransaction (newTransactionManager w))]\<rparr>"

lemma run_begin_read_reach: "tm_reach w 2 (run_begin_read w)"
proof -
  let ?s1 = "(init_sys w)\<lparr>pcs := (pcs (init_sys w))(0 := BeginHasStart False), startOwner := Some 0\<rparr>"
  have 1: "tm_step (init_sys w) ?s1" by (rule tm_step.begin_start) (simp_all add: init_sys_def)
  have "tm_step ?s1 (?s1\<lparr>pcs := (pcs ?s1)(0 := Idle), startOwner := None,
      mgr := snd (beginReadOnlyTransaction (newTransactionManager w)),
      openTrx := fst (beginReadOnlyTransaction (newTransactionManager w)) # openTrx ?s1\<rparr>)"
    by (rule tm_step.begin_read) (simp_all add: init_sys_def)
  moreover have "?s1\<lparr>pcs := (pcs ?s1)(0 := Idle), startOwner := None,
      mgr := snd (beginReadOnlyTransaction (newTransactionManager w)),
      openTrx := fst (beginReadOnlyTransaction (newTransactionManager w)) # openTrx ?s1\<rparr> = run_begin_read w"
    by (simp add: run_begin_read_def init_sys_def fun_eq_iff)
  ultimately show ?thesis
    using tm_reach.step[OF tm_reach.step[OF tm_reach.start 1]] by (simp add: numeral_2_eq_2)
qed

definition run_stop :: "'p WAL \<Rightarrow> 'p tm_sys" where
  "run_stop w = (run_begin_read w)
     \<lparr>pcs := (\<lambda>_. Idle)(1 := StopWaiting 0), startOwner := Some 1, publicOwner := Some 1\<rparr>"

lemma run_stop_reach: "tm_reach w 4 (run_stop w)"
proof -
  let ?s = "run_begin_read w"
  let ?s1 = "?s\<lparr>pcs := (pcs ?s)(1 := StopHasPublic), publicOwner := Some 1\<rparr>"
  have 1: "tm_step ?s ?s1"
    by (rule tm_step.stop_public) (simp_all add: run_begin_read_def init_sys_def)
  have "tm_step ?s1 (?s1\<lparr>pcs := (pcs ?s1)(1 := StopWaiting 0), startOwner := Some 1\<rparr>)"
    by (rule tm_step.stop_start) (simp_all add: run_begin_read_def init_sys_def)
  moreover have "?s1\<lparr>pcs := (pcs ?s1)(1 := StopWaiting 0), startOwner := Some 1\<rparr> = run_stop w"
    by (simp add: run_stop_def run_begin_read_def init_sys_def)
  ultimately show ?thesis
    using tm_reach.step[OF tm_reach.step[OF run_begin_read_reach 1]] by (simp add: eval_nat_numeral)
qed


definition deadlocked :: "'p tm_sys \<Rightarrow> bool" where
  "deadlocked s \<longleftrightarrow> (\<exists>b. pcs s 0 = BeginHasStart b) \<and> pcs s 1 = StopHasPublic \<and>
     startOwner s = Some 0 \<and> publicOwner s = Some 1"

lemma deadlocked_step:
  assumes inv: "lock_inv s" and dead: "deadlocked s" and step: "tm_step s t"
  shows "deadlocked t \<and> mgr t = mgr s"
proof -
  have only: "holds_start (pcs s i) \<Longrightarrow> i = 0" for i
    using inv dead by (auto simp: lock_inv_def deadlocked_def)
  have none: "pcs s i \<noteq> StopWaiting k" "pcs s i \<noteq> Stopped" for i k
    using only[of i] dead by (auto simp: deadlocked_def)
  from step show ?thesis
    using dead none by cases (auto simp: deadlocked_def)
qed

lemma deadlocked_forever:
  assumes "tm_step\<^sup>*\<^sup>* s t" and "lock_inv s" and "deadlocked s"
  shows "lock_inv t \<and> deadlocked t \<and> mgr t = mgr s"
  using assms by (induction rule: rtranclp_induct) (auto dest: lock_inv_step deadlocked_step)

text \<open>
  the two mutexes are taken in opposite orders.  After two steps from the initial state a thread
  in \<open>beginWriteTransaction\<close> holds the start mutex and a thread in the stop function holds the
  public mutex; from then on neither ever moves again, and the transaction manager never changes.
\<close>

theorem begin_and_stop_deadlock:
  "\<exists>s. tm_reach w 2 s \<and> deadlocked s \<and> (\<forall>t. tm_step\<^sup>*\<^sup>* s t \<longrightarrow> deadlocked t \<and> mgr t = mgr s)"
proof -
  let ?s1 = "(init_sys w)\<lparr>pcs := (pcs (init_sys w))(0 := BeginHasStart True), startOwner := Some 0\<rparr>"
  let ?s2 = "?s1\<lparr>pcs := (pcs ?s1)(1 := StopHasPublic), publicOwner := Some 1\<rparr>"
  have 1: "tm_step (init_sys w) ?s1" by (rule tm_step.begin_start) (simp_all add: init_sys_def)
  have 2: "tm_step ?s1 ?s2" by (rule tm_step.stop_public) (simp_all add: init_sys_def)
  have reach: "tm_reach w 2 ?s2"
    using tm_reach.step[OF tm_reach.step[OF tm_reach.start 1] 2] by (simp add: numeral_2_eq_2)
  have "deadlocked ?s2" by (auto simp: deadlocked_def)
  then show ?thesis
    using reach deadlocked_forever[OF _ tm_reach_lock_inv[OF reach]] by blast
qed

text \<open>The situation is the initial one for a fresh database.\<close>

theorem begin_and_stop_deadlock_witness:
  "\<exists>(w :: nat WAL) s. newWAL 1 emptyFile = Inr w \<and> tm_reach w 2 s \<and> deadlocked s"
proof -
  obtain w :: "nat WAL" where w: "newWAL 1 emptyFile = Inr w" using newWAL_empty by blast
  with begin_and_stop_deadlock[of w] show ?thesis by auto
qed

end
