(* ===== verification/Std_Containers.thy ===== *)
theory Std_Containers
  imports Prelude
begin

text \<open>
  The standard containers the modelled code keeps its state in: \<open>std::set\<close> as a strictly
  ascending list, \<open>std::map\<close> as an association list with strictly ascending keys (so that
  \<open>begin()\<close> is the head of the list and iteration goes left to right), \<open>std::unordered_map\<close>
  as an association list with distinct keys in an arbitrary order.
\<close>

section \<open>Ordered sets\<close>

definition oset_inv :: "'a::linorder list \<Rightarrow> bool" where
  "oset_inv xs \<longleftrightarrow> sorted_wrt (<) xs"

definition oset_insert :: "'a::linorder \<Rightarrow> 'a list \<Rightarrow> 'a list" where
  "oset_insert x xs = insort_insert x xs"

lemma oset_inv_iff: "oset_inv xs \<longleftrightarrow> sorted xs \<and> distinct xs"
  by (auto simp: oset_inv_def strict_sorted_iff)

lemma oset_insert_props [simp]:
  "oset_inv xs \<Longrightarrow> oset_inv (oset_insert x xs)"
  "set (oset_insert x xs) = insert x (set xs)"
  by (auto simp: oset_inv_iff oset_insert_def sorted_insort_insert distinct_insort_insert set_insort_insert)

lemma oset_inv_Nil [simp]: "oset_inv []"
  by (simp add: oset_inv_def)

lemma oset_insert_not_Nil [simp]: "oset_insert x xs \<noteq> []"
  using oset_insert_props(2)[of x xs] by (metis empty_iff insertI1 set_empty)

lemma oset_butlast:
  assumes "oset_inv xs" and "xs \<noteq> []"
  shows "oset_inv (butlast xs)" and "set (butlast xs) = set xs - {last xs}"
    and "\<forall>x \<in> set xs. x \<le> last xs"
proof -
  have eq: "xs = butlast xs @ [last xs]" using assms(2) by simp
  have "sorted_wrt (<) (butlast xs @ [last xs])" using assms eq by (simp add: oset_inv_def)
  then have w: "sorted_wrt (<) (butlast xs)" and lt: "\<forall>y \<in> set (butlast xs). y < last xs"
    by (simp_all add: sorted_wrt_append)
  have s: "set xs = insert (last xs) (set (butlast xs))"
    by (metis Un_insert_right append_Nil2 eq list.simps(15) set_append empty_set)
  show "oset_inv (butlast xs)" using w by (simp add: oset_inv_def)
  show "set (butlast xs) = set xs - {last xs}" using s lt by auto
  show "\<forall>x \<in> set xs. x \<le> last xs" using s lt by auto
qed

lemma oset_unique: "oset_inv xs \<Longrightarrow> oset_inv ys \<Longrightarrow> set xs = set ys \<Longrightarrow> xs = ys"
  by (simp add: oset_inv_iff sorted_distinct_set_unique)

section \<open>Ordered maps\<close>

definition omap_inv :: "('k::linorder \<times> 'v) list \<Rightarrow> bool" where
  "omap_inv m \<longleftrightarrow> sorted_wrt (<) (map fst m)"

fun omap_put :: "'k::linorder \<Rightarrow> 'v \<Rightarrow> ('k \<times> 'v) list \<Rightarrow> ('k \<times> 'v) list" where
  "omap_put k v [] = [(k, v)]"
| "omap_put k v ((k', v') # m) =
     (if k < k' then (k, v) # (k', v') # m
      else if k = k' then (k, v) # m else (k', v') # omap_put k v m)"

definition omap_insert :: "'k::linorder \<Rightarrow> 'v \<Rightarrow> ('k \<times> 'v) list \<Rightarrow> ('k \<times> 'v) list" where
  "omap_insert k v m = (if map_of m k = None then omap_put k v m else m)"

definition omap_erase :: "'k \<Rightarrow> ('k \<times> 'v) list \<Rightarrow> ('k \<times> 'v) list" where
  "omap_erase k m = filter (\<lambda>e. fst e \<noteq> k) m"

lemma omap_put_keys [simp]: "fst ` set (omap_put k v m) = insert k (fst ` set m)"
  by (induction m rule: omap_put.induct) auto

lemma omap_inv_Cons [simp]: "omap_inv (e # m) \<longleftrightarrow> (\<forall>x \<in> set m. fst e < fst x) \<and> omap_inv m"
  by (simp add: omap_inv_def)

lemma omap_inv_Nil [simp]: "omap_inv []"
  by (simp add: omap_inv_def)

lemma omap_inv_distinct: "omap_inv m \<Longrightarrow> distinct (map fst m)"
  by (simp add: omap_inv_def strict_sorted_iff)

lemma map_of_omap_put [simp]: "map_of (omap_put k v m) = (map_of m)(k \<mapsto> v)"
  by (induction m rule: omap_put.induct) auto

lemma omap_inv_put [simp]: "omap_inv m \<Longrightarrow> omap_inv (omap_put k v m)"
proof (induction m)
  case (Cons e m)
  have "fst e < fst x" if "\<not> k < fst e" "k \<noteq> fst e" "x \<in> set (omap_put k v m)" for x
  proof -
    have "fst x \<in> insert k (fst ` set m)" using that(3) omap_put_keys by (metis imageI)
    then show ?thesis using that Cons.prems by auto
  qed
  then show ?case using Cons by (cases e) (auto dest: less_trans)
qed simp

lemma omap_inv_erase [simp]: "omap_inv m \<Longrightarrow> omap_inv (omap_erase k m)"
  by (induction m) (auto simp: omap_erase_def)

lemma map_of_omap_erase [simp]: "map_of (omap_erase k m) = (map_of m)(k := None)"
  by (induction m) (auto simp: omap_erase_def fun_eq_iff)

lemma omap_unique:
  assumes "omap_inv m" and "omap_inv m'" and "map_of m = map_of m'"
  shows "m = m'"
proof -
  have "set m = set m'"
    using assms by (metis map_of_eqI omap_inv_distinct map_of_inject_set)
  then show ?thesis
    using assms by (intro map_sorted_distinct_set_unique[of fst]) 
      (auto simp: omap_inv_def strict_sorted_iff distinct_map intro: inj_on_subset)
qed

end
