(* ===== verification/Node_Statistics.thy ===== *)
theory Node_Statistics
  imports Prelude Interfaces Std_Containers Transaction_Manager
begin

text \<open>
  Node identifiers: which node offsets of a table exist, which are deleted and which one a new
  node gets.  Models \<^verbatim>\<open>src/src/storage/store/nodes_statistics_and_deleted_ids.cpp\<close> with its
  header, the base classes in \<^verbatim>\<open>table_statistics.cpp\<close> and \<^verbatim>\<open>table_statistics.h\<close>, and
  the parts of \<^verbatim>\<open>src/src/common/include/ser_deser.h\<close> they use.  Offsets are 64-bit words, since the
  value \<open>UINT64_MAX\<close> for "no node" and its wrap-around are part of the behaviour.
\<close>

section \<open>One table\<close>

text \<open>
  \<open>adjLists\<close> gives, per adjacency lists structure of the table, the \<open>numValuesInList\<close> of a node;
  \<open>adjColumns\<close>, per adjacency column, whether the node's entry is null.
\<close>

record NodeStatisticsAndDeletedIDs =
  numTuples :: u64
  tableID :: table_id
  adjLists :: "(node_offset \<Rightarrow> u64) list"
  adjColumns :: "(node_offset \<Rightarrow> bool) list"
  hasDeletedNodesPerMorsel :: "bool list"
  deletedNodeOffsetsPerMorsel :: "(u64 \<times> u64 list) list"

definition morselOf :: "node_offset \<Rightarrow> u64" where
  "morselOf x = x div 2048"

definition getMaxNodeOffsetFromNumTuples :: "u64 \<Rightarrow> node_offset" where
  "getMaxNodeOffsetFromNumTuples n = (if n = UINT64_MAX then UINT64_MAX else n - 1)"

definition getMaxNodeOffset :: "NodeStatisticsAndDeletedIDs \<Rightarrow> node_offset" where
  "getMaxNodeOffset n = getMaxNodeOffsetFromNumTuples (numTuples n)"

definition setMaxNodeOffset ::
  "node_offset \<Rightarrow> NodeStatisticsAndDeletedIDs \<Rightarrow> NodeStatisticsAndDeletedIDs" where
  "setMaxNodeOffset mx n =
     (let n1 = n\<lparr>numTuples := if mx = UINT64_MAX then UINT64_MAX else mx + 1\<rparr>
      in if mx \<noteq> UINT64_MAX
         then n1\<lparr>hasDeletedNodesPerMorsel :=
                   vec_resize (unat (morselOf mx) + 1) False (hasDeletedNodesPerMorsel n)\<rparr>
         else n1)"

text \<open>One iteration of the constructor's loop over the deleted offsets.\<close>

definition registerDeleted ::
  "node_offset \<Rightarrow> NodeStatisticsAndDeletedIDs \<Rightarrow> NodeStatisticsAndDeletedIDs result" where
  "registerDeleted x n =
     (let k = morselOf x
      in if unat k \<ge> length (hasDeletedNodesPerMorsel n)
         then Inl (UndefinedBehaviour ''hasDeletedNodesPerMorsel index'')
         else let m = omap_insert k [] (deletedNodeOffsetsPerMorsel n)
              in Inr (n\<lparr>hasDeletedNodesPerMorsel := (hasDeletedNodesPerMorsel n)[unat k := True],
                        deletedNodeOffsetsPerMorsel := omap_put k (oset_insert x (the (map_of m k))) m\<rparr>))"

fun registerAllDeleted ::
  "node_offset list \<Rightarrow> NodeStatisticsAndDeletedIDs \<Rightarrow> NodeStatisticsAndDeletedIDs result" where
  "registerAllDeleted [] n = Inr n"
| "registerAllDeleted (x # xs) n = bind_result (registerDeleted x n) (registerAllDeleted xs)"

definition newNodeStatistics ::
  "table_id \<Rightarrow> node_offset \<Rightarrow> node_offset list \<Rightarrow> NodeStatisticsAndDeletedIDs result" where
  "newNodeStatistics t mx dels =
     registerAllDeleted dels (setMaxNodeOffset mx
       \<lparr>numTuples = 0, tableID = t, adjLists = [], adjColumns = [],
        hasDeletedNodesPerMorsel = [], deletedNodeOffsetsPerMorsel = []\<rparr>)"

text \<open>
  \<open>addNode\<close> erases the map entry of a morsel whose last deleted offset it reuses and then reads the
  key through the erased iterator; what that read gives is the parameter \<open>stale\<close> (of the key that
  was there).
\<close>

definition addNode ::
  "(u64 \<Rightarrow> u64) \<Rightarrow> NodeStatisticsAndDeletedIDs \<Rightarrow> (node_offset \<times> NodeStatisticsAndDeletedIDs) result" where
  "addNode stale n =
     (case deletedNodeOffsetsPerMorsel n of
        [] \<Rightarrow> let n1 = n\<lparr>numTuples := numTuples n + 1\<rparr> in Inr (getMaxNodeOffset n1, n1)
      | (k, xs) # m \<Rightarrow>
          if xs = [] then Inl (UndefinedBehaviour ''decrement of begin'')
          else let retVal = last xs; xs1 = butlast xs
               in if xs1 = []
                  then if unat (stale k) < length (hasDeletedNodesPerMorsel n)
                       then Inr (retVal, n\<lparr>deletedNodeOffsetsPerMorsel := m,
                              hasDeletedNodesPerMorsel :=
                                (hasDeletedNodesPerMorsel n)[unat (stale k) := False]\<rparr>)
                       else Inl (UndefinedBehaviour ''hasDeletedNodesPerMorsel index'')
                  else Inr (retVal, n\<lparr>deletedNodeOffsetsPerMorsel := (k, xs1) # m\<rparr>))"

definition isDeleted :: "NodeStatisticsAndDeletedIDs \<Rightarrow> node_offset \<Rightarrow> u64 \<Rightarrow> bool" where
  "isDeleted n x k = (case map_of (deletedNodeOffsetsPerMorsel n) k of
                        None \<Rightarrow> False | Some xs \<Rightarrow> x \<in> set xs)"

text \<open>\<open>ListInfo::isEmpty\<close> of \<^verbatim>\<open>src/src/storage/storage_structure/include/lists/lists.h\<close>.\<close>

definition listInfoIsEmpty :: "u64 \<Rightarrow> bool" where
  "listInfoIsEmpty numValuesInList \<longleftrightarrow> numValuesInList = UINT64_MAX"

definition errorIfNodeHasEdges :: "NodeStatisticsAndDeletedIDs \<Rightarrow> node_offset \<Rightarrow> unit result" where
  "errorIfNodeHasEdges n x =
     (if \<exists>l \<in> set (adjLists n). \<not> listInfoIsEmpty (l x)
      then Inl (RuntimeException ''Currently deleting a node with edges is not supported.'')
      else if \<exists>c \<in> set (adjColumns n). \<not> c x
      then Inl (RuntimeException ''Currently deleting a node with edges is not supported.'')
      else Inr ())"

definition deleteNode ::
  "node_offset \<Rightarrow> NodeStatisticsAndDeletedIDs \<Rightarrow> NodeStatisticsAndDeletedIDs result" where
  "deleteNode x n =
     (let mx = getMaxNodeOffset n; k = morselOf x
      in if mx = UINT64_MAX \<or> x > mx
         then Inl (RuntimeException ''Cannot delete nodeOffset'')
         else if isDeleted n x k
         then Inl (RuntimeException ''Node is already deleted.'')
         else bind_result (errorIfNodeHasEdges n x) (\<lambda>_.
           if unat k \<ge> length (hasDeletedNodesPerMorsel n)
           then Inl (UndefinedBehaviour ''hasDeletedNodesPerMorsel index'')
           else let m = (if hasDeletedNodesPerMorsel n ! unat k then deletedNodeOffsetsPerMorsel n
                         else omap_insert k [] (deletedNodeOffsetsPerMorsel n))
                in case map_of m k of
                     None \<Rightarrow> Inl (UndefinedBehaviour ''dereferenced end iterator'')
                   | Some xs \<Rightarrow>
                       Inr (n\<lparr>deletedNodeOffsetsPerMorsel := omap_put k (oset_insert x xs) m,
                              hasDeletedNodesPerMorsel := (hasDeletedNodesPerMorsel n)[unat k := True]\<rparr>)))"

definition getDeletedNodeOffsets :: "NodeStatisticsAndDeletedIDs \<Rightarrow> node_offset list" where
  "getDeletedNodeOffsets n = concat (map snd (deletedNodeOffsetsPerMorsel n))"

text \<open>
  The selection loop: \<open>itr\<close> is the part of the set from the iterator on, \<open>nextDel\<close> the 16-bit
  position of the next deleted node.
\<close>

fun selectLoop :: "u64 \<Rightarrow> nat list \<Rightarrow> u64 list \<Rightarrow> u16 \<Rightarrow> nat list" where
  "selectLoop morselBegin [] itr nextDel = []"
| "selectLoop morselBegin (p # ps) itr nextDel =
     (if of_nat p = nextDel
      then if tl itr = [] then selectLoop morselBegin ps [] 65535
           else selectLoop morselBegin ps (tl itr) (ucast (hd (tl itr) - morselBegin))
      else p # selectLoop morselBegin ps itr nextDel)"

text \<open>
  The arguments stand for the value vector: the offset of its first node and its original size (at most
  \<open>DEFAULT_VECTOR_CAPACITY\<close>).  The result is the new selection vector and its size, None
  when the selection is left alone.
\<close>

definition setDeletedNodeOffsetsForMorsel ::
  "node_offset \<Rightarrow> nat \<Rightarrow> NodeStatisticsAndDeletedIDs \<Rightarrow> (nat list \<times> u64) option result" where
  "setDeletedNodeOffsetsForMorsel firstOffset originalSize n =
     (let k = morselOf firstOffset
      in if unat k \<ge> length (hasDeletedNodesPerMorsel n)
         then Inl (UndefinedBehaviour ''hasDeletedNodesPerMorsel index'')
         else if hasDeletedNodesPerMorsel n ! unat k
         then case map_of (deletedNodeOffsetsPerMorsel n) k of
                None \<Rightarrow> Inl (UndefinedBehaviour ''dereferenced end iterator'')
              | Some [] \<Rightarrow> Inl (UndefinedBehaviour ''dereferenced end iterator'')
              | Some (d # ds) \<Rightarrow>
                  Inr (Some (selectLoop (k * 2048) [0..<originalSize] (d # ds) (ucast (d - k * 2048)),
                             of_nat originalSize - of_nat (length (d # ds))))
         else Inr None)"

section \<open>Well-formedness and the abstract set of nodes\<close>

definition deletedSet :: "NodeStatisticsAndDeletedIDs \<Rightarrow> node_offset set" where
  "deletedSet n = set (getDeletedNodeOffsets n)"

definition entry_inv :: "u64 \<Rightarrow> u64 \<Rightarrow> u64 list \<Rightarrow> bool" where
  "entry_inv num k xs \<longleftrightarrow> xs \<noteq> [] \<and> oset_inv xs \<and> (\<forall>x \<in> set xs. morselOf x = k \<and> x < num)"

definition ns_inv :: "NodeStatisticsAndDeletedIDs \<Rightarrow> bool" where
  "ns_inv n \<longleftrightarrow>
     omap_inv (deletedNodeOffsetsPerMorsel n) \<and>
     (\<forall>k xs. map_of (deletedNodeOffsetsPerMorsel n) k = Some xs \<longrightarrow>
        entry_inv (numTuples n) k xs \<and> unat k < length (hasDeletedNodesPerMorsel n)) \<and>
     (\<forall>k. unat k < length (hasDeletedNodesPerMorsel n) \<longrightarrow>
        hasDeletedNodesPerMorsel n ! unat k = (map_of (deletedNodeOffsetsPerMorsel n) k \<noteq> None)) \<and>
     (numTuples n = UINT64_MAX \<longrightarrow> deletedNodeOffsetsPerMorsel n = []) \<and> numTuples n \<noteq> 0"

text \<open>The nodes that exist: below the number of tuples and not deleted.\<close>

definition liveNodes :: "NodeStatisticsAndDeletedIDs \<Rightarrow> node_offset set" where
  "liveNodes n = (if numTuples n = UINT64_MAX then {} else {x. x < numTuples n} - deletedSet n)"

lemma map_of_omap_insert [simp]:
  "map_of (omap_insert k v m) = (if map_of m k = None then (map_of m)(k \<mapsto> v) else map_of m)"
  by (simp add: omap_insert_def)

lemma omap_inv_insert [simp]: "omap_inv m \<Longrightarrow> omap_inv (omap_insert k v m)"
  by (simp add: omap_insert_def)

lemma deletedSet_iff:
  assumes "ns_inv n"
  shows "x \<in> deletedSet n \<longleftrightarrow> (\<exists>xs. map_of (deletedNodeOffsetsPerMorsel n) (morselOf x) = Some xs \<and> x \<in> set xs)"
proof -
  let ?D = "deletedNodeOffsetsPerMorsel n"
  have d: "distinct (map fst ?D)" using assms by (simp add: ns_inv_def omap_inv_distinct)
  have "x \<in> deletedSet n \<longleftrightarrow> (\<exists>k xs. map_of ?D k = Some xs \<and> x \<in> set xs)"
    using d by (force simp: deletedSet_def getDeletedNodeOffsets_def)
  also have "\<dots> \<longleftrightarrow> (\<exists>xs. map_of ?D (morselOf x) = Some xs \<and> x \<in> set xs)"
    using assms by (auto simp: ns_inv_def entry_inv_def)
  finally show ?thesis .
qed

lemma isDeleted_iff: "ns_inv n \<Longrightarrow> isDeleted n x (morselOf x) \<longleftrightarrow> x \<in> deletedSet n"
  by (auto simp: deletedSet_iff isDeleted_def split: option.splits)

lemma deletedSet_bound: "ns_inv n \<Longrightarrow> x \<in> deletedSet n \<Longrightarrow> x < numTuples n \<and> numTuples n \<noteq> UINT64_MAX"
  by (auto simp: deletedSet_iff ns_inv_def entry_inv_def)

lemma unat_eq_iff_u64 [simp]: "unat (a :: u64) = unat b \<longleftrightarrow> a = b"
  by (simp add: word_unat_eq_iff)

lemma unat_UINT64_MAX: "unat UINT64_MAX = 18446744073709551615"
  by (simp add: UINT64_MAX_def unsigned_minus_1_eq_mask mask_eq_exp_minus_1)

lemma u64_next:
  assumes "(x :: u64) \<noteq> UINT64_MAX"
  shows "unat (x + 1) = Suc (unat x)" and "x < x + 1" and "x + 1 \<noteq> 0"
proof -
  show ne: "x + 1 \<noteq> 0" using assms by (auto simp: UINT64_MAX_def add_eq_0_iff2)
  then show "unat (x + 1) = Suc (unat x)" by (metis add.commute unatSuc)
  then show "x < x + 1" by (simp add: word_less_nat_alt)
qed

lemma u64_prev:
  assumes "(x :: u64) \<noteq> 0"
  shows "y < x \<longleftrightarrow> y \<le> x - 1" and "x - 1 \<noteq> UINT64_MAX"
proof -
  have "unat (x - 1) = unat x - 1" and "0 < unat x"
    using assms by (simp_all add: unat_minus_one unat_gt_0)
  then show "y < x \<longleftrightarrow> y \<le> x - 1" by (auto simp: word_less_nat_alt word_le_nat_alt)
  show "x - 1 \<noteq> UINT64_MAX" using assms by (auto simp: UINT64_MAX_def)
qed

lemma addNode_fresh:
  assumes "ns_inv n" and "deletedNodeOffsetsPerMorsel n = []"
    and "numTuples n \<noteq> UINT64_MAX" and "numTuples n + 1 \<noteq> UINT64_MAX"
  shows "\<exists>n'. addNode stale n = Inr (numTuples n, n') \<and> ns_inv n' \<and> deletedSet n' = {} \<and>
           numTuples n' = numTuples n + 1"
proof -
  have "numTuples n + 1 \<noteq> 0" by (rule u64_next(3)[OF assms(3)])
  then show ?thesis
    using assms by (simp add: addNode_def getMaxNodeOffset_def getMaxNodeOffsetFromNumTuples_def ns_inv_def
        deletedSet_def getDeletedNodeOffsets_def)
qed

lemma addNode_reuse:
  assumes inv: "ns_inv n" and ne: "deletedNodeOffsetsPerMorsel n \<noteq> []" and stale: "\<forall>k. stale k = k"
  shows "\<exists>x n'. addNode stale n = Inr (x, n') \<and> ns_inv n' \<and> x \<in> deletedSet n \<and>
           deletedSet n' = deletedSet n - {x} \<and> numTuples n' = numTuples n"
proof -
  obtain k xs m where D: "deletedNodeOffsetsPerMorsel n = (k, xs) # m"
    using ne by (cases "deletedNodeOffsetsPerMorsel n") auto
  have k: "map_of (deletedNodeOffsetsPerMorsel n) k = Some xs" by (simp add: D)
  then have e: "entry_inv (numTuples n) k xs" and kr: "unat k < length (hasDeletedNodesPerMorsel n)"
    using inv by (auto simp: ns_inv_def)
  have mk: "map_of m k = None" and om: "omap_inv m"
    using inv D by (auto simp: ns_inv_def map_of_eq_None_iff)
  have xs: "xs \<noteq> []" "oset_inv xs" using e by (auto simp: entry_inv_def)
  note bl = oset_butlast[OF xs(2,1)]
  let ?H = "hasDeletedNodesPerMorsel n"
  let ?n' = "if butlast xs = [] then n\<lparr>deletedNodeOffsetsPerMorsel := m,
                hasDeletedNodesPerMorsel := ?H[unat k := False]\<rparr>
             else n\<lparr>deletedNodeOffsetsPerMorsel := (k, butlast xs) # m\<rparr>"
  have step: "addNode stale n = Inr (last xs, ?n')"
    using D xs kr stale by (simp add: addNode_def Let_def)
  have lastin: "last xs \<in> set xs" using xs(1) by simp
  have "morselOf (last xs) = k" using e lastin by (simp add: entry_inv_def)
  then have del: "last xs \<in> deletedSet n" using deletedSet_iff[OF inv] k lastin by auto
  have map': "map_of (deletedNodeOffsetsPerMorsel ?n') =
      (map_of (deletedNodeOffsetsPerMorsel n))(k := (if butlast xs = [] then None else Some (butlast xs)))"
    using mk by (auto simp: D fun_eq_iff)
  have e': "entry_inv (numTuples n) k (butlast xs)" if "butlast xs \<noteq> []"
    using e bl that by (auto simp: entry_inv_def)
  have om': "omap_inv (deletedNodeOffsetsPerMorsel ?n')" using inv D by (auto simp: ns_inv_def)
  have inv': "ns_inv ?n'"
    using inv om' e' kr k ne
    by (auto simp: ns_inv_def map' nth_list_update split: if_splits)
  have "deletedSet ?n' = deletedSet n - {last xs}"
  proof -
    have "y \<in> deletedSet ?n' \<longleftrightarrow> y \<in> deletedSet n \<and> y \<noteq> last xs" for y
    proof (cases "morselOf y = k")
      case True
      have "y \<in> deletedSet ?n' \<longleftrightarrow> y \<in> set (butlast xs)"
        unfolding deletedSet_iff[OF inv'] map' using True by simp
      moreover have "y \<in> deletedSet n \<longleftrightarrow> y \<in> set xs"
        unfolding deletedSet_iff[OF inv] using True k by simp
      ultimately show ?thesis using bl(2) by auto
    next
      case False
      then show ?thesis
        unfolding deletedSet_iff[OF inv'] deletedSet_iff[OF inv] map'
        using \<open>morselOf (last xs) = k\<close> by auto
    qed
    then show ?thesis by blast
  qed
  then show ?thesis using step inv' del by (intro exI[of _ "last xs"] exI[of _ ?n']) simp
qed

lemma registerDeleted_ok:
  assumes inv: "ns_inv n" and num: "x < numTuples n" "numTuples n \<noteq> UINT64_MAX"
    and range: "unat (morselOf x) < length (hasDeletedNodesPerMorsel n)"
  shows "\<exists>n'. registerDeleted x n = Inr n' \<and> ns_inv n' \<and> deletedSet n' = insert x (deletedSet n) \<and>
           numTuples n' = numTuples n \<and>
           length (hasDeletedNodesPerMorsel n') = length (hasDeletedNodesPerMorsel n)"
proof -
  let ?D = "deletedNodeOffsetsPerMorsel n" and ?H = "hasDeletedNodesPerMorsel n" and ?k = "morselOf x"
  let ?xs = "case map_of ?D ?k of None \<Rightarrow> [] | Some xs \<Rightarrow> xs"
  let ?m = "omap_insert ?k [] ?D"
  let ?n' = "n\<lparr>hasDeletedNodesPerMorsel := ?H[unat ?k := True],
               deletedNodeOffsetsPerMorsel := omap_put ?k (oset_insert x ?xs) ?m\<rparr>"
  have step: "registerDeleted x n = Inr ?n'"
    using range by (cases "map_of ?D ?k") (simp_all add: registerDeleted_def Let_def)
  have map': "map_of (omap_put ?k (oset_insert x ?xs) ?m) = (map_of ?D)(?k \<mapsto> oset_insert x ?xs)"
    by (auto simp: fun_eq_iff)
  have e': "entry_inv (numTuples n) ?k (oset_insert x ?xs)"
  proof (cases "map_of ?D ?k")
    case None
    then show ?thesis using num by (simp add: entry_inv_def)
  next
    case (Some xs)
    then have "entry_inv (numTuples n) ?k xs" using inv by (simp add: ns_inv_def)
    then show ?thesis using Some num by (simp add: entry_inv_def)
  qed
  have om': "omap_inv (omap_put ?k (oset_insert x ?xs) ?m)" using inv by (simp add: ns_inv_def)
  have inv': "ns_inv ?n'"
    using inv om' e' range num by (auto simp: ns_inv_def map' nth_list_update)
  have "y \<in> deletedSet ?n' \<longleftrightarrow> y = x \<or> y \<in> deletedSet n" for y
    unfolding deletedSet_iff[OF inv'] deletedSet_iff[OF inv]
    by (cases "map_of ?D ?k"; cases "morselOf y = ?k") (auto simp: map')
  then have "deletedSet ?n' = insert x (deletedSet n)" by blast
  then show ?thesis using step inv' by (intro exI[of _ ?n']) simp
qed

lemma deleteNode_is_registerDeleted:
  assumes inv: "ns_inv n" and live: "x \<in> liveNodes n" and edges: "errorIfNodeHasEdges n x = Inr ()"
  shows "deleteNode x n = registerDeleted x n"
proof -
  let ?D = "deletedNodeOffsetsPerMorsel n" and ?H = "hasDeletedNodesPerMorsel n" and ?k = "morselOf x"
  have num: "numTuples n \<noteq> UINT64_MAX" "x < numTuples n" "x \<notin> deletedSet n"
    using live by (auto simp: liveNodes_def split: if_splits)
  have mx: "getMaxNodeOffset n = numTuples n - 1" "x \<le> numTuples n - 1" "numTuples n - 1 \<noteq> UINT64_MAX"
    using num inv u64_prev(1)[of "numTuples n" x] u64_prev(2)[of "numTuples n"]
    by (auto simp: getMaxNodeOffset_def getMaxNodeOffsetFromNumTuples_def ns_inv_def)
  have "?H ! unat ?k = (map_of ?D ?k \<noteq> None)" if "unat ?k < length ?H" using inv that by (simp add: ns_inv_def)
  then show ?thesis
    using mx num edges isDeleted_iff[OF inv, of x]
    by (cases "map_of ?D ?k")
      (auto simp: deleteNode_def registerDeleted_def Let_def omap_insert_def)
qed

lemma deleteNode_ok:
  assumes inv: "ns_inv n" and live: "x \<in> liveNodes n" and edges: "errorIfNodeHasEdges n x = Inr ()"
    and range: "unat (morselOf x) < length (hasDeletedNodesPerMorsel n)"
  shows "\<exists>n'. deleteNode x n = Inr n' \<and> ns_inv n' \<and> deletedSet n' = insert x (deletedSet n) \<and>
           numTuples n' = numTuples n"
proof -
  have "x < numTuples n" "numTuples n \<noteq> UINT64_MAX" using live by (auto simp: liveNodes_def split: if_splits)
  from registerDeleted_ok[OF inv this range] show ?thesis
    unfolding deleteNode_is_registerDeleted[OF inv live edges] by blast
qed

lemma registerAllDeleted_ok:
  assumes "ns_inv n" and "numTuples n \<noteq> UINT64_MAX"
    and "\<forall>x \<in> set xs. x < numTuples n \<and> unat (morselOf x) < length (hasDeletedNodesPerMorsel n)"
  shows "\<exists>n'. registerAllDeleted xs n = Inr n' \<and> ns_inv n' \<and> deletedSet n' = set xs \<union> deletedSet n \<and>
           numTuples n' = numTuples n"
  using assms
proof (induction xs arbitrary: n)
  case (Cons x xs)
  obtain n1 where n1: "registerDeleted x n = Inr n1" "ns_inv n1" "deletedSet n1 = insert x (deletedSet n)"
      "numTuples n1 = numTuples n"
      "length (hasDeletedNodesPerMorsel n1) = length (hasDeletedNodesPerMorsel n)"
    using registerDeleted_ok[of n x] Cons.prems by auto
  then obtain n' where "registerAllDeleted xs n1 = Inr n' \<and> ns_inv n' \<and>
      deletedSet n' = set xs \<union> deletedSet n1 \<and> numTuples n' = numTuples n1"
    using Cons.IH[of n1] Cons.prems by auto
  then show ?case using n1 by auto
qed simp

text \<open>A well-formed bookkeeping is determined by the set of deleted offsets.\<close>

lemma map_eqI_Some: "(\<And>k v. f k = Some v \<longleftrightarrow> g k = Some v) \<Longrightarrow> f = g"
  by (rule ext) (metis not_None_eq)

lemma entry_of_morsel:
  assumes "ns_inv n"
  shows "map_of (deletedNodeOffsetsPerMorsel n) k = Some xs \<longleftrightarrow>
           xs \<noteq> [] \<and> oset_inv xs \<and> set xs = {x \<in> deletedSet n. morselOf x = k}" (is "?L \<longleftrightarrow> ?R")
proof -
  have fwd: "ys \<noteq> [] \<and> oset_inv ys \<and> set ys = {x \<in> deletedSet n. morselOf x = k}"
    if ys: "map_of (deletedNodeOffsetsPerMorsel n) k = Some ys" for ys
  proof -
    have e: "entry_inv (numTuples n) k ys" using assms ys by (simp add: ns_inv_def)
    have "x \<in> set ys \<longleftrightarrow> x \<in> deletedSet n \<and> morselOf x = k" for x
      using e ys by (cases "morselOf x = k") (auto simp: deletedSet_iff[OF assms] entry_inv_def)
    then show ?thesis using e by (auto simp: entry_inv_def)
  qed
  show ?thesis
  proof
    assume R: ?R
    then obtain x where x: "x \<in> deletedSet n" "morselOf x = k"
      by (metis (mono_tags, lifting) list.set_intros(1) mem_Collect_eq neq_Nil_conv)
    then obtain ys where ys: "map_of (deletedNodeOffsetsPerMorsel n) k = Some ys"
      using deletedSet_iff[OF assms, of x] by auto
    with R fwd[OF ys] show ?L using oset_unique[of xs ys] by simp
  qed (rule fwd)
qed

lemma deletedMap_unique:
  assumes "ns_inv a" and "ns_inv b" and "deletedSet a = deletedSet b"
  shows "deletedNodeOffsetsPerMorsel a = deletedNodeOffsetsPerMorsel b"
proof (rule omap_unique)
  show "omap_inv (deletedNodeOffsetsPerMorsel a)" "omap_inv (deletedNodeOffsetsPerMorsel b)"
    using assms by (simp_all add: ns_inv_def)
  have "map_of (deletedNodeOffsetsPerMorsel a) k = Some xs \<longleftrightarrow>
        map_of (deletedNodeOffsetsPerMorsel b) k = Some xs" for k xs
    using entry_of_morsel[OF assms(1)] entry_of_morsel[OF assms(2)] assms(3) by simp
  then show "map_of (deletedNodeOffsetsPerMorsel a) = map_of (deletedNodeOffsetsPerMorsel b)"
    by (rule map_eqI_Some)
qed

section \<open>Scanning a morsel\<close>

definition nextDelOf :: "u64 \<Rightarrow> u64 list \<Rightarrow> u16" where
  "nextDelOf morselBegin itr = (if itr = [] then 65535 else ucast (hd itr - morselBegin))"

lemma u16_pos_eq:
  assumes "p < 2048" and "unat (w :: u64) < 2048"
  shows "(of_nat p = (ucast w :: u16)) \<longleftrightarrow> p = unat w"
proof -
  have "unat (of_nat p :: u16) = p" using assms(1) by (simp add: unat_of_nat)
  moreover have "unat (ucast w :: u16) = unat w"
    using assms(2) by (simp add: unsigned_ucast_eq take_bit_eq_mod)
  ultimately show ?thesis by (metis word_unat_eq_iff)
qed

lemma u16_pos_not_sentinel: "p < 2048 \<Longrightarrow> (of_nat p :: u16) \<noteq> 65535"
proof
  assume "p < 2048" and "(of_nat p :: u16) = 65535"
  then have "unat (of_nat p :: u16) = 65535" by simp
  then show False using \<open>p < 2048\<close> by (simp add: unat_of_nat)
qed

lemma selectLoop_filter:
  assumes "sorted_wrt (<) (map (\<lambda>d. unat (d - morselBegin)) itr)"
    and "\<forall>d \<in> set itr. a \<le> unat (d - morselBegin) \<and> unat (d - morselBegin) < b" and "b \<le> 2048"
  shows "selectLoop morselBegin [a..<b] itr (nextDelOf morselBegin itr) =
           filter (\<lambda>p. p \<notin> (\<lambda>d. unat (d - morselBegin)) ` set itr) [a..<b]"
  using assms
proof (induction "b - a" arbitrary: a itr)
  case (Suc m)
  then have ab: "a < b" "b - Suc a = m" by auto
  then have upt: "[a..<b] = a # [Suc a..<b]" by (simp add: upt_conv_Cons)
  show ?case
  proof (cases itr)
    case Nil
    have "selectLoop morselBegin [Suc a..<b] [] (nextDelOf morselBegin []) = [Suc a..<b]"
      using Suc.hyps(1)[of "Suc a" "[]"] ab Suc.prems by simp
    then show ?thesis
      using Nil upt u16_pos_not_sentinel[of a] ab Suc.prems by (simp add: nextDelOf_def)
  next
    case (Cons d ds)
    let ?q = "\<lambda>d. unat (d - morselBegin)"
    have d: "?q d < 2048" "a \<le> ?q d" and ds: "\<forall>e \<in> set ds. ?q d < ?q e" "sorted_wrt (<) (map ?q ds)"
      using Suc.prems Cons by auto
    have eq: "(of_nat a = nextDelOf morselBegin itr) \<longleftrightarrow> a = ?q d"
      using u16_pos_eq[of a "d - morselBegin"] ab Suc.prems d Cons by (simp add: nextDelOf_def)
    show ?thesis
    proof (cases "a = ?q d")
      case True
      have "selectLoop morselBegin [Suc a..<b] ds (nextDelOf morselBegin ds) =
              filter (\<lambda>p. p \<notin> ?q ` set ds) [Suc a..<b]"
        by (rule Suc.hyps(1)) (use ab ds True Suc.prems Cons in \<open>auto simp: Suc_le_eq\<close>)
      also have "\<dots> = filter (\<lambda>p. p \<notin> ?q ` set itr) [Suc a..<b]"
        using True Cons by (auto intro!: filter_cong)
      finally show ?thesis using eq True upt Cons by (auto simp: nextDelOf_def)
    next
      case False
      have "selectLoop morselBegin [Suc a..<b] itr (nextDelOf morselBegin itr) =
              filter (\<lambda>p. p \<notin> ?q ` set itr) [Suc a..<b]"
        by (rule Suc.hyps(1)) (use ab d ds False Suc.prems Cons in \<open>auto simp: Suc_le_eq order.not_eq_order_implies_strict intro: le_less_trans\<close>)
      moreover have "a \<notin> ?q ` set itr" using False d ds Cons by auto
      ultimately show ?thesis using eq False upt by simp
    qed
  qed
qed simp

lemma unat_morselOf: "unat (morselOf x) = unat x div 2048"
  by (simp add: morselOf_def unat_div_distrib)

lemma unat_morsel_begin: "unat (morselOf x * 2048) = unat x div 2048 * 2048"
proof -
  have "unat x < 2 ^ LENGTH(64)" by (rule unsigned_less)
  then have "unat (morselOf x) * 2048 < 2 ^ 64" by (simp add: unat_morselOf)
  then show ?thesis by (simp add: unat_word_ariths unat_morselOf)
qed

lemma morsel_pos:
  assumes "morselOf x = k"
  shows "unat (x - k * 2048) < 2048" and "unat x = unat (k * 2048) + unat (x - k * 2048)"
proof -
  have m: "x - k * 2048 = x mod 2048"
    using assms div_mult_mod_eq[of x 2048] by (simp add: morselOf_def algebra_simps)
  show "unat (x - k * 2048) < 2048" by (simp add: m unat_mod_distrib)
  show "unat x = unat (k * 2048) + unat (x - k * 2048)"
    using assms unat_morsel_begin[of x] by (simp add: m unat_mod_distrib)
qed

lemma morsel_add:
  assumes "p < 2048"
  shows "unat (morselOf x * 2048 + of_nat p) = unat x div 2048 * 2048 + p"
    and "morselOf (morselOf x * 2048 + of_nat p) = morselOf x"
proof -
  have x: "unat x < 2 ^ LENGTH(64)" by (rule unsigned_less)
  have le: "unat x div 2048 \<le> 9007199254740991" using x by simp
  have p: "unat (of_nat p :: u64) = p" using assms by (simp add: unat_of_nat)
  have lt: "unat x div 2048 * 2048 + p < 2 ^ 64" using le assms by simp
  show u: "unat (morselOf x * 2048 + of_nat p) = unat x div 2048 * 2048 + p"
    using lt by (simp add: unat_word_ariths(1) unat_morsel_begin p)
  have "unat (morselOf (morselOf x * 2048 + of_nat p)) = unat (morselOf x)"
    unfolding unat_morselOf u using assms by simp
  then show "morselOf (morselOf x * 2048 + of_nat p) = morselOf x" by simp
qed

lemma deleted_position:
  assumes inv: "ns_inv n" and k: "map_of (deletedNodeOffsetsPerMorsel n) (morselOf x) = Some xs"
    and p: "p < 2048"
  shows "morselOf x * 2048 + of_nat p \<in> deletedSet n \<longleftrightarrow> p \<in> (\<lambda>d. unat (d - morselOf x * 2048)) ` set xs"
proof -
  let ?b = "morselOf x * 2048"
  have e: "entry_inv (numTuples n) (morselOf x) xs" using inv k by (simp add: ns_inv_def)
  have "?b + of_nat p \<in> deletedSet n \<longleftrightarrow> ?b + of_nat p \<in> set xs"
    using deletedSet_iff[OF inv] morsel_add(2)[OF p, of x] k by simp
  also have "\<dots> \<longleftrightarrow> p \<in> (\<lambda>d. unat (d - ?b)) ` set xs"
  proof
    assume "?b + of_nat p \<in> set xs"
    moreover have "p = unat (?b + of_nat p - ?b)"
      using p by (simp only: add_diff_cancel_left' unat_of_nat) simp
    ultimately show "p \<in> (\<lambda>d. unat (d - ?b)) ` set xs" by (rule rev_image_eqI)
  next
    assume "p \<in> (\<lambda>d. unat (d - ?b)) ` set xs"
    then obtain d where d: "d \<in> set xs" "p = unat (d - ?b)" by auto
    then have "?b + of_nat p = d" by simp
    then show "?b + of_nat p \<in> set xs" using d by simp
  qed
  finally show ?thesis .
qed

lemma morsel_entry_positions:
  assumes inv: "ns_inv n" and k: "map_of (deletedNodeOffsetsPerMorsel n) (morselOf x) = Some xs"
    and x: "x mod 2048 = 0"
  defines "q \<equiv> \<lambda>d. unat (d - morselOf x * 2048)"
  shows "sorted_wrt (<) (map q xs)" and "\<forall>d \<in> set xs. q d < min 2048 (unat (numTuples n) - unat x)"
    and "morselOf x * 2048 = x" and "xs \<noteq> []" and "distinct (map q xs)"
proof -
  have e: "entry_inv (numTuples n) (morselOf x) xs" using inv k by (simp add: ns_inv_def)
  then show "xs \<noteq> []" by (simp add: entry_inv_def)
  show xb: "morselOf x * 2048 = x"
    using x div_mult_mod_eq[of x 2048] by (simp add: morselOf_def)
  have pos: "q d < 2048" "unat d = unat x + q d" if "d \<in> set xs" for d
    using morsel_pos[of d "morselOf x"] e that xb by (auto simp: entry_inv_def q_def)
  show "\<forall>d \<in> set xs. q d < min 2048 (unat (numTuples n) - unat x)"
  proof
    fix d assume d: "d \<in> set xs"
    then have "unat d < unat (numTuples n)" using e by (auto simp: entry_inv_def word_less_nat_alt)
    then show "q d < min 2048 (unat (numTuples n) - unat x)" using pos[OF d] by simp
  qed
  have "sorted_wrt (\<lambda>a b. q a < q b) xs"
  proof (rule sorted_wrt_mono_rel)
    show "sorted_wrt (<) xs" using e by (simp add: entry_inv_def oset_inv_def)
    show "q a < q b" if "a \<in> set xs" "b \<in> set xs" "a < b" for a b
      using pos[OF that(1)] pos[OF that(2)] that(3) by (simp add: word_less_nat_alt)
  qed
  then show s: "sorted_wrt (<) (map q xs)" by (simp add: sorted_wrt_map)
  then show "distinct (map q xs)" using strict_sorted_iff by blast
qed

lemma length_filter_notin:
  assumes "distinct ys" and "\<forall>y \<in> set ys. y < b"
  shows "length (filter (\<lambda>p. p \<notin> set ys) [0..<b]) = b - length ys"
proof -
  have "length (filter (\<lambda>p. p \<notin> set ys) [0..<b]) = card ({0..<b} - set ys)"
    by (subst distinct_card[symmetric]) (auto simp: set_diff_eq)
  also have "\<dots> = b - length ys"
    using assms by (subst card_Diff_subset) (auto simp: distinct_card)
  finally show ?thesis .
qed

lemma setDeletedNodeOffsetsForMorsel_spec:
  assumes inv: "ns_inv n" and x: "x mod 2048 = 0"
    and k: "unat (morselOf x) < length (hasDeletedNodesPerMorsel n)"
    and size: "originalSize = min 2048 (unat (numTuples n) - unat x)"
  shows "\<exists>r. setDeletedNodeOffsetsForMorsel x originalSize n = Inr r \<and>
           (case r of
              None \<Rightarrow> \<forall>p < 2048. x + of_nat p \<notin> deletedSet n
            | Some (positions, selectedSize) \<Rightarrow>
                positions = filter (\<lambda>p. x + of_nat p \<notin> deletedSet n) [0..<originalSize] \<and>
                selectedSize = of_nat (length positions))"
proof (cases "map_of (deletedNodeOffsetsPerMorsel n) (morselOf x)")
  case None
  then have "\<forall>p < 2048. morselOf x * 2048 + of_nat p \<notin> deletedSet n"
    using deletedSet_iff[OF inv] morsel_add(2)[of _ x] by simp
  moreover have "morselOf x * 2048 = x" using x div_mult_mod_eq[of x 2048] by (simp add: morselOf_def)
  moreover have "\<not> hasDeletedNodesPerMorsel n ! unat (morselOf x)" using inv k None by (simp add: ns_inv_def)
  ultimately show ?thesis using k by (simp add: setDeletedNodeOffsetsForMorsel_def Let_def)
next
  case (Some xs)
  let ?q = "\<lambda>d. unat (d - morselOf x * 2048)"
  note pos = morsel_entry_positions[OF inv Some x]
  obtain d ds where xs: "xs = d # ds" using pos(4) by (cases xs) auto
  have has: "hasDeletedNodesPerMorsel n ! unat (morselOf x)" using inv k Some by (simp add: ns_inv_def)
  have "selectLoop x [0..<originalSize] xs (nextDelOf x xs) =
          filter (\<lambda>p. p \<notin> ?q ` set xs) [0..<originalSize]"
    using selectLoop_filter[of x xs 0 originalSize] pos(1,2,3) size by simp
  also have "\<dots> = filter (\<lambda>p. x + of_nat p \<notin> deletedSet n) [0..<originalSize]"
    using deleted_position[OF inv Some] size pos(3) by (intro filter_cong) auto
  finally have loop: "selectLoop x [0..<originalSize] xs (nextDelOf x xs) =
          filter (\<lambda>p. x + of_nat p \<notin> deletedSet n) [0..<originalSize]" .
  have len: "length (filter (\<lambda>p. p \<notin> set (map ?q xs)) [0..<originalSize]) = originalSize - length (map ?q xs)"
    using pos(2,5) size by (intro length_filter_notin) auto
  have "set (map ?q xs) \<subseteq> {0..<originalSize}" using pos(2) size by auto
  from card_mono[OF _ this] have le: "length xs \<le> originalSize"
    using distinct_card[OF pos(5)] by simp
  have same: "filter (\<lambda>p. p \<notin> set (map ?q xs)) [0..<originalSize] =
          filter (\<lambda>p. x + of_nat p \<notin> deletedSet n) [0..<originalSize]"
    using deleted_position[OF inv Some] size pos(3) by (intro filter_cong) auto
  have "(of_nat originalSize :: u64) - of_nat (length xs) = of_nat (originalSize - length xs)"
    using le by (simp add: of_nat_diff)
  then have sz: "(of_nat originalSize :: u64) - of_nat (length xs) =
      of_nat (length (filter (\<lambda>p. x + of_nat p \<notin> deletedSet n) [0..<originalSize]))"
    unfolding len[unfolded same] by simp
  have "setDeletedNodeOffsetsForMorsel x originalSize n =
      Inr (Some (selectLoop x [0..<originalSize] xs (nextDelOf x xs),
                 of_nat originalSize - of_nat (length xs)))"
    using has k Some xs pos(3) by (simp add: setDeletedNodeOffsetsForMorsel_def Let_def nextDelOf_def)
  then show ?thesis unfolding loop sz by auto
qed

section \<open>Properties of one table\<close>


definition sampleStats :: NodeStatisticsAndDeletedIDs where
  "sampleStats = \<lparr>numTuples = 3000, tableID = 0, adjLists = [], adjColumns = [],
     hasDeletedNodesPerMorsel = [True, True], deletedNodeOffsetsPerMorsel = [(0, [5, 9]), (1, [2050])]\<rparr>"

lemma sampleStats_inv: "ns_inv sampleStats"
proof -
  have "k = 0 \<or> k = 1" if "unat k < Suc (Suc 0)" for k :: u64
    using that by (metis numeral_2_eq_2 One_nat_def less_2_cases unat_eq_zero unat_1 unat_eq_iff_u64)
  then show ?thesis
    by (auto simp: ns_inv_def sampleStats_def entry_inv_def oset_inv_def morselOf_def UINT64_MAX_def
        split: if_splits)
qed


text \<open>
  deleting a node.  An existing node without edges, in a morsel the table was opened with, is removed
  and nothing else changes; a node that does not exist (out of range or already deleted) is
  refused with an exception.
\<close>

theorem deleteNode_removes_exactly_one:
  assumes "ns_inv n"
  shows "(x \<in> liveNodes n \<longrightarrow> errorIfNodeHasEdges n x = Inr () \<longrightarrow>
            unat (morselOf x) < length (hasDeletedNodesPerMorsel n) \<longrightarrow>
            (\<exists>n'. deleteNode x n = Inr n' \<and> ns_inv n' \<and> liveNodes n' = liveNodes n - {x})) \<and>
         (x \<notin> liveNodes n \<longrightarrow> (\<exists>msg. deleteNode x n = Inl (RuntimeException msg)))"
proof (intro conjI impI)
  assume "x \<in> liveNodes n" "errorIfNodeHasEdges n x = Inr ()"
    "unat (morselOf x) < length (hasDeletedNodesPerMorsel n)"
  from deleteNode_ok[OF assms this] show "\<exists>n'. deleteNode x n = Inr n' \<and> ns_inv n' \<and> liveNodes n' = liveNodes n - {x}"
    by (auto simp: liveNodes_def)
next
  assume x: "x \<notin> liveNodes n"
  have "getMaxNodeOffset n = UINT64_MAX \<or> getMaxNodeOffset n < x" if "x \<notin> deletedSet n"
    using that x assms u64_prev(1)[of "numTuples n" x]
    by (auto simp: liveNodes_def getMaxNodeOffset_def getMaxNodeOffsetFromNumTuples_def ns_inv_def
        split: if_splits)
  then show "\<exists>msg. deleteNode x n = Inl (RuntimeException msg)"
    using isDeleted_iff[OF assms, of x] by (auto simp: deleteNode_def Let_def)
qed

theorem deleteNode_removes_exactly_one_witness:
  "(\<exists>n'. deleteNode 7 sampleStats = Inr n' \<and> liveNodes n' = liveNodes sampleStats - {7}) \<and>
   (\<exists>msg. deleteNode 9 sampleStats = Inl (RuntimeException msg))"
proof -
  have "7 \<in> liveNodes sampleStats" "9 \<notin> liveNodes sampleStats"
    by (simp_all add: liveNodes_def sampleStats_def deletedSet_def getDeletedNodeOffsets_def UINT64_MAX_def)
  then show ?thesis
    using deleteNode_removes_exactly_one[OF sampleStats_inv, of 7]
      deleteNode_removes_exactly_one[OF sampleStats_inv, of 9]
    by (auto simp: sampleStats_def errorIfNodeHasEdges_def morselOf_def)
qed

text \<open>
  scanning a morsel of a table shows exactly the nodes that are not deleted: the selection vector
  holds, in ascending order, the positions of the morsel whose node is not deleted, and its size is
  their number; the selection is left alone only when nothing in the morsel is deleted.
\<close>

theorem scan_selects_live_nodes:
  assumes "ns_inv n" and "x mod 2048 = 0"
    and "unat (morselOf x) < length (hasDeletedNodesPerMorsel n)"
    and "originalSize = min 2048 (unat (numTuples n) - unat x)"
  shows "\<exists>r. setDeletedNodeOffsetsForMorsel x originalSize n = Inr r \<and>
           (case r of
              None \<Rightarrow> \<forall>p < 2048. x + of_nat p \<notin> deletedSet n
            | Some (positions, selectedSize) \<Rightarrow>
                positions = filter (\<lambda>p. x + of_nat p \<notin> deletedSet n) [0..<originalSize] \<and>
                selectedSize = of_nat (length positions))"
  by (rule setDeletedNodeOffsetsForMorsel_spec[OF assms])

theorem scan_selects_live_nodes_witness:
  "\<exists>r. setDeletedNodeOffsetsForMorsel 2048 952 sampleStats = Inr r \<and>
     (case r of
        None \<Rightarrow> \<forall>p < 2048. 2048 + of_nat p \<notin> deletedSet sampleStats
      | Some (positions, selectedSize) \<Rightarrow>
          positions = filter (\<lambda>p. 2048 + of_nat p \<notin> deletedSet sampleStats) [0..<952] \<and>
          selectedSize = of_nat (length positions))"
  by (rule scan_selects_live_nodes[OF sampleStats_inv]) (simp_all add: sampleStats_def morselOf_def)

text \<open>
  nodes added beyond the last morsel.  \<open>addNode\<close> never grows \<open>hasDeletedNodesPerMorsel\<close>, so when
  the morsels are full the new node lies in a morsel without an entry: scanning that morsel and deleting
  the node both index the vector out of range.
\<close>

theorem addNode_new_morsel_is_out_of_range:
  assumes "ns_inv n" and "deletedNodeOffsetsPerMorsel n = []"
    and "numTuples n = of_nat (2048 * length (hasDeletedNodesPerMorsel n))"
    and "length (hasDeletedNodesPerMorsel n) < 9007199254740991"
    and "adjLists n = []" and "adjColumns n = []"
  shows "\<exists>x n'. addNode stale n = Inr (x, n') \<and> x \<in> liveNodes n' \<and>
           setDeletedNodeOffsetsForMorsel x 1 n' = Inl (UndefinedBehaviour ''hasDeletedNodesPerMorsel index'') \<and>
           deleteNode x n' = Inl (UndefinedBehaviour ''hasDeletedNodesPerMorsel index'')"
proof -
  let ?L = "length (hasDeletedNodesPerMorsel n)" and ?x = "numTuples n"
  have u: "unat ?x = 2048 * ?L" unfolding assms(3) unat_of_nat using assms(4) by simp
  have ne: "?x \<noteq> UINT64_MAX"
  proof
    assume "?x = UINT64_MAX"
    then have "unat ?x = 18446744073709551615" by (simp only: unat_UINT64_MAX)
    then show False using u assms(4) by simp
  qed
  have u1: "unat (?x + 1) = Suc (2048 * ?L)" using u64_next(1)[OF ne] u by simp
  have ne1: "?x + 1 \<noteq> UINT64_MAX"
  proof
    assume "?x + 1 = UINT64_MAX"
    then have "unat (?x + 1) = 18446744073709551615" by (simp only: unat_UINT64_MAX)
    then show False using u1 assms(4) by simp
  qed
  let ?n' = "n\<lparr>numTuples := ?x + 1\<rparr>"
  have add: "addNode stale n = Inr (?x, ?n')"
    using assms(2) ne1 by (simp add: addNode_def getMaxNodeOffset_def getMaxNodeOffsetFromNumTuples_def Let_def)
  have m: "unat (morselOf ?x) = ?L" using u by (simp add: unat_morselOf)
  have live: "?x \<in> liveNodes ?n'"
    using ne1 u64_next(2)[OF ne] assms(2) by (simp add: liveNodes_def deletedSet_def getDeletedNodeOffsets_def)
  show ?thesis
    using add live m ne ne1 assms(2,5,6)
    by (intro exI[of _ ?x] exI[of _ ?n'])
      (simp add: setDeletedNodeOffsetsForMorsel_def deleteNode_def Let_def isDeleted_def errorIfNodeHasEdges_def
        getMaxNodeOffset_def getMaxNodeOffsetFromNumTuples_def)
qed

theorem addNode_new_morsel_is_out_of_range_witness:
  "\<exists>x n'. addNode (\<lambda>k. k) \<lparr>numTuples = 2048, tableID = 0, adjLists = [], adjColumns = [],
      hasDeletedNodesPerMorsel = [False], deletedNodeOffsetsPerMorsel = []\<rparr> = Inr (x, n') \<and>
     deleteNode x n' = Inl (UndefinedBehaviour ''hasDeletedNodesPerMorsel index'')"
proof -
  let ?n = "\<lparr>numTuples = 2048, tableID = 0, adjLists = [], adjColumns = [],
      hasDeletedNodesPerMorsel = [False], deletedNodeOffsetsPerMorsel = []\<rparr>"
  have "ns_inv ?n" by (simp add: ns_inv_def)
  from addNode_new_morsel_is_out_of_range[OF this, of "\<lambda>k. k"] show ?thesis by auto
qed

text \<open>
  The first node of an empty table.  An empty table has \<open>numTuples = UINT64_MAX\<close>; the increment
  in \<open>addNode\<close> wraps to 0 and the offset handed out is \<open>UINT64_MAX\<close>, the value for "no node", and the
  table then has no node below its number of tuples.
\<close>

theorem addNode_on_empty_table_wraps:
  assumes "numTuples n = UINT64_MAX" and "deletedNodeOffsetsPerMorsel n = []"
  shows "\<exists>n'. addNode stale n = Inr (UINT64_MAX, n') \<and> numTuples n' = 0 \<and> liveNodes n' = {}"
  using assms
  by (simp add: addNode_def getMaxNodeOffset_def getMaxNodeOffsetFromNumTuples_def UINT64_MAX_def liveNodes_def Let_def)

theorem addNode_on_empty_table_wraps_witness:
  "\<exists>n n'. newNodeStatistics 3 UINT64_MAX [] = Inr n \<and> addNode (\<lambda>k. k) n = Inr (UINT64_MAX, n')"
proof -
  obtain n where n: "newNodeStatistics 3 UINT64_MAX [] = Inr n" "numTuples n = UINT64_MAX"
      "deletedNodeOffsetsPerMorsel n = []"
    by (simp add: newNodeStatistics_def setMaxNodeOffset_def Let_def)
  show ?thesis using addNode_on_empty_table_wraps[OF n(2,3), of "\<lambda>k. k"] n(1) by auto
qed

section \<open>All tables: the two versions\<close>

text \<open>
  The base class \<open>TablesStatistics\<close>: a version of the per-table statistics for read-only transactions and,
  once the write transaction changed something, one for it; \<open>None\<close> is the null pointer.  The maps
  are association lists with distinct keys (the iteration order of the unordered map).
\<close>

record 's TablesStatistics =
  tableStatisticPerTableForReadOnlyTrx :: "(table_id \<times> 's) list option"
  tableStatisticPerTableForWriteTrx :: "(table_id \<times> 's) list option"

definition newTablesStatistics :: "'s TablesStatistics" where
  "newTablesStatistics = \<lparr>tableStatisticPerTableForReadOnlyTrx = Some [],
     tableStatisticPerTableForWriteTrx = None\<rparr>"

definition hasUpdates :: "'s TablesStatistics \<Rightarrow> bool" where
  "hasUpdates t \<longleftrightarrow> tableStatisticPerTableForWriteTrx t \<noteq> None"

definition initTableStatisticPerTableForWriteTrxIfNecessary ::
  "'s TablesStatistics \<Rightarrow> 's TablesStatistics" where
  "initTableStatisticPerTableForWriteTrxIfNecessary t =
     (if tableStatisticPerTableForWriteTrx t = None
      then t\<lparr>tableStatisticPerTableForWriteTrx := tableStatisticPerTableForReadOnlyTrx t\<rparr> else t)"

definition checkpointInMemoryIfNecessary :: "'s TablesStatistics \<Rightarrow> 's TablesStatistics" where
  "checkpointInMemoryIfNecessary t =
     t\<lparr>tableStatisticPerTableForReadOnlyTrx := tableStatisticPerTableForWriteTrx t,
       tableStatisticPerTableForWriteTrx := None\<rparr>"

definition rollbackInMemoryIfNecessary :: "'s TablesStatistics \<Rightarrow> 's TablesStatistics" where
  "rollbackInMemoryIfNecessary t = t\<lparr>tableStatisticPerTableForWriteTrx := None\<rparr>"

definition removeTableStatistic :: "table_id \<Rightarrow> 's TablesStatistics \<Rightarrow> 's TablesStatistics" where
  "removeTableStatistic i t =
     t\<lparr>tableStatisticPerTableForReadOnlyTrx :=
         map_option (omap_erase i) (tableStatisticPerTableForReadOnlyTrx t)\<rparr>"

text \<open>Assignment through \<open>operator[]\<close> of the unordered map.\<close>

fun umap_set :: "'k \<Rightarrow> 'v \<Rightarrow> ('k \<times> 'v) list \<Rightarrow> ('k \<times> 'v) list" where
  "umap_set k v [] = [(k, v)]"
| "umap_set k v ((k', v') # m) = (if k = k' then (k, v) # m else (k', v') # umap_set k v m)"

lemma map_of_umap_set [simp]: "map_of (umap_set k v m) = (map_of m)(k \<mapsto> v)"
  by (induction m rule: umap_set.induct) auto

definition setStatistic :: "table_id \<Rightarrow> 's \<Rightarrow> 's TablesStatistics \<Rightarrow> 's TablesStatistics" where
  "setStatistic i s t =
     (let t1 = initTableStatisticPerTableForWriteTrxIfNecessary t
      in t1\<lparr>tableStatisticPerTableForWriteTrx :=
              map_option (umap_set i s) (tableStatisticPerTableForWriteTrx t1)\<rparr>)"

text \<open>Reading a version: the write version only exists for the write transaction.\<close>

definition versionFor :: "TransactionType \<Rightarrow> 's TablesStatistics \<Rightarrow> (table_id \<times> 's) list option" where
  "versionFor ty t =
     (if ty = READ_ONLY \<or> tableStatisticPerTableForWriteTrx t = None
      then tableStatisticPerTableForReadOnlyTrx t else tableStatisticPerTableForWriteTrx t)"

definition statisticOf :: "TransactionType \<Rightarrow> table_id \<Rightarrow> 's TablesStatistics \<Rightarrow> 's result" where
  "statisticOf ty i t =
     (case versionFor ty t of
        None \<Rightarrow> Inl (UndefinedBehaviour ''null version'')
      | Some m \<Rightarrow> (case map_of m i of None \<Rightarrow> Inl (UndefinedBehaviour ''null statistics'') | Some s \<Rightarrow> Inr s))"

definition getMaxNodeOffsetOfTable ::
  "TransactionType \<Rightarrow> table_id \<Rightarrow> NodeStatisticsAndDeletedIDs TablesStatistics \<Rightarrow> node_offset result" where
  "getMaxNodeOffsetOfTable ty i t = bind_result (statisticOf ty i t) (\<lambda>s. Inr (getMaxNodeOffset s))"

definition addNodeToTable ::
  "(u64 \<Rightarrow> u64) \<Rightarrow> table_id \<Rightarrow> NodeStatisticsAndDeletedIDs TablesStatistics \<Rightarrow>
     (node_offset \<times> NodeStatisticsAndDeletedIDs TablesStatistics) result" where
  "addNodeToTable stale i t =
     (let t1 = initTableStatisticPerTableForWriteTrxIfNecessary t
      in bind_result (statisticOf WRITE i t1) (\<lambda>s.
         bind_result (addNode stale s) (\<lambda>(x, s1). Inr (x, setStatistic i s1 t1))))"

definition deleteNodeFromTable ::
  "table_id \<Rightarrow> node_offset \<Rightarrow> NodeStatisticsAndDeletedIDs TablesStatistics \<Rightarrow>
     NodeStatisticsAndDeletedIDs TablesStatistics result" where
  "deleteNodeFromTable i x t =
     (let t1 = initTableStatisticPerTableForWriteTrxIfNecessary t
      in bind_result (statisticOf WRITE i t1) (\<lambda>s.
         bind_result (deleteNode x s) (\<lambda>s1. Inr (setStatistic i s1 t1))))"

definition setMaxNodeOffsetForTable ::
  "table_id \<Rightarrow> node_offset \<Rightarrow> NodeStatisticsAndDeletedIDs TablesStatistics \<Rightarrow>
     NodeStatisticsAndDeletedIDs TablesStatistics result" where
  "setMaxNodeOffsetForTable i x t =
     (let t1 = initTableStatisticPerTableForWriteTrxIfNecessary t
      in bind_result (statisticOf WRITE i t1) (\<lambda>s. Inr (setStatistic i (setMaxNodeOffset x s) t1)))"

definition addNodeStatisticsAndDeletedIDs ::
  "table_id \<Rightarrow> NodeStatisticsAndDeletedIDs TablesStatistics \<Rightarrow>
     NodeStatisticsAndDeletedIDs TablesStatistics result" where
  "addNodeStatisticsAndDeletedIDs i t =
     bind_result (newNodeStatistics i UINT64_MAX []) (\<lambda>s. Inr (setStatistic i s t))"

definition scanTableMorsel ::
  "TransactionType \<Rightarrow> node_offset \<Rightarrow> nat \<Rightarrow> table_id \<Rightarrow> NodeStatisticsAndDeletedIDs TablesStatistics \<Rightarrow>
     (nat list \<times> u64) option result" where
  "scanTableMorsel ty x originalSize i t =
     bind_result (statisticOf ty i t) (setDeletedNodeOffsetsForMorsel x originalSize)"

text \<open>
  The statistics are a two-version store.  A write is the assignment of a table's statistics in the write
  version, as the three operations above do it; the checkpoint step is the one that commit performs, which logs a
  \<open>TABLE_STATISTICS_RECORD\<close>, and so reaches \<open>checkpointInMemoryIfNecessary\<close>, only when there are
  updates.
\<close>

definition ts_ok :: "'s TablesStatistics \<Rightarrow> bool" where
  "ts_ok t \<longleftrightarrow> tableStatisticPerTableForReadOnlyTrx t \<noteq> None"

definition ts_view :: "TransactionType \<Rightarrow> 's TablesStatistics \<Rightarrow> (table_id \<rightharpoonup> 's)" where
  "ts_view ty t = (case versionFor ty t of None \<Rightarrow> Map.empty | Some m \<Rightarrow> map_of m)"

definition checkpointStatistics :: "'s TablesStatistics \<Rightarrow> 's TablesStatistics" where
  "checkpointStatistics t = (if hasUpdates t then checkpointInMemoryIfNecessary t else t)"

interpretation ts: two_version_store
  "ts_view READ_ONLY" "ts_view WRITE" "\<lambda>(i, s). setStatistic i s" "\<lambda>(i, s) v. v(i \<mapsto> s)"
  checkpointStatistics rollbackInMemoryIfNecessary ts_ok
  by unfold_locales
    (auto simp: ts_view_def versionFor_def setStatistic_def Let_def ts_ok_def checkpointStatistics_def
      initTableStatisticPerTableForWriteTrxIfNecessary_def checkpointInMemoryIfNecessary_def hasUpdates_def
      rollbackInMemoryIfNecessary_def split: option.splits if_splits)



text \<open>The operations on a table write exactly that table's entry.\<close>

lemma statisticOf_init:
  "statisticOf WRITE i (initTableStatisticPerTableForWriteTrxIfNecessary t) = statisticOf WRITE i t"
  by (cases "tableStatisticPerTableForWriteTrx t")
    (simp_all add: statisticOf_def versionFor_def initTableStatisticPerTableForWriteTrxIfNecessary_def)

lemma setStatistic_init:
  "setStatistic i s (initTableStatisticPerTableForWriteTrxIfNecessary t) = setStatistic i s t"
  by (simp add: setStatistic_def initTableStatisticPerTableForWriteTrxIfNecessary_def)

lemma addNodeToTable_eq:
  "addNodeToTable stale i t = bind_result (statisticOf WRITE i t) (\<lambda>s.
     bind_result (addNode stale s) (\<lambda>(x, s1). Inr (x, setStatistic i s1 t)))"
  by (simp add: addNodeToTable_def statisticOf_init setStatistic_init)

lemma deleteNodeFromTable_eq:
  "deleteNodeFromTable i x t = bind_result (statisticOf WRITE i t) (\<lambda>s.
     bind_result (deleteNode x s) (\<lambda>s1. Inr (setStatistic i s1 t)))"
  by (simp add: deleteNodeFromTable_def statisticOf_init setStatistic_init)

section \<open>The statistics file\<close>

text \<open>
  A statistics file is a sequence of 64-bit values at consecutive offsets: the number of tables, then per
  table the number of tuples, the table identifier and the vector of deleted offsets.  The file
  is opened without truncation, so what an older, longer file holds behind the last written value stays.
\<close>

type_synonym stat_file = "u64 list"

definition serializeVector :: "u64 list \<Rightarrow> u64 list" where
  "serializeVector xs = of_nat (length xs) # xs"

definition readValue :: "u64 list \<Rightarrow> (u64 \<times> u64 list) result" where
  "readValue f = (case f of [] \<Rightarrow> Inl (UndefinedBehaviour ''uninitialised value'') | v # r \<Rightarrow> Inr (v, r))"

definition deserializeVector :: "u64 list \<Rightarrow> (u64 list \<times> u64 list) result" where
  "deserializeVector f = bind_result (readValue f) (\<lambda>(n, r).
     if unat n \<le> length r then Inr (take (unat n) r, drop (unat n) r)
     else Inl (UndefinedBehaviour ''uninitialised value''))"

definition serializeTable :: "table_id \<times> NodeStatisticsAndDeletedIDs \<Rightarrow> u64 list" where
  "serializeTable e = [numTuples (snd e), fst e] @ serializeVector (getDeletedNodeOffsets (snd e))"

definition saveToFile ::
  "TransactionType \<Rightarrow> NodeStatisticsAndDeletedIDs TablesStatistics \<Rightarrow> stat_file \<Rightarrow> stat_file result" where
  "saveToFile ty t old =
     (case versionFor ty t of
        None \<Rightarrow> Inl (UndefinedBehaviour ''null version'')
      | Some m \<Rightarrow> let new = of_nat (length m) # concat (map serializeTable m)
                  in Inr (new @ drop (length new) old))"

definition deserializeTable ::
  "u64 list \<Rightarrow> ((table_id \<times> NodeStatisticsAndDeletedIDs) \<times> u64 list) result" where
  "deserializeTable f =
     bind_result (readValue f) (\<lambda>(num, f1).
     bind_result (readValue f1) (\<lambda>(i, f2).
     bind_result (deserializeVector f2) (\<lambda>(dels, f3).
     bind_result (newNodeStatistics i (getMaxNodeOffsetFromNumTuples num) dels) (\<lambda>s.
       Inr ((i, s), f3)))))"

fun readTables ::
  "nat \<Rightarrow> (table_id \<times> NodeStatisticsAndDeletedIDs) list \<Rightarrow> u64 list \<Rightarrow>
     (table_id \<times> NodeStatisticsAndDeletedIDs) list result" where
  "readTables 0 m f = Inr m"
| "readTables (Suc k) m f = bind_result (deserializeTable f) (\<lambda>((i, s), r). readTables k (umap_set i s m) r)"

definition readFromFile :: "stat_file \<Rightarrow> NodeStatisticsAndDeletedIDs TablesStatistics result" where
  "readFromFile f =
     bind_result (readValue f) (\<lambda>(num, r).
     bind_result (readTables (unat num) [] r) (\<lambda>m.
       Inr \<lparr>tableStatisticPerTableForReadOnlyTrx = Some m, tableStatisticPerTableForWriteTrx = None\<rparr>))"

lemma serializeVector_roundtrip:
  "length xs < 2 ^ 64 \<Longrightarrow> deserializeVector (serializeVector xs @ rest) = Inr (xs, rest)"
  by (simp add: deserializeVector_def serializeVector_def readValue_def unat_of_nat)

lemma newNodeStatistics_roundtrip:
  assumes inv: "ns_inv s"
  shows "\<exists>s'. newNodeStatistics i (getMaxNodeOffset s) (getDeletedNodeOffsets s) = Inr s' \<and> ns_inv s' \<and>
           numTuples s' = numTuples s \<and> deletedNodeOffsetsPerMorsel s' = deletedNodeOffsetsPerMorsel s"
proof (cases "numTuples s = UINT64_MAX")
  case True
  then have "deletedNodeOffsetsPerMorsel s = []" using inv by (simp add: ns_inv_def)
  then show ?thesis
    using True by (simp add: newNodeStatistics_def setMaxNodeOffset_def Let_def getMaxNodeOffset_def
        getMaxNodeOffsetFromNumTuples_def getDeletedNodeOffsets_def ns_inv_def UINT64_MAX_def)
next
  case False
  let ?e = "setMaxNodeOffset (numTuples s - 1)
     \<lparr>numTuples = 0, tableID = i, adjLists = [], adjColumns = [],
      hasDeletedNodesPerMorsel = [], deletedNodeOffsetsPerMorsel = []\<rparr>"
  have nz: "numTuples s \<noteq> 0" using inv by (simp add: ns_inv_def)
  have mx: "numTuples s - 1 \<noteq> UINT64_MAX" by (rule u64_prev(2)[OF nz])
  have e: "numTuples ?e = numTuples s" "deletedNodeOffsetsPerMorsel ?e = []"
    "hasDeletedNodesPerMorsel ?e = replicate (unat (morselOf (numTuples s - 1)) + 1) False"
    using mx by (simp_all add: setMaxNodeOffset_def Let_def vec_resize_def)
  have inve: "ns_inv ?e" unfolding ns_inv_def e using nz by (auto simp del: replicate_Suc)
  have "x < numTuples s \<and> unat (morselOf x) < unat (morselOf (numTuples s - 1)) + 1" if "x \<in> deletedSet s" for x
  proof -
    have "x < numTuples s" using deletedSet_bound[OF inv that] by simp
    moreover from this have "unat x \<le> unat (numTuples s - 1)"
      using u64_prev(1)[OF nz] by (simp add: word_le_nat_alt)
    ultimately show ?thesis by (simp add: unat_morselOf div_le_mono less_Suc_eq_le)
  qed
  then have "\<forall>x \<in> set (getDeletedNodeOffsets s). x < numTuples ?e \<and>
      unat (morselOf x) < length (hasDeletedNodesPerMorsel ?e)"
    unfolding e by (simp add: deletedSet_def del: replicate_Suc)
  from registerAllDeleted_ok[OF inve _ this] False e
  obtain s' where s': "registerAllDeleted (getDeletedNodeOffsets s) ?e = Inr s'" "ns_inv s'"
      "deletedSet s' = deletedSet s" "numTuples s' = numTuples s"
    by (auto simp: deletedSet_def getDeletedNodeOffsets_def)
  then show ?thesis
    using deletedMap_unique[OF s'(2) inv s'(3)] False
    by (simp add: newNodeStatistics_def getMaxNodeOffset_def getMaxNodeOffsetFromNumTuples_def)
qed

lemma distinct_concat_entries:
  "omap_inv m \<Longrightarrow> \<forall>k xs. map_of m k = Some xs \<longrightarrow> entry_inv N k xs \<Longrightarrow> distinct (concat (map snd m))"
proof (induction m)
  case (Cons e m)
  have e: "entry_inv N (fst e) (snd e)" using Cons.prems(2) by (cases e) auto
  have rest: "entry_inv N k xs" if "map_of m k = Some xs" for k xs
  proof -
    have "k \<noteq> fst e" using Cons.prems(1) that by (force dest: map_of_SomeD)
    then show ?thesis using Cons.prems(2) that by (cases e) auto
  qed
  have disj: "x \<notin> set ys" if "x \<in> set (snd e)" "(k, ys) \<in> set m" for x k ys
  proof -
    have "map_of m k = Some ys" using that(2) Cons.prems(1) by (simp add: omap_inv_distinct)
    then have "entry_inv N k ys" by (rule rest)
    moreover have "fst e \<noteq> k" using Cons.prems(1) that(2) by auto
    ultimately show ?thesis using e that(1) by (auto simp: entry_inv_def)
  qed
  have "distinct (snd e)" using e by (simp add: entry_inv_def oset_inv_iff)
  moreover have "distinct (concat (map snd m))" using Cons.IH Cons.prems(1) rest by simp
  ultimately show ?case using disj by auto
qed simp

lemma getDeletedNodeOffsets_length:
  assumes inv: "ns_inv s"
  shows "length (getDeletedNodeOffsets s) < 2 ^ 64"
proof -
  have "distinct (getDeletedNodeOffsets s)"
    unfolding getDeletedNodeOffsets_def
    by (rule distinct_concat_entries[of _ "numTuples s"]) (use inv in \<open>auto simp: ns_inv_def\<close>)
  then have "distinct (map unat (getDeletedNodeOffsets s))" by (simp add: distinct_map inj_on_def)
  moreover have "set (map unat (getDeletedNodeOffsets s)) \<subseteq> {0..<unat (numTuples s)}"
    using deletedSet_bound[OF inv] by (auto simp: deletedSet_def word_less_nat_alt)
  ultimately have "length (map unat (getDeletedNodeOffsets s)) \<le> unat (numTuples s)"
    by (metis card_atLeastLessThan card_mono diff_zero distinct_card finite_atLeastLessThan)
  moreover have "unat (numTuples s) < 2 ^ LENGTH(64)" by (rule unsigned_less)
  ultimately show ?thesis by simp
qed

definition sameTable :: "table_id \<times> NodeStatisticsAndDeletedIDs \<Rightarrow> table_id \<times> NodeStatisticsAndDeletedIDs \<Rightarrow> bool" where
  "sameTable e e' \<longleftrightarrow> fst e' = fst e \<and> ns_inv (snd e') \<and> numTuples (snd e') = numTuples (snd e) \<and>
     deletedNodeOffsetsPerMorsel (snd e') = deletedNodeOffsetsPerMorsel (snd e)"

lemma deserializeTable_roundtrip:
  assumes "ns_inv (snd e)"
  shows "\<exists>e'. deserializeTable (serializeTable e @ rest) = Inr (e', rest) \<and> sameTable e e'"
proof -
  obtain s' where s': "newNodeStatistics (fst e) (getMaxNodeOffset (snd e)) (getDeletedNodeOffsets (snd e)) = Inr s'"
      "ns_inv s'" "numTuples s' = numTuples (snd e)"
      "deletedNodeOffsetsPerMorsel s' = deletedNodeOffsetsPerMorsel (snd e)"
    using newNodeStatistics_roundtrip[OF assms, of "fst e"] by blast
  have "deserializeTable (serializeTable e @ rest) = Inr ((fst e, s'), rest)"
    using serializeVector_roundtrip[OF getDeletedNodeOffsets_length[OF assms]] s'(1)
    by (simp add: deserializeTable_def serializeTable_def readValue_def getMaxNodeOffset_def)
  then show ?thesis using s' by (auto simp: sameTable_def)
qed

lemma umap_set_new: "i \<notin> fst ` set m \<Longrightarrow> umap_set i s m = m @ [(i, s)]"
  by (induction m rule: umap_set.induct) auto

lemma readTables_roundtrip:
  assumes "\<forall>e \<in> set m. ns_inv (snd e)" and "distinct (map fst (acc @ m))"
  shows "\<exists>m'. readTables (length m) acc (concat (map serializeTable m) @ rest) = Inr (acc @ m') \<and>
           list_all2 sameTable m m'"
  using assms
proof (induction m arbitrary: acc)
  case (Cons e m)
  obtain e' where e': "deserializeTable (serializeTable e @ concat (map serializeTable m) @ rest) =
        Inr (e', concat (map serializeTable m) @ rest)" "sameTable e e'"
    using deserializeTable_roundtrip[of e "concat (map serializeTable m) @ rest"] Cons.prems(1) by auto
  have new: "umap_set (fst e') (snd e') acc = acc @ [e']"
    using e'(2) Cons.prems(2) umap_set_new[of "fst e'" acc "snd e'"]
    by (cases e') (auto simp: sameTable_def)
  have "fst e' = fst e" using e'(2) by (simp add: sameTable_def)
  then obtain m' where "readTables (length m) (acc @ [e']) (concat (map serializeTable m) @ rest) =
      Inr ((acc @ [e']) @ m') \<and> list_all2 sameTable m m'"
    using Cons.IH[of "acc @ [e']"] Cons.prems by auto
  then show ?case using e' new by (intro exI[of _ "e' # m'"]) (simp add: split_beta)
qed simp



end
