(* ===== verification/Date.thy ===== *)
theory Date
  imports Prelude "HOL-Library.Signed_Division"
begin

text \<open>
  Calendar dates: \<^verbatim>\<open>src/src/common/types/date_t.cpp\<close> with \<^verbatim>\<open>include/date_t.h\<close>, and the
  \<open>DateToStringCast\<close> and \<open>NumericHelper\<close> of \<^verbatim>\<open>include/cast_helpers.h\<close> that print them.  A date is its number of
  days since 1970-01-01.  Years, months, days and day numbers are integers; the sources keep them
  in 32 bits, which the supported years (\<open>MIN_YEAR\<close> to \<open>MAX_YEAR\<close>) do not exhaust.  C++ division truncates
  (\<open>sdiv\<close>, \<open>smod\<close>).  A failing \<open>GF_ASSERT\<close> is an error value.
\<close>

section \<open>Tables\<close>

definition NORMAL_DAYS :: "int list" where
  "NORMAL_DAYS = [
    0, 31, 28, 31, 30, 31, 30, 31, 31, 30, 31, 30, 31]"

definition LEAP_DAYS :: "int list" where
  "LEAP_DAYS = [
    0, 31, 29, 31, 30, 31, 30, 31, 31, 30, 31, 30, 31]"

definition CUMULATIVE_LEAP_DAYS :: "int list" where
  "CUMULATIVE_LEAP_DAYS = [
    0, 31, 60, 91, 121, 152, 182, 213, 244, 274, 305, 335, 366]"

definition CUMULATIVE_DAYS :: "int list" where
  "CUMULATIVE_DAYS = [
    0, 31, 59, 90, 120, 151, 181, 212, 243, 273, 304, 334, 365]"

definition MONTH_PER_DAY_OF_YEAR :: "int list" where
  "MONTH_PER_DAY_OF_YEAR = [
    1, 1, 1, 1, 1, 1, 1, 1, 1, 1, 1, 1, 1, 1, 1, 1, 1, 1, 1, 1, 1, 1, 1, 1, 1, 1, 1, 1, 1, 1, 1,
    2, 2, 2, 2, 2, 2, 2, 2, 2, 2, 2, 2, 2, 2, 2, 2, 2, 2, 2, 2, 2, 2, 2, 2, 2, 2, 2, 2, 3, 3, 3,
    3, 3, 3, 3, 3, 3, 3, 3, 3, 3, 3, 3, 3, 3, 3, 3, 3, 3, 3, 3, 3, 3, 3, 3, 3, 3, 3, 3, 4, 4, 4,
    4, 4, 4, 4, 4, 4, 4, 4, 4, 4, 4, 4, 4, 4, 4, 4, 4, 4, 4, 4, 4, 4, 4, 4, 4, 4, 4, 5, 5, 5, 5,
    5, 5, 5, 5, 5, 5, 5, 5, 5, 5, 5, 5, 5, 5, 5, 5, 5, 5, 5, 5, 5, 5, 5, 5, 5, 5, 5, 6, 6, 6, 6,
    6, 6, 6, 6, 6, 6, 6, 6, 6, 6, 6, 6, 6, 6, 6, 6, 6, 6, 6, 6, 6, 6, 6, 6, 6, 6, 7, 7, 7, 7, 7,
    7, 7, 7, 7, 7, 7, 7, 7, 7, 7, 7, 7, 7, 7, 7, 7, 7, 7, 7, 7, 7, 7, 7, 7, 7, 7, 8, 8, 8, 8, 8,
    8, 8, 8, 8, 8, 8, 8, 8, 8, 8, 8, 8, 8, 8, 8, 8, 8, 8, 8, 8, 8, 8, 8, 8, 8, 8, 9, 9, 9, 9, 9,
    9, 9, 9, 9, 9, 9, 9, 9, 9, 9, 9, 9, 9, 9, 9, 9, 9, 9, 9, 9, 9, 9, 9, 9, 9, 10, 10, 10, 10,
    10, 10, 10, 10, 10, 10, 10, 10, 10, 10, 10, 10, 10, 10, 10, 10, 10, 10, 10, 10, 10, 10, 10,
    10, 10, 10, 10, 11, 11, 11, 11, 11, 11, 11, 11, 11, 11, 11, 11, 11, 11, 11, 11, 11, 11, 11,
    11, 11, 11, 11, 11, 11, 11, 11, 11, 11, 11, 12, 12, 12, 12, 12, 12, 12, 12, 12, 12, 12, 12,
    12, 12, 12, 12, 12, 12, 12, 12, 12, 12, 12, 12, 12, 12, 12, 12, 12, 12, 12]"

definition LEAP_MONTH_PER_DAY_OF_YEAR :: "int list" where
  "LEAP_MONTH_PER_DAY_OF_YEAR = [
    1, 1, 1, 1, 1, 1, 1, 1, 1, 1, 1, 1, 1, 1, 1, 1, 1, 1, 1, 1, 1, 1, 1, 1, 1, 1, 1, 1, 1, 1, 1,
    2, 2, 2, 2, 2, 2, 2, 2, 2, 2, 2, 2, 2, 2, 2, 2, 2, 2, 2, 2, 2, 2, 2, 2, 2, 2, 2, 2, 2, 3, 3,
    3, 3, 3, 3, 3, 3, 3, 3, 3, 3, 3, 3, 3, 3, 3, 3, 3, 3, 3, 3, 3, 3, 3, 3, 3, 3, 3, 3, 3, 4, 4,
    4, 4, 4, 4, 4, 4, 4, 4, 4, 4, 4, 4, 4, 4, 4, 4, 4, 4, 4, 4, 4, 4, 4, 4, 4, 4, 4, 4, 5, 5, 5,
    5, 5, 5, 5, 5, 5, 5, 5, 5, 5, 5, 5, 5, 5, 5, 5, 5, 5, 5, 5, 5, 5, 5, 5, 5, 5, 5, 5, 6, 6, 6,
    6, 6, 6, 6, 6, 6, 6, 6, 6, 6, 6, 6, 6, 6, 6, 6, 6, 6, 6, 6, 6, 6, 6, 6, 6, 6, 6, 7, 7, 7, 7,
    7, 7, 7, 7, 7, 7, 7, 7, 7, 7, 7, 7, 7, 7, 7, 7, 7, 7, 7, 7, 7, 7, 7, 7, 7, 7, 7, 8, 8, 8, 8,
    8, 8, 8, 8, 8, 8, 8, 8, 8, 8, 8, 8, 8, 8, 8, 8, 8, 8, 8, 8, 8, 8, 8, 8, 8, 8, 8, 9, 9, 9, 9,
    9, 9, 9, 9, 9, 9, 9, 9, 9, 9, 9, 9, 9, 9, 9, 9, 9, 9, 9, 9, 9, 9, 9, 9, 9, 9, 10, 10, 10,
    10, 10, 10, 10, 10, 10, 10, 10, 10, 10, 10, 10, 10, 10, 10, 10, 10, 10, 10, 10, 10, 10, 10,
    10, 10, 10, 10, 10, 11, 11, 11, 11, 11, 11, 11, 11, 11, 11, 11, 11, 11, 11, 11, 11, 11, 11,
    11, 11, 11, 11, 11, 11, 11, 11, 11, 11, 11, 11, 12, 12, 12, 12, 12, 12, 12, 12, 12, 12, 12,
    12, 12, 12, 12, 12, 12, 12, 12, 12, 12, 12, 12, 12, 12, 12, 12, 12, 12, 12, 12]"

definition CUMULATIVE_YEAR_DAYS :: "int list" where
  "CUMULATIVE_YEAR_DAYS = [
    0, 365, 730, 1096, 1461, 1826, 2191, 2557, 2922, 3287, 3652, 4018, 4383, 4748, 5113, 5479,
    5844, 6209, 6574, 6940, 7305, 7670, 8035, 8401, 8766, 9131, 9496, 9862, 10227, 10592, 10957,
    11323, 11688, 12053, 12418, 12784, 13149, 13514, 13879, 14245, 14610, 14975, 15340, 15706,
    16071, 16436, 16801, 17167, 17532, 17897, 18262, 18628, 18993, 19358, 19723, 20089, 20454,
    20819, 21184, 21550, 21915, 22280, 22645, 23011, 23376, 23741, 24106, 24472, 24837, 25202,
    25567, 25933, 26298, 26663, 27028, 27394, 27759, 28124, 28489, 28855, 29220, 29585, 29950,
    30316, 30681, 31046, 31411, 31777, 32142, 32507, 32872, 33238, 33603, 33968, 34333, 34699,
    35064, 35429, 35794, 36160, 36525, 36890, 37255, 37621, 37986, 38351, 38716, 39082, 39447,
    39812, 40177, 40543, 40908, 41273, 41638, 42004, 42369, 42734, 43099, 43465, 43830, 44195,
    44560, 44926, 45291, 45656, 46021, 46387, 46752, 47117, 47482, 47847, 48212, 48577, 48942,
    49308, 49673, 50038, 50403, 50769, 51134, 51499, 51864, 52230, 52595, 52960, 53325, 53691,
    54056, 54421, 54786, 55152, 55517, 55882, 56247, 56613, 56978, 57343, 57708, 58074, 58439,
    58804, 59169, 59535, 59900, 60265, 60630, 60996, 61361, 61726, 62091, 62457, 62822, 63187,
    63552, 63918, 64283, 64648, 65013, 65379, 65744, 66109, 66474, 66840, 67205, 67570, 67935,
    68301, 68666, 69031, 69396, 69762, 70127, 70492, 70857, 71223, 71588, 71953, 72318, 72684,
    73049, 73414, 73779, 74145, 74510, 74875, 75240, 75606, 75971, 76336, 76701, 77067, 77432,
    77797, 78162, 78528, 78893, 79258, 79623, 79989, 80354, 80719, 81084, 81450, 81815, 82180,
    82545, 82911, 83276, 83641, 84006, 84371, 84736, 85101, 85466, 85832, 86197, 86562, 86927,
    87293, 87658, 88023, 88388, 88754, 89119, 89484, 89849, 90215, 90580, 90945, 91310, 91676,
    92041, 92406, 92771, 93137, 93502, 93867, 94232, 94598, 94963, 95328, 95693, 96059, 96424,
    96789, 97154, 97520, 97885, 98250, 98615, 98981, 99346, 99711, 100076, 100442, 100807,
    101172, 101537, 101903, 102268, 102633, 102998, 103364, 103729, 104094, 104459, 104825,
    105190, 105555, 105920, 106286, 106651, 107016, 107381, 107747, 108112, 108477, 108842,
    109208, 109573, 109938, 110303, 110669, 111034, 111399, 111764, 112130, 112495, 112860,
    113225, 113591, 113956, 114321, 114686, 115052, 115417, 115782, 116147, 116513, 116878,
    117243, 117608, 117974, 118339, 118704, 119069, 119435, 119800, 120165, 120530, 120895,
    121260, 121625, 121990, 122356, 122721, 123086, 123451, 123817, 124182, 124547, 124912,
    125278, 125643, 126008, 126373, 126739, 127104, 127469, 127834, 128200, 128565, 128930,
    129295, 129661, 130026, 130391, 130756, 131122, 131487, 131852, 132217, 132583, 132948,
    133313, 133678, 134044, 134409, 134774, 135139, 135505, 135870, 136235, 136600, 136966,
    137331, 137696, 138061, 138427, 138792, 139157, 139522, 139888, 140253, 140618, 140983,
    141349, 141714, 142079, 142444, 142810, 143175, 143540, 143905, 144271, 144636, 145001,
    145366, 145732, 146097]"

section \<open>Operations\<close>

definition MIN_YEAR :: int where "MIN_YEAR = - 290307"
definition MAX_YEAR :: int where "MAX_YEAR = 294247"
definition EPOCH_YEAR :: int where "EPOCH_YEAR = 1970"
definition YEAR_INTERVAL :: int where "YEAR_INTERVAL = 400"
definition DAYS_PER_YEAR_INTERVAL :: int where "DAYS_PER_YEAR_INTERVAL = 146097"

definition at :: "int list \<Rightarrow> int \<Rightarrow> int" where
  "at xs i = xs ! nat i"

definition IsLeapYear :: "int \<Rightarrow> bool" where
  "IsLeapYear year \<longleftrightarrow> year smod 4 = 0 \<and> (year smod 100 \<noteq> 0 \<or> year smod 400 = 0)"

definition IsValid :: "int \<Rightarrow> int \<Rightarrow> int \<Rightarrow> bool" where
  "IsValid year month day =
     (if month < 1 \<or> month > 12 then False
      else if year < MIN_YEAR \<or> year > MAX_YEAR then False
      else if day < 1 then False
      else if IsLeapYear year then day \<le> at LEAP_DAYS month else day \<le> at NORMAL_DAYS month)"

definition MonthDays :: "int \<Rightarrow> int \<Rightarrow> int" where
  "MonthDays year month = (if IsLeapYear year then at LEAP_DAYS month else at NORMAL_DAYS month)"

text \<open>The loops of \<open>ExtractYearOffset\<close> and \<open>FromDate\<close>.\<close>

function daysUp :: "int \<Rightarrow> int \<Rightarrow> int \<times> int" where
  "daysUp n year = (if n < 0 then daysUp (n + DAYS_PER_YEAR_INTERVAL) (year - YEAR_INTERVAL) else (n, year))"
  by pat_completeness auto
termination
  by (relation "measure (\<lambda>(n, y). nat (- n))") (auto simp: DAYS_PER_YEAR_INTERVAL_def)

function daysDown :: "int \<Rightarrow> int \<Rightarrow> int \<times> int" where
  "daysDown n year =
     (if n \<ge> DAYS_PER_YEAR_INTERVAL then daysDown (n - DAYS_PER_YEAR_INTERVAL) (year + YEAR_INTERVAL)
      else (n, year))"
  by pat_completeness auto
termination
  by (relation "measure (\<lambda>(n, y). nat n)") (auto simp: DAYS_PER_YEAR_INTERVAL_def)

function yearUp :: "int \<Rightarrow> int \<Rightarrow> int \<times> int" where
  "yearUp year n =
     (if year < 1970 then yearUp (year + YEAR_INTERVAL) (n - DAYS_PER_YEAR_INTERVAL) else (year, n))"
  by pat_completeness auto
termination
  by (relation "measure (\<lambda>(y, n). nat (1970 - y))") (auto simp: YEAR_INTERVAL_def)

function yearDown :: "int \<Rightarrow> int \<Rightarrow> int \<times> int" where
  "yearDown year n =
     (if year \<ge> 2370 then yearDown (year - YEAR_INTERVAL) (n + DAYS_PER_YEAR_INTERVAL) else (year, n))"
  by pat_completeness auto
termination
  by (relation "measure (\<lambda>(y, n). nat (y - 1969))") (auto simp: YEAR_INTERVAL_def)

declare daysUp.simps [simp del] daysDown.simps [simp del] yearUp.simps [simp del] yearDown.simps [simp del]

text \<open>The search downwards from \<open>n / 365\<close>; the assertion in its body fails below 0.\<close>

fun yearSearch :: "int \<Rightarrow> nat \<Rightarrow> nat result" where
  "yearSearch n off =
     (if n < CUMULATIVE_YEAR_DAYS ! off
      then (case off of 0 \<Rightarrow> Inl (BaseException ''GF_ASSERT'') | Suc o1 \<Rightarrow> yearSearch n o1)
      else Inr off)"

declare yearSearch.simps [simp del]

text \<open>The values are the normalised day number, the year and the year's offset in the 400-year interval.\<close>

definition ExtractYearOffset :: "int \<Rightarrow> (int \<times> int \<times> int) result" where
  "ExtractYearOffset n0 =
     (let (n1, y1) = daysUp n0 EPOCH_YEAR; (n, y) = daysDown n1 y1
      in bind_result (yearSearch n (nat (n sdiv 365))) (\<lambda>off. Inr (n, y + int off, int off)))"

definition Convert :: "int \<Rightarrow> (int \<times> int \<times> int) result" where
  "Convert d =
     bind_result (ExtractYearOffset d) (\<lambda>(n, year, off).
       let day0 = n - at CUMULATIVE_YEAR_DAYS off;
           isLeap = (at CUMULATIVE_YEAR_DAYS (off + 1) - at CUMULATIVE_YEAR_DAYS off = 366);
           month = (if isLeap then at LEAP_MONTH_PER_DAY_OF_YEAR day0 else at MONTH_PER_DAY_OF_YEAR day0);
           day = day0 - (if isLeap then at CUMULATIVE_LEAP_DAYS (month - 1) else at CUMULATIVE_DAYS (month - 1)) + 1
       in if \<not> (day0 \<ge> 0 \<and> day0 \<le> 365) \<or>
             \<not> (day > 0 \<and> day \<le> (if isLeap then at LEAP_DAYS month else at NORMAL_DAYS month)) \<or>
             \<not> (month > 0 \<and> month \<le> 12)
          then Inl (BaseException ''GF_ASSERT'') else Inr (year, month, day))"

definition FromDate :: "int \<Rightarrow> int \<Rightarrow> int \<Rightarrow> int result" where
  "FromDate year month day =
     (if \<not> IsValid year month day then Inl (ConversionException ''Date out of range'')
      else let (y1, n1) = yearUp year 0; (y, n) = yearDown y1 n1
           in Inr (n + at CUMULATIVE_YEAR_DAYS (y - 1970) +
                   (if IsLeapYear y then at CUMULATIVE_LEAP_DAYS (month - 1) else at CUMULATIVE_DAYS (month - 1)) +
                   (day - 1)))"

record interval_t =
  months :: int
  interval_days :: int
  micros :: int

definition MICROS_PER_DAY :: int where "MICROS_PER_DAY = 86400000000"

definition date_plus_interval :: "int \<Rightarrow> interval_t \<Rightarrow> int result" where
  "date_plus_interval d i =
     bind_result
       (if months i \<noteq> 0
        then bind_result (Convert d) (\<lambda>(year, month, day).
          let year_diff = months i sdiv 12;
              year1 = year + year_diff;
              month1 = month + (months i - year_diff * 12);
              (year2, month2) = (if month1 > 12 then (year1 + 1, month1 - 12)
                                 else if month1 \<le> 0 then (year1 - 1, month1 + 12) else (year1, month1));
              maxDayInMonth = MonthDays year2 month2;
              day1 = (if day > maxDayInMonth then maxDayInMonth else day)
          in FromDate year2 month2 day1)
        else Inr d)
       (\<lambda>r. Inr (r + (if interval_days i \<noteq> 0 then interval_days i else 0) +
                 (if micros i \<noteq> 0 then micros i sdiv MICROS_PER_DAY else 0)))"

definition date_minus_interval :: "int \<Rightarrow> interval_t \<Rightarrow> int result" where
  "date_minus_interval d i =
     date_plus_interval d \<lparr>months = - months i, interval_days = - interval_days i, micros = - micros i\<rparr>"

definition dayNames :: "string list" where
  "dayNames = [''Sunday'', ''Monday'', ''Tuesday'', ''Wednesday'', ''Thursday'', ''Friday'', ''Saturday'']"

definition getDayName :: "int \<Rightarrow> string" where
  "getDayName d =
     dayNames ! nat ((if d < 0 then 7 - ((- d + 3) smod 7) else ((d + 3) smod 7) + 1) smod 7)"

definition monthNames :: "string list" where
  "monthNames = [''January'', ''February'', ''March'', ''April'', ''May'', ''June'', ''July'', ''August'',
     ''September'', ''October'', ''November'', ''December'']"

definition getMonthName :: "int \<Rightarrow> string result" where
  "getMonthName d = bind_result (Convert d) (\<lambda>(_, month, _). Inr (monthNames ! nat (month - 1)))"

definition getLastDay :: "int \<Rightarrow> int result" where
  "getLastDay d = bind_result (Convert d) (\<lambda>(year, month, _).
     bind_result (FromDate (year + month sdiv 12) (month smod 12 + 1) 1) (\<lambda>r. Inr (r - 1)))"

datatype DatePartSpecifier =
    YEAR | MONTH | DAY | DECADE | CENTURY | MILLENNIUM | QUARTER
  | MICROSECOND | MILLISECOND | SECOND | MINUTE | HOUR

text \<open>
  \<open>getDatePart\<close> takes the date by reference; for YEAR it hands \<open>date.days\<close> to \<open>ExtractYearOffset\<close>, which
  normalises it in place.  The second component of the value is the date after the call.
\<close>

definition getDatePart :: "DatePartSpecifier \<Rightarrow> int \<Rightarrow> (int \<times> int) result" where
  "getDatePart spec d =
     bind_result (Convert d) (\<lambda>(year, month, day).
       case spec of
         YEAR \<Rightarrow> bind_result (ExtractYearOffset d) (\<lambda>(n, y, off). Inr (y, n))
       | MONTH \<Rightarrow> Inr (month, d)
       | DAY \<Rightarrow> Inr (day, d)
       | DECADE \<Rightarrow> Inr (year sdiv 10, d)
       | CENTURY \<Rightarrow> Inr (if year > 0 then (year - 1) sdiv 100 + 1 else year sdiv 100 - 1, d)
       | MILLENNIUM \<Rightarrow> Inr (if year > 0 then (year - 1) sdiv 1000 + 1 else year sdiv 1000 - 1, d)
       | QUARTER \<Rightarrow> Inr ((month - 1) sdiv 3 + 1, d)
       | _ \<Rightarrow> Inr (0, d))"

text \<open>
  \<open>trunc\<close>: the value and the date after the call.  In the MONTH case the two calls of \<open>getDatePart\<close> are arguments
  of one call, so their order is unspecified; the model evaluates the year first.
\<close>

definition trunc_date :: "DatePartSpecifier \<Rightarrow> int \<Rightarrow> (int \<times> int) result" where
  "trunc_date spec d =
     (case spec of
        YEAR \<Rightarrow> bind_result (getDatePart YEAR d) (\<lambda>(y, d1).
                  bind_result (FromDate y 1 1) (\<lambda>r. Inr (r, d1)))
      | MONTH \<Rightarrow> bind_result (getDatePart YEAR d) (\<lambda>(y, d1).
                  bind_result (getDatePart MONTH d1) (\<lambda>(m, d2).
                  bind_result (FromDate y m 1) (\<lambda>r. Inr (r, d2))))
      | DAY \<Rightarrow> Inr (d, d)
      | DECADE \<Rightarrow> bind_result (getDatePart YEAR d) (\<lambda>(y, d1).
                  bind_result (FromDate (y sdiv 10 * 10) 1 1) (\<lambda>r. Inr (r, d1)))
      | CENTURY \<Rightarrow> bind_result (getDatePart YEAR d) (\<lambda>(y, d1).
                  bind_result (FromDate (y sdiv 100 * 100) 1 1) (\<lambda>r. Inr (r, d1)))
      | MILLENNIUM \<Rightarrow> bind_result (getDatePart YEAR d) (\<lambda>(y, d1).
                  bind_result (FromDate (y sdiv 1000 * 1000) 1 1) (\<lambda>r. Inr (r, d1)))
      | QUARTER \<Rightarrow> bind_result (Convert d) (\<lambda>(y, m, _).
                  bind_result (FromDate y (1 + ((m - 1) sdiv 3) * 3) 1) (\<lambda>r. Inr (r, d)))
      | _ \<Rightarrow> Inr (d, d))"

section \<open>Text\<close>

definition CharacterIsSpace :: "char \<Rightarrow> bool" where
  "CharacterIsSpace c \<longleftrightarrow> c \<in> {CHR '' '', CHR 0x09, CHR 0x0A, CHR 0x0B, CHR 0x0C, CHR 0x0D}"

definition CharacterIsDigit :: "char \<Rightarrow> bool" where
  "CharacterIsDigit c \<longleftrightarrow> 48 \<le> (of_char c :: nat) \<and> (of_char c :: nat) \<le> 57"

definition digitValue :: "char \<Rightarrow> int" where
  "digitValue c = of_char c - 48"

text \<open>The position in the buffer is the part of the string that is left.\<close>

definition ParseDoubleDigit :: "string \<Rightarrow> (int \<times> string) option" where
  "ParseDoubleDigit s =
     (case s of
        [] \<Rightarrow> None
      | c # r \<Rightarrow> if CharacterIsDigit c
          then (case r of
                  [] \<Rightarrow> Some (digitValue c, r)
                | c2 # r2 \<Rightarrow> if CharacterIsDigit c2 then Some (digitValue c2 + digitValue c * 10, r2)
                             else Some (digitValue c, r))
          else None)"

fun parseYear :: "int \<Rightarrow> string \<Rightarrow> int \<times> string" where
  "parseYear year [] = (year, [])"
| "parseYear year (c # r) =
     (if CharacterIsDigit c
      then let y = digitValue c + year * 10 in if y > MAX_YEAR then (y, c # r) else parseYear y r
      else (year, c # r))"

text \<open>Outer: the exception of \<open>FromDate\<close>; inner: None is the return value false.\<close>

definition TryConvertDate :: "string \<Rightarrow> int option result" where
  "TryConvertDate buf =
     (let s = dropWhile CharacterIsSpace buf
      in if s = [] \<or> \<not> CharacterIsDigit (hd s) then Inr None
         else case parseYear 0 s of
           (year, []) \<Rightarrow> Inr None
         | (year, sep # s1) \<Rightarrow>
             if sep \<notin> {CHR '' '', CHR ''-'', CHR ''/'', CHR 0x5C} then Inr None
             else case ParseDoubleDigit s1 of
               None \<Rightarrow> Inr None
             | Some (month, s2) \<Rightarrow>
                 (case s2 of
                    [] \<Rightarrow> Inr None
                  | c # s3 \<Rightarrow>
                      if c \<noteq> sep \<or> s3 = [] then Inr None
                      else case ParseDoubleDigit s3 of
                        None \<Rightarrow> Inr None
                      | Some (day, s4) \<Rightarrow>
                          if dropWhile CharacterIsSpace s4 \<noteq> [] then Inr None
                          else bind_result (FromDate year month day) (\<lambda>d. Inr (Some d))))"

definition FromCString :: "string \<Rightarrow> int result" where
  "FromCString buf = bind_result (TryConvertDate buf) (\<lambda>r.
     case r of None \<Rightarrow> Inl (ConversionException ''date string is not in expected format of (YYYY-MM-DD)'')
             | Some d \<Rightarrow> Inr d)"

definition digits :: string where
  "digits = ''0001020304050607080910111213141516171819'' @
            ''2021222324252627282930313233343536373839'' @
            ''4041424344454647484950515253545556575859'' @
            ''6061626364656667686970717273747576777879'' @
            ''8081828384858687888990919293949596979899''"

text \<open>The characters written before the end pointer, in reading order.\<close>

fun FormatUnsigned :: "nat \<Rightarrow> string" where
  "FormatUnsigned v =
     (if v \<ge> 100 then FormatUnsigned (v div 100) @ [digits ! (v mod 100 * 2), digits ! (v mod 100 * 2 + 1)]
      else if v < 10 then [char_of (48 + v)]
      else [digits ! (v * 2), digits ! (v * 2 + 1)])"

declare FormatUnsigned.simps [simp del]

definition formatTwoDigits :: "int \<Rightarrow> string" where
  "formatTwoDigits v =
     (if v < 10 then [CHR ''0'', char_of (48 + nat v)] else [digits ! (nat v * 2), digits ! (nat v * 2 + 1)])"

definition yearLength :: "int \<Rightarrow> nat" where
  "yearLength y = 4 + of_bool (y \<ge> 10000) + of_bool (y \<ge> 100000) + of_bool (y \<ge> 1000000) + of_bool (y \<ge> 10000000)"

definition DateToStringCast :: "int \<Rightarrow> int \<Rightarrow> int \<Rightarrow> string" where
  "DateToStringCast y m d =
     (let add_bc = (y \<le> 0); y1 = (if add_bc then - y + 1 else y);
          ys = FormatUnsigned (nat y1)
      in replicate (yearLength y1 - length ys) (CHR ''0'') @ ys @
         [CHR ''-''] @ formatTwoDigits m @ [CHR ''-''] @ formatTwoDigits d @
         (if add_bc then '' (BC)'' else []))"

definition toString :: "int \<Rightarrow> string result" where
  "toString d = bind_result (Convert d) (\<lambda>(y, m, dd). Inr (DateToStringCast y m dd))"

section \<open>What the tables hold\<close>

definition leap :: "int \<Rightarrow> bool" where
  "leap y \<longleftrightarrow> y mod 4 = 0 \<and> (y mod 100 \<noteq> 0 \<or> y mod 400 = 0)"

lemma year_table:
  "list_all (\<lambda>(k, a, b). 365 * k \<le> a \<and> (b - a = (if leap (1970 + k) then 366 else 365)))
     (zip [0..399] (zip CUMULATIVE_YEAR_DAYS (tl CUMULATIVE_YEAR_DAYS)))"
  by code_simp

lemma year_table_length: "length CUMULATIVE_YEAR_DAYS = 401" "CUMULATIVE_YEAR_DAYS ! 0 = 0" "CUMULATIVE_YEAR_DAYS ! 400 = 146097"
  by code_simp+

text \<open>
  A month table maps the day of the year to its month: day numbers from the month's first day up to its
  length.  The check runs over all months and all days of the year.
\<close>

definition month_table_ok :: "int list \<Rightarrow> int list \<Rightarrow> int list \<Rightarrow> bool" where
  "month_table_ok tab cum len \<longleftrightarrow>
     list_all (\<lambda>m. list_all (\<lambda>d. tab ! nat (cum ! nat (m - 1) + d - 1) = m) [1..len ! nat m] \<and>
        0 \<le> cum ! nat (m - 1) \<and> cum ! nat (m - 1) + len ! nat m \<le> int (length tab)) [1..12] \<and>
     list_all (\<lambda>(t, m). 1 \<le> m \<and> m \<le> 12 \<and> cum ! nat (m - 1) \<le> t \<and> t < cum ! nat (m - 1) + len ! nat m)
       (zip [0..int (length tab) - 1] tab)"

lemma month_tables_ok:
  "month_table_ok MONTH_PER_DAY_OF_YEAR CUMULATIVE_DAYS NORMAL_DAYS"
  "month_table_ok LEAP_MONTH_PER_DAY_OF_YEAR CUMULATIVE_LEAP_DAYS LEAP_DAYS"
  "length MONTH_PER_DAY_OF_YEAR = 365" "length LEAP_MONTH_PER_DAY_OF_YEAR = 366"
  by code_simp+

lemma month_table_at:
  assumes "month_table_ok tab cum len" and "1 \<le> m" "m \<le> 12" and "1 \<le> d" "d \<le> at len m"
  shows "at tab (at cum (m - 1) + d - 1) = m" and "0 \<le> at cum (m - 1)"
    and "at cum (m - 1) + d - 1 < int (length tab)"
proof -
  have "list_all (\<lambda>d. tab ! nat (cum ! nat (m - 1) + d - 1) = m) [1..len ! nat m] \<and>
        0 \<le> cum ! nat (m - 1) \<and> cum ! nat (m - 1) + len ! nat m \<le> int (length tab)"
    using assms(1-3) unfolding month_table_ok_def list_all_iff by force
  then show "at tab (at cum (m - 1) + d - 1) = m" "0 \<le> at cum (m - 1)"
    "at cum (m - 1) + d - 1 < int (length tab)"
    using assms(4,5) by (auto simp: list_all_iff at_def)
qed

lemma month_table_inv:
  assumes "month_table_ok tab cum len" and "0 \<le> t" "t < int (length tab)"
  shows "1 \<le> at tab t \<and> at tab t \<le> 12 \<and> at cum (at tab t - 1) \<le> t \<and>
         t < at cum (at tab t - 1) + at len (at tab t)"
proof -
  have "(t, at tab t) \<in> set (zip [0..int (length tab) - 1] tab)"
    using assms(2,3) by (auto simp: in_set_zip at_def nth_upto intro!: exI[of _ "nat t"])
  then show ?thesis
    using assms(1) unfolding month_table_ok_def list_all_iff by (auto simp: at_def)
qed

lemma year_table_at:
  assumes "0 \<le> k" "k < 400"
  shows "365 * k \<le> at CUMULATIVE_YEAR_DAYS k"
    and "at CUMULATIVE_YEAR_DAYS (k + 1) - at CUMULATIVE_YEAR_DAYS k = (if leap (1970 + k) then 366 else 365)"
proof -
  have "nat k < length CUMULATIVE_YEAR_DAYS - 1" using assms year_table_length(1) by simp
  then have "(k, at CUMULATIVE_YEAR_DAYS k, at CUMULATIVE_YEAR_DAYS (k + 1)) \<in>
      set (zip [0..399] (zip CUMULATIVE_YEAR_DAYS (tl CUMULATIVE_YEAR_DAYS)))"
    using assms year_table_length(1)
    by (auto simp: in_set_zip at_def nth_tl nat_add_distrib intro!: exI[of _ "nat k"])
  then show "365 * k \<le> at CUMULATIVE_YEAR_DAYS k"
    and "at CUMULATIVE_YEAR_DAYS (k + 1) - at CUMULATIVE_YEAR_DAYS k = (if leap (1970 + k) then 366 else 365)"
    using year_table unfolding list_all_iff by auto
qed

lemma year_table_ends: "at CUMULATIVE_YEAR_DAYS 0 = 0" "at CUMULATIVE_YEAR_DAYS 400 = 146097"
  using year_table_length by (simp_all add: at_def)

lemma year_table_mono: "0 \<le> i \<Longrightarrow> i \<le> j \<Longrightarrow> j \<le> 400 \<Longrightarrow> at CUMULATIVE_YEAR_DAYS i + 365 * (j - i) \<le> at CUMULATIVE_YEAR_DAYS j"
proof (induction "nat (j - i)" arbitrary: j)
  case (Suc n)
  then have "at CUMULATIVE_YEAR_DAYS i + 365 * ((j - 1) - i) \<le> at CUMULATIVE_YEAR_DAYS (j - 1)"
    by (intro Suc.hyps(1)) auto
  moreover have "0 < j" using Suc.hyps(2) Suc.prems by linarith
  moreover from this have "at CUMULATIVE_YEAR_DAYS (j - 1) + 365 \<le> at CUMULATIVE_YEAR_DAYS j"
    using year_table_at(2)[of "j - 1"] Suc.prems by (cases "leap (1970 + (j - 1))") auto
  ultimately show ?case by simp
qed simp

lemma smod_zero_iff: "(y :: int) smod k = 0 \<longleftrightarrow> y mod k = 0"
  by (auto simp: smod_int_alt_def sgn_0_0 mod_eq_0_iff_dvd)

lemma IsLeapYear_leap: "IsLeapYear y = leap y"
  by (simp add: IsLeapYear_def leap_def smod_zero_iff)

lemma leap_period: "leap (y + 400 * k) = leap y"
proof -
  have "400 * k = 4 * (100 * k)" "400 * k = 100 * (4 * k)" by simp_all
  then have "(y + 400 * k) mod 4 = y mod 4" "(y + 400 * k) mod 100 = y mod 100" "(y + 400 * k) mod 400 = y mod 400"
    by (metis mod_mult_self2)+
  then show ?thesis by (simp add: leap_def)
qed

section \<open>The loops\<close>

lemma daysUp_spec: "n < 0 \<Longrightarrow> daysUp n y = (n mod 146097, y + 400 * (n div 146097))"
proof (induction n y rule: daysUp.induct)
  case (1 n y)
  have step: "daysUp n y = daysUp (n + 146097) (y - 400)"
    using 1(2) by (subst daysUp.simps) (simp add: DAYS_PER_YEAR_INTERVAL_def YEAR_INTERVAL_def)
  have shift: "(n + 146097) mod 146097 = n mod 146097" "(n + 146097) div 146097 = n div 146097 + 1" by simp_all
  show ?case
  proof (cases "n + 146097 < 0")
    case True
    then show ?thesis
      using 1 step shift by (simp add: DAYS_PER_YEAR_INTERVAL_def YEAR_INTERVAL_def)
  next
    case False
    then have "n + 146097 = n mod 146097" "n div 146097 = - 1"
      using 1(2) shift mod_pos_pos_trivial[of "n + 146097" 146097] div_pos_pos_trivial[of "n + 146097" 146097] by auto
    then show ?thesis using False step by (subst step, subst daysUp.simps) simp
  qed
qed

lemma daysUp_nonneg: "0 \<le> n \<Longrightarrow> daysUp n y = (n, y)"
  by (subst daysUp.simps) simp

lemma daysDown_spec: "0 \<le> n \<Longrightarrow> daysDown n y = (n mod 146097, y + 400 * (n div 146097))"
proof (induction n y rule: daysDown.induct)
  case (1 n y)
  show ?case
  proof (cases "n \<ge> 146097")
    case True
    have step: "daysDown n y = daysDown (n - 146097) (y + 400)"
      using True by (subst daysDown.simps) (simp add: DAYS_PER_YEAR_INTERVAL_def YEAR_INTERVAL_def)
    have "(n - 146097) mod 146097 = n mod 146097" "(n - 146097) div 146097 = n div 146097 - 1"
      using mod_add_self2[of "n - 146097" 146097] div_add_self2[of 146097 "n - 146097"] by simp_all
    then show ?thesis using 1 True step by (simp add: DAYS_PER_YEAR_INTERVAL_def YEAR_INTERVAL_def)
  next
    case False
    then show ?thesis
      using 1(2) by (subst daysDown.simps) (simp add: DAYS_PER_YEAR_INTERVAL_def)
  qed
qed

lemma normalise_days:
  "(let (n1, y1) = daysUp n y; (n2, y2) = daysDown n1 y1 in (n2, y2)) = (n mod 146097, y + 400 * (n div 146097))"
proof (cases "n < 0")
  case True
  have "0 \<le> n mod 146097" "n mod 146097 < 146097" by simp_all
  then show ?thesis
    using daysUp_spec[OF True, of y] daysDown_spec[of "n mod 146097" "y + 400 * (n div 146097)"] by simp
qed (simp add: daysUp_nonneg daysDown_spec)

lemma yearUp_spec: "yearUp y n = (if y < 1970 then (1970 + (y - 1970) mod 400, n + 146097 * ((y - 1970) div 400)) else (y, n))"
proof (induction y n rule: yearUp.induct)
  case (1 y n)
  show ?case
  proof (cases "y < 1970")
    case True
    have step: "yearUp y n = yearUp (y + 400) (n - 146097)"
      using True by (subst yearUp.simps) (simp add: DAYS_PER_YEAR_INTERVAL_def YEAR_INTERVAL_def)
    have shift: "(y + 400 - 1970) mod 400 = (y - 1970) mod 400" "(y + 400 - 1970) div 400 = (y - 1970) div 400 + 1"
      using mod_add_self2[of "y - 1970" 400] div_add_self2[of 400 "y - 1970"] by (simp_all add: algebra_simps)
    show ?thesis
    proof (cases "y + 400 < 1970")
      case True
      then show ?thesis
        using 1 step shift \<open>y < 1970\<close> by (simp add: DAYS_PER_YEAR_INTERVAL_def YEAR_INTERVAL_def)
    next
      case False
      then have "(y + 400 - 1970) mod 400 = y + 400 - 1970" "(y + 400 - 1970) div 400 = 0"
        using True by (auto intro: mod_pos_pos_trivial div_pos_pos_trivial)
      then show ?thesis using False True shift by (subst step, subst yearUp.simps) simp
    qed
  qed (subst yearUp.simps, simp)
qed

lemma yearDown_spec: "1970 \<le> y \<Longrightarrow> yearDown y n = (1970 + (y - 1970) mod 400, n + 146097 * ((y - 1970) div 400))"
proof (induction y n rule: yearDown.induct)
  case (1 y n)
  show ?case
  proof (cases "y \<ge> 2370")
    case True
    have step: "yearDown y n = yearDown (y - 400) (n + 146097)"
      using True by (subst yearDown.simps) (simp add: DAYS_PER_YEAR_INTERVAL_def YEAR_INTERVAL_def)
    have "(y - 400 - 1970) mod 400 = (y - 1970) mod 400" "(y - 400 - 1970) div 400 = (y - 1970) div 400 - 1"
      using mod_add_self2[of "y - 2370" 400] div_add_self2[of 400 "y - 2370"] by (simp_all add: algebra_simps)
    then show ?thesis using 1 True step by (simp add: DAYS_PER_YEAR_INTERVAL_def YEAR_INTERVAL_def)
  next
    case False
    then show ?thesis using 1(2) by (subst yearDown.simps) simp
  qed
qed

lemma normalise_years:
  "(let (y1, n1) = yearUp y 0; (y2, n2) = yearDown y1 n1 in (y2, n2)) =
     (1970 + (y - 1970) mod 400, 146097 * ((y - 1970) div 400))"
proof (cases "y < 1970")
  case True
  have "0 \<le> (y - 1970) mod 400" "(y - 1970) mod 400 < 400" by simp_all
  then show ?thesis
    using True yearUp_spec[of y 0]
      yearDown_spec[of "1970 + (y - 1970) mod 400" "146097 * ((y - 1970) div 400)"] by simp
qed (simp add: yearUp_spec yearDown_spec)

lemma yearSearch_spec:
  assumes "0 \<le> n" and "off < 400" and "n < at CUMULATIVE_YEAR_DAYS (int off + 1)"
  shows "\<exists>k \<le> off. yearSearch n off = Inr k \<and> at CUMULATIVE_YEAR_DAYS (int k) \<le> n \<and>
           n < at CUMULATIVE_YEAR_DAYS (int k + 1)"
  using assms
proof (induction off)
  case 0
  then show ?case using year_table_ends by (subst yearSearch.simps) (simp add: at_def)
next
  case (Suc off)
  show ?case
  proof (cases "n < CUMULATIVE_YEAR_DAYS ! Suc off")
    case True
    then have "n < at CUMULATIVE_YEAR_DAYS (int off + 1)" by (simp add: at_def nat_add_distrib)
    then obtain k where "k \<le> off" "yearSearch n off = Inr k \<and> at CUMULATIVE_YEAR_DAYS (int k) \<le> n \<and>
           n < at CUMULATIVE_YEAR_DAYS (int k + 1)" using Suc by auto
    then show ?thesis using True by (intro exI[of _ k]) (subst yearSearch.simps, simp)
  next
    case False
    have "nat (1 + int off) = Suc off" by simp
    then show ?thesis using False Suc.prems
      by (intro exI[of _ "Suc off"]) (subst yearSearch.simps, simp add: at_def)
  qed
qed

lemma year_unique:
  assumes "0 \<le> j" "j < 400" "0 \<le> k" "k < 400"
    and "at CUMULATIVE_YEAR_DAYS j \<le> n" "n < at CUMULATIVE_YEAR_DAYS (j + 1)"
    and "at CUMULATIVE_YEAR_DAYS k \<le> n" "n < at CUMULATIVE_YEAR_DAYS (k + 1)"
  shows "j = k"
proof (rule ccontr)
  assume "j \<noteq> k"
  then consider "j + 1 \<le> k" | "k + 1 \<le> j" by linarith
  then show False
  proof cases
    case 1
    then show False using year_table_mono[of "j + 1" k] assms by simp
  next
    case 2
    then show False using year_table_mono[of "k + 1" j] assms by simp
  qed
qed

lemma ExtractYearOffset_spec:
  "\<exists>k. 0 \<le> k \<and> k < 400 \<and>
     ExtractYearOffset d = Inr (d mod 146097, 1970 + 400 * (d div 146097) + k, k) \<and>
     at CUMULATIVE_YEAR_DAYS k \<le> d mod 146097 \<and> d mod 146097 < at CUMULATIVE_YEAR_DAYS (k + 1)"
proof -
  let ?n = "d mod 146097"
  have n: "0 \<le> ?n" "?n < 146097" by simp_all
  have sd: "?n sdiv 365 = ?n div 365" using n
    by (cases "?n = 0") (auto simp: signed_divide_int_def sgn_if)
  let ?off = "nat (?n div 365)"
  have q: "0 \<le> ?n div 365" "365 * (?n div 365) \<le> ?n" "?n < 365 * (?n div 365) + 365" "?n div 365 \<le> 400"
    using n by (auto simp: pos_imp_zdiv_nonneg_iff)
  obtain k where k: "k < 400" "yearSearch ?n ?off = Inr k" "at CUMULATIVE_YEAR_DAYS (int k) \<le> ?n"
      "?n < at CUMULATIVE_YEAR_DAYS (int k + 1)"
  proof (cases "?n div 365 < 400")
    case True
    have "365 * (?n div 365 + 1) \<le> at CUMULATIVE_YEAR_DAYS (?n div 365 + 1)"
      using year_table_at(1)[of "?n div 365 + 1"] True q(1) year_table_ends(2)
      by (cases "?n div 365 + 1 = 400") auto
    then have "?n < at CUMULATIVE_YEAR_DAYS (int ?off + 1)" using q by simp
    moreover have "?off < 400" using True q(1) by linarith
    ultimately obtain k where "k \<le> ?off" "yearSearch ?n ?off = Inr k" "at CUMULATIVE_YEAR_DAYS (int k) \<le> ?n"
        "?n < at CUMULATIVE_YEAR_DAYS (int k + 1)"
      using yearSearch_spec[OF n(1)] by blast
    then show ?thesis using that \<open>?off < 400\<close> by (meson le_less_trans)
  next
    case False
    then have off: "?off = 400" using q(4) by simp
    have "CUMULATIVE_YEAR_DAYS ! 400 > ?n" using year_table_length(3) n(2) by simp
    then have "yearSearch ?n 400 = yearSearch ?n 399" by (subst yearSearch.simps) (simp add: numeral_eq_Suc)
    moreover have "?n < at CUMULATIVE_YEAR_DAYS (int 399 + 1)" using year_table_ends(2) n(2) by simp
    moreover obtain k where "k \<le> 399" "yearSearch ?n 399 = Inr k" "at CUMULATIVE_YEAR_DAYS (int k) \<le> ?n"
        "?n < at CUMULATIVE_YEAR_DAYS (int k + 1)"
      using yearSearch_spec[OF n(1) _ calculation(2)] by auto
    ultimately show ?thesis using that[of k] off by simp
  qed
  have "ExtractYearOffset d = Inr (?n, 1970 + 400 * (d div 146097) + int k, int k)"
    using normalise_days[of d 1970] k(2) sd
    by (auto simp: ExtractYearOffset_def EPOCH_YEAR_def Let_def split_beta prod_eq_iff split: prod.splits)
  then show ?thesis using k by (intro exI[of _ "int k"]) simp
qed

definition month_len :: "int \<Rightarrow> int \<Rightarrow> int" where
  "month_len y m = (if leap y then at LEAP_DAYS m else at NORMAL_DAYS m)"

definition days_before :: "int \<Rightarrow> int \<Rightarrow> int" where
  "days_before y m = (if leap y then at CUMULATIVE_LEAP_DAYS (m - 1) else at CUMULATIVE_DAYS (m - 1))"

definition month_of_day :: "int \<Rightarrow> int \<Rightarrow> int" where
  "month_of_day y t = (if leap y then at LEAP_MONTH_PER_DAY_OF_YEAR t else at MONTH_PER_DAY_OF_YEAR t)"

definition year_len :: "int \<Rightarrow> int" where
  "year_len y = (if leap y then 366 else 365)"

lemma month_of_day_at:
  assumes "1 \<le> m" "m \<le> 12" "1 \<le> d" "d \<le> month_len y m"
  shows "month_of_day y (days_before y m + d - 1) = m" and "0 \<le> days_before y m + d - 1"
    and "days_before y m + d - 1 < year_len y"
  using month_table_at[OF month_tables_ok(1) assms(1-3)] month_table_at[OF month_tables_ok(2) assms(1-3)] assms(3,4)
    month_tables_ok(3,4)
  by (cases "leap y"; force simp: month_of_day_def days_before_def month_len_def year_len_def)+

lemma month_of_day_inv:
  assumes "0 \<le> t" "t < year_len y"
  shows "1 \<le> month_of_day y t \<and> month_of_day y t \<le> 12 \<and> days_before y (month_of_day y t) \<le> t \<and>
         t < days_before y (month_of_day y t) + month_len y (month_of_day y t)"
  using month_table_inv[OF month_tables_ok(1) assms(1)] month_table_inv[OF month_tables_ok(2) assms(1)] assms(2)
    month_tables_ok(3,4)
  by (cases "leap y") (auto simp: month_of_day_def days_before_def month_len_def year_len_def)

lemma month_len_pos: "1 \<le> m \<Longrightarrow> m \<le> 12 \<Longrightarrow> 1 \<le> month_len y m"
proof -
  have "list_all (\<lambda>m. 1 \<le> LEAP_DAYS ! nat m \<and> 1 \<le> NORMAL_DAYS ! nat m) [1..12]" by code_simp
  then show "1 \<le> m \<Longrightarrow> m \<le> 12 \<Longrightarrow> 1 \<le> month_len y m" by (auto simp: list_all_iff month_len_def at_def)
qed

lemma IsValid_iff:
  "IsValid y m d \<longleftrightarrow> 1 \<le> m \<and> m \<le> 12 \<and> MIN_YEAR \<le> y \<and> y \<le> MAX_YEAR \<and> 1 \<le> d \<and> d \<le> month_len y m"
  by (auto simp: IsValid_def month_len_def IsLeapYear_leap)

text \<open>Both conversions in closed form, over the year's position in the 400-year interval.\<close>

lemma FromDate_spec:
  assumes "IsValid y m d"
  shows "FromDate y m d = Inr (146097 * ((y - 1970) div 400) + at CUMULATIVE_YEAR_DAYS ((y - 1970) mod 400) +
           (days_before y m + d - 1))"
proof -
  have "leap (1970 + (y - 1970) mod 400) = leap y"
    using leap_period[of "1970 + (y - 1970) mod 400" "(y - 1970) div 400"] by (simp add: algebra_simps)
  then show ?thesis
    using assms normalise_years[of y]
    by (auto simp: FromDate_def Let_def split_beta prod_eq_iff IsLeapYear_leap days_before_def split: prod.splits)
qed

lemma Convert_spec:
  "\<exists>k y. 0 \<le> k \<and> k < 400 \<and> y = 1970 + 400 * (d div 146097) + k \<and>
     at CUMULATIVE_YEAR_DAYS k \<le> d mod 146097 \<and> d mod 146097 < at CUMULATIVE_YEAR_DAYS (k + 1) \<and>
     Convert d = (let t = d mod 146097 - at CUMULATIVE_YEAR_DAYS k
                  in Inr (y, month_of_day y t, t - days_before y (month_of_day y t) + 1))"
proof -
  obtain k where k: "0 \<le> k" "k < 400"
      "ExtractYearOffset d = Inr (d mod 146097, 1970 + 400 * (d div 146097) + k, k)"
      "at CUMULATIVE_YEAR_DAYS k \<le> d mod 146097" "d mod 146097 < at CUMULATIVE_YEAR_DAYS (k + 1)"
    using ExtractYearOffset_spec[of d] by blast
  define y where "y = 1970 + 400 * (d div 146097) + k"
  define t where "t = d mod 146097 - at CUMULATIVE_YEAR_DAYS k"
  have lp: "leap (1970 + k) = leap y"
    using leap_period[of "1970 + k" "d div 146097"] by (simp add: y_def algebra_simps)
  have len: "at CUMULATIVE_YEAR_DAYS (k + 1) - at CUMULATIVE_YEAR_DAYS k = year_len y"
    using year_table_at(2)[OF k(1,2)] lp by (simp add: year_len_def)
  have t: "0 \<le> t" "t < year_len y" using k(4,5) len by (auto simp: t_def)
  note inv = month_of_day_inv[OF t]
  have l366: "year_len y = 366 \<longleftrightarrow> leap y" "year_len y \<le> 366" by (auto simp: year_len_def)
  have "Convert d = Inr (y, month_of_day y t, t - days_before y (month_of_day y t) + 1)"
    using k(3) inv t l366
    unfolding Convert_def bind_result_Inr split_conv Let_def len y_def[symmetric] t_def[symmetric] k(3)
    by (cases "leap y") (auto simp: month_of_day_def days_before_def month_len_def)
  then show ?thesis using k y_def t_def by (intro exI[of _ k] exI[of _ y]) (simp add: Let_def)
qed


lemma month_len_le: "1 \<le> m \<Longrightarrow> m \<le> 12 \<Longrightarrow> days_before y m + month_len y m \<le> year_len y"
  using month_of_day_at(3)[of m "month_len y m" y] month_len_pos[of m y] by simp

text \<open>A valid calendar date is the position of its year, its month and its day: the decomposition is unique.\<close>

lemma Convert_closed:
  assumes "0 \<le> k" "k < 400" "y = 1970 + 400 * q + k" "0 \<le> t" "t < year_len y"
  shows "Convert (146097 * q + at CUMULATIVE_YEAR_DAYS k + t) =
           Inr (y, month_of_day y t, t - days_before y (month_of_day y t) + 1)"
proof -
  let ?d = "146097 * q + at CUMULATIVE_YEAR_DAYS k + t"
  have "leap (1970 + k) = leap y"
    using leap_period[of "1970 + k" q] assms(3) by (simp add: algebra_simps)
  then have len: "at CUMULATIVE_YEAR_DAYS (k + 1) - at CUMULATIVE_YEAR_DAYS k = year_len y"
    using year_table_at(2)[OF assms(1,2)] by (simp add: year_len_def)
  have lo: "0 \<le> at CUMULATIVE_YEAR_DAYS k"
    using year_table_mono[of 0 k] year_table_ends(1) assms by simp
  have hi: "at CUMULATIVE_YEAR_DAYS k + t < 146097"
    using year_table_mono[of "k + 1" 400] year_table_ends(2) assms len by simp
  have m: "?d mod 146097 = at CUMULATIVE_YEAR_DAYS k + t" "?d div 146097 = q"
    using lo hi assms(4) by (simp_all add: add.assoc)
  obtain j where j: "0 \<le> j" "j < 400" "at CUMULATIVE_YEAR_DAYS j \<le> ?d mod 146097"
      "?d mod 146097 < at CUMULATIVE_YEAR_DAYS (j + 1)"
      "Convert ?d = (let t = ?d mod 146097 - at CUMULATIVE_YEAR_DAYS j; y = 1970 + 400 * (?d div 146097) + j
                     in Inr (y, month_of_day y t, t - days_before y (month_of_day y t) + 1))"
    using Convert_spec[of ?d] by (auto simp: Let_def)
  have "j = k" using year_unique[OF j(1,2) assms(1,2) j(3,4)] m assms(4,5) len by simp
  then show ?thesis using j(5) assms(3) unfolding m by (simp add: Let_def)
qed

text \<open>The day number of a calendar date, in closed form.\<close>

definition dayNumber :: "int \<Rightarrow> int \<Rightarrow> int \<Rightarrow> int" where
  "dayNumber y m d = 146097 * ((y - 1970) div 400) + at CUMULATIVE_YEAR_DAYS ((y - 1970) mod 400) +
     (days_before y m + d - 1)"

lemma FromDate_dayNumber: "IsValid y m d \<Longrightarrow> FromDate y m d = Inr (dayNumber y m d)"
  by (simp add: FromDate_spec dayNumber_def)

lemma Convert_valid:
  assumes "IsValid y m d"
  shows "Convert (dayNumber y m d) = Inr (y, m, d)"
proof -
  have v: "1 \<le> m" "m \<le> 12" "1 \<le> d" "d \<le> month_len y m" using assms by (auto simp: IsValid_iff)
  note t = month_of_day_at[OF v]
  have y: "y = 1970 + 400 * ((y - 1970) div 400) + (y - 1970) mod 400" by simp
  show ?thesis using Convert_closed[OF _ _ y t(2,3)] t(1) by (simp add: dayNumber_def)
qed

text \<open>
  C19: the two directions of the calendar conversion.  Every valid year, month and day has a day number, and
  converting that number back gives the same year, month and day.
\<close>

theorem calendar_roundtrip:
  assumes "IsValid y m d"
  shows "\<exists>n. FromDate y m d = Inr n \<and> Convert n = Inr (y, m, d)"
  using assms FromDate_dayNumber Convert_valid by blast

theorem calendar_roundtrip_witness:
  "\<exists>n. FromDate 2024 2 29 = Inr n \<and> Convert n = Inr (2024, 2, 29)"
  by (rule calendar_roundtrip) code_simp

lemma MonthDays_month_len: "MonthDays y m = month_len y m"
  by (simp add: MonthDays_def month_len_def IsLeapYear_leap)

lemma Convert_dayNumber:
  obtains y m dd where "Convert d = Inr (y, m, dd)" "1 \<le> m" "m \<le> 12" "1 \<le> dd" "dd \<le> month_len y m"
    "d = dayNumber y m dd" "ExtractYearOffset d = Inr (d mod 146097, y, (y - 1970) mod 400)"
proof -
  obtain k where k: "0 \<le> k" "k < 400"
      "ExtractYearOffset d = Inr (d mod 146097, 1970 + 400 * (d div 146097) + k, k)"
      "at CUMULATIVE_YEAR_DAYS k \<le> d mod 146097" "d mod 146097 < at CUMULATIVE_YEAR_DAYS (k + 1)"
    using ExtractYearOffset_spec[of d] by blast
  define y where "y = 1970 + 400 * (d div 146097) + k"
  define t where "t = d mod 146097 - at CUMULATIVE_YEAR_DAYS k"
  have "leap (1970 + k) = leap y"
    using leap_period[of "1970 + k" "d div 146097"] by (simp add: y_def algebra_simps)
  then have "at CUMULATIVE_YEAR_DAYS (k + 1) - at CUMULATIVE_YEAR_DAYS k = year_len y"
    using year_table_at(2)[OF k(1,2)] by (simp add: year_len_def)
  then have t: "0 \<le> t" "t < year_len y" using k(4,5) by (auto simp: t_def)
  define m where "m = month_of_day y t"
  have m: "1 \<le> m" "m \<le> 12" "days_before y m \<le> t" "t < days_before y m + month_len y m"
    using month_of_day_inv[OF t] by (simp_all add: m_def)
  have y: "(y - 1970) div 400 = d div 146097" "(y - 1970) mod 400 = k" using k(1,2) by (simp_all add: y_def)
  have d: "d = 146097 * (d div 146097) + at CUMULATIVE_YEAR_DAYS k + t" by (simp add: t_def)
  have "Convert d = Inr (y, m, t - days_before y m + 1)"
    using Convert_closed[OF k(1,2) y_def t] d by (simp add: m_def)
  moreover have "d = dayNumber y m (t - days_before y m + 1)" using d by (simp add: dayNumber_def y)
  moreover have "ExtractYearOffset d = Inr (d mod 146097, y, (y - 1970) mod 400)"
    unfolding y(2) using k(3) by (simp add: y_def)
  ultimately show thesis using m by (intro that[of y m "t - days_before y m + 1"]) simp_all
qed

text \<open>
  Every day number converts to a real calendar date without failing an assertion: the month is one of the
  twelve, the day is at most the month's length, and while the year is a supported one the date converts back
  to the same day number.
\<close>

theorem day_number_roundtrip:
  "\<exists>y m dd. Convert d = Inr (y, m, dd) \<and> 1 \<le> m \<and> m \<le> 12 \<and> 1 \<le> dd \<and> dd \<le> MonthDays y m \<and>
     (MIN_YEAR \<le> y \<and> y \<le> MAX_YEAR \<longrightarrow> FromDate y m dd = Inr d)"
proof -
  obtain y m dd where c: "Convert d = Inr (y, m, dd)" "1 \<le> m" "m \<le> 12" "1 \<le> dd" "dd \<le> month_len y m"
      "d = dayNumber y m dd" by (rule Convert_dayNumber)
  have "FromDate y m dd = Inr d" if "MIN_YEAR \<le> y \<and> y \<le> MAX_YEAR"
    using that c(2-5) unfolding c(6) by (intro FromDate_dayNumber) (simp add: IsValid_iff)
  then show ?thesis using c(1-5) by (intro exI[of _ y] exI[of _ m] exI[of _ dd]) (simp add: MonthDays_month_len)
qed

theorem day_number_roundtrip_witness:
  "\<exists>y m dd. Convert (- 1) = Inr (y, m, dd) \<and> 1 \<le> m \<and> m \<le> 12 \<and> 1 \<le> dd \<and> dd \<le> MonthDays y m \<and>
     (MIN_YEAR \<le> y \<and> y \<le> MAX_YEAR \<longrightarrow> FromDate y m dd = Inr (- 1))"
  by (rule day_number_roundtrip)


text \<open>Month ends.\<close>

lemma days_before_next:
  "1 \<le> m \<Longrightarrow> m < 12 \<Longrightarrow> days_before y (m + 1) = days_before y m + month_len y m"
  "days_before y 1 = 0" "days_before y 12 + month_len y 12 = year_len y"
proof -
  have "list_all (\<lambda>m. CUMULATIVE_DAYS ! nat m = CUMULATIVE_DAYS ! nat (m - 1) + NORMAL_DAYS ! nat m \<and>
          CUMULATIVE_LEAP_DAYS ! nat m = CUMULATIVE_LEAP_DAYS ! nat (m - 1) + LEAP_DAYS ! nat m) [1..11]"
    by code_simp
  then show "1 \<le> m \<Longrightarrow> m < 12 \<Longrightarrow> days_before y (m + 1) = days_before y m + month_len y m"
    by (auto simp: list_all_iff days_before_def month_len_def at_def)
  have "CUMULATIVE_DAYS ! 0 = 0 \<and> CUMULATIVE_LEAP_DAYS ! 0 = 0 \<and>
        CUMULATIVE_DAYS ! 11 + NORMAL_DAYS ! 12 = 365 \<and> CUMULATIVE_LEAP_DAYS ! 11 + LEAP_DAYS ! 12 = 366"
    by code_simp
  then show "days_before y 1 = 0" "days_before y 12 + month_len y 12 = year_len y"
    by (auto simp: days_before_def month_len_def year_len_def at_def)
qed

lemma dayNumber_next_month: "1 \<le> m \<Longrightarrow> m < 12 \<Longrightarrow> dayNumber y (m + 1) 1 = dayNumber y m d + month_len y m - d + 1"
  by (simp add: dayNumber_def days_before_next)

lemma dayNumber_next_year: "dayNumber (y + 1) 1 1 = dayNumber y 12 d + month_len y 12 - d + 1"
proof -
  let ?k = "(y - 1970) mod 400" and ?q = "(y - 1970) div 400"
  have k: "0 \<le> ?k" "?k < 400" by simp_all
  have y: "y = 1970 + 400 * ?q + ?k" by simp
  have "leap (1970 + ?k) = leap y"
    using leap_period[of "1970 + ?k" ?q] by (simp add: algebra_simps)
  then have len: "at CUMULATIVE_YEAR_DAYS (?k + 1) = at CUMULATIVE_YEAR_DAYS ?k + year_len y"
    using year_table_at(2)[OF k] by (simp add: year_len_def split: if_splits)
  have "146097 * ((y + 1 - 1970) div 400) + at CUMULATIVE_YEAR_DAYS ((y + 1 - 1970) mod 400) =
        146097 * ?q + at CUMULATIVE_YEAR_DAYS (?k + 1)"
  proof (cases "?k = 399")
    case True
    have "y + 1 - 1970 = 400 * (?q + 1) + 0"
      using div_mult_mod_eq[of "y - 1970" 400] unfolding True by (simp add: algebra_simps)
    then have "(y + 1 - 1970) div 400 = ?q + 1" "(y + 1 - 1970) mod 400 = 0"
      by (rule int_div_pos_eq int_mod_pos_eq; simp)+
    then show ?thesis using True year_table_ends by (simp only:) simp
  next
    case False
    then have "y + 1 - 1970 = 400 * ?q + (?k + 1)" "0 \<le> ?k + 1" "?k + 1 < 400"
      using div_mult_mod_eq[of "y - 1970" 400] k by linarith+
    then have "(y + 1 - 1970) div 400 = ?q" "(y + 1 - 1970) mod 400 = ?k + 1"
      by (rule int_div_pos_eq int_mod_pos_eq)+
    then show ?thesis by (simp only:)
  qed
  then show ?thesis
    using days_before_next(2)[of "y + 1"] days_before_next(3)[of y] len by (simp add: dayNumber_def)
qed

text \<open>
  \<open>getLastDay\<close> gives the last day of the date's month: the date moved forward by what is left of the month,
  which converts to the same year and month and to the month's length as its day.
\<close>

theorem getLastDay_is_month_end:
  assumes "Convert d = Inr (y, m, dd)" and "MIN_YEAR \<le> y" and "y < MAX_YEAR"
  shows "getLastDay d = Inr (d + (MonthDays y m - dd)) \<and>
         Convert (d + (MonthDays y m - dd)) = Inr (y, m, MonthDays y m)"
proof -
  have c: "1 \<le> m" "m \<le> 12" "1 \<le> dd" "dd \<le> month_len y m" "d = dayNumber y m dd"
    by (rule Convert_dayNumber[of d]; use assms(1) in simp)+
  have "FromDate (y + m sdiv 12) (m smod 12 + 1) 1 = Inr (dayNumber y m dd + month_len y m - dd + 1)"
  proof (cases "m = 12")
    case True
    then show ?thesis using assms(2,3) month_len_pos[of 1 "y + 1"] dayNumber_next_year[of y dd]
      by (simp add: FromDate_dayNumber IsValid_iff)
  next
    case False
    then have "m sdiv 12 = 0" "m smod 12 = m"
      using c by (auto simp: signed_divide_int_def signed_modulo_int_def)
    then show ?thesis
      using False c assms(2,3) month_len_pos[of "m + 1" y] dayNumber_next_month[of m y dd]
      by (simp add: FromDate_dayNumber IsValid_iff)
  qed
  then have 1: "getLastDay d = Inr (d + (month_len y m - dd))"
    using assms(1) c(5) by (simp add: getLastDay_def)
  have "d + (month_len y m - dd) = dayNumber y m (month_len y m)" using c(5) by (simp add: dayNumber_def)
  moreover have "IsValid y m (month_len y m)" using c assms month_len_pos[of m y] by (simp add: IsValid_iff)
  ultimately have "Convert (d + (month_len y m - dd)) = Inr (y, m, month_len y m)"
    using Convert_valid by simp
  then show ?thesis using 1 by (simp add: MonthDays_month_len)
qed

theorem getLastDay_is_month_end_witness:
  "getLastDay 19762 = Inr (19762 + (MonthDays 2024 2 - 9)) \<and>
   Convert (19762 + (MonthDays 2024 2 - 9)) = Inr (2024, 2, MonthDays 2024 2)"
  by (rule getLastDay_is_month_end) code_simp+

text \<open>
  the year part of a date is right, but the call overwrites the caller's date with its remainder modulo the
  400-year interval: the date survives exactly when it lies in the years 1970 to 2369.
\<close>

theorem getDatePart_year_overwrites_date:
  "\<exists>y m dd. Convert d = Inr (y, m, dd) \<and> getDatePart YEAR d = Inr (y, d mod DAYS_PER_YEAR_INTERVAL) \<and>
     (d mod DAYS_PER_YEAR_INTERVAL = d \<longleftrightarrow> EPOCH_YEAR \<le> y \<and> y < EPOCH_YEAR + YEAR_INTERVAL)"
proof -
  obtain y m dd where c: "Convert d = Inr (y, m, dd)"
      "ExtractYearOffset d = Inr (d mod 146097, y, (y - 1970) mod 400)" by (rule Convert_dayNumber)
  have "y = 1970 + 400 * (d div 146097) + (y - 1970) mod 400"
    using ExtractYearOffset_spec[of d] c(2) by auto
  moreover have "0 \<le> (y - 1970) mod 400" "(y - 1970) mod 400 < 400" by simp_all
  ultimately have "(d div 146097 = 0) \<longleftrightarrow> 1970 \<le> y \<and> y < 2370" by linarith
  moreover have "d mod 146097 = d \<longleftrightarrow> d div 146097 = 0" using div_mult_mod_eq[of d 146097] by linarith
  ultimately show ?thesis
    using c by (simp add: getDatePart_def DAYS_PER_YEAR_INTERVAL_def EPOCH_YEAR_def YEAR_INTERVAL_def)
qed

lemma getDayName_mod: "getDayName d = dayNames ! nat ((d + 4) mod 7)"
proof -
  have "(if d < 0 then 7 - ((- d + 3) smod 7) else ((d + 3) smod 7) + 1) smod 7 = (d + 4) mod 7"
  proof (cases "d < 0")
    case True
    then have "(- d + 3) smod 7 = (- d + 3) mod 7" by (simp add: smod_int_alt_def)
    moreover have "(7 - (- d + 3) mod 7) mod 7 = (d + 4) mod 7"
      using mod_diff_right_eq[of 7 "- d + 3" 7] by (simp add: add.commute)
    moreover have "0 \<le> 7 - (- d + 3) mod 7" using pos_mod_bound[of 7 "- d + 3"] by simp
    ultimately show ?thesis using True by (simp add: smod_int_alt_def sgn_if)
  next
    case False
    then have "(d + 3) smod 7 = (d + 3) mod 7" by (simp add: smod_int_alt_def)
    moreover have "((d + 3) mod 7 + 1) mod 7 = (d + 4) mod 7"
      using mod_add_left_eq[of "d + 3" 7 1] by (simp add: add.commute)
    moreover have "0 \<le> (d + 3) mod 7 + 1" by simp
    ultimately show ?thesis using False by (simp add: smod_int_alt_def)
  qed
  then show ?thesis by (simp add: getDayName_def)
qed


text \<open>
  The name of a day follows the seven-day cycle that has Thursday on day 0 (1970-01-01), before and after
  the epoch: each day has the name that comes after the previous day's.
\<close>

theorem getDayName_cycle:
  "getDayName 0 = ''Thursday'' \<and> getDayName (d + 7) = getDayName d \<and>
   (\<exists>k < 7. getDayName d = dayNames ! k \<and> getDayName (d + 1) = dayNames ! ((k + 1) mod 7))"
proof -
  let ?k = "nat ((d + 4) mod 7)"
  have "?k < 7" using pos_mod_bound[of 7 "d + 4"] pos_mod_sign[of 7 "d + 4"] by linarith
  moreover have "nat ((d + 1 + 4) mod 7) = (?k + 1) mod 7"
    using nat_mod_distrib[of "(d + 4) mod 7 + 1" 7] by (simp add: nat_add_distrib mod_add_left_eq)
  moreover have "(d + 7 + 4) mod 7 = (d + 4) mod 7" by presburger
  ultimately show ?thesis
    by (intro conjI exI[of _ ?k]) (simp_all only: getDayName_mod, simp add: dayNames_def)
qed

section \<open>Printing and parsing\<close>

definition decVal :: "int \<Rightarrow> string \<Rightarrow> int" where
  "decVal = foldl (\<lambda>a c. digitValue c + a * 10)"

lemma decVal_simps [simp]:
  "decVal a [] = a" "decVal a (c # s) = decVal (digitValue c + a * 10) s" "decVal a (s @ t) = decVal (decVal a s) t"
  by (simp_all add: decVal_def)

lemma digit_char [simp]:
  "k < 10 \<Longrightarrow> CharacterIsDigit (char_of (48 + k :: nat))"
  "k < 10 \<Longrightarrow> digitValue (char_of (48 + k :: nat)) = int k"
proof -
  assume k: "k < 10"
  have n: "(of_char (char_of (48 + k) :: char) :: nat) = 48 + k" using k by simp
  then show "CharacterIsDigit (char_of (48 + k))" using k by (simp add: CharacterIsDigit_def)
  have "(of_char (char_of (48 + k) :: char) :: int) = of_nat (of_char (char_of (48 + k) :: char))"
    by (simp only: of_nat_of_char)
  then show "digitValue (char_of (48 + k)) = int k" unfolding digitValue_def n by simp
qed

lemma digits_nth:
  assumes "k < 100"
  shows "digits ! (k * 2) = char_of (48 + k div 10)" and "digits ! Suc (k * 2) = char_of (48 + k mod 10)"
proof -
  have "list_all (\<lambda>k. digits ! (k * 2) = char_of (48 + k div 10) \<and> digits ! Suc (k * 2) = char_of (48 + k mod 10)) [0..<100]"
    by code_simp
  then show "digits ! (k * 2) = char_of (48 + k div 10)" "digits ! Suc (k * 2) = char_of (48 + k mod 10)"
    using assms by (simp_all add: list_all_iff)
qed

lemma decVal_nonneg: "0 \<le> a \<Longrightarrow> list_all CharacterIsDigit s \<Longrightarrow> a \<le> decVal a s"
proof (induction s arbitrary: a)
  case (Cons c s)
  have "digitValue c = int (of_char c) - 48" unfolding digitValue_def by (simp only: of_nat_of_char)
  moreover have "48 \<le> (of_char c :: nat)" using Cons.prems by (simp add: CharacterIsDigit_def)
  ultimately have "a \<le> digitValue c + a * 10" using Cons.prems(1) by simp
  then show ?case using Cons.IH[of "digitValue c + a * 10"] Cons.prems by simp
qed simp

lemma two_digits_value:
  fixes q r t u v :: nat
  shows "q * 100 + r = v \<Longrightarrow> t * 10 + u = r \<Longrightarrow> int u + (int t + int q * 10) * 10 = int v"
  by auto

lemma FormatUnsigned_value: "list_all CharacterIsDigit (FormatUnsigned v) \<and> decVal 0 (FormatUnsigned v) = int v"
proof (induction v rule: FormatUnsigned.induct)
  case (1 v)
  consider "v \<ge> 100" | "v < 10" | "10 \<le> v" "v < 100" by linarith
  then show ?case
  proof cases
    case big: 1
    have m: "v mod 100 < 100" by simp
    have d: "v mod 100 div 10 < 10" by simp
    have "int (v mod 100 mod 10) + (int (v mod 100 div 10) + int (v div 100) * 10) * 10 = int v"
      by (rule two_digits_value[OF div_mult_mod_eq div_mult_mod_eq])
    then show ?thesis using 1 big d
      by (subst (1 2) FormatUnsigned.simps) (simp add: digits_nth[OF m])
  next
    case 2
    then show ?thesis by (subst (1 2) FormatUnsigned.simps) simp
  next
    case 3
    have "int (v mod 10) + int (v div 10) * 10 = int v" by presburger
    then show ?thesis using 3 by (subst (1 2) FormatUnsigned.simps) (simp add: digits_nth)
  qed
qed

lemma parseYear_digits:
  assumes "0 \<le> y" "list_all CharacterIsDigit s" "decVal y s \<le> MAX_YEAR" "\<not> CharacterIsDigit c"
  shows "parseYear y (s @ c # r) = (decVal y s, c # r)"
  using assms
proof (induction s arbitrary: y)
  case (Cons x s)
  let ?y = "digitValue x + y * 10"
  have x: "0 \<le> digitValue x" using decVal_nonneg[of 0 "[x]"] Cons.prems by simp
  have "?y \<le> decVal ?y s" using decVal_nonneg[of ?y s] x Cons.prems by simp
  then show ?case using Cons.IH[of ?y] Cons.prems x by (simp add: Let_def)
qed simp

lemma formatTwoDigits_digits:
  assumes "0 \<le> v" "v < 100"
  shows "formatTwoDigits v = [char_of (48 + nat v div 10), char_of (48 + nat v mod 10)]"
proof -
  have "CHR ''0'' = char_of (48 :: nat)" by code_simp
  then show ?thesis using assms digits_nth[of "nat v"] by (simp add: formatTwoDigits_def)
qed

lemma ParseDoubleDigit_formatTwoDigits:
  assumes "0 \<le> v" "v < 100"
  shows "ParseDoubleDigit (formatTwoDigits v @ r) = Some (v, r)"
proof -
  have "nat v div 10 < 10" "nat v mod 10 < 10" using assms by simp_all
  moreover have "int (nat v mod 10) + int (nat v div 10) * 10 = v"
    using assms div_mult_mod_eq[of "nat v" 10] by linarith
  ultimately show ?thesis by (simp add: formatTwoDigits_digits[OF assms] ParseDoubleDigit_def)
qed

lemma replicate_zero_value: "decVal 0 (replicate n CHR ''0'') = 0"
  using digit_char(2)[of 0] by (induction n) (auto simp: digitValue_def)

lemma month_len_le31: "1 \<le> m \<Longrightarrow> m \<le> 12 \<Longrightarrow> month_len y m \<le> 31"
proof -
  have "list_all (\<lambda>m. LEAP_DAYS ! nat m \<le> 31 \<and> NORMAL_DAYS ! nat m \<le> 31) [1..12]" by code_simp
  then show "1 \<le> m \<Longrightarrow> m \<le> 12 \<Longrightarrow> month_len y m \<le> 31" by (auto simp: list_all_iff month_len_def at_def)
qed

lemma toString_parses:
  assumes "IsValid y m d" and "1 \<le> y" and "FromDate y m d = Inr n"
  obtains s where "toString n = Inr s" "TryConvertDate s = Inr (Some n)"
    "list_all (\<lambda>c. CharacterIsDigit c \<or> c = CHR ''-'') s"
proof -
  let ?ds = "replicate (yearLength y - length (FormatUnsigned (nat y))) CHR ''0'' @ FormatUnsigned (nat y)"
  have v: "1 \<le> m" "m \<le> 12" "1 \<le> d" "d \<le> month_len y m" "y \<le> MAX_YEAR" using assms by (auto simp: IsValid_iff)
  have small: "0 \<le> m" "m < 100" "0 \<le> d" "d < 100" using v month_len_le31[of m y] by linarith+
  let ?s = "?ds @ CHR ''-'' # formatTwoDigits m @ CHR ''-'' # formatTwoDigits d @ []"
  have "Convert n = Inr (y, m, d)" using assms Convert_valid FromDate_dayNumber by fastforce
  then have s: "toString n = Inr ?s" using assms(2) by (simp add: toString_def DateToStringCast_def Let_def)
  have ds: "list_all CharacterIsDigit ?ds" "decVal 0 ?ds = y"
    using FormatUnsigned_value[of "nat y"] assms(2) digit_char(1)[of 0]
    by (auto simp: replicate_zero_value CharacterIsDigit_def list_all_iff)
  have hyp: "\<not> CharacterIsDigit CHR ''-''" by code_simp
  have hd: "?s \<noteq> []" "CharacterIsDigit (hd ?s)"
    using ds assms(2) v(5) by (cases ?ds; simp)+
  have sp: "\<not> CharacterIsSpace (hd ?s)"
    using hd(2) by (auto simp: CharacterIsSpace_def CharacterIsDigit_def)
  then have drop: "dropWhile CharacterIsSpace ?s = ?s" by (cases ?s) auto
  have "parseYear 0 ?s = (y, CHR ''-'' # formatTwoDigits m @ CHR ''-'' # formatTwoDigits d @ [])"
    using parseYear_digits[OF _ ds(1) _ hyp] ds(2) v(5) by simp
  moreover have "formatTwoDigits d \<noteq> []" by (simp add: formatTwoDigits_digits[OF small(3,4)])
  ultimately have "TryConvertDate ?s = Inr (Some n)"
    unfolding TryConvertDate_def Let_def drop using hd assms(3)
    by (simp add: ParseDoubleDigit_formatTwoDigits small ParseDoubleDigit_formatTwoDigits[where r = "[]", simplified])
  moreover have "list_all (\<lambda>c. CharacterIsDigit c \<or> c = CHR ''-'') ?s"
    using ds(1) small by (auto simp: formatTwoDigits_digits list_all_iff)
  ultimately show thesis using s that by blast
qed

text \<open>
  a date of a positive supported year is printed in a form that parses back to it: \<open>FromCString\<close> accepts
  what \<open>toString\<close> writes and gives the same day number.
\<close>

theorem date_text_roundtrip:
  assumes "IsValid y m d" and "1 \<le> y" and "FromDate y m d = Inr n"
  shows "\<exists>s. toString n = Inr s \<and> FromCString s = Inr n"
proof -
  obtain s where "toString n = Inr s" "TryConvertDate s = Inr (Some n)" by (rule toString_parses[OF assms])
  then show ?thesis by (simp add: FromCString_def)
qed

theorem date_text_roundtrip_witness:
  "\<exists>s. toString 19782 = Inr s \<and> FromCString s = Inr 19782"
  by (rule date_text_roundtrip[of 2024 2 29]) code_simp+

end
