(* ===== verification/Timestamp.thy ===== *)
theory Timestamp
  imports Date
begin

text \<open>
  Times of day, intervals and timestamps: \<^verbatim>\<open>src/src/common/types/dtime_t.cpp\<close>,
  \<^verbatim>\<open>interval_t.cpp\<close>, \<^verbatim>\<open>timestamp_t.cpp\<close> and the \<open>TimeToStringCast\<close> of \<^verbatim>\<open>include/cast_helpers.h\<close>.
  A time is its number of microseconds since midnight, a timestamp its number of microseconds since the epoch;
  both are 64-bit in the sources.  The model computes with integers and writes out the places where the width
  matters: an overflow of \<open>FromDatetime\<close> (undefined in C++) and the mixed signed and unsigned arithmetic of the
  division of intervals.
\<close>

section \<open>Times of day\<close>

definition MICROS_PER_MSEC :: int where "MICROS_PER_MSEC = 1000"
definition MICROS_PER_SEC :: int where "MICROS_PER_SEC = MICROS_PER_MSEC * 1000"
definition MICROS_PER_MINUTE :: int where "MICROS_PER_MINUTE = MICROS_PER_SEC * 60"
definition MICROS_PER_HOUR :: int where "MICROS_PER_HOUR = MICROS_PER_MINUTE * 60"
definition DAYS_PER_MONTH :: int where "DAYS_PER_MONTH = 30"
definition MICROS_PER_MONTH :: int where "MICROS_PER_MONTH = MICROS_PER_DAY * DAYS_PER_MONTH"

lemmas micros_defs = MICROS_PER_MSEC_def MICROS_PER_SEC_def MICROS_PER_MINUTE_def MICROS_PER_HOUR_def
  MICROS_PER_DAY_def MICROS_PER_MONTH_def DAYS_PER_MONTH_def

definition Time_IsValid :: "int \<Rightarrow> int \<Rightarrow> int \<Rightarrow> int \<Rightarrow> bool" where
  "Time_IsValid hour minute second microseconds =
     (if hour > 23 \<or> hour < 0 \<or> minute > 59 \<or> minute < 0 \<or> second > 59 \<or> second < 0 \<or>
         microseconds > 999999 \<or> microseconds < 0 then False else True)"

definition FromTime :: "int \<Rightarrow> int \<Rightarrow> int \<Rightarrow> int \<Rightarrow> int result" where
  "FromTime hour minute second microseconds =
     (if \<not> Time_IsValid hour minute second microseconds
      then Inl (ConversionException ''time field value out of range'')
      else let r1 = hour; r2 = r1 * 60 + minute; r3 = r2 * 60 + second
           in Inr (r3 * MICROS_PER_SEC + microseconds))"

definition Time_Convert :: "int \<Rightarrow> int \<times> int \<times> int \<times> int" where
  "Time_Convert time =
     (let hour = time sdiv MICROS_PER_HOUR; time1 = time - hour * MICROS_PER_HOUR;
          minutes = time1 sdiv MICROS_PER_MINUTE; time2 = time1 - minutes * MICROS_PER_MINUTE;
          sec = time2 sdiv MICROS_PER_SEC; time3 = time2 - sec * MICROS_PER_SEC
      in (hour, minutes, sec, time3))"

text \<open>The loop over the digits after the period: digits past the sixth are read and ignored.\<close>

fun parseMicros :: "int \<Rightarrow> int \<Rightarrow> string \<Rightarrow> int \<times> string" where
  "parseMicros us mult [] = (us, [])"
| "parseMicros us mult (c # r) =
     (if CharacterIsDigit c
      then parseMicros (if mult > 0 then us + digitValue c * mult else us) (mult sdiv 10) r
      else (us, c # r))"

text \<open>None is the return value false; otherwise the time and the part of the string that is left.\<close>

definition TryConvertTime :: "string \<Rightarrow> (int \<times> string) option" where
  "TryConvertTime buf =
     (let s = dropWhile CharacterIsSpace buf
      in if s = [] \<or> \<not> CharacterIsDigit (hd s) then None
         else case ParseDoubleDigit s of
           None \<Rightarrow> None
         | Some (hour, s1) \<Rightarrow>
             (case s1 of
                [] \<Rightarrow> None
              | sep # s2 \<Rightarrow>
                  if sep \<noteq> CHR '':'' then None
                  else case ParseDoubleDigit s2 of
                    None \<Rightarrow> None
                  | Some (minutes, s3) \<Rightarrow>
                      (case s3 of
                         [] \<Rightarrow> None
                       | c # s4 \<Rightarrow>
                           if c \<noteq> sep then None
                           else case ParseDoubleDigit s4 of
                             None \<Rightarrow> None
                           | Some (sec, s5) \<Rightarrow>
                               (let (us, s6) = (if s5 \<noteq> [] \<and> hd s5 = CHR ''.'' then parseMicros 0 100000 (tl s5)
                                               else (0, s5))
                                in if \<not> Time_IsValid hour minutes sec us then None
                                   else case FromTime hour minutes sec us of
                                     Inl _ \<Rightarrow> None | Inr t \<Rightarrow> Some (t, s6)))))"

definition Time_FromCString :: "string \<Rightarrow> int result" where
  "Time_FromCString buf =
     (case TryConvertTime buf of
        None \<Rightarrow> Inl (ConversionException ''time field value out of range'')
      | Some (t, _) \<Rightarrow> Inr t)"

text \<open>The six characters of the micro buffer, and how many trailing zeros among the last five.\<close>

definition microBuffer :: "int \<Rightarrow> string" where
  "microBuffer microseconds =
     (let s = FormatUnsigned (nat microseconds) in replicate (6 - length s) CHR ''0'' @ s)"

definition FormatMicros :: "int \<Rightarrow> nat" where
  "FormatMicros microseconds = length (takeWhile (\<lambda>c. c = CHR ''0'') (rev (tl (microBuffer microseconds))))"

definition Time_toString :: "int \<Rightarrow> string" where
  "Time_toString time =
     (let (hour, minutes, sec, us) = Time_Convert time
      in formatTwoDigits hour @ CHR '':'' # formatTwoDigits minutes @ CHR '':'' # formatTwoDigits sec @
         (if us = 0 then []
          else CHR ''.'' # take (15 - FormatMicros us - 9) (microBuffer us)))"

section \<open>Intervals\<close>

definition interval_plus :: "interval_t \<Rightarrow> interval_t \<Rightarrow> interval_t" where
  "interval_plus l r = \<lparr>months = months l + months r, interval_days = interval_days l + interval_days r,
                        micros = micros l + micros r\<rparr>"

definition interval_minus :: "interval_t \<Rightarrow> interval_t \<Rightarrow> interval_t" where
  "interval_minus l r = \<lparr>months = months l - months r, interval_days = interval_days l - interval_days r,
                         micros = micros l - micros r\<rparr>"

text \<open>
  The divisor is an unsigned 64-bit number, so every dividend is converted to unsigned first, and the
  quotients and remainders are converted back to the fields' widths.
\<close>

definition to_u64 :: "int \<Rightarrow> int" where "to_u64 x = x mod 2 ^ 64"
definition to_i32 :: "int \<Rightarrow> int" where "to_i32 x = (x + 2 ^ 31) mod 2 ^ 32 - 2 ^ 31"
definition to_i64 :: "int \<Rightarrow> int" where "to_i64 x = (x + 2 ^ 63) mod 2 ^ 64 - 2 ^ 63"

definition interval_div :: "interval_t \<Rightarrow> int \<Rightarrow> interval_t result" where
  "interval_div l rhs =
     (if rhs = 0 then Inl (UndefinedBehaviour ''division by zero'')
      else let monthsRemainder = to_i32 (to_u64 (months l) mod rhs);
               d = interval_days l + monthsRemainder * DAYS_PER_MONTH;
               daysRemainder = to_i32 (to_u64 d mod rhs)
           in Inr \<lparr>months = to_i32 (to_u64 (months l) div rhs), interval_days = to_i32 (to_u64 d div rhs),
                    micros = to_i64 (to_u64 (micros l + daysRemainder * MICROS_PER_DAY) div rhs)\<rparr>)"

definition NormalizeIntervalEntries :: "interval_t \<Rightarrow> int \<times> int \<times> int" where
  "NormalizeIntervalEntries i =
     (let extra_months_d = interval_days i sdiv DAYS_PER_MONTH;
          extra_months_micros = micros i sdiv MICROS_PER_MONTH;
          days1 = interval_days i - extra_months_d * DAYS_PER_MONTH;
          micros1 = micros i - extra_months_micros * MICROS_PER_MONTH;
          extra_days_micros = micros1 sdiv MICROS_PER_DAY;
          micros2 = micros1 - extra_days_micros * MICROS_PER_DAY
      in (months i + extra_months_d + extra_months_micros, days1 + extra_days_micros, micros2))"

definition GreaterThan :: "interval_t \<Rightarrow> interval_t \<Rightarrow> bool" where
  "GreaterThan l r =
     (let (lMonths, lDays, lMicros) = NormalizeIntervalEntries l;
          (rMonths, rDays, rMicros) = NormalizeIntervalEntries r
      in if lMonths > rMonths then True
         else if lMonths < rMonths then False
         else if lDays > rDays then True
         else if lDays < rDays then False
         else lMicros > rMicros)"

definition interval_eq :: "interval_t \<Rightarrow> interval_t \<Rightarrow> bool" where
  "interval_eq l r \<longleftrightarrow> interval_days l = interval_days r \<and> months l = months r \<and> micros l = micros r"

definition interval_le :: "interval_t \<Rightarrow> interval_t \<Rightarrow> bool" where
  "interval_le l r \<longleftrightarrow> \<not> GreaterThan l r"

definition interval_ge :: "interval_t \<Rightarrow> interval_t \<Rightarrow> bool" where
  "interval_ge l r \<longleftrightarrow> GreaterThan l r \<or> interval_eq l r"

definition interval_less :: "interval_t \<Rightarrow> interval_t \<Rightarrow> bool" where
  "interval_less l r \<longleftrightarrow> \<not> interval_ge l r"

fun getIntervalPart :: "DatePartSpecifier \<Rightarrow> interval_t \<Rightarrow> int" where
  "getIntervalPart YEAR i = months i sdiv 12"
| "getIntervalPart MONTH i = months i smod 12"
| "getIntervalPart DAY i = interval_days i"
| "getIntervalPart DECADE i = months i sdiv 120"
| "getIntervalPart CENTURY i = months i sdiv 1200"
| "getIntervalPart MILLENNIUM i = months i sdiv 12000"
| "getIntervalPart QUARTER i = (months i smod 12) sdiv 3 + 1"
| "getIntervalPart MICROSECOND i = micros i smod MICROS_PER_MINUTE"
| "getIntervalPart MILLISECOND i = (micros i smod MICROS_PER_MINUTE) sdiv MICROS_PER_MSEC"
| "getIntervalPart SECOND i = (micros i smod MICROS_PER_MINUTE) sdiv MICROS_PER_SEC"
| "getIntervalPart MINUTE i = (micros i smod MICROS_PER_HOUR) sdiv MICROS_PER_MINUTE"
| "getIntervalPart HOUR i = to_i32 (micros i sdiv MICROS_PER_HOUR)"

section \<open>Timestamps\<close>

definition in_i64 :: "int \<Rightarrow> bool" where
  "in_i64 x \<longleftrightarrow> - (2 ^ 63) \<le> x \<and> x < 2 ^ 63"

definition GetDate :: "int \<Rightarrow> int" where
  "GetDate ts = (ts + of_bool (ts < 0)) sdiv MICROS_PER_DAY - of_bool (ts < 0)"

definition GetTime :: "int \<Rightarrow> int" where
  "GetTime ts = ts - GetDate ts * MICROS_PER_DAY"

definition Timestamp_Convert :: "int \<Rightarrow> int \<times> int" where
  "Timestamp_Convert ts = (GetDate ts, GetTime ts)"

definition FromDatetime :: "int \<Rightarrow> int \<Rightarrow> int result" where
  "FromDatetime date time =
     bind_result (Convert date) (\<lambda>(year, month, day).
       let (hour, minute, second, microsecond) = Time_Convert time
       in if \<not> IsValid year month day \<or> \<not> Time_IsValid hour minute second microsecond
          then Inl (ConversionException ''Invalid date or time format'')
          else let v = date * MICROS_PER_DAY + time
               in if in_i64 v then Inr v else Inl (UndefinedBehaviour ''signed overflow''))"

definition timestamp_plus_interval :: "int \<Rightarrow> interval_t \<Rightarrow> int result" where
  "timestamp_plus_interval ts i =
     (let (date, time) = Timestamp_Convert ts
      in bind_result (date_plus_interval date i) (\<lambda>date1.
           let diff = micros i - (micros i sdiv MICROS_PER_DAY) * MICROS_PER_DAY;
               time1 = time + diff;
               (time2, date2) = (if time1 \<ge> MICROS_PER_DAY then (time1 - MICROS_PER_DAY, date1 + 1)
                                 else if time1 < 0 then (time1 + MICROS_PER_DAY, date1 - 1)
                                 else (time1, date1))
           in FromDatetime date2 time2))"

definition timestamp_minus_interval :: "int \<Rightarrow> interval_t \<Rightarrow> int result" where
  "timestamp_minus_interval ts i =
     timestamp_plus_interval ts \<lparr>months = - months i, interval_days = - interval_days i, micros = - micros i\<rparr>"

definition timestamp_minus_timestamp :: "int \<Rightarrow> int \<Rightarrow> interval_t" where
  "timestamp_minus_timestamp ts rhs =
     (let diff = \<bar>ts - rhs\<bar>; d = diff div MICROS_PER_DAY; m = diff mod MICROS_PER_DAY
      in if ts < rhs then \<lparr>months = 0, interval_days = - d, micros = - m\<rparr>
         else \<lparr>months = 0, interval_days = d, micros = m\<rparr>)"

text \<open>None: false.  Otherwise the hour and minute offsets and the string after the offset.\<close>

definition TryParseUTCOffset :: "string \<Rightarrow> (int \<times> int \<times> string) option" where
  "TryParseUTCOffset s =
     (case s of
        sign # h1 # h2 # r \<Rightarrow>
          if sign \<noteq> CHR ''+'' \<and> sign \<noteq> CHR ''-'' then None
          else if \<not> CharacterIsDigit h1 \<or> \<not> CharacterIsDigit h2 then None
          else let hour0 = digitValue h1 * 10 + digitValue h2;
                   hour = (if sign = CHR ''-'' then - hour0 else hour0)
               in if r = [] then Some (hour, 0, [])
                  else let r1 = (if hd r = CHR '':'' then tl r else r)
                       in (case r1 of
                             m1 # m2 # r2 \<Rightarrow>
                               if \<not> CharacterIsDigit m1 \<or> \<not> CharacterIsDigit m2 then Some (hour, 0, r1)
                               else let min0 = digitValue m1 * 10 + digitValue m2
                                    in Some (hour, if sign = CHR ''-'' then - min0 else min0, r2)
                           | _ \<Rightarrow> Some (hour, 0, r1))
      | _ \<Rightarrow> None)"

definition isDateEnd :: "char \<Rightarrow> bool" where
  "isDateEnd c \<longleftrightarrow> c = CHR '' '' \<or> c = CHR ''T''"

definition Timestamp_FromCString :: "string \<Rightarrow> int result" where
  "Timestamp_FromCString str =
     (let dateStr = takeWhile (\<lambda>c. \<not> isDateEnd c) str; rest0 = drop (length dateStr) str
      in bind_result (TryConvertDate dateStr) (\<lambda>r. case r of
           None \<Rightarrow> Inl (ConversionException ''Error occurred during parsing time'')
         | Some date \<Rightarrow>
             if rest0 = [] then FromDatetime date 0
             else let rest1 = (if isDateEnd (hd rest0) then tl rest0 else rest0)
                  in case TryConvertTime rest1 of
                    None \<Rightarrow> Inl (ConversionException ''Error occurred during parsing time'')
                  | Some (time, rest2) \<Rightarrow>
                      bind_result (FromDatetime date time) (\<lambda>v.
                        if rest2 = [] then Inr v
                        else let rest3 = (if hd rest2 = CHR ''Z'' then tl rest2 else rest2);
                                 (v1, rest4) = (case TryParseUTCOffset rest3 of
                                     None \<Rightarrow> (v, rest3)
                                   | Some (h, m, r) \<Rightarrow> (v - (h * MICROS_PER_HOUR + m * MICROS_PER_MINUTE), r))
                             in if dropWhile CharacterIsSpace rest4 \<noteq> []
                                then Inl (ConversionException ''trailing characters'')
                                else if in_i64 v1 then Inr v1
                                else Inl (UndefinedBehaviour ''signed overflow''))))"

definition Timestamp_toString :: "int \<Rightarrow> string result" where
  "Timestamp_toString ts =
     (let (date, time) = Timestamp_Convert ts
      in bind_result (toString date) (\<lambda>s. Inr (s @ '' '' @ Time_toString time)))"

definition FromEpochMs :: "int \<Rightarrow> int" where "FromEpochMs epochMs = epochMs * MICROS_PER_MSEC"
definition FromEpochSec :: "int \<Rightarrow> int" where "FromEpochSec epochSec = epochSec * MICROS_PER_SEC"

definition getTimestampPart :: "DatePartSpecifier \<Rightarrow> int \<Rightarrow> int result" where
  "getTimestampPart spec ts =
     (let micro = GetTime ts smod MICROS_PER_MINUTE
      in case spec of
           MICROSECOND \<Rightarrow> Inr micro
         | MILLISECOND \<Rightarrow> Inr (micro sdiv MICROS_PER_MSEC)
         | SECOND \<Rightarrow> Inr (micro sdiv MICROS_PER_SEC)
         | MINUTE \<Rightarrow> Inr ((GetTime ts smod MICROS_PER_HOUR) sdiv MICROS_PER_MINUTE)
         | HOUR \<Rightarrow> Inr (GetTime ts sdiv MICROS_PER_HOUR)
         | _ \<Rightarrow> bind_result (getDatePart spec (GetDate ts)) (\<lambda>(v, _). Inr v))"

definition trunc_timestamp :: "DatePartSpecifier \<Rightarrow> int \<Rightarrow> int result" where
  "trunc_timestamp spec ts =
     (let (date, time) = Timestamp_Convert ts; (hour, minutes, sec, us) = Time_Convert time
      in case spec of
           MICROSECOND \<Rightarrow> Inr ts
         | MILLISECOND \<Rightarrow>
             bind_result (FromTime hour minutes sec (us - us smod MICROS_PER_MSEC)) (FromDatetime date)
         | SECOND \<Rightarrow> bind_result (FromTime hour minutes sec 0) (FromDatetime date)
         | MINUTE \<Rightarrow> bind_result (FromTime hour minutes 0 0) (FromDatetime date)
         | HOUR \<Rightarrow> bind_result (FromTime hour 0 0 0) (FromDatetime date)
         | _ \<Rightarrow> bind_result (trunc_date spec (GetDate ts)) (\<lambda>(d, _). FromDatetime d 0))"


section \<open>Splitting and joining\<close>

lemma sdiv_nonneg: "0 \<le> a \<Longrightarrow> 0 < b \<Longrightarrow> (a :: int) sdiv b = a div b"
  by (cases "a = 0") (auto simp: signed_divide_int_def sgn_if)

lemma sdiv_nonpos: "a \<le> 0 \<Longrightarrow> 0 < b \<Longrightarrow> (a :: int) sdiv b = - ((- a) div b)"
  by (cases "a = 0") (auto simp: signed_divide_int_def sgn_if)

lemma GetDate_div: "GetDate ts = ts div MICROS_PER_DAY"
proof (cases "ts < 0")
  case True
  let ?x = "- ts - 1" and ?D = MICROS_PER_DAY
  have D: "0 < ?D" by (simp add: MICROS_PER_DAY_def)
  have x: "0 \<le> ?x mod ?D" "?x mod ?D < ?D" using D by simp_all
  have "ts = ?D * (- (?x div ?D) - 1) + (?D - 1 - ?x mod ?D)"
    using div_mult_mod_eq[of ?x ?D] by (simp add: algebra_simps)
  then have "ts div ?D = - (?x div ?D) - 1" by (rule int_div_pos_eq) (use x in simp_all)
  moreover have "(ts + 1) sdiv ?D = - (?x div ?D)" using sdiv_nonpos[of "ts + 1" ?D] True D by simp
  ultimately show ?thesis using True by (simp add: GetDate_def)
qed (simp add: GetDate_def sdiv_nonneg MICROS_PER_DAY_def)

lemma GetTime_mod: "GetTime ts = ts mod MICROS_PER_DAY"
  by (simp add: GetTime_def GetDate_div minus_div_mult_eq_mod)

lemma day_time_split [simp]:
  assumes "0 \<le> t" "t < MICROS_PER_DAY"
  shows "(d * MICROS_PER_DAY + t) div MICROS_PER_DAY = d" "(d * MICROS_PER_DAY + t) mod MICROS_PER_DAY = t"
  using int_div_pos_eq[of "d * MICROS_PER_DAY + t" MICROS_PER_DAY d t]
    int_mod_pos_eq[of "d * MICROS_PER_DAY + t" MICROS_PER_DAY d t] assms by (simp_all add: mult.commute)

lemma Time_Convert_closed:
  assumes "0 \<le> t" "t < MICROS_PER_DAY"
  obtains h m s u where "Time_Convert t = (h, m, s, u)" "Time_IsValid h m s u"
    "t = ((h * 60 + m) * 60 + s) * MICROS_PER_SEC + u"
proof -
  define h where "h = t div 3600000000"
  define t1 where "t1 = t mod 3600000000"
  define m where "m = t1 div 60000000"
  define t2 where "t2 = t1 mod 60000000"
  define s where "s = t2 div 1000000"
  define u where "u = t2 mod 1000000"
  have 1: "t = h * 3600000000 + t1" "0 \<le> t1" "t1 < 3600000000" "0 \<le> h"
    using assms(1) by (simp_all add: h_def t1_def pos_imp_zdiv_nonneg_iff)
  have 2: "t1 = m * 60000000 + t2" "0 \<le> t2" "t2 < 60000000" "0 \<le> m"
    using 1(2) by (simp_all add: m_def t2_def pos_imp_zdiv_nonneg_iff)
  have 3: "t2 = s * 1000000 + u" "0 \<le> u" "u < 1000000" "0 \<le> s"
    using 2(2) by (simp_all add: s_def u_def pos_imp_zdiv_nonneg_iff)
  have b: "h \<le> 23" "m \<le> 59" "s \<le> 59"
    using 1 2 3 assms(2) by (simp_all add: MICROS_PER_DAY_def)
  have "t sdiv 3600000000 = h" "t1 sdiv 60000000 = m" "t2 sdiv 1000000 = s"
    using assms(1) 1(2) 2(2) by (simp_all add: sdiv_nonneg h_def m_def s_def)
  moreover have "t - h * 3600000000 = t1" "t1 - m * 60000000 = t2" "t2 - s * 1000000 = u"
    using 1(1) 2(1) 3(1) by linarith+
  ultimately have "Time_Convert t = (h, m, s, u)"
    by (simp add: Time_Convert_def Let_def MICROS_PER_HOUR_def MICROS_PER_MINUTE_def MICROS_PER_SEC_def MICROS_PER_MSEC_def)
  moreover have "Time_IsValid h m s u" using 1 2 3 b by (simp add: Time_IsValid_def)
  moreover have "t = ((h * 60 + m) * 60 + s) * MICROS_PER_SEC + u"
    using 1(1) 2(1) 3(1) by (simp add: MICROS_PER_SEC_def MICROS_PER_MSEC_def)
  ultimately show thesis by (rule that)
qed

text \<open>A timestamp is representable when its day is a supported calendar date and its value fits in 64 bits.\<close>

definition ts_ok :: "int \<Rightarrow> bool" where
  "ts_ok ts \<longleftrightarrow> in_i64 ts \<and>
     (case Convert (ts div MICROS_PER_DAY) of Inl _ \<Rightarrow> False | Inr (y, m, d) \<Rightarrow> MIN_YEAR \<le> y \<and> y \<le> MAX_YEAR)"

lemma ts_ok_valid: "ts_ok ts \<Longrightarrow> Convert (ts div MICROS_PER_DAY) = Inr (y, m, d) \<Longrightarrow> IsValid y m d"
  by (rule Convert_dayNumber[of "ts div MICROS_PER_DAY"]) (auto simp: ts_ok_def IsValid_iff)

lemma FromDatetime_ok:
  assumes "ts_ok ts"
  shows "FromDatetime (ts div MICROS_PER_DAY) (ts mod MICROS_PER_DAY) = Inr ts"
proof -
  obtain y m d where c: "Convert (ts div MICROS_PER_DAY) = Inr (y, m, d)"
    using assms by (auto simp: ts_ok_def split: sum.splits)
  have "0 \<le> ts mod MICROS_PER_DAY" "ts mod MICROS_PER_DAY < MICROS_PER_DAY" by (simp_all add: MICROS_PER_DAY_def)
  then obtain h mi s u where "Time_Convert (ts mod MICROS_PER_DAY) = (h, mi, s, u)" "Time_IsValid h mi s u"
    by (rule Time_Convert_closed)
  moreover have "in_i64 ts" using assms by (simp add: ts_ok_def)
  ultimately show ?thesis
    using c ts_ok_valid[OF assms c] by (simp add: FromDatetime_def)
qed

lemma plus_interval_days:
  assumes "months i = 0"
  shows "date_plus_interval d i = Inr (d + interval_days i + micros i sdiv MICROS_PER_DAY)"
  using assms by (simp add: date_plus_interval_def)

lemma timestamp_plus_days:
  assumes "months i = 0" and "ts_ok (ts + interval_days i * MICROS_PER_DAY + micros i)"
  shows "timestamp_plus_interval ts i = Inr (ts + interval_days i * MICROS_PER_DAY + micros i)"
proof -
  let ?D = MICROS_PER_DAY
  define r where "r = ts + interval_days i * ?D + micros i"
  define q where "q = micros i sdiv ?D"
  define time1 where "time1 = ts mod ?D + (micros i - q * ?D)"
  define date1 where "date1 = ts div ?D + interval_days i + q"
  have D: "0 < ?D" by (simp add: MICROS_PER_DAY_def)
  have rd: "r = date1 * ?D + time1"
    using div_mult_mod_eq[of ts ?D] by (simp add: r_def date1_def time1_def algebra_simps)
  have "\<bar>micros i - q * ?D\<bar> < ?D"
  proof (cases "0 \<le> micros i")
    case True
    then show ?thesis using D by (simp add: q_def sdiv_nonneg minus_div_mult_eq_mod)
  next
    case False
    then have "micros i - q * ?D = - ((- micros i) mod ?D)"
      using minus_div_mult_eq_mod[of "- micros i" ?D] D by (simp add: q_def sdiv_nonpos)
    then show ?thesis using D by simp
  qed
  moreover have "0 \<le> ts mod ?D" "ts mod ?D < ?D" using D by simp_all
  ultimately have t: "- ?D < time1" "time1 < 2 * ?D" unfolding time1_def by linarith+
  define adj where "adj = (if time1 \<ge> ?D then (time1 - ?D, date1 + 1)
                           else if time1 < 0 then (time1 + ?D, date1 - 1) else (time1, date1))"
  have "adj = (r mod ?D, r div ?D)"
  proof -
    consider "time1 \<ge> ?D" | "time1 < 0" | "0 \<le> time1" "time1 < ?D" by linarith
    then show ?thesis
    proof cases
      case 1
      then have "r = (date1 + 1) * ?D + (time1 - ?D)" using rd by (simp add: algebra_simps)
      then show ?thesis using 1 t day_time_split[of "time1 - ?D" "date1 + 1"] by (simp add: adj_def)
    next
      case 2
      then have "r = (date1 - 1) * ?D + (time1 + ?D)" using rd by (simp add: algebra_simps)
      then show ?thesis using 2 t D day_time_split[of "time1 + ?D" "date1 - 1"] by (simp add: adj_def)
    next
      case 3
      then show ?thesis using rd by (simp add: adj_def)
    qed
  qed
  then have "timestamp_plus_interval ts i = FromDatetime (r div ?D) (r mod ?D)"
    using assms(1)
    by (auto simp: timestamp_plus_interval_def Timestamp_Convert_def GetDate_div GetTime_mod plus_interval_days
        q_def[symmetric] date1_def[symmetric] time1_def[symmetric] Let_def adj_def split: if_splits)
  then show ?thesis using FromDatetime_ok assms(2) by (simp add: r_def)
qed

text \<open>
  adding an interval without months to a timestamp adds its days and microseconds exactly, for both signs,
  whenever the result is a supported timestamp: the carry between time and date is right.
\<close>

theorem timestamp_add_interval_exact:
  assumes "months i = 0" and "ts_ok (ts + interval_days i * MICROS_PER_DAY + micros i)"
  shows "timestamp_plus_interval ts i = Inr (ts + interval_days i * MICROS_PER_DAY + micros i)"
  using assms by (rule timestamp_plus_days)

theorem timestamp_add_interval_exact_witness:
  "timestamp_plus_interval 5 \<lparr>months = 0, interval_days = 2, micros = - 7\<rparr> =
     Inr (5 + interval_days \<lparr>months = 0, interval_days = 2, micros = - 7\<rparr> * MICROS_PER_DAY +
          micros \<lparr>months = 0, interval_days = 2, micros = - 7\<rparr>)"
  by (rule timestamp_add_interval_exact) code_simp+

text \<open>
  The difference of two timestamps, added to the second, gives the first back.
\<close>

theorem timestamp_difference_roundtrip:
  assumes "ts_ok ts"
  shows "timestamp_plus_interval rhs (timestamp_minus_timestamp ts rhs) = Inr ts"
proof -
  let ?i = "timestamp_minus_timestamp ts rhs"
  have "rhs + interval_days ?i * MICROS_PER_DAY + micros ?i = ts"
    using div_mult_mod_eq[of "ts - rhs" MICROS_PER_DAY] minus_div_mult_eq_mod[of "rhs - ts" MICROS_PER_DAY, symmetric]
    by (auto simp: timestamp_minus_timestamp_def Let_def)
  moreover have "months ?i = 0" by (simp add: timestamp_minus_timestamp_def Let_def)
  ultimately show ?thesis using timestamp_plus_days[of ?i rhs] assms by simp
qed

theorem timestamp_difference_roundtrip_witness:
  "timestamp_plus_interval 1000 (timestamp_minus_timestamp (- 86400000001) 1000) = Inr (- 86400000001)"
  by (rule timestamp_difference_roundtrip) code_simp


section \<open>Text\<close>

lemma decVal_shift: "decVal a s = a * 10 ^ length s + decVal 0 s"
proof (induction s arbitrary: a)
  case (Cons c s)
  have "decVal a (c # s) = (digitValue c + a * 10) * 10 ^ length s + decVal 0 s"
    using Cons.IH[of "digitValue c + a * 10"] by simp
  also have "\<dots> = a * 10 ^ length (c # s) + (digitValue c * 10 ^ length s + decVal 0 s)"
    by (simp add: algebra_simps)
  finally show ?case using Cons.IH[of "digitValue c"] by simp
qed simp

lemma parseMicros_digits:
  "list_all CharacterIsDigit ds \<Longrightarrow> length ds \<le> Suc n \<Longrightarrow>
     parseMicros a (10 ^ n) ds = (a + decVal 0 ds * 10 ^ (Suc n - length ds), [])"
proof (induction ds arbitrary: a n)
  case (Cons c r)
  show ?case
  proof (cases n)
    case 0
    then show ?thesis using Cons.prems by simp
  next
    case (Suc k)
    have "10 ^ n sdiv 10 = (10 ^ k :: int)" by (simp add: Suc sdiv_nonneg)
    then have "parseMicros a (10 ^ n) (c # r) = (a + digitValue c * 10 ^ n + decVal 0 r * 10 ^ (n - length r), [])"
      using Cons.IH[of k "a + digitValue c * 10 ^ n"] Cons.prems by (simp add: Suc)
    moreover have "(10 :: int) ^ n = 10 ^ length r * 10 ^ (n - length r)"
      using Cons.prems(2) by (simp add: power_add[symmetric])
    ultimately show ?thesis by (simp add: decVal_shift[of "digitValue c" r] algebra_simps)
  qed
qed simp

lemma FormatUnsigned_length: "v < 10 ^ (2 * Suc k) \<Longrightarrow> length (FormatUnsigned v) \<le> 2 * Suc k"
proof (induction k arbitrary: v)
  case 0
  then show ?case by (subst FormatUnsigned.simps) simp
next
  case (Suc k)
  have "v div 100 < 10 ^ (2 * Suc k)" using Suc.prems by (simp add: div_less_iff_less_mult)
  then show ?case using Suc.IH[of "v div 100"] by (subst FormatUnsigned.simps) simp
qed

lemma microBuffer_props:
  assumes "0 \<le> u" "u < 1000000"
  shows "length (microBuffer u) = 6" "list_all CharacterIsDigit (microBuffer u)" "decVal 0 (microBuffer u) = u"
proof -
  have "length (FormatUnsigned (nat u)) \<le> 6" using FormatUnsigned_length[of "nat u" 2] assms by simp
  then show "length (microBuffer u) = 6" by (simp add: microBuffer_def Let_def)
  show "list_all CharacterIsDigit (microBuffer u)" "decVal 0 (microBuffer u) = u"
    using FormatUnsigned_value[of "nat u"] assms digit_char(1)[of 0]
    by (auto simp: microBuffer_def Let_def replicate_zero_value list_all_iff CharacterIsDigit_def)
qed

lemma decVal_zeros: "decVal a (replicate n CHR ''0'') = a * 10 ^ n"
  by (simp add: decVal_shift[of a] replicate_zero_value)

lemma micros_text:
  assumes "0 \<le> u" "u < 1000000"
  shows "parseMicros 0 100000 (take (15 - FormatMicros u - 9) (microBuffer u)) = (u, [])"
proof -
  note b = microBuffer_props[OF assms]
  obtain c r where cr: "microBuffer u = c # r" using b(1) by (cases "microBuffer u") auto
  define zs where "zs = takeWhile (\<lambda>c. c = CHR ''0'') (rev r)"
  define xs where "xs = rev (dropWhile (\<lambda>c. c = CHR ''0'') (rev r))"
  have z: "zs = replicate (FormatMicros u) CHR ''0''"
    unfolding FormatMicros_def cr zs_def list.sel
    by (rule replicate_length_same[symmetric]) (auto dest: set_takeWhileD)
  have "rev r = zs @ rev xs" by (simp add: zs_def xs_def)
  then have r: "r = xs @ replicate (FormatMicros u) CHR ''0''"
    by (metis z rev_append rev_replicate rev_rev_ident)
  have len: "length xs + FormatMicros u = 5" using b(1) cr r by simp
  have "15 - FormatMicros u - 9 = Suc (length xs)" using len by simp
  then have t: "take (15 - FormatMicros u - 9) (microBuffer u) = c # xs" using cr r by simp
  have d: "list_all CharacterIsDigit (c # xs)" using b(2) cr r by simp
  have "decVal 0 (c # xs) * 10 ^ FormatMicros u = u"
    using b(3) by (simp add: cr r decVal_zeros)
  moreover have "parseMicros 0 (10 ^ 5) (c # xs) = (0 + decVal 0 (c # xs) * 10 ^ (Suc 5 - length (c # xs)), [])"
    by (rule parseMicros_digits[OF d]) (use len in simp)
  moreover have "Suc 5 - length (c # xs) = FormatMicros u" using len by simp
  ultimately show ?thesis unfolding t by simp
qed

lemma not_digit_chars: "\<not> CharacterIsDigit CHR '':''" "\<not> CharacterIsDigit CHR ''.''"
  by code_simp+

lemma digit_not_space: "CharacterIsDigit c \<Longrightarrow> \<not> CharacterIsSpace c"
  by (auto simp: CharacterIsSpace_def CharacterIsDigit_def)

lemma Time_toString_parses:
  assumes "0 \<le> t" "t < MICROS_PER_DAY"
  shows "TryConvertTime (Time_toString t) = Some (t, [])"
proof -
  obtain h m s u where c: "Time_Convert t = (h, m, s, u)" "Time_IsValid h m s u"
      "t = ((h * 60 + m) * 60 + s) * MICROS_PER_SEC + u"
    using Time_Convert_closed[OF assms] .
  have v: "0 \<le> h" "h < 100" "0 \<le> m" "m < 100" "0 \<le> s" "s < 100" "0 \<le> u" "u < 1000000"
    using c(2) by (auto simp: Time_IsValid_def split: if_splits)
  define tail where "tail = (if u = 0 then [] else CHR ''.'' # take (15 - FormatMicros u - 9) (microBuffer u))"
  have str: "Time_toString t = formatTwoDigits h @ CHR '':'' # formatTwoDigits m @ CHR '':'' # formatTwoDigits s @ tail"
    by (simp add: Time_toString_def c(1) tail_def)
  have hd: "Time_toString t \<noteq> []" "CharacterIsDigit (hd (Time_toString t))"
    using v by (simp_all add: str formatTwoDigits_digits)
  then have drop: "dropWhile CharacterIsSpace (Time_toString t) = Time_toString t"
    using digit_not_space by (cases "Time_toString t") auto
  have tl: "(if tail \<noteq> [] \<and> hd tail = CHR ''.'' then parseMicros 0 100000 (tl tail) else (0, tail)) = (u, [])"
    using micros_text[OF v(7,8)] by (simp add: tail_def)
  have ft: "FromTime h m s u = Inr t" using c(2,3) by (simp add: FromTime_def Let_def)
  show ?thesis
    unfolding TryConvertTime_def Let_def drop using hd
    by (simp add: str ParseDoubleDigit_formatTwoDigits v tl c(2) ft split_beta)
qed

text \<open>
  C20: a timestamp of a positive supported year is printed in a form that parses back to it, with microseconds
  (printed without trailing zeros) or without.
\<close>

theorem timestamp_text_roundtrip:
  assumes "ts_ok ts" and "Convert (ts div MICROS_PER_DAY) = Inr (y, m, d)" and "1 \<le> y"
  shows "\<exists>s. Timestamp_toString ts = Inr s \<and> Timestamp_FromCString s = Inr ts"
proof -
  let ?t = "ts mod MICROS_PER_DAY"
  have t: "0 \<le> ?t" "?t < MICROS_PER_DAY" by (simp_all add: MICROS_PER_DAY_def)
  have v: "IsValid y m d" using ts_ok_valid[OF assms(1,2)] .
  have "ts div MICROS_PER_DAY = dayNumber y m d"
    by (rule Convert_dayNumber[of "ts div MICROS_PER_DAY"]) (use assms(2) in simp)
  then have "FromDate y m d = Inr (ts div MICROS_PER_DAY)" using FromDate_dayNumber[OF v] by simp
  then obtain ds where ds: "toString (ts div MICROS_PER_DAY) = Inr ds"
      "TryConvertDate ds = Inr (Some (ts div MICROS_PER_DAY))"
      "list_all (\<lambda>c. CharacterIsDigit c \<or> c = CHR ''-'') ds"
    using toString_parses[OF v assms(3)] by blast
  let ?s = "ds @ CHR '' '' # Time_toString ?t"
  have "\<not> isDateEnd c" if "CharacterIsDigit c \<or> c = CHR ''-''" for c
    using that by (auto simp: isDateEnd_def CharacterIsDigit_def)
  then have "list_all (\<lambda>c. \<not> isDateEnd c) ds" using ds(3) by (auto simp: list_all_iff)
  then have "takeWhile (\<lambda>c. \<not> isDateEnd c) ?s = ds"
    by (simp add: takeWhile_append list_all_iff isDateEnd_def)
  then have "Timestamp_FromCString ?s = Inr ts"
    using ds(2) Time_toString_parses[OF t] FromDatetime_ok[OF assms(1)]
    by (simp add: Timestamp_FromCString_def Let_def isDateEnd_def)
  moreover have "Timestamp_toString ts = Inr ?s"
    using ds(1) by (simp add: Timestamp_toString_def Timestamp_Convert_def GetDate_div GetTime_mod)
  ultimately show ?thesis by blast
qed

theorem timestamp_text_roundtrip_witness:
  "\<exists>s. Timestamp_toString 1709251199120300 = Inr s \<and> Timestamp_FromCString s = Inr 1709251199120300"
  by (rule timestamp_text_roundtrip[of _ 2024 2 29]) code_simp+

lemma month_starts: "1 \<le> m \<Longrightarrow> m \<le> 12 \<Longrightarrow> m \<noteq> 1 \<Longrightarrow> days_before y 1 + 31 \<le> days_before y m"
proof -
  have "list_all (\<lambda>m. CUMULATIVE_DAYS ! nat (m - 1) \<ge> 31 \<and> CUMULATIVE_LEAP_DAYS ! nat (m - 1) \<ge> 31) [2..12]"
    by code_simp
  then have "\<forall>m \<in> {2..12}. CUMULATIVE_DAYS ! nat (m - 1) \<ge> 31 \<and> CUMULATIVE_LEAP_DAYS ! nat (m - 1) \<ge> 31"
    unfolding list_all_iff set_upto .
  then show "1 \<le> m \<Longrightarrow> m \<le> 12 \<Longrightarrow> m \<noteq> 1 \<Longrightarrow> days_before y 1 + 31 \<le> days_before y m"
    using days_before_next(2)[of y] by (simp add: days_before_def at_def)
qed

section \<open>Where the interval and overflow arithmetic goes wrong\<close>

text \<open>
  the comparison of intervals is not antisymmetric.  Two intervals with different fields that normalise to
  the same months, days and microseconds (one month and thirty days, say) are each less than the other, because
  \<open>operator>=\<close> falls back on the field-wise \<open>operator==\<close>.
\<close>

theorem interval_less_both_ways:
  assumes "NormalizeIntervalEntries a = NormalizeIntervalEntries b" and "\<not> interval_eq a b"
  shows "interval_less a b \<and> interval_less b a \<and> interval_le a b \<and> interval_le b a"
  using assms
  by (auto simp: interval_less_def interval_ge_def interval_le_def GreaterThan_def interval_eq_def Let_def
      split: prod.splits)

theorem interval_less_both_ways_witness:
  "let a = \<lparr>months = 1, interval_days = 0, micros = 0\<rparr>; b = \<lparr>months = 0, interval_days = 30, micros = 0\<rparr>
   in interval_less a b \<and> interval_less b a \<and> interval_le a b \<and> interval_le b a"
  unfolding Let_def by (rule interval_less_both_ways) code_simp+

text \<open>Dividing a negative interval by an unsigned number wraps around.\<close>

lemma interval_div_wraps_negative:
  "interval_div \<lparr>months = - 1, interval_days = 0, micros = 0\<rparr> 3 =
     Inr \<lparr>months = 1431655765, interval_days = 0, micros = 0\<rparr>"
  by code_simp

definition getMicro :: "interval_t \<Rightarrow> int" where
  "getMicro i = micros i + months i * MICROS_PER_MONTH + interval_days i * MICROS_PER_DAY"

lemma carry_down:
  fixes M D U r a b c x y z d u :: int
  assumes "M = r * a + x" "d = r * b + y" "u = r * c + z" "D = d - x * 30" "U = u - y * 86400000000"
  shows "U + M * 2592000000000 + D * 86400000000 = r * (c + a * 2592000000000 + b * 86400000000) + z"
  unfolding assms by (simp add: algebra_simps)

lemma width_id:
  "0 \<le> x \<Longrightarrow> x < 2 ^ 64 \<Longrightarrow> to_u64 x = x"
  "0 \<le> x \<Longrightarrow> x < 2 ^ 31 \<Longrightarrow> to_i32 x = x"
  "0 \<le> x \<Longrightarrow> x < 2 ^ 63 \<Longrightarrow> to_i64 x = x"
  by (simp_all add: to_u64_def to_i32_def to_i64_def)

text \<open>
  Dividing an interval without negative fields is the exact integer division of its length in microseconds
  (with months of thirty days): the remainders of the months and of the days are carried down to the next field.
\<close>

theorem interval_div_exact:
  assumes "0 \<le> months i" "months i < 2 ^ 31" and "0 \<le> interval_days i" "interval_days i < 2 ^ 31"
    and "0 \<le> micros i" "micros i < 2 ^ 62" and "0 < r" "r \<le> 1000000"
  shows "\<exists>q. interval_div i r = Inr q \<and> getMicro q = getMicro i div r"
proof -
  let ?M = "months i" and ?D = "interval_days i" and ?U = "micros i"
  define d where "d = ?D + (?M mod r) * 30"
  define u where "u = ?U + (d mod r) * 86400000000"
  have r: "0 \<le> ?M mod r" "?M mod r < 1000000" "0 \<le> d mod r" "d mod r < 1000000"
    using assms(7,8) pos_mod_bound[of r ?M] pos_mod_bound[of r d] pos_mod_sign[of r ?M] pos_mod_sign[of r d]
    by linarith+
  have d: "0 \<le> d" "d < 2 ^ 31 + 30000000" using r assms(3,4) by (simp_all add: d_def)
  have u: "0 \<le> u" "u < 2 ^ 63" using r assms(5,6) by (simp_all add: u_def)
  have q: "0 \<le> ?M div r" "?M div r \<le> ?M" "0 \<le> d div r" "0 \<le> u div r" "u div r \<le> u"
    using assms(1,7) d(1) u(1) zdiv_mono2[of ?M 1 r] zdiv_mono2[of u 1 r] by (simp_all add: pos_imp_zdiv_nonneg_iff)
  have "d div r < 2 ^ 31"
  proof (cases "r = 1")
    case True
    then show ?thesis using assms(4) by (simp add: d_def)
  next
    case False
    then have "d div r \<le> d div 2" using assms(7) d(1) by (intro zdiv_mono2) auto
    moreover have "d div 2 * 2 \<le> d" by (simp add: minus_mod_eq_div_mult[symmetric])
    ultimately show ?thesis using d(2) by simp
  qed
  then have "interval_div i r = Inr \<lparr>months = ?M div r, interval_days = d div r, micros = u div r\<rparr>"
    using assms q r d u
    by (simp add: interval_div_def Let_def width_id DAYS_PER_MONTH_def MICROS_PER_DAY_def d_def[symmetric] u_def[symmetric])
  moreover have "?U + ?M * 2592000000000 + ?D * 86400000000 =
      r * (u div r + ?M div r * 2592000000000 + d div r * 86400000000) + u mod r"
    by (rule carry_down[where x = "?M mod r" and y = "d mod r" and d = d and u = u]) (simp_all add: d_def u_def)
  then have "getMicro i div r = u div r + ?M div r * 2592000000000 + d div r * 86400000000"
    using assms(7) by (intro int_div_pos_eq[where r = "u mod r"])
      (simp_all add: getMicro_def MICROS_PER_MONTH_def MICROS_PER_DAY_def DAYS_PER_MONTH_def)
  ultimately show ?thesis by (simp add: getMicro_def MICROS_PER_MONTH_def MICROS_PER_DAY_def DAYS_PER_MONTH_def)
qed

theorem interval_div_exact_witness:
  "\<exists>q. interval_div \<lparr>months = 7, interval_days = 1, micros = 5\<rparr> 2 = Inr q \<and>
       getMicro q = getMicro \<lparr>months = 7, interval_days = 1, micros = 5\<rparr> div 2"
  by (rule interval_div_exact) simp_all

text \<open>
  The end of the last supported year.  From 11 January 294247 on, every date of that year is accepted as
  valid, but its number of microseconds exceeds 64 bits and the conversion to a timestamp overflows.
\<close>

theorem FromDatetime_overflows_in_last_year:
  assumes "IsValid 294247 m d" and "1 < m \<or> 11 \<le> d" and "FromDate 294247 m d = Inr n"
  shows "FromDatetime n 0 = Inl (UndefinedBehaviour ''signed overflow'')"
proof -
  have v: "1 \<le> m" "m \<le> 12" "1 \<le> d" "d \<le> month_len 294247 m" using assms(1) by (auto simp: IsValid_iff)
  have n: "n = dayNumber 294247 m d" using assms(1,3) FromDate_dayNumber by simp
  have base: "dayNumber 294247 1 1 = 106751982" by code_simp
  have "dayNumber 294247 1 11 \<le> dayNumber 294247 m d"
    using assms(2) v month_starts[of m 294247] by (cases "m = 1") (auto simp: dayNumber_def)
  then have "106751992 \<le> n" using base n by (simp add: dayNumber_def)
  then have "\<not> in_i64 (n * MICROS_PER_DAY)" by (simp add: in_i64_def MICROS_PER_DAY_def)
  moreover have "Convert n = Inr (294247, m, d)" using Convert_valid[OF assms(1)] n by simp
  moreover have "Time_Convert 0 = (0, 0, 0, 0)" "Time_IsValid 0 0 0 0" by code_simp+
  ultimately show ?thesis using assms(1) by (simp add: FromDatetime_def)
qed

theorem FromDatetime_overflows_in_last_year_witness:
  "FromDatetime 106751992 0 = Inl (UndefinedBehaviour ''signed overflow'')"
  by (rule FromDatetime_overflows_in_last_year[of 1 11]) code_simp+

end
