(* ===== verification/In_Mem_Hash_Index.thy ===== *)
theory In_Mem_Hash_Index
  imports Interfaces "HOL-Library.Multiset"
begin

text \<open>
  The linear-hashing index of node identifiers: \<^verbatim>\<open>src/src/storage/index/in_mem_hash_index.cpp\<close> with
  \<^verbatim>\<open>include/in_mem_hash_index.h\<close>, for INT64 keys (\<open>hashFuncForInt64\<close>, \<open>equalsFuncForInt64\<close>,
  \<open>insertFuncForInt64\<close> of \<^verbatim>\<open>hash_index_utils\<close>).

  Primary and overflow slots live in pages of one file; \<open>SlotArray\<close> maps slot identifiers to pages.  A page holds
  the slots themselves instead of their bytes.  A pointer to a slot is its \<open>SlotInfo\<close>, read and written through
  the page it lies in.  Slot identifiers and page indices are natural numbers, hashes are 64-bit words.  Loops
  along a chain of overflow slots take fuel: a cyclic chain would make the C++ loop run forever (\<open>Blocks\<close>).
\<close>

unbundle bit_operations_syntax

section \<open>Slots\<close>

definition SLOT_CAPACITY :: nat where "SLOT_CAPACITY = 4"

type_synonym key = u64
type_synonym entry = "key \<times> u64"

record slot =
  numEntries :: nat
  validityMask :: u32
  nextOvfSlotId :: nat
  slotEntries :: "entry list"

definition emptySlot :: slot where
  "emptySlot = \<lparr>numEntries = 0, validityMask = 0, nextOvfSlotId = 0,
                slotEntries = replicate SLOT_CAPACITY (0, 0)\<rparr>"

definition resetSlot :: "slot \<Rightarrow> slot" where
  "resetSlot s = s\<lparr>numEntries := 0, validityMask := 0, nextOvfSlotId := 0\<rparr>"

definition isEntryValid :: "slot \<Rightarrow> nat \<Rightarrow> bool" where
  "isEntryValid s entryPos \<longleftrightarrow> validityMask s AND push_bit entryPos 1 \<noteq> 0"

definition setEntryInvalid :: "slot \<Rightarrow> nat \<Rightarrow> slot" where
  "setEntryInvalid s entryPos = s\<lparr>validityMask := validityMask s AND NOT (push_bit entryPos 1)\<rparr>"

definition setEntryValid :: "slot \<Rightarrow> nat \<Rightarrow> slot" where
  "setEntryValid s entryPos = s\<lparr>validityMask := validityMask s OR push_bit entryPos 1\<rparr>"

text \<open>The counter of entries is an unsigned byte.\<close>

definition incNumEntries :: "slot \<Rightarrow> slot" where
  "incNumEntries s = s\<lparr>numEntries := (numEntries s + 1) mod 256\<rparr>"

definition decNumEntries :: "slot \<Rightarrow> slot" where
  "decNumEntries s = s\<lparr>numEntries := (numEntries s + 255) mod 256\<rparr>"

text \<open>The first entry that is valid and has the key; the position 255 is \<open>INVALID_ENTRY_POS\<close>.\<close>

definition INVALID_ENTRY_POS :: nat where "INVALID_ENTRY_POS = 255"

definition findMatchedEntryInSlotWithoutLock :: "slot \<Rightarrow> key \<Rightarrow> nat" where
  "findMatchedEntryInSlotWithoutLock s key =
     (case find (\<lambda>i. isEntryValid s i \<and> fst (slotEntries s ! i) = key) [0..<SLOT_CAPACITY] of
        Some i \<Rightarrow> i | None \<Rightarrow> INVALID_ENTRY_POS)"

definition lookupOrExistsInSlotWithoutLock :: "slot \<Rightarrow> key \<Rightarrow> u64 option" where
  "lookupOrExistsInSlotWithoutLock s key =
     (case find (\<lambda>i. isEntryValid s i \<and> fst (slotEntries s ! i) = key) [0..<SLOT_CAPACITY] of
        Some i \<Rightarrow> Some (snd (slotEntries s ! i)) | None \<Rightarrow> None)"

text \<open>The loop that writes an entry into the first free position (of \<open>insertToSlotWithoutLock\<close>).\<close>

definition putEntry :: "slot \<Rightarrow> entry \<Rightarrow> slot" where
  "putEntry s e =
     (case find (\<lambda>i. \<not> isEntryValid s i) [0..<SLOT_CAPACITY] of
        Some i \<Rightarrow> incNumEntries (setEntryValid (s\<lparr>slotEntries := (slotEntries s)[i := e]\<rparr>) i)
      | None \<Rightarrow> s)"

section \<open>Slot arrays and their pages\<close>

record HashIndexHeader =
  numSlotsPerPage :: nat
  currentLevel :: nat
  levelHashMask :: u64
  higherLevelHashMask :: u64
  nextSplitSlotId :: nat
  pPagesMapperFirstPageIdx :: nat
  oPagesMapperFirstPageIdx :: nat

text \<open>A page holds slots, the words of a mapper page, or the header.\<close>

datatype hpage = SlotPage "slot list" | WordPage "nat list" | HeaderPage HashIndexHeader

record SlotArray =
  pagesLogicalToPhysicalMapper :: "nat list"
  slotsPerPage :: nat
  nextSlotIdToAllocate :: nat
  hasMutexes :: bool
  mutexes :: "bool list"

definition zeroPage :: "nat \<Rightarrow> hpage" where
  "zeroPage spp = SlotPage (replicate spp emptySlot)"

definition addANewPage :: "nat \<Rightarrow> hpage list \<Rightarrow> nat \<times> hpage list" where
  "addANewPage spp file = (length file, file @ [zeroPage spp])"

primrec addNewPagesWithoutLock :: "nat \<Rightarrow> SlotArray \<Rightarrow> hpage list \<Rightarrow> SlotArray \<times> hpage list" where
  "addNewPagesWithoutLock 0 a file = (a, file)"
| "addNewPagesWithoutLock (Suc n) a file =
     (let (p, file1) = addANewPage (slotsPerPage a) file
      in addNewPagesWithoutLock n
           (a\<lparr>pagesLogicalToPhysicalMapper := pagesLogicalToPhysicalMapper a @ [p]\<rparr>) file1)"

definition addSlotMutexesForPagesWithoutLock :: "nat \<Rightarrow> SlotArray \<Rightarrow> SlotArray" where
  "addSlotMutexesForPagesWithoutLock n a = a\<lparr>mutexes := mutexes a @ replicate (n * slotsPerPage a) False\<rparr>"

text \<open>\<open>addNewPagesWithoutLock\<close> is virtual: the array with mutexes extends them too.\<close>

definition addNewPages :: "nat \<Rightarrow> SlotArray \<Rightarrow> hpage list \<Rightarrow> SlotArray \<times> hpage list" where
  "addNewPages n a file =
     (let (a1, file1) = addNewPagesWithoutLock n a file
      in (if hasMutexes a then addSlotMutexesForPagesWithoutLock n a1 else a1, file1))"

definition allocateSlotWithoutLock :: "SlotArray \<Rightarrow> hpage list \<Rightarrow> nat \<times> SlotArray \<times> hpage list" where
  "allocateSlotWithoutLock a file =
     (let (a1, file1) = (if nextSlotIdToAllocate a mod slotsPerPage a = 0 then addNewPages 1 a file else (a, file))
      in (nextSlotIdToAllocate a1, a1\<lparr>nextSlotIdToAllocate := nextSlotIdToAllocate a1 + 1\<rparr>, file1))"

definition getPageCursorForSlot :: "SlotArray \<Rightarrow> nat \<Rightarrow> (nat \<times> nat) result" where
  "getPageCursorForSlot a slotId =
     (let logicalPageIdx = slotId div slotsPerPage a
      in if logicalPageIdx < length (pagesLogicalToPhysicalMapper a)
         then Inr (pagesLogicalToPhysicalMapper a ! logicalPageIdx, slotId mod slotsPerPage a)
         else Inl (UndefinedBehaviour ''slot beyond the allocated pages''))"

definition lockSlotMutex :: "SlotArray \<Rightarrow> nat \<Rightarrow> SlotArray result" where
  "lockSlotMutex a slotId =
     (if slotId < length (mutexes a)
      then if mutexes a ! slotId then Inl Blocks else Inr (a\<lparr>mutexes := (mutexes a)[slotId := True]\<rparr>)
      else Inl (UndefinedBehaviour ''mutexes''))"

definition unlockSlotMutex :: "SlotArray \<Rightarrow> nat \<Rightarrow> SlotArray" where
  "unlockSlotMutex a slotId = a\<lparr>mutexes := (mutexes a)[slotId := False]\<rparr>"

section \<open>The index\<close>

record InMemHashIndex =
  indexHeader :: HashIndexHeader
  pSlots :: SlotArray
  oSlots :: SlotArray
  inMemFile :: "hpage list"
  numEntriesInIndex :: nat

record SlotInfo =
  slotId :: nat
  isPSlot :: bool

abbreviation PSlot :: "nat \<Rightarrow> SlotInfo" where "PSlot i \<equiv> \<lparr>slotId = i, isPSlot = True\<rparr>"
abbreviation OSlot :: "nat \<Rightarrow> SlotInfo" where "OSlot i \<equiv> \<lparr>slotId = i, isPSlot = False\<rparr>"

definition murmurhash64 :: "u64 \<Rightarrow> u64" where
  "murmurhash64 x = x * 0xbf58476d1ce4e5b9"

definition getPrimarySlotIdForKey :: "HashIndexHeader \<Rightarrow> key \<Rightarrow> nat" where
  "getPrimarySlotIdForKey h key =
     (let hash = murmurhash64 key; slotId = unat (hash AND levelHashMask h)
      in if slotId < nextSplitSlotId h then unat (hash AND higherLevelHashMask h) else slotId)"

text \<open>The masks are computed in 32-bit \<open>int\<close>, so a level above 29 overflows.\<close>

definition incrementLevel :: "HashIndexHeader \<Rightarrow> HashIndexHeader result" where
  "incrementLevel h =
     (let l = currentLevel h + 1
      in if l + 1 < 31
         then Inr (h\<lparr>currentLevel := l, nextSplitSlotId := 0, levelHashMask := push_bit l 1 - 1,
                      higherLevelHashMask := push_bit (l + 1) 1 - 1\<rparr>)
         else Inl (UndefinedBehaviour ''shift''))"

definition incrementNextSplitSlotId :: "HashIndexHeader \<Rightarrow> HashIndexHeader result" where
  "incrementNextSplitSlotId h =
     (if nextSplitSlotId h < 2 ^ currentLevel h - 1 then Inr (h\<lparr>nextSplitSlotId := nextSplitSlotId h + 1\<rparr>)
      else incrementLevel h)"

definition newHashIndexHeader :: "nat \<Rightarrow> HashIndexHeader" where
  "newHashIndexHeader keySize =
     \<lparr>numSlotsPerPage = DEFAULT_PAGE_SIZE div ((keySize + 8) * SLOT_CAPACITY + 16), currentLevel = 1,
      levelHashMask = 1, higherLevelHashMask = 3, nextSplitSlotId = 0, pPagesMapperFirstPageIdx = 0,
      oPagesMapperFirstPageIdx = 0\<rparr>"

definition newSlotArray :: "nat \<Rightarrow> bool \<Rightarrow> SlotArray" where
  "newSlotArray spp m =
     \<lparr>pagesLogicalToPhysicalMapper = [], slotsPerPage = spp, nextSlotIdToAllocate = 0, hasMutexes = m, mutexes = []\<rparr>"

definition newInMemHashIndex :: InMemHashIndex where
  "newInMemHashIndex =
     (let h = newHashIndexHeader 8; file0 = [zeroPage (numSlotsPerPage h)];
          (p, file1) = addNewPages 1 (newSlotArray (numSlotsPerPage h) True) file0;
          (_, o1, file2) = allocateSlotWithoutLock (newSlotArray (numSlotsPerPage h) False) file1
      in \<lparr>indexHeader = h, pSlots = p\<lparr>nextSlotIdToAllocate := 2\<rparr>, oSlots = o1, inMemFile = file2,
          numEntriesInIndex = 0\<rparr>)"

definition arrayOf :: "InMemHashIndex \<Rightarrow> SlotInfo \<Rightarrow> SlotArray" where
  "arrayOf st info = (if isPSlot info then pSlots st else oSlots st)"

text \<open>Reading and writing through the pointer that \<open>getSlot\<close> returns.\<close>

definition readSlot :: "hpage list \<Rightarrow> nat \<times> nat \<Rightarrow> slot result" where
  "readSlot file c =
     (if fst c < length file
      then case file ! fst c of
        SlotPage ss \<Rightarrow> if snd c < length ss then Inr (ss ! snd c) else Inl (UndefinedBehaviour ''page'')
      | _ \<Rightarrow> Inl (UndefinedBehaviour ''page'')
      else Inl (UndefinedBehaviour ''page''))"

definition getSlot :: "InMemHashIndex \<Rightarrow> SlotInfo \<Rightarrow> slot result" where
  "getSlot st info = bind_result (getPageCursorForSlot (arrayOf st info) (slotId info)) (readSlot (inMemFile st))"

definition setSlot :: "InMemHashIndex \<Rightarrow> SlotInfo \<Rightarrow> slot \<Rightarrow> InMemHashIndex" where
  "setSlot st info s =
     (case getPageCursorForSlot (arrayOf st info) (slotId info) of
        Inl _ \<Rightarrow> st
      | Inr (pg, pos) \<Rightarrow>
          (case inMemFile st ! pg of
             SlotPage ss \<Rightarrow> st\<lparr>inMemFile := (inMemFile st)[pg := SlotPage (ss[pos := s])]\<rparr>
           | _ \<Rightarrow> st))"

definition allocateOSlot :: "InMemHashIndex \<Rightarrow> nat \<times> InMemHashIndex" where
  "allocateOSlot st =
     (let (i, a, file) = allocateSlotWithoutLock (oSlots st) (inMemFile st)
      in (i, st\<lparr>oSlots := a, inMemFile := file\<rparr>))"

definition allocatePSlot :: "InMemHashIndex \<Rightarrow> nat \<times> InMemHashIndex" where
  "allocatePSlot st =
     (let (i, a, file) = allocateSlotWithoutLock (pSlots st) (inMemFile st)
      in (i, st\<lparr>pSlots := a, inMemFile := file\<rparr>))"

text \<open>As much fuel as there are overflow slots is enough for a chain without a cycle.\<close>

definition chainFuel :: "InMemHashIndex \<Rightarrow> nat" where
  "chainFuel st = nextSlotIdToAllocate (oSlots st) + 2"

fun lookupLoop :: "nat \<Rightarrow> InMemHashIndex \<Rightarrow> SlotInfo \<Rightarrow> key \<Rightarrow> u64 option result" where
  "lookupLoop 0 st info key = Inl Blocks"
| "lookupLoop (Suc n) st info key =
     (if isPSlot info \<or> slotId info > 0
      then bind_result (getSlot st info) (\<lambda>s.
        case lookupOrExistsInSlotWithoutLock s key of
          Some v \<Rightarrow> Inr (Some v)
        | None \<Rightarrow> lookupLoop n st (OSlot (nextOvfSlotId s)) key)
      else Inr None)"

definition lookupInternalWithoutLock :: "InMemHashIndex \<Rightarrow> key \<Rightarrow> u64 option result" where
  "lookupInternalWithoutLock st key =
     lookupLoop (chainFuel st) st (PSlot (getPrimarySlotIdForKey (indexHeader st) key)) key"

definition insertToSlotWithoutLock :: "InMemHashIndex \<Rightarrow> SlotInfo \<Rightarrow> entry \<Rightarrow> InMemHashIndex result" where
  "insertToSlotWithoutLock st info e =
     bind_result (getSlot st info) (\<lambda>s.
       if numEntries s = SLOT_CAPACITY
       then let (ovfSlotId, st1) = allocateOSlot st;
                st2 = setSlot st1 info (s\<lparr>nextOvfSlotId := ovfSlotId\<rparr>)
            in bind_result (getSlot st2 (OSlot ovfSlotId)) (\<lambda>t. Inr (setSlot st2 (OSlot ovfSlotId) (putEntry t e)))
       else Inr (setSlot st info (putEntry s e)))"

fun copyLoop :: "nat \<Rightarrow> InMemHashIndex \<Rightarrow> SlotInfo \<Rightarrow> SlotInfo \<Rightarrow> SlotInfo result" where
  "copyLoop 0 st info cur = Inl Blocks"
| "copyLoop (Suc n) st info cur =
     (if isPSlot info \<or> slotId info > 0
      then bind_result (getSlot st info) (\<lambda>s.
        if numEntries s \<noteq> SLOT_CAPACITY then Inr info else copyLoop n st (OSlot (nextOvfSlotId s)) info)
      else Inr cur)"

text \<open>The rest of \<open>copyEntryToSlotWithoutLock\<close> is \<open>insertToSlotWithoutLock\<close> on the entry's bytes.\<close>

definition copyEntryToSlotWithoutLock :: "InMemHashIndex \<Rightarrow> nat \<Rightarrow> entry \<Rightarrow> InMemHashIndex result" where
  "copyEntryToSlotWithoutLock st i e =
     bind_result (copyLoop (chainFuel st) st (PSlot i) (PSlot i)) (\<lambda>info. insertToSlotWithoutLock st info e)"

fun getPAndOSlotsLoop :: "nat \<Rightarrow> InMemHashIndex \<Rightarrow> SlotInfo \<Rightarrow> SlotInfo list result" where
  "getPAndOSlotsLoop 0 st info = Inl Blocks"
| "getPAndOSlotsLoop (Suc n) st info =
     (if isPSlot info \<or> slotId info \<noteq> 0
      then bind_result (getSlot st info) (\<lambda>s.
             bind_result (getPAndOSlotsLoop n st (OSlot (nextOvfSlotId s))) (\<lambda>rest. Inr (info # rest)))
      else Inr [])"

definition getPAndOSlotsWithoutLock :: "InMemHashIndex \<Rightarrow> nat \<Rightarrow> SlotInfo list result" where
  "getPAndOSlotsWithoutLock st pSlotId = getPAndOSlotsLoop (chainFuel st) st (PSlot pSlotId)"

text \<open>
  One slot of the chain: its header is copied and reset, then the entries that the copy marks as valid are
  copied one by one to the slots of the next level.  The entry is read from the slot as it is at that moment.
\<close>

fun rehashEntries :: "nat list \<Rightarrow> InMemHashIndex \<Rightarrow> SlotInfo \<Rightarrow> slot \<Rightarrow> InMemHashIndex result" where
  "rehashEntries [] st info hdr = Inr st"
| "rehashEntries (entryPos # ps) st info hdr =
     (if \<not> isEntryValid hdr entryPos then rehashEntries ps st info hdr
      else bind_result (getSlot st info) (\<lambda>s.
        let e = slotEntries s ! entryPos;
            newSlotId = unat (murmurhash64 (fst e) AND higherLevelHashMask (indexHeader st))
        in bind_result (copyEntryToSlotWithoutLock st newSlotId e) (\<lambda>st1. rehashEntries ps st1 info hdr)))"

fun rehashSlots :: "SlotInfo list \<Rightarrow> InMemHashIndex \<Rightarrow> InMemHashIndex result" where
  "rehashSlots [] st = Inr st"
| "rehashSlots (info # infos) st =
     bind_result (getSlot st info) (\<lambda>hdr.
       bind_result (rehashEntries [0..<SLOT_CAPACITY] (setSlot st info (resetSlot hdr)) info hdr)
         (\<lambda>st1. rehashSlots infos st1))"

definition rehashSlotsWithoutLock :: "InMemHashIndex \<Rightarrow> InMemHashIndex result" where
  "rehashSlotsWithoutLock st =
     bind_result (getPAndOSlotsWithoutLock st (nextSplitSlotId (indexHeader st))) (\<lambda>slots. rehashSlots slots st)"

definition splitSlotWithoutLock :: "InMemHashIndex \<Rightarrow> InMemHashIndex result" where
  "splitSlotWithoutLock st =
     (let (_, st1) = allocatePSlot st
      in bind_result (rehashSlotsWithoutLock st1) (\<lambda>st2.
           bind_result (incrementNextSplitSlotId (indexHeader st2)) (\<lambda>h. Inr (st2\<lparr>indexHeader := h\<rparr>))))"

text \<open>\<open>ceil(n * DEFAULT_HT_LOAD_FACTOR)\<close> with the load factor 1.5.\<close>

definition requiredEntries :: "nat \<Rightarrow> nat" where
  "requiredEntries n = (3 * n + 1) div 2"

fun splitLoop :: "nat \<Rightarrow> InMemHashIndex \<Rightarrow> nat \<Rightarrow> InMemHashIndex result" where
  "splitLoop n st required =
     (if required > nextSlotIdToAllocate (pSlots st) * SLOT_CAPACITY
      then (case n of 0 \<Rightarrow> Inl Blocks
            | Suc m \<Rightarrow> bind_result (splitSlotWithoutLock st) (\<lambda>st1. splitLoop m st1 required))
      else Inr st)"

declare splitLoop.simps [simp del]

text \<open>None: the key exists.  Otherwise the slot the entry goes to (or whose chain is extended).\<close>

fun appendLoop :: "nat \<Rightarrow> InMemHashIndex \<Rightarrow> SlotInfo \<Rightarrow> SlotInfo \<Rightarrow> key \<Rightarrow> SlotInfo option result" where
  "appendLoop 0 st info cur key = Inl Blocks"
| "appendLoop (Suc n) st info cur key =
     (if isPSlot info \<or> slotId info > 0
      then bind_result (getSlot st info) (\<lambda>s.
        if lookupOrExistsInSlotWithoutLock s key \<noteq> None then Inr None
        else if numEntries s < SLOT_CAPACITY then Inr (Some info)
        else appendLoop n st (OSlot (nextOvfSlotId s)) info key)
      else Inr (Some cur))"

definition appendInternal :: "InMemHashIndex \<Rightarrow> key \<Rightarrow> u64 \<Rightarrow> (bool \<times> InMemHashIndex) result" where
  "appendInternal st0 key value =
     bind_result (splitLoop (requiredEntries (numEntriesInIndex st0 + 1)) st0 (requiredEntries (numEntriesInIndex st0 + 1)))
       (\<lambda>st. let i = getPrimarySlotIdForKey (indexHeader st) key
        in bind_result (lockSlotMutex (pSlots st) i) (\<lambda>locked.
             let st1 = st\<lparr>pSlots := locked\<rparr>
             in bind_result (appendLoop (chainFuel st1) st1 (PSlot i) (PSlot i) key) (\<lambda>r.
                  case r of
                    None \<Rightarrow> Inr (False, st1\<lparr>pSlots := unlockSlotMutex (pSlots st1) i\<rparr>)
                  | Some info \<Rightarrow>
                      bind_result (insertToSlotWithoutLock st1 info (key, value)) (\<lambda>st2.
                        Inr (True, st2\<lparr>pSlots := unlockSlotMutex (pSlots st2) i,
                                       numEntriesInIndex := numEntriesInIndex st2 + 1\<rparr>)))))"

text \<open>None: not found.\<close>

fun deleteLoop :: "nat \<Rightarrow> InMemHashIndex \<Rightarrow> SlotInfo \<Rightarrow> key \<Rightarrow> InMemHashIndex option result" where
  "deleteLoop 0 st info key = Inl Blocks"
| "deleteLoop (Suc n) st info key =
     (if isPSlot info \<or> slotId info > 0
      then bind_result (getSlot st info) (\<lambda>s.
        let entryPos = findMatchedEntryInSlotWithoutLock s key
        in if entryPos \<noteq> INVALID_ENTRY_POS
           then Inr (Some (setSlot st info (decNumEntries (setEntryInvalid s entryPos))))
           else deleteLoop n st (OSlot (nextOvfSlotId s)) key)
      else Inr None)"

definition deleteInternal :: "InMemHashIndex \<Rightarrow> key \<Rightarrow> (bool \<times> InMemHashIndex) result" where
  "deleteInternal st key =
     (let i = getPrimarySlotIdForKey (indexHeader st) key
      in bind_result (lockSlotMutex (pSlots st) i) (\<lambda>locked.
           let st1 = st\<lparr>pSlots := locked\<rparr>
           in bind_result (deleteLoop (chainFuel st1) st1 (PSlot i) key) (\<lambda>r.
                case r of
                  None \<Rightarrow> Inr (False, st1\<lparr>pSlots := unlockSlotMutex (pSlots st1) i\<rparr>)
                | Some st2 \<Rightarrow> Inr (True, st2\<lparr>pSlots := unlockSlotMutex (pSlots st2) i,
                                              numEntriesInIndex := numEntriesInIndex st2 - 1\<rparr>))))"

text \<open>The loop that raises the level; \<open>n\<close> is \<open>numSlotsOfCurrentLevel\<close>.\<close>

fun reserveLevels :: "nat \<Rightarrow> HashIndexHeader \<Rightarrow> nat \<Rightarrow> nat \<Rightarrow> (HashIndexHeader \<times> nat) result" where
  "reserveLevels fuel h n required =
     (if n * 2 < required
      then (case fuel of 0 \<Rightarrow> Inl Blocks
            | Suc m \<Rightarrow> bind_result (incrementLevel h) (\<lambda>h1. reserveLevels m h1 (n * 2) required))
      else Inr (h, n))"

declare reserveLevels.simps [simp del]

definition bulkReserve :: "InMemHashIndex \<Rightarrow> nat \<Rightarrow> InMemHashIndex result" where
  "bulkReserve st numNewEntries =
     (let required = (requiredEntries (numEntriesInIndex st + numNewEntries) + SLOT_CAPACITY - 1) div SLOT_CAPACITY
      in bind_result (reserveLevels 64 (indexHeader st) (2 ^ currentLevel (indexHeader st)) required) (\<lambda>(h, n).
           let h1 = h\<lparr>nextSplitSlotId := (required + 2 ^ 64 - n) mod 2 ^ 64\<rparr>;
               pages = (required + numSlotsPerPage h - 1) div numSlotsPerPage h;
               (p, file) = addNewPages pages (pSlots st) (inMemFile st)
           in Inr (st\<lparr>indexHeader := h1, pSlots := p\<lparr>nextSlotIdToAllocate := required\<rparr>, inMemFile := file\<rparr>)))"


section \<open>One slot\<close>

text \<open>The valid positions of a slot, its entries in order, and what a well-formed slot is.\<close>

definition validPos :: "slot \<Rightarrow> nat list" where
  "validPos s = filter (isEntryValid s) [0..<SLOT_CAPACITY]"

definition entriesOf :: "slot \<Rightarrow> entry list" where
  "entriesOf s = map ((!) (slotEntries s)) (validPos s)"

definition slot_ok :: "slot \<Rightarrow> bool" where
  [inv_simps]: "slot_ok s \<longleftrightarrow> length (slotEntries s) = SLOT_CAPACITY \<and> numEntries s = length (validPos s) \<and>
     distinct (map fst (entriesOf s))"

lemma isEntryValid_bit: "i < 32 \<Longrightarrow> isEntryValid s i \<longleftrightarrow> bit (validityMask s) i"
  by (auto simp: isEntryValid_def and_exp_eq_0_iff_not_bit push_bit_of_1)

lemma isEntryValid_set [simp]:
  "i < 32 \<Longrightarrow> j < 32 \<Longrightarrow> isEntryValid (setEntryValid s i) j \<longleftrightarrow> j = i \<or> isEntryValid s j"
  "i < 32 \<Longrightarrow> j < 32 \<Longrightarrow> isEntryValid (setEntryInvalid s i) j \<longleftrightarrow> j \<noteq> i \<and> isEntryValid s j"
  by (auto simp: isEntryValid_bit setEntryValid_def setEntryInvalid_def bit_simps)

lemma isEntryValid_more [simp]:
  "isEntryValid (s\<lparr>slotEntries := es\<rparr>) = isEntryValid s"
  "isEntryValid (s\<lparr>numEntries := n\<rparr>) = isEntryValid s"
  "isEntryValid (s\<lparr>nextOvfSlotId := i\<rparr>) = isEntryValid s"
  "isEntryValid (incNumEntries s) = isEntryValid s"
  "isEntryValid (decNumEntries s) = isEntryValid s"
  by (auto simp: isEntryValid_def incNumEntries_def decNumEntries_def)

lemma slot_fields [simp]:
  "slotEntries (incNumEntries s) = slotEntries s" "slotEntries (decNumEntries s) = slotEntries s"
  "slotEntries (setEntryValid s i) = slotEntries s" "slotEntries (setEntryInvalid s i) = slotEntries s"
  "nextOvfSlotId (incNumEntries s) = nextOvfSlotId s" "nextOvfSlotId (decNumEntries s) = nextOvfSlotId s"
  "nextOvfSlotId (setEntryValid s i) = nextOvfSlotId s" "nextOvfSlotId (setEntryInvalid s i) = nextOvfSlotId s"
  "numEntries (setEntryValid s i) = numEntries s" "numEntries (setEntryInvalid s i) = numEntries s"
  "slotEntries (resetSlot s) = slotEntries s" "nextOvfSlotId (resetSlot s) = 0" "numEntries (resetSlot s) = 0"
  by (simp_all add: incNumEntries_def decNumEntries_def setEntryValid_def setEntryInvalid_def resetSlot_def)

lemma capacity_less: "i < SLOT_CAPACITY \<Longrightarrow> i < 32"
  by (simp add: SLOT_CAPACITY_def)

lemma validPos_le: "length (validPos s) \<le> SLOT_CAPACITY"
  by (simp add: validPos_def) (metis length_filter_le length_upt diff_zero)

lemma slot_ok_next [simp]: "slot_ok (s\<lparr>nextOvfSlotId := i\<rparr>) \<longleftrightarrow> slot_ok s"
  "entriesOf (s\<lparr>nextOvfSlotId := i\<rparr>) = entriesOf s"
  by (simp_all add: slot_ok_def entriesOf_def validPos_def)

lemma resetSlot_ok: "length (slotEntries s) = SLOT_CAPACITY \<Longrightarrow> slot_ok (resetSlot s)" "entriesOf (resetSlot s) = []"
  by (simp_all add: slot_ok_def entriesOf_def validPos_def resetSlot_def isEntryValid_def)

lemma emptySlot_ok [simp]: "slot_ok emptySlot" "entriesOf emptySlot = []" "nextOvfSlotId emptySlot = 0"
  "numEntries emptySlot = 0"
  by (simp_all add: emptySlot_def slot_ok_def entriesOf_def validPos_def isEntryValid_def)

lemma find_valid_key:
  assumes "slot_ok s"
  shows "find (\<lambda>i. isEntryValid s i \<and> fst (slotEntries s ! i) = k) [0..<SLOT_CAPACITY] = Some i \<longleftrightarrow>
           i < SLOT_CAPACITY \<and> isEntryValid s i \<and> fst (slotEntries s ! i) = k"
proof -
  have inj: "inj_on (\<lambda>i. fst (slotEntries s ! i)) (set (validPos s))"
    using assms by (simp add: slot_ok_def entriesOf_def distinct_map comp_def)
  then have uniq: "j = i" if "i < SLOT_CAPACITY" "j < SLOT_CAPACITY" "isEntryValid s i" "isEntryValid s j"
      "fst (slotEntries s ! i) = k" "fst (slotEntries s ! j) = k" for i j
    using that by (auto simp: inj_on_def validPos_def)
  have "find (\<lambda>i. isEntryValid s i \<and> fst (slotEntries s ! i) = k) [0..<SLOT_CAPACITY] = Some i \<longleftrightarrow>
      i < SLOT_CAPACITY \<and> (isEntryValid s i \<and> fst (slotEntries s ! i) = k) \<and>
      (\<forall>j < i. \<not> (isEntryValid s j \<and> fst (slotEntries s ! j) = k))"
    by (auto simp: find_Some_iff)
  moreover have "\<not> (isEntryValid s j \<and> fst (slotEntries s ! j) = k)"
    if "i < SLOT_CAPACITY" "isEntryValid s i" "fst (slotEntries s ! i) = k" "j < i" for j
    using uniq[of i j] that by auto
  ultimately show ?thesis by blast
qed

lemma lookup_in_slot:
  assumes "slot_ok s"
  shows "lookupOrExistsInSlotWithoutLock s k = map_of (entriesOf s) k"
proof (cases "find (\<lambda>i. isEntryValid s i \<and> fst (slotEntries s ! i) = k) [0..<SLOT_CAPACITY]")
  case None
  then have "\<forall>e \<in> set (entriesOf s). fst e \<noteq> k"
    by (auto simp: find_None_iff entriesOf_def validPos_def)
  then have "map_of (entriesOf s) k = None" by (auto simp: map_of_eq_None_iff)
  then show ?thesis using None by (simp add: lookupOrExistsInSlotWithoutLock_def)
next
  case (Some i)
  then have i: "i < SLOT_CAPACITY" "isEntryValid s i" "fst (slotEntries s ! i) = k"
    using find_valid_key[OF assms] by auto
  then have "slotEntries s ! i \<in> set (entriesOf s)" by (auto simp: entriesOf_def validPos_def)
  then have "map_of (entriesOf s) k = Some (snd (slotEntries s ! i))"
    using assms i(3) by (intro map_of_is_SomeI) (auto simp: slot_ok_def)
  then show ?thesis using Some by (simp add: lookupOrExistsInSlotWithoutLock_def)
qed

text \<open>Writing an entry into a slot that is not full.\<close>

definition validSet :: "slot \<Rightarrow> nat set" where
  "validSet s = {i. i < SLOT_CAPACITY \<and> isEntryValid s i}"

lemma validPos_set: "set (validPos s) = validSet s" "length (validPos s) = card (validSet s)" "finite (validSet s)"
proof -
  show 1: "set (validPos s) = validSet s" by (auto simp: validPos_def validSet_def)
  have "distinct (validPos s)" by (simp add: validPos_def)
  then show "length (validPos s) = card (validSet s)" using distinct_card[of "validPos s"] 1 by simp
  show "finite (validSet s)" unfolding 1[symmetric] by simp
qed

lemma slot_ok_iff:
  "slot_ok s \<longleftrightarrow> length (slotEntries s) = SLOT_CAPACITY \<and> numEntries s = card (validSet s) \<and>
     inj_on (\<lambda>i. fst (slotEntries s ! i)) (validSet s)"
proof -
  have "distinct (validPos s)" by (simp add: validPos_def)
  then have "distinct (map fst (entriesOf s)) \<longleftrightarrow> inj_on (\<lambda>i. fst (slotEntries s ! i)) (validSet s)"
    by (simp add: entriesOf_def comp_def distinct_map validPos_set)
  then show ?thesis by (simp add: slot_ok_def validPos_set)
qed

lemma set_entriesOf: "set (entriesOf s) = (!) (slotEntries s) ` validSet s"
  by (simp add: entriesOf_def validPos_set)

lemma free_position:
  assumes "slot_ok s" "numEntries s < SLOT_CAPACITY"
  obtains i where "find (\<lambda>i. \<not> isEntryValid s i) [0..<SLOT_CAPACITY] = Some i" "i < SLOT_CAPACITY" "i \<notin> validSet s"
    "\<And>j. j < i \<Longrightarrow> j \<in> validSet s"
proof -
  have "\<not> {0..<SLOT_CAPACITY} \<subseteq> validSet s"
    using assms card_mono[OF validPos_set(3), of "{0..<SLOT_CAPACITY}" s] by (auto simp: slot_ok_iff)
  then obtain j where "j \<in> {0..<SLOT_CAPACITY}" "j \<notin> validSet s" by blast
  then have "find (\<lambda>i. \<not> isEntryValid s i) [0..<SLOT_CAPACITY] \<noteq> None" by (auto simp: find_None_iff validSet_def)
  then obtain i where i: "find (\<lambda>i. \<not> isEntryValid s i) [0..<SLOT_CAPACITY] = Some i" by auto
  then have "i < SLOT_CAPACITY \<and> \<not> isEntryValid s i \<and> (\<forall>j < i. isEntryValid s j)"
    by (auto simp: find_Some_iff)
  then show thesis using that[OF i] by (auto simp: validSet_def)
qed

lemma validSet_put:
  assumes "find (\<lambda>i. \<not> isEntryValid s i) [0..<SLOT_CAPACITY] = Some i" "i < SLOT_CAPACITY"
  shows "validSet (putEntry s e) = insert i (validSet s)"
    and "slotEntries (putEntry s e) = (slotEntries s)[i := e]"
    and "numEntries (putEntry s e) = (numEntries s + 1) mod 256"
    and "nextOvfSlotId (putEntry s e) = nextOvfSlotId s"
  using assms capacity_less by (auto simp: putEntry_def validSet_def incNumEntries_def)

lemma putEntry_props:
  assumes "slot_ok s" "numEntries s < SLOT_CAPACITY" "fst e \<notin> fst ` set (entriesOf s)"
  shows "slot_ok (putEntry s e)" and "numEntries (putEntry s e) = numEntries s + 1"
    and "set (entriesOf (putEntry s e)) = insert e (set (entriesOf s))"
    and "nextOvfSlotId (putEntry s e) = nextOvfSlotId s"
proof -
  obtain i where i: "find (\<lambda>i. \<not> isEntryValid s i) [0..<SLOT_CAPACITY] = Some i" "i < SLOT_CAPACITY" "i \<notin> validSet s"
    using free_position[OF assms(1,2)] by blast
  note p = validSet_put[OF i(1,2), of e]
  have len: "length (slotEntries s) = SLOT_CAPACITY" and n: "numEntries s = card (validSet s)"
    and inj: "inj_on (\<lambda>i. fst (slotEntries s ! i)) (validSet s)" using assms(1) by (auto simp: slot_ok_iff)
  have at: "slotEntries (putEntry s e) ! j = (if j = i then e else slotEntries s ! j)" for j
    using i(2) len by (simp add: p(2))
  have img: "(!) (slotEntries (putEntry s e)) ` validSet s = (!) (slotEntries s) ` validSet s"
    using i(3) by (intro image_cong) (auto simp: at)
  show "set (entriesOf (putEntry s e)) = insert e (set (entriesOf s))"
    unfolding set_entriesOf p(1) image_insert img by (simp add: at)
  show "nextOvfSlotId (putEntry s e) = nextOvfSlotId s" by (rule p(4))
  show nn: "numEntries (putEntry s e) = numEntries s + 1" using assms(2) p(3) by (simp add: SLOT_CAPACITY_def)
  have "inj_on (\<lambda>j. fst (slotEntries (putEntry s e) ! j)) (validSet s)"
    using inj i(3) by (auto simp: inj_on_def at)
  moreover have "fst e \<notin> (\<lambda>j. fst (slotEntries (putEntry s e) ! j)) ` (validSet s - {i})"
    using assms(3) by (auto simp: set_entriesOf at)
  ultimately show "slot_ok (putEntry s e)"
    using len nn n i(2,3) validPos_set(3)[of s] by (simp add: slot_ok_iff p(1,2) at)
qed

lemma removeEntry_props:
  assumes "slot_ok s" "i \<in> validSet s"
  defines "t \<equiv> decNumEntries (setEntryInvalid s i)"
  shows "slot_ok t" and "set (entriesOf t) = {e \<in> set (entriesOf s). fst e \<noteq> fst (slotEntries s ! i)}"
    and "nextOvfSlotId t = nextOvfSlotId s"
proof -
  have i: "i < SLOT_CAPACITY" "i < 32" using assms(2) capacity_less by (auto simp: validSet_def)
  have v: "validSet t = validSet s - {i}"
    using i capacity_less by (auto simp: t_def validSet_def)
  have es: "slotEntries t = slotEntries s" by (simp add: t_def)
  have inj: "inj_on (\<lambda>i. fst (slotEntries s ! i)) (validSet s)" using assms(1) by (simp add: slot_ok_iff)
  have card: "1 \<le> card (validSet s)" "card (validSet s) \<le> 4"
    using assms(2) validPos_set[of s] validPos_le[of s] by (auto simp: SLOT_CAPACITY_def Suc_le_eq card_gt_0_iff)
  have n: "numEntries s = card (validSet s)" using assms(1) by (simp add: slot_ok_iff)
  have "(card (validSet s) + 255) mod 256 = card (validSet s) - 1"
  proof -
    have "card (validSet s) + 255 = (card (validSet s) - 1) + 256" using card by simp
    then show ?thesis using card by (metis mod_add_self2 mod_less le_less_trans diff_le_self numeral_less_iff semiring_norm(78,80,81,76))
  qed
  moreover have "numEntries t = (numEntries s + 255) mod 256" by (simp add: t_def decNumEntries_def)
  ultimately have "numEntries t = card (validSet t)"
    using assms(2) validPos_set(3)[of s] by (simp add: v n)
  then show "slot_ok t" using assms(1) inj by (auto simp: slot_ok_iff es v intro: inj_on_subset)
  show "set (entriesOf t) = {e \<in> set (entriesOf s). fst e \<noteq> fst (slotEntries s ! i)}"
    using inj assms(2) by (auto simp: set_entriesOf es v inj_on_def)
  show "nextOvfSlotId t = nextOvfSlotId s" by (simp add: t_def)
qed


section \<open>The pages as a memory of slots\<close>

definition capacity :: "SlotArray \<Rightarrow> nat" where
  "capacity a = length (pagesLogicalToPhysicalMapper a) * slotsPerPage a"

definition inRange :: "InMemHashIndex \<Rightarrow> SlotInfo \<Rightarrow> bool" where
  "inRange st x \<longleftrightarrow> slotId x < capacity (arrayOf st x)"

text \<open>
  Every page of the two mappers is a page of slots of the file, and no page is used twice; page 0 is kept for the
  header.
\<close>

definition slotPageAt :: "nat \<Rightarrow> hpage list \<Rightarrow> nat \<Rightarrow> bool" where
  "slotPageAt spp file pg \<longleftrightarrow> 0 < pg \<and> pg < length file \<and> (\<exists>ss. file ! pg = SlotPage ss \<and> length ss = spp)"

definition pages_wf :: "InMemHashIndex \<Rightarrow> bool" where
  [inv_simps]: "pages_wf st \<longleftrightarrow> inMemFile st \<noteq> [] \<and>
     0 < numSlotsPerPage (indexHeader st) \<and> slotsPerPage (pSlots st) = numSlotsPerPage (indexHeader st) \<and>
     slotsPerPage (oSlots st) = numSlotsPerPage (indexHeader st) \<and> hasMutexes (pSlots st) \<and> \<not> hasMutexes (oSlots st) \<and>
     distinct (pagesLogicalToPhysicalMapper (pSlots st) @ pagesLogicalToPhysicalMapper (oSlots st)) \<and>
     (\<forall>pg \<in> set (pagesLogicalToPhysicalMapper (pSlots st) @ pagesLogicalToPhysicalMapper (oSlots st)).
        slotPageAt (numSlotsPerPage (indexHeader st)) (inMemFile st) pg)"

definition mem :: "InMemHashIndex \<Rightarrow> SlotInfo \<Rightarrow> slot" where
  "mem st x = (case getSlot st x of Inr s \<Rightarrow> s | Inl _ \<Rightarrow> emptySlot)"

definition cursor :: "InMemHashIndex \<Rightarrow> SlotInfo \<Rightarrow> nat \<times> nat" where
  "cursor st x = (pagesLogicalToPhysicalMapper (arrayOf st x) ! (slotId x div numSlotsPerPage (indexHeader st)),
                  slotId x mod numSlotsPerPage (indexHeader st))"

lemma pages_wf_array:
  assumes "pages_wf st"
  shows "slotsPerPage (arrayOf st x) = numSlotsPerPage (indexHeader st)" and "0 < numSlotsPerPage (indexHeader st)"
  using assms by (auto simp: pages_wf_def arrayOf_def)

lemma inRange_page:
  assumes "pages_wf st"
  shows "inRange st x \<longleftrightarrow> slotId x div numSlotsPerPage (indexHeader st) < length (pagesLogicalToPhysicalMapper (arrayOf st x))"
  using pages_wf_array(1)[OF assms, of x] pages_wf_array(2)[OF assms] by (simp add: inRange_def capacity_def div_less_iff_less_mult)

lemma getPageCursor_ok:
  assumes "pages_wf st"
  shows "getPageCursorForSlot (arrayOf st x) (slotId x) =
    (if inRange st x then Inr (cursor st x) else Inl (UndefinedBehaviour ''slot beyond the allocated pages''))"
  using pages_wf_array(1)[OF assms, of x] pages_wf_array(2)[OF assms] inRange_page[OF assms, of x]
  by (simp add: getPageCursorForSlot_def cursor_def)

lemma cursor_page:
  assumes "pages_wf st" "inRange st x"
  obtains ss where "fst (cursor st x) < length (inMemFile st)" "inMemFile st ! fst (cursor st x) = SlotPage ss"
    "length ss = numSlotsPerPage (indexHeader st)" "snd (cursor st x) < length ss"
proof -
  have "fst (cursor st x) \<in> set (pagesLogicalToPhysicalMapper (arrayOf st x))"
    using assms inRange_page by (simp add: cursor_def)
  then have "slotPageAt (numSlotsPerPage (indexHeader st)) (inMemFile st) (fst (cursor st x))"
    using assms(1) by (auto simp: pages_wf_def arrayOf_def split: if_splits)
  then obtain ss where ss: "fst (cursor st x) < length (inMemFile st)" "inMemFile st ! fst (cursor st x) = SlotPage ss"
      "length ss = numSlotsPerPage (indexHeader st)" by (auto simp: slotPageAt_def)
  moreover have "snd (cursor st x) < length ss"
    using ss(3) pages_wf_array(2)[OF assms(1)] by (simp add: cursor_def)
  ultimately show thesis by (rule that)
qed

lemma cursor_inj:
  assumes "pages_wf st" "inRange st x" "inRange st y" "cursor st x = cursor st y"
  shows "x = y"
proof -
  let ?P = "pagesLogicalToPhysicalMapper (pSlots st)" and ?O = "pagesLogicalToPhysicalMapper (oSlots st)"
  let ?n = "numSlotsPerPage (indexHeader st)"
  have d: "distinct ?P" "distinct ?O" "set ?P \<inter> set ?O = {}" using assms(1) by (auto simp: pages_wf_def)
  have x: "slotId x div ?n < length (pagesLogicalToPhysicalMapper (arrayOf st x))"
    and y: "slotId y div ?n < length (pagesLogicalToPhysicalMapper (arrayOf st y))"
    using assms inRange_page by auto
  have e: "pagesLogicalToPhysicalMapper (arrayOf st x) ! (slotId x div ?n) =
           pagesLogicalToPhysicalMapper (arrayOf st y) ! (slotId y div ?n)" "slotId x mod ?n = slotId y mod ?n"
    using assms(4) by (simp_all add: cursor_def)
  have k: "isPSlot x = isPSlot y"
  proof (rule ccontr)
    assume "isPSlot x \<noteq> isPSlot y"
    then consider "isPSlot x" "\<not> isPSlot y" | "\<not> isPSlot x" "isPSlot y" by blast
    then show False
    proof cases
      case 1
      then have "?P ! (slotId x div ?n) \<in> set ?P" "?O ! (slotId y div ?n) \<in> set ?O"
        using x y by (simp_all add: arrayOf_def)
      then show False using e(1) d(3) 1 by (auto simp: arrayOf_def)
    next
      case 2
      then have "?O ! (slotId x div ?n) \<in> set ?O" "?P ! (slotId y div ?n) \<in> set ?P"
        using x y by (simp_all add: arrayOf_def)
      then show False using e(1) d(3) 2 by (auto simp: arrayOf_def)
    qed
  qed
  then have "slotId x div ?n = slotId y div ?n"
    using e(1) x y d(1,2) by (auto simp: arrayOf_def nth_eq_iff_index_eq split: if_splits)
  then have "slotId x = slotId y" using e(2) by (rule div_mod_inj)
  then show ?thesis using k by (cases x; cases y) simp
qed

lemma getSlot_ok: "pages_wf st \<Longrightarrow> inRange st x \<Longrightarrow> getSlot st x = Inr (mem st x)"
  by (rule cursor_page[of st x]) (auto simp: mem_def getSlot_def getPageCursor_ok readSlot_def)

lemma mem_out: "pages_wf st \<Longrightarrow> \<not> inRange st x \<Longrightarrow> mem st x = emptySlot"
  by (simp add: mem_def getSlot_def getPageCursor_ok)

lemma setSlot_fields [simp]:
  "indexHeader (setSlot st x s) = indexHeader st" "pSlots (setSlot st x s) = pSlots st"
  "oSlots (setSlot st x s) = oSlots st" "numEntriesInIndex (setSlot st x s) = numEntriesInIndex st"
  "arrayOf (setSlot st x s) y = arrayOf st y" "inRange (setSlot st x s) y = inRange st y"
  "cursor (setSlot st x s) y = cursor st y"
  by (auto simp: setSlot_def arrayOf_def inRange_def cursor_def split: sum.splits hpage.splits)

lemma setSlot_file:
  assumes "pages_wf st" "inRange st x" "inMemFile st ! fst (cursor st x) = SlotPage ss"
  shows "inMemFile (setSlot st x s) = (inMemFile st)[fst (cursor st x) := SlotPage (ss[snd (cursor st x) := s])]"
  using assms getPageCursor_ok[OF assms(1), of x] by (simp add: setSlot_def split_beta)

lemma setSlot_wf:
  assumes "pages_wf st" "inRange st x"
  shows "pages_wf (setSlot st x s)"
proof -
  obtain ss where ss: "fst (cursor st x) < length (inMemFile st)" "inMemFile st ! fst (cursor st x) = SlotPage ss"
      "length ss = numSlotsPerPage (indexHeader st)"
    using cursor_page[OF assms] by blast
  then have "slotPageAt n (inMemFile (setSlot st x s)) pg" if "slotPageAt n (inMemFile st) pg" for n pg
    using that by (auto simp: slotPageAt_def setSlot_file[OF assms ss(2)] nth_list_update)
  moreover have "inMemFile (setSlot st x s) \<noteq> []" using setSlot_file[OF assms ss(2)] assms(1) by (simp add: pages_wf_def)
  ultimately show ?thesis using assms(1) by (auto simp: pages_wf_def)
qed

lemma mem_setSlot:
  assumes "pages_wf st" "inRange st x"
  shows "mem (setSlot st x s) = (mem st)(x := s)"
proof
  fix y
  obtain ss where ss: "fst (cursor st x) < length (inMemFile st)" "inMemFile st ! fst (cursor st x) = SlotPage ss"
      "length ss = numSlotsPerPage (indexHeader st)" "snd (cursor st x) < length ss"
    using cursor_page[OF assms] by blast
  note f = setSlot_file[OF assms ss(2), of s]
  note wf = setSlot_wf[OF assms, of s]
  show "mem (setSlot st x s) y = ((mem st)(x := s)) y"
  proof (cases "inRange st y")
    case False
    then show ?thesis using mem_out[OF wf, of y] mem_out[OF assms(1), of y] assms(2) by auto
  next
    case True
    have "cursor st y \<noteq> cursor st x" if "y \<noteq> x" using cursor_inj[OF assms(1) True assms(2)] that by blast
    then have "readSlot (inMemFile (setSlot st x s)) (cursor st y) =
        (if y = x then Inr s else readSlot (inMemFile st) (cursor st y))"
      using ss by (auto simp: f readSlot_def nth_list_update prod_eq_iff split: hpage.splits)
    then show ?thesis
      using True by (simp add: mem_def getSlot_def getPageCursor_ok[OF wf] getPageCursor_ok[OF assms(1)]
          getPageCursor_ok[OF wf, simplified] split: sum.splits)
  qed
qed


text \<open>New pages are zeroed, and the default outside the pages is the empty slot: the memory does not change.\<close>

lemma addNewPagesWithoutLock_closed:
  "addNewPagesWithoutLock n a fl =
     (a\<lparr>pagesLogicalToPhysicalMapper := pagesLogicalToPhysicalMapper a @ [length fl..<length fl + n]\<rparr>,
      fl @ replicate n (zeroPage (slotsPerPage a)))"
proof (induction n arbitrary: a fl)
  case (Suc n)
  have "[length fl..<length fl + Suc n] = length fl # [Suc (length fl)..<Suc (length fl) + n]"
    by (simp add: upt_conv_Cons)
  then show ?case by (simp add: Suc addANewPage_def)
qed simp

definition extendArray :: "nat \<Rightarrow> SlotArray \<Rightarrow> hpage list \<Rightarrow> SlotArray" where
  "extendArray n a file = fst (addNewPages n a file)"

lemma addNewPages_closed:
  "addNewPages n a file = (extendArray n a file, file @ replicate n (zeroPage (slotsPerPage a)))"
  by (simp add: extendArray_def addNewPages_def addNewPagesWithoutLock_closed split_beta)

lemma extendArray_fields [simp]:
  "pagesLogicalToPhysicalMapper (extendArray n a file) = pagesLogicalToPhysicalMapper a @ [length file..<length file + n]"
  "slotsPerPage (extendArray n a file) = slotsPerPage a"
  "nextSlotIdToAllocate (extendArray n a file) = nextSlotIdToAllocate a"
  "hasMutexes (extendArray n a file) = hasMutexes a"
  "mutexes (extendArray n a file) = mutexes a @ (if hasMutexes a then replicate (n * slotsPerPage a) False else [])"
  "capacity (extendArray n a file) = capacity a + n * slotsPerPage a"
  by (simp_all add: extendArray_def addNewPages_def addNewPagesWithoutLock_closed split_beta
      addSlotMutexesForPagesWithoutLock_def capacity_def algebra_simps)

definition withArray :: "bool \<Rightarrow> SlotArray \<Rightarrow> InMemHashIndex \<Rightarrow> InMemHashIndex" where
  "withArray p a st = (if p then st\<lparr>pSlots := a\<rparr> else st\<lparr>oSlots := a\<rparr>)"

definition extended :: "bool \<Rightarrow> nat \<Rightarrow> InMemHashIndex \<Rightarrow> InMemHashIndex" where
  "extended p n st = withArray p (extendArray n (arrayOf st \<lparr>slotId = 0, isPSlot = p\<rparr>) (inMemFile st))
     (st\<lparr>inMemFile := inMemFile st @ replicate n (zeroPage (numSlotsPerPage (indexHeader st)))\<rparr>)"

lemma extended_fields [simp]:
  "indexHeader (extended p n st) = indexHeader st" "numEntriesInIndex (extended p n st) = numEntriesInIndex st"
  "inMemFile (extended p n st) = inMemFile st @ replicate n (zeroPage (numSlotsPerPage (indexHeader st)))"
  "pSlots (extended p n st) = (if p then extendArray n (pSlots st) (inMemFile st) else pSlots st)"
  "oSlots (extended p n st) = (if p then oSlots st else extendArray n (oSlots st) (inMemFile st))"
  by (simp_all add: extended_def withArray_def arrayOf_def)

lemma extended_wf:
  assumes "pages_wf st"
  shows "pages_wf (extended p n st)"
proof -
  let ?spp = "numSlotsPerPage (indexHeader st)"
  have old: "slotPageAt ?spp (inMemFile (extended p n st)) pg" if "slotPageAt ?spp (inMemFile st) pg" for pg
    using that by (auto simp: slotPageAt_def nth_append)
  have new: "slotPageAt ?spp (inMemFile (extended p n st)) pg"
    if "length (inMemFile st) \<le> pg" "pg < length (inMemFile st) + n" for pg
    using that assms by (auto simp: slotPageAt_def nth_append zeroPage_def pages_wf_def)
  have wf: "\<forall>pg \<in> set (pagesLogicalToPhysicalMapper (pSlots st) @ pagesLogicalToPhysicalMapper (oSlots st)).
        slotPageAt (numSlotsPerPage (indexHeader st)) (inMemFile st) pg"
    using assms unfolding pages_wf_def by blast
  have bound: "pg < length (inMemFile st)"
    if "pg \<in> set (pagesLogicalToPhysicalMapper (pSlots st)) \<or> pg \<in> set (pagesLogicalToPhysicalMapper (oSlots st))" for pg
    using bspec[OF wf, of pg] that by (simp add: slotPageAt_def)
  have fresh: "set (pagesLogicalToPhysicalMapper (pSlots st)) \<inter> {length (inMemFile st)..<length (inMemFile st) + n} = {}"
      "set (pagesLogicalToPhysicalMapper (oSlots st)) \<inter> {length (inMemFile st)..<length (inMemFile st) + n} = {}"
    by (auto simp: disjoint_iff) (meson bound leD)+
  let ?M = "pagesLogicalToPhysicalMapper (pSlots (extended p n st)) @ pagesLogicalToPhysicalMapper (oSlots (extended p n st))"
  have M: "set ?M = set (pagesLogicalToPhysicalMapper (pSlots st) @ pagesLogicalToPhysicalMapper (oSlots st)) \<union>
      {length (inMemFile st)..<length (inMemFile st) + n}" by (auto split: if_splits)
  have "distinct ?M" using assms fresh by (cases p) (auto simp: pages_wf_def)
  moreover have "\<forall>pg \<in> set ?M. slotPageAt ?spp (inMemFile (extended p n st)) pg"
  proof
    fix pg assume "pg \<in> set ?M"
    then consider "pg \<in> set (pagesLogicalToPhysicalMapper (pSlots st) @ pagesLogicalToPhysicalMapper (oSlots st))"
      | "length (inMemFile st) \<le> pg" "pg < length (inMemFile st) + n" unfolding M by auto
    then show "slotPageAt ?spp (inMemFile (extended p n st)) pg"
      using assms old new by cases (auto simp: pages_wf_def simp del: extended_fields)
  qed
  ultimately show ?thesis using assms unfolding pages_wf_def by simp
qed

lemma extended_inRange: "inRange st x \<Longrightarrow> inRange (extended p n st) x"
  by (auto simp: inRange_def arrayOf_def)

lemma extended_cursor:
  assumes "pages_wf st" "inRange st x"
  shows "cursor (extended p n st) x = cursor st x"
  using assms inRange_page by (auto simp: cursor_def arrayOf_def nth_append)

lemma extended_mem:
  assumes "pages_wf st"
  shows "mem (extended p n st) = mem st"
proof
  fix x
  note wf = extended_wf[OF assms, of p n]
  show "mem (extended p n st) x = mem st x"
  proof (cases "inRange st x")
    case True
    obtain ss where "fst (cursor st x) < length (inMemFile st)" "inMemFile st ! fst (cursor st x) = SlotPage ss"
      using cursor_page[OF assms True] by blast
    then show ?thesis
      using True extended_inRange[OF True, of p n] extended_cursor[OF assms True, of p n]
      by (simp add: mem_def getSlot_def getPageCursor_ok[OF wf] getPageCursor_ok[OF assms] readSlot_def nth_append)
  next
    case out: False
    show ?thesis
    proof (cases "inRange (extended p n st) x")
      case True
      let ?q = "slotId x div numSlotsPerPage (indexHeader st)" and ?a = "arrayOf st x"
      have k: "isPSlot x = p" using True out by (auto simp: inRange_def arrayOf_def split: if_splits)
      have q: "\<not> ?q < length (pagesLogicalToPhysicalMapper ?a)" using out inRange_page[OF assms] by simp
      have "?q < length (pagesLogicalToPhysicalMapper ?a) + n"
        using True inRange_page[OF wf] k by (simp add: arrayOf_def split: if_splits)
      then have "fst (cursor (extended p n st) x) = length (inMemFile st) + (?q - length (pagesLogicalToPhysicalMapper ?a))"
        using q k by (auto simp: cursor_def arrayOf_def nth_append)
      moreover have "?q - length (pagesLogicalToPhysicalMapper ?a) < n" using q \<open>?q < _ + n\<close> by simp
      moreover have "snd (cursor (extended p n st) x) < numSlotsPerPage (indexHeader st)"
        using pages_wf_array(2)[OF assms] by (simp add: cursor_def)
      ultimately have "readSlot (inMemFile (extended p n st)) (cursor (extended p n st) x) = Inr emptySlot"
        by (simp add: readSlot_def nth_append zeroPage_def)
      then show ?thesis using True out
        by (simp add: mem_def getSlot_def getPageCursor_ok[OF wf] getPageCursor_ok[OF assms])
    next
      case False
      then show ?thesis using mem_out[OF wf] mem_out[OF assms out] by simp
    qed
  qed
qed

text \<open>Changes of the index that keep the pages.\<close>

lemma same_pages:
  assumes "pagesLogicalToPhysicalMapper (pSlots st') = pagesLogicalToPhysicalMapper (pSlots st)"
    and "pagesLogicalToPhysicalMapper (oSlots st') = pagesLogicalToPhysicalMapper (oSlots st)"
    and "slotsPerPage (pSlots st') = slotsPerPage (pSlots st)" "slotsPerPage (oSlots st') = slotsPerPage (oSlots st)"
    and "hasMutexes (pSlots st') = hasMutexes (pSlots st)" "hasMutexes (oSlots st') = hasMutexes (oSlots st)"
    and "inMemFile st' = inMemFile st" "numSlotsPerPage (indexHeader st') = numSlotsPerPage (indexHeader st)"
  shows "pages_wf st' = pages_wf st" and "mem st' = mem st" and "inRange st' x = inRange st x"
proof -
  show "pages_wf st' = pages_wf st" by (simp add: pages_wf_def assms)
  show "inRange st' x = inRange st x" by (simp add: inRange_def capacity_def arrayOf_def assms)
  show "mem st' = mem st"
    by (rule ext) (simp add: mem_def getSlot_def getPageCursorForSlot_def arrayOf_def Let_def assms)
qed

text \<open>Allocating a slot: the new slot is in range and empty, everything else is as before.\<close>

definition allocated :: "bool \<Rightarrow> InMemHashIndex \<Rightarrow> InMemHashIndex" where
  "allocated p st =
     (let st1 = (if nextSlotIdToAllocate (arrayOf st \<lparr>slotId = 0, isPSlot = p\<rparr>) mod numSlotsPerPage (indexHeader st) = 0
                 then extended p 1 st else st);
          a = arrayOf st1 \<lparr>slotId = 0, isPSlot = p\<rparr>
      in withArray p (a\<lparr>nextSlotIdToAllocate := nextSlotIdToAllocate a + 1\<rparr>) st1)"

lemma allocate_eq:
  assumes "pages_wf st"
  shows "allocateOSlot st = (nextSlotIdToAllocate (oSlots st), allocated False st)"
    and "allocatePSlot st = (nextSlotIdToAllocate (pSlots st), allocated True st)"
  using assms
  by (auto simp: allocateOSlot_def allocatePSlot_def allocateSlotWithoutLock_def addNewPages_closed allocated_def
      extended_def withArray_def arrayOf_def pages_wf_def Let_def)

lemma allocated_fields [simp]:
  "indexHeader (allocated p st) = indexHeader st" "numEntriesInIndex (allocated p st) = numEntriesInIndex st"
  "nextSlotIdToAllocate (pSlots (allocated p st)) = nextSlotIdToAllocate (pSlots st) + of_bool p"
  "nextSlotIdToAllocate (oSlots (allocated p st)) = nextSlotIdToAllocate (oSlots st) + of_bool (\<not> p)"
  by (simp_all add: allocated_def withArray_def arrayOf_def Let_def)

lemma allocated_mem:
  assumes "pages_wf st"
  shows "pages_wf (allocated p st)" and "mem (allocated p st) = mem st"
    and "inRange st x \<Longrightarrow> inRange (allocated p st) x"
proof -
  define st1 where "st1 = (if nextSlotIdToAllocate (arrayOf st \<lparr>slotId = 0, isPSlot = p\<rparr>) mod numSlotsPerPage (indexHeader st) = 0
                 then extended p 1 st else st)"
  have 1: "pages_wf st1" "mem st1 = mem st" "inRange st x \<Longrightarrow> inRange st1 x"
    using assms extended_wf extended_mem extended_inRange by (auto simp: st1_def)
  have alloc: "allocated p st = withArray p ((arrayOf st1 \<lparr>slotId = 0, isPSlot = p\<rparr>)\<lparr>nextSlotIdToAllocate :=
      nextSlotIdToAllocate (arrayOf st1 \<lparr>slotId = 0, isPSlot = p\<rparr>) + 1\<rparr>) st1"
    unfolding allocated_def st1_def[symmetric] Let_def ..
  have "pages_wf (allocated p st) = pages_wf st1" "mem (allocated p st) = mem st1"
      "inRange (allocated p st) x = inRange st1 x"
    unfolding alloc by (rule same_pages; simp add: withArray_def arrayOf_def)+
  then show "pages_wf (allocated p st)" "mem (allocated p st) = mem st" "inRange st x \<Longrightarrow> inRange (allocated p st) x"
    using 1 by auto
qed

lemma allocated_room:
  assumes "pages_wf st" "nextSlotIdToAllocate (arrayOf st x) \<le> capacity (arrayOf st x)"
  shows "nextSlotIdToAllocate (arrayOf (allocated p st) x) \<le> capacity (arrayOf (allocated p st) x)"
proof -
  let ?n = "numSlotsPerPage (indexHeader st)" and ?k = "nextSlotIdToAllocate (arrayOf st x)"
  have n: "slotsPerPage (arrayOf st x) = ?n" "0 < ?n" using pages_wf_array[OF assms(1)] by auto
  have "?k < capacity (arrayOf st x)" if "?k mod ?n \<noteq> 0"
    using assms(2) that n by (auto simp: capacity_def order_le_less)
  then show ?thesis
    using assms(2) n
    by (cases "?k mod ?n = 0"; cases p; cases "isPSlot x")
      (auto simp: allocated_def withArray_def arrayOf_def Let_def capacity_def)
qed


section \<open>Chains of slots\<close>

text \<open>
  The structure of an index over its memory of slots: \<open>C i\<close> lists the overflow slots of primary slot \<open>i\<close> in
  chain order, \<open>prim\<close> says which primary slot a key belongs to, and \<open>kv\<close> is the map the index stands for.
\<close>

fun linked :: "(SlotInfo \<Rightarrow> slot) \<Rightarrow> SlotInfo \<Rightarrow> nat list \<Rightarrow> bool" where
  "linked M x [] \<longleftrightarrow> nextOvfSlotId (M x) = 0"
| "linked M x (i # ids) \<longleftrightarrow> nextOvfSlotId (M x) = i \<and> i \<noteq> 0 \<and> linked M (OSlot i) ids"

definition chain :: "nat \<Rightarrow> nat list \<Rightarrow> SlotInfo list" where
  "chain i ids = PSlot i # map OSlot ids"

definition keysOf :: "slot \<Rightarrow> key set" where
  "keysOf s = fst ` set (entriesOf s)"

definition content :: "(SlotInfo \<Rightarrow> slot) \<Rightarrow> SlotInfo list \<Rightarrow> entry set" where
  "content M xs = (\<Union>x \<in> set xs. set (entriesOf (M x)))"

definition disjointKeys :: "(SlotInfo \<Rightarrow> slot) \<Rightarrow> SlotInfo list \<Rightarrow> bool" where
  "disjointKeys M xs \<longleftrightarrow> (\<forall>a \<in> set xs. \<forall>b \<in> set xs. a \<noteq> b \<longrightarrow> keysOf (M a) \<inter> keysOf (M b) = {})"

definition belongs :: "(key \<rightharpoonup> u64) \<Rightarrow> (key \<Rightarrow> nat) \<Rightarrow> nat \<Rightarrow> entry set" where
  "belongs kv prim i = {e. kv (fst e) = Some (snd e) \<and> prim (fst e) = i}"

definition layout ::
  "(SlotInfo \<Rightarrow> slot) \<Rightarrow> nat \<Rightarrow> nat \<Rightarrow> (nat \<Rightarrow> nat list) \<Rightarrow> (key \<Rightarrow> nat) \<Rightarrow> (key \<rightharpoonup> u64) \<Rightarrow> bool" where
  [inv_simps]: "layout M pN oN C prim kv \<longleftrightarrow>
     1 \<le> oN \<and> (\<forall>x. slot_ok (M x)) \<and>
     (\<forall>i < pN. linked M (PSlot i) (C i)) \<and> (\<forall>i < pN. set (C i) \<subseteq> {1..<oN}) \<and> (\<forall>i < pN. distinct (C i)) \<and>
     (\<forall>i < pN. \<forall>j < pN. i \<noteq> j \<longrightarrow> set (C i) \<inter> set (C j) = {}) \<and>
     (\<forall>i < pN. content M (chain i (C i)) = belongs kv prim i) \<and>
     (\<forall>i < pN. disjointKeys M (chain i (C i))) \<and>
     (\<forall>k \<in> dom kv. prim k < pN) \<and>
     (\<forall>i \<ge> pN. M (PSlot i) = emptySlot) \<and> (\<forall>i \<ge> oN. M (OSlot i) = emptySlot)"

lemma linked_cong:
  "(\<And>y. y \<in> set (x # map OSlot ids) \<Longrightarrow> nextOvfSlotId (M' y) = nextOvfSlotId (M y)) \<Longrightarrow> linked M' x ids = linked M x ids"
  by (induction ids arbitrary: x) auto

lemma linked_nonzero: "linked M x ids \<Longrightarrow> 0 \<notin> set ids"
  by (induction ids arbitrary: x) auto

lemma linked_last: "linked M x ids \<Longrightarrow> nextOvfSlotId (M (last (x # map OSlot ids))) = 0"
  by (induction ids arbitrary: x) auto

lemma linked_snoc:
  assumes "linked M x ids" "distinct (x # map OSlot (ids @ [n]))" "n \<noteq> 0"
    and "nextOvfSlotId (M' (last (x # map OSlot ids))) = n" "nextOvfSlotId (M' (OSlot n)) = 0"
    and "\<And>y. y \<in> set (x # map OSlot ids) \<Longrightarrow> y \<noteq> last (x # map OSlot ids) \<Longrightarrow> nextOvfSlotId (M' y) = nextOvfSlotId (M y)"
  shows "linked M' x (ids @ [n])"
  using assms
proof (induction ids arbitrary: x)
  case (Cons i ids)
  have last: "last (x # map OSlot (i # ids)) = last (OSlot i # map OSlot ids)" by simp
  have "x \<noteq> last (OSlot i # map OSlot ids)"
    using Cons.prems(2) last_in_set[of "OSlot i # map OSlot ids"] by auto
  then have "nextOvfSlotId (M' x) = nextOvfSlotId (M x)" using Cons.prems(6)[of x] last by simp
  moreover have "linked M' (OSlot i) (ids @ [n])"
    using Cons.prems by (intro Cons.IH) (auto simp: last)
  ultimately show ?case using Cons.prems(1) by simp
qed simp

lemma content_upd:
  assumes "t \<in> set xs"
  shows "content (M(t := s)) xs = set (entriesOf s) \<union> (\<Union>x \<in> set xs - {t}. set (entriesOf (M x)))"
    and "content M xs = set (entriesOf (M t)) \<union> (\<Union>x \<in> set xs - {t}. set (entriesOf (M x)))"
  using assms by (auto simp: content_def split: if_splits)

lemma content_upd_other [simp]: "t \<notin> set xs \<Longrightarrow> content (M(t := s)) xs = content M xs"
  by (auto simp: content_def split: if_splits)

lemma disjointKeys_upd_other [simp]: "t \<notin> set xs \<Longrightarrow> disjointKeys (M(t := s)) xs = disjointKeys M xs"
  by (auto simp: disjointKeys_def)

lemma layout_ok: "layout M pN oN C prim kv \<Longrightarrow> slot_ok (M x)"
  by (simp add: layout_def)

lemma layout_chain:
  assumes "layout M pN oN C prim kv" "i < pN"
  shows "linked M (PSlot i) (C i)" "set (C i) \<subseteq> {1..<oN}" "distinct (C i)" "content M (chain i (C i)) = belongs kv prim i"
    "disjointKeys M (chain i (C i))" "distinct (chain i (C i))"
proof -
  show "linked M (PSlot i) (C i)" "set (C i) \<subseteq> {1..<oN}" "content M (chain i (C i)) = belongs kv prim i"
    "disjointKeys M (chain i (C i))" and d: "distinct (C i)"
    using assms by (auto simp: layout_def)
  have "inj OSlot" by (auto intro: injI)
  then show "distinct (chain i (C i))" using d by (auto simp: chain_def distinct_map inj_on_def)
qed

lemma other_chain:
  assumes "layout M pN oN C prim kv" "i < pN" "j < pN" "i \<noteq> j" "t \<in> set (chain i (C i))"
  shows "t \<notin> set (chain j (C j))"
proof -
  have "set (C i) \<inter> set (C j) = {}" using assms unfolding layout_def by blast
  then show ?thesis using assms(4,5) by (auto simp: chain_def)
qed

text \<open>Replacing one slot of a chain by one with the same successor.\<close>

lemma layout_upd:
  assumes L: "layout M pN oN C prim kv" and i: "i < pN" and t: "t \<in> set (chain i (C i))"
    and s: "slot_ok s" "nextOvfSlotId s = nextOvfSlotId (M t)"
    and c: "content (M(t := s)) (chain i (C i)) = belongs kv' prim i"
    and d: "disjointKeys (M(t := s)) (chain i (C i))"
    and o: "\<And>j. j < pN \<Longrightarrow> j \<noteq> i \<Longrightarrow> belongs kv' prim j = belongs kv prim j"
    and p: "\<forall>k \<in> dom kv'. prim k < pN"
  shows "layout (M(t := s)) pN oN C prim kv'"
proof -
  have "t \<noteq> PSlot j" if "j \<ge> pN" for j using t i that by (auto simp: chain_def)
  then have old: "(M(t := s)) (PSlot j) = emptySlot" if "j \<ge> pN" for j using L that by (auto simp: layout_def)
  have "t \<noteq> OSlot j" if "j \<ge> oN" for j
    using t layout_chain(2)[OF L i] that by (auto simp: chain_def)
  then have oldO: "(M(t := s)) (OSlot j) = emptySlot" if "j \<ge> oN" for j using L that by (auto simp: layout_def)
  have "linked (M(t := s)) x ids = linked M x ids" for x ids
    using s(2) by (intro linked_cong) auto
  moreover have "content (M(t := s)) (chain j (C j)) = belongs kv' prim j" if "j < pN" for j
    using c o[OF that] other_chain[OF L i that _ t] layout_chain(4)[OF L that] by (cases "j = i") auto
  moreover have "disjointKeys (M(t := s)) (chain j (C j))" if "j < pN" for j
    using d other_chain[OF L i that _ t] layout_chain(5)[OF L that] by (cases "j = i") auto
  ultimately show ?thesis using L s(1) p old oldO unfolding layout_def by simp
qed

lemma key_not_in_chain:
  assumes "layout M pN oN C prim kv" "i < pN" "kv k = None" "t \<in> set (chain i (C i))"
  shows "k \<notin> keysOf (M t)"
proof
  assume "k \<in> keysOf (M t)"
  then obtain b where "(k, b) \<in> set (entriesOf (M t))" by (auto simp: keysOf_def)
  then have "(k, b) \<in> content M (chain i (C i))" using assms(4) by (auto simp: content_def)
  then show False using assms(3) layout_chain(4)[OF assms(1,2)] by (simp add: belongs_def)
qed

lemma layout_put:
  assumes L: "layout M pN oN C prim kv" and i: "i < pN" and t: "t \<in> set (chain i (C i))"
    and n: "numEntries (M t) < SLOT_CAPACITY" and k: "kv k = None" "prim k = i"
  shows "layout (M(t := putEntry (M t) (k, v))) pN oN C prim (kv(k \<mapsto> v))"
proof (rule layout_upd[OF L i t])
  have fresh: "fst (k, v) \<notin> fst ` set (entriesOf (M t))"
    using key_not_in_chain[OF L i k(1) t] by (simp add: keysOf_def)
  note p = putEntry_props[OF layout_ok[OF L] n fresh]
  show "slot_ok (putEntry (M t) (k, v))" "nextOvfSlotId (putEntry (M t) (k, v)) = nextOvfSlotId (M t)"
    by (rule p)+
  have "content (M(t := putEntry (M t) (k, v))) (chain i (C i)) = insert (k, v) (content M (chain i (C i)))"
    by (simp only: content_upd(1)[OF t] content_upd(2)[OF t, of M] p(3)) auto
  also have "\<dots> = belongs (kv(k \<mapsto> v)) prim i"
    using k by (auto simp: layout_chain(4)[OF L i] belongs_def)
  finally show "content (M(t := putEntry (M t) (k, v))) (chain i (C i)) = belongs (kv(k \<mapsto> v)) prim i" .
  have "keysOf (putEntry (M t) (k, v)) = insert k (keysOf (M t))" by (simp add: keysOf_def p(3))
  then show "disjointKeys (M(t := putEntry (M t) (k, v))) (chain i (C i))"
    using layout_chain(5)[OF L i] key_not_in_chain[OF L i k(1)] t by (auto simp: disjointKeys_def)
  show "belongs (kv(k \<mapsto> v)) prim j = belongs kv prim j" if "j < pN" "j \<noteq> i" for j
    using that k by (auto simp: belongs_def)
  show "\<forall>k' \<in> dom (kv(k \<mapsto> v)). prim k' < pN" using L i k(2) by (auto simp: layout_def)
qed


text \<open>Appending a fresh overflow slot with one entry to a chain.\<close>

lemma layout_extend:
  assumes L: "layout M pN oN C prim kv" and i: "i < pN" and t: "t = last (chain i (C i))"
    and k: "kv k = None" "prim k = i"
  shows "layout (M(t := (M t)\<lparr>nextOvfSlotId := oN\<rparr>, OSlot oN := putEntry emptySlot (k, v))) pN (oN + 1)
           (C(i := C i @ [oN])) prim (kv(k \<mapsto> v))"
    (is "layout ?M _ _ ?C _ ?kv")
proof -
  note c = layout_chain[OF L i]
  have tin: "t \<in> set (chain i (C i))" unfolding t by (rule last_in_set) (simp add: chain_def)
  have fresh: "OSlot oN \<notin> set (chain j (C j))" if "j < pN" for j
    using layout_chain(2)[OF L that] by (auto simp: chain_def)
  have tn: "t \<noteq> OSlot oN" using tin fresh[OF i] by auto
  have n0: "numEntries emptySlot < SLOT_CAPACITY" by (simp add: SLOT_CAPACITY_def)
  note p = putEntry_props[OF emptySlot_ok(1) n0, of "(k, v)", simplified]
  have ext: "chain i (C i @ [oN]) = chain i (C i) @ [OSlot oN]" by (simp add: chain_def)
  have M: "entriesOf (?M x) = (if x = OSlot oN then entriesOf (putEntry emptySlot (k, v)) else entriesOf (M x))" for x
    using tn by simp
  have cont: "content ?M (chain j (C j)) = content M (chain j (C j))" if "j < pN" for j
    unfolding content_def M using fresh[OF that] by (auto split: if_splits)
  have 1: "linked ?M (PSlot j) (?C j)" if "j < pN" for j
  proof (cases "j = i")
    case True
    have "linked ?M (PSlot i) (C i @ [oN])"
      using c(1,6) fresh[OF i] tn p(4) L
      by (intro linked_snoc[where M = M]) (auto simp: chain_def t layout_def)
    then show ?thesis using True by simp
  next
    case False
    have "linked ?M (PSlot j) (C j) = linked M (PSlot j) (C j)"
      using other_chain[OF L i that _ tin] fresh[OF that] False by (intro linked_cong) (auto simp: chain_def)
    then show ?thesis using layout_chain(1)[OF L that] False by simp
  qed
  have 2: "content ?M (chain j (?C j)) = belongs ?kv prim j" if "j < pN" for j
  proof (cases "j = i")
    case True
    have "content ?M (chain i (C i) @ [OSlot oN]) = insert (k, v) (content M (chain i (C i)))"
      using cont[OF i] p(3) unfolding content_def M by auto
    then show ?thesis using k by (auto simp: True ext c(4) belongs_def)
  next
    case False
    then show ?thesis using cont[OF that] layout_chain(4)[OF L that] k by (auto simp: belongs_def)
  qed
  have keys: "keysOf (?M x) = (if x = OSlot oN then {k} else keysOf (M x))" for x
    using p(3) by (simp add: keysOf_def M)
  have 3: "disjointKeys ?M (chain j (?C j))" if "j < pN" for j
  proof (cases "j = i")
    case True
    have "disjointKeys ?M (chain i (C i) @ [OSlot oN])"
      using c(5) key_not_in_chain[OF L i k(1)] fresh[OF i] unfolding disjointKeys_def keys by auto
    then show ?thesis using True ext by simp
  next
    case False
    have "disjointKeys ?M (chain j (C j))"
      using layout_chain(5)[OF L that] fresh[OF that] unfolding disjointKeys_def keys by auto
    then show ?thesis using False by simp
  qed
  have ok: "slot_ok (?M x)" for x using L p(1) by (simp add: layout_def)
  have 4: "?M (PSlot j) = emptySlot" if "j \<ge> pN" for j
  proof -
    have "t \<noteq> PSlot j" using tin i that by (auto simp: chain_def)
    then show ?thesis using L that by (simp add: layout_def)
  qed
  have 9: "?M (OSlot j) = emptySlot" if "j \<ge> oN + 1" for j
  proof -
    have "t \<noteq> OSlot j" using tin c(2) that by (auto simp: chain_def)
    then show ?thesis using L that by (simp add: layout_def)
  qed
  have 5: "set (?C j) \<subseteq> {1..<oN + 1}" "distinct (?C j)" if "j < pN" for j
    using layout_chain(2,3)[OF L that] L by (auto simp: layout_def)
  have 6: "set (?C a) \<inter> set (?C b) = {}" if "a < pN" "b < pN" "a \<noteq> b" for a b
  proof -
    have "set (C a) \<inter> set (C b) = {}" using L that unfolding layout_def by blast
    then show ?thesis using layout_chain(2)[OF L that(1)] layout_chain(2)[OF L that(2)] that(3) by auto
  qed
  have 7: "\<forall>k' \<in> dom ?kv. prim k' < pN" using L i k(2) by (auto simp: layout_def)
  have 8: "1 \<le> oN + 1" by simp
  show ?thesis unfolding layout_def by (intro conjI allI impI 1 2 3 4 5 6 7 8 9 ok)
qed

text \<open>Deleting a key: it is in exactly one slot of its chain.\<close>

lemma layout_remove:
  assumes L: "layout M pN oN C prim kv" and i: "i < pN" and t: "t \<in> set (chain i (C i))"
    and j: "j \<in> validSet (M t)" "fst (slotEntries (M t) ! j) = k"
  shows "layout (M(t := decNumEntries (setEntryInvalid (M t) j))) pN oN C prim (kv(k := None))"
proof (rule layout_upd[OF L i t])
  let ?s = "decNumEntries (setEntryInvalid (M t) j)"
  note c = layout_chain[OF L i]
  note r = removeEntry_props[OF layout_ok[OF L] j(1)]
  show "slot_ok ?s" "nextOvfSlotId ?s = nextOvfSlotId (M t)" by (rule r)+
  have kin: "k \<in> keysOf (M t)" using j by (auto simp: keysOf_def set_entriesOf)
  then have other: "k \<notin> keysOf (M x)" if "x \<in> set (chain i (C i))" "x \<noteq> t" for x
    using c(5) t that by (auto simp: disjointKeys_def)
  then have other': "fst e \<noteq> k" if "x \<in> set (chain i (C i)) - {t}" "e \<in> set (entriesOf (M x))" for x e
    using that by (auto simp: keysOf_def)
  have "content (M(t := ?s)) (chain i (C i)) = {e \<in> content M (chain i (C i)). fst e \<noteq> k}"
    unfolding content_upd(1)[OF t] content_upd(2)[OF t, of M] r(2) j(2) using other' by blast
  then show "content (M(t := ?s)) (chain i (C i)) = belongs (kv(k := None)) prim i"
    by (auto simp: c(4) belongs_def)
  have "keysOf ?s \<subseteq> keysOf (M t)" by (auto simp: keysOf_def r(2))
  then show "disjointKeys (M(t := ?s)) (chain i (C i))" using c(5) t by (auto simp: disjointKeys_def)
  obtain b where "(k, b) \<in> set (entriesOf (M t))" using kin by (auto simp: keysOf_def)
  then have "(k, b) \<in> belongs kv prim i" using t by (auto simp: content_def c(4)[symmetric])
  then have pk: "prim k = i" by (simp add: belongs_def)
  show "belongs (kv(k := None)) prim l = belongs kv prim l" if "l < pN" "l \<noteq> i" for l
    using that pk by (auto simp: belongs_def)
  show "\<forall>k' \<in> dom (kv(k := None)). prim k' < pN" using L by (auto simp: layout_def)
qed

text \<open>A new primary slot is empty and has no chain.\<close>

lemma layout_newP:
  assumes "layout M pN oN C prim kv"
  shows "layout M (pN + 1) oN (C(pN := [])) prim kv"
proof -
  have e: "M (PSlot pN) = emptySlot" using assms by (simp add: layout_def)
  have "belongs kv prim pN = {}" using assms by (fastforce simp: layout_def belongs_def)
  then have "content M (chain pN []) = belongs kv prim pN" "disjointKeys M (chain pN [])" "linked M (PSlot pN) []"
    by (simp_all add: chain_def content_def disjointKeys_def e)
  then show ?thesis using assms unfolding layout_def by (auto simp: less_Suc_eq)
qed

text \<open>Resetting a primary slot drops its whole chain.\<close>

lemma layout_resetP:
  assumes L: "layout M pN oN C prim kv" and i: "i < pN"
    and prim': "\<And>k. prim k \<noteq> i \<Longrightarrow> prim' k = prim k"
  shows "layout (M(PSlot i := resetSlot (M (PSlot i)))) pN oN (C(i := [])) prim' (kv |` {k. prim k \<noteq> i})"
    (is "layout ?M _ _ ?C _ ?kv")
proof -
  have r: "slot_ok (resetSlot (M (PSlot i)))" using layout_ok[OF L, of "PSlot i"] by (intro resetSlot_ok) (simp add: slot_ok_def)
  have out: "PSlot i \<notin> set (chain j (C j))" if "j \<noteq> i" for j using that by (auto simp: chain_def)
  have 1: "linked ?M (PSlot j) (?C j)" if "j < pN" for j
  proof (cases "j = i")
    case False
    have "linked ?M (PSlot j) (C j) = linked M (PSlot j) (C j)"
      using out[OF False] by (intro linked_cong) (auto simp: chain_def)
    then show ?thesis using layout_chain(1)[OF L that] False by simp
  qed simp
  have 2: "content ?M (chain j (?C j)) = belongs ?kv prim' j" if "j < pN" for j
  proof (cases "j = i")
    case True
    have "belongs ?kv prim' i = {}" using prim' by (auto simp: belongs_def restrict_map_def split: if_splits)
    then show ?thesis using True resetSlot_ok(2) by (simp add: chain_def content_def)
  next
    case False
    have "belongs ?kv prim' j = belongs kv prim j"
      using prim' False by (auto simp: belongs_def restrict_map_def split: if_splits)
    then show ?thesis using layout_chain(4)[OF L that] out[OF False] False by simp
  qed
  have 3: "disjointKeys ?M (chain j (?C j))" if "j < pN" for j
    using layout_chain(5)[OF L that] out[of j] by (cases "j = i") (auto simp: chain_def disjointKeys_def)
  have 4: "\<forall>k \<in> dom ?kv. prim' k < pN" using L prim' by (auto simp: layout_def restrict_map_def split: if_splits)
  show ?thesis using L i r 1 2 3 4 unfolding layout_def by auto
qed

text \<open>Overflow slots outside every chain do not matter.\<close>

lemma layout_orphan:
  assumes L: "layout M pN oN C prim kv" and j: "j < oN" "\<And>i. i < pN \<Longrightarrow> j \<notin> set (C i)" and s: "slot_ok s"
  shows "layout (M(OSlot j := s)) pN oN C prim kv"
proof -
  have out: "OSlot j \<notin> set (chain i (C i))" if "i < pN" for i using j(2)[OF that] by (auto simp: chain_def)
  have "linked (M(OSlot j := s)) (PSlot i) (C i)" if "i < pN" for i
  proof -
    have "linked (M(OSlot j := s)) (PSlot i) (C i) = linked M (PSlot i) (C i)"
      using out[OF that] by (intro linked_cong) (auto simp: chain_def)
    then show ?thesis using layout_chain(1)[OF L that] by simp
  qed
  moreover have "content (M(OSlot j := s)) (chain i (C i)) = belongs kv prim i"
      "disjointKeys (M(OSlot j := s)) (chain i (C i))" if "i < pN" for i
    using out[OF that] layout_chain(4,5)[OF L that] by simp_all
  ultimately show ?thesis using L j(1) s unfolding layout_def by auto
qed


section \<open>Walking along a chain\<close>

definition walkable :: "InMemHashIndex \<Rightarrow> SlotInfo \<Rightarrow> nat list \<Rightarrow> bool" where
  "walkable st x ids \<longleftrightarrow> pages_wf st \<and> (\<forall>y \<in> set (x # map OSlot ids). inRange st y \<and> slot_ok (mem st y)) \<and>
     linked (mem st) x ids \<and> (isPSlot x \<or> slotId x > 0)"

lemma walkable_Nil: "walkable st x [] \<Longrightarrow> getSlot st x = Inr (mem st x) \<and> nextOvfSlotId (mem st x) = 0 \<and>
    (isPSlot x \<or> slotId x > 0) \<and> slot_ok (mem st x)"
  by (auto simp: walkable_def getSlot_ok)

lemma walkable_Cons: "walkable st x (i # ids) \<Longrightarrow> getSlot st x = Inr (mem st x) \<and> nextOvfSlotId (mem st x) = i \<and>
    (isPSlot x \<or> slotId x > 0) \<and> slot_ok (mem st x) \<and> walkable st (OSlot i) ids"
  by (auto simp: walkable_def getSlot_ok)

definition firstMatch :: "InMemHashIndex \<Rightarrow> SlotInfo list \<Rightarrow> key \<Rightarrow> u64 option" where
  "firstMatch st xs k = map_of (concat (map (\<lambda>x. entriesOf (mem st x)) xs)) k"

lemma firstMatch_simps [simp]:
  "firstMatch st [] k = None"
  "firstMatch st (x # xs) k = (case map_of (entriesOf (mem st x)) k of Some v \<Rightarrow> Some v | None \<Rightarrow> firstMatch st xs k)"
  unfolding firstMatch_def by (simp_all add: map_add_def)

lemma two_le_obtain:
  assumes "length ([] :: nat list) + 2 \<le> n"
  obtains m where "n = Suc (Suc m)"
  using assms by (cases n; cases "n - 1") auto

lemma lookupLoop_walk:
  "walkable st x ids \<Longrightarrow> length ids + 2 \<le> n \<Longrightarrow> lookupLoop n st x k = Inr (firstMatch st (x # map OSlot ids) k)"
proof (induction ids arbitrary: x n)
  case Nil
  obtain m where n: "n = Suc (Suc m)" by (rule two_le_obtain[OF Nil.prems(2)])
  show ?case using walkable_Nil[OF Nil.prems(1)] by (auto simp: n lookup_in_slot split: option.splits)
next
  case (Cons i ids)
  then obtain m where n: "n = Suc m" by (cases n) auto
  note w = walkable_Cons[OF Cons.prems(1)]
  have "lookupLoop m st (OSlot i) k = Inr (firstMatch st (OSlot i # map OSlot ids) k)"
    using Cons.IH[of "OSlot i" m] w Cons.prems(2) n by simp
  then show ?case using w by (auto simp: n lookup_in_slot split: option.splits)
qed

lemma getPAndOSlotsLoop_walk:
  "walkable st x ids \<Longrightarrow> length ids + 2 \<le> n \<Longrightarrow> getPAndOSlotsLoop n st x = Inr (x # map OSlot ids)"
proof (induction ids arbitrary: x n)
  case Nil
  obtain m where n: "n = Suc (Suc m)" by (rule two_le_obtain[OF Nil.prems(2)])
  show ?case using walkable_Nil[OF Nil.prems(1)] by (auto simp: n)
next
  case (Cons i ids)
  then obtain m where n: "n = Suc m" by (cases n) auto
  note w = walkable_Cons[OF Cons.prems(1)]
  have "getPAndOSlotsLoop m st (OSlot i) = Inr (OSlot i # map OSlot ids)"
    using Cons.IH[of "OSlot i" m] w Cons.prems(2) n by simp
  then show ?case using w by (auto simp: n)
qed

text \<open>The first slot of the chain that is not full, or the last one.\<close>

fun target :: "(SlotInfo \<Rightarrow> slot) \<Rightarrow> SlotInfo \<Rightarrow> nat list \<Rightarrow> SlotInfo" where
  "target M x [] = x"
| "target M x (i # ids) = (if numEntries (M x) \<noteq> SLOT_CAPACITY then x else target M (OSlot i) ids)"

lemma target_in: "target M x ids \<in> set (x # map OSlot ids)"
  by (induction ids arbitrary: x) auto

lemma target_full: "numEntries (M (target M x ids)) = SLOT_CAPACITY \<Longrightarrow> target M x ids = last (x # map OSlot ids)"
  by (induction ids arbitrary: x) (auto split: if_splits)

lemma copyLoop_walk:
  "walkable st x ids \<Longrightarrow> length ids + 2 \<le> n \<Longrightarrow> copyLoop n st x cur = Inr (target (mem st) x ids)"
proof (induction ids arbitrary: x n cur)
  case Nil
  obtain m where n: "n = Suc (Suc m)" by (rule two_le_obtain[OF Nil.prems(2)])
  show ?case using walkable_Nil[OF Nil.prems(1)] by (auto simp: n)
next
  case (Cons i ids)
  then obtain m where n: "n = Suc m" by (cases n) auto
  note w = walkable_Cons[OF Cons.prems(1)]
  have "copyLoop m st (OSlot i) x = Inr (target (mem st) (OSlot i) ids)"
    using Cons.IH[of "OSlot i" m x] w Cons.prems(2) n by simp
  then show ?case using w by (auto simp: n)
qed

lemma slot_ok_le: "slot_ok s \<Longrightarrow> numEntries s < SLOT_CAPACITY \<longleftrightarrow> numEntries s \<noteq> SLOT_CAPACITY"
  using validPos_le[of s] by (auto simp: slot_ok_def)

lemma appendLoop_new:
  "walkable st x ids \<Longrightarrow> length ids + 2 \<le> n \<Longrightarrow> (\<And>y. y \<in> set (x # map OSlot ids) \<Longrightarrow> k \<notin> keysOf (mem st y)) \<Longrightarrow>
     appendLoop n st x cur k = Inr (Some (target (mem st) x ids))"
proof (induction ids arbitrary: x n cur)
  case Nil
  obtain m where n: "n = Suc (Suc m)" by (rule two_le_obtain[OF Nil.prems(2)])
  have "map_of (entriesOf (mem st x)) k = None" using Nil.prems(3)[of x] by (simp add: keysOf_def map_of_eq_None_iff)
  then show ?case using walkable_Nil[OF Nil.prems(1)] by (auto simp: n lookup_in_slot)
next
  case (Cons i ids)
  then obtain m where n: "n = Suc m" by (cases n) auto
  note w = walkable_Cons[OF Cons.prems(1)]
  have "map_of (entriesOf (mem st x)) k = None" using Cons.prems(3)[of x] by (simp add: keysOf_def map_of_eq_None_iff)
  moreover have "appendLoop m st (OSlot i) x k = Inr (Some (target (mem st) (OSlot i) ids))"
    using Cons.IH[of "OSlot i" m x] w Cons.prems(2,3) n by simp
  ultimately show ?case using w by (auto simp: n lookup_in_slot slot_ok_le)
qed

text \<open>In a packed chain every slot but the last is full; then an existing key is always found.\<close>

fun packed :: "(SlotInfo \<Rightarrow> slot) \<Rightarrow> SlotInfo \<Rightarrow> nat list \<Rightarrow> bool" where
  "packed M x [] \<longleftrightarrow> True"
| "packed M x (i # ids) \<longleftrightarrow> numEntries (M x) = SLOT_CAPACITY \<and> packed M (OSlot i) ids"

lemma appendLoop_exists:
  "walkable st x ids \<Longrightarrow> length ids + 2 \<le> n \<Longrightarrow> packed (mem st) x ids \<Longrightarrow>
     y \<in> set (x # map OSlot ids) \<Longrightarrow> k \<in> keysOf (mem st y) \<Longrightarrow> appendLoop n st x cur k = Inr None"
proof (induction ids arbitrary: x n cur)
  case Nil
  obtain m where n: "n = Suc (Suc m)" by (rule two_le_obtain[OF Nil.prems(2)])
  have "map_of (entriesOf (mem st x)) k \<noteq> None" using Nil.prems(4,5) by (simp add: keysOf_def map_of_eq_None_iff)
  then show ?case using walkable_Nil[OF Nil.prems(1)] by (auto simp: n lookup_in_slot)
next
  case (Cons i ids)
  then obtain m where n: "n = Suc m" by (cases n) auto
  note w = walkable_Cons[OF Cons.prems(1)]
  show ?case
  proof (cases "map_of (entriesOf (mem st x)) k = None")
    case True
    then have "y \<noteq> x" using Cons.prems(5) by (auto simp: keysOf_def map_of_eq_None_iff)
    then have "appendLoop m st (OSlot i) x k = Inr None"
      using Cons.IH[of "OSlot i" m x] w Cons.prems n by auto
    then show ?thesis using w True Cons.prems(3) by (auto simp: n lookup_in_slot)
  qed (use w in \<open>auto simp: n lookup_in_slot\<close>)
qed

lemma find_entry:
  assumes "slot_ok s"
  shows "findMatchedEntryInSlotWithoutLock s k \<noteq> INVALID_ENTRY_POS \<longleftrightarrow> k \<in> keysOf s"
    and "k \<in> keysOf s \<Longrightarrow> findMatchedEntryInSlotWithoutLock s k \<in> validSet s \<and>
           fst (slotEntries s ! findMatchedEntryInSlotWithoutLock s k) = k"
proof -
  let ?f = "find (\<lambda>i. isEntryValid s i \<and> fst (slotEntries s ! i) = k) [0..<SLOT_CAPACITY]"
  have "?f = None \<longleftrightarrow> k \<notin> keysOf s"
    by (auto simp: find_None_iff keysOf_def set_entriesOf validSet_def)
  moreover have "i \<in> validSet s \<and> fst (slotEntries s ! i) = k" if "?f = Some i" for i
    using find_valid_key[OF assms] that by (auto simp: validSet_def)
  moreover have "i \<in> validSet s \<Longrightarrow> i \<noteq> INVALID_ENTRY_POS" for i
    by (auto simp: validSet_def SLOT_CAPACITY_def INVALID_ENTRY_POS_def)
  ultimately show "findMatchedEntryInSlotWithoutLock s k \<noteq> INVALID_ENTRY_POS \<longleftrightarrow> k \<in> keysOf s"
    and "k \<in> keysOf s \<Longrightarrow> findMatchedEntryInSlotWithoutLock s k \<in> validSet s \<and>
           fst (slotEntries s ! findMatchedEntryInSlotWithoutLock s k) = k"
    by (cases ?f; force simp: findMatchedEntryInSlotWithoutLock_def)+
qed

lemma deleteLoop_walk:
  "walkable st x ids \<Longrightarrow> length ids + 2 \<le> n \<Longrightarrow>
     (deleteLoop n st x k = Inr None \<and> (\<forall>y \<in> set (x # map OSlot ids). k \<notin> keysOf (mem st y))) \<or>
     (\<exists>y j. y \<in> set (x # map OSlot ids) \<and> j \<in> validSet (mem st y) \<and> fst (slotEntries (mem st y) ! j) = k \<and>
        deleteLoop n st x k = Inr (Some (setSlot st y (decNumEntries (setEntryInvalid (mem st y) j)))))"
proof (induction ids arbitrary: x n)
  case Nil
  obtain m where n: "n = Suc (Suc m)" by (rule two_le_obtain[OF Nil.prems(2)])
  note w = walkable_Nil[OF Nil.prems(1)]
  show ?case
  proof (cases "k \<in> keysOf (mem st x)")
    case True
    then show ?thesis using w find_entry[of "mem st x" k] by (intro disjI2 exI[of _ x]) (auto simp: n Let_def)
  next
    case False
    then show ?thesis using w find_entry[of "mem st x" k] by (auto simp: n Let_def)
  qed
next
  case (Cons i ids)
  then obtain m where n: "n = Suc m" by (cases n) auto
  note w = walkable_Cons[OF Cons.prems(1)]
  show ?case
  proof (cases "k \<in> keysOf (mem st x)")
    case True
    then show ?thesis using w find_entry[of "mem st x" k] by (intro disjI2 exI[of _ x]) (auto simp: n Let_def)
  next
    case False
    then have "deleteLoop n st x k = deleteLoop m st (OSlot i) k"
      using w find_entry[of "mem st x" k] by (auto simp: n Let_def)
    then show ?thesis using Cons.IH[of "OSlot i" m] w Cons.prems(2) n False by auto
  qed
qed

end
