(* ===== verification/Linear_Hashing.thy ===== *)
theory Linear_Hashing
  imports In_Mem_Hash_Index
begin

text \<open>
  Correctness of the linear-hashing index of \<open>In_Mem_Hash_Index\<close>: what its states represent, and that lookup,
  insertion, splitting and deletion implement the operations of a map.
\<close>

section \<open>States and the maps they represent\<close>

abbreviation pNext :: "InMemHashIndex \<Rightarrow> nat" where "pNext st \<equiv> nextSlotIdToAllocate (pSlots st)"
abbreviation oNext :: "InMemHashIndex \<Rightarrow> nat" where "oNext st \<equiv> nextSlotIdToAllocate (oSlots st)"

definition struct :: "InMemHashIndex \<Rightarrow> (nat \<Rightarrow> nat list) \<Rightarrow> (key \<Rightarrow> nat) \<Rightarrow> (key \<rightharpoonup> u64) \<Rightarrow> bool" where
  [inv_simps]: "struct st C prim kv \<longleftrightarrow> pages_wf st \<and> pNext st \<le> capacity (pSlots st) \<and>
     oNext st \<le> capacity (oSlots st) \<and> layout (mem st) (pNext st) (oNext st) C prim kv"

text \<open>
  The header and the number of primary slots.  Between two splits there are \<open>2 ^ currentLevel + nextSplitSlotId\<close>
  slots; after \<open>bulkReserve\<close> the split position may equal \<open>2 ^ currentLevel\<close>, and the next split then leaves one slot
  more than that.
\<close>

definition hdr_wf :: "HashIndexHeader \<Rightarrow> nat \<Rightarrow> bool" where
  [inv_simps]: "hdr_wf h pn \<longleftrightarrow> currentLevel h < 30 \<and> nextSplitSlotId h \<le> 2 ^ currentLevel h \<and>
     2 ^ currentLevel h + nextSplitSlotId h \<le> pn \<and> levelHashMask h = mask (currentLevel h) \<and>
     higherLevelHashMask h = mask (currentLevel h + 1)"

definition allPacked :: "InMemHashIndex \<Rightarrow> (nat \<Rightarrow> nat list) \<Rightarrow> bool" where
  "allPacked st C \<longleftrightarrow> (\<forall>i < pNext st. packed (mem st) (PSlot i) (C i))"

definition rep :: "InMemHashIndex \<Rightarrow> (nat \<Rightarrow> nat list) \<Rightarrow> (key \<rightharpoonup> u64) \<Rightarrow> bool" where
  [inv_simps]: "rep st C kv \<longleftrightarrow> struct st C (getPrimarySlotIdForKey (indexHeader st)) kv \<and>
     hdr_wf (indexHeader st) (pNext st) \<and> numEntriesInIndex st = card (dom kv) \<and>
     mutexes (pSlots st) = replicate (capacity (pSlots st)) False"

section \<open>Primary slots\<close>

lemma unat_and_mask: "unat ((w :: u64) AND mask n) = unat w mod 2 ^ n"
  unfolding take_bit_eq_mask[symmetric] unsigned_take_bit_eq by (rule take_bit_eq_mod)

lemma mod_double: "(a :: nat) mod (2 * n) = a mod n \<or> a mod (2 * n) = a mod n + n"
proof (cases "n = 0")
  case False
  have "a mod (2 * n) = n * (a div n mod 2) + a mod n"
    by (metis mod_mult2_eq mult.commute)
  moreover have "a div n mod 2 = 0 \<or> a div n mod 2 = 1" by auto
  ultimately show ?thesis by auto
qed simp

lemma primary_eq:
  assumes "hdr_wf h pn"
  shows "getPrimarySlotIdForKey h k =
    (let H = unat (murmurhash64 k); i = H mod 2 ^ currentLevel h
     in if i < nextSplitSlotId h then H mod 2 ^ (currentLevel h + 1) else i)"
  using assms by (simp add: getPrimarySlotIdForKey_def hdr_wf_def unat_and_mask Let_def)

lemma primary_bound:
  assumes "hdr_wf h pn"
  shows "getPrimarySlotIdForKey h k < pn"
proof -
  let ?H = "unat (murmurhash64 k)" and ?n = "2 ^ currentLevel h :: nat"
  have "?H mod ?n < ?n + nextSplitSlotId h" by (rule trans_less_add1) simp
  moreover have "?H mod (2 * ?n) = ?H mod ?n \<or> ?H mod (2 * ?n) = ?H mod ?n + ?n" by (rule mod_double)
  ultimately show ?thesis
    unfolding primary_eq[OF assms] Let_def using assms by (auto simp: hdr_wf_def)
qed

text \<open>The primary slot of the keys once the slot \<open>nextSplitSlotId\<close> is split.\<close>

definition splitPrim :: "HashIndexHeader \<Rightarrow> key \<Rightarrow> nat" where
  "splitPrim h k = (if getPrimarySlotIdForKey h k = nextSplitSlotId h
     then unat (murmurhash64 k AND higherLevelHashMask h) else getPrimarySlotIdForKey h k)"

lemma increment_wf:
  assumes "hdr_wf h pn" and "pn < 2 ^ 29"
  obtains h' where "incrementNextSplitSlotId h = Inr h'" "hdr_wf h' (pn + 1)"
    "\<And>k. getPrimarySlotIdForKey h' k = splitPrim h k" "numSlotsPerPage h' = numSlotsPerPage h"
proof -
  let ?l = "currentLevel h" and ?s = "nextSplitSlotId h"
  have w: "?s \<le> 2 ^ ?l" "2 ^ ?l + ?s \<le> pn" using assms(1) by (auto simp: hdr_wf_def)
  have "2 ^ ?l < (2 :: nat) ^ 29" using assms(2) w by linarith
  then have l: "?l < 29" by (rule power_less_imp_less_exp[of "2 :: nat", rotated]) simp
  show thesis
  proof (cases "?s < 2 ^ ?l - 1")
    case True
    let ?h = "h\<lparr>nextSplitSlotId := ?s + 1\<rparr>"
    have wf: "hdr_wf ?h (pn + 1)" using assms(1) True by (auto simp: hdr_wf_def)
    have "getPrimarySlotIdForKey ?h k = splitPrim h k" for k
      using mod_double[of "unat (murmurhash64 k)" "2 ^ ?l"] assms(1) True
      unfolding splitPrim_def primary_eq[OF wf] primary_eq[OF assms(1)]
      by (auto simp: Let_def hdr_wf_def unat_and_mask)
    then show thesis using that[of ?h] True wf by (simp add: incrementNextSplitSlotId_def)
  next
    case False
    then have s: "2 ^ ?l \<le> ?s + 1" by simp
    let ?h = "h\<lparr>currentLevel := ?l + 1, nextSplitSlotId := 0, levelHashMask := push_bit (?l + 1) 1 - 1,
                higherLevelHashMask := push_bit (?l + 1 + 1) 1 - 1\<rparr>"
    have "incrementNextSplitSlotId h = Inr ?h"
      using False l by (simp add: incrementNextSplitSlotId_def incrementLevel_def)
    moreover have wf: "hdr_wf ?h (pn + 1)"
      using l s w by (simp add: hdr_wf_def mask_eq_exp_minus_1 push_bit_of_1)
    moreover have "getPrimarySlotIdForKey ?h k = splitPrim h k" for k
    proof -
      have "unat (murmurhash64 k) mod 2 ^ ?l < 2 ^ ?l" by simp
      then have "unat (murmurhash64 k) mod 2 ^ ?l \<le> ?s" using s by linarith
      then show ?thesis
        using mod_double[of "unat (murmurhash64 k)" "2 ^ ?l"] assms(1)
        unfolding splitPrim_def primary_eq[OF wf] primary_eq[OF assms(1)]
        by (auto simp: Let_def hdr_wf_def unat_and_mask)
    qed
    ultimately show thesis using that[of ?h] by simp
  qed
qed

section \<open>Lookup\<close>

lemma struct_walkable:
  assumes "struct st C prim kv" "i < pNext st"
  shows "walkable st (PSlot i) (C i)" and "length (C i) + 2 \<le> chainFuel st"
proof -
  have L: "layout (mem st) (pNext st) (oNext st) C prim kv" and wf: "pages_wf st"
    and room: "pNext st \<le> capacity (pSlots st)" "oNext st \<le> capacity (oSlots st)"
    using assms(1) by (auto simp: struct_def)
  note c = layout_chain[OF L assms(2)]
  have "inRange st y" if "y \<in> set (PSlot i # map OSlot (C i))" for y
    using that assms(2) room c(2) by (auto simp: inRange_def arrayOf_def)
  then show "walkable st (PSlot i) (C i)"
    using wf c(1) layout_ok[OF L] by (simp add: walkable_def)
  have "length (C i) = card (set (C i))" using c(3) by (simp add: distinct_card)
  also have "\<dots> \<le> card {1..<oNext st}" using c(2) by (intro card_mono) auto
  finally show "length (C i) + 2 \<le> chainFuel st" by (simp add: chainFuel_def)
qed

lemma firstMatch_content:
  assumes "layout (mem st) pN oN C prim kv" "i < pN"
  shows "firstMatch st (chain i (C i)) k = (if prim k = i then kv k else None)"
proof -
  let ?es = "concat (map (\<lambda>x. entriesOf (mem st x)) (chain i (C i)))"
  have set: "set ?es = belongs kv prim i"
    using layout_chain(4)[OF assms] by (simp add: content_def)
  show ?thesis
  proof (cases "firstMatch st (chain i (C i)) k")
    case None
    then have "k \<notin> fst ` belongs kv prim i" by (simp add: firstMatch_def map_of_eq_None_iff set[symmetric])
    then show ?thesis using None by (cases "kv k") (auto simp: belongs_def image_iff)
  next
    case (Some v)
    then have "(k, v) \<in> belongs kv prim i" using map_of_SomeD set unfolding firstMatch_def by fastforce
    then show ?thesis using Some by (simp add: belongs_def)
  qed
qed

lemma rep_lookup:
  assumes "rep st C kv"
  shows "lookupInternalWithoutLock st k = Inr (kv k)"
proof -
  let ?i = "getPrimarySlotIdForKey (indexHeader st) k"
  have s: "struct st C (getPrimarySlotIdForKey (indexHeader st)) kv" and h: "hdr_wf (indexHeader st) (pNext st)"
    using assms by (auto simp: rep_def)
  have i: "?i < pNext st" by (rule primary_bound[OF h])
  have "layout (mem st) (pNext st) (oNext st) C (getPrimarySlotIdForKey (indexHeader st)) kv"
    using s by (simp add: struct_def)
  then have "firstMatch st (chain ?i (C ?i)) k = kv k" using firstMatch_content[OF _ i] by simp
  then show ?thesis
    using lookupLoop_walk[OF struct_walkable[OF s i]] by (simp add: lookupInternalWithoutLock_def chain_def)
qed

section \<open>Insertion into a chain\<close>

text \<open>Changes of the arrays' bookkeeping that keep the pages and the counters.\<close>

lemma struct_cong:
  assumes "struct st C prim kv" "mem st' = mem st" "pages_wf st'" "pNext st' = pNext st" "oNext st' = oNext st"
    "capacity (pSlots st) \<le> capacity (pSlots st')" "capacity (oSlots st) \<le> capacity (oSlots st')"
  shows "struct st' C prim kv"
  using assms by (auto simp: struct_def)

lemma struct_mutexes:
  assumes "struct st C prim kv"
  shows "struct (st\<lparr>pSlots := (pSlots st)\<lparr>mutexes := ms\<rparr>\<rparr>) C prim kv"
    and "mem (st\<lparr>pSlots := (pSlots st)\<lparr>mutexes := ms\<rparr>\<rparr>) = mem st"
proof -
  let ?st = "st\<lparr>pSlots := (pSlots st)\<lparr>mutexes := ms\<rparr>\<rparr>"
  show m: "mem ?st = mem st" by (rule same_pages(2)) simp_all
  have "pages_wf ?st = pages_wf st" by (rule same_pages(1)) simp_all
  then show "struct ?st C prim kv" using assms m by (simp add: struct_def capacity_def)
qed

text \<open>
  What an insertion at the first slot with room does.  The slots outside the chain and the overflow slots that
  are not allocated keep their content; only chain \<open>i\<close> grows, by fresh overflow slots.
\<close>

definition inserted :: "InMemHashIndex \<Rightarrow> (nat \<Rightarrow> nat list) \<Rightarrow> InMemHashIndex \<Rightarrow> (nat \<Rightarrow> nat list) \<Rightarrow> nat \<Rightarrow> entry \<Rightarrow> bool" where
  "inserted st C st' C' i e \<longleftrightarrow>
     indexHeader st' = indexHeader st \<and> numEntriesInIndex st' = numEntriesInIndex st \<and> pSlots st' = pSlots st \<and>
     oNext st \<le> oNext st' \<and> (\<forall>j. j \<noteq> i \<longrightarrow> C' j = C j) \<and> set (C' i) \<subseteq> set (C i) \<union> {oNext st..} \<and>
     (\<forall>x. x \<notin> set (chain i (C i)) \<longrightarrow> (isPSlot x \<or> slotId x < oNext st) \<longrightarrow> mem st' x = mem st x) \<and>
     (slotEntries (mem st' (PSlot i)) = slotEntries (mem st (PSlot i)) \<and>
        validSet (mem st' (PSlot i)) = validSet (mem st (PSlot i)) \<or>
      numEntries (mem st (PSlot i)) < SLOT_CAPACITY \<and> mem st' (PSlot i) = putEntry (mem st (PSlot i)) e) \<and>
     (allPacked st C \<longrightarrow> allPacked st' C')"

lemma packed_cong:
  "(\<And>y. y \<in> set (x # map OSlot ids) \<Longrightarrow> numEntries (M' y) = numEntries (M y)) \<Longrightarrow> packed M' x ids = packed M x ids"
  by (induction ids arbitrary: x) auto

lemma packed_target: "packed M x ids \<Longrightarrow> target M x ids = last (x # map OSlot ids)"
  by (induction ids arbitrary: x) auto

lemma packed_upd_last:
  "distinct (x # map OSlot ids) \<Longrightarrow> packed M x ids \<Longrightarrow> packed (M(last (x # map OSlot ids) := s)) x ids"
proof (induction ids arbitrary: x)
  case (Cons i ids)
  have "x \<noteq> last (OSlot i # map OSlot ids)" using Cons.prems(1) last_in_set[of "OSlot i # map OSlot ids"] by auto
  then show ?case using Cons by simp
qed simp

lemma packed_snoc:
  "packed M x ids \<Longrightarrow> numEntries (M (last (x # map OSlot ids))) = SLOT_CAPACITY \<Longrightarrow> packed M x (ids @ [n])"
  by (induction ids arbitrary: x) auto

lemma insert_struct_room:
  fixes v :: u64
  assumes S: "struct st C prim kv" and i: "i < pNext st" and k: "kv k = None" "prim k = i"
    and n: "numEntries (mem st (target (mem st) (PSlot i) (C i))) \<noteq> SLOT_CAPACITY"
  defines "t \<equiv> target (mem st) (PSlot i) (C i)"
  defines "st' \<equiv> setSlot st t (putEntry (mem st t) (k, v))"
  shows "insertToSlotWithoutLock st t (k, v) = Inr st'" "struct st' C prim (kv(k \<mapsto> v))"
    "inserted st C st' C i (k, v)"
proof -
  have L: "layout (mem st) (pNext st) (oNext st) C prim kv" and wf: "pages_wf st"
    using S by (auto simp: struct_def)
  have tin: "t \<in> set (chain i (C i))" using target_in unfolding t_def chain_def .
  then have r: "inRange st t" using struct_walkable(1)[OF S i] by (auto simp: walkable_def chain_def)
  note g = getSlot_ok[OF wf r]
  have lt: "numEntries (mem st t) < SLOT_CAPACITY" using n slot_ok_le[OF layout_ok[OF L]] by (simp add: t_def)
  show "insertToSlotWithoutLock st t (k, v) = Inr st'"
    using lt by (simp add: insertToSlotWithoutLock_def g st'_def)
  have m: "mem st' = (mem st)(t := putEntry (mem st t) (k, v))" unfolding st'_def by (rule mem_setSlot[OF wf r])
  show "struct st' C prim (kv(k \<mapsto> v))"
    using S layout_put[OF L i tin lt k] setSlot_wf[OF wf r]
    by (auto simp: struct_def m[unfolded st'_def] st'_def)
  have "allPacked st' C" if p: "allPacked st C"
    unfolding allPacked_def
  proof (intro allI impI)
    fix j assume "j < pNext st'"
    then have j: "j < pNext st" by (simp add: st'_def)
    then have pj: "packed (mem st) (PSlot j) (C j)" using p by (simp add: allPacked_def)
    show "packed (mem st') (PSlot j) (C j)"
    proof (cases "j = i")
      case True
      then have "t = last (PSlot i # map OSlot (C i))" using packed_target pj by (simp add: t_def)
      then show ?thesis
        using packed_upd_last[of "PSlot i" "C i" "mem st"] pj True layout_chain(6)[OF L i] by (simp add: m chain_def)
    next
      case False
      then have "t \<notin> set (chain j (C j))" using other_chain[OF L i j _ tin] by blast
      then have "packed (mem st') (PSlot j) (C j) = packed (mem st) (PSlot j) (C j)"
        unfolding m by (intro packed_cong) (auto simp: chain_def)
      then show ?thesis using pj by simp
    qed
  qed
  then show "inserted st C st' C i (k, v)"
    using lt tin by (auto simp: inserted_def m) (auto simp: st'_def)
qed

lemma insert_struct_full:
  assumes S: "struct st C prim kv" and i: "i < pNext st" and k: "kv k = None" "prim k = i"
    and n: "numEntries (mem st (target (mem st) (PSlot i) (C i))) = SLOT_CAPACITY"
  defines "t \<equiv> target (mem st) (PSlot i) (C i)"
  shows "\<exists>st'. insertToSlotWithoutLock st t (k, v) = Inr st' \<and> struct st' (C(i := C i @ [oNext st])) prim (kv(k \<mapsto> v)) \<and>
    inserted st C st' (C(i := C i @ [oNext st])) i (k, v)"
proof -
  let ?o = "oNext st" and ?C = "C(i := C i @ [oNext st])"
  have L: "layout (mem st) (pNext st) (oNext st) C prim kv" and wf: "pages_wf st"
    using S by (auto simp: struct_def)
  have tl: "t = last (chain i (C i))" using target_full[of "mem st", OF n] by (simp add: t_def chain_def)
  have tin: "t \<in> set (chain i (C i))" unfolding tl by (rule last_in_set) (simp add: chain_def)
  then have r: "inRange st t" using struct_walkable(1)[OF S i] by (auto simp: walkable_def chain_def)
  define st1 where "st1 = allocated False st"
  have a: "pages_wf st1" "mem st1 = mem st" "inRange st1 t" using allocated_mem[OF wf] r by (auto simp: st1_def)
  define st2 where "st2 = setSlot st1 t ((mem st t)\<lparr>nextOvfSlotId := ?o\<rparr>)"
  have m2: "mem st2 = (mem st)(t := (mem st t)\<lparr>nextOvfSlotId := ?o\<rparr>)"
    unfolding st2_def using mem_setSlot[OF a(1,3)] a(2) by simp
  have w2: "pages_wf st2" unfolding st2_def by (rule setSlot_wf[OF a(1,3)])
  have "oNext st1 \<le> capacity (oSlots st1)"
    using allocated_room[OF wf, of "OSlot 0" False] S by (simp add: st1_def struct_def arrayOf_def)
  then have ro: "inRange st2 (OSlot ?o)" by (simp add: st2_def st1_def inRange_def arrayOf_def)
  have tn: "t \<noteq> OSlot ?o" using tin layout_chain(2)[OF L i] by (auto simp: chain_def)
  have e: "mem st2 (OSlot ?o) = emptySlot" using L tn by (simp add: m2 layout_def)
  define st' where "st' = setSlot st2 (OSlot ?o) (putEntry emptySlot (k, v))"
  have call: "insertToSlotWithoutLock st t (k, v) = Inr st'"
    using n[folded t_def] getSlot_ok[OF wf r] getSlot_ok[OF w2 ro] e
    by (simp add: insertToSlotWithoutLock_def allocate_eq[OF wf] Let_def st1_def[symmetric] st2_def[symmetric] st'_def)
  have m: "mem st' = (mem st)(t := (mem st t)\<lparr>nextOvfSlotId := ?o\<rparr>, OSlot ?o := putEntry emptySlot (k, v))"
    unfolding st'_def mem_setSlot[OF w2 ro] m2 ..
  have f: "pSlots st' = pSlots st1" "oSlots st' = oSlots st1" "indexHeader st' = indexHeader st"
      "numEntriesInIndex st' = numEntriesInIndex st" by (simp_all add: st'_def st2_def st1_def)
  have p1: "pSlots st1 = pSlots st" by (simp add: st1_def allocated_def withArray_def arrayOf_def Let_def)
  have str: "struct st' ?C prim (kv(k \<mapsto> v))"
    unfolding struct_def f m
  proof (intro conjI)
    show "pages_wf st'" unfolding st'_def by (rule setSlot_wf[OF w2 ro])
    show "nextSlotIdToAllocate (pSlots st1) \<le> capacity (pSlots st1)" using S p1 by (simp add: struct_def)
    show "oNext st1 \<le> capacity (oSlots st1)" by fact
    show "layout ((mem st)(t := (mem st t)\<lparr>nextOvfSlotId := ?o\<rparr>, OSlot ?o := putEntry emptySlot (k, v)))
        (nextSlotIdToAllocate (pSlots st1)) (oNext st1) ?C prim (kv(k \<mapsto> v))"
      using layout_extend[OF L i tl k, of v] p1 by (simp add: st1_def)
  qed
  have "allPacked st' ?C" if p: "allPacked st C"
    unfolding allPacked_def
  proof (intro allI impI)
    fix j assume "j < pNext st'"
    then have j: "j < pNext st" by (simp add: f p1)
    then have pj: "packed (mem st) (PSlot j) (C j)" using p by (simp add: allPacked_def)
    have out: "OSlot ?o \<notin> set (chain j (C j))" using layout_chain(2)[OF L j] by (auto simp: chain_def)
    have "packed (mem st') (PSlot j) (C j) = packed (mem st) (PSlot j) (C j)"
      unfolding m using out by (intro packed_cong) (auto simp: chain_def)
    moreover have "numEntries (mem st' t) = SLOT_CAPACITY" using n tn by (simp add: m t_def)
    ultimately show "packed (mem st') (PSlot j) (?C j)"
      using pj packed_snoc[of "mem st'" "PSlot i" "C i" ?o] tl by (cases "j = i") (auto simp: chain_def)
  qed
  moreover have "validSet ((mem st x)\<lparr>nextOvfSlotId := ?o\<rparr>) = validSet (mem st x)" for x by (simp add: validSet_def)
  ultimately have "inserted st C st' ?C i (k, v)"
    using tin by (auto simp: inserted_def m f p1) (auto simp: st1_def)
  then show ?thesis using call str by blast
qed

lemma insert_struct:
  assumes S: "struct st C prim kv" and i: "i < pNext st" and k: "kv k = None" "prim k = i"
  obtains st' C' where "insertToSlotWithoutLock st (target (mem st) (PSlot i) (C i)) (k, v) = Inr st'"
    "struct st' C' prim (kv(k \<mapsto> v))" "inserted st C st' C' i (k, v)"
  using insert_struct_room[OF assms, of v] insert_struct_full[OF assms, of v] by blast


lemma copyEntry_struct:
  assumes S: "struct st C prim kv" and i: "i < pNext st" and k: "kv k = None" "prim k = i"
  obtains st' C' where "copyEntryToSlotWithoutLock st i (k, v) = Inr st'"
    "struct st' C' prim (kv(k \<mapsto> v))" "inserted st C st' C' i (k, v)"
proof -
  have "copyLoop (chainFuel st) st (PSlot i) (PSlot i) = Inr (target (mem st) (PSlot i) (C i))"
    by (rule copyLoop_walk[OF struct_walkable[OF S i]])
  then show thesis
    using insert_struct[OF assms, of v thesis] that by (simp add: copyEntryToSlotWithoutLock_def)
qed

section \<open>Splitting a slot\<close>

text \<open>
  \<open>adds kv E kv'\<close>: the map \<open>kv'\<close> is \<open>kv\<close> with the entries \<open>E\<close> added.
\<close>

definition adds :: "(key \<rightharpoonup> u64) \<Rightarrow> entry set \<Rightarrow> (key \<rightharpoonup> u64) \<Rightarrow> bool" where
  "adds kv E kv' \<longleftrightarrow> (\<forall>k v. kv' k = Some v \<longleftrightarrow> kv k = Some v \<or> (k, v) \<in> E)"

lemma adds_refl: "adds kv {} kv"
  by (simp add: adds_def)

lemma adds_one: "kv k = None \<Longrightarrow> adds kv {(k, v)} (kv(k \<mapsto> v))"
  by (auto simp: adds_def)

lemma adds_trans: "adds kv E kv1 \<Longrightarrow> adds kv1 F kv2 \<Longrightarrow> adds kv (E \<union> F) kv2"
  by (auto simp: adds_def)

lemma adds_dom: "adds kv E kv' \<Longrightarrow> dom kv' = dom kv \<union> fst ` E"
  by (force simp: adds_def dom_def)

text \<open>
  While a slot is being emptied, the entries that are still to be copied stay where they were: either the slot
  is a primary slot that was reset and has been refilled from the bottom with at most as many entries as
  positions were read, or it is an overflow slot that belongs to no chain any more.
\<close>

definition unread :: "InMemHashIndex \<Rightarrow> (nat \<Rightarrow> nat list) \<Rightarrow> SlotInfo \<Rightarrow> slot \<Rightarrow> nat \<Rightarrow> bool" where
  "unread st C x hdr p \<longleftrightarrow> inRange st x \<and>
     (\<forall>j. p \<le> j \<longrightarrow> j < SLOT_CAPACITY \<longrightarrow> slotEntries (mem st x) ! j = slotEntries hdr ! j) \<and>
     (isPSlot x \<and> (\<exists>n \<le> p. validSet (mem st x) = {0..<n}) \<or>
      \<not> isPSlot x \<and> slotId x < oNext st \<and> (\<forall>i < pNext st. slotId x \<notin> set (C i)))"

lemma unread_Suc:
  assumes "unread st C x hdr p"
  shows "unread st C x hdr (Suc p)"
proof -
  have "\<exists>n \<le> Suc p. V = {0..<n}" if "\<exists>n \<le> p. V = {0..<n}" for V :: "nat set"
    using that le_SucI by blast
  then show ?thesis using assms by (auto simp: unread_def dest: Suc_leD)
qed

lemma inserted_inRange:
  assumes "struct st C prim kv" "struct st' C' prim' kv'" "inserted st C st' C' i e" "inRange st x" "slotId x < oNext st \<or> isPSlot x"
  shows "inRange st' x"
  using assms by (auto simp: inRange_def arrayOf_def inserted_def struct_def)

lemma unread_insert:
  assumes S: "struct st C prim kv" and S': "struct st' C' prim kv'" and I: "inserted st C st' C' i e"
    and i: "i < pNext st" and u: "unread st C x hdr p"
  shows "unread st' C' x hdr (Suc p)"
proof (cases "isPSlot x")
  case False
  have same: "pNext st' = pNext st" "oNext st \<le> oNext st'" using I by (auto simp: inserted_def)
  have x: "slotId x < oNext st" "\<And>j. j < pNext st \<Longrightarrow> slotId x \<notin> set (C j)" using u False by (auto simp: unread_def)
  have "x \<notin> set (chain i (C i))" using x(2)[OF i] False by (auto simp: chain_def)
  then have "mem st' x = mem st x" using I x(1) by (simp add: inserted_def)
  moreover have "slotId x \<notin> set (C' j)" if "j < pNext st" for j
    using I x(2)[OF that] x(1) by (cases "j = i") (auto simp: inserted_def)
  moreover have "inRange st' x"
    using inserted_inRange[OF S S' I] u x(1) by (simp add: unread_def)
  ultimately show ?thesis using u False same x(1) by (auto simp: unread_def)
next
  case True
  obtain n where n: "n \<le> p" "validSet (mem st x) = {0..<n}" using u True by (auto simp: unread_def)
  have r: "inRange st' x" using inserted_inRange[OF S S' I] u True by (simp add: unread_def)
  have ent: "slotEntries (mem st x) ! j = slotEntries hdr ! j" if "p \<le> j" "j < SLOT_CAPACITY" for j
    using u that by (simp add: unread_def)
  show ?thesis
  proof (cases "x = PSlot i")
    case False
    then have "x \<notin> set (chain i (C i))" using True by (auto simp: chain_def)
    then have "mem st' x = mem st x" using I True by (simp add: inserted_def)
    then show ?thesis using r ent n True by (auto simp: unread_def intro: exI[of _ n])
  next
    case pi: True
    consider (same) "slotEntries (mem st' x) = slotEntries (mem st x)" "validSet (mem st' x) = validSet (mem st x)"
      | (put) "numEntries (mem st x) < SLOT_CAPACITY" "mem st' x = putEntry (mem st x) e"
      using I pi by (auto simp: inserted_def)
    then show ?thesis
    proof cases
      case same
      then show ?thesis using r ent n True by (auto simp: unread_def intro: exI[of _ n])
    next
      case put
      have ok: "slot_ok (mem st x)" using S by (simp add: struct_def layout_def)
      obtain q where q: "find (\<lambda>i. \<not> isEntryValid (mem st x) i) [0..<SLOT_CAPACITY] = Some q" "q < SLOT_CAPACITY"
          "q \<notin> validSet (mem st x)" "\<And>j. j < q \<Longrightarrow> j \<in> validSet (mem st x)"
        using free_position[OF ok put(1)] by blast
      have "q = n" using q(3,4) n(2) by (metis atLeastLessThan_iff le0 linorder_neqE_nat less_irrefl)
      then have "validSet (mem st' x) = {0..<Suc n}" "slotEntries (mem st' x) = (slotEntries (mem st x))[n := e]"
        using validSet_put[OF q(1,2), of e] n(2) put(2) by auto
      then show ?thesis using r ent n True by (auto simp: unread_def intro: exI[of _ "Suc n"])
    qed
  qed
qed

definition entriesAt :: "nat list \<Rightarrow> slot \<Rightarrow> entry set" where
  "entriesAt ps hdr = {slotEntries hdr ! p |p. p \<in> set ps \<and> isEntryValid hdr p}"

text \<open>What moving entries keeps: the header, the counters, and the overflow slots that belong to no chain.\<close>

definition orphan :: "InMemHashIndex \<Rightarrow> (nat \<Rightarrow> nat list) \<Rightarrow> SlotInfo \<Rightarrow> bool" where
  "orphan st C y \<longleftrightarrow> \<not> isPSlot y \<and> slotId y < oNext st \<and> (\<forall>i < pNext st. slotId y \<notin> set (C i))"

definition kept :: "InMemHashIndex \<Rightarrow> (nat \<Rightarrow> nat list) \<Rightarrow> InMemHashIndex \<Rightarrow> (nat \<Rightarrow> nat list) \<Rightarrow> bool" where
  "kept st C st' C' \<longleftrightarrow> indexHeader st' = indexHeader st \<and> numEntriesInIndex st' = numEntriesInIndex st \<and>
     pSlots st' = pSlots st \<and> (allPacked st C \<longrightarrow> allPacked st' C') \<and>
     (\<forall>y. orphan st C y \<longrightarrow> mem st' y = mem st y \<and> orphan st' C' y)"

lemma kept_refl: "kept st C st C"
  by (simp add: kept_def)

lemma kept_trans: "kept st C st1 C1 \<Longrightarrow> kept st1 C1 st2 C2 \<Longrightarrow> kept st C st2 C2"
  by (simp add: kept_def)

lemma inserted_kept:
  assumes I: "inserted st C st' C' i e" and i: "i < pNext st"
  shows "kept st C st' C'"
proof -
  have "mem st' y = mem st y \<and> orphan st' C' y" if y: "orphan st C y" for y
  proof
    have "y \<notin> set (chain i (C i))" using y i by (auto simp: chain_def orphan_def)
    then show "mem st' y = mem st y" using I y by (simp add: inserted_def orphan_def)
    have "slotId y \<notin> set (C' j)" if "j < pNext st" for j
      using I y that by (cases "j = i") (auto simp: inserted_def orphan_def)
    then show "orphan st' C' y" using I y by (simp add: orphan_def inserted_def)
  qed
  then show ?thesis using I by (simp add: kept_def inserted_def)
qed

text \<open>The entries that wait to be copied: new keys, whose slot is the one the next level's mask gives.\<close>

definition pending :: "InMemHashIndex \<Rightarrow> (key \<Rightarrow> nat) \<Rightarrow> (key \<rightharpoonup> u64) \<Rightarrow> entry set \<Rightarrow> bool" where
  "pending st prim kv E \<longleftrightarrow> (\<forall>e \<in> E. kv (fst e) = None \<and> prim (fst e) < pNext st \<and>
     unat (murmurhash64 (fst e) AND higherLevelHashMask (indexHeader st)) = prim (fst e))"

lemma pending_adds:
  assumes "pending st prim kv F" "adds kv E kv'" "\<And>e f. e \<in> E \<Longrightarrow> f \<in> F \<Longrightarrow> fst e \<noteq> fst f"
    and "kept st C st' C'"
  shows "pending st' prim kv' F"
proof -
  have "kv' (fst f) = None" if f: "f \<in> F" for f
  proof (rule ccontr)
    assume "kv' (fst f) \<noteq> None"
    then obtain v where "kv (fst f) = Some v \<or> (fst f, v) \<in> E" using assms(2) by (auto simp: adds_def)
    then show False using assms(1) assms(3)[of "(fst f, v)" f] f by (auto simp: pending_def)
  qed
  then show ?thesis using assms(1,4) by (simp add: pending_def kept_def)
qed

lemma rehashEntries_struct:
  assumes "ps = [p..<SLOT_CAPACITY]"
    and "struct st C prim kv" "unread st C x hdr p" "slot_ok hdr" "pending st prim kv (entriesAt ps hdr)"
  shows "\<exists>st' C' kv'. rehashEntries ps st x hdr = Inr st' \<and> struct st' C' prim kv' \<and>
    adds kv (entriesAt ps hdr) kv' \<and> kept st C st' C'"
  using assms
proof (induction ps arbitrary: p st C kv)
  case Nil
  then show ?case using adds_refl kept_refl by (fastforce simp: entriesAt_def)
next
  case (Cons q ps)
  have q: "q = p" "p < SLOT_CAPACITY" "ps = [Suc p..<SLOT_CAPACITY]"
    using Cons.prems(1) upt_eq_Cons_conv[of p SLOT_CAPACITY q ps] by auto
  have sub: "entriesAt ps hdr \<subseteq> entriesAt (q # ps) hdr" by (auto simp: entriesAt_def)
  show ?case
  proof (cases "isEntryValid hdr p")
    case False
    then have "entriesAt (q # ps) hdr = entriesAt ps hdr" using q(1) by (auto simp: entriesAt_def)
    then show ?thesis
      using Cons.IH[OF q(3) Cons.prems(2) unread_Suc[OF Cons.prems(3)] Cons.prems(4)] Cons.prems(5) False q(1) by simp
  next
    case True
    obtain k v where kv: "slotEntries hdr ! p = (k, v)" by fastforce
    have E: "entriesAt (q # ps) hdr = {(k, v)} \<union> entriesAt ps hdr"
      using True q(1) kv by (auto simp: entriesAt_def intro: exI[of _ p])
    then have e: "kv k = None" "prim k < pNext st" "unat (murmurhash64 k AND higherLevelHashMask (indexHeader st)) = prim k"
      using Cons.prems(5) by (auto simp: pending_def)
    have wf: "pages_wf st" using Cons.prems(2) by (simp add: struct_def)
    have g: "getSlot st x = Inr (mem st x)" using getSlot_ok[OF wf] Cons.prems(3) by (simp add: unread_def)
    have ent: "slotEntries (mem st x) ! p = (k, v)" using Cons.prems(3) q(2) kv by (simp add: unread_def)
    obtain st1 C1 where 1: "copyEntryToSlotWithoutLock st (prim k) (k, v) = Inr st1"
        "struct st1 C1 prim (kv(k \<mapsto> v))" "inserted st C st1 C1 (prim k) (k, v)"
      using copyEntry_struct[OF Cons.prems(2) e(2,1) refl] by metis
    note k1 = inserted_kept[OF 1(3) e(2)]
    have u1: "unread st1 C1 x hdr (Suc p)" by (rule unread_insert[OF Cons.prems(2) 1(2,3) e(2) Cons.prems(3)])
    have inj: "fst e' \<noteq> k" if e': "e' \<in> entriesAt ps hdr" for e'
    proof -
      obtain j where j: "e' = slotEntries hdr ! j" "j \<in> validSet hdr" "j \<noteq> p"
        using e' q(3) by (auto simp: entriesAt_def validSet_def)
      have "p \<in> validSet hdr" using True q(2) by (simp add: validSet_def)
      then show ?thesis using Cons.prems(4) j kv unfolding slot_ok_iff inj_on_def by (metis fst_conv)
    qed
    have "pending st prim kv (entriesAt ps hdr)" using Cons.prems(5) sub by (auto simp: pending_def)
    then have pend: "pending st1 prim (kv(k \<mapsto> v)) (entriesAt ps hdr)"
      using inj by (intro pending_adds[OF _ adds_one[of kv k v, OF e(1)] _ k1]) auto
    obtain st' C' kv' where 2: "rehashEntries ps st1 x hdr = Inr st'" "struct st' C' prim kv'"
        "adds (kv(k \<mapsto> v)) (entriesAt ps hdr) kv'" "kept st1 C1 st' C'"
      using Cons.IH[OF q(3) 1(2) u1 Cons.prems(4) pend] by blast
    have "adds kv (entriesAt (q # ps) hdr) kv'" unfolding E by (rule adds_trans[OF adds_one 2(3)]) (rule e(1))
    moreover have "rehashEntries (q # ps) st x hdr = Inr st'"
      using True q(1) g ent 1(1) 2(1) e(3) by (simp add: Let_def)
    ultimately show ?thesis using 2(2) kept_trans[OF k1 2(4)] by blast
  qed
qed

text \<open>One slot: reset, then its entries are copied.\<close>

lemma entriesAt_all: "entriesAt [0..<SLOT_CAPACITY] s = set (entriesOf s)"
  by (auto simp: entriesAt_def set_entriesOf validSet_def)

lemma rehashSlot_struct:
  assumes wf: "pages_wf st" and r: "inRange st x" and s: "slot_ok (mem st x)"
  defines "st1 \<equiv> setSlot st x (resetSlot (mem st x))"
  assumes S: "struct st1 C prim kv" and x: "isPSlot x \<or> orphan st C x" and E: "pending st prim kv (set (entriesOf (mem st x)))"
  obtains st' C' kv' where "rehashSlots (x # xs) st = rehashSlots xs st'"
    "struct st' C' prim kv'" "adds kv (set (entriesOf (mem st x))) kv'" "kept st1 C st' C'"
proof -
  have m: "mem st1 = (mem st)(x := resetSlot (mem st x))" unfolding st1_def by (rule mem_setSlot[OF wf r])
  have "validSet (resetSlot (mem st x)) = {}" by (simp add: validSet_def resetSlot_def isEntryValid_def)
  then have u: "unread st1 C x (mem st x) 0"
    using r x by (auto simp: unread_def m orphan_def) (auto simp: st1_def)
  have "pending st1 prim kv (entriesAt [0..<SLOT_CAPACITY] (mem st x))"
    using E by (simp add: entriesAt_all pending_def st1_def)
  from rehashEntries_struct[OF refl S u s this] obtain st' C' kv' where
    "rehashEntries [0..<SLOT_CAPACITY] st1 x (mem st x) = Inr st'" "struct st' C' prim kv'"
    "adds kv (set (entriesOf (mem st x))) kv'" "kept st1 C st' C'" by (auto simp: entriesAt_all)
  then show thesis using that[of st' C' kv'] getSlot_ok[OF wf r] by (simp add: st1_def)
qed

lemma orphan_reset:
  assumes S: "struct st C prim kv" and x: "orphan st C x" and s: "slot_ok s"
  shows "struct (setSlot st x s) C prim kv" and "allPacked st C \<Longrightarrow> allPacked (setSlot st x s) C"
    and "orphan st C y \<Longrightarrow> orphan (setSlot st x s) C y" and "inRange st x"
    and "mem (setSlot st x s) = (mem st)(x := s)"
proof -
  have wf: "pages_wf st" and room: "oNext st \<le> capacity (oSlots st)" using S by (auto simp: struct_def)
  obtain j where j: "x = OSlot j" using x by (cases x) (auto simp: orphan_def)
  show r: "inRange st x" using x room by (simp add: inRange_def arrayOf_def orphan_def)
  show m: "mem (setSlot st x s) = (mem st)(x := s)" by (rule mem_setSlot[OF wf r])
  have "layout ((mem st)(x := s)) (pNext st) (oNext st) C prim kv"
    unfolding j using S x j s by (intro layout_orphan) (auto simp: struct_def orphan_def)
  then show "struct (setSlot st x s) C prim kv" using S setSlot_wf[OF wf r] by (simp add: struct_def m)
  show "orphan (setSlot st x s) C y" if "orphan st C y" using that by (simp add: orphan_def)
  show "allPacked (setSlot st x s) C" if p: "allPacked st C"
    unfolding allPacked_def
  proof (intro allI impI)
    fix i assume i: "i < pNext (setSlot st x s)"
    then have "x \<notin> set (chain i (C i))" using x by (auto simp: orphan_def chain_def)
    then have "packed (mem (setSlot st x s)) (PSlot i) (C i) = packed (mem st) (PSlot i) (C i)"
      unfolding m by (intro packed_cong) (auto simp: chain_def)
    then show "packed (mem (setSlot st x s)) (PSlot i) (C i)" using p i by (simp add: allPacked_def)
  qed
qed

lemma content_Cons [simp]: "content M (x # xs) = set (entriesOf (M x)) \<union> content M xs"
  by (auto simp: content_def)

text \<open>Then the overflow slots of the chain, which is no longer linked from anywhere.\<close>

lemma rehashSlots_struct:
  assumes "distinct xs" "\<forall>x \<in> set xs. orphan st C x" "disjointKeys (mem st) xs" "struct st C prim kv"
    and "pending st prim kv (content (mem st) xs)"
  shows "\<exists>st' C' kv'. rehashSlots xs st = Inr st' \<and> struct st' C' prim kv' \<and> adds kv (content (mem st) xs) kv' \<and>
    indexHeader st' = indexHeader st \<and> numEntriesInIndex st' = numEntriesInIndex st \<and> pSlots st' = pSlots st \<and>
    (allPacked st C \<longrightarrow> allPacked st' C')"
  using assms
proof (induction xs arbitrary: st C kv)
  case Nil
  then show ?case using adds_refl by (fastforce simp: content_def)
next
  case (Cons x xs)
  let ?E = "set (entriesOf (mem st x))" and ?st1 = "setSlot st x (resetSlot (mem st x))"
  have wf: "pages_wf st" and ok: "slot_ok (mem st x)" and x: "orphan st C x"
    using Cons.prems(2,4) layout_ok by (auto simp: struct_def)
  have rok: "slot_ok (resetSlot (mem st x))" using ok by (intro resetSlot_ok) (simp add: slot_ok_def)
  note o = orphan_reset[OF Cons.prems(4) x rok]
  have pend: "pending st prim kv ?E" "pending st prim kv (content (mem st) xs)"
    using Cons.prems(5) by (auto simp: pending_def)
  obtain st2 C2 kv2 where 2: "rehashSlots (x # xs) st = rehashSlots xs st2" "struct st2 C2 prim kv2"
      "adds kv ?E kv2" "kept ?st1 C st2 C2"
    using rehashSlot_struct[OF wf o(4) ok o(1) disjI2[OF x] pend(1)] by metis
  have m: "mem st2 y = mem st y" if "y \<in> set xs" for y
    using 2(4) o(3)[of y] o(5) Cons.prems(1,2) that by (auto simp: kept_def)
  then have c: "content (mem st2) xs = content (mem st) xs" by (simp add: content_def)
  have dk: "disjointKeys (mem st2) xs" using Cons.prems(3) m by (auto simp: disjointKeys_def)
  have orph: "\<forall>y \<in> set xs. orphan st2 C2 y" using 2(4) o(3) Cons.prems(2) by (auto simp: kept_def)
  have diff: "fst e \<noteq> fst f" if e: "e \<in> ?E" and f: "f \<in> content (mem st) xs" for e f
  proof -
    obtain y where y: "y \<in> set xs" "f \<in> set (entriesOf (mem st y))" using f by (auto simp: content_def)
    have "x \<noteq> y" using y(1) Cons.prems(1) by auto
    then have "keysOf (mem st x) \<inter> keysOf (mem st y) = {}"
      using Cons.prems(3) y(1) unfolding disjointKeys_def by (meson list.set_intros)
    then show ?thesis using e y(2) by (auto simp: keysOf_def)
  qed
  have "pending ?st1 prim kv (content (mem st) xs)" using pend(2) by (simp add: pending_def)
  then have "pending st2 prim kv2 (content (mem st) xs)" by (rule pending_adds[OF _ 2(3) diff 2(4)])
  then have "pending st2 prim kv2 (content (mem st2) xs)" by (simp add: c)
  from Cons.IH[OF _ orph dk 2(2) this] obtain st' C' kv' where 3: "rehashSlots xs st2 = Inr st'"
      "struct st' C' prim kv'" "adds kv2 (content (mem st) xs) kv'" "indexHeader st' = indexHeader st2"
      "numEntriesInIndex st' = numEntriesInIndex st2" "pSlots st' = pSlots st2" "allPacked st2 C2 \<longrightarrow> allPacked st' C'"
    using Cons.prems(1) c by auto
  have "adds kv (content (mem st) (x # xs)) kv'" using adds_trans[OF 2(3) 3(3)] by simp
  then show ?case using 2 3 o(2) by (intro exI[of _ st'] exI[of _ C'] exI[of _ kv']) (auto simp: kept_def)
qed


lemma allocated_mutexes:
  assumes "pages_wf st" "mutexes (pSlots st) = replicate (capacity (pSlots st)) False"
  shows "mutexes (pSlots (allocated True st)) = replicate (capacity (pSlots (allocated True st))) False"
proof -
  have "capacity (a\<lparr>nextSlotIdToAllocate := n\<rparr>) = capacity a" for a n by (simp add: capacity_def)
  then show ?thesis
    using assms by (simp add: allocated_def withArray_def arrayOf_def Let_def pages_wf_def replicate_add)
qed

lemma allocateP_struct:
  assumes "struct st C prim kv"
  shows "struct (allocated True st) (C(pNext st := [])) prim kv" "oSlots (allocated True st) = oSlots st"
proof -
  let ?st = "allocated True st"
  have wf: "pages_wf st" and L: "layout (mem st) (pNext st) (oNext st) C prim kv" using assms by (auto simp: struct_def)
  show o: "oSlots ?st = oSlots st" by (simp add: allocated_def withArray_def arrayOf_def Let_def)
  have "pNext ?st \<le> capacity (pSlots ?st)"
    using allocated_room[OF wf, of "PSlot 0" True] assms by (simp add: struct_def arrayOf_def)
  then show "struct ?st (C(pNext st := [])) prim kv"
    using layout_newP[OF L] allocated_mem(1,2)[OF wf, where p = True] assms o by (simp add: struct_def)
qed

text \<open>The slot to split loses its chain; the overflow slots of that chain belong to no chain any more.\<close>

lemma resetP_struct:
  assumes S: "struct st C prim kv" and i: "i < pNext st"
    and prim': "\<And>k. prim k \<noteq> i \<Longrightarrow> prim' k = prim k"
  defines "st' \<equiv> setSlot st (PSlot i) (resetSlot (mem st (PSlot i)))"
  shows "struct st' (C(i := [])) prim' (kv |` {k. prim k \<noteq> i})" "x \<in> OSlot ` set (C i) \<Longrightarrow> orphan st' (C(i := [])) x"
    "mem st' = (mem st)(PSlot i := resetSlot (mem st (PSlot i)))" "allPacked st C \<Longrightarrow> allPacked st' (C(i := []))"
proof -
  have wf: "pages_wf st" and L: "layout (mem st) (pNext st) (oNext st) C prim kv" using S by (auto simp: struct_def)
  have r: "inRange st (PSlot i)" using S i by (simp add: struct_def inRange_def arrayOf_def)
  show m: "mem st' = (mem st)(PSlot i := resetSlot (mem st (PSlot i)))" unfolding st'_def by (rule mem_setSlot[OF wf r])
  have "layout (mem st') (pNext st) (oNext st) (C(i := [])) prim' (kv |` {k. prim k \<noteq> i})"
    unfolding m by (rule layout_resetP[OF L i prim'])
  then show "struct st' (C(i := [])) prim' (kv |` {k. prim k \<noteq> i})"
    using S setSlot_wf[OF wf r] by (simp add: struct_def st'_def)
  show "orphan st' (C(i := [])) x" if x: "x \<in> OSlot ` set (C i)"
  proof -
    obtain j where j: "x = OSlot j" "j \<in> set (C i)" using x by blast
    have "j < oNext st" using layout_chain(2)[OF L i] j(2) by auto
    moreover have "j \<notin> set (C l)" if "l < pNext st" "l \<noteq> i" for l
      using other_chain[OF L i that(1), of x] that(2) j by (auto simp: chain_def)
    ultimately show ?thesis by (simp add: orphan_def st'_def j(1))
  qed
  show "allPacked st' (C(i := []))" if p: "allPacked st C"
    unfolding allPacked_def
  proof (intro allI impI)
    fix j assume "j < pNext st'"
    then have j: "packed (mem st) (PSlot j) (C j)" using p by (simp add: allPacked_def st'_def)
    have "packed (mem st') (PSlot j) (C j) = packed (mem st) (PSlot j) (C j)" if "j \<noteq> i"
      unfolding m using that by (intro packed_cong) auto
    then show "packed (mem st') (PSlot j) ((C(i := [])) j)" using j by (cases "j = i") auto
  qed
qed

lemma rehash_chain:
  assumes S: "struct st C prim kv" and i: "i < pNext st"
    and prim': "\<And>k. prim k \<noteq> i \<Longrightarrow> prim' k = prim k" "\<And>k. prim k = i \<Longrightarrow>
      prim' k < pNext st \<and> unat (murmurhash64 k AND higherLevelHashMask (indexHeader st)) = prim' k"
  obtains st' C' where "rehashSlots (chain i (C i)) st = Inr st'" "struct st' C' prim' kv"
    "indexHeader st' = indexHeader st" "numEntriesInIndex st' = numEntriesInIndex st" "pSlots st' = pSlots st"
    "allPacked st C \<longrightarrow> allPacked st' C'"
proof -
  let ?kv = "kv |` {k. prim k \<noteq> i}" and ?E = "set (entriesOf (mem st (PSlot i)))" and ?xs = "map OSlot (C i)"
  define st1 where "st1 = setSlot st (PSlot i) (resetSlot (mem st (PSlot i)))"
  have wf: "pages_wf st" and L: "layout (mem st) (pNext st) (oNext st) C prim kv" using S by (auto simp: struct_def)
  have r: "inRange st (PSlot i)" using S i by (simp add: struct_def inRange_def arrayOf_def)
  note c = layout_chain[OF L i]
  note R = resetP_struct[OF S i prim'(1), folded st1_def]
  have all: "?E \<union> content (mem st) ?xs = belongs kv prim i" using c(4) by (simp add: chain_def)
  have pend: "pending st prim' ?kv (belongs kv prim i)"
    using prim'(2) by (auto simp: pending_def belongs_def)
  then have pend1: "pending st prim' ?kv ?E" "pending st1 prim' ?kv (content (mem st) ?xs)"
    unfolding all[symmetric] by (auto simp: pending_def st1_def)
  obtain st2 C2 kv2 where 2: "rehashSlots (PSlot i # ?xs) st = rehashSlots ?xs st2" "struct st2 C2 prim' kv2"
      "adds ?kv ?E kv2" "kept st1 (C(i := [])) st2 C2"
    using rehashSlot_struct[OF wf r layout_ok[OF L], of "C(i := [])" prim' ?kv ?xs] R(1) pend1(1)
    unfolding st1_def by (metis SlotInfo.select_convs(2))
  have x: "orphan st2 C2 x \<and> mem st2 x = mem st x" if "x \<in> set ?xs" for x
  proof -
    have "orphan st1 (C(i := [])) x" using R(2) that by simp
    moreover have "mem st1 x = mem st x" using that R(3) by auto
    ultimately show ?thesis using 2(4) by (auto simp: kept_def)
  qed
  then have ct: "content (mem st2) ?xs = content (mem st) ?xs" by (auto simp: content_def)
  have diff: "fst e \<noteq> fst f" if e: "e \<in> ?E" and f: "f \<in> content (mem st) ?xs" for e f
  proof -
    obtain y where y: "y \<in> set ?xs" "f \<in> set (entriesOf (mem st y))" using f by (auto simp: content_def)
    then have "y \<noteq> PSlot i" "y \<in> set (chain i (C i))" "PSlot i \<in> set (chain i (C i))" by (auto simp: chain_def)
    then have "keysOf (mem st (PSlot i)) \<inter> keysOf (mem st y) = {}" using c(5) by (auto simp: disjointKeys_def)
    then show ?thesis using e y(2) by (auto simp: keysOf_def)
  qed
  have "pending st2 prim' kv2 (content (mem st2) ?xs)"
    unfolding ct by (rule pending_adds[OF pend1(2) 2(3) diff 2(4)])
  moreover have "disjointKeys (mem st2) ?xs" using c(5) x unfolding disjointKeys_def chain_def by (metis list.set_intros(2))
  moreover have "distinct ?xs" using c(6) by (simp add: chain_def)
  ultimately obtain st' C' kv' where 3: "rehashSlots ?xs st2 = Inr st'" "struct st' C' prim' kv'"
      "adds kv2 (content (mem st) ?xs) kv'" "indexHeader st' = indexHeader st2"
      "numEntriesInIndex st' = numEntriesInIndex st2" "pSlots st' = pSlots st2" "allPacked st2 C2 \<longrightarrow> allPacked st' C'"
    using rehashSlots_struct[OF _ _ _ 2(2), of ?xs] x ct by auto
  have "adds ?kv (belongs kv prim i) kv'" using adds_trans[OF 2(3) 3(3)] all by simp
  then have "kv' k = Some v \<longleftrightarrow> kv k = Some v" for k v
    by (auto simp: adds_def belongs_def restrict_map_def)
  then have "kv' = kv" by (intro ext) (metis not_None_eq)
  moreover have "rehashSlots (chain i (C i)) st = Inr st'" using 2(1) 3(1) by (simp add: chain_def)
  moreover have "indexHeader st1 = indexHeader st" "numEntriesInIndex st1 = numEntriesInIndex st" "pSlots st1 = pSlots st"
    by (simp_all add: st1_def)
  ultimately show thesis using that[of st' C'] 2(4) 3 R(4) by (auto simp: kept_def)
qed

lemma split_rep:
  assumes R: "rep st C kv" and n: "pNext st < 2 ^ 29"
  shows "\<exists>st' C'. splitSlotWithoutLock st = Inr st' \<and> rep st' C' kv \<and> pNext st' = pNext st + 1 \<and>
    numEntriesInIndex st' = numEntriesInIndex st \<and> (allPacked st C \<longrightarrow> allPacked st' C')"
proof -
  let ?h = "indexHeader st" and ?s = "nextSplitSlotId (indexHeader st)" and ?C1 = "C(pNext st := [])"
  let ?prim = "getPrimarySlotIdForKey ?h"
  have S: "struct st C ?prim kv" and H: "hdr_wf ?h (pNext st)" and wf: "pages_wf st"
    using R by (auto simp: rep_def struct_def)
  obtain h' where h': "incrementNextSplitSlotId ?h = Inr h'" "hdr_wf h' (pNext st + 1)"
      "\<And>k. getPrimarySlotIdForKey h' k = splitPrim ?h k" "numSlotsPerPage h' = numSlotsPerPage ?h"
    using increment_wf[OF H n] by metis
  have s: "?s < pNext st" 
  proof -
    have "0 < (2 :: nat) ^ currentLevel ?h" "2 ^ currentLevel ?h + ?s \<le> pNext st" using H by (simp_all add: hdr_wf_def)
    then show ?thesis by linarith
  qed
  define st1 where "st1 = allocated True st"
  have f1: "pNext st1 = pNext st + 1" "indexHeader st1 = ?h" "numEntriesInIndex st1 = numEntriesInIndex st"
    by (simp_all add: st1_def)
  have S1: "struct st1 ?C1 ?prim kv" unfolding st1_def by (rule allocateP_struct[OF S])
  have s1: "?s < pNext st1" using s f1 by simp
  have sp: "splitPrim ?h k < pNext st1" for k using primary_bound[OF h'(2), of k] h'(3) f1 by simp
  obtain st2 C2 where 2: "rehashSlots (chain ?s (?C1 ?s)) st1 = Inr st2" "struct st2 C2 (splitPrim ?h) kv"
      "indexHeader st2 = indexHeader st1" "numEntriesInIndex st2 = numEntriesInIndex st1" "pSlots st2 = pSlots st1"
      "allPacked st1 ?C1 \<longrightarrow> allPacked st2 C2"
    using rehash_chain[OF S1 s1, of "splitPrim ?h"] sp f1(2) by (metis splitPrim_def)
  have walk: "getPAndOSlotsWithoutLock st1 ?s = Inr (chain ?s (?C1 ?s))"
    unfolding getPAndOSlotsWithoutLock_def chain_def by (rule getPAndOSlotsLoop_walk[OF struct_walkable[OF S1 s1]])
  let ?st = "st2\<lparr>indexHeader := h'\<rparr>"
  have "splitSlotWithoutLock st = Inr ?st"
    using walk 2(1) h'(1) 2(3) f1(2)
    by (simp add: splitSlotWithoutLock_def allocate_eq[OF wf] st1_def[symmetric] rehashSlotsWithoutLock_def)
  moreover have pg: "pages_wf ?st = pages_wf st2" "mem ?st = mem st2"
    by (rule same_pages; use h'(4) 2(3) f1(2) in simp)+
  have "struct ?st C2 (splitPrim ?h) kv"
    by (rule struct_cong[OF 2(2)]) (use pg 2(2) in \<open>auto simp: struct_def\<close>)
  moreover have "splitPrim ?h = getPrimarySlotIdForKey h'" using h'(3) by auto
  moreover have "mutexes (pSlots st1) = replicate (capacity (pSlots st1)) False"
    unfolding st1_def using R by (intro allocated_mutexes[OF wf]) (simp add: rep_def)
  ultimately have "splitSlotWithoutLock st = Inr ?st \<and> rep ?st C2 kv \<and> pNext ?st = pNext st + 1"
    using h'(2) 2 f1 R by (simp add: rep_def)
  moreover have "allPacked ?st C2" if p: "allPacked st C"
  proof -
    have "mem st1 = mem st" unfolding st1_def by (rule allocated_mem[OF wf])
    then have "allPacked st1 ?C1" using p f1(1) by (auto simp: allPacked_def)
    then show ?thesis using 2(6) pg(2) by (simp add: allPacked_def)
  qed
  ultimately show ?thesis using 2(4) f1(3) by auto
qed

lemma splitLoop_rep:
  "rep st C kv \<Longrightarrow> required \<le> 2 ^ 31 \<Longrightarrow> required \<le> (pNext st + n) * SLOT_CAPACITY \<Longrightarrow>
    \<exists>st' C'. splitLoop n st required = Inr st' \<and> rep st' C' kv \<and> required \<le> pNext st' * SLOT_CAPACITY \<and>
      (allPacked st C \<longrightarrow> allPacked st' C')"
proof (induction n arbitrary: st C)
  case 0
  then show ?case by (subst splitLoop.simps) auto
next
  case (Suc n)
  show ?case
  proof (cases "required > pNext st * SLOT_CAPACITY")
    case False
    then show ?thesis using Suc.prems by (subst splitLoop.simps) auto
  next
    case True
    then have "pNext st < 2 ^ 29" using Suc.prems(2) by (simp add: SLOT_CAPACITY_def)
    from split_rep[OF Suc.prems(1) this] obtain st1 C1 where 1: "splitSlotWithoutLock st = Inr st1" "rep st1 C1 kv"
        "pNext st1 = pNext st + 1" "allPacked st C \<longrightarrow> allPacked st1 C1" by blast
    have "required \<le> (pNext st1 + n) * SLOT_CAPACITY" using Suc.prems(3) 1(3) by simp
    from Suc.IH[OF 1(2) Suc.prems(2) this] show ?thesis
      using True 1 by (subst splitLoop.simps) auto
  qed
qed

section \<open>Append and delete\<close>

text \<open>Locking the mutex of a primary slot and unlocking it again.\<close>

lemma lock_ok:
  assumes "rep st C kv" "i < pNext st"
  shows "lockSlotMutex (pSlots st) i =
    Inr ((pSlots st)\<lparr>mutexes := (replicate (capacity (pSlots st)) False)[i := True]\<rparr>)"
  using assms by (simp add: rep_def struct_def lockSlotMutex_def)

lemma rep_unlock:
  assumes R: "rep st0 C0 kv0" and i: "i < pNext st0"
    and p: "pSlots st = (pSlots st0)\<lparr>mutexes := (replicate (capacity (pSlots st0)) False)[i := True]\<rparr>"
    and h: "indexHeader st = indexHeader st0"
    and S: "struct st C (getPrimarySlotIdForKey (indexHeader st0)) kv"
    and n: "n = card (dom kv)" and st': "st' = st\<lparr>pSlots := unlockSlotMutex (pSlots st) i, numEntriesInIndex := n\<rparr>"
  shows "rep st' C kv" and "mem st' = mem st"
proof -
  have c: "capacity (pSlots st') = capacity (pSlots st0)" "capacity (pSlots st) = capacity (pSlots st0)"
    by (simp_all add: st' p unlockSlotMutex_def capacity_def)
  have pg: "pages_wf st' = pages_wf st" "mem st' = mem st" by (rule same_pages; simp add: st' unlockSlotMutex_def)+
  then show "mem st' = mem st" by simp
  have f: "indexHeader st' = indexHeader st0" "oSlots st' = oSlots st" "pNext st' = pNext st0" "pNext st = pNext st0"
      "numEntriesInIndex st' = n" by (simp_all add: st' p h unlockSlotMutex_def)
  have "struct st' C (getPrimarySlotIdForKey (indexHeader st0)) kv"
    using S by (rule struct_cong) (use S pg f c in \<open>auto simp: struct_def\<close>)
  moreover have "mutexes (pSlots st') = replicate (capacity (pSlots st0)) False"
    using R i by (simp add: st' p unlockSlotMutex_def struct_def rep_def list_update_same_conv)
  ultimately show "rep st' C kv" using R n f c by (simp add: rep_def)
qed

lemma requiredEntries_bound: "n < 2 ^ 30 \<Longrightarrow> requiredEntries (n + 1) \<le> 2 ^ 31"
  by (simp add: requiredEntries_def)

lemma append_split:
  assumes "rep st C kv" "numEntriesInIndex st < 2 ^ 30"
  obtains st' C' where
    "splitLoop (requiredEntries (numEntriesInIndex st + 1)) st (requiredEntries (numEntriesInIndex st + 1)) = Inr st'"
    "rep st' C' kv" "allPacked st C \<longrightarrow> allPacked st' C'"
proof -
  let ?r = "requiredEntries (numEntriesInIndex st + 1)"
  have "?r \<le> (pNext st + ?r) * SLOT_CAPACITY" by (simp add: SLOT_CAPACITY_def)
  from splitLoop_rep[OF assms(1) requiredEntries_bound[OF assms(2)] this] show thesis using that by blast
qed

text \<open>An append takes a lock first: the state in which the loop along the chain runs.\<close>

lemma locked_state:
  fixes k :: key
  assumes R: "rep st C kv"
  defines "h \<equiv> indexHeader st"
  defines "i \<equiv> getPrimarySlotIdForKey h k"
  obtains ms where "lockSlotMutex (pSlots st) i = Inr ((pSlots st)\<lparr>mutexes := ms\<rparr>)" "i < pNext st"
    "ms = (replicate (capacity (pSlots st)) False)[i := True]"
    "struct (st\<lparr>pSlots := (pSlots st)\<lparr>mutexes := ms\<rparr>\<rparr>) C (getPrimarySlotIdForKey h) kv"
    "mem (st\<lparr>pSlots := (pSlots st)\<lparr>mutexes := ms\<rparr>\<rparr>) = mem st"
proof -
  have S: "struct st C (getPrimarySlotIdForKey h) kv" and H: "hdr_wf h (pNext st)" using R by (auto simp: rep_def h_def)
  have i: "i < pNext st" unfolding i_def by (rule primary_bound[OF H])
  show thesis using that[OF lock_ok[OF R i] i refl] struct_mutexes[OF S] by blast
qed

lemma content_key:
  assumes "(k, v) \<in> content M (chain i ids)"
  obtains y where "y \<in> set (PSlot i # map OSlot ids)" "k \<in> keysOf (M y)"
proof -
  obtain y where "y \<in> set (chain i ids)" "(k, v) \<in> set (entriesOf (M y))" using assms by (auto simp: content_def)
  then show thesis using that[of y] imageI[of "(k, v)" "set (entriesOf (M y))" fst] by (simp add: chain_def keysOf_def)
qed

lemma append_new:
  assumes R0: "rep st0 C0 kv" and k: "kv k = None" and n: "numEntriesInIndex st0 < 2 ^ 30"
  obtains st' C' where "appendInternal st0 k v = Inr (True, st')" "rep st' C' (kv(k \<mapsto> v))"
    "allPacked st0 C0 \<longrightarrow> allPacked st' C'"
proof -
  obtain st C where sp: "splitLoop (requiredEntries (numEntriesInIndex st0 + 1)) st0
        (requiredEntries (numEntriesInIndex st0 + 1)) = Inr st" and R: "rep st C kv"
      and p0: "allPacked st0 C0 \<longrightarrow> allPacked st C"
    by (rule append_split[OF R0 n])
  let ?h = "indexHeader st"
  let ?i = "getPrimarySlotIdForKey ?h k"
  obtain ms where ms: "lockSlotMutex (pSlots st) ?i = Inr ((pSlots st)\<lparr>mutexes := ms\<rparr>)" and i: "?i < pNext st"
      and msdef: "ms = (replicate (capacity (pSlots st)) False)[?i := True]"
      and S: "struct (st\<lparr>pSlots := (pSlots st)\<lparr>mutexes := ms\<rparr>\<rparr>) C (getPrimarySlotIdForKey ?h) kv"
      and mem: "mem (st\<lparr>pSlots := (pSlots st)\<lparr>mutexes := ms\<rparr>\<rparr>) = mem st"
    by (rule locked_state[OF R])
  define st1 where "st1 = st\<lparr>pSlots := (pSlots st)\<lparr>mutexes := ms\<rparr>\<rparr>"
  have i1: "?i < pNext st1" using i by (simp add: st1_def)
  have S1: "struct st1 C (getPrimarySlotIdForKey ?h) kv" using S by (simp add: st1_def)
  then have L: "layout (mem st1) (pNext st1) (oNext st1) C (getPrimarySlotIdForKey ?h) kv" by (simp add: struct_def)
  have "k \<notin> keysOf (mem st1 y)" if "y \<in> set (PSlot ?i # map OSlot (C ?i))" for y
    using key_not_in_chain[where prim = "getPrimarySlotIdForKey ?h", OF L i1 k, of y] that by (simp add: chain_def)
  then have loop: "appendLoop (chainFuel st1) st1 (PSlot ?i) (PSlot ?i) k = Inr (Some (target (mem st1) (PSlot ?i) (C ?i)))"
    by (intro appendLoop_new[OF struct_walkable[OF S1 i1]])
  obtain st2 C2 where 2: "insertToSlotWithoutLock st1 (target (mem st1) (PSlot ?i) (C ?i)) (k, v) = Inr st2"
      "struct st2 C2 (getPrimarySlotIdForKey ?h) (kv(k \<mapsto> v))" "inserted st1 C st2 C2 ?i (k, v)"
    by (rule insert_struct[OF S1 i1 k refl])
  let ?st = "st2\<lparr>pSlots := unlockSlotMutex (pSlots st2) ?i, numEntriesInIndex := numEntriesInIndex st2 + 1\<rparr>"
  have f: "indexHeader st2 = ?h" "pSlots st2 = pSlots st1" "numEntriesInIndex st2 = numEntriesInIndex st"
    using 2(3) by (auto simp: inserted_def st1_def)
  have call: "appendInternal st0 k v = Inr (True, ?st)"
    using sp ms loop 2(1) by (simp add: appendInternal_def Let_def st1_def[symmetric])
  have "numEntriesInIndex st2 + 1 = card (dom (kv(k \<mapsto> v)))" using k R f(3) by (simp add: domIff rep_def)
  moreover have p2: "pSlots st2 = (pSlots st)\<lparr>mutexes := (replicate (capacity (pSlots st)) False)[?i := True]\<rparr>"
    using f(2) msdef by (simp add: st1_def)
  ultimately have "rep ?st C2 (kv(k \<mapsto> v))" and m2: "mem ?st = mem st2"
    using rep_unlock[OF R i p2 f(1) 2(2) _ refl] by auto
  moreover have "allPacked ?st C2" if "allPacked st0 C0"
  proof -
    have "allPacked st1 C" using p0 that mem by (simp add: allPacked_def st1_def)
    then have "allPacked st2 C2" using 2(3) by (simp add: inserted_def)
    then show ?thesis using m2 by (simp add: allPacked_def unlockSlotMutex_def)
  qed
  ultimately show thesis using that[of ?st C2] call by blast
qed

lemma append_existing:
  assumes R0: "rep st0 C0 kv" and k: "kv k \<noteq> None" and n: "numEntriesInIndex st0 < 2 ^ 30" and P: "allPacked st0 C0"
  obtains st' C' where "appendInternal st0 k v = Inr (False, st')" "rep st' C' kv" "allPacked st' C'"
proof -
  obtain st C where sp: "splitLoop (requiredEntries (numEntriesInIndex st0 + 1)) st0
        (requiredEntries (numEntriesInIndex st0 + 1)) = Inr st" and R: "rep st C kv"
      and p0: "allPacked st0 C0 \<longrightarrow> allPacked st C"
    by (rule append_split[OF R0 n])
  let ?h = "indexHeader st"
  let ?i = "getPrimarySlotIdForKey ?h k"
  obtain ms where ms: "lockSlotMutex (pSlots st) ?i = Inr ((pSlots st)\<lparr>mutexes := ms\<rparr>)" and i: "?i < pNext st"
      and msdef: "ms = (replicate (capacity (pSlots st)) False)[?i := True]"
      and S: "struct (st\<lparr>pSlots := (pSlots st)\<lparr>mutexes := ms\<rparr>\<rparr>) C (getPrimarySlotIdForKey ?h) kv"
      and mem: "mem (st\<lparr>pSlots := (pSlots st)\<lparr>mutexes := ms\<rparr>\<rparr>) = mem st"
    by (rule locked_state[OF R])
  define st1 where "st1 = st\<lparr>pSlots := (pSlots st)\<lparr>mutexes := ms\<rparr>\<rparr>"
  have i1: "?i < pNext st1" using i by (simp add: st1_def)
  have S1: "struct st1 C (getPrimarySlotIdForKey ?h) kv" using S by (simp add: st1_def)
  then have L: "layout (mem st1) (pNext st1) (oNext st1) C (getPrimarySlotIdForKey ?h) kv" by (simp add: struct_def)
  obtain w where "kv k = Some w" using k by blast
  then have "(k, w) \<in> content (mem st1) (chain ?i (C ?i))"
    unfolding layout_chain(4)[OF L i1] by (simp add: belongs_def)
  then obtain y where "y \<in> set (PSlot ?i # map OSlot (C ?i))" "k \<in> keysOf (mem st1 y)" by (rule content_key)
  moreover have "packed (mem st1) (PSlot ?i) (C ?i)" using p0 P mem i by (simp add: allPacked_def st1_def)
  ultimately have loop: "appendLoop (chainFuel st1) st1 (PSlot ?i) (PSlot ?i) k = Inr None"
    by (intro appendLoop_exists[OF struct_walkable[OF S1 i1]])
  let ?st = "st1\<lparr>pSlots := unlockSlotMutex (pSlots st1) ?i\<rparr>"
  have call: "appendInternal st0 k v = Inr (False, ?st)"
    using sp ms loop[unfolded st1_def] by (simp add: appendInternal_def Let_def st1_def)
  have "?st = st1\<lparr>pSlots := unlockSlotMutex (pSlots st1) ?i, numEntriesInIndex := card (dom kv)\<rparr>"
    using R by (simp add: st1_def rep_def)
  then have "rep ?st C kv" and m2: "mem ?st = mem st1"
    using rep_unlock[OF R i _ _ S1 refl] msdef by (auto simp: st1_def)
  moreover have "allPacked ?st C" using p0 P mem m2 by (simp add: allPacked_def st1_def unlockSlotMutex_def)
  ultimately show thesis using that[of ?st C] call by blast
qed

lemma delete_rep:
  assumes R: "rep st C kv"
  obtains st' where "deleteInternal st k = Inr (kv k \<noteq> None, st')" "rep st' C (kv(k := None))"
proof -
  let ?h = "indexHeader st"
  let ?i = "getPrimarySlotIdForKey ?h k"
  obtain ms where ms: "lockSlotMutex (pSlots st) ?i = Inr ((pSlots st)\<lparr>mutexes := ms\<rparr>)" and i: "?i < pNext st"
      and msdef: "ms = (replicate (capacity (pSlots st)) False)[?i := True]"
      and S: "struct (st\<lparr>pSlots := (pSlots st)\<lparr>mutexes := ms\<rparr>\<rparr>) C (getPrimarySlotIdForKey ?h) kv"
    by (rule locked_state[OF R])
  define st1 where "st1 = st\<lparr>pSlots := (pSlots st)\<lparr>mutexes := ms\<rparr>\<rparr>"
  have i1: "?i < pNext st1" using i by (simp add: st1_def)
  have S1: "struct st1 C (getPrimarySlotIdForKey ?h) kv" using S by (simp add: st1_def)
  then have L: "layout (mem st1) (pNext st1) (oNext st1) C (getPrimarySlotIdForKey ?h) kv" and wf: "pages_wf st1"
    by (simp_all add: struct_def)
  note cnt = layout_chain(4)[OF L i1]
  note w = struct_walkable[OF S1 i1]
  from deleteLoop_walk[OF w, of k] show thesis
  proof (elim disjE exE conjE)
    assume d: "deleteLoop (chainFuel st1) st1 (PSlot ?i) k = Inr None"
      and no: "\<forall>y \<in> set (PSlot ?i # map OSlot (C ?i)). k \<notin> keysOf (mem st1 y)"
    have kN: "kv k = None"
    proof (rule ccontr)
      assume "kv k \<noteq> None"
      then obtain v where "(k, v) \<in> content (mem st1) (chain ?i (C ?i))" unfolding cnt by (auto simp: belongs_def)
      then show False by (rule content_key) (use no in blast)
    qed
    let ?st = "st1\<lparr>pSlots := unlockSlotMutex (pSlots st1) ?i\<rparr>"
    have "?st = st1\<lparr>pSlots := unlockSlotMutex (pSlots st1) ?i, numEntriesInIndex := card (dom kv)\<rparr>"
      using R by (simp add: st1_def rep_def)
    then have "rep ?st C kv" using rep_unlock(1)[OF R i _ _ S1 refl] msdef by (auto simp: st1_def)
    moreover have "kv(k := None) = kv" using kN by auto
    moreover have "deleteInternal st k = Inr (False, ?st)"
      using ms d[unfolded st1_def] by (simp add: deleteInternal_def Let_def st1_def)
    ultimately show thesis using that[of ?st] kN by simp
  next
    fix y j
    assume y: "y \<in> set (PSlot ?i # map OSlot (C ?i))" and j: "j \<in> validSet (mem st1 y)" "fst (slotEntries (mem st1 y) ! j) = k"
      and d: "deleteLoop (chainFuel st1) st1 (PSlot ?i) k = Inr (Some (setSlot st1 y (decNumEntries (setEntryInvalid (mem st1 y) j))))"
    let ?s = "decNumEntries (setEntryInvalid (mem st1 y) j)"
    have yc: "y \<in> set (chain ?i (C ?i))" using y by (simp add: chain_def)
    have r: "inRange st1 y" using w(1) y by (auto simp: walkable_def)
    define st2 where "st2 = setSlot st1 y ?s"
    have "(k, snd (slotEntries (mem st1 y) ! j)) \<in> content (mem st1) (chain ?i (C ?i))"
      using j yc by (force simp: content_def set_entriesOf)
    then have kS: "kv k \<noteq> None" unfolding cnt by (simp add: belongs_def)
    have S2: "struct st2 C (getPrimarySlotIdForKey ?h) (kv(k := None))"
      using S1 layout_remove[where prim = "getPrimarySlotIdForKey ?h", OF L i1 yc j] setSlot_wf[OF wf r] mem_setSlot[OF wf r] by (simp add: struct_def st2_def)
    let ?st = "st2\<lparr>pSlots := unlockSlotMutex (pSlots st2) ?i, numEntriesInIndex := numEntriesInIndex st2 - 1\<rparr>"
    have f: "indexHeader st2 = ?h" "pSlots st2 = pSlots st1" "numEntriesInIndex st2 = numEntriesInIndex st"
      by (simp_all add: st2_def st1_def)
    have "numEntriesInIndex st2 - 1 = card (dom (kv(k := None)))" using kS R f(3) by (simp add: domIff rep_def)
    moreover have p2: "pSlots st2 = (pSlots st)\<lparr>mutexes := (replicate (capacity (pSlots st)) False)[?i := True]\<rparr>"
      using f(2) msdef by (simp add: st1_def)
    ultimately have "rep ?st C (kv(k := None))" using rep_unlock(1)[OF R i p2 f(1) S2 _ refl] by auto
    moreover have "deleteInternal st k = Inr (True, ?st)"
      using ms d by (simp add: deleteInternal_def Let_def st1_def[symmetric] st2_def[symmetric])
    ultimately show thesis using that[of ?st] kS by simp
  qed
qed

section \<open>A new index\<close>

lemma fresh_mem:
  assumes "pages_wf st" "inMemFile st = replicate m (zeroPage n)"
  shows "mem st x = emptySlot"
proof (cases "inRange st x")
  case True
  obtain ss where ss: "fst (cursor st x) < length (inMemFile st)" "inMemFile st ! fst (cursor st x) = SlotPage ss"
      "snd (cursor st x) < length ss" by (rule cursor_page[OF assms(1) True])
  then have "ss = replicate n emptySlot" using assms(2) by (simp add: zeroPage_def)
  then have "ss ! snd (cursor st x) = emptySlot" using ss(3) by simp
  then show ?thesis using ss getPageCursor_ok[OF assms(1), of x] True by (simp add: mem_def getSlot_def readSlot_def)
qed (rule mem_out[OF assms(1)])

lemma layout_empty: "1 \<le> oN \<Longrightarrow> layout (\<lambda>_. emptySlot) pN oN (\<lambda>_. []) prim Map.empty"
  by (auto simp: layout_def content_def chain_def belongs_def disjointKeys_def)

definition blank :: "InMemHashIndex \<Rightarrow> bool" where
  "blank st \<longleftrightarrow> (\<exists>m. inMemFile st = replicate m (zeroPage (numSlotsPerPage (indexHeader st)))) \<and>
     rep st (\<lambda>_. []) Map.empty"

lemma blank_rep:
  assumes "blank st"
  shows "rep st (\<lambda>_. []) Map.empty" and "allPacked st (\<lambda>_. [])"
  using assms by (auto simp: blank_def allPacked_def)

lemma empty_rep:
  assumes "pages_wf st" "inMemFile st = replicate m (zeroPage (numSlotsPerPage (indexHeader st)))"
    and "pNext st \<le> capacity (pSlots st)" "oNext st \<le> capacity (oSlots st)" "1 \<le> oNext st"
    and "hdr_wf (indexHeader st) (pNext st)" "numEntriesInIndex st = 0"
    and "mutexes (pSlots st) = replicate (capacity (pSlots st)) False"
  shows "blank st"
proof -
  have "mem st = (\<lambda>_. emptySlot)" using fresh_mem[OF assms(1,2)] by auto
  then show ?thesis using assms layout_empty[OF assms(5)] by (auto simp: blank_def rep_def struct_def)
qed

lemma slots_per_page: "numSlotsPerPage (newHashIndexHeader 8) = 51"
  by (simp add: newHashIndexHeader_def DEFAULT_PAGE_SIZE_def SLOT_CAPACITY_def)

lemma newInMemHashIndex_fields:
  "pagesLogicalToPhysicalMapper (pSlots newInMemHashIndex) = [1]" "pagesLogicalToPhysicalMapper (oSlots newInMemHashIndex) = [2]"
  "inMemFile newInMemHashIndex = [zeroPage 51, zeroPage 51, zeroPage 51]" "indexHeader newInMemHashIndex = newHashIndexHeader 8"
  "slotsPerPage (pSlots newInMemHashIndex) = 51" "slotsPerPage (oSlots newInMemHashIndex) = 51"
  "pNext newInMemHashIndex = 2" "oNext newInMemHashIndex = 1" "numEntriesInIndex newInMemHashIndex = 0"
  "hasMutexes (pSlots newInMemHashIndex)" "\<not> hasMutexes (oSlots newInMemHashIndex)"
  "mutexes (pSlots newInMemHashIndex) = replicate 51 False"
  by (simp_all add: newInMemHashIndex_def newSlotArray_def addNewPages_closed allocateSlotWithoutLock_def slots_per_page Let_def)

lemma newInMemHashIndex_blank: "blank newInMemHashIndex"
proof (rule empty_rep[where m = 3])
  note f = newInMemHashIndex_fields slots_per_page
  show "pages_wf newInMemHashIndex"
    unfolding pages_wf_def f by (auto simp: f slotPageAt_def zeroPage_def nth_Cons')
  show "hdr_wf (indexHeader newInMemHashIndex) (pNext newInMemHashIndex)"
    unfolding f by (simp add: hdr_wf_def newHashIndexHeader_def mask_eq_exp_minus_1)
qed (simp_all add: newInMemHashIndex_fields slots_per_page capacity_def numeral_3_eq_3)

text \<open>Reserving room for entries in an index without entries.\<close>

definition level_ok :: "HashIndexHeader \<Rightarrow> nat \<Rightarrow> bool" where
  "level_ok h required \<longleftrightarrow> 2 ^ currentLevel h \<le> required \<and> levelHashMask h = mask (currentLevel h) \<and>
     higherLevelHashMask h = mask (currentLevel h + 1)"

lemma reserveLevels_ok:
  "level_ok h required \<Longrightarrow> required \<le> 2 ^ 28 \<Longrightarrow> required \<le> 2 ^ (currentLevel h + fuel + 1) \<Longrightarrow>
    \<exists>h'. reserveLevels fuel h (2 ^ currentLevel h) required = Inr (h', 2 ^ currentLevel h') \<and> level_ok h' required \<and>
      required \<le> 2 * 2 ^ currentLevel h' \<and> numSlotsPerPage h' = numSlotsPerPage h"
proof (induction fuel arbitrary: h)
  case 0
  then show ?case by (subst reserveLevels.simps) auto
next
  case (Suc fuel)
  let ?l = "currentLevel h"
  show ?case
  proof (cases "2 ^ ?l * 2 < required")
    case False
    then show ?thesis using Suc.prems by (subst reserveLevels.simps) auto
  next
    case True
    then have "2 ^ (?l + 1) < (2 :: nat) ^ 28" using Suc.prems(2) by simp
    then have l: "?l + 1 < 28" by (rule power_less_imp_less_exp[of "2 :: nat", rotated]) simp
    obtain h1 where h1: "incrementLevel h = Inr h1" "currentLevel h1 = ?l + 1" "levelHashMask h1 = mask (?l + 1)"
        "higherLevelHashMask h1 = mask (?l + 2)" "numSlotsPerPage h1 = numSlotsPerPage h"
      using l by (simp add: incrementLevel_def Let_def mask_eq_exp_minus_1 push_bit_of_1)
    have "level_ok h1 required" using True h1 by (simp add: level_ok_def)
    moreover have "required \<le> 2 ^ (currentLevel h1 + fuel + 1)" using Suc.prems(3) h1(2) by simp
    ultimately show ?thesis using Suc.IH[of h1] Suc.prems(2) True h1
      by (subst reserveLevels.simps) (auto simp: mult.commute)
  qed
qed

lemma requiredSlots_bounds:
  assumes "3 \<le> n" "n \<le> 2 ^ 28"
  shows "2 \<le> (requiredEntries n + SLOT_CAPACITY - 1) div SLOT_CAPACITY"
    "(requiredEntries n + SLOT_CAPACITY - 1) div SLOT_CAPACITY \<le> 2 ^ 28"
proof -
  have "5 \<le> requiredEntries n" "requiredEntries n \<le> 2 ^ 29" using assms by (simp_all add: requiredEntries_def)
  then show "2 \<le> (requiredEntries n + SLOT_CAPACITY - 1) div SLOT_CAPACITY"
    "(requiredEntries n + SLOT_CAPACITY - 1) div SLOT_CAPACITY \<le> 2 ^ 28" by (simp_all add: SLOT_CAPACITY_def)
qed

lemma bulkReserve_blank:
  assumes "3 \<le> n" "n \<le> 2 ^ 28"
  shows "\<exists>st. bulkReserve newInMemHashIndex n = Inr st \<and> blank st"
proof -
  let ?st = newInMemHashIndex and ?h = "newHashIndexHeader 8"
  define r where "r = (requiredEntries n + SLOT_CAPACITY - 1) div SLOT_CAPACITY"
  note f = newInMemHashIndex_fields slots_per_page
  have r: "2 \<le> r" "r \<le> 2 ^ 28" unfolding r_def by (rule requiredSlots_bounds[OF assms])+
  have "level_ok ?h r" using r(1) by (simp add: level_ok_def newHashIndexHeader_def mask_eq_exp_minus_1)
  moreover have "r \<le> 2 ^ (currentLevel ?h + 64 + 1)" using r(2) by (rule order_trans) (simp add: newHashIndexHeader_def)
  ultimately obtain h where h: "reserveLevels 64 ?h (2 ^ currentLevel ?h) r = Inr (h, 2 ^ currentLevel h)"
      "level_ok h r" "r \<le> 2 * 2 ^ currentLevel h" "numSlotsPerPage h = 51"
    using reserveLevels_ok[of ?h r 64] r(2) f by metis
  have le: "2 ^ currentLevel h \<le> r" using h(2) by (simp add: level_ok_def)
  then have "2 ^ currentLevel h \<le> (2 :: nat) ^ 28" using r(2) by linarith
  then have l: "currentLevel h \<le> 28" by (rule power_le_imp_le_exp[rotated]) simp
  define pages where "pages = (r + 51 - 1) div 51"
  define st where "st = ?st\<lparr>indexHeader := h\<lparr>nextSplitSlotId := r - 2 ^ currentLevel h\<rparr>,
      pSlots := (extendArray pages (pSlots ?st) (inMemFile ?st))\<lparr>nextSlotIdToAllocate := r\<rparr>,
      inMemFile := inMemFile ?st @ replicate pages (zeroPage 51)\<rparr>"
  have "(r + 2 ^ 64 - 2 ^ currentLevel h) mod 2 ^ 64 = ((r - 2 ^ currentLevel h) + 2 ^ 64) mod 2 ^ 64" using le by simp
  also have "\<dots> = r - 2 ^ currentLevel h" using r(2) by simp
  finally have s: "(r + 2 ^ 64 - 2 ^ currentLevel h) mod 2 ^ 64 = r - 2 ^ currentLevel h" .
  have "(requiredEntries (numEntriesInIndex ?st + n) + SLOT_CAPACITY - 1) div SLOT_CAPACITY = r" by (simp add: f r_def)
  then have call: "bulkReserve ?st n = Inr st"
    unfolding bulkReserve_def Let_def using h(1,4) s
    by (simp only: f addNewPages_closed prod.case bind_result_Inr pages_def[symmetric] st_def)
  have "capacity (a\<lparr>nextSlotIdToAllocate := r\<rparr>) = capacity a" for a by (simp add: capacity_def)
  moreover have "capacity (pSlots ?st) = 51" by (simp add: capacity_def f)
  ultimately have cap: "capacity (pSlots st) = 51 + pages * 51" by (simp add: st_def f(5))
  have "r \<le> 51 + pages * 51" unfolding pages_def by presburger
  then have "blank st"
  proof (intro empty_rep[where m = "3 + pages"])
    have "pages_wf (extended True pages ?st)"
      using newInMemHashIndex_blank by (intro extended_wf) (simp add: blank_def rep_def struct_def)
    moreover have "pages_wf st = pages_wf (extended True pages ?st)"
      by (rule same_pages; simp add: st_def h(4) f)
    ultimately show "pages_wf st" by simp
    show "hdr_wf (indexHeader st) (pNext st)" using h(2,3) l le by (simp add: st_def hdr_wf_def level_ok_def)
    have "replicate (3 + pages) x = x # x # x # replicate pages x" for x :: hpage by (simp add: numeral_3_eq_3)
    then show "inMemFile st = replicate (3 + pages) (zeroPage (numSlotsPerPage (indexHeader st)))"
      by (simp add: st_def h(4) f)
    show "mutexes (pSlots st) = replicate (capacity (pSlots st)) False"
      unfolding cap by (simp add: st_def f replicate_add)
    assume "r \<le> 51 + pages * 51"
    then show "pNext st \<le> capacity (pSlots st)" unfolding cap by (simp add: st_def)
  qed (simp_all add: st_def f capacity_def)
  then show ?thesis using call by blast
qed

section \<open>Histories of calls\<close>

text \<open>\<open>represents\<close> is the abstraction relation of the index; \<open>compact\<close> holds as long as nothing is deleted.\<close>

definition represents :: "InMemHashIndex \<Rightarrow> (key \<rightharpoonup> u64) \<Rightarrow> bool" where
  "represents st kv \<longleftrightarrow> (\<exists>C. rep st C kv)"

definition compact :: "InMemHashIndex \<Rightarrow> (key \<rightharpoonup> u64) \<Rightarrow> bool" where
  "compact st kv \<longleftrightarrow> (\<exists>C. rep st C kv \<and> allPacked st C)"

lemma compact_represents: "compact st kv \<Longrightarrow> represents st kv"
  by (auto simp: compact_def represents_def)

lemma represents_lookup: "represents st kv \<Longrightarrow> lookupInternalWithoutLock st k = Inr (kv k)"
  by (auto simp: represents_def rep_lookup)

lemma represents_size: "represents st kv \<Longrightarrow> numEntriesInIndex st = card (dom kv)"
  by (auto simp: represents_def rep_def)

lemma blank_compact: "blank st \<Longrightarrow> compact st Map.empty"
  using blank_rep by (auto simp: compact_def)

lemma represents_append:
  assumes "represents st kv" "kv k = None" "card (dom kv) < 2 ^ 30"
  obtains st' where "appendInternal st k v = Inr (True, st')" "represents st' (kv(k \<mapsto> v))"
proof -
  obtain C where C: "rep st C kv" using assms(1) by (auto simp: represents_def)
  have n: "numEntriesInIndex st < 2 ^ 30" using assms(3) represents_size[OF assms(1)] by simp
  obtain st' C' where "appendInternal st k v = Inr (True, st')" "rep st' C' (kv(k \<mapsto> v))"
    by (rule append_new[OF C assms(2) n])
  then show thesis using that by (auto simp: represents_def)
qed

lemma represents_delete:
  assumes "represents st kv"
  obtains st' where "deleteInternal st k = Inr (kv k \<noteq> None, st')" "represents st' (kv(k := None))"
proof -
  obtain C where C: "rep st C kv" using assms by (auto simp: represents_def)
  obtain st' where "deleteInternal st k = Inr (kv k \<noteq> None, st')" "rep st' C (kv(k := None))"
    by (rule delete_rep[OF C])
  then show thesis using that[of st'] unfolding represents_def by blast
qed

lemma compact_append:
  assumes "compact st kv" "card (dom kv) < 2 ^ 30"
  obtains st' where "appendInternal st k v = Inr (kv k = None, st')" "compact st' (if kv k = None then kv(k \<mapsto> v) else kv)"
proof -
  obtain C where R: "rep st C kv" "allPacked st C" using assms(1) by (auto simp: compact_def)
  then have n: "numEntriesInIndex st < 2 ^ 30" using assms(2) by (simp add: rep_def)
  show thesis
  proof (cases "kv k = None")
    case True
    obtain st' C' where "appendInternal st k v = Inr (True, st')" "rep st' C' (kv(k \<mapsto> v))" "allPacked st' C'"
      using append_new[OF R(1) True n] R(2) by metis
    then show thesis using that[of st'] True by (auto simp: compact_def)
  next
    case False
    obtain st' C' where "appendInternal st k v = Inr (False, st')" "rep st' C' kv" "allPacked st' C'"
      using append_existing[OF R(1) False n R(2)] by metis
    then show thesis using that[of st'] False by (auto simp: compact_def)
  qed
qed

text \<open>A load: one append after the other; the flags tell which were new.\<close>

fun appendAll :: "InMemHashIndex \<Rightarrow> entry list \<Rightarrow> (bool list \<times> InMemHashIndex) result" where
  "appendAll st [] = Inr ([], st)"
| "appendAll st (e # es) =
     bind_result (appendInternal st (fst e) (snd e)) (\<lambda>(b, st1).
       bind_result (appendAll st1 es) (\<lambda>(bs, st2). Inr (b # bs, st2)))"

fun newKeys :: "key set \<Rightarrow> entry list \<Rightarrow> bool list" where
  "newKeys K [] = []"
| "newKeys K (e # es) = (fst e \<notin> K) # newKeys (insert (fst e) K) es"

lemma appendAll_compact:
  "compact st kv \<Longrightarrow> card (dom kv) + length es \<le> 2 ^ 30 \<Longrightarrow>
    \<exists>st'. appendAll st es = Inr (newKeys (dom kv) es, st') \<and> compact st' (map_of es ++ kv)"
proof (induction es arbitrary: st kv)
  case (Cons e es)
  let ?k = "fst e" and ?v = "snd e"
  let ?kv = "if kv ?k = None then kv(?k \<mapsto> ?v) else kv"
  obtain st1 where 1: "appendInternal st ?k ?v = Inr (kv ?k = None, st1)" "compact st1 ?kv"
    using compact_append[OF Cons.prems(1), of ?k ?v] Cons.prems(2) by force
  have d: "dom ?kv = insert ?k (dom kv)" by auto
  have "card (dom ?kv) \<le> card (dom kv) + 1" unfolding d by (simp add: card_insert_if)
  then obtain st' where 2: "appendAll st1 es = Inr (newKeys (dom ?kv) es, st')" "compact st' (map_of es ++ ?kv)"
    using Cons.IH[OF 1(2)] Cons.prems(2) by auto
  have "map_of es ++ ?kv = map_of (e # es) ++ kv"
    by (rule ext) (auto simp: map_add_def split: option.splits)
  then have "compact st' (map_of (e # es) ++ kv)" using 2(2) by metis
  moreover have "appendAll st (e # es) = Inr (newKeys (dom kv) (e # es), st')"
    using 1(1) 2(1) unfolding d by (simp add: domIff)
  ultimately show ?case by blast
qed simp

lemma newKeys_nth:
  "i < length es \<Longrightarrow> newKeys K es ! i \<longleftrightarrow> fst (es ! i) \<notin> K \<union> fst ` set (take i es)"
  by (induction es arbitrary: K i) (auto simp: nth_Cons split: nat.splits)

lemma newKeys_length: "length (newKeys K es) = length es"
  by (induction es arbitrary: K) auto

text \<open>The index implements the interface of key indexes, as long as it has fewer than \<open>2 ^ 30\<close> entries.\<close>

interpretation ix: key_index lookupInternalWithoutLock appendInternal deleteInternal represents "2 ^ 30"
proof
  fix st :: InMemHashIndex and kv :: "key \<rightharpoonup> u64" and k :: key and v :: u64
  assume R: "represents st kv"
  show "lookupInternalWithoutLock st k = Inr (kv k)" by (rule represents_lookup[OF R])
  show "\<exists>st'. deleteInternal st k = Inr (kv k \<noteq> None, st') \<and> represents st' (kv(k := None))"
    using represents_delete[OF R, of k] by metis
  show "finite (dom kv)" by simp
  assume "kv k = None" "card (dom kv) < 2 ^ 30"
  then show "\<exists>st'. appendInternal st k v = Inr (True, st') \<and> represents st' (kv(k \<mapsto> v))"
    using represents_append[OF R, of k v] by metis
qed

section \<open>Properties\<close>

text \<open>
  C6: Loading a key column.  After \<open>bulkReserve(n)\<close> on a new index (n between 3 and 2^28), appending any list of at most
  2^30 key/value pairs never fails; the i-th append reports success exactly when its key did not occur before; and
  afterwards a lookup of any key returns the value of the key's first occurrence, or nothing.
\<close>

theorem load_builds_the_map:
  assumes "3 \<le> n" "n \<le> 2 ^ 28" "length es \<le> 2 ^ 30"
  shows "\<exists>st0 bs st. bulkReserve newInMemHashIndex n = Inr st0 \<and> appendAll st0 es = Inr (bs, st) \<and>
    bs = map (\<lambda>i. fst (es ! i) \<notin> fst ` set (take i es)) [0..<length es] \<and>
    (\<forall>k. lookupInternalWithoutLock st k = Inr (map_of es k))"
proof -
  obtain st0 where 0: "bulkReserve newInMemHashIndex n = Inr st0" "blank st0"
    using bulkReserve_blank[OF assms(1,2)] by blast
  obtain st where 1: "appendAll st0 es = Inr (newKeys {} es, st)" "compact st (map_of es)"
    using appendAll_compact[OF blank_compact[OF 0(2)], of es] assms(3) by auto
  have "newKeys {} es = map (\<lambda>i. fst (es ! i) \<notin> fst ` set (take i es)) [0..<length es]"
    by (rule nth_equalityI) (simp_all add: newKeys_length newKeys_nth)
  then show ?thesis using 0(1) 1 represents_lookup[OF compact_represents[OF 1(2)]] by blast
qed

theorem load_builds_the_map_witness:
  "\<exists>st0 bs st. bulkReserve newInMemHashIndex 5 = Inr st0 \<and>
    appendAll st0 [(7, 0), (9, 1), (7, 2)] = Inr (bs, st) \<and>
    bs = [True, True, False] \<and> lookupInternalWithoutLock st 7 = Inr (Some 0)"
  using load_builds_the_map[of 5 "[(7, 0), (9, 1), (7, 2)]"] by (auto simp: upt_rec)

text \<open>
  C7: Any history of appends and deletes on a new index behaves like the same history on a map, provided that keys are
  appended only while they are absent: every call returns what the map's operation returns, no call fails or loops,
  and every later lookup reads the map.
\<close>

theorem index_history_refines_map:
  assumes "fresh_appends ops Map.empty" "length ops \<le> 2 ^ 30"
  shows "\<exists>st. run_ops appendInternal deleteInternal newInMemHashIndex ops = Inr (fst (abs_ops ops Map.empty), st) \<and>
    (\<forall>k. lookupInternalWithoutLock st k = Inr (snd (abs_ops ops Map.empty) k))"
proof -
  have "represents newInMemHashIndex Map.empty"
    by (rule compact_represents[OF blank_compact[OF newInMemHashIndex_blank]])
  then show ?thesis using ix.history_represents[of newInMemHashIndex Map.empty ops] assms ix.lookup_represents by auto
qed

theorem index_history_refines_map_witness:
  "\<exists>st. run_ops appendInternal deleteInternal newInMemHashIndex [Append 1 10, Append 2 20, Delete 1, Append 1 30] =
      Inr ([True, True, True, True], st) \<and> lookupInternalWithoutLock st 1 = Inr (Some 30)"
  using index_history_refines_map[of "[Append 1 10, Append 2 20, Delete 1, Append 1 30]"] by (auto simp: Let_def)

text \<open>
  C10: Splitting a slot (\<open>splitSlotWithoutLock\<close>) loses and invents nothing: it succeeds whenever fewer than 2^29 primary
  slots exist, allocates exactly one primary slot, and every lookup returns what it returned before.
\<close>

theorem split_preserves_lookups:
  assumes "represents st kv" "nextSlotIdToAllocate (pSlots st) < 2 ^ 29"
  shows "\<exists>st'. splitSlotWithoutLock st = Inr st' \<and> represents st' kv \<and>
    nextSlotIdToAllocate (pSlots st') = nextSlotIdToAllocate (pSlots st) + 1 \<and>
    (\<forall>k. lookupInternalWithoutLock st' k = lookupInternalWithoutLock st k)"
proof -
  obtain C where "rep st C kv" using assms(1) by (auto simp: represents_def)
  then obtain st' C' where "splitSlotWithoutLock st = Inr st'" "rep st' C' kv" "pNext st' = pNext st + 1"
    using split_rep assms(2) by blast
  then show ?thesis using represents_lookup[OF assms(1)] rep_lookup by (auto simp: represents_def)
qed

theorem split_preserves_lookups_witness:
  "\<exists>st'. splitSlotWithoutLock newInMemHashIndex = Inr st' \<and> represents st' Map.empty \<and>
    nextSlotIdToAllocate (pSlots st') = 3"
  using split_preserves_lookups[of newInMemHashIndex Map.empty]
    compact_represents[OF blank_compact[OF newInMemHashIndex_blank]]
  by (auto simp: newInMemHashIndex_fields)


end
