(* ===== verification/Hash_Index.thy ===== *)
theory Hash_Index
  imports Linear_Hashing Transaction_Manager
begin

text \<open>
  The primary-key index of a node table: \<^verbatim>\<open>src/src/storage/index/hash_index.cpp\<close> with
  \<^verbatim>\<open>include/hash_index.h\<close>, and the file that \<open>InMemHashIndex::flush\<close> leaves for it.  A persistent index is read
  through the buffer manager; \<open>bm.pin\<close> returns the page of the file (\<open>Buffer_Pool\<close> shows that it does), so
  the model reads the page directly.  The changes of the write transaction are kept in two in-memory indexes, one
  with the inserted keys and one with the deleted ones.  The mutexes of the local storage are held within one call
  only.
\<close>

section \<open>Writing an index to its file\<close>

text \<open>In each mapper page the first word is the number of elements and the second the next page.\<close>

definition maxNumElementsInAPage :: nat where
  "maxNumElementsInAPage = DEFAULT_PAGE_SIZE div 4 - 2"

function writeMapperLoop :: "nat list \<Rightarrow> hpage list \<Rightarrow> hpage list" where
  "writeMapperLoop remaining file =
     (if remaining = [] then file
      else let n = min (length remaining) maxNumElementsInAPage;
               next = (if length remaining > n then length file + 1 else UINT32_MAX)
           in writeMapperLoop (drop n remaining) (file @ [WordPage (n # next # take n remaining)]))"
  by pat_completeness auto
termination
  by (relation "measure (\<lambda>(remaining, file). length remaining)")
     (auto simp: maxNumElementsInAPage_def DEFAULT_PAGE_SIZE_def)

declare writeMapperLoop.simps [simp del]

definition writeLogicalToPhysicalMapper :: "SlotArray \<Rightarrow> hpage list \<Rightarrow> nat \<times> hpage list" where
  "writeLogicalToPhysicalMapper a file =
     (if pagesLogicalToPhysicalMapper a = [] then (UINT32_MAX, file)
      else (length file, writeMapperLoop (pagesLogicalToPhysicalMapper a) file))"

definition flush :: "InMemHashIndex \<Rightarrow> InMemHashIndex" where
  "flush st =
     (let (p, file1) = writeLogicalToPhysicalMapper (pSlots st) (inMemFile st);
          (o1, file2) = writeLogicalToPhysicalMapper (oSlots st) file1;
          h = (indexHeader st)\<lparr>pPagesMapperFirstPageIdx := p, oPagesMapperFirstPageIdx := o1\<rparr>
      in st\<lparr>indexHeader := h, inMemFile := file2[0 := hpage.HeaderPage h]\<rparr>)"

section \<open>Local storage\<close>

datatype HashIndexLocalLookupState = KEY_FOUND u64 | KEY_DELETED | KEY_NOT_EXIST

record HashIndexLocalStorage =
  localInsertionIndex :: InMemHashIndex
  localDeletionIndex :: InMemHashIndex

definition NODE_OFFSET_PLACE_HOLDER :: u64 where
  "NODE_OFFSET_PLACE_HOLDER = UINT64_MAX"

definition newLocalStorage :: HashIndexLocalStorage where
  "newLocalStorage = \<lparr>localInsertionIndex = newInMemHashIndex, localDeletionIndex = newInMemHashIndex\<rparr>"

definition localLookup :: "HashIndexLocalStorage \<Rightarrow> key \<Rightarrow> HashIndexLocalLookupState result" where
  "localLookup ls key =
     bind_result (lookupInternalWithoutLock (localDeletionIndex ls) key) (\<lambda>d.
       if d \<noteq> None then Inr KEY_DELETED
       else bind_result (lookupInternalWithoutLock (localInsertionIndex ls) key) (\<lambda>i.
         case i of Some v \<Rightarrow> Inr (KEY_FOUND v) | None \<Rightarrow> Inr KEY_NOT_EXIST))"

definition localDeleteKey :: "HashIndexLocalStorage \<Rightarrow> key \<Rightarrow> HashIndexLocalStorage result" where
  "localDeleteKey ls key =
     bind_result (deleteInternal (localInsertionIndex ls) key) (\<lambda>(b, i).
       if b then Inr (ls\<lparr>localInsertionIndex := i\<rparr>)
       else bind_result (appendInternal (localDeletionIndex ls) key NODE_OFFSET_PLACE_HOLDER) (\<lambda>(_, d).
         Inr \<lparr>localInsertionIndex = i, localDeletionIndex = d\<rparr>))"

definition localInsert :: "HashIndexLocalStorage \<Rightarrow> key \<Rightarrow> u64 \<Rightarrow> (bool \<times> HashIndexLocalStorage) result" where
  "localInsert ls key value =
     bind_result (deleteInternal (localDeletionIndex ls) key) (\<lambda>(_, d).
       bind_result (appendInternal (localInsertionIndex ls) key value) (\<lambda>(b, i).
         Inr (b, \<lparr>localInsertionIndex = i, localDeletionIndex = d\<rparr>)))"

section \<open>The index\<close>

record HashIndex =
  hHeader :: HashIndexHeader
  hPSlots :: SlotArray
  hOSlots :: SlotArray
  fh :: "hpage list"
  localStorage :: HashIndexLocalStorage

text \<open>A cycle of mapper pages would make the loop run forever; fuel for one visit of every page.\<close>

fun readMapperLoop :: "nat \<Rightarrow> hpage list \<Rightarrow> nat \<Rightarrow> nat list \<Rightarrow> nat list result" where
  "readMapperLoop fuel file currentPageIdx mapper =
     (if currentPageIdx = UINT32_MAX then Inr mapper
      else case fuel of
        0 \<Rightarrow> Inl Blocks
      | Suc n \<Rightarrow>
          (if currentPageIdx < length file
           then case file ! currentPageIdx of
             WordPage ws \<Rightarrow> readMapperLoop n file (ws ! 1) (mapper @ take (ws ! 0) (drop 2 ws))
           | _ \<Rightarrow> Inl (UndefinedBehaviour ''page'')
           else Inl (UndefinedBehaviour ''page'')))"

declare readMapperLoop.simps [simp del]

definition readPageMapper :: "hpage list \<Rightarrow> nat \<Rightarrow> nat list result" where
  "readPageMapper file mapperFirstPageIdx = readMapperLoop (length file) file mapperFirstPageIdx []"

definition initializeFileAndHeader :: "hpage list \<Rightarrow> (HashIndexHeader \<times> SlotArray \<times> SlotArray) result" where
  "initializeFileAndHeader file =
     (case file of
        hpage.HeaderPage h # _ \<Rightarrow>
          bind_result (readPageMapper file (pPagesMapperFirstPageIdx h)) (\<lambda>pm.
            bind_result (readPageMapper file (oPagesMapperFirstPageIdx h)) (\<lambda>om.
              let p = (newSlotArray (numSlotsPerPage h) True)\<lparr>pagesLogicalToPhysicalMapper := pm\<rparr>;
                  q = (newSlotArray (numSlotsPerPage h) False)\<lparr>pagesLogicalToPhysicalMapper := om\<rparr>
              in Inr (h, addSlotMutexesForPagesWithoutLock (length pm) p, q)))
      | _ \<Rightarrow> Inl (UndefinedBehaviour ''header page''))"

definition openHashIndex :: "hpage list \<Rightarrow> HashIndex result" where
  "openHashIndex file =
     bind_result (initializeFileAndHeader file) (\<lambda>(h, p, q).
       Inr \<lparr>hHeader = h, hPSlots = p, hOSlots = q, fh = file, localStorage = newLocalStorage\<rparr>)"

definition pinSlot :: "HashIndex \<Rightarrow> SlotInfo \<Rightarrow> slot result" where
  "pinSlot hi info =
     bind_result (getPageCursorForSlot (if isPSlot info then hPSlots hi else hOSlots hi) (slotId info)) (readSlot (fh hi))"

definition lookupInSlot :: "slot \<Rightarrow> key \<Rightarrow> u64 option" where
  "lookupInSlot s key =
     (case find (\<lambda>i. isEntryValid s i \<and> fst (slotEntries s ! i) = key) [0..<SLOT_CAPACITY] of
        Some i \<Rightarrow> Some (snd (slotEntries s ! i)) | None \<Rightarrow> None)"

fun persistentLoop :: "nat \<Rightarrow> HashIndex \<Rightarrow> SlotInfo \<Rightarrow> key \<Rightarrow> u64 option result" where
  "persistentLoop 0 hi info key = Inl Blocks"
| "persistentLoop (Suc n) hi info key =
     (if isPSlot info \<or> slotId info > 0
      then bind_result (pinSlot hi info) (\<lambda>s.
        case lookupInSlot s key of
          Some v \<Rightarrow> Inr (Some v)
        | None \<Rightarrow> persistentLoop n hi (OSlot (nextOvfSlotId s)) key)
      else Inr None)"

text \<open>A chain without a cycle is no longer than the overflow slots of the file.\<close>

definition lookupInPersistentIndex :: "HashIndex \<Rightarrow> key \<Rightarrow> u64 option result" where
  "lookupInPersistentIndex hi key =
     persistentLoop (length (pagesLogicalToPhysicalMapper (hOSlots hi)) * numSlotsPerPage (hHeader hi) + 2) hi
       (PSlot (getPrimarySlotIdForKey (hHeader hi) key)) key"

definition lookupInternal :: "HashIndex \<Rightarrow> Transaction \<Rightarrow> key \<Rightarrow> u64 option result" where
  "lookupInternal hi transaction key =
     (if isReadOnly transaction then lookupInPersistentIndex hi key
      else bind_result (localLookup (localStorage hi) key) (\<lambda>st.
        case st of KEY_FOUND v \<Rightarrow> Inr (Some v) | KEY_DELETED \<Rightarrow> Inr None
        | KEY_NOT_EXIST \<Rightarrow> lookupInPersistentIndex hi key))"

definition deleteKeyInternal :: "HashIndex \<Rightarrow> Transaction \<Rightarrow> key \<Rightarrow> HashIndex result" where
  "deleteKeyInternal hi transaction key =
     (if \<not> isWriteTransaction transaction then Inl (UndefinedBehaviour ''assert'')
      else bind_result (localDeleteKey (localStorage hi) key) (\<lambda>ls. Inr (hi\<lparr>localStorage := ls\<rparr>)))"

definition insertInternal :: "HashIndex \<Rightarrow> Transaction \<Rightarrow> key \<Rightarrow> u64 \<Rightarrow> (bool \<times> HashIndex) result" where
  "insertInternal hi transaction key value =
     (if \<not> isWriteTransaction transaction then Inl (UndefinedBehaviour ''assert'')
      else bind_result (localLookup (localStorage hi) key) (\<lambda>st.
        let insertLocal = bind_result (localInsert (localStorage hi) key value) (\<lambda>(b, ls).
                            Inr (b, hi\<lparr>localStorage := ls\<rparr>))
        in case st of
             KEY_FOUND _ \<Rightarrow> Inr (False, hi)
           | KEY_NOT_EXIST \<Rightarrow>
               bind_result (lookupInPersistentIndex hi key) (\<lambda>r.
                 if r \<noteq> None then Inr (False, hi) else insertLocal)
           | KEY_DELETED \<Rightarrow> insertLocal))"

section \<open>The file round trip\<close>

text \<open>A mapper written behind the pages of a file is read back from every file that has these pages there.\<close>

definition pagesAt :: "hpage list \<Rightarrow> nat \<Rightarrow> hpage list \<Rightarrow> bool" where
  "pagesAt F i ps \<longleftrightarrow> i + length ps \<le> length F \<and> (\<forall>j < length ps. F ! (i + j) = ps ! j)"

lemma pagesAt_Cons: "pagesAt F i (p # ps) \<longleftrightarrow> i < length F \<and> F ! i = p \<and> pagesAt F (Suc i) ps"
  by (auto simp: pagesAt_def nth_Cons less_Suc_eq_0_disj split: nat.splits)

lemma maxNumElements_pos: "0 < maxNumElementsInAPage"
  by (simp add: maxNumElementsInAPage_def DEFAULT_PAGE_SIZE_def)

lemma mapper_write_read:
  "xs \<noteq> [] \<Longrightarrow> length fl + length xs < UINT32_MAX \<Longrightarrow>
    \<exists>ps. writeMapperLoop xs fl = fl @ ps \<and> length ps \<le> length xs \<and>
      (\<forall>F n acc. pagesAt F (length fl) ps \<longrightarrow> length ps \<le> n \<longrightarrow> readMapperLoop n F (length fl) acc = Inr (acc @ xs))"
proof (induction xs fl rule: writeMapperLoop.induct)
  case (1 xs fl)
  let ?n = "min (length xs) maxNumElementsInAPage"
  let ?next = "if length xs > ?n then length fl + 1 else UINT32_MAX"
  let ?p = "WordPage (?n # ?next # take ?n xs)"
  have w: "writeMapperLoop xs fl = writeMapperLoop (drop ?n xs) (fl @ [?p])"
    using 1(2) by (subst writeMapperLoop.simps) (simp add: Let_def)
  have pos: "0 < ?n" using 1(2) maxNumElements_pos by simp
  have r: "readMapperLoop (Suc m) F (length fl) acc = readMapperLoop m F ?next (acc @ take ?n xs)"
    if "length fl < length F" "F ! length fl = ?p" for F m acc
    using that 1(3) by (subst readMapperLoop.simps) simp
  show ?case
  proof (cases "length xs > ?n")
    case False
    then have d: "drop ?n xs = []" "take ?n xs = xs" by auto
    have "readMapperLoop n F (length fl) acc = Inr (acc @ xs)" if F: "pagesAt F (length fl) [?p]" and n: "length [?p] \<le> n" for F n acc
    proof -
      obtain m where m: "n = Suc m" using n by (cases n) auto
      show ?thesis using r[of F m acc] F False d(2) by (simp add: m pagesAt_Cons) (subst readMapperLoop.simps, simp)
    qed
    moreover have "writeMapperLoop xs fl = fl @ [?p]" using w d(1) by (simp add: writeMapperLoop.simps)
    moreover have "length [?p] \<le> length xs" using 1(2) by (cases xs) auto
    ultimately show ?thesis by blast
  next
    case True
    have lt: "length (fl @ [?p]) + length (drop ?n xs) < UINT32_MAX" and ne: "drop ?n xs \<noteq> []" using 1(3) pos True by simp_all
    obtain ps where ps: "writeMapperLoop (drop ?n xs) (fl @ [?p]) = (fl @ [?p]) @ ps" "length ps \<le> length (drop ?n xs)"
        "\<And>F n acc. pagesAt F (length (fl @ [?p])) ps \<Longrightarrow> length ps \<le> n \<Longrightarrow>
           readMapperLoop n F (length (fl @ [?p])) acc = Inr (acc @ drop ?n xs)"
      using 1(1)[OF 1(2) refl refl ne lt] by blast
    have "readMapperLoop n F (length fl) acc = Inr (acc @ xs)"
      if F: "pagesAt F (length fl) (?p # ps)" and n: "length (?p # ps) \<le> n" for F n acc
    proof -
      obtain m where m: "n = Suc m" "length ps \<le> m" using n by (cases n) auto
      have "?next = length fl + 1" using True by (rule if_P)
      then show ?thesis using m r[of F m acc] F ps(3)[of F m "acc @ take ?n xs"] by (simp add: pagesAt_Cons)
    qed
    moreover have "writeMapperLoop xs fl = fl @ (?p # ps)" using w ps(1) by simp
    moreover have "length (?p # ps) \<le> length xs" using ps(2) pos True by simp
    ultimately show ?thesis by blast
  qed
qed

lemma write_mapper:
  assumes "length fl + length (pagesLogicalToPhysicalMapper a) < UINT32_MAX"
  obtains i ps where "writeLogicalToPhysicalMapper a fl = (i, fl @ ps)" "length ps \<le> length (pagesLogicalToPhysicalMapper a)"
    "\<And>F. pagesAt F (length fl) ps \<Longrightarrow> readPageMapper F i = Inr (pagesLogicalToPhysicalMapper a)"
proof (cases "pagesLogicalToPhysicalMapper a = []")
  case True
  have "readPageMapper F UINT32_MAX = Inr []" for F by (simp add: readPageMapper_def readMapperLoop.simps)
  then show thesis using that[of UINT32_MAX "[]"] True by (simp add: writeLogicalToPhysicalMapper_def)
next
  case False
  obtain ps where ps: "writeMapperLoop (pagesLogicalToPhysicalMapper a) fl = fl @ ps"
      "length ps \<le> length (pagesLogicalToPhysicalMapper a)"
      "\<And>F n acc. pagesAt F (length fl) ps \<Longrightarrow> length ps \<le> n \<Longrightarrow>
         readMapperLoop n F (length fl) acc = Inr (acc @ pagesLogicalToPhysicalMapper a)"
    using mapper_write_read[OF False assms] by blast
  have "readPageMapper F (length fl) = Inr (pagesLogicalToPhysicalMapper a)" if "pagesAt F (length fl) ps" for F
    using ps(3)[OF that, of "length F" "[]"] that by (simp add: readPageMapper_def pagesAt_def)
  then show thesis using that[of "length fl" ps] ps(1,2) False by (simp add: writeLogicalToPhysicalMapper_def)
qed

text \<open>What \<open>flush\<close> leaves in the file: the pages of before, the header in page 0, and the two mappers.\<close>

lemma flush_file:
  assumes "length (inMemFile st) + length (pagesLogicalToPhysicalMapper (pSlots st)) +
      length (pagesLogicalToPhysicalMapper (oSlots st)) < UINT32_MAX" "inMemFile st \<noteq> []"
  obtains i j ps where
    "inMemFile (flush st) = (inMemFile st @ ps)[0 := hpage.HeaderPage (indexHeader (flush st))]"
    "readPageMapper (inMemFile (flush st)) i = Inr (pagesLogicalToPhysicalMapper (pSlots st))"
    "readPageMapper (inMemFile (flush st)) j = Inr (pagesLogicalToPhysicalMapper (oSlots st))"
    "indexHeader (flush st) = (indexHeader st)\<lparr>pPagesMapperFirstPageIdx := i, oPagesMapperFirstPageIdx := j\<rparr>"
proof -
  let ?fl = "inMemFile st"
  obtain i ps where i: "writeLogicalToPhysicalMapper (pSlots st) ?fl = (i, ?fl @ ps)"
      "length ps \<le> length (pagesLogicalToPhysicalMapper (pSlots st))"
      "\<And>F. pagesAt F (length ?fl) ps \<Longrightarrow> readPageMapper F i = Inr (pagesLogicalToPhysicalMapper (pSlots st))"
    using write_mapper[of ?fl "pSlots st"] assms(1) by auto
  have lt: "length (?fl @ ps) + length (pagesLogicalToPhysicalMapper (oSlots st)) < UINT32_MAX" using assms(1) i(2) by simp
  obtain j qs where j: "writeLogicalToPhysicalMapper (oSlots st) (?fl @ ps) = (j, (?fl @ ps) @ qs)"
      "length qs \<le> length (pagesLogicalToPhysicalMapper (oSlots st))"
      "\<And>F. pagesAt F (length (?fl @ ps)) qs \<Longrightarrow> readPageMapper F j = Inr (pagesLogicalToPhysicalMapper (oSlots st))"
    using write_mapper[OF lt] by metis
  let ?h = "(indexHeader st)\<lparr>pPagesMapperFirstPageIdx := i, oPagesMapperFirstPageIdx := j\<rparr>"
  let ?F = "(?fl @ ps @ qs)[0 := hpage.HeaderPage ?h]"
  have f: "inMemFile (flush st) = ?F" "indexHeader (flush st) = ?h" by (simp_all add: flush_def i(1) j(1) Let_def)
  have "pagesAt ?F (length ?fl) ps" "pagesAt ?F (length (?fl @ ps)) qs"
    using assms(2) by (auto simp: pagesAt_def nth_append nth_list_update)
  then show thesis using that[of "ps @ qs" i j] i(3) j(3) f by simp
qed

text \<open>The persistent index read as an in-memory index.\<close>

definition persistent :: "HashIndex \<Rightarrow> InMemHashIndex" where
  "persistent hi = \<lparr>indexHeader = hHeader hi, pSlots = hPSlots hi, oSlots = hOSlots hi, inMemFile = fh hi, numEntriesInIndex = 0\<rparr>"

lemma pinSlot_persistent: "pinSlot hi x = getSlot (persistent hi) x"
  by (simp add: pinSlot_def getSlot_def persistent_def arrayOf_def)

lemma persistentLoop_eq: "persistentLoop n hi x k = lookupLoop n (persistent hi) x k"
proof -
  have "lookupInSlot s k = lookupOrExistsInSlotWithoutLock s k" for s
    by (simp add: lookupInSlot_def lookupOrExistsInSlotWithoutLock_def)
  note same = this
  show ?thesis
  proof (induction n arbitrary: x)
    case (Suc n)
    then show ?case by (cases "getSlot (persistent hi) x") (auto simp: pinSlot_persistent same split: option.splits)
  qed simp
qed

text \<open>
  A file that keeps the slot pages of an index gives the same lookups; page 0, which holds the header, is never a slot
  page.
\<close>

lemma getSlot_same_pages:
  assumes wf: "pages_wf st" and r: "inRange st x"
    and F: "\<And>i. 0 < i \<Longrightarrow> i < length (inMemFile st) \<Longrightarrow> i < length (inMemFile st') \<and> inMemFile st' ! i = inMemFile st ! i"
    and m: "pagesLogicalToPhysicalMapper (arrayOf st' x) = pagesLogicalToPhysicalMapper (arrayOf st x)"
      "slotsPerPage (arrayOf st' x) = slotsPerPage (arrayOf st x)"
  shows "getSlot st' x = getSlot st x"
proof -
  let ?pg = "fst (cursor st x)"
  have c: "getPageCursorForSlot (arrayOf st x) (slotId x) = Inr (cursor st x)" using getPageCursor_ok[OF wf, of x] r by simp
  have c': "getPageCursorForSlot (arrayOf st' x) (slotId x) = getPageCursorForSlot (arrayOf st x) (slotId x)"
    using m by (simp add: getPageCursorForSlot_def Let_def)
  have "slotId x div numSlotsPerPage (indexHeader st) < length (pagesLogicalToPhysicalMapper (arrayOf st x))"
    using inRange_page[OF wf, of x] r by simp
  then have "?pg \<in> set (pagesLogicalToPhysicalMapper (arrayOf st x))" by (simp add: cursor_def)
  then have "slotPageAt (numSlotsPerPage (indexHeader st)) (inMemFile st) ?pg"
    using wf by (auto simp: pages_wf_def arrayOf_def split: if_splits)
  then have pg: "0 < ?pg" "?pg < length (inMemFile st)" by (auto simp: slotPageAt_def)
  show ?thesis unfolding getSlot_def c' c using F[OF pg] pg by (simp add: readSlot_def)
qed

lemma lookupLoop_cong:
  assumes "walkable st x ids" "\<And>y. inRange st y \<Longrightarrow> getSlot st' y = getSlot st y"
  shows "length ids + 2 \<le> n \<Longrightarrow> lookupLoop n st' x k = lookupLoop n st x k"
  using assms
proof (induction ids arbitrary: x n)
  case Nil
  then obtain m where n: "n = Suc (Suc m)" using two_le_obtain by metis
  have "inRange st x" using Nil.prems(2) by (simp add: walkable_def)
  then show ?case using walkable_Nil[OF Nil.prems(2)] Nil.prems(3) by (auto simp: n split: option.splits)
next
  case (Cons i ids)
  then obtain m where n: "n = Suc m" by (cases n) auto
  have "inRange st x" using Cons.prems(2) by (simp add: walkable_def)
  moreover have "lookupLoop m st' (OSlot i) k = lookupLoop m st (OSlot i) k"
    using Cons.IH[of m "OSlot i"] walkable_Cons[OF Cons.prems(2)] Cons.prems(1,3) n by auto
  ultimately show ?case using walkable_Cons[OF Cons.prems(2)] Cons.prems(3) by (auto simp: n split: option.splits)
qed

lemma open_file:
  assumes "F = hpage.HeaderPage h # rest" "readPageMapper F (pPagesMapperFirstPageIdx h) = Inr pm"
    "readPageMapper F (oPagesMapperFirstPageIdx h) = Inr om"
  obtains hi where "openHashIndex F = Inr hi" "hHeader hi = h" "fh hi = F" "localStorage hi = newLocalStorage"
    "pagesLogicalToPhysicalMapper (hPSlots hi) = pm" "pagesLogicalToPhysicalMapper (hOSlots hi) = om"
    "slotsPerPage (hPSlots hi) = numSlotsPerPage h" "slotsPerPage (hOSlots hi) = numSlotsPerPage h"
  using assms by (simp add: openHashIndex_def initializeFileAndHeader_def Let_def newSlotArray_def addSlotMutexesForPagesWithoutLock_def)

definition serves :: "HashIndex \<Rightarrow> (key \<rightharpoonup> u64) \<Rightarrow> bool" where
  "serves hi P \<longleftrightarrow> (\<forall>k. lookupInPersistentIndex hi k = Inr (P k))"

lemma open_serves:
  assumes R: "represents st kv"
    and n: "length (inMemFile st) + length (pagesLogicalToPhysicalMapper (pSlots st)) +
      length (pagesLogicalToPhysicalMapper (oSlots st)) < UINT32_MAX"
  obtains hi where "openHashIndex (inMemFile (flush st)) = Inr hi" "serves hi kv" "localStorage hi = newLocalStorage"
proof -
  obtain C where C: "rep st C kv" using R by (auto simp: represents_def)
  then have wf: "pages_wf st" and S: "struct st C (getPrimarySlotIdForKey (indexHeader st)) kv"
    and H: "hdr_wf (indexHeader st) (pNext st)" by (auto simp: rep_def struct_def)
  have ne: "inMemFile st \<noteq> []" using wf by (simp add: pages_wf_def)
  let ?F = "inMemFile (flush st)" and ?h = "indexHeader (flush st)"
  obtain i j ps where f: "?F = (inMemFile st @ ps)[0 := hpage.HeaderPage ?h]"
      "readPageMapper ?F i = Inr (pagesLogicalToPhysicalMapper (pSlots st))"
      "readPageMapper ?F j = Inr (pagesLogicalToPhysicalMapper (oSlots st))"
      "?h = (indexHeader st)\<lparr>pPagesMapperFirstPageIdx := i, oPagesMapperFirstPageIdx := j\<rparr>"
    by (rule flush_file[OF n ne])
  obtain rest where cons: "?F = hpage.HeaderPage ?h # rest" using f(1) ne by (cases "inMemFile st") auto
  obtain hi where hi: "openHashIndex ?F = Inr hi" "hHeader hi = ?h" "fh hi = ?F" "localStorage hi = newLocalStorage"
      "pagesLogicalToPhysicalMapper (hPSlots hi) = pagesLogicalToPhysicalMapper (pSlots st)"
      "pagesLogicalToPhysicalMapper (hOSlots hi) = pagesLogicalToPhysicalMapper (oSlots st)"
      "slotsPerPage (hPSlots hi) = numSlotsPerPage (indexHeader st)" "slotsPerPage (hOSlots hi) = numSlotsPerPage (indexHeader st)"
    using open_file[OF cons, of "pagesLogicalToPhysicalMapper (pSlots st)" "pagesLogicalToPhysicalMapper (oSlots st)"] f(2,3,4)
    by (simp, blast)
  have same: "getSlot (persistent hi) y = getSlot st y" if "inRange st y" for y
    using wf hi(5-8) ne
    by (intro getSlot_same_pages[OF wf that])
       (auto simp: persistent_def hi(3) f(1) nth_append arrayOf_def pages_wf_def)
  have "lookupInPersistentIndex hi k = Inr (kv k)" for k
  proof -
    let ?i = "getPrimarySlotIdForKey (indexHeader st) k"
    have pi: "getPrimarySlotIdForKey (hHeader hi) k = ?i" by (simp add: hi(2) f(4) getPrimarySlotIdForKey_def Let_def)
    note w = struct_walkable[OF S primary_bound[OF H, of k]]
    have "chainFuel st \<le> length (pagesLogicalToPhysicalMapper (hOSlots hi)) * numSlotsPerPage (hHeader hi) + 2"
      using S hi(2,6) f(4) pages_wf_array(1)[OF wf, where x = "OSlot 0"] by (simp add: struct_def chainFuel_def capacity_def arrayOf_def)
    then have le: "length (C ?i) + 2 \<le> length (pagesLogicalToPhysicalMapper (hOSlots hi)) * numSlotsPerPage (hHeader hi) + 2"
      using w(2) by linarith
    then have "lookupInPersistentIndex hi k = lookupLoop (length (pagesLogicalToPhysicalMapper (hOSlots hi)) *
        numSlotsPerPage (hHeader hi) + 2) st (PSlot ?i) k"
      unfolding lookupInPersistentIndex_def persistentLoop_eq pi by (intro lookupLoop_cong[OF w(1) same])
    also have "\<dots> = lookupInternalWithoutLock st k"
      unfolding lookupInternalWithoutLock_def lookupLoop_walk[OF w(1) le] lookupLoop_walk[OF w] ..
    finally show ?thesis using represents_lookup[OF R] by simp
  qed
  then show thesis using that[of hi] hi(1,4) by (simp add: serves_def)
qed

section \<open>The writer's view\<close>

text \<open>
  The state of the local storage: the inserted entries \<open>I\<close> and the deleted keys \<open>D\<close>, over the persistent entries \<open>P\<close>.
\<close>

definition viewOf :: "(key \<rightharpoonup> u64) \<Rightarrow> (key \<rightharpoonup> u64) \<Rightarrow> (key \<rightharpoonup> u64) \<Rightarrow> key \<rightharpoonup> u64" where
  "viewOf P I D k = (if D k \<noteq> None then None else case I k of Some v \<Rightarrow> Some v | None \<Rightarrow> P k)"

definition writing :: "HashIndex \<Rightarrow> (key \<rightharpoonup> u64) \<Rightarrow> (key \<rightharpoonup> u64) \<Rightarrow> (key \<rightharpoonup> u64) \<Rightarrow> bool" where
  [inv_simps]: "writing hi P I D \<longleftrightarrow> serves hi P \<and> represents (localInsertionIndex (localStorage hi)) I \<and>
     represents (localDeletionIndex (localStorage hi)) D \<and> dom I \<inter> dom D = {}"

lemma serves_localStorage [simp]: "serves (hi\<lparr>localStorage := ls\<rparr>) P = serves hi P"
proof -
  have "persistent (hi\<lparr>localStorage := ls\<rparr>) = persistent hi" by (simp add: persistent_def)
  then show ?thesis by (simp add: serves_def lookupInPersistentIndex_def persistentLoop_eq)
qed

lemma new_writing:
  assumes "serves hi P" "localStorage hi = newLocalStorage"
  shows "writing hi P Map.empty Map.empty"
  using assms compact_represents[OF blank_compact[OF newInMemHashIndex_blank]] by (simp add: writing_def newLocalStorage_def)

lemma writing_localLookup:
  assumes "writing hi P I D"
  shows "localLookup (localStorage hi) k =
    Inr (if D k \<noteq> None then KEY_DELETED else case I k of Some v \<Rightarrow> KEY_FOUND v | None \<Rightarrow> KEY_NOT_EXIST)"
proof -
  have "lookupInternalWithoutLock (localDeletionIndex (localStorage hi)) k = Inr (D k)"
      "lookupInternalWithoutLock (localInsertionIndex (localStorage hi)) k = Inr (I k)"
    using assms by (auto simp: writing_def intro: ix.lookup_represents)
  then show ?thesis by (auto simp: localLookup_def split: option.splits)
qed

lemma writing_lookup:
  assumes "writing hi P I D"
  shows "lookupInternal hi trx k = Inr (if isReadOnly trx then P k else viewOf P I D k)"
  using assms writing_localLookup[OF assms, of k]
  by (auto simp: lookupInternal_def viewOf_def writing_def serves_def split: option.splits)

lemma viewOf_empty [simp]: "viewOf P Map.empty Map.empty = P"
  by (auto simp: viewOf_def)

lemma writing_localInsert:
  assumes W: "writing hi P I D" and k: "I k = None" and n: "card (dom I) < 2 ^ 30"
  obtains ls where "localInsert (localStorage hi) k v = Inr (True, ls)"
    "writing (hi\<lparr>localStorage := ls\<rparr>) P (I(k \<mapsto> v)) (D(k := None))"
proof -
  have R: "represents (localInsertionIndex (localStorage hi)) I" "represents (localDeletionIndex (localStorage hi)) D"
    using W by (auto simp: writing_def)
  obtain d where d: "deleteInternal (localDeletionIndex (localStorage hi)) k = Inr (D k \<noteq> None, d)" "represents d (D(k := None))"
    using ix.delete_represents[OF R(2)] by blast
  obtain i where i: "appendInternal (localInsertionIndex (localStorage hi)) k v = Inr (True, i)" "represents i (I(k \<mapsto> v))"
    using ix.append_represents[OF R(1) k n] by blast
  show thesis
    using that[of "\<lparr>localInsertionIndex = i, localDeletionIndex = d\<rparr>"] W d i
    by (auto simp: localInsert_def writing_def)
qed

lemma writing_insert:
  assumes W: "writing hi P I D" and n: "card (dom I) < 2 ^ 30" and w: "isWriteTransaction trx"
  obtains hi' where "viewOf P I D k = None" "insertInternal hi trx k v = Inr (True, hi')"
      "writing hi' P (I(k \<mapsto> v)) (D(k := None))"
    | "viewOf P I D k \<noteq> None" "insertInternal hi trx k v = Inr (False, hi)"
proof (cases "viewOf P I D k = None")
  case True
  then have k: "I k = None" using W by (auto simp: viewOf_def writing_def split: if_splits option.splits)
  obtain ls where ls: "localInsert (localStorage hi) k v = Inr (True, ls)"
      "writing (hi\<lparr>localStorage := ls\<rparr>) P (I(k \<mapsto> v)) (D(k := None))" by (rule writing_localInsert[OF W k n])
  have "lookupInPersistentIndex hi k = Inr (P k)" using W by (simp add: writing_def serves_def)
  then have "insertInternal hi trx k v = Inr (True, hi\<lparr>localStorage := ls\<rparr>)"
    using ls(1) True k w writing_localLookup[OF W, of k] by (auto simp: insertInternal_def viewOf_def Let_def split: if_splits)
  then show thesis using that(1) ls(2) True by blast
next
  case False
  have "lookupInPersistentIndex hi k = Inr (P k)" using W by (simp add: writing_def serves_def)
  then have "insertInternal hi trx k v = Inr (False, hi)"
    using False w writing_localLookup[OF W, of k]
    by (auto simp: insertInternal_def viewOf_def Let_def split: if_splits option.splits)
  then show thesis using that(2) False by blast
qed

lemma writing_delete:
  assumes W: "writing hi P I D" and n: "card (dom D) < 2 ^ 30" and w: "isWriteTransaction trx" and k: "D k = None"
  obtains hi' where "deleteKeyInternal hi trx k = Inr hi'"
    "writing hi' P (I(k := None)) (if I k = None then D(k \<mapsto> NODE_OFFSET_PLACE_HOLDER) else D)"
proof -
  have R: "represents (localInsertionIndex (localStorage hi)) I" "represents (localDeletionIndex (localStorage hi)) D"
    using W by (auto simp: writing_def)
  obtain i where i: "deleteInternal (localInsertionIndex (localStorage hi)) k = Inr (I k \<noteq> None, i)" "represents i (I(k := None))"
    using ix.delete_represents[OF R(1)] by blast
  obtain d where d: "appendInternal (localDeletionIndex (localStorage hi)) k NODE_OFFSET_PLACE_HOLDER = Inr (True, d)"
      "represents d (D(k \<mapsto> NODE_OFFSET_PLACE_HOLDER))"
    using ix.append_represents[OF R(2) k n] by blast
  show thesis
  proof (cases "I k = None")
    case True
    then show thesis
      using that[of "hi\<lparr>localStorage := \<lparr>localInsertionIndex = i, localDeletionIndex = d\<rparr>\<rparr>"] W i d w
      by (auto simp: deleteKeyInternal_def localDeleteKey_def writing_def)
  next
    case False
    have "(dom I - {k}) \<inter> dom D = {}" using W by (auto simp: writing_def)
    then show thesis
      using that[of "hi\<lparr>localStorage := (localStorage hi)\<lparr>localInsertionIndex := i\<rparr>\<rparr>"] W i w False
      by (auto simp: deleteKeyInternal_def localDeleteKey_def writing_def)
  qed
qed

text \<open>
  Histories of the write transaction.  \<open>L\<close> holds the keys it has inserted.  A delete is safe when the key is visible
  and was not inserted by the transaction over a persistent entry.
\<close>

fun safe_writes :: "(key \<rightharpoonup> u64) \<Rightarrow> (key, u64) index_op list \<Rightarrow> (key \<rightharpoonup> u64) \<Rightarrow> key set \<Rightarrow> bool" where
  "safe_writes P [] view L \<longleftrightarrow> True"
| "safe_writes P (Append k v # ops) view L \<longleftrightarrow>
     safe_writes P ops (snd (abs_op (Append k v) view)) (if view k = None then insert k L else L)"
| "safe_writes P (Delete k # ops) view L \<longleftrightarrow> view k \<noteq> None \<and> (k \<in> L \<longrightarrow> P k = None) \<and>
     safe_writes P ops (view(k := None)) (L - {k})"

definition write_ops :: "Transaction \<Rightarrow> HashIndex \<Rightarrow> (key, u64) index_op list \<Rightarrow> (bool list \<times> HashIndex) result" where
  "write_ops trx = run_ops (\<lambda>hi. insertInternal hi trx)
     (\<lambda>hi k. bind_result (deleteKeyInternal hi trx k) (\<lambda>hi1. Inr (True, hi1)))"

lemma write_ops_simps [simp]:
  "write_ops trx hi [] = Inr ([], hi)"
  "write_ops trx hi (Append k v # ops) =
     bind_result (insertInternal hi trx k v) (\<lambda>(b, hi1). bind_result (write_ops trx hi1 ops) (\<lambda>(bs, hi2). Inr (b # bs, hi2)))"
  "write_ops trx hi (Delete k # ops) =
     bind_result (deleteKeyInternal hi trx k) (\<lambda>hi1. bind_result (write_ops trx hi1 ops) (\<lambda>(bs, hi2). Inr (True # bs, hi2)))"
  by (auto simp: write_ops_def bind_result_def split: sum.splits)

lemma viewOf_insert: "viewOf P (I(k \<mapsto> v)) (D(k := None)) = (viewOf P I D)(k \<mapsto> v)"
  by (auto simp: viewOf_def fun_eq_iff)

lemma card_dom_upd: "card (dom (m(k := x))) \<le> card (dom (m :: key \<rightharpoonup> u64)) + 1"
proof -
  have "dom (m(k := x)) \<subseteq> insert k (dom m)" by (auto split: if_splits)
  then have "card (dom (m(k := x))) \<le> card (insert k (dom m))" by (intro card_mono) simp_all
  also have "\<dots> \<le> card (dom m) + 1" by (simp add: card_insert_if)
  finally show ?thesis .
qed

lemma write_ops_view:
  assumes w: "isWriteTransaction trx"
  shows "writing hi P I D \<Longrightarrow> safe_writes P ops (viewOf P I D) (dom I) \<Longrightarrow>
    card (dom I) + length ops \<le> 2 ^ 30 \<Longrightarrow> card (dom D) + length ops \<le> 2 ^ 30 \<Longrightarrow>
    \<exists>hi' I' D'. write_ops trx hi ops = Inr (fst (abs_ops ops (viewOf P I D)), hi') \<and> writing hi' P I' D' \<and>
      viewOf P I' D' = snd (abs_ops ops (viewOf P I D))"
proof (induction ops arbitrary: hi I D)
  case (Cons op ops)
  let ?view = "viewOf P I D"
  have step: "\<exists>hi' I' D'. write_ops trx hi (op # ops) = Inr (fst (abs_ops (op # ops) ?view), hi') \<and>
      writing hi' P I' D' \<and> viewOf P I' D' = snd (abs_ops (op # ops) ?view)"
    if W: "writing hi1 P I1 D1" and v: "viewOf P I1 D1 = snd (abs_op op ?view)" and s: "safe_writes P ops (viewOf P I1 D1) (dom I1)"
      and c: "card (dom I1) \<le> card (dom I) + 1" "card (dom D1) \<le> card (dom D) + 1"
      and call: "\<And>r. write_ops trx hi1 ops = Inr r \<Longrightarrow> write_ops trx hi (op # ops) = Inr (fst (abs_op op ?view) # fst r, snd r)"
    for hi1 I1 D1
  proof -
    obtain hi' I' D' where 1: "write_ops trx hi1 ops = Inr (fst (abs_ops ops (viewOf P I1 D1)), hi')" "writing hi' P I' D'"
        "viewOf P I' D' = snd (abs_ops ops (viewOf P I1 D1))"
      using Cons.IH[OF W s] Cons.prems(3,4) c by auto
    have "write_ops trx hi (op # ops) = Inr (fst (abs_ops (op # ops) ?view), hi')"
      using call[OF 1(1)] v by (simp add: Let_def split_def)
    moreover have "viewOf P I' D' = snd (abs_ops (op # ops) ?view)" using 1(3) v by (simp add: Let_def split_def)
    ultimately show ?thesis using 1(2) by blast
  qed
  show ?case
  proof (cases op)
    case (Append k v)
    have n: "card (dom I) < 2 ^ 30" using Cons.prems(3) by simp
    show ?thesis
    proof (rule writing_insert[OF Cons.prems(1) n w, of k v])
      fix hi1 assume new: "?view k = None" and i: "insertInternal hi trx k v = Inr (True, hi1)"
        and W: "writing hi1 P (I(k \<mapsto> v)) (D(k := None))"
      show ?thesis using Cons.prems(2) new i
        by (intro step[OF W] card_dom_upd) (auto simp: Append viewOf_insert)
    next
      assume old: "?view k \<noteq> None" and i: "insertInternal hi trx k v = Inr (False, hi)"
      show ?thesis using Cons.prems(1,2) old i by (intro step[of hi I D]) (auto simp: Append)
    qed
  next
    case (Delete k)
    have vis: "?view k \<noteq> None" and P: "I k \<noteq> None \<longrightarrow> P k = None"
      and s: "safe_writes P ops (?view(k := None)) (dom I - {k})" using Cons.prems(2) by (auto simp: Delete domIff)
    have n: "card (dom D) < 2 ^ 30" using Cons.prems(4) by simp
    have k: "D k = None" using vis by (simp add: viewOf_def split: if_splits)
    let ?D = "if I k = None then D(k \<mapsto> NODE_OFFSET_PLACE_HOLDER) else D"
    have view: "viewOf P (I(k := None)) ?D = ?view(k := None)" using P by (auto simp: viewOf_def fun_eq_iff)
    show ?thesis
    proof (rule writing_delete[OF Cons.prems(1) n w k])
      fix hi1 assume d: "deleteKeyInternal hi trx k = Inr hi1" and W: "writing hi1 P (I(k := None)) ?D"
      have "card (dom ?D) \<le> card (dom D) + 1" using card_dom_upd[of D k "Some NODE_OFFSET_PLACE_HOLDER"] by simp
      then show ?thesis using s d vis view card_dom_upd[of I k None]
        by (intro step[OF W]) (simp_all only: Delete, auto)
    qed
  qed
qed auto

section \<open>Properties\<close>

text \<open>
  C9: Flushing an in-memory index and opening the file again gives an index whose read-only lookups return exactly the
  entries of the in-memory index, as long as the pages of the file stay below the end marker of the mapper lists.
\<close>

theorem flush_open_roundtrip:
  assumes "represents st kv"
    and "length (inMemFile st) + length (pagesLogicalToPhysicalMapper (pSlots st)) +
      length (pagesLogicalToPhysicalMapper (oSlots st)) < UINT32_MAX"
  shows "\<exists>hi. openHashIndex (inMemFile (flush st)) = Inr hi \<and>
    (\<forall>trx k. isReadOnly trx \<longrightarrow> lookupInternal hi trx k = Inr (kv k))"
  using open_serves[OF assms] by (metis serves_def lookupInternal_def)

theorem flush_open_roundtrip_witness:
  "\<exists>hi. openHashIndex (inMemFile (flush newInMemHashIndex)) = Inr hi \<and>
    lookupInternal hi \<lparr>trxType = READ_ONLY, trxID = 1\<rparr> 5 = Inr None"
  using flush_open_roundtrip[of newInMemHashIndex Map.empty]
    compact_represents[OF blank_compact[OF newInMemHashIndex_blank]]
  by (auto simp: newInMemHashIndex_fields UINT32_MAX_def isReadOnly_def)

text \<open>
  C8: A write transaction on an index opened from a flushed file sees its own inserts and deletes: for every safe
  history of at most 2^30 operations each insert reports whether the key was absent from its view, and afterwards its
  lookups return the view while read-only transactions still see exactly the flushed entries.
\<close>

theorem writer_view_refines_map:
  assumes "represents st P"
    and "length (inMemFile st) + length (pagesLogicalToPhysicalMapper (pSlots st)) +
      length (pagesLogicalToPhysicalMapper (oSlots st)) < UINT32_MAX"
    and "isWriteTransaction trx" "safe_writes P ops P {}" "length ops \<le> 2 ^ 30"
  shows "\<exists>hi hi'. openHashIndex (inMemFile (flush st)) = Inr hi \<and>
    write_ops trx hi ops = Inr (fst (abs_ops ops P), hi') \<and>
    (\<forall>t k. lookupInternal hi' t k = Inr (if isReadOnly t then P k else snd (abs_ops ops P) k))"
proof -
  obtain hi where hi: "openHashIndex (inMemFile (flush st)) = Inr hi" "serves hi P" "localStorage hi = newLocalStorage"
    by (rule open_serves[OF assms(1,2)])
  obtain hi' I D where 1: "write_ops trx hi ops = Inr (fst (abs_ops ops P), hi')" "writing hi' P I D"
      "viewOf P I D = snd (abs_ops ops P)"
    using write_ops_view[OF assms(3) new_writing[OF hi(2,3)], of ops] assms(4,5) by auto
  have "lookupInternal hi' t k = Inr (if isReadOnly t then P k else snd (abs_ops ops P) k)" for t k
    unfolding writing_lookup[OF 1(2)] 1(3) ..
  then show ?thesis using hi(1) 1(1) by blast
qed

theorem writer_view_refines_map_witness:
  "\<exists>hi hi'. openHashIndex (inMemFile (flush newInMemHashIndex)) = Inr hi \<and>
    write_ops \<lparr>trxType = WRITE, trxID = 1\<rparr> hi [Append 1 10, Append 1 11, Delete 1, Append 2 20] =
      Inr ([True, False, True, True], hi') \<and>
    lookupInternal hi' \<lparr>trxType = WRITE, trxID = 1\<rparr> 2 = Inr (Some 20) \<and>
    lookupInternal hi' \<lparr>trxType = READ_ONLY, trxID = 2\<rparr> 2 = Inr None"
proof -
  let ?ops = "[Append 1 10, Append 1 11, Delete 1, Append 2 20] :: (key, u64) index_op list"
  let ?w = "\<lparr>trxType = WRITE, trxID = 1\<rparr>"
  have R: "represents newInMemHashIndex Map.empty" by (rule compact_represents[OF blank_compact[OF newInMemHashIndex_blank]])
  have n: "length (inMemFile newInMemHashIndex) + length (pagesLogicalToPhysicalMapper (pSlots newInMemHashIndex)) +
      length (pagesLogicalToPhysicalMapper (oSlots newInMemHashIndex)) < UINT32_MAX"
    by (simp add: newInMemHashIndex_fields UINT32_MAX_def)
  have w: "isWriteTransaction ?w" by (simp add: isWriteTransaction_def)
  have s: "safe_writes Map.empty ?ops Map.empty {}" by simp
  have l: "length ?ops \<le> 2 ^ 30" by simp
  have abs: "fst (abs_ops ?ops Map.empty) = [True, False, True, True]" "snd (abs_ops ?ops Map.empty) 2 = Some 20" by simp_all
  obtain hi hi' where 1: "openHashIndex (inMemFile (flush newInMemHashIndex)) = Inr hi"
      "write_ops ?w hi ?ops = Inr (fst (abs_ops ?ops Map.empty), hi')"
      "\<forall>t k. lookupInternal hi' t k = Inr (if isReadOnly t then None else snd (abs_ops ?ops Map.empty) k)"
    using writer_view_refines_map[OF R n w s l] by blast
  have "lookupInternal hi' ?w 2 = Inr (Some 20)" "lookupInternal hi' \<lparr>trxType = READ_ONLY, trxID = 2\<rparr> 2 = Inr None"
    using 1(3) abs(2) by (simp_all add: isReadOnly_def del: abs_ops.simps)
  then show ?thesis using 1(1,2) unfolding abs(1) by blast
qed

text \<open>
  C40: Deleting, inserting again and deleting a persistent key brings the persistent entry back: the second delete only
  removes the key from the inserted ones, because the insert took it off the deleted ones, so the transaction sees the
  old value of a key that it has deleted.
\<close>

theorem delete_insert_delete_resurrects:
  assumes "represents st P" "P k = Some v0"
    and "length (inMemFile st) + length (pagesLogicalToPhysicalMapper (pSlots st)) +
      length (pagesLogicalToPhysicalMapper (oSlots st)) < UINT32_MAX"
    and "isWriteTransaction trx"
  shows "\<exists>hi bs hi'. openHashIndex (inMemFile (flush st)) = Inr hi \<and>
    write_ops trx hi [Delete k, Append k v, Delete k] = Inr (bs, hi') \<and> lookupInternal hi' trx k = Inr (Some v0)"
proof -
  obtain hi where hi: "openHashIndex (inMemFile (flush st)) = Inr hi" "serves hi P" "localStorage hi = newLocalStorage"
    by (rule open_serves[OF assms(1,3)])
  have W0: "writing hi P Map.empty Map.empty" by (rule new_writing[OF hi(2,3)])
  obtain hi1 where 1: "deleteKeyInternal hi trx k = Inr hi1" "writing hi1 P Map.empty [k \<mapsto> NODE_OFFSET_PLACE_HOLDER]"
    using writing_delete[OF W0 _ assms(4), of k] by auto
  have "viewOf P Map.empty [k \<mapsto> NODE_OFFSET_PLACE_HOLDER] k = None" by (simp add: viewOf_def)
  then obtain hi2 where 2: "insertInternal hi1 trx k v = Inr (True, hi2)" "writing hi2 P [k \<mapsto> v] Map.empty"
    using writing_insert[OF 1(2) _ assms(4), of k v] by auto
  have "Map.empty(k := None) = (Map.empty :: key \<rightharpoonup> u64)" by simp
  then obtain hi3 where 3: "deleteKeyInternal hi2 trx k = Inr hi3" "writing hi3 P Map.empty Map.empty"
    using writing_delete[OF 2(2) _ assms(4), of k] by auto
  have "\<not> isReadOnly trx" using assms(4) by (simp add: isReadOnly_def isWriteTransaction_def)
  then have "lookupInternal hi3 trx k = Inr (Some v0)" using writing_lookup[OF 3(2)] assms(2) by simp
  then show ?thesis using hi(1) 1(1) 2(1) 3(1) by auto
qed

theorem delete_insert_delete_resurrects_witness:
  "\<exists>st. represents st [7 \<mapsto> 70] \<and>
    (\<exists>hi bs hi'. openHashIndex (inMemFile (flush st)) = Inr hi \<and>
      write_ops \<lparr>trxType = WRITE, trxID = 1\<rparr> hi [Delete 7, Append 7 71, Delete 7] = Inr (bs, hi') \<and>
      lookupInternal hi' \<lparr>trxType = WRITE, trxID = 1\<rparr> 7 = Inr (Some 70))"
proof -
  have R: "represents newInMemHashIndex Map.empty" by (rule compact_represents[OF blank_compact[OF newInMemHashIndex_blank]])
  obtain st where st: "appendInternal newInMemHashIndex 7 70 = Inr (True, st)" "represents st [7 \<mapsto> 70]"
    using ix.append_represents[OF R, of 7 70] by auto
  have "(case appendInternal newInMemHashIndex 7 70 of Inl _ \<Rightarrow> False
      | Inr (_, st) \<Rightarrow> length (inMemFile st) = 3 \<and> length (pagesLogicalToPhysicalMapper (pSlots st)) = 1 \<and>
          length (pagesLogicalToPhysicalMapper (oSlots st)) = 1)" by code_simp
  then have n: "length (inMemFile st) + length (pagesLogicalToPhysicalMapper (pSlots st)) +
      length (pagesLogicalToPhysicalMapper (oSlots st)) < UINT32_MAX" using st(1) by (simp add: UINT32_MAX_def)
  have "[7 \<mapsto> 70] 7 = Some (70 :: u64)" by simp
  moreover have "isWriteTransaction \<lparr>trxType = WRITE, trxID = 1\<rparr>" by (simp add: isWriteTransaction_def)
  ultimately show ?thesis using delete_insert_delete_resurrects[OF st(2) _ n, of 7 70 _ 71] st(2) by blast
qed

end
