(* ===== verification/Key_Encoder.thy ===== *)
theory Key_Encoder
  imports Timestamp
begin

text \<open>
  The keys of ORDER BY: \<^verbatim>\<open>src/src/processor/physical_plan/operator/order_by/order_by_key_encoder.cpp\<close> with its header.
  A key is encoded into bytes such that \<open>memcmp\<close> on the bytes gives the order of the keys.  Values are what the
  value vectors hold: two's complement words, the bits of a double, the bytes of a string.  The byte order of the machine
  is a parameter (\<open>isLittleEndian\<close> tests it).
\<close>

unbundle bit_operations_syntax

section \<open>Values and types\<close>

datatype DataTypeID = NODE_ID | BOOL | INT64 | DOUBLE | DATE | TIMESTAMP | INTERVAL | STRING | UNSTRUCTURED | LIST

datatype key_value =
    BoolVal bool
  | Int64Val u64
  | DoubleVal u64
  | DateVal u32
  | TimestampVal u64
  | IntervalVal interval_t
  | StringVal "u8 list"
  | UnstructuredVal

fun typeOf :: "key_value \<Rightarrow> DataTypeID" where
  "typeOf (BoolVal _) = BOOL"
| "typeOf (Int64Val _) = INT64"
| "typeOf (DoubleVal _) = DOUBLE"
| "typeOf (DateVal _) = DATE"
| "typeOf (TimestampVal _) = TIMESTAMP"
| "typeOf (IntervalVal _) = INTERVAL"
| "typeOf (StringVal _) = STRING"
| "typeOf UnstructuredVal = UNSTRUCTURED"

definition SHORT_STR_LENGTH :: nat where "SHORT_STR_LENGTH = 12"

text \<open>The sizes in bytes of the types; the default branch of the encoding size only sees these.\<close>

fun getDataTypeSize :: "DataTypeID \<Rightarrow> nat" where
  "getDataTypeSize NODE_ID = 16"
| "getDataTypeSize BOOL = 1"
| "getDataTypeSize INT64 = 8"
| "getDataTypeSize DOUBLE = 8"
| "getDataTypeSize DATE = 4"
| "getDataTypeSize TIMESTAMP = 8"
| "getDataTypeSize INTERVAL = 16"
| "getDataTypeSize STRING = 16"
| "getDataTypeSize UNSTRUCTURED = 24"
| "getDataTypeSize LIST = 16"

definition getEncodingSize :: "DataTypeID \<Rightarrow> nat" where
  "getEncodingSize ty =
     (case ty of UNSTRUCTURED \<Rightarrow> 2 | STRING \<Rightarrow> 2 + SHORT_STR_LENGTH | _ \<Rightarrow> 1 + getDataTypeSize ty)"

section \<open>Bytes\<close>

text \<open>The bytes of a word in memory, at increasing addresses.\<close>

definition memBytes32 :: "bool \<Rightarrow> u32 \<Rightarrow> u8 list" where
  "memBytes32 le w = (if le then id else rev) (map (\<lambda>k. ucast (drop_bit (8 * k) w)) [0..<4])"

definition memBytes64 :: "bool \<Rightarrow> u64 \<Rightarrow> u8 list" where
  "memBytes64 le w = (if le then id else rev) (map (\<lambda>k. ucast (drop_bit (8 * k) w)) [0..<8])"

definition BSWAP64 :: "u64 \<Rightarrow> u64" where
  "BSWAP64 x =
     drop_bit 56 (x AND 0xff00000000000000) OR drop_bit 40 (x AND 0x00ff000000000000) OR
     drop_bit 24 (x AND 0x0000ff0000000000) OR drop_bit 8 (x AND 0x000000ff00000000) OR
     push_bit 8 (x AND 0x00000000ff000000) OR push_bit 24 (x AND 0x0000000000ff0000) OR
     push_bit 40 (x AND 0x000000000000ff00) OR push_bit 56 (x AND 0x00000000000000ff)"

definition BSWAP32 :: "u32 \<Rightarrow> u32" where
  "BSWAP32 x =
     drop_bit 24 (x AND 0xff000000) OR drop_bit 8 (x AND 0x00ff0000) OR
     push_bit 8 (x AND 0x0000ff00) OR push_bit 24 (x AND 0x000000ff)"

definition flipSign :: "u8 \<Rightarrow> u8" where
  "flipSign key_byte = key_byte XOR 128"

text \<open>The sign of the difference of the first two bytes that differ.\<close>

fun memcmp :: "u8 list \<Rightarrow> u8 list \<Rightarrow> int" where
  "memcmp (a # as) (b # bs) = (if a < b then -1 else if b < a then 1 else memcmp as bs)"
| "memcmp _ _ = 0"

section \<open>Encoding one value\<close>

definition encodeInt32 :: "bool \<Rightarrow> u32 \<Rightarrow> u8 list" where
  "encodeInt32 le data =
     (let bs = memBytes32 le (if le then BSWAP32 data else data) in bs[0 := flipSign (bs ! 0)])"

definition encodeInt64 :: "bool \<Rightarrow> u64 \<Rightarrow> u8 list" where
  "encodeInt64 le data =
     (let bs = memBytes64 le (if le then BSWAP64 data else data) in bs[0 := flipSign (bs ! 0)])"

definition encodeBool :: "bool \<Rightarrow> u8 list" where
  "encodeBool data = [if data then 1 else 0]"

text \<open>The comparison of a double with zero, on the bits of the double.\<close>

definition isNaN :: "u64 \<Rightarrow> bool" where
  "isNaN d \<longleftrightarrow> d AND 0x7ff0000000000000 = 0x7ff0000000000000 \<and> d AND 0x000fffffffffffff \<noteq> 0"

definition doubleNegative :: "u64 \<Rightarrow> bool" where
  "doubleNegative d \<longleftrightarrow> bit d 63 \<and> \<not> isNaN d \<and> d AND 0x7fffffffffffffff \<noteq> 0"

definition encodeDouble :: "bool \<Rightarrow> u64 \<Rightarrow> u8 list" where
  "encodeDouble le data =
     (let d = (if le then BSWAP64 data else data); bs = memBytes64 le d
      in if doubleNegative data then memBytes64 le (NOT d) else bs[0 := flipSign (bs ! 0)])"

definition encodeInterval :: "bool \<Rightarrow> interval_t \<Rightarrow> u8 list" where
  "encodeInterval le data =
     (let (months, days, micros) = NormalizeIntervalEntries data
      in encodeInt32 le (word_of_int months) @ encodeInt32 le (word_of_int days) @ encodeInt64 le (word_of_int micros))"

definition encodeString :: "u8 list \<Rightarrow> u8 list" where
  "encodeString data =
     (if length data \<le> SHORT_STR_LENGTH then data @ replicate (SHORT_STR_LENGTH + 1 - length data) 0
      else take SHORT_STR_LENGTH data @ [255])"

fun encodeData :: "bool \<Rightarrow> key_value \<Rightarrow> u8 list" where
  "encodeData le (BoolVal b) = encodeBool b"
| "encodeData le (Int64Val w) = encodeInt64 le w"
| "encodeData le (DoubleVal d) = encodeDouble le d"
| "encodeData le (DateVal d) = encodeInt32 le d"
| "encodeData le (TimestampVal t) = encodeInt64 le t"
| "encodeData le (IntervalVal i) = encodeInterval le i"
| "encodeData le (StringVal s) = encodeString s"
| "encodeData le UnstructuredVal = [0]"

text \<open>One column of a tuple: the null flag and the value, with all the bytes flipped for a descending column.\<close>

definition encodeNullOrValue :: "bool \<Rightarrow> DataTypeID \<Rightarrow> key_value option \<Rightarrow> u8 list" where
  "encodeNullOrValue le ty v =
     (case v of None \<Rightarrow> replicate (getEncodingSize ty) 255 | Some x \<Rightarrow> 0 # encodeData le x)"

definition flipBytesIfNecessary :: "bool \<Rightarrow> u8 list \<Rightarrow> u8 list" where
  "flipBytesIfNecessary isAsc bs = (if isAsc then bs else map NOT bs)"

definition encodeColumn :: "bool \<Rightarrow> DataTypeID \<Rightarrow> bool \<Rightarrow> key_value option \<Rightarrow> u8 list" where
  "encodeColumn le ty isAsc v = flipBytesIfNecessary isAsc (encodeNullOrValue le ty v)"

definition isNullVal :: "u8 list \<Rightarrow> bool \<Rightarrow> bool" where
  "isNullVal bs isAsc \<longleftrightarrow> bs ! 0 = (if isAsc then 255 else 0)"

definition isLongStr :: "u8 list \<Rightarrow> bool \<Rightarrow> bool" where
  "isLongStr bs isAsc \<longleftrightarrow> bs ! 13 = (if isAsc then 255 else 0)"

section \<open>Byte order\<close>

lemma upt4: "[0..<4] = [0, 1, 2, 3 :: nat]" and upt8: "[0..<8] = [0, 1, 2, 3, 4, 5, 6, 7 :: nat]"
  by (simp_all add: upt_rec)

definition bigEndian32 :: "u32 \<Rightarrow> u8 list" where
  "bigEndian32 w = map (\<lambda>k. ucast (drop_bit (8 * k) w)) [3, 2, 1, 0]"

definition bigEndian64 :: "u64 \<Rightarrow> u8 list" where
  "bigEndian64 w = map (\<lambda>k. ucast (drop_bit (8 * k) w)) [7, 6, 5, 4, 3, 2, 1, 0]"

text \<open>The masks of the two macros as shifted bytes.\<close>

lemma masks32: "(0xff000000 :: u32) = push_bit 24 (mask 8)" "(0x00ff0000 :: u32) = push_bit 16 (mask 8)"
  "(0x0000ff00 :: u32) = push_bit 8 (mask 8)" "(0x000000ff :: u32) = mask 8"
  by (simp_all add: mask_eq_exp_minus_1 push_bit_eq_mult)

lemma masks64: "(0xff00000000000000 :: u64) = push_bit 56 (mask 8)" "(0x00ff000000000000 :: u64) = push_bit 48 (mask 8)"
  "(0x0000ff0000000000 :: u64) = push_bit 40 (mask 8)" "(0x000000ff00000000 :: u64) = push_bit 32 (mask 8)"
  "(0x00000000ff000000 :: u64) = push_bit 24 (mask 8)" "(0x0000000000ff0000 :: u64) = push_bit 16 (mask 8)"
  "(0x000000000000ff00 :: u64) = push_bit 8 (mask 8)" "(0x00000000000000ff :: u64) = mask 8"
  by (simp_all add: mask_eq_exp_minus_1 push_bit_eq_mult)

lemma bswap32_byte:
  assumes "k < 4"
  shows "ucast (drop_bit (8 * k) (BSWAP32 w)) = (ucast (drop_bit (8 * (3 - k)) w) :: u8)"
proof -
  have "k = 0 \<or> k = 1 \<or> k = 2 \<or> k = 3" using assms by arith
  then show ?thesis
    unfolding BSWAP32_def masks32 by (elim disjE) (auto intro!: bit_word_eqI simp: bit_simps)
qed

lemma bswap64_byte:
  assumes "k < 8"
  shows "ucast (drop_bit (8 * k) (BSWAP64 w)) = (ucast (drop_bit (8 * (7 - k)) w) :: u8)"
proof -
  have "k = 0 \<or> k = 1 \<or> k = 2 \<or> k = 3 \<or> k = 4 \<or> k = 5 \<or> k = 6 \<or> k = 7" using assms by arith
  then show ?thesis
    unfolding BSWAP64_def masks64 by (elim disjE) (auto intro!: bit_word_eqI simp: bit_simps)
qed

lemma bswap32_bytes: "memBytes32 le (if le then BSWAP32 w else w) = bigEndian32 w"
  using bswap32_byte[of 0 w] bswap32_byte[of 1 w] bswap32_byte[of 2 w] bswap32_byte[of 3 w]
  by (cases le) (simp_all add: memBytes32_def bigEndian32_def upt4)

lemma bswap64_bytes: "memBytes64 le (if le then BSWAP64 w else w) = bigEndian64 w"
  using bswap64_byte[of 0 w] bswap64_byte[of 1 w] bswap64_byte[of 2 w] bswap64_byte[of 3 w]
    bswap64_byte[of 4 w] bswap64_byte[of 5 w] bswap64_byte[of 6 w] bswap64_byte[of 7 w]
  by (cases le) (simp_all add: memBytes64_def bigEndian64_def upt8)

text \<open>The number that a sequence of bytes stands for.\<close>

fun bytesVal :: "u8 list \<Rightarrow> nat" where
  "bytesVal [] = 0"
| "bytesVal (b # bs) = unat b * 256 ^ length bs + bytesVal bs"

lemma bytesVal_bound: "bytesVal bs < 256 ^ length bs"
proof (induction bs)
  case (Cons b bs)
  have "unat b \<le> 255" using unsigned_less[of b, where 'a = nat] by simp
  then have "unat b * 256 ^ length bs \<le> 255 * 256 ^ length bs" by (rule mult_right_mono) simp
  then show ?case unfolding bytesVal.simps list.size power_Suc add_Suc_right add_0_right using Cons by linarith
qed simp

lemma memcmp_val:
  assumes "length as = length bs"
  shows "memcmp as bs = (if bytesVal as < bytesVal bs then -1 else if bytesVal as = bytesVal bs then 0 else 1)"
  using assms
proof (induction as bs rule: list_induct2)
  case (Cons a as b bs)
  have lt: "bytesVal (x # xs) < bytesVal (y # ys)" if "x < y" "length xs = length ys" for x y :: u8 and xs ys
  proof -
    have "unat x + 1 \<le> unat y" using that(1) by (simp add: word_less_nat_alt)
    then have "(unat x + 1) * 256 ^ length xs \<le> unat y * 256 ^ length xs" by (rule mult_right_mono) simp
    then show ?thesis using bytesVal_bound[of xs] that(2) by simp
  qed
  show ?case
  proof (cases a b rule: linorder_cases)
    case less
    then show ?thesis using lt[OF less Cons.hyps] by simp
  next
    case equal
    then show ?thesis using Cons by simp
  next
    case greater
    then show ?thesis using lt[OF greater Cons.hyps[symmetric]] by simp
  qed
qed simp

lemma byte_div: "unat (ucast (drop_bit n (w :: 'a::len word)) :: u8) = unat w div 2 ^ n mod 256"
  by (simp add: unsigned_ucast_eq unsigned_drop_bit_eq drop_bit_eq_div[where 'a = nat] take_bit_eq_mod)

lemma digit_step: "(x :: nat) mod 256 ^ Suc k = 256 ^ k * (x div 256 ^ k mod 256) + x mod 256 ^ k"
  unfolding power_Suc mult.commute[of 256] by (rule mod_mult2_eq)

lemma byte_mod: "unat (ucast (w :: 'a::len word) :: u8) = unat w mod 256"
  by (simp add: unsigned_ucast_eq take_bit_eq_mod)

lemma unat_drop: "unat (drop_bit n (w :: 'a::len word)) = unat w div 2 ^ n"
  by (simp add: unsigned_drop_bit_eq drop_bit_eq_div[where 'a = nat] take_bit_nat_eq_self[OF unsigned_less])

lemma bigEndian64_Cons: "bigEndian64 w = ucast (drop_bit 56 w) # tl (bigEndian64 w)" "length (tl (bigEndian64 w)) = 7"
  by (simp_all add: bigEndian64_def)

lemma bigEndian32_Cons: "bigEndian32 w = ucast (drop_bit 24 w) # tl (bigEndian32 w)" "length (tl (bigEndian32 w)) = 3"
  by (simp_all add: bigEndian32_def)

lemma bigEndian64_tl: "bytesVal (tl (bigEndian64 w)) = unat w mod 256 ^ 7"
proof -
  define x where "x = unat w"
  have d: "x mod 256 ^ 7 = 256 ^ 6 * (x div 256 ^ 6 mod 256) + x mod 256 ^ 6"
    "x mod 256 ^ 6 = 256 ^ 5 * (x div 256 ^ 5 mod 256) + x mod 256 ^ 5"
    "x mod 256 ^ 5 = 256 ^ 4 * (x div 256 ^ 4 mod 256) + x mod 256 ^ 4"
    "x mod 256 ^ 4 = 256 ^ 3 * (x div 256 ^ 3 mod 256) + x mod 256 ^ 3"
    "x mod 256 ^ 3 = 256 ^ 2 * (x div 256 ^ 2 mod 256) + x mod 256 ^ 2"
    "x mod 256 ^ 2 = 256 ^ 1 * (x div 256 ^ 1 mod 256) + x mod 256 ^ 1"
    using digit_step[of x 6] digit_step[of x 5] digit_step[of x 4] digit_step[of x 3] digit_step[of x 2] digit_step[of x 1]
    by (simp_all only: Suc_numeral Num.arith_simps numeral_2_eq_2[symmetric] One_nat_def[symmetric] Suc_1)
  have e: "256 ^ 6 = (2 :: nat) ^ 48" "256 ^ 5 = (2 :: nat) ^ 40" "256 ^ 4 = (2 :: nat) ^ 32" "256 ^ 3 = (2 :: nat) ^ 24"
    "256 ^ 2 = (2 :: nat) ^ 16" "256 ^ 1 = (2 :: nat) ^ 8" by simp_all
  have "bytesVal (tl (bigEndian64 w)) = x div 2 ^ 48 mod 256 * 256 ^ 6 + x div 2 ^ 40 mod 256 * 256 ^ 5 +
      x div 2 ^ 32 mod 256 * 256 ^ 4 + x div 2 ^ 24 mod 256 * 256 ^ 3 + x div 2 ^ 16 mod 256 * 256 ^ 2 +
      x div 2 ^ 8 mod 256 * 256 ^ 1 + x mod 256 ^ 1"
    by (simp add: bigEndian64_def unat_drop byte_mod x_def)
  also have "\<dots> = x mod 256 ^ 7" unfolding d unfolding e by (simp only: mult.commute add.assoc)
  finally show ?thesis by (simp add: x_def)
qed

lemma bigEndian32_tl: "bytesVal (tl (bigEndian32 w)) = unat w mod 256 ^ 3"
proof -
  define x where "x = unat w"
  have d: "x mod 256 ^ 3 = 256 ^ 2 * (x div 256 ^ 2 mod 256) + x mod 256 ^ 2"
    "x mod 256 ^ 2 = 256 ^ 1 * (x div 256 ^ 1 mod 256) + x mod 256 ^ 1"
    using digit_step[of x 2] digit_step[of x 1] by (simp_all only: Suc_numeral Num.arith_simps Suc_1)
  have e: "256 ^ 2 = (2 :: nat) ^ 16" "256 ^ 1 = (2 :: nat) ^ 8" by simp_all
  have "bytesVal (tl (bigEndian32 w)) = x div 2 ^ 16 mod 256 * 256 ^ 2 + x div 2 ^ 8 mod 256 * 256 ^ 1 + x mod 256 ^ 1"
    by (simp add: bigEndian32_def unat_drop byte_mod x_def)
  also have "\<dots> = x mod 256 ^ 3" unfolding d unfolding e by (simp only: mult.commute add.assoc)
  finally show ?thesis by (simp add: x_def)
qed

lemma bigEndian64_val: "bytesVal (bigEndian64 w) = unat w"
proof -
  have "unat w < 256 ^ 8" using unsigned_less[of w, where 'a = nat] by simp
  then have "unat w = unat w mod 256 ^ Suc 7" by simp
  also have "\<dots> = 256 ^ 7 * (unat w div 256 ^ 7 mod 256) + unat w mod 256 ^ 7" by (rule digit_step)
  finally show ?thesis
    using arg_cong[OF bigEndian64_Cons(1), of bytesVal w] bigEndian64_Cons(2)[of w] bigEndian64_tl[of w]
    by (simp add: byte_div)
qed

lemma flipSign_val: "unat (flipSign b) = (unat b + 128) mod 256"
proof -
  have "list_all (\<lambda>n. unat ((word_of_nat n :: u8) XOR 128) = (n + 128) mod 256) [0..<256]" by code_simp
  then have "\<forall>n \<in> {0..<256}. unat ((word_of_nat n :: u8) XOR 128) = (n + 128) mod 256" unfolding list_all_iff set_upt .
  moreover have "unat b \<in> {0..<256}" using unsigned_less[of b, where 'a = nat] by simp
  ultimately have "unat ((word_of_nat (unat b) :: u8) XOR 128) = (unat b + 128) mod 256" by (rule bspec)
  then show ?thesis by (simp add: flipSign_def)
qed

text \<open>Flipping the top bit of the first byte adds half of the range: the encoded number is the signed value shifted.\<close>

lemma shift_top:
  fixes x :: nat
  shows "(x div m + 128) mod 256 * m + x mod m = (x + 128 * m) mod (256 * m)"
proof -
  have "(x + 128 * m) mod (m * 256) = m * ((x + 128 * m) div m mod 256) + (x + 128 * m) mod m" by (rule mod_mult2_eq)
  moreover have "(x + 128 * m) div m = x div m + 128" if "m \<noteq> 0" using that by simp
  ultimately show ?thesis by (cases "m = 0") (simp_all add: mult.commute add.commute)
qed

lemma encodeInt64_val: "int (bytesVal (encodeInt64 le w)) = sint w + 2 ^ 63" "length (encodeInt64 le w) = 8"
proof -
  let ?x = "unat w"
  have x: "?x < 256 * 256 ^ 7" using unsigned_less[of w, where 'a = nat] by simp
  have e: "encodeInt64 le w = flipSign (ucast (drop_bit 56 w)) # tl (bigEndian64 w)"
    unfolding encodeInt64_def bswap64_bytes Let_def by (subst (1 2) bigEndian64_Cons(1)) simp
  show "length (encodeInt64 le w) = 8" unfolding e using bigEndian64_Cons(2)[of w] by simp
  have "?x div 2 ^ 56 mod 256 = ?x div 2 ^ 56" using x by simp
  then have "bytesVal (encodeInt64 le w) = (?x div 256 ^ 7 + 128) mod 256 * 256 ^ 7 + ?x mod 256 ^ 7"
    unfolding e using bigEndian64_tl[of w] bigEndian64_Cons(2)[of w] by (simp add: flipSign_val byte_div)
  also have "\<dots> = (?x + 128 * 256 ^ 7) mod (256 * 256 ^ 7)" by (rule shift_top)
  finally have "int (bytesVal (encodeInt64 le w)) = (uint w + 2 ^ 63) mod 2 ^ 64" by (simp add: zmod_int)
  also have "\<dots> = sint w + 2 ^ 63"
    unfolding sint_uint signed_take_bit_eq_take_bit_shift take_bit_eq_mod by simp
  finally show "int (bytesVal (encodeInt64 le w)) = sint w + 2 ^ 63" .
qed

lemma encodeInt32_val: "int (bytesVal (encodeInt32 le w)) = sint w + 2 ^ 31" "length (encodeInt32 le w) = 4"
proof -
  let ?x = "unat w"
  have x: "?x < 256 * 256 ^ 3" using unsigned_less[of w, where 'a = nat] by simp
  have e: "encodeInt32 le w = flipSign (ucast (drop_bit 24 w)) # tl (bigEndian32 w)"
    unfolding encodeInt32_def bswap32_bytes Let_def by (subst (1 2) bigEndian32_Cons(1)) simp
  show "length (encodeInt32 le w) = 4" unfolding e using bigEndian32_Cons(2)[of w] by simp
  have "?x div 2 ^ 24 mod 256 = ?x div 2 ^ 24" using x by simp
  then have "bytesVal (encodeInt32 le w) = (?x div 256 ^ 3 + 128) mod 256 * 256 ^ 3 + ?x mod 256 ^ 3"
    unfolding e using bigEndian32_tl[of w] bigEndian32_Cons(2)[of w] by (simp add: flipSign_val byte_div)
  also have "\<dots> = (?x + 128 * 256 ^ 3) mod (256 * 256 ^ 3)" by (rule shift_top)
  finally have "int (bytesVal (encodeInt32 le w)) = (uint w + 2 ^ 31) mod 2 ^ 32" by (simp add: zmod_int)
  also have "\<dots> = sint w + 2 ^ 31"
    unfolding sint_uint signed_take_bit_eq_take_bit_shift take_bit_eq_mod by simp
  finally show "int (bytesVal (encodeInt32 le w)) = sint w + 2 ^ 31" .
qed

section \<open>Comparing encodings\<close>

lemma memcmp_append:
  "length as = length bs \<Longrightarrow> memcmp (as @ cs) (bs @ ds) = (if memcmp as bs = 0 then memcmp cs ds else memcmp as bs)"
  by (induction as bs rule: list_induct2) auto

lemma memcmp_antisym: "length as = length bs \<Longrightarrow> memcmp bs as = - memcmp as bs"
  by (induction as bs rule: list_induct2) auto

lemma memcmp_range: "memcmp as bs \<in> {-1, 0, 1}"
  by (induction as bs rule: memcmp.induct) auto

lemma not_val: "unat (NOT (x :: u8)) = 255 - unat x"
proof -
  have "list_all (\<lambda>n. unat (NOT (word_of_nat n :: u8)) = 255 - n) [0..<256]" by code_simp
  then have "\<forall>n \<in> {0..<256}. unat (NOT (word_of_nat n :: u8)) = 255 - n" unfolding list_all_iff set_upt .
  moreover have "unat x \<in> {0..<256}" using unsigned_less[of x, where 'a = nat] by simp
  ultimately have "unat (NOT (word_of_nat (unat x) :: u8)) = 255 - unat x" by (rule bspec)
  then show ?thesis by simp
qed

lemma not_less_not: "NOT x < NOT y \<longleftrightarrow> y < (x :: u8)"
  using unsigned_less[of x, where 'a = nat] unsigned_less[of y, where 'a = nat]
  unfolding word_less_nat_alt not_val by auto

lemma memcmp_not: "length as = length bs \<Longrightarrow> memcmp (map NOT as) (map NOT bs) = memcmp bs as"
  by (induction as bs rule: list_induct2) (auto simp: not_less_not)

text \<open>The order of the values.\<close>

definition doubleKey :: "u64 \<Rightarrow> int" where
  "doubleKey d = (if bit d 63 then - int (unat (take_bit 63 d)) else int (unat (take_bit 63 d)))"

fun valueLess :: "key_value \<Rightarrow> key_value \<Rightarrow> bool" where
  "valueLess (BoolVal a) (BoolVal b) \<longleftrightarrow> \<not> a \<and> b"
| "valueLess (Int64Val a) (Int64Val b) \<longleftrightarrow> sint a < sint b"
| "valueLess (DoubleVal a) (DoubleVal b) \<longleftrightarrow> doubleKey a < doubleKey b"
| "valueLess (DateVal a) (DateVal b) \<longleftrightarrow> sint a < sint b"
| "valueLess (TimestampVal a) (TimestampVal b) \<longleftrightarrow> sint a < sint b"
| "valueLess (IntervalVal a) (IntervalVal b) \<longleftrightarrow> GreaterThan b a"
| "valueLess _ _ \<longleftrightarrow> False"

text \<open>The values whose encoding decides the order: not a NaN, not the negative zero, no interval that overflows.\<close>

fun sortable :: "key_value \<Rightarrow> bool" where
  "sortable (DoubleVal d) \<longleftrightarrow> \<not> isNaN d \<and> d \<noteq> 0x8000000000000000"
| "sortable (IntervalVal i) \<longleftrightarrow>
     (let (m, d, u) = NormalizeIntervalEntries i
      in - (2 ^ 31) \<le> m \<and> m < 2 ^ 31 \<and> - (2 ^ 31) \<le> d \<and> d < 2 ^ 31 \<and> - (2 ^ 63) \<le> u \<and> u < 2 ^ 63)"
| "sortable (StringVal s) \<longleftrightarrow> False"
| "sortable UnstructuredVal \<longleftrightarrow> False"
| "sortable _ \<longleftrightarrow> True"

definition threeWay :: "int \<Rightarrow> int \<Rightarrow> int" where
  "threeWay a b = (if a < b then -1 else if a = b then 0 else 1)"

lemma memcmp_shifted:
  assumes "length as = length bs" "int (bytesVal as) = a + c" "int (bytesVal bs) = b + c"
  shows "memcmp as bs = threeWay a b"
proof -
  have "bytesVal as < bytesVal bs \<longleftrightarrow> a < b" "bytesVal as = bytesVal bs \<longleftrightarrow> a = b" using assms(2,3) by linarith+
  then show ?thesis by (simp add: memcmp_val[OF assms(1)] threeWay_def)
qed

lemma encodeInt64_cmp: "memcmp (encodeInt64 le a) (encodeInt64 le b) = threeWay (sint a) (sint b)"
  using encodeInt64_val[of le a] encodeInt64_val[of le b] by (intro memcmp_shifted) auto

lemma encodeInt32_cmp: "memcmp (encodeInt32 le a) (encodeInt32 le b) = threeWay (sint a) (sint b)"
  using encodeInt32_val[of le a] encodeInt32_val[of le b] by (intro memcmp_shifted) auto

text \<open>Doubles: the bits without the sign order the magnitudes; a negative double is complemented.\<close>

lemma double_split: "int (unat d) = (if bit d 63 then 2 ^ 63 else 0) + int (unat (take_bit 63 (d :: u64)))"
proof -
  have t: "unat (take_bit 63 d) = unat d mod 2 ^ 63" unfolding unsigned_take_bit_eq by (rule take_bit_eq_mod)
  have b: "bit d 63 \<longleftrightarrow> unat d div 2 ^ 63 mod 2 = 1"
  proof -
    have "bit (unat d) 63 \<longleftrightarrow> bit d 63" by (simp add: bit_unsigned_iff)
    then show ?thesis by (simp only: bit_iff_odd[where 'a = nat] odd_iff_mod_2_eq_one)
  qed
  have "unat d < 2 ^ 63 * 2" using unsigned_less[of d, where 'a = nat] by simp
  then have "unat d div 2 ^ 63 < 2" by (simp add: less_mult_imp_div_less)
  then have "unat d div 2 ^ 63 = (if bit d 63 then 1 else 0)" unfolding b by auto
  then have "unat d = (if bit d 63 then 2 ^ 63 else 0) + unat d mod 2 ^ 63"
    using div_mult_mod_eq[of "unat d" "2 ^ 63"] by (auto split: if_splits)
  from arg_cong[OF this, of int] show ?thesis unfolding t by (cases "bit d 63") (simp_all only: if_True if_False of_nat_add of_nat_power of_nat_numeral of_nat_0)
qed

lemma sint_nonneg:
  assumes "\<not> bit d 63"
  shows "sint (d :: u64) = int (unat d)"
proof -
  have "int (unat (take_bit 63 d)) < 2 ^ 63"
    using take_bit_nat_less_exp[of 63 "unat d"] by (simp add: unsigned_take_bit_eq)
  then have "0 \<le> uint d" "uint d < 2 ^ 63" using double_split[of d] assms by simp_all
  then show ?thesis unfolding sint_uint signed_take_bit_eq_take_bit_shift take_bit_eq_mod by simp
qed

lemma bytesVal_not: "bytesVal (map NOT bs) + bytesVal bs + 1 = 256 ^ length bs"
proof (induction bs)
  case (Cons b bs)
  have "unat (NOT b) + unat b = 255" using not_val[of b] unsigned_less[of b, where 'a = nat] by simp
  then have "(unat (NOT b) + unat b) * 256 ^ length bs = 255 * 256 ^ length bs" by simp
  then have "unat (NOT b) * 256 ^ length bs + unat b * 256 ^ length bs = 255 * 256 ^ length bs"
    by (simp only: distrib_right)
  then show ?case using Cons by (simp only: list.map bytesVal.simps length_map list.size power_Suc add_Suc_right add_0_right)
qed simp

lemma memBytes64_not: "memBytes64 le (NOT w) = map NOT (memBytes64 le w)"
proof -
  have "ucast (drop_bit (8 * k) (NOT w)) = (NOT (ucast (drop_bit (8 * k) w)) :: u8)" if "k \<in> set [0..<8]" for k
    using that by (intro bit_word_eqI) (auto simp: bit_simps)
  then show ?thesis by (auto simp: memBytes64_def rev_map[symmetric] simp del: upt_rec)
qed

lemma doubleNegative_sign:
  assumes "sortable (DoubleVal d)"
  shows "doubleNegative d \<longleftrightarrow> bit d 63" and "bit d 63 \<Longrightarrow> 0 < unat (take_bit 63 d)"
proof -
  have m: "d AND 0x7fffffffffffffff = take_bit 63 d" by (simp add: take_bit_eq_mask mask_eq_exp_minus_1)
  have nz: "take_bit 63 d \<noteq> 0" if "bit d 63"
  proof
    assume "take_bit 63 d = 0"
    then have "int (unat d) = 2 ^ 63" using double_split[of d] that by simp
    then have "unat d = 2 ^ 63" by (metis of_nat_eq_iff of_nat_numeral of_nat_power)
    moreover have "word_of_nat (unat d) = d" by simp
    ultimately have "d = word_of_nat (2 ^ 63)" by simp
    then show False using assms by simp
  qed
  then show "doubleNegative d \<longleftrightarrow> bit d 63" using assms by (auto simp: doubleNegative_def m)
  show "0 < unat (take_bit 63 d)" if "bit d 63" using nz[OF that] by (simp add: unat_gt_0)
qed

lemma encodeDouble_val:
  assumes "sortable (DoubleVal d)"
  shows "int (bytesVal (encodeDouble le d)) = (if bit d 63 then doubleKey d - 1 else doubleKey d) + 2 ^ 63"
    "length (encodeDouble le d) = 8" "bit d 63 \<Longrightarrow> doubleKey d < 0" "\<not> bit d 63 \<Longrightarrow> 0 \<le> doubleKey d"
proof -
  note neg = doubleNegative_sign[OF assms]
  show "doubleKey d < 0" if "bit d 63"
  proof -
    have "0 < int (unat (take_bit 63 d))" using neg(2)[OF that] by (simp only: of_nat_0_less_iff)
    then show ?thesis using that by (simp only: doubleKey_def if_True neg_less_0_iff_less)
  qed
  show "0 \<le> doubleKey d" if "\<not> bit d 63" using that by (simp add: doubleKey_def)
  have len: "length (bigEndian64 d) = 8" by (simp add: bigEndian64_def)
  show "int (bytesVal (encodeDouble le d)) = (if bit d 63 then doubleKey d - 1 else doubleKey d) + 2 ^ 63"
  proof (cases "bit d 63")
    case True
    then have e: "encodeDouble le d = map NOT (bigEndian64 d)"
      using neg(1) by (simp add: encodeDouble_def Let_def memBytes64_not bswap64_bytes)
    have "bytesVal (encodeDouble le d) + unat d + 1 = 256 ^ 8"
      using bytesVal_not[of "bigEndian64 d"] len bigEndian64_val[of d] by (simp add: e)
    then have "int (bytesVal (encodeDouble le d) + unat d + 1) = int (256 ^ 8)" by (simp only:)
    then have "int (bytesVal (encodeDouble le d)) + int (unat d) + 1 = 2 ^ 64" by simp
    then show ?thesis using double_split[of d] True by (simp add: doubleKey_def)
  next
    case False
    then have e: "encodeDouble le d = encodeInt64 le d"
      using neg(1) by (simp add: encodeDouble_def encodeInt64_def Let_def)
    have "sint d = int (unat d)" by (rule sint_nonneg[OF False])
    then show ?thesis using encodeInt64_val(1)[of le d] double_split[of d] False by (simp add: e doubleKey_def)
  qed
  show "length (encodeDouble le d) = 8"
    by (simp add: encodeDouble_def Let_def memBytes64_def)
qed

lemma encodeDouble_cmp:
  assumes "sortable (DoubleVal a)" "sortable (DoubleVal b)"
  shows "memcmp (encodeDouble le a) (encodeDouble le b) = threeWay (doubleKey a) (doubleKey b)"
proof -
  note a = encodeDouble_val[OF assms(1)] and b = encodeDouble_val[OF assms(2)]
  have "memcmp (encodeDouble le a) (encodeDouble le b) =
      threeWay (if bit a 63 then doubleKey a - 1 else doubleKey a) (if bit b 63 then doubleKey b - 1 else doubleKey b)"
    using a(2) b(2) by (intro memcmp_shifted[OF _ a(1) b(1)]) simp
  then show ?thesis using a(3,4) b(3,4) by (cases "bit a 63"; cases "bit b 63") (auto simp: threeWay_def)
qed

text \<open>Intervals: three numbers one after the other.\<close>

lemma sint_word_of_int:
  "- (2 ^ 31) \<le> x \<Longrightarrow> x < 2 ^ 31 \<Longrightarrow> sint (word_of_int x :: u32) = x"
  "- (2 ^ 63) \<le> x \<Longrightarrow> x < 2 ^ 63 \<Longrightarrow> sint (word_of_int x :: u64) = x"
  unfolding sint_uint signed_take_bit_eq_take_bit_shift take_bit_eq_mod
  by (simp_all add: uint_word_of_int mod_add_left_eq)

lemma encodeInterval_cmp:
  assumes "sortable (IntervalVal a)" "sortable (IntervalVal b)"
  shows "memcmp (encodeInterval le a) (encodeInterval le b) = (if GreaterThan b a then -1 else if GreaterThan a b then 1 else 0)"
proof -
  obtain m d u where a: "NormalizeIntervalEntries a = (m, d, u)" by (metis prod_cases3)
  obtain m' d' u' where b: "NormalizeIntervalEntries b = (m', d', u')" by (metis prod_cases3)
  have "memcmp (encodeInterval le a) (encodeInterval le b) =
      (if m < m' then -1 else if m' < m then 1 else if d < d' then -1 else if d' < d then 1 else threeWay u u')"
    using assms unfolding encodeInterval_def a b
    by (simp add: a b memcmp_append encodeInt32_val(2) encodeInt32_cmp encodeInt64_cmp sint_word_of_int)
       (auto simp: threeWay_def)
  then show ?thesis by (auto simp: GreaterThan_def a b threeWay_def)
qed

lemma encodeData_length: "typeOf x \<notin> {STRING, UNSTRUCTURED} \<Longrightarrow> 1 + length (encodeData le x) = getEncodingSize (typeOf x)"
  by (cases x)
     (simp_all add: getEncodingSize_def encodeBool_def encodeInt64_val(2) encodeInt32_val(2) encodeInterval_def
       split_beta Let_def encodeDouble_def memBytes64_def)

lemma encodeData_cmp:
  assumes "sortable x" "sortable y" "typeOf x = typeOf y"
  shows "memcmp (encodeData le x) (encodeData le y) = (if valueLess x y then -1 else if valueLess y x then 1 else 0)"
  using assms
proof (cases x)
  case (DoubleVal d)
  then show ?thesis using assms by (cases y) (auto simp: encodeDouble_cmp threeWay_def)
next
  case (IntervalVal i)
  then show ?thesis using assms by (cases y) (simp_all add: encodeInterval_cmp del: sortable.simps)
qed (use assms in \<open>cases y; auto simp: encodeInt64_cmp encodeInt32_cmp threeWay_def encodeBool_def\<close>)+

section \<open>Columns and tuples\<close>

text \<open>Nulls come last in ascending and first in descending order.\<close>

fun ascLess :: "key_value option \<Rightarrow> key_value option \<Rightarrow> bool" where
  "ascLess (Some x) (Some y) \<longleftrightarrow> valueLess x y"
| "ascLess (Some x) None \<longleftrightarrow> True"
| "ascLess None _ \<longleftrightarrow> False"

definition colLess :: "bool \<Rightarrow> key_value option \<Rightarrow> key_value option \<Rightarrow> bool" where
  "colLess isAsc x y \<longleftrightarrow> (if isAsc then ascLess x y else ascLess y x)"

definition colOk :: "DataTypeID \<Rightarrow> key_value option \<Rightarrow> bool" where
  "colOk ty x \<longleftrightarrow> ty \<notin> {STRING, UNSTRUCTURED} \<and> (\<forall>v. x = Some v \<longrightarrow> typeOf v = ty \<and> sortable v)"

lemma encodeNullOrValue_length: "colOk ty x \<Longrightarrow> length (encodeNullOrValue le ty x) = getEncodingSize ty"
  using encodeData_length by (auto simp: encodeNullOrValue_def colOk_def split: option.splits)

lemma encodeNullOrValue_cmp:
  assumes "colOk ty x" "colOk ty y"
  shows "memcmp (encodeNullOrValue le ty x) (encodeNullOrValue le ty y) = (if ascLess x y then -1 else if ascLess y x then 1 else 0)"
proof -
  have pos: "replicate (getEncodingSize ty) (255 :: u8) = 255 # replicate (getEncodingSize ty - 1) 255"
    by (cases ty) (simp_all add: getEncodingSize_def SHORT_STR_LENGTH_def numeral_eq_Suc)
  have "memcmp bs bs = 0" for bs by (induction bs) auto
  then show ?thesis
    using assms encodeData_cmp by (cases x; cases y) (auto simp: encodeNullOrValue_def pos colOk_def)
qed

lemma encodeColumn_cmp:
  assumes "colOk ty x" "colOk ty y"
  shows "memcmp (encodeColumn le ty asc x) (encodeColumn le ty asc y) =
      (if colLess asc x y then -1 else if colLess asc y x then 1 else 0)"
    and "length (encodeColumn le ty asc x) = getEncodingSize ty"
  using encodeNullOrValue_cmp[OF assms, of le] encodeNullOrValue_cmp[OF assms(2,1), of le]
    encodeNullOrValue_length[OF assms(1), of le] encodeNullOrValue_length[OF assms(2), of le]
  by (auto simp: encodeColumn_def flipBytesIfNecessary_def colLess_def memcmp_not)

definition encodeColumns :: "bool \<Rightarrow> (DataTypeID \<times> bool) list \<Rightarrow> key_value option list \<Rightarrow> u8 list" where
  "encodeColumns le cols vs = concat (map2 (\<lambda>(ty, asc) v. encodeColumn le ty asc v) cols vs)"

fun tupleLess :: "(DataTypeID \<times> bool) list \<Rightarrow> key_value option list \<Rightarrow> key_value option list \<Rightarrow> bool" where
  "tupleLess ((ty, asc) # cols) (x # xs) (y # ys) \<longleftrightarrow>
     colLess asc x y \<or> (\<not> colLess asc y x \<and> tupleLess cols xs ys)"
| "tupleLess _ _ _ \<longleftrightarrow> False"

lemma valueLess_asym: "valueLess x y \<Longrightarrow> \<not> valueLess y x"
proof (cases x; cases y)
  fix i j assume "x = IntervalVal i" "y = IntervalVal j" "valueLess x y"
  then show ?thesis by (auto simp: GreaterThan_def split: prod.splits if_splits)
qed auto

lemma colLess_asym: "colLess asc x y \<Longrightarrow> \<not> colLess asc y x"
  using valueLess_asym by (cases x; cases y) (auto simp: colLess_def split: if_splits)

lemma encodeColumns_cmp:
  "length xs = length cols \<Longrightarrow> length ys = length cols \<Longrightarrow>
   list_all2 (\<lambda>c x. colOk (fst c) x) cols xs \<Longrightarrow> list_all2 (\<lambda>c x. colOk (fst c) x) cols ys \<Longrightarrow>
   memcmp (encodeColumns le cols xs) (encodeColumns le cols ys) =
     (if tupleLess cols xs ys then -1 else if tupleLess cols ys xs then 1 else 0)"
proof (induction cols arbitrary: xs ys)
  case Nil
  then show ?case by (simp add: encodeColumns_def)
next
  case (Cons c cols)
  obtain ty asc where c: "c = (ty, asc)" by fastforce
  obtain x xs' where xs: "xs = x # xs'" using Cons.prems(1) by (cases xs) auto
  obtain y ys' where ys: "ys = y # ys'" using Cons.prems(2) by (cases ys) auto
  have ok: "colOk ty x" "colOk ty y" using Cons.prems(3,4) by (simp_all add: c xs ys)
  have IH: "memcmp (encodeColumns le cols xs') (encodeColumns le cols ys') =
     (if tupleLess cols xs' ys' then -1 else if tupleLess cols ys' xs' then 1 else 0)"
    using Cons.IH[of xs' ys'] Cons.prems by (simp add: xs ys)
  show ?case
    using encodeColumn_cmp[OF ok, of le asc] encodeColumn_cmp(2)[OF ok(2,1), of le asc] IH colLess_asym[of asc x y]
    by (simp add: encodeColumns_def c xs ys memcmp_append)
qed

section \<open>Properties\<close>

text \<open>
  C22: The encoding preserves the ORDER BY order.  For any number of ascending and descending columns of types other
  than STRING and UNSTRUCTURED, with or without nulls, \<open>memcmp\<close> on the encoded keys is negative exactly when the left tuple
  comes before the right one, on machines of either byte order (NaN, the negative zero and intervals that overflow
  excluded).
\<close>

theorem encoding_preserves_order:
  assumes "length xs = length cols" "length ys = length cols"
    and "list_all2 (\<lambda>c x. colOk (fst c) x) cols xs" "list_all2 (\<lambda>c x. colOk (fst c) x) cols ys"
  shows "memcmp (encodeColumns le cols xs) (encodeColumns le cols ys) < 0 \<longleftrightarrow> tupleLess cols xs ys"
  using encodeColumns_cmp[OF assms, of le] by auto

theorem encoding_preserves_order_witness:
  "memcmp (encodeColumns True [(INT64, True), (DATE, False)] [Some (Int64Val (- 5)), Some (DateVal 7)])
     (encodeColumns True [(INT64, True), (DATE, False)] [Some (Int64Val (- 5)), Some (DateVal 3)]) < 0"
proof -
  have "tupleLess [(INT64, True), (DATE, False)] [Some (Int64Val (- 5)), Some (DateVal 7)] [Some (Int64Val (- 5)), Some (DateVal 3)]"
    by code_simp
  moreover have "colOk INT64 (Some (Int64Val (- 5)))" "colOk DATE (Some (DateVal 7))" "colOk DATE (Some (DateVal 3))"
    by (simp_all add: colOk_def)
  ultimately show ?thesis
    using encoding_preserves_order[of "[Some (Int64Val (- 5)), Some (DateVal 7)]" "[(INT64, True), (DATE, False)]"
        "[Some (Int64Val (- 5)), Some (DateVal 3)]" True] by simp
qed

text \<open>
  The encoding puts the negative zero before every negative number, even before minus infinity: it is not negative in
  the sense of \<open>data < 0\<close>, so its sign bit is flipped like that of a positive number.
\<close>

lemma negative_zero_before_minus_infinity:
  "memcmp (encodeDouble le 0x8000000000000000) (encodeDouble le 0xfff0000000000000) = -1"
  by (cases le) (simp_all only:, code_simp+)

end
