(* ===== verification/Gf_String.thy ===== *)
theory Gf_String
  imports Key_Encoder "HOL-Library.Sublist"
begin

text \<open>
  The comparison of strings: \<^verbatim>\<open>src/src/common/types/gf_string.cpp\<close>.  A \<open>gf_string_t\<close> keeps its length, the first
  four bytes as a prefix, and either the next eight bytes or a pointer to all the bytes; the model is the list of the
  bytes, from which the fields are read.
\<close>

definition PREFIX_LENGTH :: nat where "PREFIX_LENGTH = 4"

definition isShortString :: "nat \<Rightarrow> bool" where
  "isShortString len \<longleftrightarrow> len \<le> SHORT_STR_LENGTH"

definition prefixOf :: "u8 list \<Rightarrow> u8 list" where
  "prefixOf s = take PREFIX_LENGTH s"

text \<open>The length and the used part of the prefix are compared first, then all the bytes.\<close>

definition gf_string_eq :: "u8 list \<Rightarrow> u8 list \<Rightarrow> bool" where
  "gf_string_eq a b \<longleftrightarrow>
     length a = length b \<and> memcmp (take (min (length a) PREFIX_LENGTH) (prefixOf a)) (take (min (length a) PREFIX_LENGTH) (prefixOf b)) = 0 \<and>
     memcmp (take (length a) a) (take (length a) b) = 0"

definition gf_string_greater :: "u8 list \<Rightarrow> u8 list \<Rightarrow> bool" where
  "gf_string_greater a b =
     (let sharedLen = min (length a) (length b);
          n = (if sharedLen \<le> PREFIX_LENGTH then sharedLen else PREFIX_LENGTH);
          r0 = memcmp (take n (prefixOf a)) (take n (prefixOf b));
          r1 = (if r0 = 0 \<and> PREFIX_LENGTH < length a then memcmp (take sharedLen a) (take sharedLen b) else r0)
      in if r1 = 0 then length b < length a else 0 < r1)"

definition gf_string_ge :: "u8 list \<Rightarrow> u8 list \<Rightarrow> bool" where
  "gf_string_ge a b \<longleftrightarrow> gf_string_greater a b \<or> gf_string_eq a b"

definition gf_string_less :: "u8 list \<Rightarrow> u8 list \<Rightarrow> bool" where
  "gf_string_less a b \<longleftrightarrow> \<not> gf_string_ge a b"

lemma memcmp_zero: "length a = length b \<Longrightarrow> memcmp a b = 0 \<longleftrightarrow> a = b"
  by (induction a b rule: list_induct2) auto

lemma memcmp_prefix:
  assumes "memcmp (take n a) (take n b) \<noteq> 0" "n \<le> m"
  shows "memcmp (take m a) (take m b) = memcmp (take n a) (take n b)"
  using assms
proof (induction a arbitrary: b n m)
  case (Cons x a)
  obtain n1 where n: "n = Suc n1" using Cons.prems by (cases n) auto
  obtain m1 where m: "m = Suc m1" using Cons.prems n by (cases m) auto
  obtain y b1 where b: "b = y # b1" using Cons.prems by (cases b) auto
  show ?case using Cons.IH[of n1 b1 m1] Cons.prems by (simp add: n m b split: if_splits)
qed simp

lemma memcmp_lex: "(if memcmp (take (min (length a) (length b)) a) (take (min (length a) (length b)) b) = 0 then length b < length a
   else 0 < memcmp (take (min (length a) (length b)) a) (take (min (length a) (length b)) b)) \<longleftrightarrow> ord_class.lexordp b a"
  by (induction a b rule: memcmp.induct) (auto simp: neq_Nil_conv)

lemma gf_string_eq_iff: "gf_string_eq a b \<longleftrightarrow> a = b"
  by (auto simp: gf_string_eq_def memcmp_zero prefixOf_def)

lemma gf_string_greater_memcmp:
  "gf_string_greater a b \<longleftrightarrow> (let n = min (length a) (length b); r = memcmp (take n a) (take n b)
     in if r = 0 then length b < length a else 0 < r)"
proof -
  define k where "k = min (length a) (length b)"
  define n where "n = (if k \<le> PREFIX_LENGTH then k else PREFIX_LENGTH)"
  have n: "n \<le> k" "n \<le> PREFIX_LENGTH" by (auto simp: n_def)
  have pre: "take n (prefixOf x) = take n x" for x using n by (simp add: prefixOf_def min_def)
  have "(if memcmp (take n a) (take n b) = 0 \<and> PREFIX_LENGTH < length a then memcmp (take k a) (take k b) else memcmp (take n a) (take n b))
    = memcmp (take k a) (take k b)"
    using memcmp_prefix[of n a b k] n by (cases "k \<le> PREFIX_LENGTH") (auto simp: n_def k_def min_def)
  then show ?thesis
    unfolding gf_string_greater_def Let_def k_def[symmetric] n_def[symmetric] pre by (simp only:)
qed

text \<open>
  C30: the order of \<open>gf_string_t\<close> is the lexicographic order of the byte strings, although long strings are compared through
  their prefixes first.
\<close>

theorem gf_string_order_is_lexicographic:
  "gf_string_less a b \<longleftrightarrow> ord_class.lexordp a b"
proof -
  have g: "gf_string_greater a b \<longleftrightarrow> ord_class.lexordp b a" by (simp add: gf_string_greater_memcmp Let_def memcmp_lex)
  show ?thesis
    using linorder_class.lexordp_linear[of a b] order_class.lexordp_antisym[of a b] order_class.lexordp_irreflexive'[of a]
    by (auto simp: gf_string_less_def gf_string_ge_def g gf_string_eq_iff)
qed

end
