(* ===== verification/Counting_Sort.thy ===== *)
theory Counting_Sort
  imports Main "HOL-Library.Multiset"
begin

text \<open>
  The counting sort on which the radix sort of \<^verbatim>\<open>src/src/processor/physical_plan/operator/order_by/radix_sort.cpp\<close>
  is built, on lists: the counts and their running sums, the placement of the elements from the last one to the first
  one, and that the result is the stable sort \<open>sort_key\<close> of the library.
\<close>

section \<open>Bucket sort\<close>

definition startOf :: "('a \<Rightarrow> nat) \<Rightarrow> 'a list \<Rightarrow> nat \<Rightarrow> nat" where
  "startOf f xs b = length (filter (\<lambda>x. f x < b) xs)"

lemma startOf_Suc: "startOf f xs (Suc b) = startOf f xs b + length (filter (\<lambda>x. f x = b) xs)"
  by (induction xs) (auto simp: startOf_def)

lemma startOf_mono: "b \<le> c \<Longrightarrow> startOf f xs b \<le> startOf f xs c"
  by (induction c rule: dec_induct) (simp_all add: startOf_Suc)

lemma startOf_all: "(\<And>x. x \<in> set xs \<Longrightarrow> f x < k) \<Longrightarrow> startOf f xs k = length xs"
  by (simp add: startOf_def)

definition bucketSort :: "nat \<Rightarrow> ('a \<Rightarrow> nat) \<Rightarrow> 'a list \<Rightarrow> 'a list" where
  "bucketSort k f xs = concat (map (\<lambda>b. filter (\<lambda>x. f x = b) xs) [0..<k])"

lemma bucketSort_Suc: "bucketSort (Suc k) f xs = bucketSort k f xs @ filter (\<lambda>x. f x = k) xs"
  by (simp add: bucketSort_def)

lemma bucketSort_set: "set (bucketSort k f xs) = {x \<in> set xs. f x < k}"
  by (auto simp: bucketSort_def)

lemma bucketSort_sorted: "sorted (map f (bucketSort k f xs))"
proof (induction k)
  case (Suc k)
  have "sorted (map f (filter (\<lambda>x. f x = k) xs))" using sorted_map_same[of f "\<lambda>_. k" xs] by simp
  then show ?case using Suc by (auto simp: bucketSort_Suc sorted_append bucketSort_set)
qed (simp add: bucketSort_def)

lemma bucketSort_filter: "b < k \<Longrightarrow> filter (\<lambda>x. f x = b) (bucketSort k f xs) = filter (\<lambda>x. f x = b) xs"
proof (induction k)
  case (Suc k)
  have "filter (\<lambda>x. f x = k) (bucketSort k f xs) = []"
    by (simp add: filter_empty_conv bucketSort_set)
  moreover have "filter (\<lambda>x. f x = b) (filter (\<lambda>x. f x = k) xs) = (if b = k then filter (\<lambda>x. f x = k) xs else [])"
    by (auto simp: filter_empty_conv)
  ultimately show ?case using Suc by (auto simp: bucketSort_Suc less_Suc_eq simp del: filter_filter)
qed simp

lemma bucketSort_mset: "mset (bucketSort k f xs) = filter_mset (\<lambda>x. f x < k) (mset xs)"
  by (induction k) (simp_all add: bucketSort_Suc bucketSort_def[of 0] less_Suc_eq filter_mset_eq_conv
      filter_union_mset multiset_eq_iff)

lemma bucketSort_sort_key:
  assumes "\<And>x. x \<in> set xs \<Longrightarrow> f x < k" shows "bucketSort k f xs = sort_key f xs"
proof (rule properties_for_sort_key[symmetric])
  show "mset (bucketSort k f xs) = mset xs"
    using assms by (simp add: bucketSort_mset filter_mset_eq_conv)
  show "sorted (map f (bucketSort k f xs))" by (rule bucketSort_sorted)
  fix x assume "x \<in> set (bucketSort k f xs)"
  then have "f x < k" by (simp add: bucketSort_set)
  then show "filter (\<lambda>y. f x = f y) (bucketSort k f xs) = filter (\<lambda>y. f x = f y) xs"
    using bucketSort_filter[of "f x" k f xs] by (simp add: eq_commute)
qed

text \<open>One step of the placement; the source is processed from its end.\<close>

definition placeTuple :: "('a \<Rightarrow> nat) \<Rightarrow> 'a \<Rightarrow> nat list \<times> 'a list \<Rightarrow> nat list \<times> 'a list" where
  "placeTuple f x = (\<lambda>(c, d). let t = c ! f x - 1 in (c[f x := t], d[t := x]))"

lemma take_drop_update:
  "t < p \<or> p + n \<le> t \<Longrightarrow> take n (drop p (d[t := x])) = take n (drop p d)"
  by (auto simp: drop_update_swap)

lemma place_invariant:
  assumes "all = ys @ zs" "\<And>x. x \<in> set all \<Longrightarrow> f x < k" "length c = k" "length d = length all"
    and "\<And>b. b < k \<Longrightarrow> c ! b = startOf f all b + length (filter (\<lambda>x. f x = b) ys)"
    and "\<And>b. b < k \<Longrightarrow> take (length (filter (\<lambda>x. f x = b) zs)) (drop (c ! b) d) = filter (\<lambda>x. f x = b) zs"
  shows "\<exists>c' d'. foldl (\<lambda>s x. placeTuple f x s) (c, d) (rev ys) = (c', d') \<and> length d' = length all \<and>
    (\<forall>b < k. take (length (filter (\<lambda>x. f x = b) all)) (drop (startOf f all b) d') = filter (\<lambda>x. f x = b) all)"
  using assms
proof (induction ys arbitrary: zs c d rule: rev_induct)
  case Nil
  then show ?case by simp
next
  case (snoc x ys)
  define t where "t = c ! f x - 1"
  have fx: "f x < k" using snoc.prems(1,2) by simp
  have t: "t = startOf f all (f x) + length (filter (\<lambda>y. f y = f x) ys)" "c ! f x = Suc t"
    using snoc.prems(5)[OF fx] by (simp_all add: t_def)
  have all: "all = ys @ (x # zs)" using snoc.prems(1) by simp
  have bucket: "c ! b + length (filter (\<lambda>y. f y = b) zs) = startOf f all (Suc b)" if "b < k" for b
    using snoc.prems(5)[OF that] by (simp add: startOf_Suc snoc.prems(1))
  have tlt: "t < startOf f all (Suc (f x))" using bucket[OF fx] t(2) by simp
  have tl: "t < length d"
    using tlt startOf_mono[of "Suc (f x)" k f all] fx startOf_all[of all f k] snoc.prems(2,4) by simp
  have "\<exists>c' d'. foldl (\<lambda>s x. placeTuple f x s) (c[f x := t], d[t := x]) (rev ys) = (c', d') \<and> length d' = length all \<and>
    (\<forall>b < k. take (length (filter (\<lambda>x. f x = b) all)) (drop (startOf f all b) d') = filter (\<lambda>x. f x = b) all)"
  proof (rule snoc.IH[OF all snoc.prems(2)])
    fix b assume b: "b < k"
    show "c[f x := t] ! b = startOf f all b + length (filter (\<lambda>x. f x = b) ys)"
      using snoc.prems(5)[OF b] t(1) fx snoc.prems(3) by (cases "b = f x") auto
    show "take (length (filter (\<lambda>y. f y = b) (x # zs))) (drop (c[f x := t] ! b) (d[t := x])) = filter (\<lambda>y. f y = b) (x # zs)"
    proof (cases "b = f x")
      case True
      have "drop t (d[t := x]) = x # drop (Suc t) d"
        using tl by (simp add: Cons_nth_drop_Suc[symmetric])
      then show ?thesis using True snoc.prems(3) snoc.prems(6)[OF fx] fx t(2) by simp
    next
      case False
      have "t < c ! b \<or> c ! b + length (filter (\<lambda>y. f y = b) zs) \<le> t"
      proof (cases "b < f x")
        case True
        then have "startOf f all (Suc b) \<le> startOf f all (f x)" by (intro startOf_mono) simp
        then show ?thesis using bucket[OF b] t(1) by simp
      next
        case False
        then have "startOf f all (Suc (f x)) \<le> startOf f all b" using \<open>b \<noteq> f x\<close> by (intro startOf_mono) simp
        then show ?thesis using tlt snoc.prems(5)[OF b] by simp
      qed
      then show ?thesis using False snoc.prems(6)[OF b] by (simp add: take_drop_update)
    qed
  qed (use snoc.prems(3,4) in simp_all)
  then show ?case by (simp add: placeTuple_def t_def Let_def)
qed

lemma buckets_concat:
  assumes "\<And>b. b < k \<Longrightarrow> take (length (filter (\<lambda>x. f x = b) xs)) (drop (startOf f xs b) d) = filter (\<lambda>x. f x = b) xs"
  shows "take (startOf f xs k) d = bucketSort k f xs"
  using assms
proof (induction k)
  case 0
  then show ?case by (simp add: startOf_def bucketSort_def)
next
  case (Suc k)
  then show ?case by (simp add: startOf_Suc take_add bucketSort_Suc)
qed

lemma place_sorts:
  assumes "\<And>x. x \<in> set xs \<Longrightarrow> f x < k" "length c = k" "length d = length xs"
    and "\<And>b. b < k \<Longrightarrow> c ! b = startOf f xs (Suc b)"
  shows "snd (foldl (\<lambda>s x. placeTuple f x s) (c, d) (rev xs)) = sort_key f xs"
proof -
  obtain c' d' where r: "foldl (\<lambda>s x. placeTuple f x s) (c, d) (rev xs) = (c', d')" "length d' = length xs"
    and b: "\<forall>b < k. take (length (filter (\<lambda>x. f x = b) xs)) (drop (startOf f xs b) d') = filter (\<lambda>x. f x = b) xs"
    using place_invariant[of xs xs "[]" f k c d] assms by (auto simp: startOf_Suc)
  have "take (startOf f xs k) d' = bucketSort k f xs" using b by (intro buckets_concat) auto
  then show ?thesis using r startOf_all[of xs f k] assms(1) by (simp add: bucketSort_sort_key)
qed

section \<open>Counts and their running sums\<close>

lemma counts_nth:
  assumes "\<And>x. x \<in> set xs \<Longrightarrow> f x < k" "length c = k" "b < k"
  shows "foldl (\<lambda>c x. c[f x := c ! f x + 1]) c xs ! b = c ! b + length (filter (\<lambda>x. f x = b) xs)"
  using assms
proof (induction xs arbitrary: c)
  case (Cons x xs)
  then show ?case by (cases "f x = b") auto
qed simp

lemma counts_length [simp]: "length (foldl (\<lambda>c x. c[f x := Suc (c ! f x)]) c xs) = length c"
  by (induction xs arbitrary: c) auto

text \<open>The loop that adds each count to its predecessor and takes the largest count along the way.\<close>

definition runningSums :: "nat \<Rightarrow> nat list \<Rightarrow> nat list \<times> nat" where
  "runningSums k cs = foldl (\<lambda>(c, m) val. (c[val := c ! val + c ! (val - 1)], max (c ! val) m)) (cs, cs ! 0) [1..<k]"

lemma runningSums_prefix:
  assumes "1 \<le> k" "k \<le> length cs"
  shows "length (fst (runningSums k cs)) = length cs \<and>
    (\<forall>b < length cs. fst (runningSums k cs) ! b = (if b < k then sum_list (take (Suc b) cs) else cs ! b)) \<and>
    snd (runningSums k cs) \<in> set (take k cs) \<and> (\<forall>c \<in> set (take k cs). c \<le> snd (runningSums k cs))"
  using assms
proof (induction k rule: nat_induct_at_least)
  case base
  then show ?case by (cases cs) (auto simp: runningSums_def)
next
  case (Suc k)
  obtain c m where r: "runningSums k cs = (c, m)" by fastforce
  have step: "runningSums (Suc k) cs = (c[k := c ! k + c ! (k - 1)], max (c ! k) m)"
    using Suc.hyps r by (simp add: runningSums_def)
  have tk: "take (Suc k) cs = take k cs @ [cs ! k]" using Suc.prems by (simp add: take_Suc_conv_app_nth)
  have c: "length c = length cs" "m \<in> set (take k cs)" "\<forall>c \<in> set (take k cs). c \<le> m"
    "\<And>b. b < length cs \<Longrightarrow> c ! b = (if b < k then sum_list (take (Suc b) cs) else cs ! b)"
    using Suc.IH Suc.prems r by auto
  have "c ! k = cs ! k" using c(4)[of k] Suc.prems by simp
  moreover have "c ! (k - 1) = sum_list (take k cs)" using c(4)[of "k - 1"] Suc.prems Suc.hyps by simp
  ultimately show ?case
    using c Suc.prems by (auto simp: step tk nth_list_update max_def less_Suc_eq)
qed

lemma sum_counts:
  assumes "\<And>b. b < length cs \<Longrightarrow> cs ! b = length (filter (\<lambda>x. f x = b) xs)" "k \<le> length cs"
  shows "sum_list (take k cs) = startOf f xs k"
  using assms(2)
proof (induction k)
  case 0
  then show ?case by (simp add: startOf_def)
next
  case (Suc k)
  then show ?case using assms(1)[of k] by (simp add: take_Suc_conv_app_nth startOf_Suc)
qed

section \<open>Sorting by two keys\<close>

text \<open>A stable sort by the less significant key followed by one by the more significant key sorts by both.\<close>

lemma sort_key_shift: "sort_key (\<lambda>x. C + g x) xs = sort_key (g :: 'a \<Rightarrow> nat) xs"
proof -
  have "insort_key (\<lambda>x. C + g x) x ys = insort_key g x ys" for x ys by (induction ys) auto
  then show ?thesis by (simp add: sort_key_def fun_eq_iff cong: foldr_cong)
qed

lemma sort_key_cong_set: "(\<And>x. x \<in> set xs \<Longrightarrow> f x = g x) \<Longrightarrow> sort_key f xs = sort_key g xs"
proof (induction xs)
  case (Cons x xs)
  have "insort_key f x ys = insort_key g x ys" if "set ys \<subseteq> set xs" for ys
    using that Cons.prems by (induction ys) auto
  then show ?case using Cons by simp
qed simp

lemma sort_key_map: "sort_key f (map g xs) = map g (sort_key (f \<circ> g) xs)"
proof (induction xs)
  case (Cons x xs)
  have "insort_key f (g x) (map g ys) = map g (insort_key (f \<circ> g) x ys)" for ys by (induction ys) auto
  then show ?case using Cons by (simp add: comp_def)
qed simp

lemma one_bucket_sorted:
  assumes "length (filter (\<lambda>x. f x = b) xs) = length xs"
  shows "sort_key f xs = xs"
proof -
  have "f x = b" if "x \<in> set xs" for x
    using assms that length_filter_less[of x xs "\<lambda>x. f x = b"] by auto
  then have "sort_key f xs = sort_key (\<lambda>_. b) xs" by (rule sort_key_cong_set)
  then show ?thesis by (simp add: sort_key_const)
qed

lemma sort_key_twice:
  assumes "\<And>x. x \<in> set xs \<Longrightarrow> g x < (K :: nat)"
  shows "sort_key f (sort_key g xs) = sort_key (\<lambda>x. f x * K + g x) xs"
proof (rule properties_for_sort_key)
  let ?h = "\<lambda>x. f x * K + g x" and ?ys = "sort_key (\<lambda>x. f x * K + g x) xs"
  show "mset ?ys = mset (sort_key g xs)" by simp
  have "sorted (map ?h ?ys)" by simp
  then have "sorted (map (\<lambda>x. ?h x div K) ?ys)" by (auto simp: sorted_iff_nth_mono div_le_mono)
  moreover have "map (\<lambda>x. ?h x div K) ?ys = map f ?ys"
  proof (rule map_cong[OF refl])
    fix x assume "x \<in> set ?ys"
    then have "g x < K" using assms by simp
    then show "?h x div K = f x" by (simp add: div_mult_self3)
  qed
  ultimately show "sorted (map f ?ys)" by simp
  fix x
  let ?zs = "filter (\<lambda>y. f x = f y) xs"
  have "filter (\<lambda>y. f x = f y) ?ys = sort_key ?h ?zs" by (rule filter_sort)
  also have "\<dots> = sort_key (\<lambda>y. f x * K + g y) ?zs" by (rule sort_key_cong_set) simp
  finally show "filter (\<lambda>y. f x = f y) ?ys = filter (\<lambda>y. f x = f y) (sort_key g xs)"
    by (simp add: sort_key_shift filter_sort)
qed

end
