(* ===== verification/Radix_Sort.thy ===== *)
theory Radix_Sort
  imports Gf_String Counting_Sort
begin

text \<open>
  Sorting one block of encoded keys: \<^verbatim>\<open>src/src/processor/physical_plan/operator/order_by/radix_sort.cpp\<close>.  A data block
  is its bytes; a pointer into it is an offset.  \<open>radixSort\<close> sorts the tuples from the least significant byte to the
  most significant one with counting sorts between the block and a temporary block.
\<close>

section \<open>Memory\<close>

definition writeBytes :: "nat \<Rightarrow> u8 list \<Rightarrow> u8 list \<Rightarrow> u8 list" where
  "writeBytes p bs mem = take p mem @ bs @ drop (p + length bs) mem"

definition readBytes :: "nat \<Rightarrow> nat \<Rightarrow> u8 list \<Rightarrow> u8 list" where
  "readBytes p n mem = take n (drop p mem)"

section \<open>One counting sort\<close>

text \<open>How often each value occurs at the byte \<open>p\<close> of \<open>n\<close> tuples of \<open>w\<close> bytes.\<close>

definition countBytes :: "u8 list \<Rightarrow> nat \<Rightarrow> nat \<Rightarrow> nat \<Rightarrow> nat list" where
  "countBytes mem p w n =
     foldl (\<lambda>c j. let b = unat (mem ! (p + j * w)) in c[b := c ! b + 1]) (replicate 256 0) [0..<n]"

text \<open>The running sums, together with the largest count.\<close>

definition sumCounts :: "nat list \<Rightarrow> nat list \<times> nat" where
  "sumCounts cs =
     foldl (\<lambda>(c, m) val. (c[val := c ! val + c ! (val - 1)], max (c ! val) m)) (cs, cs ! 0) [1..<256]"

definition reorder :: "u8 list \<Rightarrow> nat \<Rightarrow> nat \<Rightarrow> nat \<Rightarrow> nat \<Rightarrow> nat list \<Rightarrow> u8 list \<Rightarrow> nat \<Rightarrow> nat list \<times> u8 list" where
  "reorder src sourcePtr w n off cs dst targetPtr =
     foldl (\<lambda>(c, d) j.
        let p = sourcePtr + (n - 1 - j) * w; b = unat (src ! (p + off)); t = c ! b - 1
        in (c[b := t], writeBytes (targetPtr + t * w) (readBytes p w src) d))
      (cs, dst) [0..<n]"

text \<open>One round; the flag tells whether the data moved to the other block.\<close>

definition radixPass :: "nat \<Rightarrow> nat \<Rightarrow> nat \<Rightarrow> u8 list \<Rightarrow> nat \<Rightarrow> u8 list \<Rightarrow> nat \<Rightarrow> (bool \<times> u8 list) result" where
  "radixPass w n off src sourcePtr dst targetPtr =
     (if 0 < n \<and> length src \<le> sourcePtr + off + (n - 1) * w then Inl (UndefinedBehaviour ''read beyond the block'')
      else let (cs, maxCounter) = sumCounts (countBytes src (sourcePtr + off) w n)
           in if maxCounter = n then Inr (False, dst)
              else if length src < sourcePtr + n * w \<or> length dst < targetPtr + n * w
              then Inl (UndefinedBehaviour ''memcpy beyond the block'')
              else Inr (True, snd (reorder src sourcePtr w n off cs dst targetPtr)))"

fun radixLoop :: "nat list \<Rightarrow> nat \<Rightarrow> nat \<Rightarrow> nat \<Rightarrow> nat \<Rightarrow> u8 list \<Rightarrow> u8 list \<Rightarrow> bool \<Rightarrow> (u8 list \<times> u8 list \<times> bool) result" where
  "radixLoop [] w n keyPtr tmpPtr key tmp isInTmpBlock = Inr (key, tmp, isInTmpBlock)"
| "radixLoop (off # offs) w n keyPtr tmpPtr key tmp isInTmpBlock =
     (if isInTmpBlock
      then bind_result (radixPass w n off tmp tmpPtr key keyPtr) (\<lambda>(moved, key1).
             radixLoop offs w n keyPtr tmpPtr key1 tmp (\<not> moved))
      else bind_result (radixPass w n off key keyPtr tmp tmpPtr) (\<lambda>(moved, tmp1).
             radixLoop offs w n keyPtr tmpPtr key tmp1 moved))"

text \<open>\<open>w\<close> is \<open>numBytesPerTuple\<close>; the result is the key block and the temporary block.\<close>

definition radixSort :: "nat \<Rightarrow> u8 list \<Rightarrow> u8 list \<Rightarrow> nat \<Rightarrow> nat \<Rightarrow> nat \<Rightarrow> nat \<Rightarrow> (u8 list \<times> u8 list) result" where
  "radixSort w key tmp keyBlockPtr numTuplesToSort numBytesSorted numBytesToSort =
     (let keyPtr = keyBlockPtr + numBytesSorted; tmpPtr = numBytesSorted
      in bind_result (radixLoop (rev [0..<numBytesToSort]) w numTuplesToSort keyPtr tmpPtr key tmp False)
           (\<lambda>(key1, tmp1, isInTmpBlock).
              Inr (if isInTmpBlock
                   then writeBytes keyPtr (readBytes tmpPtr (numTuplesToSort * w) tmp1) key1 else key1, tmp1)))"

text \<open>The maximal ranges of neighbouring tuples that agree on the bytes that were sorted.\<close>

record TieRange =
  startingTupleIdx :: nat
  endingTupleIdx :: nat

definition getNumTuples :: "TieRange \<Rightarrow> nat" where
  "getNumTuples t = (endingTupleIdx t + 2 ^ 32 - startingTupleIdx t + 1) mod 2 ^ 32"

text \<open>The inner loop: the first tuple after \<open>i\<close> that differs from tuple \<open>i\<close>.\<close>

function tieEnd :: "u8 list \<Rightarrow> nat \<Rightarrow> nat \<Rightarrow> nat \<Rightarrow> nat \<Rightarrow> nat \<Rightarrow> nat \<Rightarrow> nat" where
  "tieEnd key p w n numBytesToSort i j =
     (if j < n \<and> memcmp (readBytes (p + i * w) numBytesToSort key) (readBytes (p + j * w) numBytesToSort key) = 0
      then tieEnd key p w n numBytesToSort i (j + 1) else j)"
  by pat_completeness auto
termination by (relation "measure (\<lambda>(key, p, w, n, b, i, j). n - j)") auto

declare tieEnd.simps [simp del]

lemma tieEnd_ge: "j \<le> tieEnd key p w n b i j"
proof (induction key p w n b i j rule: tieEnd.induct)
  case (1 key p w n b i j)
  then show ?case by (subst tieEnd.simps) auto
qed

function findTiesLoop :: "u8 list \<Rightarrow> nat \<Rightarrow> nat \<Rightarrow> nat \<Rightarrow> nat \<Rightarrow> nat \<Rightarrow> nat \<Rightarrow> TieRange list" where
  "findTiesLoop key p w n numBytesToSort baseTupleIdx i =
     (if i + 1 < n
      then let j = tieEnd key p w n numBytesToSort i (i + 1) - 1
           in (if i \<noteq> j then [\<lparr>startingTupleIdx = i + baseTupleIdx, endingTupleIdx = j + baseTupleIdx\<rparr>] else []) @
              findTiesLoop key p w n numBytesToSort baseTupleIdx (j + 1)
      else [])"
  by pat_completeness auto
termination
proof (relation "measure (\<lambda>(key, p, w, n, b, base, i). n - i)")
  fix key p w n numBytesToSort i x
  assume "i + 1 < n" and x: "x = tieEnd key p w n numBytesToSort i (i + 1) - (1 :: nat)"
  then show "((key, p, w, n, numBytesToSort, baseTupleIdx, x + 1), key, p, w, n, numBytesToSort, baseTupleIdx, i)
    \<in> measure (\<lambda>(key, p, w, n, b, base, i). n - i)" for baseTupleIdx :: nat
    using tieEnd_ge[of "i + 1" key p w n numBytesToSort i] by simp
qed simp

declare findTiesLoop.simps [simp del]

definition findTies :: "u8 list \<Rightarrow> nat \<Rightarrow> nat \<Rightarrow> nat \<Rightarrow> nat \<Rightarrow> nat \<Rightarrow> TieRange list" where
  "findTies key keyBlockPtr w numTuplesToFindTies numBytesToSort baseTupleIdx =
     findTiesLoop key keyBlockPtr w numTuplesToFindTies numBytesToSort baseTupleIdx 0"

section \<open>Ties of string columns\<close>

text \<open>
  The key columns whose encoding does not determine the value.  The model has the STRING columns; UNSTRUCTURED columns,
  whose values carry their own types and whose comparison can throw, are left out.
\<close>

record KeyColInfo =
  colOffsetInFT :: nat
  colOffsetInEncodedKeyBlock :: nat
  isAscOrder :: bool

text \<open>The last eight bytes of a tuple say where it is in the factorized table (on a little-endian machine).\<close>

definition getEncodedFTBlockIdx :: "u8 list \<Rightarrow> nat" where
  "getEncodedFTBlockIdx tupleInfo = bytesVal (rev (take 4 tupleInfo))"

definition getEncodedFTBlockOffset :: "u8 list \<Rightarrow> nat" where
  "getEncodedFTBlockOffset tupleInfo = bytesVal (rev (take 4 (drop 4 tupleInfo))) mod 2 ^ 24"

definition getEncodedFTIdx :: "u8 list \<Rightarrow> nat" where
  "getEncodedFTIdx tupleInfo = unat (tupleInfo ! 7)"

text \<open>What \<open>factorizedTable.getData<gf_string_t>\<close> reads: the table is given by its strings.\<close>

type_synonym ft_strings = "nat \<Rightarrow> nat \<Rightarrow> nat \<Rightarrow> u8 list"

definition stringOf :: "ft_strings \<Rightarrow> KeyColInfo \<Rightarrow> nat \<Rightarrow> u8 list \<Rightarrow> u8 list" where
  "stringOf ft info numBytesToRadixSort t =
     (let tupleInfo = drop numBytesToRadixSort t
      in ft (getEncodedFTBlockIdx tupleInfo) (getEncodedFTBlockOffset tupleInfo) (colOffsetInFT info))"

text \<open>The comparison function given to \<open>std::sort\<close>; its arguments are the bytes of the two tuples.\<close>

definition tieLess :: "ft_strings \<Rightarrow> KeyColInfo \<Rightarrow> nat \<Rightarrow> u8 list \<Rightarrow> u8 list \<Rightarrow> bool" where
  "tieLess ft info numBytesToRadixSort left right =
     (let asc = isAscOrder info; l = drop (colOffsetInEncodedKeyBlock info) left; r = drop (colOffsetInEncodedKeyBlock info) right
      in if isNullVal r asc then asc
         else if isNullVal l asc then \<not> asc
         else if \<not> isLongStr l asc \<and> \<not> isLongStr r asc then False
         else if isLongStr l asc \<and> \<not> isLongStr r asc then \<not> asc
         else if isLongStr r asc \<and> \<not> isLongStr l asc then asc
         else asc = gf_string_less (stringOf ft info numBytesToRadixSort left) (stringOf ft info numBytesToRadixSort right))"

text \<open>
  \<open>std::sort\<close> demands a strict weak order on the elements it sorts; with any other comparison its behaviour is
  undefined.  It is a parameter \<open>stdSort\<close> that is only called when the demand is met.
\<close>

definition strictWeakOrder :: "('a \<Rightarrow> 'a \<Rightarrow> bool) \<Rightarrow> 'a list \<Rightarrow> bool" where
  "strictWeakOrder lt xs \<longleftrightarrow>
     list_all (\<lambda>x. \<not> lt x x) xs \<and>
     list_all (\<lambda>x. list_all (\<lambda>y. list_all (\<lambda>z. (lt x y \<and> lt y z \<longrightarrow> lt x z) \<and>
       (\<not> lt x y \<and> \<not> lt y x \<and> \<not> lt y z \<and> \<not> lt z y \<longrightarrow> \<not> lt x z \<and> \<not> lt z x)) xs) xs) xs"

text \<open>The pointers to the tuples of a tie, and the tuples written back in the order of the sorted pointers.\<close>

definition fillTmpTuplePtrSortingBlock :: "nat \<Rightarrow> TieRange \<Rightarrow> nat \<Rightarrow> nat list" where
  "fillTmpTuplePtrSortingBlock w tie keyBlockPtr = map (\<lambda>i. keyBlockPtr + i * w) [0..<getNumTuples tie]"

definition reOrderKeyBlock :: "nat \<Rightarrow> u8 list \<Rightarrow> u8 list \<Rightarrow> nat list \<Rightarrow> TieRange \<Rightarrow> nat \<Rightarrow> u8 list \<times> u8 list" where
  "reOrderKeyBlock w key tmp ptrs tie keyBlockPtr =
     (let n = getNumTuples tie;
          tmp1 = foldl (\<lambda>m i. writeBytes (i * w) (readBytes (ptrs ! i) w key) m) tmp [0..<n]
      in (writeBytes keyBlockPtr (readBytes 0 (n * w) tmp1) key, tmp1))"

text \<open>
  The body of the inner loop of \<open>findStringAndUnstructuredTies\<close>: \<open>None\<close> on \<open>break\<close>, otherwise how far \<open>jTuplePtr\<close>
  advances.  On \<open>continue\<close> the source advances \<open>jTupleInfoPtr\<close>, which the next iteration recomputes, and not
  \<open>jTuplePtr\<close>.
\<close>

definition stringTieStep :: "ft_strings \<Rightarrow> KeyColInfo \<Rightarrow> nat \<Rightarrow> nat \<Rightarrow> u8 list \<Rightarrow> u8 list \<Rightarrow> nat option" where
  "stringTieStep ft info w m iT jT =
     (let asc = isAscOrder info; iC = drop (colOffsetInEncodedKeyBlock info) iT; jC = drop (colOffsetInEncodedKeyBlock info) jT
      in if isNullVal iC asc \<and> isNullVal jC asc then Some 0
         else if isNullVal iC asc \<or> isNullVal jC asc then None
         else if \<not> isLongStr iC asc \<and> \<not> isLongStr jC asc then Some 0
         else if isLongStr iC asc \<noteq> isLongStr jC asc then None
         else if \<not> gf_string_eq (stringOf ft info m iT) (stringOf ft info m jT) then None
         else Some w)"

function stringTieEnd :: "ft_strings \<Rightarrow> KeyColInfo \<Rightarrow> nat \<Rightarrow> nat \<Rightarrow> u8 list \<Rightarrow> nat \<Rightarrow> nat \<Rightarrow> nat \<Rightarrow> nat \<Rightarrow> nat \<times> nat" where
  "stringTieEnd ft info w m key endIdx iTuplePtr j jTuplePtr =
     (if endIdx < j then (j, jTuplePtr)
      else case stringTieStep ft info w m (readBytes iTuplePtr w key) (readBytes jTuplePtr w key) of
             None \<Rightarrow> (j, jTuplePtr)
           | Some d \<Rightarrow> stringTieEnd ft info w m key endIdx iTuplePtr (j + 1) (jTuplePtr + d))"
  by pat_completeness auto
termination by (relation "measure (\<lambda>(ft, info, w, m, key, e, ip, j, jp). Suc e - j)") auto

declare stringTieEnd.simps [simp del]

lemma stringTieEnd_ge: "j \<le> fst (stringTieEnd ft info w m key e ip j jp)"
proof (induction ft info w m key e ip j jp rule: stringTieEnd.induct)
  case (1 ft info w m key e ip j jp)
  then show ?case
    by (cases "stringTieStep ft info w m (readBytes ip w key) (readBytes jp w key)")
      (auto simp: stringTieEnd.simps[of ft info w m key e ip j jp])
qed

function findStringTies :: "ft_strings \<Rightarrow> KeyColInfo \<Rightarrow> nat \<Rightarrow> u8 list \<Rightarrow> nat \<Rightarrow> nat \<Rightarrow> nat \<Rightarrow> nat \<Rightarrow> TieRange list" where
  "findStringTies ft info w key endIdx i iTuplePtr m =
     (if i < endIdx
      then let (j1, jTuplePtr) = stringTieEnd ft info w m key endIdx iTuplePtr (i + 1) (iTuplePtr + w); j = j1 - 1
           in (if i \<noteq> j then [\<lparr>startingTupleIdx = i, endingTupleIdx = j\<rparr>] else []) @
              findStringTies ft info w key endIdx (j + 1) jTuplePtr m
      else [])"
  by pat_completeness auto
termination
proof (relation "measure (\<lambda>(ft, info, w, key, e, i, ip, m). e - i)", goal_cases)
  case (2 ft info w key e i ip m r j1 jp j)
  have "i + 1 \<le> fst r" unfolding 2(2) by (rule stringTieEnd_ge)
  then have "i < j + 1" using 2(3,4) by auto
  then show ?case using 2(1) by simp
qed simp

declare findStringTies.simps [simp del]

definition solveStringAndUnstructuredTies :: "((nat \<Rightarrow> nat \<Rightarrow> bool) \<Rightarrow> nat list \<Rightarrow> nat list) \<Rightarrow> ft_strings \<Rightarrow> nat \<Rightarrow> nat \<Rightarrow>
    u8 list \<Rightarrow> u8 list \<Rightarrow> TieRange \<Rightarrow> nat \<Rightarrow> TieRange list \<Rightarrow> KeyColInfo \<Rightarrow> (u8 list \<times> u8 list \<times> TieRange list) result" where
  "solveStringAndUnstructuredTies stdSort ft w numBytesToRadixSort key tmp tie keyBlockPtr ties info =
     (let ptrs = fillTmpTuplePtrSortingBlock w tie keyBlockPtr;
          lt = (\<lambda>p q. tieLess ft info numBytesToRadixSort (readBytes p w key) (readBytes q w key))
      in if \<not> strictWeakOrder lt ptrs then Inl (UndefinedBehaviour ''std::sort without a strict weak order'')
         else let (key1, tmp1) = reOrderKeyBlock w key tmp (stdSort lt ptrs) tie keyBlockPtr
              in Inr (key1, tmp1, ties @
                   findStringTies ft info w key1 (endingTupleIdx tie) (startingTupleIdx tie) keyBlockPtr numBytesToRadixSort))"

section \<open>Sorting a block\<close>

text \<open>The new ties of one old tie, each solved in turn.\<close>

fun solveTies :: "((nat \<Rightarrow> nat \<Rightarrow> bool) \<Rightarrow> nat list \<Rightarrow> nat list) \<Rightarrow> ft_strings \<Rightarrow> nat \<Rightarrow> nat \<Rightarrow> KeyColInfo \<Rightarrow>
    TieRange list \<Rightarrow> u8 list \<Rightarrow> u8 list \<Rightarrow> TieRange list \<Rightarrow> (u8 list \<times> u8 list \<times> TieRange list) result" where
  "solveTies stdSort ft w m info [] key tmp ties = Inr (key, tmp, ties)"
| "solveTies stdSort ft w m info (t # ts) key tmp ties =
     bind_result (solveStringAndUnstructuredTies stdSort ft w m key tmp t (startingTupleIdx t * w) ties info)
       (\<lambda>(key1, tmp1, ties1). solveTies stdSort ft w m info ts key1 tmp1 ties1)"

text \<open>The ties of one column; the second list is what the source pushes to the end of its queue.\<close>

fun sortTies :: "((nat \<Rightarrow> nat \<Rightarrow> bool) \<Rightarrow> nat list \<Rightarrow> nat list) \<Rightarrow> ft_strings \<Rightarrow> nat \<Rightarrow> nat \<Rightarrow> KeyColInfo \<Rightarrow> nat \<Rightarrow> nat \<Rightarrow>
    TieRange list \<Rightarrow> u8 list \<Rightarrow> u8 list \<Rightarrow> TieRange list \<Rightarrow> (u8 list \<times> u8 list \<times> TieRange list) result" where
  "sortTies stdSort ft w m info numBytesSorted numBytesToSort [] key tmp ties = Inr (key, tmp, ties)"
| "sortTies stdSort ft w m info numBytesSorted numBytesToSort (t # ts) key tmp ties =
     bind_result (radixSort w key tmp (startingTupleIdx t * w) (getNumTuples t) numBytesSorted numBytesToSort) (\<lambda>(key1, tmp1).
       bind_result (solveTies stdSort ft w m info
           (findTies key1 (startingTupleIdx t * w + numBytesSorted) w (getNumTuples t) numBytesToSort (startingTupleIdx t)) key1 tmp1 ties)
         (\<lambda>(key2, tmp2, ties2). sortTies stdSort ft w m info numBytesSorted numBytesToSort ts key2 tmp2 ties2))"

fun sortStringColumns :: "((nat \<Rightarrow> nat \<Rightarrow> bool) \<Rightarrow> nat list \<Rightarrow> nat list) \<Rightarrow> ft_strings \<Rightarrow> nat \<Rightarrow> nat \<Rightarrow> KeyColInfo list \<Rightarrow> nat \<Rightarrow>
    TieRange list \<Rightarrow> u8 list \<Rightarrow> u8 list \<Rightarrow> (u8 list \<times> u8 list \<times> TieRange list \<times> nat) result" where
  "sortStringColumns stdSort ft w m [] numBytesSorted ties key tmp = Inr (key, tmp, ties, numBytesSorted)"
| "sortStringColumns stdSort ft w m (info # infos) numBytesSorted ties key tmp =
     (let numBytesToSort = colOffsetInEncodedKeyBlock info - numBytesSorted + getEncodingSize STRING
      in bind_result (sortTies stdSort ft w m info numBytesSorted numBytesToSort ties key tmp []) (\<lambda>(key1, tmp1, ties1).
           if ties1 = [] then Inr (key1, tmp1, [], numBytesSorted)
           else sortStringColumns stdSort ft w m infos (numBytesSorted + numBytesToSort) ties1 key1 tmp1))"

fun sortRemaining :: "nat \<Rightarrow> nat \<Rightarrow> nat \<Rightarrow> TieRange list \<Rightarrow> u8 list \<Rightarrow> u8 list \<Rightarrow> (u8 list \<times> u8 list) result" where
  "sortRemaining w numBytesSorted numBytesToSort [] key tmp = Inr (key, tmp)"
| "sortRemaining w numBytesSorted numBytesToSort (t # ts) key tmp =
     bind_result (radixSort w key tmp (startingTupleIdx t * w) (getNumTuples t) numBytesSorted numBytesToSort)
       (\<lambda>(key1, tmp1). sortRemaining w numBytesSorted numBytesToSort ts key1 tmp1)"

definition sortSingleKeyBlock :: "((nat \<Rightarrow> nat \<Rightarrow> bool) \<Rightarrow> nat list \<Rightarrow> nat list) \<Rightarrow> ft_strings \<Rightarrow> nat \<Rightarrow> KeyColInfo list \<Rightarrow>
    u8 list \<Rightarrow> u8 list \<Rightarrow> nat \<Rightarrow> (u8 list \<times> u8 list) result" where
  "sortSingleKeyBlock stdSort ft w infos key tmp numTuples =
     (let numBytesToRadixSort = w - 8
      in bind_result (sortStringColumns stdSort ft w numBytesToRadixSort infos 0
             [\<lparr>startingTupleIdx = 0, endingTupleIdx = (numTuples + 2 ^ 32 - 1) mod 2 ^ 32\<rparr>] key tmp)
           (\<lambda>(key1, tmp1, ties, numBytesSorted).
              if numBytesSorted < w
              then sortRemaining w numBytesSorted (numBytesToRadixSort - numBytesSorted) ties key1 tmp1
              else Inr (key1, tmp1)))"

section \<open>Tuples in memory\<close>

definition tuplesAt :: "u8 list \<Rightarrow> nat \<Rightarrow> nat \<Rightarrow> nat \<Rightarrow> u8 list list" where
  "tuplesAt mem base w n = map (\<lambda>i. readBytes (base + i * w) w mem) [0..<n]"

lemma tuplesAt_length [simp]: "length (tuplesAt mem base w n) = n"
  by (simp add: tuplesAt_def)

lemma tuplesAt_nth: "i < n \<Longrightarrow> tuplesAt mem base w n ! i = readBytes (base + i * w) w mem"
  by (simp add: tuplesAt_def)

lemma tuplesAt_Suc: "tuplesAt mem base w (Suc n) = tuplesAt mem base w n @ [readBytes (base + n * w) w mem]"
  by (simp add: tuplesAt_def)

lemma readBytes_nth: "j < n \<Longrightarrow> p + n \<le> length mem \<Longrightarrow> readBytes p n mem ! j = mem ! (p + j)"
  by (simp add: readBytes_def)

lemma readBytes_length: "p + n \<le> length mem \<Longrightarrow> length (readBytes p n mem) = n"
  by (simp add: readBytes_def)

lemma writeBytes_length: "p + length bs \<le> length mem \<Longrightarrow> length (writeBytes p bs mem) = length mem"
  by (simp add: writeBytes_def)

lemma writeBytes_nth:
  "p + length bs \<le> length mem \<Longrightarrow> j < length mem \<Longrightarrow>
     writeBytes p bs mem ! j = (if p \<le> j \<and> j < p + length bs then bs ! (j - p) else mem ! j)"
  by (auto simp: writeBytes_def nth_append)

lemma window_bound: "i < n \<Longrightarrow> (i :: nat) * w + w \<le> n * w"
  using mult_le_mono1[of "i + 1" n w] by simp

lemma windows_apart: "i < k \<Longrightarrow> (i :: nat) * w + w \<le> k * w"
  by (rule window_bound)

lemma tuplesAt_write:
  assumes "i < n" "length t = w" "base + n * w \<le> length mem"
  shows "tuplesAt (writeBytes (base + i * w) t mem) base w n = (tuplesAt mem base w n)[i := t]"
proof (rule nth_equalityI)
  let ?m = "writeBytes (base + i * w) t mem"
  have le: "base + i * w + length t \<le> length mem" using assms window_bound[OF assms(1), of w] by simp
  fix k assume "k < length (tuplesAt ?m base w n)"
  then have k: "k < n" by simp
  have kl: "base + k * w + w \<le> length mem" using assms(3) window_bound[OF k, of w] by simp
  have "readBytes (base + k * w) w ?m = (if k = i then t else readBytes (base + k * w) w mem)"
  proof (rule nth_equalityI)
    show "length (readBytes (base + k * w) w ?m) = length (if k = i then t else readBytes (base + k * w) w mem)"
      using kl assms(2) by (simp add: readBytes_length writeBytes_length[OF le])
    fix j assume "j < length (readBytes (base + k * w) w ?m)"
    then have j: "j < w" by (simp add: readBytes_def)
    have "readBytes (base + k * w) w ?m ! j = ?m ! (base + k * w + j)"
      using j kl by (intro readBytes_nth) (simp_all add: writeBytes_length[OF le])
    also have "\<dots> = (if k = i then t else readBytes (base + k * w) w mem) ! j"
      using j kl le assms(2) windows_apart[of i k w] windows_apart[of k i w]
      by (cases k i rule: linorder_cases) (auto simp: writeBytes_nth readBytes_nth)
    finally show "readBytes (base + k * w) w ?m ! j = (if k = i then t else readBytes (base + k * w) w mem) ! j" .
  qed
  then show "tuplesAt ?m base w n ! k = (tuplesAt mem base w n)[i := t] ! k"
    using k assms(1) by (simp add: tuplesAt_nth)
qed simp

section \<open>One round sorts by one byte\<close>

definition byteKey :: "nat \<Rightarrow> u8 list \<Rightarrow> nat" where
  "byteKey off t = unat (t ! off)"

lemma byteKey_bound: "byteKey off t < 256"
  using unsigned_less[of "t ! off"] by (simp add: byteKey_def)

lemma tuplesAt_byte:
  assumes "base + n * w \<le> length mem" "off < w" "j < n"
  shows "unat (mem ! (base + off + j * w)) = byteKey off (tuplesAt mem base w n ! j)"
  using assms window_bound[OF assms(3), of w] by (simp add: byteKey_def tuplesAt_nth readBytes_nth add.commute add.left_commute add.assoc)

lemma tuplesAt_map: "tuplesAt mem base w n = map (\<lambda>j. tuplesAt mem base w n ! j) [0..<n]"
  by (metis map_nth tuplesAt_length)

lemma countBytes_tuples:
  assumes "base + n * w \<le> length mem" "off < w"
  shows "length (countBytes mem (base + off) w n) = 256"
    and "b < 256 \<Longrightarrow>
      countBytes mem (base + off) w n ! b = length (filter (\<lambda>t. byteKey off t = b) (tuplesAt mem base w n))"
proof -
  let ?ts = "tuplesAt mem base w n" and ?g = "\<lambda>j. byteKey off (tuplesAt mem base w n ! j)"
  have eq: "countBytes mem (base + off) w n = foldl (\<lambda>c j. c[?g j := c ! ?g j + 1]) (replicate 256 0) [0..<n]"
    unfolding countBytes_def Let_def by (rule foldl_cong) (use tuplesAt_byte[OF assms] in simp_all)
  show "length (countBytes mem (base + off) w n) = 256" by (simp add: eq)
  assume b: "b < 256"
  have "length (filter (\<lambda>j. ?g j = b) [0..<n]) = length (filter (\<lambda>t. byteKey off t = b) ?ts)"
    by (subst (2) tuplesAt_map) (simp add: filter_map comp_def)
  then show "countBytes mem (base + off) w n ! b = length (filter (\<lambda>t. byteKey off t = b) ?ts)"
    using counts_nth[of "[0..<n]" ?g 256 "replicate 256 0" b] b by (simp add: eq byteKey_bound)
qed

lemma sumCounts_running: "sumCounts cs = runningSums 256 cs"
  by (simp add: sumCounts_def runningSums_def)

lemma sumCounts_tuples:
  assumes "base + n * w \<le> length mem" "off < w"
    and s: "sumCounts (countBytes mem (base + off) w n) = (c, m)"
  shows "length c = 256" "b < 256 \<Longrightarrow> c ! b = startOf (byteKey off) (tuplesAt mem base w n) (Suc b)"
    and "m = n \<Longrightarrow> sort_key (byteKey off) (tuplesAt mem base w n) = tuplesAt mem base w n"
proof -
  let ?cs = "countBytes mem (base + off) w n" and ?ts = "tuplesAt mem base w n"
  note cb = countBytes_tuples[OF assms(1,2)]
  note rs = runningSums_prefix[of 256 ?cs, folded sumCounts_running, unfolded s cb(1), simplified]
  show "length c = 256" using rs cb(1) by simp
  show "c ! b = startOf (byteKey off) ?ts (Suc b)" if "b < 256"
    using rs that sum_counts[of ?cs "byteKey off" ?ts "Suc b"] cb by simp
  assume "m = n"
  then obtain b where "b < 256" "?cs ! b = n" using rs cb(1) by (auto simp: in_set_conv_nth)
  then show "sort_key (byteKey off) ?ts = ?ts"
    using cb(2)[of b] by (intro one_bucket_sorted[of _ b]) simp
qed

text \<open>Nothing outside of a region changes.\<close>

definition sameOutside :: "nat \<Rightarrow> nat \<Rightarrow> u8 list \<Rightarrow> u8 list \<Rightarrow> bool" where
  "sameOutside p q mem mem1 \<longleftrightarrow> length mem1 = length mem \<and> (\<forall>j < length mem. j < p \<or> q \<le> j \<longrightarrow> mem1 ! j = mem ! j)"

lemma sameOutside_refl [simp]: "sameOutside p q mem mem"
  by (simp add: sameOutside_def)

lemma sameOutside_trans: "sameOutside p q a b \<Longrightarrow> sameOutside p q b c \<Longrightarrow> sameOutside p q a c"
  by (simp add: sameOutside_def)

lemma sameOutside_write:
  "p \<le> a \<Longrightarrow> a + length bs \<le> q \<Longrightarrow> q \<le> length mem \<Longrightarrow> sameOutside p q mem (writeBytes a bs mem)"
  by (auto simp: sameOutside_def writeBytes_length writeBytes_nth)

lemma reorder_loop:
  assumes "sourcePtr + n * w \<le> length src" "off < w" "targetPtr + n * w \<le> length d"
    and "set js \<subseteq> {..<n}" "\<forall>b < 256. c ! b \<le> n" "length c = 256"
  defines "step \<equiv> \<lambda>(c, d) i.
        let p = sourcePtr + i * w; b = unat (src ! (p + off)); t = c ! b - 1
        in (c[b := t], writeBytes (targetPtr + t * w) (readBytes p w src) d)"
  shows "\<exists>c' d'. foldl step (c, d) js = (c', d') \<and> sameOutside targetPtr (targetPtr + n * w) d d' \<and>
    foldl (\<lambda>s x. placeTuple (byteKey off) x s) (c, tuplesAt d targetPtr w n) (map (\<lambda>i. tuplesAt src sourcePtr w n ! i) js) =
      (c', tuplesAt d' targetPtr w n)"
  using assms(3-6)
proof (induction js arbitrary: c d)
  case (Cons i js)
  let ?x = "tuplesAt src sourcePtr w n ! i"
  define t where "t = c ! byteKey off ?x - 1"
  define d1 where "d1 = writeBytes (targetPtr + t * w) ?x d"
  have i: "i < n" using Cons.prems by simp
  have x: "readBytes (sourcePtr + i * w) w src = ?x" "unat (src ! (sourcePtr + i * w + off)) = byteKey off ?x" "length ?x = w"
    using i tuplesAt_byte[OF assms(1,2) i] window_bound[OF i, of w] assms(1)
    by (simp_all add: tuplesAt_nth ac_simps readBytes_length)
  have "c ! byteKey off ?x \<le> n" using Cons.prems(3) byteKey_bound by blast
  then have t: "t < n" using i by (simp add: t_def)
  have so: "sameOutside targetPtr (targetPtr + n * w) d d1"
    unfolding d1_def using window_bound[OF t, of w] Cons.prems(1) x(3) by (intro sameOutside_write) simp_all
  have d1: "tuplesAt d1 targetPtr w n = (tuplesAt d targetPtr w n)[t := ?x]" "length d1 = length d"
    unfolding d1_def using tuplesAt_write[OF t x(3) Cons.prems(1)] so by (simp_all add: sameOutside_def d1_def)
  have b: "\<forall>b < 256. c[byteKey off ?x := t] ! b \<le> n" using Cons.prems(3,4) t by (simp add: nth_list_update byteKey_bound)
  have st: "step (c, d) i = (c[byteKey off ?x := t], d1)"
    by (simp add: step_def x Let_def t_def d1_def)
  show ?case
    using Cons.IH[of d1 "c[byteKey off ?x := t]"] Cons.prems b d1 so st
    by (auto simp: placeTuple_def Let_def t_def intro: sameOutside_trans)
qed simp

lemma reorder_sorts:
  assumes b: "sourcePtr + n * w \<le> length src" "off < w" "targetPtr + n * w \<le> length dst"
    and s: "sumCounts (countBytes src (sourcePtr + off) w n) = (c, m)"
    and r: "dst1 = snd (reorder src sourcePtr w n off c dst targetPtr)"
  shows "tuplesAt dst1 targetPtr w n = sort_key (byteKey off) (tuplesAt src sourcePtr w n)"
    and "sameOutside targetPtr (targetPtr + n * w) dst dst1"
proof -
  let ?ts = "tuplesAt src sourcePtr w n"
  let ?step = "\<lambda>(c, d) i. let p = sourcePtr + i * w; b = unat (src ! (p + off)); t = c ! b - 1
        in (c[b := t], writeBytes (targetPtr + t * w) (readBytes p w src) d)"
  note c = sumCounts_tuples[OF b(1,2) s]
  have cn: "\<forall>b < 256. c ! b \<le> n" using c(2) by (simp add: startOf_def) (metis length_filter_le tuplesAt_length)
  have rv: "rev [0..<n] = map (\<lambda>j. n - 1 - j) [0..<n]"
    by (rule nth_equalityI) (simp_all add: rev_nth)
  have "reorder src sourcePtr w n off c dst targetPtr = foldl ?step (c, dst) (rev [0..<n])"
    by (simp add: rv reorder_def foldl_map case_prod_unfold)
  moreover obtain c' d' where "foldl ?step (c, dst) (rev [0..<n]) = (c', d')"
    "sameOutside targetPtr (targetPtr + n * w) dst d'"
    "foldl (\<lambda>s x. placeTuple (byteKey off) x s) (c, tuplesAt dst targetPtr w n) (map (\<lambda>i. ?ts ! i) (rev [0..<n])) =
      (c', tuplesAt d' targetPtr w n)"
    using reorder_loop[OF b, of "rev [0..<n]" c] cn c(1) by (auto simp: lessThan_atLeast0)
  moreover have "map (\<lambda>i. ?ts ! i) (rev [0..<n]) = rev ?ts"
    by (simp add: rev_map[symmetric] tuplesAt_map[symmetric])
  ultimately have d': "dst1 = d'" "sameOutside targetPtr (targetPtr + n * w) dst d'"
    "snd (foldl (\<lambda>s x. placeTuple (byteKey off) x s) (c, tuplesAt dst targetPtr w n) (rev ?ts)) = tuplesAt d' targetPtr w n"
    using r by simp_all
  then show "sameOutside targetPtr (targetPtr + n * w) dst dst1" by simp
  show "tuplesAt dst1 targetPtr w n = sort_key (byteKey off) ?ts"
    using d' place_sorts[of ?ts "byteKey off" 256 c "tuplesAt dst targetPtr w n"] c(1,2) by (simp add: byteKey_bound)
qed

lemma radixPass_sorts:
  assumes b: "sourcePtr + n * w \<le> length src" "off < w" "targetPtr + n * w \<le> length dst"
  shows "\<exists>moved dst1. radixPass w n off src sourcePtr dst targetPtr = Inr (moved, dst1) \<and>
    sameOutside targetPtr (targetPtr + n * w) dst dst1 \<and>
    (if moved then tuplesAt dst1 targetPtr w n else tuplesAt src sourcePtr w n) =
      sort_key (byteKey off) (tuplesAt src sourcePtr w n)"
proof -
  obtain c m where s: "sumCounts (countBytes src (sourcePtr + off) w n) = (c, m)" by fastforce
  have "sourcePtr + off + (n - 1) * w < length src" if "0 < n"
    using window_bound[of "n - 1" n w] that b(1,2) by simp
  then have "\<not> (0 < n \<and> length src \<le> sourcePtr + off + (n - 1) * w)" by auto
  then have "radixPass w n off src sourcePtr dst targetPtr =
      Inr (m \<noteq> n, if m = n then dst else snd (reorder src sourcePtr w n off c dst targetPtr))"
    using b by (simp add: radixPass_def s Let_def)
  then show ?thesis using sumCounts_tuples(3)[OF b(1,2) s] reorder_sorts[OF b s refl] by simp
qed

section \<open>The rounds together\<close>

lemma radixLoop_sorts:
  assumes "keyPtr + n * w \<le> length key" "tmpPtr + n * w \<le> length tmp" "\<forall>off \<in> set offs. off < w"
  shows "\<exists>key1 tmp1 inTmp1. radixLoop offs w n keyPtr tmpPtr key tmp inTmp = Inr (key1, tmp1, inTmp1) \<and>
    sameOutside keyPtr (keyPtr + n * w) key key1 \<and> length tmp1 = length tmp \<and>
    (if inTmp1 then tuplesAt tmp1 tmpPtr w n else tuplesAt key1 keyPtr w n) =
      foldl (\<lambda>ts off. sort_key (byteKey off) ts) (if inTmp then tuplesAt tmp tmpPtr w n else tuplesAt key keyPtr w n) offs"
  using assms
proof (induction offs arbitrary: key tmp inTmp)
  case (Cons off offs)
  have off: "off < w" using Cons.prems by simp
  show ?case
  proof (cases inTmp)
    case True
    obtain moved key1 where p: "radixPass w n off tmp tmpPtr key keyPtr = Inr (moved, key1)"
      and k: "sameOutside keyPtr (keyPtr + n * w) key key1"
      and t: "(if moved then tuplesAt key1 keyPtr w n else tuplesAt tmp tmpPtr w n) = sort_key (byteKey off) (tuplesAt tmp tmpPtr w n)"
      using radixPass_sorts[OF Cons.prems(2) off Cons.prems(1)] by blast
    have "length key1 = length key" using k by (simp add: sameOutside_def)
    then obtain key2 tmp2 inTmp2 where r: "radixLoop offs w n keyPtr tmpPtr key1 tmp (\<not> moved) = Inr (key2, tmp2, inTmp2)"
      "sameOutside keyPtr (keyPtr + n * w) key1 key2" "length tmp2 = length tmp"
      "(if inTmp2 then tuplesAt tmp2 tmpPtr w n else tuplesAt key2 keyPtr w n) =
         foldl (\<lambda>ts off. sort_key (byteKey off) ts) (sort_key (byteKey off) (tuplesAt tmp tmpPtr w n)) offs"
      using Cons.IH[of key1 tmp "\<not> moved"] Cons.prems t[symmetric] by auto
    then show ?thesis using True sameOutside_trans[OF k r(2)] by (simp add: p)
  next
    case False
    obtain moved tmp1 where p: "radixPass w n off key keyPtr tmp tmpPtr = Inr (moved, tmp1)"
      and k: "sameOutside tmpPtr (tmpPtr + n * w) tmp tmp1"
      and t: "(if moved then tuplesAt tmp1 tmpPtr w n else tuplesAt key keyPtr w n) = sort_key (byteKey off) (tuplesAt key keyPtr w n)"
      using radixPass_sorts[OF Cons.prems(1) off Cons.prems(2)] by blast
    have "length tmp1 = length tmp" using k by (simp add: sameOutside_def)
    then obtain key2 tmp2 inTmp2 where r: "radixLoop offs w n keyPtr tmpPtr key tmp1 moved = Inr (key2, tmp2, inTmp2)"
      "sameOutside keyPtr (keyPtr + n * w) key key2" "length tmp2 = length tmp"
      "(if inTmp2 then tuplesAt tmp2 tmpPtr w n else tuplesAt key2 keyPtr w n) =
         foldl (\<lambda>ts off. sort_key (byteKey off) ts) (sort_key (byteKey off) (tuplesAt key keyPtr w n)) offs"
      using Cons.IH[of key tmp1 moved] Cons.prems t[symmetric] by auto
    then show ?thesis using False by (simp add: p)
  qed
qed simp

lemma bytesVal_drop:
  assumes "i < m" "m \<le> length t"
  shows "bytesVal (take (m - i) (drop i t)) = byteKey i t * 256 ^ (m - Suc i) + bytesVal (take (m - Suc i) (drop (Suc i) t))"
proof -
  have "drop i t = t ! i # drop (Suc i) t" using assms by (simp add: Cons_nth_drop_Suc)
  moreover have "m - i = Suc (m - Suc i)" using assms by simp
  ultimately show ?thesis using assms by (auto simp: byteKey_def min_def)
qed

lemma byte_rounds:
  assumes "\<forall>t \<in> set ts. m \<le> length t" "k \<le> m"
  shows "foldl (\<lambda>ts off. sort_key (byteKey off) ts) ts (rev [m - k..<m]) =
    sort_key (\<lambda>t. bytesVal (take k (drop (m - k) t))) ts"
  using assms(2)
proof (induction k)
  case 0
  then show ?case by (simp add: sort_key_const)
next
  case (Suc k)
  let ?i = "m - Suc k"
  have i: "[?i..<m] = ?i # [m - k..<m]" "m - Suc ?i = k" "m - ?i = Suc k" "Suc ?i = m - k"
    using Suc.prems by (simp_all add: upt_conv_Cons Suc_diff_Suc)
  have "sort_key (byteKey ?i) (sort_key (\<lambda>t. bytesVal (take k (drop (m - k) t))) ts) =
    sort_key (\<lambda>t. byteKey ?i t * 256 ^ k + bytesVal (take k (drop (m - k) t))) ts"
  proof (rule sort_key_twice)
    fix t assume "t \<in> set ts"
    then have "length (take k (drop (m - k) t)) = k" using assms(1) Suc.prems by force
    then show "bytesVal (take k (drop (m - k) t)) < 256 ^ k" using bytesVal_bound[of "take k (drop (m - k) t)"] by simp
  qed
  also have "\<dots> = sort_key (\<lambda>t. bytesVal (take (Suc k) (drop ?i t))) ts"
    using assms(1) bytesVal_drop[of ?i m] Suc.prems i by (intro sort_key_cong_set) simp
  finally show ?case using Suc i by simp
qed

lemma tuplesAt_tuple_length:
  assumes "base + n * w \<le> length mem" "t \<in> set (tuplesAt mem base w n)"
  shows "length t = w"
proof -
  obtain i where i: "i < n" "t = readBytes (base + i * w) w mem" using assms(2) by (auto simp: tuplesAt_def)
  then show ?thesis using assms(1) window_bound[OF i(1), of w] by (simp add: readBytes_length)
qed

lemma tuplesAt_copy:
  assumes "keyPtr + n * w \<le> length key" "tmpPtr + n * w \<le> length tmp"
  shows "tuplesAt (writeBytes keyPtr (readBytes tmpPtr (n * w) tmp) key) keyPtr w n = tuplesAt tmp tmpPtr w n"
proof (rule nth_equalityI)
  fix k assume "k < length (tuplesAt (writeBytes keyPtr (readBytes tmpPtr (n * w) tmp) key) keyPtr w n)"
  then have k: "k < n" by simp
  let ?bs = "readBytes tmpPtr (n * w) tmp"
  have kw: "k * w + w \<le> n * w" by (rule window_bound[OF k])
  have len: "length ?bs = n * w" using assms(2) by (rule readBytes_length)
  have "readBytes (keyPtr + k * w) w (writeBytes keyPtr ?bs key) = readBytes (tmpPtr + k * w) w tmp"
  proof (rule nth_equalityI)
    show "length (readBytes (keyPtr + k * w) w (writeBytes keyPtr ?bs key)) = length (readBytes (tmpPtr + k * w) w tmp)"
      using assms kw len by (simp add: readBytes_length writeBytes_length)
    fix j assume "j < length (readBytes (keyPtr + k * w) w (writeBytes keyPtr ?bs key))"
    then have "j < w" by (simp add: readBytes_def)
    then show "readBytes (keyPtr + k * w) w (writeBytes keyPtr ?bs key) ! j = readBytes (tmpPtr + k * w) w tmp ! j"
      using assms kw len by (simp add: readBytes_nth writeBytes_length writeBytes_nth add.assoc)
  qed
  then show "tuplesAt (writeBytes keyPtr ?bs key) keyPtr w n ! k = tuplesAt tmp tmpPtr w n ! k"
    using k by (simp add: tuplesAt_nth)
qed simp

lemma radixSort_windows:
  assumes b: "keyBlockPtr + numBytesSorted + n * w \<le> length key" "numBytesSorted + n * w \<le> length tmp" "numBytesToSort \<le> w"
  shows "\<exists>key1 tmp1. radixSort w key tmp keyBlockPtr n numBytesSorted numBytesToSort = Inr (key1, tmp1) \<and>
    tuplesAt key1 (keyBlockPtr + numBytesSorted) w n =
      sort_key (\<lambda>t. bytesVal (take numBytesToSort t)) (tuplesAt key (keyBlockPtr + numBytesSorted) w n) \<and>
    sameOutside (keyBlockPtr + numBytesSorted) (keyBlockPtr + numBytesSorted + n * w) key key1 \<and> length tmp1 = length tmp"
proof -
  let ?kp = "keyBlockPtr + numBytesSorted" and ?tp = numBytesSorted
  obtain key1 tmp1 inTmp where l: "radixLoop (rev [0..<numBytesToSort]) w n ?kp ?tp key tmp False = Inr (key1, tmp1, inTmp)"
    and so: "sameOutside ?kp (?kp + n * w) key key1" and lt: "length tmp1 = length tmp"
    and ts: "(if inTmp then tuplesAt tmp1 ?tp w n else tuplesAt key1 ?kp w n) =
      foldl (\<lambda>ts off. sort_key (byteKey off) ts) (tuplesAt key ?kp w n) (rev [0..<numBytesToSort])"
    using radixLoop_sorts[OF b(1,2), of "rev [0..<numBytesToSort]" False] b(3) by auto
  have lk: "length key1 = length key" using so by (simp add: sameOutside_def)
  have "foldl (\<lambda>ts off. sort_key (byteKey off) ts) (tuplesAt key ?kp w n) (rev [0..<numBytesToSort]) =
    sort_key (\<lambda>t. bytesVal (take numBytesToSort t)) (tuplesAt key ?kp w n)"
    using byte_rounds[of "tuplesAt key ?kp w n" numBytesToSort numBytesToSort] tuplesAt_tuple_length[OF b(1)] b(3) by simp
  moreover have "sameOutside ?kp (?kp + n * w) key (writeBytes ?kp (readBytes ?tp (n * w) tmp1) key1)"
    using b lt lk by (intro sameOutside_trans[OF so] sameOutside_write) (simp_all add: readBytes_length)
  ultimately show ?thesis
    using l so lt ts tuplesAt_copy[of ?kp n w key1 ?tp tmp1] b lk by (auto simp: radixSort_def Let_def)
qed

section \<open>A block without string columns\<close>

text \<open>An instance of \<open>stdSort\<close>.\<close>

definition insertionSort :: "('a \<Rightarrow> 'a \<Rightarrow> bool) \<Rightarrow> 'a list \<Rightarrow> 'a list" where
  "insertionSort lt xs = foldr (\<lambda>x ys. takeWhile (\<lambda>y. lt y x) ys @ x # dropWhile (\<lambda>y. lt y x) ys) xs []"

lemma getNumTuples_whole: "0 < n \<Longrightarrow> n < 2 ^ 32 \<Longrightarrow>
  getNumTuples \<lparr>startingTupleIdx = 0, endingTupleIdx = (n + 2 ^ 32 - 1) mod 2 ^ 32\<rparr> = n"
proof -
  assume n: "0 < n" "n < 2 ^ 32"
  have "(n + 2 ^ 32 - 1) mod 2 ^ 32 = n - 1"
    using n mod_add_self2[of "n - 1" "2 ^ 32"] by (simp add: mod_less)
  then show ?thesis using n by (simp add: getNumTuples_def)
qed

lemma sortSingleKeyBlock_sorts:
  assumes "0 < n" "n < 2 ^ 32" "n * w \<le> length key" "n * w \<le> length tmp" "8 \<le> w"
  shows "\<exists>key1 tmp1. sortSingleKeyBlock stdSort ft w [] key tmp n = Inr (key1, tmp1) \<and>
    tuplesAt key1 0 w n = sort_key (\<lambda>t. bytesVal (take (w - 8) t)) (tuplesAt key 0 w n) \<and> sameOutside 0 (n * w) key key1"
proof -
  obtain key1 tmp1 where "radixSort w key tmp 0 n 0 (w - 8) = Inr (key1, tmp1)"
    "tuplesAt key1 0 w n = sort_key (\<lambda>t. bytesVal (take (w - 8) t)) (tuplesAt key 0 w n)" "sameOutside 0 (n * w) key key1"
    using radixSort_windows[of 0 0 n w key tmp "w - 8"] assms by auto
  then show ?thesis
    using getNumTuples_whole[OF assms(1,2)] assms(5) by (simp add: sortSingleKeyBlock_def)
qed

text \<open>The encoded tuple: the key columns and eight bytes of tuple information.\<close>

definition encodedTuple :: "bool \<Rightarrow> (DataTypeID \<times> bool) list \<Rightarrow> key_value option list \<times> u8 list \<Rightarrow> u8 list" where
  "encodedTuple le cols = (\<lambda>(row, info). encodeColumns le cols row @ info)"

definition rowOk :: "(DataTypeID \<times> bool) list \<Rightarrow> key_value option list \<Rightarrow> bool" where
  "rowOk cols row \<longleftrightarrow> length row = length cols \<and> list_all2 (\<lambda>c x. colOk (fst c) x) cols row"

definition tupleWidth :: "(DataTypeID \<times> bool) list \<Rightarrow> nat" where
  "tupleWidth cols = sum_list (map (\<lambda>c. getEncodingSize (fst c)) cols) + 8"

lemma encodeColumns_length:
  "list_all2 (\<lambda>c x. colOk (fst c) x) cols row \<Longrightarrow>
     length (encodeColumns le cols row) = sum_list (map (\<lambda>c. getEncodingSize (fst c)) cols)"
  by (induction cols row rule: list_all2_induct)
    (auto simp: encodeColumns_def encodeColumn_def flipBytesIfNecessary_def encodeNullOrValue_length)

text \<open>
  C23: sorting a block of encoded tuples without STRING and UNSTRUCTURED columns succeeds, and the block then holds the same tuples
  in the ORDER BY order: no tuple is followed by one whose row is smaller.  The bytes after the tuples are not touched.
\<close>

theorem sorted_block_is_in_order:
  assumes "rows \<noteq> []" "length rows < 2 ^ 32" "length rows * tupleWidth cols \<le> length key"
    and "length rows * tupleWidth cols \<le> length tmp"
    and "\<forall>(row, info) \<in> set rows. rowOk cols row \<and> length info = 8"
    and "tuplesAt key 0 (tupleWidth cols) (length rows) = map (encodedTuple le cols) rows"
  shows "\<exists>key1 tmp1 rows1. sortSingleKeyBlock stdSort ft (tupleWidth cols) [] key tmp (length rows) = Inr (key1, tmp1) \<and>
    tuplesAt key1 0 (tupleWidth cols) (length rows) = map (encodedTuple le cols) rows1 \<and> mset rows1 = mset rows \<and>
    sorted_wrt (\<lambda>r r1. \<not> tupleLess cols (fst r1) (fst r)) rows1 \<and>
    drop (length rows * tupleWidth cols) key1 = drop (length rows * tupleWidth cols) key"
proof -
  let ?w = "tupleWidth cols" and ?n = "length rows"
  let ?f = "(\<lambda>t. bytesVal (take (?w - 8) t)) \<circ> encodedTuple le cols"
  define rows1 where "rows1 = sort_key ?f rows"
  have "8 \<le> ?w" by (simp add: tupleWidth_def)
  then obtain key1 tmp1 where r: "sortSingleKeyBlock stdSort ft ?w [] key tmp ?n = Inr (key1, tmp1)"
    "tuplesAt key1 0 ?w ?n = map (encodedTuple le cols) rows1" and so: "sameOutside 0 (?n * ?w) key key1"
    using sortSingleKeyBlock_sorts[of ?n ?w key tmp stdSort ft] assms by (auto simp: sort_key_map rows1_def)
  have f: "?f (row, info) = bytesVal (encodeColumns le cols row)" if "rowOk cols row" for row info
    using that encodeColumns_length[of cols row le] by (simp add: encodedTuple_def rowOk_def tupleWidth_def)
  have "sorted_wrt (\<lambda>r r1. ?f r \<le> ?f r1) rows1"
    using sorted_sort_key[of ?f rows] unfolding rows1_def by (simp only: sorted_map)
  then have "sorted_wrt (\<lambda>r r1. \<not> tupleLess cols (fst r1) (fst r)) rows1"
  proof (rule sorted_wrt_mono_rel[rotated])
    fix r r1 assume "r \<in> set rows1" "r1 \<in> set rows1" and le: "?f r \<le> ?f r1"
    then have ok: "rowOk cols (fst r)" "rowOk cols (fst r1)" using assms(5) by (auto simp: rows1_def)
    have len: "length (encodeColumns le cols (fst r1)) = length (encodeColumns le cols (fst r))"
      using ok by (simp add: encodeColumns_length rowOk_def)
    have "bytesVal (encodeColumns le cols (fst r)) \<le> bytesVal (encodeColumns le cols (fst r1))"
      using le f[OF ok(1), of "snd r"] f[OF ok(2), of "snd r1"] by simp
    then show "\<not> tupleLess cols (fst r1) (fst r)"
      using encodeColumns_cmp[of "fst r1" cols "fst r" le] ok memcmp_val[OF len] by (auto simp: rowOk_def split: if_splits)
  qed
  moreover have "drop (?n * ?w) key1 = drop (?n * ?w) key"
    using so by (intro nth_equalityI) (auto simp: sameOutside_def)
  ultimately show ?thesis using r by (auto simp: rows1_def)
qed

theorem sorted_block_is_in_order_witness:
  "\<exists>key1 tmp1 rows1. sortSingleKeyBlock insertionSort (\<lambda>_ _ _. []) 17 []
       (encodedTuple True [(INT64, False)] ([Some (Int64Val 3)], replicate 8 1) @ encodedTuple True [(INT64, False)] ([None], replicate 8 2))
       (replicate 34 0) 2 = Inr (key1, tmp1) \<and>
     tuplesAt key1 0 17 2 = map (encodedTuple True [(INT64, False)]) rows1 \<and>
     sorted_wrt (\<lambda>r r1. \<not> tupleLess [(INT64, False)] (fst r1) (fst r)) rows1 \<and>
     mset rows1 = {#([Some (Int64Val 3)], replicate 8 1), ([None], replicate 8 2)#}"
proof -
  let ?cols = "[(INT64, False)]" and ?rows = "[([Some (Int64Val 3)], replicate 8 1), ([None], replicate 8 2)]"
  let ?key = "encodedTuple True ?cols (?rows ! 0) @ encodedTuple True ?cols (?rows ! 1)"
  have w: "tupleWidth ?cols = 17" by (simp add: tupleWidth_def getEncodingSize_def)
  have l: "length (encodedTuple True ?cols (?rows ! 0)) = 17" "length (encodedTuple True ?cols (?rows ! 1)) = 17" by code_simp+
  then have "tuplesAt ?key 0 17 2 = map (encodedTuple True ?cols) ?rows"
    by (simp add: tuplesAt_def upt_rec readBytes_def)
  moreover have "\<forall>(row, info) \<in> set ?rows. rowOk ?cols row \<and> length info = 8"
    by (simp add: rowOk_def colOk_def)
  ultimately show ?thesis
    using sorted_block_is_in_order[of ?rows ?cols ?key "replicate 34 0" True insertionSort "\<lambda>_ _ _. []"] l unfolding w
    by (auto simp: numeral_2_eq_2[symmetric])
qed

section \<open>Exact results\<close>

lemma concat_tuplesAt: "base + n * w \<le> length mem \<Longrightarrow> concat (tuplesAt mem base w n) = readBytes base (n * w) mem"
proof (induction n)
  case (Suc n)
  have "readBytes base (n * w + w) mem = readBytes base (n * w) mem @ readBytes (base + n * w) w mem"
    by (simp add: readBytes_def take_add add.commute[of _ base])
  then show ?case using Suc by (simp add: tuplesAt_Suc add.commute)
qed (simp add: tuplesAt_def readBytes_def)

lemma sameOutside_exact:
  assumes "sameOutside base (base + n * w) mem mem1" "base + n * w \<le> length mem"
  shows "mem1 = writeBytes base (concat (tuplesAt mem1 base w n)) mem"
proof (rule nth_equalityI)
  have len: "length mem1 = length mem" using assms(1) by (simp add: sameOutside_def)
  have c: "concat (tuplesAt mem1 base w n) = readBytes base (n * w) mem1" "length (readBytes base (n * w) mem1) = n * w"
    using assms(2) len by (simp_all add: concat_tuplesAt readBytes_length)
  show l: "length mem1 = length (writeBytes base (concat (tuplesAt mem1 base w n)) mem)"
    using c assms(2) len by (simp add: writeBytes_length)
  fix j assume j: "j < length mem1"
  have w: "writeBytes base (readBytes base (n * w) mem1) mem ! j =
      (if base \<le> j \<and> j < base + n * w then readBytes base (n * w) mem1 ! (j - base) else mem ! j)"
    using c(2) assms(2) len j by (subst writeBytes_nth) simp_all
  show "mem1 ! j = writeBytes base (concat (tuplesAt mem1 base w n)) mem ! j"
    unfolding c(1) w using assms len j by (auto simp: sameOutside_def readBytes_nth not_le not_less)
qed

lemma radixSort_exact:
  assumes "keyBlockPtr + numBytesSorted + n * w \<le> length key" "numBytesSorted + n * w \<le> length tmp" "numBytesToSort \<le> w"
  shows "\<exists>tmp1. length tmp1 = length tmp \<and> radixSort w key tmp keyBlockPtr n numBytesSorted numBytesToSort =
    Inr (writeBytes (keyBlockPtr + numBytesSorted)
      (concat (sort_key (\<lambda>t. bytesVal (take numBytesToSort t)) (tuplesAt key (keyBlockPtr + numBytesSorted) w n))) key, tmp1)"
  using radixSort_windows[OF assms] sameOutside_exact[OF _ assms(1)] by metis

lemma concat_const_length: "\<forall>i < k. length (ts i) = w \<Longrightarrow> length (concat (map ts [0..<k])) = k * w"
  by (induction k) (auto simp: add.commute)

lemma writeTuples_exact:
  assumes "n * w \<le> length mem" "\<forall>i < n. length (ts i) = w"
  shows "foldl (\<lambda>m i. writeBytes (i * w) (ts i) m) mem [0..<n] = writeBytes 0 (concat (map ts [0..<n])) mem"
  using assms
proof (induction n)
  case (Suc n)
  show ?case using Suc concat_const_length[of n ts w] by (simp add: writeBytes_def add.commute)
qed (simp add: writeBytes_def)

lemma reOrderKeyBlock_exact:
  assumes "getNumTuples tie * w \<le> length tmp" "length ptrs = getNumTuples tie" "\<forall>p \<in> set ptrs. p + w \<le> length key"
  shows "\<exists>tmp1. length tmp1 = length tmp \<and> reOrderKeyBlock w key tmp ptrs tie keyBlockPtr =
    (writeBytes keyBlockPtr (concat (map (\<lambda>p. readBytes p w key) ptrs)) key, tmp1)"
proof -
  let ?n = "getNumTuples tie" and ?ts = "\<lambda>i. readBytes (ptrs ! i) w key"
  let ?bs = "concat (map ?ts [0..<?n])"
  have ts: "\<forall>i < ?n. length (?ts i) = w" using assms(2,3) by (auto simp: readBytes_length)
  have m: "map ?ts [0..<?n] = map (\<lambda>p. readBytes p w key) ptrs"
    using assms(2) by (intro nth_equalityI) auto
  have "length ?bs = ?n * w" using ts by (rule concat_const_length)
  then have "readBytes 0 (?n * w) (writeBytes 0 ?bs tmp) = ?bs" "length (writeBytes 0 ?bs tmp) = length tmp"
    using assms(1) by (simp_all add: readBytes_def writeBytes_def)
  then show ?thesis
    using writeTuples_exact[OF assms(1) ts] m by (simp add: reOrderKeyBlock_def Let_def)
qed

section \<open>Where sorting by string columns goes wrong\<close>

text \<open>Three rows of a STRING column and an INT64 column, both ascending, with their tuple informations.\<close>

definition exampleTuple :: "u8 \<Rightarrow> u64 \<Rightarrow> u8 \<Rightarrow> u8 list" where
  "exampleTuple c k i =
     encodeColumns True [(STRING, True), (INT64, True)] [Some (StringVal [c]), Some (Int64Val k)] @ [0, 0, 0, 0, i, 0, 0, 0]"

definition exampleInfo :: KeyColInfo where
  "exampleInfo = \<lparr>colOffsetInFT = 0, colOffsetInEncodedKeyBlock = 0, isAscOrder = True\<rparr>"

definition exampleBlock :: "u8 list" where
  "exampleBlock = concat [exampleTuple 97 2 0, exampleTuple 97 1 1, exampleTuple 98 0 2]"

lemma example_bytes:
  "exampleTuple 97 2 0 = [0, 97, 0, 0, 0, 0, 0, 0, 0, 0, 0, 0, 0, 0, 0, 128, 0, 0, 0, 0, 0, 0, 2, 0, 0, 0, 0, 0, 0, 0, 0]"
  "exampleTuple 97 1 1 = [0, 97, 0, 0, 0, 0, 0, 0, 0, 0, 0, 0, 0, 0, 0, 128, 0, 0, 0, 0, 0, 0, 1, 0, 0, 0, 0, 1, 0, 0, 0]"
  "exampleTuple 98 0 2 = [0, 98, 0, 0, 0, 0, 0, 0, 0, 0, 0, 0, 0, 0, 0, 128, 0, 0, 0, 0, 0, 0, 0, 0, 0, 0, 0, 2, 0, 0, 0]"
  "exampleTuple 98 2 0 = [0, 98, 0, 0, 0, 0, 0, 0, 0, 0, 0, 0, 0, 0, 0, 128, 0, 0, 0, 0, 0, 0, 2, 0, 0, 0, 0, 0, 0, 0, 0]"
  "exampleTuple 97 0 2 = [0, 97, 0, 0, 0, 0, 0, 0, 0, 0, 0, 0, 0, 0, 0, 128, 0, 0, 0, 0, 0, 0, 0, 0, 0, 0, 0, 2, 0, 0, 0]"
  by code_simp+

lemma upt23: "[0..<3] = [0, 1, 2 :: nat]" "[0..<2] = [0, 1 :: nat]"
  by (simp_all add: upt_rec)

lemmas example_simps = exampleBlock_def example_bytes upt23 tuplesAt_def readBytes_def writeBytes_def

lemma example_length: "length exampleBlock = 93"
  by (simp add: example_simps)

lemma example_first_sort:
  "writeBytes 0 (concat (sort_key (\<lambda>t. bytesVal (take 14 t)) (tuplesAt exampleBlock 0 31 3))) exampleBlock = exampleBlock"
proof -
  have "tuplesAt exampleBlock 0 31 3 = [exampleTuple 97 2 0, exampleTuple 97 1 1, exampleTuple 98 0 2]"
    by (simp add: example_simps)
  then have "sort_key (\<lambda>t. bytesVal (take 14 t)) (tuplesAt exampleBlock 0 31 3) =
      [exampleTuple 97 2 0, exampleTuple 97 1 1, exampleTuple 98 0 2]"
    by (simp add: example_bytes)
  then show ?thesis by (simp add: exampleBlock_def writeBytes_def)
qed

lemma example_ties: "findTies exampleBlock 0 31 3 14 0 = [\<lparr>startingTupleIdx = 0, endingTupleIdx = 1\<rparr>]"
  by (simp add: findTies_def findTiesLoop.simps tieEnd.simps example_simps)

lemma example_solve:
  assumes "length tmp = 93"
  shows "\<exists>tmp1. length tmp1 = 93 \<and> solveStringAndUnstructuredTies insertionSort ft 31 23 exampleBlock tmp
    \<lparr>startingTupleIdx = 0, endingTupleIdx = 1\<rparr> 0 [] exampleInfo = Inr (exampleBlock, tmp1, [\<lparr>startingTupleIdx = 0, endingTupleIdx = 1\<rparr>])"
proof -
  let ?tie = "\<lparr>startingTupleIdx = 0, endingTupleIdx = 1\<rparr>"
  let ?lt = "\<lambda>p q. tieLess ft exampleInfo 23 (readBytes p 31 exampleBlock) (readBytes q 31 exampleBlock)"
  have n: "getNumTuples ?tie = 2" by (simp add: getNumTuples_def)
  have ptrs: "fillTmpTuplePtrSortingBlock 31 ?tie 0 = [0, 31]" unfolding fillTmpTuplePtrSortingBlock_def n upt23 by simp
  have lt: "\<not> ?lt 0 0" "\<not> ?lt 0 31" "\<not> ?lt 31 0" "\<not> ?lt 31 31"
    by (simp_all add: tieLess_def exampleInfo_def isNullVal_def isLongStr_def example_simps)
  have st: "stringTieStep ft exampleInfo 31 23 (readBytes 0 31 exampleBlock) (readBytes 31 31 exampleBlock) = Some 0"
    by (simp add: stringTieStep_def exampleInfo_def isNullVal_def isLongStr_def example_simps)
  have f: "findStringTies ft exampleInfo 31 exampleBlock 1 0 0 23 = [?tie]"
    by (simp add: findStringTies.simps stringTieEnd.simps st)
  have w: "writeBytes 0 (concat (map (\<lambda>p. readBytes p 31 exampleBlock) [0, 31])) exampleBlock = exampleBlock"
    by (simp add: example_simps)
  obtain tmp1 where "length tmp1 = 93" "reOrderKeyBlock 31 exampleBlock tmp [0, 31] ?tie 0 = (exampleBlock, tmp1)"
    using reOrderKeyBlock_exact[of ?tie 31 tmp "[0, 31]" exampleBlock 0] assms n unfolding w by (auto simp: example_length)
  moreover have "strictWeakOrder ?lt [0, 31]" "insertionSort ?lt [0, 31] = [0, 31]"
    using lt by (simp_all add: strictWeakOrder_def insertionSort_def)
  ultimately show ?thesis
    using f unfolding solveStringAndUnstructuredTies_def ptrs Let_def by simp
qed


text \<open>
  The order of ties is not a strict weak order on nulls of an ascending string column: two tuples with a null in it are each
  smaller than the other and than itself, whatever the rest of the key is, so \<open>std::sort\<close> has undefined behaviour for them.
\<close>

theorem null_ties_are_undefined:
  assumes "isAscOrder info" "p \<in> set ptrs" "ptrs = fillTmpTuplePtrSortingBlock w tie keyBlockPtr"
    and "isNullVal (drop (colOffsetInEncodedKeyBlock info) (readBytes p w key)) True"
  shows "solveStringAndUnstructuredTies stdSort ft w m key tmp tie keyBlockPtr ties info =
    Inl (UndefinedBehaviour ''std::sort without a strict weak order'')"
proof -
  let ?lt = "\<lambda>p q. tieLess ft info m (readBytes p w key) (readBytes q w key)"
  have "?lt p p" using assms(1,4) by (simp add: tieLess_def Let_def)
  then have "\<not> strictWeakOrder ?lt ptrs" using assms(2) by (auto simp: strictWeakOrder_def list_all_iff)
  then show ?thesis by (simp add: solveStringAndUnstructuredTies_def assms(3) Let_def)
qed

theorem null_ties_are_undefined_witness:
  "solveStringAndUnstructuredTies insertionSort (\<lambda>_ _ _. []) 22 14 (replicate 44 255) (replicate 44 0)
     \<lparr>startingTupleIdx = 0, endingTupleIdx = 1\<rparr> 0 [] exampleInfo = Inl (UndefinedBehaviour ''std::sort without a strict weak order'')"
proof (rule null_ties_are_undefined[of _ 0 "[0, 22]"])
  show "[0, 22] = fillTmpTuplePtrSortingBlock 22 \<lparr>startingTupleIdx = 0, endingTupleIdx = 1\<rparr> 0"
    by (simp add: fillTmpTuplePtrSortingBlock_def getNumTuples_def upt23)
  show "isNullVal (drop (colOffsetInEncodedKeyBlock exampleInfo) (readBytes 0 22 (replicate 44 255))) True"
    by (simp add: isNullVal_def exampleInfo_def readBytes_def)
qed (simp_all add: exampleInfo_def)

end
