(* ===== verification/Order_By.thy ===== *)
theory Order_By
  imports Radix_Sort
begin

text \<open>
  Filling the key blocks of ORDER BY: the constructor and \<open>encodeKeys\<close> of
  \<^verbatim>\<open>src/src/processor/physical_plan/operator/order_by/order_by_key_encoder.cpp\<close>.  A data block is its bytes and its number of
  tuples.  The bytes of a new block are what the memory manager hands out, a parameter \<open>fresh\<close> indexed by the number of the
  block.  The machine is little-endian here, as the layout of the tuple information needs.
\<close>

section \<open>State\<close>

definition MAX_FT_BLOCK_OFFSET :: nat where "MAX_FT_BLOCK_OFFSET = 2 ^ 24 - 1"

record DataBlock =
  blockData :: "u8 list"
  numTuples :: nat

text \<open>
  A value vector with the state of its chunk: the position of the current tuple when it is flat, otherwise the selected
  positions, which are \<open>0, 1, \<dots>\<close> when it is unfiltered.
\<close>

record ValueVector =
  dataType :: DataTypeID
  vecValues :: "key_value list"
  nullMask :: "bool list"
  noNullsGuarantee :: bool
  isFlat :: bool
  currPos :: nat
  isUnfiltered :: bool
  selectedSize :: nat
  selectedPositions :: "nat list"

record OrderByKeyEncoder =
  keyBlocks :: "DataBlock list"
  numBytesPerTuple :: nat
  maxNumTuplesPerBlock :: nat
  ftBlockIdx :: nat
  ftBlockOffset :: nat
  ftIdx :: u8
  numTuplesPerBlockInFT :: nat

definition newDataBlock :: "(nat \<Rightarrow> u8 list) \<Rightarrow> nat \<Rightarrow> DataBlock" where
  "newDataBlock fresh k = \<lparr>blockData = fresh k, numTuples = 0\<rparr>"

definition canEncode :: "DataTypeID \<Rightarrow> bool" where
  "canEncode ty \<longleftrightarrow> ty \<in> {BOOL, INT64, DOUBLE, STRING, DATE, TIMESTAMP, INTERVAL, UNSTRUCTURED}"

definition newOrderByKeyEncoder :: "(nat \<Rightarrow> u8 list) \<Rightarrow> DataTypeID list \<Rightarrow> u8 \<Rightarrow> nat \<Rightarrow> OrderByKeyEncoder result" where
  "newOrderByKeyEncoder fresh types ft perBlock =
     (if MAX_FT_BLOCK_OFFSET < perBlock
      then Inl (RuntimeException ''The number of tuples per block of factorizedTable exceeds the maximum blockOffset!'')
      else let w = sum_list (map getEncodingSize types) + 8
           in if LARGE_PAGE_SIZE div w = 0 then Inl (RuntimeException ''TupleSize is larger than the LARGE_PAGE_SIZE'')
              else if \<not> list_all canEncode types then Inl (RuntimeException ''Cannot encode data type'')
              else Inr \<lparr>keyBlocks = [newDataBlock fresh 0], numBytesPerTuple = w, maxNumTuplesPerBlock = LARGE_PAGE_SIZE div w,
                     ftBlockIdx = 0, ftBlockOffset = 0, ftIdx = ft, numTuplesPerBlockInFT = perBlock\<rparr>)"

definition getNumTuplesInCurBlock :: "OrderByKeyEncoder \<Rightarrow> nat" where
  "getNumTuplesInCurBlock e = numTuples (last (keyBlocks e))"

definition allocateMemoryIfFull :: "(nat \<Rightarrow> u8 list) \<Rightarrow> OrderByKeyEncoder \<Rightarrow> OrderByKeyEncoder" where
  "allocateMemoryIfFull fresh e =
     (if getNumTuplesInCurBlock e = maxNumTuplesPerBlock e
      then e\<lparr>keyBlocks := keyBlocks e @ [newDataBlock fresh (length (keyBlocks e))]\<rparr> else e)"

section \<open>Encoding vectors\<close>

text \<open>The null flag and the value at one position; the four loops of \<open>encodeUnflatVector\<close> differ in the position and in the null test.\<close>

definition encodeAt :: "ValueVector \<Rightarrow> nat \<Rightarrow> u8 list" where
  "encodeAt v pos =
     encodeNullOrValue True (dataType v) (if \<not> noNullsGuarantee v \<and> nullMask v ! pos then None else Some (vecValues v ! pos))"

text \<open>\<open>n\<close> pieces written at the same place of consecutive tuples.\<close>

definition writeStrided :: "nat \<Rightarrow> nat \<Rightarrow> nat \<Rightarrow> (nat \<Rightarrow> u8 list) \<Rightarrow> u8 list \<Rightarrow> u8 list" where
  "writeStrided p w n bs mem = foldl (\<lambda>m i. writeBytes (p + i * w) (bs i) m) mem [0..<n]"

definition encodeFlatVector :: "ValueVector \<Rightarrow> nat \<Rightarrow> u8 list \<Rightarrow> u8 list" where
  "encodeFlatVector v tuplePtr mem =
     writeBytes tuplePtr (if nullMask v ! currPos v then replicate (getEncodingSize (dataType v)) 255
                          else 0 # encodeData True (vecValues v ! currPos v)) mem"

definition encodeUnflatVector :: "ValueVector \<Rightarrow> nat \<Rightarrow> nat \<Rightarrow> nat \<Rightarrow> nat \<Rightarrow> u8 list \<Rightarrow> u8 list" where
  "encodeUnflatVector v tuplePtr w encodedTuples numEntriesToEncode mem =
     writeStrided tuplePtr w numEntriesToEncode
       (\<lambda>i. encodeAt v (if isUnfiltered v then encodedTuples + i else selectedPositions v ! (i + encodedTuples))) mem"

definition flipEntries :: "bool \<Rightarrow> nat \<Rightarrow> nat \<Rightarrow> nat \<Rightarrow> nat \<Rightarrow> u8 list \<Rightarrow> u8 list" where
  "flipEntries isAsc tuplePtr w numEntriesToEncode encodingSize mem =
     (if isAsc then mem
      else foldl (\<lambda>m i. writeBytes (tuplePtr + i * w) (map NOT (readBytes (tuplePtr + i * w) encodingSize m)) m) mem [0..<numEntriesToEncode])"

definition encodeVector :: "ValueVector \<Rightarrow> bool \<Rightarrow> nat \<Rightarrow> nat \<Rightarrow> nat \<Rightarrow> nat \<Rightarrow> u8 list \<Rightarrow> u8 list" where
  "encodeVector v isAsc tuplePtr w encodedTuples numEntriesToEncode mem =
     flipEntries isAsc tuplePtr w numEntriesToEncode (getEncodingSize (dataType v))
       (if isFlat v then encodeFlatVector v tuplePtr mem
        else encodeUnflatVector v tuplePtr w encodedTuples numEntriesToEncode mem)"

text \<open>All the key columns; the result also has the offset after them.\<close>

fun encodeVectors :: "(ValueVector \<times> bool) list \<Rightarrow> nat \<Rightarrow> nat \<Rightarrow> nat \<Rightarrow> nat \<Rightarrow> nat \<Rightarrow> u8 list \<Rightarrow> nat \<times> u8 list" where
  "encodeVectors [] tuplePtr w encodedTuples n off mem = (off, mem)"
| "encodeVectors ((v, isAsc) # vs) tuplePtr w encodedTuples n off mem =
     encodeVectors vs tuplePtr w encodedTuples n (off + getEncodingSize (dataType v))
       (encodeVector v isAsc (tuplePtr + off) w encodedTuples n mem)"

text \<open>The position in the factorized table: four bytes of the block, four of the offset, of which the last is replaced.\<close>

definition tupleInfo :: "nat \<Rightarrow> nat \<Rightarrow> u8 \<Rightarrow> u8 list" where
  "tupleInfo blockIdx blockOffset ft = (memBytes32 True (of_nat blockIdx) @ memBytes32 True (of_nat blockOffset))[7 := ft]"

function encodeFTLoop :: "nat \<Rightarrow> nat \<Rightarrow> nat \<Rightarrow> nat \<Rightarrow> nat \<Rightarrow> u8 \<Rightarrow> nat \<Rightarrow> nat \<Rightarrow> u8 list \<Rightarrow> (nat \<times> nat \<times> u8 list) result" where
  "encodeFTLoop perBlock w numEntries written tupleInfoPtr ft blockIdx blockOffset mem =
     (if written < numEntries
      then let batch = min (numEntries - written) (perBlock - blockOffset);
               mem1 = writeStrided tupleInfoPtr w batch (\<lambda>i. tupleInfo blockIdx (blockOffset + i) ft) mem;
               offset1 = blockOffset + batch
           in if batch = 0 then Inl Blocks
              else encodeFTLoop perBlock w numEntries (written + batch) (tupleInfoPtr + batch * w) ft
                     (if offset1 = perBlock then blockIdx + 1 else blockIdx) (if offset1 = perBlock then 0 else offset1) mem1
      else Inr (blockIdx, blockOffset, mem))"
  by pat_completeness auto
termination by (relation "measure (\<lambda>(perBlock, w, n, written, p, ft, b, off, mem). n - written)") auto

declare encodeFTLoop.simps [simp del]

function encodeLoop :: "(nat \<Rightarrow> u8 list) \<Rightarrow> (ValueVector \<times> bool) list \<Rightarrow> nat \<Rightarrow> nat \<Rightarrow> OrderByKeyEncoder \<Rightarrow> OrderByKeyEncoder result" where
  "encodeLoop fresh vs encodedTuples numEntries e =
     (if numEntries = 0 then Inr e
      else let e1 = allocateMemoryIfFull fresh e; b = last (keyBlocks e1);
               n = min numEntries (maxNumTuplesPerBlock e1 - getNumTuplesInCurBlock e1);
               tuplePtr = numTuples b * numBytesPerTuple e1;
               (off, mem) = encodeVectors vs tuplePtr (numBytesPerTuple e1) encodedTuples n 0 (blockData b)
           in if n = 0 then Inl Blocks
              else case encodeFTLoop (numTuplesPerBlockInFT e1) (numBytesPerTuple e1) n 0 (tuplePtr + off) (ftIdx e1)
                     (ftBlockIdx e1) (ftBlockOffset e1) mem of
                     Inl err \<Rightarrow> Inl err
                   | Inr (bi, bo, mem1) \<Rightarrow>
                       encodeLoop fresh vs (encodedTuples + n) (numEntries - n)
                         (e1\<lparr>keyBlocks := butlast (keyBlocks e1) @ [\<lparr>blockData = mem1, numTuples = numTuples b + n\<rparr>],
                             ftBlockIdx := bi, ftBlockOffset := bo\<rparr>))"
  by pat_completeness auto
termination by (relation "measure (\<lambda>(fresh, vs, k, n, e). n)") auto

declare encodeLoop.simps [simp del]

definition encodeKeys :: "(nat \<Rightarrow> u8 list) \<Rightarrow> (ValueVector \<times> bool) list \<Rightarrow> OrderByKeyEncoder \<Rightarrow> OrderByKeyEncoder result" where
  "encodeKeys fresh vs e =
     encodeLoop fresh vs 0 (if isFlat (fst (hd vs)) then 1 else selectedSize (fst (hd vs))) e"

section \<open>Writing the same place of several tuples\<close>

lemma writeBytes_inside:
  assumes "a + off + length bs \<le> a + w" "a + w \<le> length mem"
  shows "writeBytes (a + off) bs mem = writeBytes a (writeBytes off bs (readBytes a w mem)) mem"
proof (rule nth_equalityI)
  have l: "length (readBytes a w mem) = w" "length (writeBytes off bs (readBytes a w mem)) = w"
    using assms by (simp_all add: readBytes_length writeBytes_length)
  show "length (writeBytes (a + off) bs mem) = length (writeBytes a (writeBytes off bs (readBytes a w mem)) mem)"
    using assms l by (simp add: writeBytes_length)
  fix j assume "j < length (writeBytes (a + off) bs mem)"
  then have j: "j < length mem" using assms by (simp add: writeBytes_length)
  show "writeBytes (a + off) bs mem ! j = writeBytes a (writeBytes off bs (readBytes a w mem)) mem ! j"
  proof (cases "a \<le> j \<and> j < a + w")
    case True
    then obtain d where "j = a + d" "d < w" by (metis le_iff_add nat_add_left_cancel_less)
    then show ?thesis using assms l j by (auto simp: writeBytes_nth readBytes_nth)
  next
    case False
    then show ?thesis using assms l j by (auto simp: writeBytes_nth)
  qed
qed

lemma readBytes_inside: "off + k \<le> w \<Longrightarrow> readBytes (a + off) k mem = readBytes off k (readBytes a w mem)"
  by (simp add: readBytes_def drop_take min_def add.commute[of a])

lemma strided_update:
  assumes "off + k \<le> w" "base + n * w \<le> length mem" "set js \<subseteq> {..<n}" "distinct js"
    and "\<And>i x. i \<in> set js \<Longrightarrow> length x = k \<Longrightarrow> length (h i x) = k"
    and "mem1 = foldl (\<lambda>m i. writeBytes (base + off + i * w) (h i (readBytes (base + off + i * w) k m)) m) mem js"
  shows "tuplesAt mem1 base w n = map (\<lambda>i. if i \<in> set js then writeBytes off (h i (readBytes off k (tuplesAt mem base w n ! i))) (tuplesAt mem base w n ! i)
      else tuplesAt mem base w n ! i) [0..<n] \<and> sameOutside base (base + n * w) mem mem1"
  using assms(2-6)
proof (induction js arbitrary: mem)
  case Nil
  then show ?case using tuplesAt_map[of mem base w n] by simp
next
  case (Cons i js)
  let ?t = "tuplesAt mem base w n ! i"
  let ?t1 = "writeBytes off (h i (readBytes off k ?t)) ?t"
  define m1 where "m1 = writeBytes (base + i * w) ?t1 mem"
  have i: "i < n" using Cons.prems by simp
  have iw: "base + i * w + w \<le> length mem" using Cons.prems(1) window_bound[OF i, of w] by simp
  have t: "?t = readBytes (base + i * w) w mem" "length ?t = w" using i iw by (simp_all add: tuplesAt_nth readBytes_length)
  have rb: "readBytes (base + off + i * w) k mem = readBytes off k ?t"
    using readBytes_inside[OF assms(1), of "base + i * w" mem] t(1) by (simp add: ac_simps)
  have hl: "length (h i (readBytes off k ?t)) = k"
    using Cons.prems(4)[of i "readBytes off k ?t"] assms(1) t(2) by (simp add: readBytes_length)
  have t1: "length ?t1 = w" using hl assms(1) t(2) by (simp add: writeBytes_length)
  have m1: "writeBytes (base + off + i * w) (h i (readBytes (base + off + i * w) k mem)) mem = m1"
    unfolding m1_def rb using writeBytes_inside[of "base + i * w" off "h i (readBytes off k ?t)" w mem] hl assms(1) iw t(1)
    by (simp add: ac_simps)
  have ta: "tuplesAt m1 base w n = (tuplesAt mem base w n)[i := ?t1]"
    unfolding m1_def by (rule tuplesAt_write[OF i t1 Cons.prems(1)])
  have so: "sameOutside base (base + n * w) mem m1"
    unfolding m1_def using t1 window_bound[OF i, of w] Cons.prems(1) by (intro sameOutside_write) simp_all
  have IH: "tuplesAt mem1 base w n = map (\<lambda>j. if j \<in> set js then writeBytes off (h j (readBytes off k (tuplesAt m1 base w n ! j))) (tuplesAt m1 base w n ! j)
      else tuplesAt m1 base w n ! j) [0..<n] \<and> sameOutside base (base + n * w) m1 mem1"
    using Cons.prems so m1 by (intro Cons.IH) (auto simp: sameOutside_def)
  have "i \<notin> set js" using Cons.prems(3) by simp
  then have "(if j \<in> set js then writeBytes off (h j (readBytes off k (tuplesAt m1 base w n ! j))) (tuplesAt m1 base w n ! j) else tuplesAt m1 base w n ! j) =
      (if j \<in> set (i # js) then writeBytes off (h j (readBytes off k (tuplesAt mem base w n ! j))) (tuplesAt mem base w n ! j) else tuplesAt mem base w n ! j)"
    if "j < n" for j using that i by (auto simp: ta nth_list_update)
  then show ?case using IH so by (auto intro: sameOutside_trans)
qed

lemma writeStrided_from:
  "writeStrided (base + off + a * w) w m bs mem =
     foldl (\<lambda>mm i. writeBytes (base + off + i * w) (bs (i - a)) mm) mem [a..<a + m]"
proof -
  have "[a..<a + m] = map (\<lambda>i. a + i) [0..<m]" by (simp add: map_add_upt add.commute)
  then show ?thesis by (simp add: writeStrided_def foldl_map algebra_simps)
qed

lemma writeStrided_tuples:
  assumes "off + k \<le> w" "base + n * w \<le> length mem" "a + m \<le> n" "\<And>i. i < m \<Longrightarrow> length (bs i) = k"
    and "mem1 = writeStrided (base + off + a * w) w m bs mem"
  shows "tuplesAt mem1 base w n = map (\<lambda>i. if a \<le> i \<and> i < a + m then writeBytes off (bs (i - a)) (tuplesAt mem base w n ! i)
      else tuplesAt mem base w n ! i) [0..<n]" "sameOutside base (base + n * w) mem mem1"
proof -
  have "{a..<a + m} \<subseteq> {..<n}" "\<And>i x. i \<in> set [a..<a + m] \<Longrightarrow> length x = k \<Longrightarrow> length (bs (i - a)) = k"
    using assms(3,4) by auto
  then have "tuplesAt mem1 base w n = map (\<lambda>i. if i \<in> set [a..<a + m] then writeBytes off (bs (i - a)) (tuplesAt mem base w n ! i)
      else tuplesAt mem base w n ! i) [0..<n] \<and> sameOutside base (base + n * w) mem mem1"
    using assms(5) unfolding writeStrided_from
    by (intro strided_update[OF assms(1,2), where h = "\<lambda>i _. bs (i - a)"]) auto
  then show "tuplesAt mem1 base w n = map (\<lambda>i. if a \<le> i \<and> i < a + m then writeBytes off (bs (i - a)) (tuplesAt mem base w n ! i)
      else tuplesAt mem base w n ! i) [0..<n]" "sameOutside base (base + n * w) mem mem1" by simp_all
qed

section \<open>The columns of the tuples\<close>

text \<open>The \<open>i\<close>-th selected value of a vector, and the rows of the vectors.\<close>

definition vecPos :: "ValueVector \<Rightarrow> nat \<Rightarrow> nat" where
  "vecPos v i = (if isFlat v then currPos v else if isUnfiltered v then i else selectedPositions v ! i)"

definition selectedValue :: "ValueVector \<Rightarrow> nat \<Rightarrow> key_value option" where
  "selectedValue v i = (if nullMask v ! vecPos v i then None else Some (vecValues v ! vecPos v i))"

definition rowOf :: "(ValueVector \<times> bool) list \<Rightarrow> nat \<Rightarrow> key_value option list" where
  "rowOf vs i = map (\<lambda>(v, asc). selectedValue v i) vs"

definition colsOf :: "(ValueVector \<times> bool) list \<Rightarrow> (DataTypeID \<times> bool) list" where
  "colsOf vs = map (\<lambda>(v, asc). (dataType v, asc)) vs"

text \<open>
  The vector holds values of its type, the guarantee of no nulls is true, and a flat vector is only used for a single row (the
  planner flattens the key chunks when there are several).
\<close>

definition vecOk :: "nat \<Rightarrow> ValueVector \<Rightarrow> bool" where
  "vecOk n v \<longleftrightarrow> canEncode (dataType v) \<and> (isFlat v \<longrightarrow> n \<le> 1) \<and>
     (\<forall>i < n. (noNullsGuarantee v \<longrightarrow> \<not> nullMask v ! vecPos v i) \<and> typeOf (vecValues v ! vecPos v i) = dataType v)"

lemma encodeNullOrValue_size:
  assumes "canEncode ty" "\<And>x. v = Some x \<Longrightarrow> typeOf x = ty"
  shows "length (encodeNullOrValue le ty v) = getEncodingSize ty"
proof (cases v)
  case (Some x)
  have "length (0 # encodeData le x) = getEncodingSize (typeOf x)"
    by (cases x) (use encodeData_length[of x le] in \<open>auto simp: encodeString_def getEncodingSize_def SHORT_STR_LENGTH_def\<close>)
  then show ?thesis using assms(2)[OF Some] by (simp add: encodeNullOrValue_def Some)
qed (simp add: encodeNullOrValue_def)

lemma encodeNullOrValue_selected_size:
  assumes "vecOk n v" "i < n"
  shows "length (encodeNullOrValue True (dataType v) (selectedValue v i)) = getEncodingSize (dataType v)"
  using assms by (intro encodeNullOrValue_size) (auto simp: vecOk_def selectedValue_def split: if_splits)

lemma encodeColumn_size:
  "vecOk n v \<Longrightarrow> i < n \<Longrightarrow> length (encodeColumn True (dataType v) asc (selectedValue v i)) = getEncodingSize (dataType v)"
  using encodeNullOrValue_selected_size[of n v i] by (simp add: encodeColumn_def flipBytesIfNecessary_def)

lemma flipEntries_tuples:
  assumes "off + k \<le> w" "base + n * w \<le> length mem"
    and "\<And>i. i < n \<Longrightarrow> \<exists>t. length t = w \<and> tuplesAt mem base w n ! i = writeBytes off (bs i) t \<and> length (bs i) = k"
    and "mem1 = flipEntries asc (base + off) w n k mem"
  shows "tuplesAt mem1 base w n = map (\<lambda>i. writeBytes off (flipBytesIfNecessary asc (bs i)) (tuplesAt mem base w n ! i)) [0..<n]"
    "sameOutside base (base + n * w) mem mem1"
proof -
  have self: "readBytes off k (writeBytes off b t) = b" "writeBytes off c (writeBytes off b t) = writeBytes off c t"
    if "length b = k" "length c = k" "length t = w" for b c t :: "u8 list"
    using that assms(1) by (simp_all add: readBytes_def writeBytes_def)
  have i: "readBytes off k (tuplesAt mem base w n ! i) = bs i" "writeBytes off (bs i) (tuplesAt mem base w n ! i) = tuplesAt mem base w n ! i"
    if "i < n" for i
    using assms(3)[OF that] self by metis+
  have "tuplesAt mem1 base w n = map (\<lambda>i. writeBytes off (flipBytesIfNecessary asc (bs i)) (tuplesAt mem base w n ! i)) [0..<n] \<and>
    sameOutside base (base + n * w) mem mem1"
  proof (cases asc)
    case True
    have "map (\<lambda>i. writeBytes off (bs i) (tuplesAt mem base w n ! i)) [0..<n] = tuplesAt mem base w n"
      using i(2) by (intro nth_equalityI) simp_all
    then show ?thesis using assms(4) True by (simp add: flipEntries_def flipBytesIfNecessary_def)
  next
    case False
    have "tuplesAt mem1 base w n = map (\<lambda>i. if i \<in> set [0..<n] then writeBytes off (map NOT (readBytes off k (tuplesAt mem base w n ! i))) (tuplesAt mem base w n ! i)
        else tuplesAt mem base w n ! i) [0..<n] \<and> sameOutside base (base + n * w) mem mem1"
      using assms(4) False
      by (intro strided_update[OF assms(1,2), where h = "\<lambda>i. map NOT"]) (auto simp: flipEntries_def)
    then show ?thesis using i(1) False by (auto simp: flipBytesIfNecessary_def)
  qed
  then show "tuplesAt mem1 base w n = map (\<lambda>i. writeBytes off (flipBytesIfNecessary asc (bs i)) (tuplesAt mem base w n ! i)) [0..<n]"
    "sameOutside base (base + n * w) mem mem1" by simp_all
qed

lemma encodeAt_selected:
  "vecOk (e + n) v \<Longrightarrow> i < n \<Longrightarrow> encodeAt v (vecPos v (e + i)) = encodeNullOrValue True (dataType v) (selectedValue v (e + i))"
  by (auto simp: encodeAt_def selectedValue_def vecOk_def)

lemma encodeVector_tuples:
  assumes "off + getEncodingSize (dataType v) \<le> w" "base + n * w \<le> length mem" "vecOk (e + n) v" "0 < n"
    and "mem1 = encodeVector v asc (base + off) w e n mem"
  shows "tuplesAt mem1 base w n = map (\<lambda>i. writeBytes off (encodeColumn True (dataType v) asc (selectedValue v (e + i))) (tuplesAt mem base w n ! i)) [0..<n]"
    "sameOutside base (base + n * w) mem mem1"
proof -
  let ?bs = "\<lambda>i. encodeNullOrValue True (dataType v) (selectedValue v (e + i))"
  define mem0 where "mem0 = (if isFlat v then encodeFlatVector v (base + off) mem else encodeUnflatVector v (base + off) w e n mem)"
  have len: "length (?bs i) = getEncodingSize (dataType v)" if "i < n" for i
    using assms(3) that by (intro encodeNullOrValue_selected_size) auto
  have m0: "mem0 = writeStrided (base + off + 0 * w) w n ?bs mem"
  proof (cases "isFlat v")
    case True
    then have n: "n = 1" "e = 0" using assms(3,4) by (auto simp: vecOk_def)
    then show ?thesis
      using True by (auto simp: mem0_def encodeFlatVector_def writeStrided_def encodeNullOrValue_def selectedValue_def vecPos_def)
  next
    case False
    have "encodeAt v (if isUnfiltered v then e + i else selectedPositions v ! (i + e)) = ?bs i" if "i < n" for i
      using encodeAt_selected[OF assms(3) that] False by (simp add: vecPos_def add.commute split: if_splits)
    then show ?thesis
      using False by (auto simp: mem0_def encodeUnflatVector_def writeStrided_def intro!: foldl_cong)
  qed
  have w0: "tuplesAt mem0 base w n = map (\<lambda>i. writeBytes off (?bs i) (tuplesAt mem base w n ! i)) [0..<n]"
    and so: "sameOutside base (base + n * w) mem mem0"
    using writeStrided_tuples[OF assms(1,2), of 0 n ?bs mem0] len m0 by (auto cong: map_cong)
  have l0: "base + n * w \<le> length mem0" using so assms(2) by (simp add: sameOutside_def)
  have tl: "length (tuplesAt mem base w n ! i) = w" if "i < n" for i
    using that assms(2) by (intro tuplesAt_tuple_length[OF assms(2)]) simp
  have m1: "mem1 = flipEntries asc (base + off) w n (getEncodingSize (dataType v)) mem0"
    using assms(5) by (simp add: encodeVector_def mem0_def)
  have ex: "\<exists>t. length t = w \<and> tuplesAt mem0 base w n ! i = writeBytes off (?bs i) t \<and> length (?bs i) = getEncodingSize (dataType v)"
    if "i < n" for i using that w0 tl len by (intro exI[of _ "tuplesAt mem base w n ! i"]) simp
  have "tuplesAt mem1 base w n = map (\<lambda>i. writeBytes off (flipBytesIfNecessary asc (?bs i)) (tuplesAt mem0 base w n ! i)) [0..<n]"
    and so1: "sameOutside base (base + n * w) mem0 mem1"
    using flipEntries_tuples[OF assms(1) l0 ex m1] by simp_all
  then show "tuplesAt mem1 base w n = map (\<lambda>i. writeBytes off (encodeColumn True (dataType v) asc (selectedValue v (e + i))) (tuplesAt mem base w n ! i)) [0..<n]"
    using w0 len tl assms(1) by (auto simp: encodeColumn_def flipBytesIfNecessary_def writeBytes_def)
  show "sameOutside base (base + n * w) mem mem1" using so so1 by (rule sameOutside_trans)
qed

lemma writeBytes_behind:
  "off \<le> length t \<Longrightarrow> writeBytes off a t = take off t @ a @ drop (off + length a) t"
  by (simp add: writeBytes_def)

definition colsSize :: "(ValueVector \<times> bool) list \<Rightarrow> nat" where
  "colsSize vs = sum_list (map (\<lambda>(v, asc). getEncodingSize (dataType v)) vs)"

lemma encodeVectors_tuples:
  assumes "off + colsSize vs \<le> w" "base + n * w \<le> length mem" "\<forall>(v, asc) \<in> set vs. vecOk (e + n) v" "0 < n"
    and "encodeVectors vs base w e n off mem = (off1, mem1)"
  shows "off1 = off + colsSize vs \<and> sameOutside base (base + n * w) mem mem1 \<and>
    tuplesAt mem1 base w n = map (\<lambda>i. take off (tuplesAt mem base w n ! i) @ encodeColumns True (colsOf vs) (rowOf vs (e + i)) @
      drop (off + colsSize vs) (tuplesAt mem base w n ! i)) [0..<n]"
  using assms
proof (induction vs arbitrary: off mem)
  case Nil
  then show ?case using tuplesAt_map[of mem base w n] by (simp add: colsSize_def encodeColumns_def colsOf_def rowOf_def)
next
  case (Cons va vs)
  obtain v asc where va: "va = (v, asc)" by fastforce
  let ?k = "getEncodingSize (dataType v)"
  define mem0 where "mem0 = encodeVector v asc (base + off) w e n mem"
  have ok: "vecOk (e + n) v" using Cons.prems(3) by (simp add: va)
  have sz: "colsSize ((v, asc) # vs) = ?k + colsSize vs" by (simp add: colsSize_def)
  have le: "off + ?k \<le> w" using Cons.prems(1) by (simp add: va sz)
  note m0 = encodeVector_tuples[OF le Cons.prems(2) ok Cons.prems(4) mem0_def]
  have "encodeVectors vs base w e n (off + ?k) mem0 = (off1, mem1)" using Cons.prems(5) by (simp add: va mem0_def)
  then have IH: "off1 = off + ?k + colsSize vs" "sameOutside base (base + n * w) mem0 mem1"
    "tuplesAt mem1 base w n = map (\<lambda>i. take (off + ?k) (tuplesAt mem0 base w n ! i) @ encodeColumns True (colsOf vs) (rowOf vs (e + i)) @
      drop (off + ?k + colsSize vs) (tuplesAt mem0 base w n ! i)) [0..<n]"
    using Cons.IH[of "off + ?k" mem0] Cons.prems m0(2) by (auto simp: va sz sameOutside_def)
  have "take (off + ?k) (tuplesAt mem0 base w n ! i) @ encodeColumns True (colsOf vs) (rowOf vs (e + i)) @ drop (off + ?k + colsSize vs) (tuplesAt mem0 base w n ! i) =
      take off (tuplesAt mem base w n ! i) @ encodeColumns True (colsOf (va # vs)) (rowOf (va # vs) (e + i)) @
      drop (off + colsSize (va # vs)) (tuplesAt mem base w n ! i)" if i: "i < n" for i
  proof -
    have l: "length (tuplesAt mem base w n ! i) = w" using i by (intro tuplesAt_tuple_length[OF Cons.prems(2)]) simp
    have c: "length (encodeColumn True (dataType v) asc (selectedValue v (e + i))) = ?k"
      using ok i by (intro encodeColumn_size) auto
    have t0: "tuplesAt mem0 base w n ! i = take off (tuplesAt mem base w n ! i) @ encodeColumn True (dataType v) asc (selectedValue v (e + i)) @
        drop (off + ?k) (tuplesAt mem base w n ! i)"
      using i l le c m0(1) by (simp add: writeBytes_behind)
    show ?thesis using l le c by (simp add: t0 va sz encodeColumns_def colsOf_def rowOf_def add.commute add.left_commute)
  qed
  then have "tuplesAt mem1 base w n = map (\<lambda>i. take off (tuplesAt mem base w n ! i) @ encodeColumns True (colsOf (va # vs)) (rowOf (va # vs) (e + i)) @
      drop (off + colsSize (va # vs)) (tuplesAt mem base w n ! i)) [0..<n]"
    unfolding IH(3) by (intro map_cong) simp_all
  then show ?case using IH(1,2) m0(2) by (auto simp: va sz intro: sameOutside_trans)
qed

section \<open>The tuple information\<close>

lemma tupleInfo_length: "length (tupleInfo b off ft) = 8"
  by (simp add: tupleInfo_def memBytes32_def)

lemma encodeFTLoop_tuples:
  assumes "off + 8 \<le> w" "base + n * w \<le> length mem" "bo < per" "a \<le> n" "p = base + off + a * w" "c = bi * per + bo"
  shows "\<exists>bi1 bo1 mem1. encodeFTLoop per w n a p ft bi bo mem = Inr (bi1, bo1, mem1) \<and> bo1 < per \<and>
    bi1 * per + bo1 = c + (n - a) \<and> sameOutside base (base + n * w) mem mem1 \<and>
    tuplesAt mem1 base w n = map (\<lambda>i. if a \<le> i then writeBytes off (tupleInfo ((c + (i - a)) div per) ((c + (i - a)) mod per) ft) (tuplesAt mem base w n ! i)
      else tuplesAt mem base w n ! i) [0..<n]"
  using assms(2-6)
proof (induction "n - a" arbitrary: a p bi bo c mem rule: less_induct)
  case less
  show ?case
  proof (cases "a < n")
    case False
    then have a: "a = n" using less.prems(3) by simp
    have "tuplesAt mem base w n = map (\<lambda>i. if a \<le> i then writeBytes off (tupleInfo ((c + (i - a)) div per) ((c + (i - a)) mod per) ft) (tuplesAt mem base w n ! i)
      else tuplesAt mem base w n ! i) [0..<n]"
      by (rule nth_equalityI) (simp_all add: a)
    then show ?thesis using less.prems a by (simp add: encodeFTLoop.simps[of per w n n])
  next
    case True
    define m where "m = min (n - a) (per - bo)"
    define mem0 where "mem0 = writeStrided p w m (\<lambda>i. tupleInfo bi (bo + i) ft) mem"
    define bi0 where "bi0 = (if bo + m = per then bi + 1 else bi)"
    define bo0 where "bo0 = (if bo + m = per then 0 else bo + m)"
    have m: "0 < m" "a + m \<le> n" "bo + m \<le> per" using True less.prems(2) by (auto simp: m_def)
    have c0: "bi0 * per + bo0 = c + m" "bo0 < per" using m(3) less.prems(2,5) by (auto simp: bi0_def bo0_def)
    have m0: "tuplesAt mem0 base w n = map (\<lambda>i. if a \<le> i \<and> i < a + m then writeBytes off (tupleInfo bi (bo + (i - a)) ft) (tuplesAt mem base w n ! i)
        else tuplesAt mem base w n ! i) [0..<n]" "sameOutside base (base + n * w) mem mem0"
      using writeStrided_tuples[OF assms(1) less.prems(1) m(2), of "\<lambda>i. tupleInfo bi (bo + i) ft" mem0] less.prems(4)
      by (simp_all add: mem0_def tupleInfo_length)
    have dm: "(c + (i - a)) div per = bi" "(c + (i - a)) mod per = bo + (i - a)" if "a \<le> i" "i < a + m" for i
    proof -
      have "c + (i - a) = bo + (i - a) + bi * per" and lt: "bo + (i - a) < per" using that m(3) less.prems(5) by simp_all
      then show "(c + (i - a)) div per = bi" "(c + (i - a)) mod per = bo + (i - a)"
        unfolding \<open>c + (i - a) = bo + (i - a) + bi * per\<close> using lt by simp_all
    qed
    obtain bi1 bo1 mem1 where IH: "encodeFTLoop per w n (a + m) (p + m * w) ft bi0 bo0 mem0 = Inr (bi1, bo1, mem1)" "bo1 < per"
      "bi1 * per + bo1 = c + m + (n - (a + m))" "sameOutside base (base + n * w) mem0 mem1"
      "tuplesAt mem1 base w n = map (\<lambda>i. if a + m \<le> i then writeBytes off (tupleInfo ((c + m + (i - (a + m))) div per) ((c + m + (i - (a + m))) mod per) ft) (tuplesAt mem0 base w n ! i)
        else tuplesAt mem0 base w n ! i) [0..<n]"
    proof -
      have pre: "n - (a + m) < n - a" "base + n * w \<le> length mem0" "p + m * w = base + off + (a + m) * w" "c + m = bi0 * per + bo0"
        using m less.prems(1,4) m0(2) c0(1) by (simp_all add: sameOutside_def distrib_right)
      show ?thesis using less.hyps[OF pre(1,2) c0(2) m(2) pre(3,4)] that by blast
    qed
    have st: "encodeFTLoop per w n a p ft bi bo mem = Inr (bi1, bo1, mem1)"
      using True m IH(1) by (simp add: encodeFTLoop.simps[of per w n a] Let_def m_def[symmetric] mem0_def[symmetric] bi0_def bo0_def)
    have "tuplesAt mem1 base w n = map (\<lambda>i. if a \<le> i then writeBytes off (tupleInfo ((c + (i - a)) div per) ((c + (i - a)) mod per) ft) (tuplesAt mem base w n ! i)
      else tuplesAt mem base w n ! i) [0..<n]"
      unfolding IH(5)
    proof (rule map_cong[OF refl])
      fix i assume i: "i \<in> set [0..<n]"
      show "(if a + m \<le> i then writeBytes off (tupleInfo ((c + m + (i - (a + m))) div per) ((c + m + (i - (a + m))) mod per) ft) (tuplesAt mem0 base w n ! i)
          else tuplesAt mem0 base w n ! i) =
        (if a \<le> i then writeBytes off (tupleInfo ((c + (i - a)) div per) ((c + (i - a)) mod per) ft) (tuplesAt mem base w n ! i) else tuplesAt mem base w n ! i)"
      proof (cases "a \<le> i \<and> i < a + m")
        case True
        then show ?thesis unfolding dm[OF conjunct1[OF True] conjunct2[OF True]] using i by (simp add: m0(1))
      next
        case False
        then show ?thesis using i by (auto simp: m0(1))
      qed
    qed
    moreover have "c + m + (n - (a + m)) = c + (n - a)" using m by simp
    ultimately show ?thesis using st IH(2-4) m0(2) by (auto intro: sameOutside_trans)
  qed
qed

section \<open>All blocks\<close>

definition encoderOk :: "OrderByKeyEncoder \<Rightarrow> bool" where
  "encoderOk e \<longleftrightarrow> keyBlocks e \<noteq> [] \<and> 0 < maxNumTuplesPerBlock e \<and> maxNumTuplesPerBlock e * numBytesPerTuple e \<le> LARGE_PAGE_SIZE \<and>
     (\<forall>b \<in> set (keyBlocks e). length (blockData b) = LARGE_PAGE_SIZE \<and> numTuples b \<le> maxNumTuplesPerBlock e) \<and>
     ftBlockOffset e < numTuplesPerBlockInFT e"

text \<open>The tuples of all the blocks, and how many tuples the factorized table has got so far.\<close>

definition blockTuples :: "nat \<Rightarrow> DataBlock \<Rightarrow> u8 list list" where
  "blockTuples w b = tuplesAt (blockData b) 0 w (numTuples b)"

definition allTuples :: "OrderByKeyEncoder \<Rightarrow> u8 list list" where
  "allTuples e = concat (map (blockTuples (numBytesPerTuple e)) (keyBlocks e))"

definition ftCount :: "OrderByKeyEncoder \<Rightarrow> nat" where
  "ftCount e = ftBlockIdx e * numTuplesPerBlockInFT e + ftBlockOffset e"

text \<open>The fields that do not change.\<close>

definition sameShape :: "OrderByKeyEncoder \<Rightarrow> OrderByKeyEncoder \<Rightarrow> bool" where
  "sameShape e e1 \<longleftrightarrow> numBytesPerTuple e1 = numBytesPerTuple e \<and> maxNumTuplesPerBlock e1 = maxNumTuplesPerBlock e \<and>
     ftIdx e1 = ftIdx e \<and> numTuplesPerBlockInFT e1 = numTuplesPerBlockInFT e"

definition keyTuple :: "(ValueVector \<times> bool) list \<Rightarrow> OrderByKeyEncoder \<Rightarrow> nat \<Rightarrow> nat \<Rightarrow> u8 list" where
  "keyTuple vs e c i = encodeColumns True (colsOf vs) (rowOf vs i) @
     tupleInfo (c div numTuplesPerBlockInFT e) (c mod numTuplesPerBlockInFT e) (ftIdx e)"

lemma tuplesAt_append: "tuplesAt mem base w (m + n) = tuplesAt mem base w m @ tuplesAt mem (base + m * w) w n"
  by (rule nth_equalityI) (simp_all add: tuplesAt_nth nth_append algebra_simps)

lemma tuplesAt_before:
  assumes "sameOutside (n * w) q mem mem1" "n * w \<le> length mem"
  shows "tuplesAt mem1 0 w n = tuplesAt mem 0 w n"
proof (rule nth_equalityI)
  have len: "length mem1 = length mem" using assms(1) by (simp add: sameOutside_def)
  fix i assume "i < length (tuplesAt mem1 0 w n)"
  then have i: "i < n" "i * w + w \<le> n * w" by (simp_all add: window_bound)
  have "readBytes (i * w) w mem1 = readBytes (i * w) w mem"
    using assms len i(2) by (intro nth_equalityI) (auto simp: readBytes_length readBytes_nth sameOutside_def)
  then show "tuplesAt mem1 0 w n ! i = tuplesAt mem 0 w n ! i" using i(1) by (simp add: tuplesAt_nth)
qed simp

lemma allocate_ok:
  assumes "encoderOk e" "\<And>k. length (fresh k) = LARGE_PAGE_SIZE" "e1 = allocateMemoryIfFull fresh e"
  shows "encoderOk e1" "allTuples e1 = allTuples e" "ftCount e1 = ftCount e" "sameShape e e1"
    "numTuples (last (keyBlocks e1)) < maxNumTuplesPerBlock e1"
proof -
  have "numTuples (last (keyBlocks e)) \<le> maxNumTuplesPerBlock e" "0 < maxNumTuplesPerBlock e"
    using assms(1) by (simp_all add: encoderOk_def)
  then show "numTuples (last (keyBlocks e1)) < maxNumTuplesPerBlock e1"
    by (simp add: assms(3) allocateMemoryIfFull_def getNumTuplesInCurBlock_def newDataBlock_def)
qed (use assms in \<open>auto simp: allocateMemoryIfFull_def newDataBlock_def encoderOk_def allTuples_def blockTuples_def tuplesAt_def
  ftCount_def sameShape_def\<close>)

lemma fill_block:
  assumes "encoderOk e" "b = last (keyBlocks e)" "0 < n" "numTuples b + n \<le> maxNumTuplesPerBlock e"
    and "numBytesPerTuple e = colsSize vs + 8" "\<forall>(v, asc) \<in> set vs. vecOk (k + n) v"
    and "w = numBytesPerTuple e" "(off, mem) = encodeVectors vs (numTuples b * w) w k n 0 (blockData b)"
  shows "\<exists>bi bo mem1. encodeFTLoop (numTuplesPerBlockInFT e) w n 0 (numTuples b * w + off) (ftIdx e) (ftBlockIdx e) (ftBlockOffset e) mem = Inr (bi, bo, mem1) \<and>
    bo < numTuplesPerBlockInFT e \<and> bi * numTuplesPerBlockInFT e + bo = ftCount e + n \<and> length mem1 = LARGE_PAGE_SIZE \<and>
    tuplesAt mem1 0 w (numTuples b + n) = blockTuples w b @ map (\<lambda>i. keyTuple vs e (ftCount e + i) (k + i)) [0..<n]"
proof -
  let ?base = "numTuples b * w"
  have b: "length (blockData b) = LARGE_PAGE_SIZE" using assms(1,2) by (simp add: encoderOk_def)
  have "(numTuples b + n) * w \<le> maxNumTuplesPerBlock e * w" using assms(4) by (rule mult_le_mono1)
  then have le: "?base + n * w \<le> length (blockData b)" using assms(1,7) b by (simp add: encoderOk_def distrib_right)
  have m: "off = colsSize vs" "sameOutside ?base (?base + n * w) (blockData b) mem"
    "tuplesAt mem ?base w n = map (\<lambda>i. encodeColumns True (colsOf vs) (rowOf vs (k + i)) @ drop (colsSize vs) (tuplesAt (blockData b) ?base w n ! i)) [0..<n]"
    using encodeVectors_tuples[of 0 vs w ?base n "blockData b" k off mem] assms(3,5,6,7) assms(8)[symmetric] le by auto
  have le1: "?base + n * w \<le> length mem" using m(2) le by (simp add: sameOutside_def)
  obtain bi bo mem1 where f: "encodeFTLoop (numTuplesPerBlockInFT e) w n 0 (?base + off) (ftIdx e) (ftBlockIdx e) (ftBlockOffset e) mem = Inr (bi, bo, mem1)"
    "bo < numTuplesPerBlockInFT e" "bi * numTuplesPerBlockInFT e + bo = ftCount e + n" "sameOutside ?base (?base + n * w) mem mem1"
    "tuplesAt mem1 ?base w n = map (\<lambda>i. writeBytes off (tupleInfo ((ftCount e + i) div numTuplesPerBlockInFT e) ((ftCount e + i) mod numTuplesPerBlockInFT e) (ftIdx e))
        (tuplesAt mem ?base w n ! i)) [0..<n]"
    using encodeFTLoop_tuples[of off w ?base n mem "ftBlockOffset e" "numTuplesPerBlockInFT e" 0 "?base + off" "ftCount e" "ftBlockIdx e" "ftIdx e"]
      assms(1,5,7) m(1) le1 by (auto simp: encoderOk_def ftCount_def)
  have so: "sameOutside ?base (?base + n * w) (blockData b) mem1" using m(2) f(4) by (rule sameOutside_trans)
  have t: "writeBytes off (tupleInfo x y (ftIdx e)) (tuplesAt mem ?base w n ! i) = encodeColumns True (colsOf vs) (rowOf vs (k + i)) @ tupleInfo x y (ftIdx e)"
    if "i < n" for i x y
  proof -
    have l: "length (tuplesAt mem ?base w n ! i) = w" "length (tuplesAt (blockData b) ?base w n ! i) = w"
      using that by (intro tuplesAt_tuple_length[OF le1] tuplesAt_tuple_length[OF le], simp)+
    then have "length (encodeColumns True (colsOf vs) (rowOf vs (k + i))) = colsSize vs"
      using that m(3) assms(5,7) by simp
    then show ?thesis using that m(1,3) l assms(5,7) by (simp add: writeBytes_def tupleInfo_length)
  qed
  have "tuplesAt mem1 ?base w n = map (\<lambda>i. keyTuple vs e (ftCount e + i) (k + i)) [0..<n]"
    unfolding f(5) by (intro map_cong refl) (simp add: t keyTuple_def)
  moreover have "tuplesAt mem1 0 w (numTuples b) = blockTuples w b"
    unfolding blockTuples_def using so le by (intro tuplesAt_before) simp_all
  ultimately show ?thesis
    using f(1-3) so b tuplesAt_append[of mem1 0 w "numTuples b" n] by (auto simp: sameOutside_def)
qed

lemma encodeLoop_appends:
  assumes "encoderOk e" "\<And>k. length (fresh k) = LARGE_PAGE_SIZE" "numBytesPerTuple e = colsSize vs + 8"
    and "\<forall>(v, asc) \<in> set vs. vecOk (k + n) v"
  shows "\<exists>e1. encodeLoop fresh vs k n e = Inr e1 \<and> encoderOk e1 \<and> sameShape e e1 \<and> ftCount e1 = ftCount e + n \<and>
    allTuples e1 = allTuples e @ map (\<lambda>i. keyTuple vs e (ftCount e + i) (k + i)) [0..<n]"
  using assms
proof (induction n arbitrary: k e rule: less_induct)
  case (less n)
  show ?case
  proof (cases "n = 0")
    case True
    then show ?thesis using less.prems by (simp add: encodeLoop.simps[of fresh vs k] sameShape_def)
  next
    case False
    define e1 where "e1 = allocateMemoryIfFull fresh e"
    define b where "b = last (keyBlocks e1)"
    define m where "m = min n (maxNumTuplesPerBlock e1 - numTuples b)"
    note al = allocate_ok[OF less.prems(1,2) e1_def]
    have m: "0 < m" "m \<le> n" "numTuples b + m \<le> maxNumTuplesPerBlock e1" using al(5) False by (auto simp: m_def b_def)
    obtain off mem where ev: "(off, mem) = encodeVectors vs (numTuples b * numBytesPerTuple e1) (numBytesPerTuple e1) k m 0 (blockData b)"
      by (metis surj_pair)
    have ok: "\<forall>(v, asc) \<in> set vs. vecOk (k + m) v" using less.prems(4) m(2) by (fastforce simp: vecOk_def)
    have w1: "numBytesPerTuple e1 = colsSize vs + 8" using al(4) less.prems(3) by (simp add: sameShape_def)
    obtain bi bo mem1 where f: "encodeFTLoop (numTuplesPerBlockInFT e1) (numBytesPerTuple e1) m 0 (numTuples b * numBytesPerTuple e1 + off) (ftIdx e1)
        (ftBlockIdx e1) (ftBlockOffset e1) mem = Inr (bi, bo, mem1)" "bo < numTuplesPerBlockInFT e1" "bi * numTuplesPerBlockInFT e1 + bo = ftCount e1 + m"
      "length mem1 = LARGE_PAGE_SIZE"
      "tuplesAt mem1 0 (numBytesPerTuple e1) (numTuples b + m) = blockTuples (numBytesPerTuple e1) b @ map (\<lambda>i. keyTuple vs e1 (ftCount e1 + i) (k + i)) [0..<m]"
      using fill_block[OF al(1) b_def m(1,3) w1 ok refl ev] by blast
    define e2 where "e2 = e1\<lparr>keyBlocks := butlast (keyBlocks e1) @ [\<lparr>blockData = mem1, numTuples = numTuples b + m\<rparr>], ftBlockIdx := bi, ftBlockOffset := bo\<rparr>"
    have kb: "keyBlocks e1 = butlast (keyBlocks e1) @ [b]" using al(1) by (simp add: encoderOk_def b_def)
    have sh: "sameShape e e2" using al(4) by (simp add: e2_def sameShape_def)
    have e2: "encoderOk e2" "ftCount e2 = ftCount e + m"
      using al(1,3) f(2,3,4) m(3) by (auto simp: e2_def encoderOk_def ftCount_def dest: in_set_butlastD)
    have kt: "keyTuple vs e1 = keyTuple vs e" "keyTuple vs e2 = keyTuple vs e"
      using al(4) sh by (simp_all add: fun_eq_iff keyTuple_def sameShape_def)
    have t2: "allTuples e2 = allTuples e @ map (\<lambda>i. keyTuple vs e (ftCount e + i) (k + i)) [0..<m]"
      using al(2,3) f(5) arg_cong[OF kb, of "\<lambda>bs. concat (map (blockTuples (numBytesPerTuple e1)) bs)"]
      by (simp add: e2_def allTuples_def blockTuples_def kt(1))
    have "\<exists>e3. encodeLoop fresh vs (k + m) (n - m) e2 = Inr e3 \<and> encoderOk e3 \<and> sameShape e2 e3 \<and> ftCount e3 = ftCount e2 + (n - m) \<and>
      allTuples e3 = allTuples e2 @ map (\<lambda>i. keyTuple vs e2 (ftCount e2 + i) (k + m + i)) [0..<n - m]"
      using m less.prems sh by (intro less.IH[OF _ e2(1)]) (auto simp: sameShape_def)
    then obtain e3 where e3: "encodeLoop fresh vs (k + m) (n - m) e2 = Inr e3" "encoderOk e3" "sameShape e2 e3" "ftCount e3 = ftCount e + n"
      "allTuples e3 = allTuples e2 @ map (\<lambda>i. keyTuple vs e (ftCount e + m + i) (k + m + i)) [0..<n - m]"
      using m(2) e2(2) by (auto simp: kt)
    have "[0..<n] = [0..<m] @ map (\<lambda>i. m + i) [0..<n - m]"
      using m(2) upt_add_eq_append[of 0 m "n - m"] by (simp add: map_add_upt add.commute)
    then have all: "allTuples e3 = allTuples e @ map (\<lambda>i. keyTuple vs e (ftCount e + i) (k + i)) [0..<n]"
      using e3(5) t2 by (simp add: comp_def add.assoc)
    have "encodeLoop fresh vs k n e = encodeLoop fresh vs (k + m) (n - m) e2"
      using False m(1) f(1)
      by (simp add: encodeLoop.simps[of fresh vs k n e] e1_def[symmetric] Let_def getNumTuplesInCurBlock_def b_def[symmetric]
          m_def[symmetric] ev[symmetric] e2_def)
    then show ?thesis using e3 all sh by (auto simp: sameShape_def)
  qed
qed

section \<open>Properties\<close>

lemma newOrderByKeyEncoder_ok:
  assumes "newOrderByKeyEncoder fresh types ft per = Inr e" "0 < per" "\<And>k. length (fresh k) = LARGE_PAGE_SIZE"
  shows "encoderOk e" "allTuples e = []" "ftCount e = 0" "numBytesPerTuple e = sum_list (map getEncodingSize types) + 8"
  using assms div_times_less_eq_dividend[of LARGE_PAGE_SIZE "sum_list (map getEncodingSize types) + 8"]
  by (auto simp: newOrderByKeyEncoder_def encoderOk_def allTuples_def blockTuples_def tuplesAt_def ftCount_def newDataBlock_def Let_def
      split: if_splits)

text \<open>
  C21: \<open>encodeKeys\<close> always ends and appends one tuple per selected row, in order, across as many blocks as it needs: the encoded
  columns of the row followed by the position that the row gets in the factorized table; the tuples that were there stay.
\<close>

theorem encodeKeys_appends_rows:
  assumes "encoderOk e" "\<forall>k. length (fresh k) = LARGE_PAGE_SIZE" "numBytesPerTuple e = colsSize vs + 8"
    and "n = (if isFlat (fst (hd vs)) then 1 else selectedSize (fst (hd vs)))" "\<forall>(v, asc) \<in> set vs. vecOk n v"
  shows "\<exists>e1. encodeKeys fresh vs e = Inr e1 \<and> encoderOk e1 \<and> ftCount e1 = ftCount e + n \<and>
    allTuples e1 = allTuples e @ map (\<lambda>i. encodeColumns True (colsOf vs) (rowOf vs i) @
      tupleInfo ((ftCount e + i) div numTuplesPerBlockInFT e) ((ftCount e + i) mod numTuplesPerBlockInFT e) (ftIdx e)) [0..<n]"
  using encodeLoop_appends[of e fresh vs 0 n] assms by (auto simp: encodeKeys_def keyTuple_def)

lemma memBytes32_rev: "rev (memBytes32 True w) = ucast (drop_bit 24 w) # tl (bigEndian32 w)"
  by (simp add: memBytes32_def bigEndian32_def upt4)

lemma memBytes32_value: "bytesVal (rev (memBytes32 True w)) = unat w"
proof -
  have "unat w < 2 ^ 32" using unsigned_less[of w] by simp
  then have "unat w div 2 ^ 24 mod 256 = unat w div 2 ^ 24" by (simp add: less_mult_imp_div_less)
  then show ?thesis
    using bigEndian32_tl[of w] bigEndian32_Cons(2)[of w] byte_div[of 24 w] by (simp add: memBytes32_rev)
qed

text \<open>
  The position of a tuple in the factorized table is read back from its tuple information, for block offsets of three bytes.
\<close>

theorem tupleInfo_roundtrip:
  assumes "blockIdx < 2 ^ 32" "blockOffset \<le> MAX_FT_BLOCK_OFFSET"
  shows "(getEncodedFTBlockIdx (tupleInfo blockIdx blockOffset ft), getEncodedFTBlockOffset (tupleInfo blockIdx blockOffset ft),
    getEncodedFTIdx (tupleInfo blockIdx blockOffset ft)) = (blockIdx, blockOffset, unat ft)"
proof -
  let ?b = "memBytes32 True (of_nat blockIdx)" and ?o = "of_nat blockOffset :: u32" and ?i = "tupleInfo blockIdx blockOffset ft"
  have l: "length (memBytes32 True w) = 4" for w by (simp add: memBytes32_def)
  have i: "take 4 ?i = ?b" "take 4 (drop 4 ?i) = (memBytes32 True ?o)[3 := ft]" "?i ! 7 = ft"
    by (simp_all add: tupleInfo_def l list_update_append nth_append)
  have u: "unat (of_nat blockIdx :: u32) = blockIdx" "unat ?o = blockOffset" "blockOffset < 2 ^ 24"
    using assms by (simp_all add: unat_of_nat MAX_FT_BLOCK_OFFSET_def)
  have "rev ((memBytes32 True ?o)[3 := ft]) = (rev (memBytes32 True ?o))[0 := ft]"
    by (simp add: rev_update l)
  then have "bytesVal (rev ((memBytes32 True ?o)[3 := ft])) = unat ft * 2 ^ 24 + blockOffset"
    using bigEndian32_tl[of ?o] bigEndian32_Cons(2)[of ?o] u by (simp add: memBytes32_rev)
  then show ?thesis
    using u i by (simp add: getEncodedFTBlockIdx_def getEncodedFTBlockOffset_def getEncodedFTIdx_def memBytes32_value)
qed

theorem tupleInfo_roundtrip_witness:
  "(getEncodedFTBlockIdx (tupleInfo 7 70000 5), getEncodedFTBlockOffset (tupleInfo 7 70000 5), getEncodedFTIdx (tupleInfo 7 70000 5)) =
     (7, 70000, 5)"
  using tupleInfo_roundtrip[of 7 70000 5] by (simp add: MAX_FT_BLOCK_OFFSET_def)

text \<open>Two rows of one column, the second one null, encoded into an empty encoder.\<close>

definition exampleVector :: ValueVector where
  "exampleVector = \<lparr>dataType = BOOL, vecValues = [BoolVal True, BoolVal True], nullMask = [False, True], noNullsGuarantee = False, isFlat = False,
     currPos = 0, isUnfiltered = True, selectedSize = 2, selectedPositions = []\<rparr>"

definition exampleEncoder :: OrderByKeyEncoder where
  "exampleEncoder = \<lparr>keyBlocks = [\<lparr>blockData = replicate LARGE_PAGE_SIZE 0, numTuples = 0\<rparr>], numBytesPerTuple = 10, maxNumTuplesPerBlock = 26214,
     ftBlockIdx = 0, ftBlockOffset = 0, ftIdx = 0, numTuplesPerBlockInFT = 100\<rparr>"

theorem encodeKeys_appends_rows_witness:
  "\<exists>e1. encodeKeys (\<lambda>_. replicate LARGE_PAGE_SIZE 0) [(exampleVector, True)] exampleEncoder = Inr e1 \<and>
     allTuples e1 = [[0, 1, 0, 0, 0, 0, 0, 0, 0, 0], [255, 255, 0, 0, 0, 0, 1, 0, 0, 0]]"
proof -
  let ?vs = "[(exampleVector, True)]"
  have ok: "encoderOk exampleEncoder" by (simp add: encoderOk_def exampleEncoder_def LARGE_PAGE_SIZE_def)
  have e: "allTuples exampleEncoder = []" "ftCount exampleEncoder = 0" "numTuplesPerBlockInFT exampleEncoder = 100" "ftIdx exampleEncoder = 0"
    "numBytesPerTuple exampleEncoder = 10"
    by (simp_all add: allTuples_def blockTuples_def tuplesAt_def ftCount_def exampleEncoder_def)
  have v: "\<forall>(v, asc) \<in> set ?vs. vecOk 2 v" "colsSize ?vs = 2"
    by (auto simp: vecOk_def exampleVector_def canEncode_def vecPos_def colsSize_def getEncodingSize_def less_2_cases_iff)
  have r: "encodeColumns True (colsOf ?vs) (rowOf ?vs 0) @ tupleInfo (0 div 100) (0 mod 100) 0 = [0, 1, 0, 0, 0, 0, 0, 0, 0, 0]"
    "encodeColumns True (colsOf ?vs) (rowOf ?vs 1) @ tupleInfo (1 div 100) (1 mod 100) 0 = [255, 255, 0, 0, 0, 0, 1, 0, 0, 0]"
    by (simp_all add: encodeColumns_def colsOf_def rowOf_def selectedValue_def vecPos_def exampleVector_def encodeColumn_def
        flipBytesIfNecessary_def encodeNullOrValue_def encodeBool_def getEncodingSize_def tupleInfo_def memBytes32_def upt4 numeral_2_eq_2)
  have pre: "\<forall>k :: nat. length (replicate LARGE_PAGE_SIZE 0 :: u8 list) = LARGE_PAGE_SIZE" "numBytesPerTuple exampleEncoder = colsSize ?vs + 8"
    "2 = (if isFlat (fst (hd ?vs)) then 1 else selectedSize (fst (hd ?vs)))"
    using e(5) v(2) by (simp_all add: exampleVector_def)
  obtain e1 where e1: "encodeKeys (\<lambda>_. replicate LARGE_PAGE_SIZE 0) ?vs exampleEncoder = Inr e1"
    "allTuples e1 = map (\<lambda>i. encodeColumns True (colsOf ?vs) (rowOf ?vs i) @ tupleInfo (i div 100) (i mod 100) 0) [0..<2]"
    using encodeKeys_appends_rows[OF ok pre v(1)] unfolding e by auto
  have "[0..<2] = [0, 1 :: nat]" by (simp add: upt_rec)
  then show ?thesis using e1 unfolding r[symmetric] by (intro exI[of _ e1]) (simp only: list.map)
qed

end
