(* ===== verification/Null_Mask.thy ===== *)
theory Null_Mask
  imports Prelude
begin

text \<open>
  Null masks of value vectors and of column pages: \<^verbatim>\<open>src/src/common/include/null_mask.h\<close>, \<^verbatim>\<open>src/src/common/null_mask.cpp\<close> and the
  null bits of \<^verbatim>\<open>src/src/storage/storage_structure/storage_structure.cpp\<close>.  A mask is an array of 64-bit entries, one bit per
  position, with a flag that is false only when no bit is set.  The second part models the copying of a range of null bits from
  a page into a vector, which moves up to 64 bits at a time, and shows that it terminates and copies the range bit by bit.
\<close>

unbundle bit_operations_syntax

section \<open>Null masks\<close>

definition NULL_BITMASKS_WITH_SINGLE_ONE :: "u64 list" where
  "NULL_BITMASKS_WITH_SINGLE_ONE =
     [0x1, 0x2, 0x4, 0x8, 0x10, 0x20, 0x40, 0x80, 0x100, 0x200, 0x400, 0x800, 0x1000, 0x2000, 0x4000, 0x8000, 0x10000,
     0x20000, 0x40000, 0x80000, 0x100000, 0x200000, 0x400000, 0x800000, 0x1000000, 0x2000000, 0x4000000, 0x8000000,
     0x10000000, 0x20000000, 0x40000000, 0x80000000, 0x100000000, 0x200000000, 0x400000000, 0x800000000, 0x1000000000,
     0x2000000000, 0x4000000000, 0x8000000000, 0x10000000000, 0x20000000000, 0x40000000000, 0x80000000000, 0x100000000000,
     0x200000000000, 0x400000000000, 0x800000000000, 0x1000000000000, 0x2000000000000, 0x4000000000000, 0x8000000000000,
     0x10000000000000, 0x20000000000000, 0x40000000000000, 0x80000000000000, 0x100000000000000, 0x200000000000000,
     0x400000000000000, 0x800000000000000, 0x1000000000000000, 0x2000000000000000, 0x4000000000000000, 0x8000000000000000]"

definition NULL_BITMASKS_WITH_SINGLE_ZERO :: "u64 list" where
  "NULL_BITMASKS_WITH_SINGLE_ZERO =
     [0xfffffffffffffffe, 0xfffffffffffffffd, 0xfffffffffffffffb, 0xfffffffffffffff7, 0xffffffffffffffef, 0xffffffffffffffdf,
     0xffffffffffffffbf, 0xffffffffffffff7f, 0xfffffffffffffeff, 0xfffffffffffffdff, 0xfffffffffffffbff, 0xfffffffffffff7ff,
     0xffffffffffffefff, 0xffffffffffffdfff, 0xffffffffffffbfff, 0xffffffffffff7fff, 0xfffffffffffeffff, 0xfffffffffffdffff,
     0xfffffffffffbffff, 0xfffffffffff7ffff, 0xffffffffffefffff, 0xffffffffffdfffff, 0xffffffffffbfffff, 0xffffffffff7fffff,
     0xfffffffffeffffff, 0xfffffffffdffffff, 0xfffffffffbffffff, 0xfffffffff7ffffff, 0xffffffffefffffff, 0xffffffffdfffffff,
     0xffffffffbfffffff, 0xffffffff7fffffff, 0xfffffffeffffffff, 0xfffffffdffffffff, 0xfffffffbffffffff, 0xfffffff7ffffffff,
     0xffffffefffffffff, 0xffffffdfffffffff, 0xffffffbfffffffff, 0xffffff7fffffffff, 0xfffffeffffffffff, 0xfffffdffffffffff,
     0xfffffbffffffffff, 0xfffff7ffffffffff, 0xffffefffffffffff, 0xffffdfffffffffff, 0xffffbfffffffffff, 0xffff7fffffffffff,
     0xfffeffffffffffff, 0xfffdffffffffffff, 0xfffbffffffffffff, 0xfff7ffffffffffff, 0xffefffffffffffff, 0xffdfffffffffffff,
     0xffbfffffffffffff, 0xff7fffffffffffff, 0xfeffffffffffffff, 0xfdffffffffffffff, 0xfbffffffffffffff, 0xf7ffffffffffffff,
     0xefffffffffffffff, 0xdfffffffffffffff, 0xbfffffffffffffff, 0x7fffffffffffffff]"

definition NULL_LOWER_MASKS :: "u64 list" where
  "NULL_LOWER_MASKS =
     [0x0, 0x1, 0x3, 0x7, 0xf, 0x1f, 0x3f, 0x7f, 0xff, 0x1ff, 0x3ff, 0x7ff, 0xfff, 0x1fff, 0x3fff, 0x7fff, 0xffff, 0x1ffff,
     0x3ffff, 0x7ffff, 0xfffff, 0x1fffff, 0x3fffff, 0x7fffff, 0xffffff, 0x1ffffff, 0x3ffffff, 0x7ffffff, 0xfffffff,
     0x1fffffff, 0x3fffffff, 0x7fffffff, 0xffffffff, 0x1ffffffff, 0x3ffffffff, 0x7ffffffff, 0xfffffffff, 0x1fffffffff,
     0x3fffffffff, 0x7fffffffff, 0xffffffffff, 0x1ffffffffff, 0x3ffffffffff, 0x7ffffffffff, 0xfffffffffff, 0x1fffffffffff,
     0x3fffffffffff, 0x7fffffffffff, 0xffffffffffff, 0x1ffffffffffff, 0x3ffffffffffff, 0x7ffffffffffff, 0xfffffffffffff,
     0x1fffffffffffff, 0x3fffffffffffff, 0x7fffffffffffff, 0xffffffffffffff, 0x1ffffffffffffff, 0x3ffffffffffffff,
     0x7ffffffffffffff, 0xfffffffffffffff, 0x1fffffffffffffff, 0x3fffffffffffffff, 0x7fffffffffffffff, 0xffffffffffffffff]"

definition NULL_HIGH_MASKS :: "u64 list" where
  "NULL_HIGH_MASKS =
     [0x0, 0x8000000000000000, 0xc000000000000000, 0xe000000000000000, 0xf000000000000000, 0xf800000000000000,
     0xfc00000000000000, 0xfe00000000000000, 0xff00000000000000, 0xff80000000000000, 0xffc0000000000000, 0xffe0000000000000,
     0xfff0000000000000, 0xfff8000000000000, 0xfffc000000000000, 0xfffe000000000000, 0xffff000000000000, 0xffff800000000000,
     0xffffc00000000000, 0xffffe00000000000, 0xfffff00000000000, 0xfffff80000000000, 0xfffffc0000000000, 0xfffffe0000000000,
     0xffffff0000000000, 0xffffff8000000000, 0xffffffc000000000, 0xffffffe000000000, 0xfffffff000000000, 0xfffffff800000000,
     0xfffffffc00000000, 0xfffffffe00000000, 0xffffffff00000000, 0xffffffff80000000, 0xffffffffc0000000, 0xffffffffe0000000,
     0xfffffffff0000000, 0xfffffffff8000000, 0xfffffffffc000000, 0xfffffffffe000000, 0xffffffffff000000, 0xffffffffff800000,
     0xffffffffffc00000, 0xffffffffffe00000, 0xfffffffffff00000, 0xfffffffffff80000, 0xfffffffffffc0000, 0xfffffffffffe0000,
     0xffffffffffff0000, 0xffffffffffff8000, 0xffffffffffffc000, 0xffffffffffffe000, 0xfffffffffffff000, 0xfffffffffffff800,
     0xfffffffffffffc00, 0xfffffffffffffe00, 0xffffffffffffff00, 0xffffffffffffff80, 0xffffffffffffffc0, 0xffffffffffffffe0,
     0xfffffffffffffff0, 0xfffffffffffffff8, 0xfffffffffffffffc, 0xfffffffffffffffe, 0xffffffffffffffff]"

definition NO_NULL_ENTRY :: u64 where "NO_NULL_ENTRY = 0"

definition ALL_NULL_ENTRY :: u64 where "ALL_NULL_ENTRY = NOT NO_NULL_ENTRY"

definition NUM_BITS_PER_NULL_ENTRY_LOG2 :: nat where "NUM_BITS_PER_NULL_ENTRY_LOG2 = 6"

definition NUM_BITS_PER_NULL_ENTRY :: nat where
  "NUM_BITS_PER_NULL_ENTRY = push_bit NUM_BITS_PER_NULL_ENTRY_LOG2 1"

definition NUM_NULL_ENTRIES :: nat where
  "NUM_NULL_ENTRIES = drop_bit NUM_BITS_PER_NULL_ENTRY_LOG2 DEFAULT_VECTOR_CAPACITY"

record NullMask =
  nullData :: "u64 list"
  mayContainNulls :: bool

definition newNullMask :: NullMask where
  "newNullMask = \<lparr>nullData = replicate NUM_NULL_ENTRIES NO_NULL_ENTRY, mayContainNulls = False\<rparr>"

definition maskSetAllNonNull :: "NullMask \<Rightarrow> NullMask" where
  "maskSetAllNonNull m = m\<lparr>nullData := replicate NUM_NULL_ENTRIES NO_NULL_ENTRY, mayContainNulls := False\<rparr>"

definition maskSetAllNull :: "NullMask \<Rightarrow> NullMask" where
  "maskSetAllNull m = m\<lparr>nullData := replicate NUM_NULL_ENTRIES ALL_NULL_ENTRY, mayContainNulls := True\<rparr>"

definition maskSetMayContainNulls :: "NullMask \<Rightarrow> NullMask" where
  "maskSetMayContainNulls m = m\<lparr>mayContainNulls := True\<rparr>"

definition maskHasNoNullsGuarantee :: "NullMask \<Rightarrow> bool" where
  "maskHasNoNullsGuarantee m \<longleftrightarrow> \<not> mayContainNulls m"

definition nullEntryPos :: "nat \<Rightarrow> nat" where
  "nullEntryPos pos = drop_bit NUM_BITS_PER_NULL_ENTRY_LOG2 pos"

definition nullBitPosInEntry :: "nat \<Rightarrow> nat" where
  "nullBitPosInEntry pos = pos - push_bit NUM_BITS_PER_NULL_ENTRY_LOG2 (nullEntryPos pos)"

definition entriesIsNull :: "u64 list \<Rightarrow> nat \<Rightarrow> bool" where
  "entriesIsNull nullEntries pos \<longleftrightarrow>
     nullEntries ! nullEntryPos pos AND NULL_BITMASKS_WITH_SINGLE_ONE ! nullBitPosInEntry pos \<noteq> 0"

definition maskIsNull :: "NullMask \<Rightarrow> nat \<Rightarrow> bool" where
  "maskIsNull m pos = entriesIsNull (nullData m) pos"

text \<open>The same two assignments set a null bit of a vector and of a page.\<close>

definition entriesSetNull :: "u64 list \<Rightarrow> nat \<Rightarrow> bool \<Rightarrow> u64 list" where
  "entriesSetNull nullEntries pos isNull =
     (let e = nullEntryPos pos; b = nullBitPosInEntry pos in
      if isNull then nullEntries[e := nullEntries ! e OR NULL_BITMASKS_WITH_SINGLE_ONE ! b]
      else nullEntries[e := nullEntries ! e AND NULL_BITMASKS_WITH_SINGLE_ZERO ! b])"

definition maskSetNull :: "NullMask \<Rightarrow> nat \<Rightarrow> bool \<Rightarrow> NullMask" where
  "maskSetNull m pos isNull =
     (if isNull then m\<lparr>nullData := entriesSetNull (nullData m) pos True, mayContainNulls := True\<rparr>
      else m\<lparr>nullData := entriesSetNull (nullData m) pos False\<rparr>)"

subsection \<open>Bits\<close>

definition nullBit :: "u64 list \<Rightarrow> nat \<Rightarrow> bool" where
  "nullBit es p \<longleftrightarrow> bit (es ! (p div 64)) (p mod 64)"

lemma nullEntryPos_div [simp]: "nullEntryPos p = p div 64"
  by (simp add: nullEntryPos_def NUM_BITS_PER_NULL_ENTRY_LOG2_def drop_bit_eq_div)

lemma nullBitPosInEntry_mod [simp]: "nullBitPosInEntry p = p mod 64"
  by (simp add: nullBitPosInEntry_def NUM_BITS_PER_NULL_ENTRY_LOG2_def push_bit_eq_mult minus_mult_div_eq_mod mult.commute)

lemma null_constants [simp]: "NUM_BITS_PER_NULL_ENTRY = 64" "NUM_NULL_ENTRIES = 32"
  by (simp_all add: NUM_BITS_PER_NULL_ENTRY_def NUM_NULL_ENTRIES_def NUM_BITS_PER_NULL_ENTRY_LOG2_def
      DEFAULT_VECTOR_CAPACITY_def push_bit_eq_mult drop_bit_eq_div)

lemma single_one_table: "map (\<lambda>n. 2 ^ n) [0..<64] = NULL_BITMASKS_WITH_SINGLE_ONE"
  by code_simp

lemma single_zero_table: "map (\<lambda>n. NOT (2 ^ n)) [0..<64] = NULL_BITMASKS_WITH_SINGLE_ZERO"
  by code_simp

lemma lower_table: "map mask [0..<65] = NULL_LOWER_MASKS"
  by code_simp

lemma high_table: "map (\<lambda>n. NOT (mask (64 - n))) [0..<65] = NULL_HIGH_MASKS"
  by code_simp

lemma single_one_nth: "n < 64 \<Longrightarrow> NULL_BITMASKS_WITH_SINGLE_ONE ! n = 2 ^ n"
  by (simp flip: single_one_table)

lemma single_zero_nth: "n < 64 \<Longrightarrow> NULL_BITMASKS_WITH_SINGLE_ZERO ! n = NOT (2 ^ n)"
  by (simp flip: single_zero_table)

lemma lower_nth: "n \<le> 64 \<Longrightarrow> NULL_LOWER_MASKS ! n = mask n"
  by (simp flip: lower_table del: upt_Suc)

lemma high_nth: "n \<le> 64 \<Longrightarrow> NULL_HIGH_MASKS ! n = NOT (mask (64 - n))"
  by (simp flip: high_table del: upt_Suc)

lemma entriesIsNull_nullBit [simp]: "entriesIsNull es p = nullBit es p"
  by (simp add: entriesIsNull_def nullBit_def single_one_nth and_exp_eq_0_iff_not_bit)

lemma maskIsNull_nullBit: "maskIsNull m p = nullBit (nullData m) p"
  by (simp add: maskIsNull_def)

lemma length_entriesSetNull [simp]: "length (entriesSetNull es p b) = length es"
  by (simp add: entriesSetNull_def Let_def)

lemma same_position: "(p::nat) div 64 = q div 64 \<Longrightarrow> p mod 64 = q mod 64 \<Longrightarrow> p = q"
  by (rule div_mod_inj)

lemma entriesSetNull_nth:
  "p div 64 < length es \<Longrightarrow> entriesSetNull es p b ! e =
     (if e = p div 64 then if b then es ! e OR 2 ^ (p mod 64) else es ! e AND NOT (2 ^ (p mod 64)) else es ! e)"
  by (simp add: entriesSetNull_def Let_def single_one_nth single_zero_nth)

lemma nullBit_entriesSetNull:
  assumes "p div 64 < length es"
  shows "nullBit (entriesSetNull es p b) q = (if q = p then b else nullBit es q)"
proof (cases "q div 64 = p div 64")
  case True
  have "q mod 64 = p mod 64 \<longleftrightarrow> q = p" using True same_position by metis
  then show ?thesis unfolding nullBit_def entriesSetNull_nth [OF assms] using True
    by (simp add: bit_or_iff bit_and_iff bit_not_iff bit_exp_iff)
next
  case False
  then have "q \<noteq> p" by metis
  then show ?thesis using False unfolding nullBit_def entriesSetNull_nth [OF assms] by simp
qed

text \<open>The representation invariant: the array has its fixed size, and the flag is cleared only when there is no null.\<close>

definition mask_ok :: "NullMask \<Rightarrow> bool" where
  "mask_ok m \<longleftrightarrow> length (nullData m) = NUM_NULL_ENTRIES \<and>
     (mayContainNulls m \<or> list_all (\<lambda>e. e = NO_NULL_ENTRY) (nullData m))"

definition nullSet :: "NullMask \<Rightarrow> nat set" where
  "nullSet m = {p. p < DEFAULT_VECTOR_CAPACITY \<and> maskIsNull m p}"

lemma mask_ok_length: "mask_ok m \<Longrightarrow> length (nullData m) = 32"
  by (simp add: mask_ok_def)

lemma mask_ok_no_nulls:
  assumes "mask_ok m" and "\<not> mayContainNulls m" and "p < 2048"
  shows "\<not> maskIsNull m p"
proof -
  have "p div 64 < length (nullData m)" using assms by (simp add: mask_ok_length)
  then have "nullData m ! (p div 64) = 0"
    using assms(1,2) by (simp add: mask_ok_def NO_NULL_ENTRY_def list_all_length)
  then show ?thesis by (simp add: maskIsNull_nullBit nullBit_def)
qed

lemma mask_ok_setNull: "mask_ok m \<Longrightarrow> p < 2048 \<Longrightarrow> mask_ok (maskSetNull m p b)"
  by (auto simp: mask_ok_def maskSetNull_def NO_NULL_ENTRY_def list_all_length entriesSetNull_nth)

lemma mask_ok_simps [simp]:
  "mask_ok newNullMask" "mask_ok (maskSetAllNonNull m)" "mask_ok (maskSetAllNull m)"
  "mask_ok m \<Longrightarrow> mask_ok (maskSetMayContainNulls m)"
  by (simp_all add: mask_ok_def newNullMask_def maskSetAllNonNull_def maskSetAllNull_def maskSetMayContainNulls_def list_all_length)

lemma maskIsNull_setNull:
  "mask_ok m \<Longrightarrow> p < 2048 \<Longrightarrow> maskIsNull (maskSetNull m p b) q = (if q = p then b else maskIsNull m q)"
  by (simp add: maskIsNull_nullBit maskSetNull_def nullBit_entriesSetNull mask_ok_length)

lemma maskIsNull_setAll:
  "p < 2048 \<Longrightarrow> maskIsNull (maskSetAllNull m) p" "p < 2048 \<Longrightarrow> \<not> maskIsNull (maskSetAllNonNull m) p"
  "p < 2048 \<Longrightarrow> \<not> maskIsNull newNullMask p" "maskIsNull (maskSetMayContainNulls m) p = maskIsNull m p"
  by (simp_all add: maskIsNull_nullBit nullBit_def maskSetAllNull_def maskSetAllNonNull_def newNullMask_def
      maskSetMayContainNulls_def ALL_NULL_ENTRY_def NO_NULL_ENTRY_def div_less_iff bit_simps)

lemma mayContainNulls_setNull: "mayContainNulls (maskSetNull m p b) = (b \<or> mayContainNulls m)"
  by (simp add: maskSetNull_def)

section \<open>Copying null bits from a page\<close>

record NullBitCursor =
  nullEntryPosInPage :: nat
  nullBitPosInPageEntry :: nat
  nullEntryPosInVector :: nat
  nullBitPosInVectorEntry :: nat
  bitPos :: nat

text \<open>The entry of the page, masked and shifted to the positions of the vector's entry, in the three branches of the loop.\<close>

definition alignRight :: "u64 \<Rightarrow> nat \<Rightarrow> nat \<Rightarrow> nat \<Rightarrow> u64" where
  "alignRight entry pb vb num =
     (let e1 = entry AND NOT (NULL_HIGH_MASKS ! (NUM_BITS_PER_NULL_ENTRY - (pb + num)));
          numBitsToShift = pb - vb;
          e2 = drop_bit numBitsToShift e1
      in e2 AND NOT (NULL_LOWER_MASKS ! vb))"

definition alignLeft :: "u64 \<Rightarrow> nat \<Rightarrow> nat \<Rightarrow> nat \<Rightarrow> u64" where
  "alignLeft entry pb vb num =
     (let numBitsToShift = vb - pb;
          e1 = entry AND NOT (NULL_LOWER_MASKS ! pb);
          e2 = push_bit numBitsToShift e1
      in e2 AND NOT (NULL_HIGH_MASKS ! (NUM_BITS_PER_NULL_ENTRY - (vb + num))))"

definition maskAligned :: "u64 \<Rightarrow> nat \<Rightarrow> nat \<Rightarrow> nat \<Rightarrow> u64" where
  "maskAligned entry pb vb num =
     (let e1 = entry AND NOT (NULL_LOWER_MASKS ! pb)
      in e1 AND NOT (NULL_HIGH_MASKS ! (NUM_BITS_PER_NULL_ENTRY - (vb + num))))"

text \<open>Writing the aligned bits into an entry of the vector.\<close>

definition mergeNullBits :: "NullMask \<Rightarrow> nat \<Rightarrow> nat \<Rightarrow> nat \<Rightarrow> u64 \<Rightarrow> NullMask" where
  "mergeNullBits m cur vb num nullMaskEntry =
     (let es = nullData m;
          es1 = es[cur := es ! cur AND NOT (push_bit vb (NULL_LOWER_MASKS ! num))];
          m1 = m\<lparr>nullData := es1\<rparr>
      in if nullMaskEntry \<noteq> 0
         then maskSetMayContainNulls (m1\<lparr>nullData := es1[cur := es1 ! cur OR nullMaskEntry]\<rparr>) else m1)"

text \<open>One iteration of the loop of \<open>readNullBitsFromAPage\<close>: at most 64 bits, from one entry of the page to one entry of the vector.\<close>

definition readNullBitsStep :: "u64 list \<Rightarrow> nat \<Rightarrow> NullBitCursor \<Rightarrow> NullMask \<Rightarrow> NullBitCursor \<times> NullMask" where
  "readNullBitsStep nullEntriesInPage numBitsToRead c m =
     (let entry = nullEntriesInPage ! nullEntryPosInPage c;
          pb = nullBitPosInPageEntry c;
          vb = nullBitPosInVectorEntry c;
          (num, nullMaskEntry, c') =
            (if vb < pb then
               let num = min (NUM_BITS_PER_NULL_ENTRY - pb) (numBitsToRead - bitPos c)
               in (num, alignRight entry pb vb num,
                   c\<lparr>nullEntryPosInPage := Suc (nullEntryPosInPage c), nullBitPosInPageEntry := 0,
                     nullBitPosInVectorEntry := vb + num\<rparr>)
             else if pb < vb then
               let num = min (NUM_BITS_PER_NULL_ENTRY - vb) (numBitsToRead - bitPos c)
               in (num, alignLeft entry pb vb num,
                   c\<lparr>nullEntryPosInVector := Suc (nullEntryPosInVector c), nullBitPosInVectorEntry := 0,
                     nullBitPosInPageEntry := pb + num\<rparr>)
             else
               let num = min (NUM_BITS_PER_NULL_ENTRY - vb) (numBitsToRead - bitPos c)
               in (num, maskAligned entry pb vb num,
                   c\<lparr>nullEntryPosInVector := Suc (nullEntryPosInVector c),
                     nullEntryPosInPage := Suc (nullEntryPosInPage c),
                     nullBitPosInVectorEntry := 0, nullBitPosInPageEntry := 0\<rparr>))
      in (c'\<lparr>bitPos := bitPos c + num\<rparr>, mergeNullBits m (nullEntryPosInVector c) vb num nullMaskEntry))"

partial_function (option) readNullBitsLoop :: "u64 list \<Rightarrow> nat \<Rightarrow> NullBitCursor \<Rightarrow> NullMask \<Rightarrow> NullMask option" where
  "readNullBitsLoop nullEntriesInPage numBitsToRead c m =
     (if bitPos c < numBitsToRead
      then (case readNullBitsStep nullEntriesInPage numBitsToRead c m of
              (c', m') \<Rightarrow> readNullBitsLoop nullEntriesInPage numBitsToRead c' m')
      else Some m)"

definition readNullBitsFromAPage :: "u64 list \<Rightarrow> nat \<Rightarrow> nat \<Rightarrow> nat \<Rightarrow> NullMask \<Rightarrow> NullMask option" where
  "readNullBitsFromAPage nullEntriesInPage posInPage posInVector numBitsToRead m =
     readNullBitsLoop nullEntriesInPage numBitsToRead
       \<lparr>nullEntryPosInPage = nullEntryPos posInPage, nullBitPosInPageEntry = nullBitPosInEntry posInPage,
        nullEntryPosInVector = nullEntryPos posInVector, nullBitPosInVectorEntry = nullBitPosInEntry posInVector,
        bitPos = 0\<rparr> m"

definition readSingleNullBit :: "u64 list \<Rightarrow> nat \<Rightarrow> nat \<Rightarrow> NullMask \<Rightarrow> NullMask" where
  "readSingleNullBit inputNullEntries elementPos offsetInVector m =
     maskSetNull m offsetInVector (entriesIsNull inputNullEntries elementPos)"

definition setNullBitOfAPosInFrame :: "u64 list \<Rightarrow> nat \<Rightarrow> bool \<Rightarrow> u64 list" where
  "setNullBitOfAPosInFrame nullEntries elementPosInPage isNull = entriesSetNull nullEntries elementPosInPage isNull"

subsection \<open>One iteration\<close>

lemma alignRight_bits:
  assumes "vb < pb" and "pb + num \<le> 64"
  shows "bit (alignRight e pb vb num) j \<longleftrightarrow> vb \<le> j \<and> j < vb + num \<and> bit e (j - vb + pb)"
proof -
  have h: "NULL_HIGH_MASKS ! (64 - (pb + num)) = NOT (mask (pb + num))" using assms by (simp add: high_nth)
  have l: "NULL_LOWER_MASKS ! vb = mask vb" using assms by (simp add: lower_nth)
  have i: "vb \<le> j \<Longrightarrow> pb - vb + j = j - vb + pb" using assms by linarith
  have "vb \<le> j \<Longrightarrow> j < vb + num \<Longrightarrow> j < 64" using assms by linarith
  moreover have "j - vb + pb < pb + num \<longleftrightarrow> j - vb < num" by linarith
  ultimately show ?thesis unfolding alignRight_def Let_def null_constants h l
    by (cases "vb \<le> j") (auto simp: bit_and_iff bit_not_iff bit_mask_iff bit_drop_bit_eq i simp del: Nat.add_diff_assoc Nat.add_diff_assoc2 Nat.diff_add_assoc Nat.diff_add_assoc2 dest: bit_imp_le_length)
qed

lemma alignLeft_bits:
  assumes "pb \<le> vb" and "vb + num \<le> 64"
  shows "bit (alignLeft e pb vb num) j \<longleftrightarrow> vb \<le> j \<and> j < vb + num \<and> bit e (j - vb + pb)"
proof -
  have h: "NULL_HIGH_MASKS ! (64 - (vb + num)) = NOT (mask (vb + num))" using assms by (simp add: high_nth)
  have l: "NULL_LOWER_MASKS ! pb = mask pb" using assms by (simp add: lower_nth)
  have i: "vb \<le> j \<Longrightarrow> j - (vb - pb) = j - vb + pb" using assms by linarith
  show ?thesis unfolding alignLeft_def Let_def null_constants h l using assms
    by (cases "vb \<le> j") (auto simp: bit_simps i dest: bit_imp_le_length)
qed

lemma maskAligned_bits:
  "vb + num \<le> 64 \<Longrightarrow> bit (maskAligned e vb vb num) j \<longleftrightarrow> vb \<le> j \<and> j < vb + num \<and> bit e (j - vb + vb)"
  using alignLeft_bits [of vb vb num e j] by (simp add: alignLeft_def maskAligned_def Let_def)

definition pageAbsPos :: "NullBitCursor \<Rightarrow> nat" where
  "pageAbsPos c = 64 * nullEntryPosInPage c + nullBitPosInPageEntry c"

definition vectorAbsPos :: "NullBitCursor \<Rightarrow> nat" where
  "vectorAbsPos c = 64 * nullEntryPosInVector c + nullBitPosInVectorEntry c"

definition cursor_ok :: "NullBitCursor \<Rightarrow> bool" where
  "cursor_ok c \<longleftrightarrow> nullBitPosInPageEntry c < 64 \<and> nullBitPosInVectorEntry c < 64"

lemma readNullBitsStep_parts:
  assumes "cursor_ok c" and "bitPos c < n"
  obtains c' num e where
    "readNullBitsStep page n c m = (c', mergeNullBits m (nullEntryPosInVector c) (nullBitPosInVectorEntry c) num e)"
    and "0 < num" and "bitPos c' = bitPos c + num" and "bitPos c' \<le> n"
    and "nullBitPosInVectorEntry c + num \<le> 64" and "nullBitPosInPageEntry c + num \<le> 64"
    and "\<And>j. bit e j \<longleftrightarrow> nullBitPosInVectorEntry c \<le> j \<and> j < nullBitPosInVectorEntry c + num \<and>
          bit (page ! nullEntryPosInPage c) (j - nullBitPosInVectorEntry c + nullBitPosInPageEntry c)"
    and "bitPos c' < n \<Longrightarrow>
          cursor_ok c' \<and> pageAbsPos c' = pageAbsPos c + num \<and> vectorAbsPos c' = vectorAbsPos c + num"
proof -
  let ?pb = "nullBitPosInPageEntry c" and ?vb = "nullBitPosInVectorEntry c" and ?e = "page ! nullEntryPosInPage c"
  note defs = readNullBitsStep_def Let_def cursor_ok_def pageAbsPos_def vectorAbsPos_def
  have b: "?pb < 64" "?vb < 64" using assms(1) by (simp_all add: cursor_ok_def)
  consider "?vb < ?pb" | "?pb < ?vb" | "?vb = ?pb" by linarith
  then show ?thesis
  proof cases
    case 1
    let ?num = "min (64 - ?pb) (n - bitPos c)"
    show ?thesis
      by (rule that [of _ ?num "alignRight ?e ?pb ?vb ?num"])
        (use 1 b assms(2) alignRight_bits [of ?vb ?pb ?num ?e] in \<open>auto simp: defs\<close>)
  next
    case 2
    let ?num = "min (64 - ?vb) (n - bitPos c)"
    show ?thesis
      by (rule that [of _ ?num "alignLeft ?e ?pb ?vb ?num"])
        (use 2 b assms(2) alignLeft_bits [of ?pb ?vb ?num ?e] in \<open>auto simp: defs\<close>)
  next
    case 3
    let ?num = "min (64 - ?vb) (n - bitPos c)"
    show ?thesis
      by (rule that [of _ ?num "maskAligned ?e ?vb ?vb ?num"])
        (use 3 b assms(2) maskAligned_bits [of ?vb ?num ?e] in \<open>auto simp: defs\<close>)
  qed
qed

lemma range_in_entry:
  assumes "vb + num \<le> (64::nat)"
  shows "64 * cur + vb \<le> q \<and> q < 64 * cur + vb + num \<longleftrightarrow> q div 64 = cur \<and> vb \<le> q mod 64 \<and> q mod 64 < vb + num"
proof -
  obtain d r where q: "q = 64 * d + r" "r < 64" "q div 64 = d" "q mod 64 = r"
    using div_mult_mod_eq [of q 64] mod_less_divisor [of 64 q] by (metis mult.commute zero_less_numeral)
  have "64 * cur + vb \<le> q \<and> q < 64 * cur + vb + num \<longleftrightarrow> d = cur \<and> vb \<le> r \<and> r < vb + num"
    unfolding q(1) using assms q(2) by (cases d cur rule: linorder_cases) auto
  then show ?thesis using q(3,4) by simp
qed

lemma mergeNullBits_parts:
  assumes "mask_ok m" and "cur < 32" and "vb + num \<le> 64" and "\<And>j. bit e j \<Longrightarrow> vb \<le> j \<and> j < vb + num"
  shows "mask_ok (mergeNullBits m cur vb num e)"
    and "mayContainNulls (mergeNullBits m cur vb num e) \<longleftrightarrow> mayContainNulls m \<or> e \<noteq> 0"
    and "maskIsNull (mergeNullBits m cur vb num e) q =
      (if 64 * cur + vb \<le> q \<and> q < 64 * cur + vb + num then bit e (q mod 64) else maskIsNull m q)"
proof -
  have l: "NULL_LOWER_MASKS ! num = mask num" using assms(3) by (simp add: lower_nth)
  note len = mask_ok_length [OF assms(1)]
  have d: "nullData (mergeNullBits m cur vb num e) = (nullData m)[cur := nullData m ! cur AND NOT (push_bit vb (mask num)) OR e]"
    using len assms(2) by (simp add: mergeNullBits_def Let_def l maskSetMayContainNulls_def)
  have f: "mayContainNulls (mergeNullBits m cur vb num e) \<longleftrightarrow> mayContainNulls m \<or> e \<noteq> 0"
    by (simp add: mergeNullBits_def Let_def maskSetMayContainNulls_def)
  then show "mayContainNulls (mergeNullBits m cur vb num e) \<longleftrightarrow> mayContainNulls m \<or> e \<noteq> 0" .
  show "mask_ok (mergeNullBits m cur vb num e)"
    using assms(1,2) unfolding mask_ok_def d f by (auto simp: list_all_length nth_list_update NO_NULL_ENTRY_def)
  have *: "bit (nullData m ! cur AND NOT (push_bit vb (mask num)) OR e) j =
      (if vb \<le> j \<and> j < vb + num then bit e j else bit (nullData m ! cur) j)" for j
    using assms(3) assms(4) [of j] by (auto simp: bit_simps dest: bit_imp_le_length)
  show "maskIsNull (mergeNullBits m cur vb num e) q =
      (if 64 * cur + vb \<le> q \<and> q < 64 * cur + vb + num then bit e (q mod 64) else maskIsNull m q)"
    unfolding range_in_entry [OF assms(3)] maskIsNull_nullBit nullBit_def d using len assms(2) * [of "q mod 64"]
    by (cases "q div 64 = cur") auto
qed

subsection \<open>The whole loop\<close>

lemma ex_less_add: "(\<exists>k < a + b. P (c + k)) \<longleftrightarrow> (\<exists>k < a. P (c + k)) \<or> (\<exists>k < b. P (c + a + k))" for a b c :: nat
proof
  assume "\<exists>k < a + b. P (c + k)"
  then obtain k where k: "k < a + b" "P (c + k)" by blast
  then show "(\<exists>k < a. P (c + k)) \<or> (\<exists>k < b. P (c + a + k))"
  proof (cases "k < a")
    case False
    then have "k - a < b" "P (c + a + (k - a))" using k by auto
    then show ?thesis by blast
  qed auto
qed (metis add.assoc nat_add_left_cancel_less trans_less_add1)

text \<open>The reference: the mask \<open>m'\<close> is \<open>m\<close> with \<open>k\<close> null bits copied one by one from position \<open>p\<close> of the page to position \<open>v\<close>.\<close>

definition copiesNullBits :: "u64 list \<Rightarrow> nat \<Rightarrow> nat \<Rightarrow> nat \<Rightarrow> NullMask \<Rightarrow> NullMask \<Rightarrow> bool" where
  "copiesNullBits page p v k m m' \<longleftrightarrow>
     (\<forall>q. maskIsNull m' q = (if v \<le> q \<and> q < v + k then entriesIsNull page (p + (q - v)) else maskIsNull m q)) \<and>
     (mayContainNulls m' \<longleftrightarrow> mayContainNulls m \<or> (\<exists>i < k. entriesIsNull page (p + i)))"

lemma copiesNullBits_0 [simp]: "copiesNullBits page p v 0 m m"
  by (auto simp: copiesNullBits_def)

lemma copiesNullBits_trans:
  assumes 1: "copiesNullBits page p v a m m1" and 2: "copiesNullBits page (p + a) (v + a) b m1 m2"
  shows "copiesNullBits page p v (a + b) m m2"
proof -
  have "maskIsNull m2 q = (if v \<le> q \<and> q < v + (a + b) then entriesIsNull page (p + (q - v)) else maskIsNull m q)" for q
  proof -
    have "v + a \<le> q \<Longrightarrow> p + a + (q - (v + a)) = p + (q - v)" by simp
    then show ?thesis using 1 2 unfolding copiesNullBits_def by auto
  qed
  moreover have "mayContainNulls m2 \<longleftrightarrow> mayContainNulls m \<or> (\<exists>i < a + b. entriesIsNull page (p + i))"
    using 1 2 unfolding copiesNullBits_def ex_less_add [where P = "entriesIsNull page"] by blast
  ultimately show ?thesis by (simp add: copiesNullBits_def)
qed

lemma readNullBitsStep_correct:
  assumes "cursor_ok c" and "bitPos c < n" and "mask_ok m" and "vectorAbsPos c + (n - bitPos c) \<le> 2048"
  shows "\<exists>num c' m'. readNullBitsStep page n c m = (c', m') \<and> 0 < num \<and> bitPos c' = bitPos c + num \<and> bitPos c' \<le> n \<and>
    mask_ok m' \<and> copiesNullBits page (pageAbsPos c) (vectorAbsPos c) num m m' \<and>
    (bitPos c' < n \<longrightarrow> cursor_ok c' \<and> pageAbsPos c' = pageAbsPos c + num \<and> vectorAbsPos c' = vectorAbsPos c + num)"
proof -
  let ?pb = "nullBitPosInPageEntry c" and ?vb = "nullBitPosInVectorEntry c"
  let ?pe = "nullEntryPosInPage c" and ?ve = "nullEntryPosInVector c"
  obtain c' num e where st: "readNullBitsStep page n c m = (c', mergeNullBits m ?ve ?vb num e)"
    and num: "0 < num" "bitPos c' = bitPos c + num" "bitPos c' \<le> n" "?vb + num \<le> 64" "?pb + num \<le> 64"
    and e: "\<And>j. bit e j \<longleftrightarrow> ?vb \<le> j \<and> j < ?vb + num \<and> bit (page ! ?pe) (j - ?vb + ?pb)"
    and c': "bitPos c' < n \<Longrightarrow> cursor_ok c' \<and> pageAbsPos c' = pageAbsPos c + num \<and> vectorAbsPos c' = vectorAbsPos c + num"
    by (fact readNullBitsStep_parts [OF assms(1,2), of page m])
  have page: "nullBit page (pageAbsPos c + k) = bit (page ! ?pe) (k + ?pb)" if "k < num" for k
  proof -
    have "pageAbsPos c + k = (k + ?pb) + 64 * ?pe" by (simp add: pageAbsPos_def)
    moreover have "k + ?pb < 64" using that num(5) by linarith
    ultimately have "(pageAbsPos c + k) div 64 = ?pe" "(pageAbsPos c + k) mod 64 = k + ?pb"
      by (simp_all only: div_mult_self2 mod_mult_self2 div_less mod_less)
    then show ?thesis by (simp add: nullBit_def)
  qed
  have ve: "?ve < 32" using assms(2,4) by (auto simp: vectorAbsPos_def)
  have eb: "bit e j \<Longrightarrow> ?vb \<le> j \<and> j < ?vb + num" for j using e [of j] by blast
  note mg = mergeNullBits_parts [where e = e, OF assms(3) ve num(4) eb]
  have e0: "e \<noteq> 0 \<longleftrightarrow> (\<exists>k < num. nullBit page (pageAbsPos c + k))"
  proof
    assume "e \<noteq> 0"
    then obtain j where "bit e j" using bit_eq_iff [of e 0] by auto
    then have j: "?vb \<le> j" "j < ?vb + num" "bit (page ! ?pe) (j - ?vb + ?pb)" using e [of j] by blast+
    then have "j - ?vb < num" by linarith
    with j(3) have "j - ?vb < num" "bit (page ! ?pe) (j - ?vb + ?pb)" by blast+
    then show "\<exists>k < num. nullBit page (pageAbsPos c + k)" using page by blast
  next
    assume "\<exists>k < num. nullBit page (pageAbsPos c + k)"
    then obtain k where "k < num" "bit (page ! ?pe) (k + ?pb)" using page by blast
    then have "bit e (k + ?vb)" using e [of "k + ?vb"] by simp
    then show "e \<noteq> 0" by auto
  qed
  have q: "maskIsNull (mergeNullBits m ?ve ?vb num e) q = (if vectorAbsPos c \<le> q \<and> q < vectorAbsPos c + num
      then nullBit page (pageAbsPos c + (q - vectorAbsPos c)) else maskIsNull m q)" for q
  proof (cases "vectorAbsPos c \<le> q \<and> q < vectorAbsPos c + num")
    case True
    then have r: "q div 64 = ?ve" "?vb \<le> q mod 64" "q mod 64 < ?vb + num"
      using range_in_entry [OF num(4), of ?ve q] by (simp_all add: vectorAbsPos_def)
    then have "q - vectorAbsPos c = q mod 64 - ?vb" using div_mult_mod_eq [of q 64] by (simp add: vectorAbsPos_def)
    moreover have "q - vectorAbsPos c < num" using True by auto
    moreover have "bit e (q mod 64) = bit (page ! ?pe) (q mod 64 - ?vb + ?pb)" using r e [of "q mod 64"] by blast
    ultimately have "bit e (q mod 64) = nullBit page (pageAbsPos c + (q - vectorAbsPos c))" using page by metis
    then show ?thesis using mg(3) [where q = q] True by (simp add: vectorAbsPos_def)
  next
    case False
    then show ?thesis using mg(3) [where q = q] unfolding vectorAbsPos_def if_not_P [OF False [unfolded vectorAbsPos_def]] by simp
  qed
  have "copiesNullBits page (pageAbsPos c) (vectorAbsPos c) num m (mergeNullBits m ?ve ?vb num e)"
    unfolding copiesNullBits_def entriesIsNull_nullBit using q mg(2) e0 by simp
  then show ?thesis using mg(1) st num(1-3) c' by blast
qed

lemma readNullBitsLoop_correct:
  assumes "bitPos c < n \<Longrightarrow> cursor_ok c \<and> vectorAbsPos c + (n - bitPos c) \<le> 2048" and "mask_ok m"
  shows "\<exists>m'. readNullBitsLoop page n c m = Some m' \<and> mask_ok m' \<and>
    copiesNullBits page (pageAbsPos c) (vectorAbsPos c) (n - bitPos c) m m'"
  using assms
proof (induction "n - bitPos c" arbitrary: c m rule: less_induct)
  case less
  show ?case
  proof (cases "bitPos c < n")
    case False
    then show ?thesis using less.prems by (simp add: readNullBitsLoop.simps)
  next
    case True
    obtain num c1 m1 where st: "readNullBitsStep page n c m = (c1, m1)" and num: "0 < num" "bitPos c1 = bitPos c + num"
        "bitPos c1 \<le> n" and ok: "mask_ok m1" "copiesNullBits page (pageAbsPos c) (vectorAbsPos c) num m m1"
      and c1: "bitPos c1 < n \<longrightarrow> cursor_ok c1 \<and> pageAbsPos c1 = pageAbsPos c + num \<and> vectorAbsPos c1 = vectorAbsPos c + num"
      using readNullBitsStep_correct [of c n m page] True less.prems by blast
    have loop: "readNullBitsLoop page n c m = readNullBitsLoop page n c1 m1"
      using True st by (subst readNullBitsLoop.simps) simp
    obtain m' where m': "readNullBitsLoop page n c1 m1 = Some m'" "mask_ok m'"
        "copiesNullBits page (pageAbsPos c1) (vectorAbsPos c1) (n - bitPos c1) m1 m'"
    proof -
      have "n - bitPos c1 < n - bitPos c" using num True by linarith
      moreover have "vectorAbsPos c + (n - bitPos c) \<le> 2048" using less.prems(1) True by blast
      then have "bitPos c1 < n \<Longrightarrow> cursor_ok c1 \<and> vectorAbsPos c1 + (n - bitPos c1) \<le> 2048" using c1 num by simp
      ultimately show ?thesis using less.hyps [of c1 m1] ok(1) that by blast
    qed
    have "copiesNullBits page (pageAbsPos c) (vectorAbsPos c) (num + (n - bitPos c1)) m m'"
    proof (cases "bitPos c1 < n")
      case True
      then show ?thesis using c1 m'(3) ok(2) copiesNullBits_trans by metis
    next
      case False
      then show ?thesis using m' ok(2) by (simp add: readNullBitsLoop.simps)
    qed
    moreover have "num + (n - bitPos c1) = n - bitPos c" using num by linarith
    ultimately show ?thesis using loop m' by simp
  qed
qed

text \<open>
  C27: \<open>readNullBitsFromAPage\<close> terminates and copies the null bits of the elements \<open>posInPage .. posInPage + n - 1\<close> of a page
  to the positions \<open>posInVector .. posInVector + n - 1\<close> of a vector, whatever the alignment of the two ranges to the 64-bit
  entries; it changes no other position, keeps the mask's invariant, and raises the flag exactly when it has copied a null.\<close>

theorem readNullBits_copies_bit_by_bit:
  assumes "mask_ok m" and "posInVector + n \<le> DEFAULT_VECTOR_CAPACITY"
    and "posInPage + n \<le> NUM_BITS_PER_NULL_ENTRY * length nullEntriesInPage"
  shows "\<exists>m'. readNullBitsFromAPage nullEntriesInPage posInPage posInVector n m = Some m' \<and> mask_ok m' \<and>
    copiesNullBits nullEntriesInPage posInPage posInVector n m m'"
proof -
  let ?c = "\<lparr>nullEntryPosInPage = nullEntryPos posInPage, nullBitPosInPageEntry = nullBitPosInEntry posInPage,
        nullEntryPosInVector = nullEntryPos posInVector, nullBitPosInVectorEntry = nullBitPosInEntry posInVector,
        bitPos = 0\<rparr>"
  have "cursor_ok ?c" "pageAbsPos ?c = posInPage" "vectorAbsPos ?c = posInVector" "n - bitPos ?c = n"
    by (simp_all add: cursor_ok_def pageAbsPos_def vectorAbsPos_def)
  moreover have "posInVector + n \<le> 2048" using assms(2) by (simp add: DEFAULT_VECTOR_CAPACITY_def)
  ultimately show ?thesis using readNullBitsLoop_correct [of ?c n m nullEntriesInPage] assms(1)
    unfolding readNullBitsFromAPage_def by metis
qed

theorem readNullBits_copies_bit_by_bit_witness:
  "\<exists>m'. readNullBitsFromAPage [0, 6, 0] 60 10 70 newNullMask = Some m' \<and> maskIsNull m' 15 \<and> maskIsNull m' 16 \<and>
     \<not> maskIsNull m' 14 \<and> \<not> maskIsNull m' 17 \<and> mayContainNulls m'"
proof -
  have h: "mask_ok newNullMask" "10 + 70 \<le> DEFAULT_VECTOR_CAPACITY" "60 + 70 \<le> NUM_BITS_PER_NULL_ENTRY * length ([0, 6, 0] :: u64 list)"
    by (simp_all add: DEFAULT_VECTOR_CAPACITY_def)
  have n: "nullBit [0, 6, 0] 65" "nullBit [0, 6, 0] 66" "\<not> nullBit [0, 6, 0] 64" "\<not> nullBit [0, 6, 0] 67"
    by (simp_all add: nullBit_def)
  from readNullBits_copies_bit_by_bit [OF h] obtain m' where
    r: "readNullBitsFromAPage [0, 6, 0] 60 10 70 newNullMask = Some m'"
    and q: "\<And>q. maskIsNull m' q = (if 10 \<le> q \<and> q < 10 + 70 then nullBit [0, 6, 0] (60 + (q - 10)) else maskIsNull newNullMask q)"
    and f: "mayContainNulls m' \<longleftrightarrow> mayContainNulls newNullMask \<or> (\<exists>i < 70. nullBit [0, 6, 0] (60 + i))"
    unfolding copiesNullBits_def entriesIsNull_nullBit by blast
  have "mayContainNulls m'" unfolding f using n(1) by (intro disjI2 exI [of _ 5]) simp
  then show ?thesis using r q [of 14] q [of 15] q [of 16] q [of 17] n by simp
qed

end
