(* ===== verification/Value_Vector.thy ===== *)
theory Value_Vector
  imports Null_Mask
begin

text \<open>
  Value vectors, selection vectors and data chunk states: \<^verbatim>\<open>src/src/common/include/vector/value_vector.h\<close>,
  \<^verbatim>\<open>src/src/common/vector/value_vector.cpp\<close> and \<^verbatim>\<open>src/src/common/include/data_chunk/data_chunk_state.h\<close>.  Vectors refer to their
  state through a shared pointer, and a filter rewrites the selection vector of a state while it reads the positions from it;
  so states live in an explicit store and a vector holds the address of its state.
\<close>

section \<open>States and vectors\<close>

text \<open>
  \<open>selUnfiltered\<close> says that \<open>selectedPositions\<close> points to the constant table of positions 0, 1, 2, ... and not to the buffer of
  the selection vector.
\<close>

record SelectionVector =
  selUnfiltered :: bool
  selectedSize :: nat
  selectedPositionsBuffer :: "nat list"

definition INCREMENTAL_SELECTED_POS :: "nat list" where
  "INCREMENTAL_SELECTED_POS = [0..<DEFAULT_VECTOR_CAPACITY]"

definition newSelectionVector :: "nat \<Rightarrow> SelectionVector" where
  "newSelectionVector capacity = \<lparr>selUnfiltered = True, selectedSize = 0, selectedPositionsBuffer = replicate capacity 0\<rparr>"

definition isUnfiltered :: "SelectionVector \<Rightarrow> bool" where
  "isUnfiltered sv = selUnfiltered sv"

definition resetSelectorToUnselected :: "SelectionVector \<Rightarrow> SelectionVector" where
  "resetSelectorToUnselected sv = sv\<lparr>selUnfiltered := True\<rparr>"

definition resetSelectorToValuePosBuffer :: "SelectionVector \<Rightarrow> SelectionVector" where
  "resetSelectorToValuePosBuffer sv = sv\<lparr>selUnfiltered := False\<rparr>"

definition selectedPosition :: "SelectionVector \<Rightarrow> nat \<Rightarrow> nat" where
  "selectedPosition sv i =
     (if selUnfiltered sv then INCREMENTAL_SELECTED_POS ! i else selectedPositionsBuffer sv ! i)"

record DataChunkState =
  currIdx :: int
  originalSize :: nat
  selVector :: SelectionVector

definition newDataChunkState :: "nat \<Rightarrow> DataChunkState" where
  "newDataChunkState capacity = \<lparr>currIdx = - 1, originalSize = 0, selVector = newSelectionVector capacity\<rparr>"

definition getSingleValueDataChunkState :: DataChunkState where
  "getSingleValueDataChunkState =
     (let s = newDataChunkState 1 in s\<lparr>selVector := (selVector s)\<lparr>selectedSize := 1\<rparr>, currIdx := 0\<rparr>)"

definition initOriginalAndSelectedSize :: "DataChunkState \<Rightarrow> nat \<Rightarrow> DataChunkState" where
  "initOriginalAndSelectedSize s n = s\<lparr>originalSize := n, selVector := (selVector s)\<lparr>selectedSize := n\<rparr>\<rparr>"

definition isFlat :: "DataChunkState \<Rightarrow> bool" where
  "isFlat s \<longleftrightarrow> currIdx s \<noteq> - 1"

definition isCurrIdxLast :: "DataChunkState \<Rightarrow> bool" where
  "isCurrIdxLast s \<longleftrightarrow> currIdx s = int (selectedSize (selVector s)) - 1"

definition getPositionOfCurrIdx :: "DataChunkState \<Rightarrow> nat" where
  "getPositionOfCurrIdx s = selectedPosition (selVector s) (nat (currIdx s))"

definition getNumSelectedValues :: "DataChunkState \<Rightarrow> nat" where
  "getNumSelectedValues s = (if isFlat s then 1 else selectedSize (selVector s))"

type_synonym state_id = nat
type_synonym chunk_states = "state_id \<Rightarrow> DataChunkState"

record 'a ValueVector =
  vecValues :: "'a list"
  vecNullMask :: NullMask
  vecState :: state_id

definition newValueVector :: "'a \<Rightarrow> state_id \<Rightarrow> 'a ValueVector" where
  "newValueVector zero s =
     \<lparr>vecValues = replicate DEFAULT_VECTOR_CAPACITY zero, vecNullMask = newNullMask, vecState = s\<rparr>"

definition setState :: "'a ValueVector \<Rightarrow> state_id \<Rightarrow> 'a ValueVector" where
  "setState v s = v\<lparr>vecState := s\<rparr>"

definition setAllNull :: "'a ValueVector \<Rightarrow> 'a ValueVector" where
  "setAllNull v = v\<lparr>vecNullMask := maskSetAllNull (vecNullMask v)\<rparr>"

definition setAllNonNull :: "'a ValueVector \<Rightarrow> 'a ValueVector" where
  "setAllNonNull v = v\<lparr>vecNullMask := maskSetAllNonNull (vecNullMask v)\<rparr>"

definition hasNoNullsGuarantee :: "'a ValueVector \<Rightarrow> bool" where
  "hasNoNullsGuarantee v = maskHasNoNullsGuarantee (vecNullMask v)"

definition setNull :: "'a ValueVector \<Rightarrow> nat \<Rightarrow> bool \<Rightarrow> 'a ValueVector" where
  "setNull v pos b = v\<lparr>vecNullMask := maskSetNull (vecNullMask v) pos b\<rparr>"

definition isNull :: "'a ValueVector \<Rightarrow> nat \<Rightarrow> bool" where
  "isNull v pos = maskIsNull (vecNullMask v) pos"

definition setRangeNonNull :: "'a ValueVector \<Rightarrow> nat \<Rightarrow> nat \<Rightarrow> 'a ValueVector" where
  "setRangeNonNull v startPos len = fold (\<lambda>i v. setNull v (startPos + i) False) [0..<len] v"

definition setValue :: "'a ValueVector \<Rightarrow> nat \<Rightarrow> 'a \<Rightarrow> 'a ValueVector" where
  "setValue v pos x = v\<lparr>vecValues := (vecValues v)[pos := x]\<rparr>"

text \<open>Writing position \<open>pos\<close> to index \<open>i\<close> of the buffer of a selection vector in the store, and its size.\<close>

definition writeSelected :: "chunk_states \<Rightarrow> state_id \<Rightarrow> nat \<Rightarrow> nat \<Rightarrow> chunk_states" where
  "writeSelected \<sigma> s i pos = \<sigma>(s := (\<sigma> s)\<lparr>selVector := (selVector (\<sigma> s))\<lparr>selectedPositionsBuffer :=
     (selectedPositionsBuffer (selVector (\<sigma> s)))[i := pos]\<rparr>\<rparr>)"

definition setSelectedSize :: "chunk_states \<Rightarrow> state_id \<Rightarrow> nat \<Rightarrow> chunk_states" where
  "setSelectedSize \<sigma> s n = \<sigma>(s := (\<sigma> s)\<lparr>selVector := (selVector (\<sigma> s))\<lparr>selectedSize := n\<rparr>\<rparr>)"

definition mapSelVector :: "(SelectionVector \<Rightarrow> SelectionVector) \<Rightarrow> chunk_states \<Rightarrow> state_id \<Rightarrow> chunk_states" where
  "mapSelVector f \<sigma> s = \<sigma>(s := (\<sigma> s)\<lparr>selVector := f (selVector (\<sigma> s))\<rparr>)"

section \<open>Well-formedness and abstraction\<close>

text \<open>The positions a selection vector selects, in order.\<close>

definition selectedPositions :: "SelectionVector \<Rightarrow> nat list" where
  "selectedPositions sv = map (selectedPosition sv) [0..<selectedSize sv]"

definition sel_ok :: "SelectionVector \<Rightarrow> bool" where
  "sel_ok sv \<longleftrightarrow> selectedSize sv \<le> length (selectedPositionsBuffer sv) \<and>
     length (selectedPositionsBuffer sv) \<le> DEFAULT_VECTOR_CAPACITY \<and>
     distinct (selectedPositions sv) \<and> list_all (\<lambda>p. p < DEFAULT_VECTOR_CAPACITY) (selectedPositions sv)"

definition state_ok :: "DataChunkState \<Rightarrow> bool" where
  "state_ok s \<longleftrightarrow> sel_ok (selVector s) \<and>
     (isFlat s \<longrightarrow> 0 \<le> currIdx s \<and> nat (currIdx s) < selectedSize (selVector s))"

definition vector_ok :: "'a ValueVector \<Rightarrow> bool" where
  "vector_ok v \<longleftrightarrow> length (vecValues v) = DEFAULT_VECTOR_CAPACITY \<and> mask_ok (vecNullMask v)"

text \<open>The SQL value at a position: no value when the position is null.\<close>

definition valueAt :: "'a ValueVector \<Rightarrow> nat \<Rightarrow> 'a option" where
  "valueAt v p = (if isNull v p then None else Some (vecValues v ! p))"

text \<open>The positions at which the vectors of a state have values: one when the state is flat.\<close>

definition activePositions :: "DataChunkState \<Rightarrow> nat list" where
  "activePositions s = (if isFlat s then [getPositionOfCurrIdx s] else selectedPositions (selVector s))"

lemma capacity [simp]: "DEFAULT_VECTOR_CAPACITY = 2048"
  by (simp add: DEFAULT_VECTOR_CAPACITY_def)

lemma length_selectedPositions [simp]: "length (selectedPositions sv) = selectedSize sv"
  by (simp add: selectedPositions_def)

lemma selectedPositions_unfiltered:
  "selUnfiltered sv \<Longrightarrow> selectedSize sv \<le> 2048 \<Longrightarrow> selectedPositions sv = [0..<selectedSize sv]"
  by (auto simp: selectedPositions_def selectedPosition_def INCREMENTAL_SELECTED_POS_def intro: nth_equalityI)

lemma selectedPositions_filtered:
  "\<not> selUnfiltered sv \<Longrightarrow> selectedSize sv \<le> length (selectedPositionsBuffer sv) \<Longrightarrow>
   selectedPositions sv = take (selectedSize sv) (selectedPositionsBuffer sv)"
  by (auto simp: selectedPositions_def selectedPosition_def intro: nth_equalityI)

lemma activePositions_bound: "state_ok s \<Longrightarrow> p \<in> set (activePositions s) \<Longrightarrow> p < 2048"
  by (auto simp: activePositions_def state_ok_def sel_ok_def getPositionOfCurrIdx_def selectedPositions_def
      list_all_iff split: if_splits)

lemma activePositions_distinct: "state_ok s \<Longrightarrow> distinct (activePositions s)"
  by (simp add: activePositions_def state_ok_def sel_ok_def)

lemma getPositionOfCurrIdx_bound: "state_ok s \<Longrightarrow> isFlat s \<Longrightarrow> getPositionOfCurrIdx s < 2048"
  using activePositions_bound [of s] by (simp add: activePositions_def)

lemma isNull_setNull:
  "vector_ok v \<Longrightarrow> p < 2048 \<Longrightarrow> isNull (setNull v p b) q = (if q = p then b else isNull v q)"
  by (simp add: isNull_def setNull_def vector_ok_def maskIsNull_setNull)

lemma vector_ok_updates [simp]:
  "vector_ok v \<Longrightarrow> p < 2048 \<Longrightarrow> vector_ok (setNull v p b)"
  "vector_ok v \<Longrightarrow> vector_ok (setValue v p x)" "vector_ok v \<Longrightarrow> vector_ok (setAllNull v)"
  "vector_ok v \<Longrightarrow> vector_ok (setAllNonNull v)" "vector_ok v \<Longrightarrow> vector_ok (setState v s)"
  "vector_ok (newValueVector x s)"
  by (simp_all add: vector_ok_def setNull_def setValue_def setAllNull_def setAllNonNull_def setState_def
      newValueVector_def mask_ok_setNull)

lemma vector_updates [simp]:
  "isNull (setValue v p x) q = isNull v q" "isNull (setState v s) q = isNull v q"
  "vecValues (setNull v p b) = vecValues v" "vecValues (setAllNull v) = vecValues v" "vecValues (setState v s) = vecValues v"
  "vecValues (setValue v p x) = (vecValues v)[p := x]"
  "vecState (setNull v p b) = vecState v" "vecState (setValue v p x) = vecState v" "vecState (setAllNull v) = vecState v"
  "vecState (setState v s) = s"
  by (simp_all add: isNull_def setNull_def setValue_def setAllNull_def setState_def)

lemma isNull_setAllNull: "p < 2048 \<Longrightarrow> isNull (setAllNull v) p"
  by (simp add: isNull_def setAllNull_def maskIsNull_setAll)

lemma no_nulls_guarantee: "vector_ok v \<Longrightarrow> hasNoNullsGuarantee v \<Longrightarrow> p < 2048 \<Longrightarrow> \<not> isNull v p"
  by (simp add: vector_ok_def hasNoNullsGuarantee_def maskHasNoNullsGuarantee_def isNull_def mask_ok_no_nulls)

lemma length_vecValues: "vector_ok v \<Longrightarrow> length (vecValues v) = 2048"
  by (simp add: vector_ok_def)

section \<open>Loops over the selected positions\<close>

text \<open>A loop whose body may throw.\<close>

fun foldResult :: "('i \<Rightarrow> 's \<Rightarrow> 's result) \<Rightarrow> 'i list \<Rightarrow> 's \<Rightarrow> 's result" where
  "foldResult f [] s = Inr s"
| "foldResult f (x # xs) s = bind_result (f x s) (foldResult f xs)"

text \<open>
  The pair of loops that the executors have for unfiltered and filtered selections; the body gets the position.
\<close>

definition forEachSelected :: "SelectionVector \<Rightarrow> (nat \<Rightarrow> 's \<Rightarrow> 's result) \<Rightarrow> 's \<Rightarrow> 's result" where
  "forEachSelected sv body s =
     (if isUnfiltered sv then foldResult body [0..<selectedSize sv] s
      else foldResult (\<lambda>i. body (selectedPosition sv i)) [0..<selectedSize sv] s)"

lemma foldResult_map: "foldResult f (map g xs) s = foldResult (\<lambda>i. f (g i)) xs s"
proof (induction xs arbitrary: s)
  case (Cons x xs)
  show ?case by (cases "f (g x) s") (simp_all add: Cons)
qed simp

lemma foldResult_total: "(\<And>x s. \<exists>s'. f x s = Inr s') \<Longrightarrow> \<exists>s'. foldResult f xs s = Inr s'"
proof (induction xs arbitrary: s)
  case (Cons x xs)
  obtain s1 where "f x s = Inr s1" using Cons.prems by blast
  then show ?case using Cons by simp
qed simp

lemma forEachSelected_eq:
  "sel_ok sv \<Longrightarrow> forEachSelected sv body s = foldResult body (selectedPositions sv) s"
proof (cases "selUnfiltered sv")
  case True
  assume "sel_ok sv"
  then show ?thesis using True selectedPositions_unfiltered [OF True] by (simp add: forEachSelected_def isUnfiltered_def sel_ok_def)
next
  case False
  then show ?thesis by (simp add: forEachSelected_def isUnfiltered_def selectedPositions_def foldResult_map)
qed

text \<open>
  A loop body that works position by position: at position \<open>p\<close> it computes the new content of the cell from the old one, or
  throws, and it leaves the other cells alone.
\<close>

locale positionwise =
  fixes body :: "nat \<Rightarrow> 'v \<Rightarrow> 'v result"
    and ok :: "'v \<Rightarrow> bool"
    and cell :: "'v \<Rightarrow> nat \<Rightarrow> 'c"
    and out :: "nat \<Rightarrow> 'c \<Rightarrow> 'c result"
    and bound :: nat
  assumes throws: "ok v \<Longrightarrow> p < bound \<Longrightarrow> out p (cell v p) = Inl e \<Longrightarrow> body p v = Inl e"
    and writes: "ok v \<Longrightarrow> p < bound \<Longrightarrow> out p (cell v p) = Inr c \<Longrightarrow>
      \<exists>v'. body p v = Inr v' \<and> ok v' \<and> cell v' p = c \<and> (\<forall>q. q \<noteq> p \<longrightarrow> cell v' q = cell v q)"
begin

lemma loop:
  assumes "ok v" and "distinct ps" and "list_all (\<lambda>p. p < bound) ps"
  shows "case foldResult body ps v of
      Inr v' \<Rightarrow> ok v' \<and> (\<forall>p \<in> set ps. out p (cell v p) = Inr (cell v' p)) \<and> (\<forall>q. q \<notin> set ps \<longrightarrow> cell v' q = cell v q)
    | Inl e \<Rightarrow> \<exists>p \<in> set ps. out p (cell v p) = Inl e"
  using assms
proof (induction ps arbitrary: v)
  case (Cons p ps)
  show ?case
  proof (cases "out p (cell v p)")
    case (Inl e)
    then show ?thesis using throws Cons.prems by simp
  next
    case (Inr c)
    then obtain v1 where v1: "body p v = Inr v1" "ok v1" "cell v1 p = c" and other: "\<And>q. q \<noteq> p \<Longrightarrow> cell v1 q = cell v q"
      using writes [of v p c] Cons.prems by auto
    have ne: "q \<noteq> p" if "q \<in> set ps" for q using that Cons.prems(2) by auto
    have IH: "case foldResult body ps v1 of
        Inr v' \<Rightarrow> ok v' \<and> (\<forall>p \<in> set ps. out p (cell v1 p) = Inr (cell v' p)) \<and> (\<forall>q. q \<notin> set ps \<longrightarrow> cell v' q = cell v1 q)
      | Inl e \<Rightarrow> \<exists>p \<in> set ps. out p (cell v1 p) = Inl e"
      using Cons.IH [OF v1(2)] Cons.prems by simp
    show ?thesis
    proof (cases "foldResult body ps v1")
      case (Inl e)
      then show ?thesis using IH v1(1) other ne by auto
    next
      case (Inr v')
      then have a: "ok v'" "\<forall>q \<in> set ps. out q (cell v1 q) = Inr (cell v' q)" "\<forall>q. q \<notin> set ps \<longrightarrow> cell v' q = cell v1 q"
        using IH by simp_all
      have "out q (cell v q) = Inr (cell v' q)" if "q \<in> set (p # ps)" for q
      proof (cases "q = p")
        case True
        then show ?thesis using a(3) Cons.prems(2) v1(3) \<open>out p (cell v p) = Inr c\<close> by simp
      next
        case False
        then show ?thesis using that a(2) other [OF False] by (metis set_ConsD)
      qed
      then show ?thesis using Inr v1(1) a other by simp
    qed
  qed
qed simp

end

section \<open>Selecting positions in place\<close>

text \<open>
  The selections walk over the selected positions of the state \<open>opS\<close> of an operand and write the positions that pass to the
  buffer of a selection vector.  The positions are read from the store in each iteration: the two may be the same buffer.
\<close>

definition forEachSelectedIn ::
  "state_id \<Rightarrow> (nat \<Rightarrow> chunk_states \<times> nat \<Rightarrow> (chunk_states \<times> nat) result) \<Rightarrow> chunk_states \<Rightarrow> (chunk_states \<times> nat) result" where
  "forEachSelectedIn opS body \<sigma> =
     (let sv = selVector (\<sigma> opS) in
      if isUnfiltered sv then foldResult body [0..<selectedSize sv] (\<sigma>, 0)
      else foldResult (\<lambda>i t. body (selectedPosition (selVector (fst t opS)) i) t) [0..<selectedSize sv] (\<sigma>, 0))"

definition withBuffer :: "chunk_states \<Rightarrow> state_id \<Rightarrow> nat list \<Rightarrow> chunk_states" where
  "withBuffer \<sigma> s b = \<sigma>(s := (\<sigma> s)\<lparr>selVector := (selVector (\<sigma> s))\<lparr>selectedPositionsBuffer := b\<rparr>\<rparr>)"

definition bufferOf :: "chunk_states \<Rightarrow> state_id \<Rightarrow> nat list" where
  "bufferOf \<sigma> s = selectedPositionsBuffer (selVector (\<sigma> s))"

lemma withBuffer_simps [simp]:
  "writeSelected (withBuffer \<sigma> s b) s n p = withBuffer \<sigma> s (b[n := p])" "withBuffer \<sigma> s (bufferOf \<sigma> s) = \<sigma>"
  "bufferOf (withBuffer \<sigma> s b) s = b" "selectedSize (selVector (withBuffer \<sigma> s b t)) = selectedSize (selVector (\<sigma> t))"
  "selUnfiltered (selVector (withBuffer \<sigma> s b t)) = selUnfiltered (selVector (\<sigma> t))"
  "t \<noteq> s \<Longrightarrow> withBuffer \<sigma> s b t = \<sigma> t" "currIdx (withBuffer \<sigma> s b t) = currIdx (\<sigma> t)"
  by (simp_all add: withBuffer_def writeSelected_def bufferOf_def)

text \<open>After \<open>i\<close> positions, the buffer starts with those that passed and is untouched from index \<open>i\<close> on.\<close>

definition compacted :: "(nat \<Rightarrow> bool result) \<Rightarrow> nat list \<Rightarrow> nat list \<Rightarrow> nat \<Rightarrow> nat list \<Rightarrow> nat \<Rightarrow> bool" where
  "compacted keep ps b0 i b n \<longleftrightarrow> length b = length b0 \<and> n = length (filter (\<lambda>p. keep p = Inr True) (take i ps)) \<and>
     take n b = filter (\<lambda>p. keep p = Inr True) (take i ps) \<and> (\<forall>j \<ge> i. b ! j = b0 ! j)"

locale compaction =
  fixes body :: "nat \<Rightarrow> chunk_states \<times> nat \<Rightarrow> (chunk_states \<times> nat) result"
    and s :: state_id
    and keep :: "nat \<Rightarrow> bool result"
  assumes selects: "keep p = Inr True \<Longrightarrow> body p (\<sigma>, n) = Inr (writeSelected \<sigma> s n p, Suc n)"
    and rejects: "keep p = Inr False \<Longrightarrow> body p (\<sigma>, n) = Inr (\<sigma>, n) \<or> body p (\<sigma>, n) = Inr (writeSelected \<sigma> s n p, n)"
    and throws: "keep p = Inl e \<Longrightarrow> body p (\<sigma>, n) = Inl e"
begin

lemma compacted_le: "compacted keep ps b0 i b n \<Longrightarrow> n \<le> i"
  using length_filter_le [of "\<lambda>p. keep p = Inr True" "take i ps"] by (auto simp: compacted_def)

lemma compacted_step:
  assumes c: "compacted keep ps b0 i b n" and i: "i < length ps" "i < length b0"
  shows "keep (ps ! i) = Inr True \<Longrightarrow> compacted keep ps b0 (Suc i) (b[n := ps ! i]) (Suc n)"
    and "keep (ps ! i) \<noteq> Inr True \<Longrightarrow> compacted keep ps b0 (Suc i) b n"
    and "keep (ps ! i) \<noteq> Inr True \<Longrightarrow> compacted keep ps b0 (Suc i) (b[n := ps ! i]) n"
proof -
  have n: "n \<le> i" "n < length b" using compacted_le [OF c] c i by (auto simp: compacted_def)
  have t: "take (Suc n) (b[n := ps ! i]) = take n b @ [ps ! i]" using n by (simp add: take_Suc_conv_app_nth)
  show "keep (ps ! i) = Inr True \<Longrightarrow> compacted keep ps b0 (Suc i) (b[n := ps ! i]) (Suc n)"
    using c i n t by (auto simp: compacted_def take_Suc_conv_app_nth)
  show "keep (ps ! i) \<noteq> Inr True \<Longrightarrow> compacted keep ps b0 (Suc i) b n"
    using c i by (auto simp: compacted_def take_Suc_conv_app_nth)
  show "keep (ps ! i) \<noteq> Inr True \<Longrightarrow> compacted keep ps b0 (Suc i) (b[n := ps ! i]) n"
    using c i n by (auto simp: compacted_def take_Suc_conv_app_nth)
qed

lemma body_step:
  assumes c: "compacted keep ps b0 i b n" and i: "i < length ps" "i < length b0"
  shows "(\<exists>e. keep (ps ! i) = Inl e \<and> body (ps ! i) (withBuffer \<sigma> s b, n) = Inl e) \<or>
    ((\<exists>k. keep (ps ! i) = Inr k) \<and>
     (\<exists>b' n'. body (ps ! i) (withBuffer \<sigma> s b, n) = Inr (withBuffer \<sigma> s b', n') \<and> compacted keep ps b0 (Suc i) b' n'))"
proof (cases "keep (ps ! i)")
  case (Inl e)
  then show ?thesis using throws by simp
next
  case (Inr k)
  show ?thesis
  proof (cases k)
    case True
    then show ?thesis using Inr selects [of "ps ! i" "withBuffer \<sigma> s b" n] compacted_step(1) [OF c i] by auto
  next
    case False
    then have "keep (ps ! i) \<noteq> Inr True" using Inr by simp
    then show ?thesis using Inr False rejects [of "ps ! i" "withBuffer \<sigma> s b" n] compacted_step(2,3) [OF c i] by auto
  qed
qed

lemma fold_compacts:
  assumes "compacted keep ps b0 i b n" and "i \<le> length ps" and "length ps \<le> length b0"
    and step: "\<And>j b n. compacted keep ps b0 j b n \<Longrightarrow> j < length ps \<Longrightarrow>
      body' j (withBuffer \<sigma> s b, n) = body (ps ! j) (withBuffer \<sigma> s b, n)"
  shows "case foldResult body' [i..<length ps] (withBuffer \<sigma> s b, n) of
      Inr t \<Rightarrow> (\<forall>j. i \<le> j \<and> j < length ps \<longrightarrow> (\<exists>k. keep (ps ! j) = Inr k)) \<and>
        (\<exists>b' n'. t = (withBuffer \<sigma> s b', n') \<and> compacted keep ps b0 (length ps) b' n')
    | Inl e \<Rightarrow> \<exists>p \<in> set ps. keep p = Inl e"
  using assms(1,2)
proof (induction "length ps - i" arbitrary: i b n)
  case 0
  then show ?case by auto
next
  case (Suc d)
  then have i: "i < length ps" "i < length b0" using assms(3) by auto
  have u: "[i..<length ps] = i # [Suc i..<length ps]" using i(1) by (simp add: upt_conv_Cons)
  note st = step [OF Suc.prems(1) i(1)]
  consider (bad) e where "keep (ps ! i) = Inl e" "body (ps ! i) (withBuffer \<sigma> s b, n) = Inl e"
    | (good) k b' n' where "keep (ps ! i) = Inr k" "body (ps ! i) (withBuffer \<sigma> s b, n) = Inr (withBuffer \<sigma> s b', n')"
        "compacted keep ps b0 (Suc i) b' n'"
    using body_step [OF Suc.prems(1) i, of \<sigma>] by blast
  then show ?case
  proof cases
    case bad
    then show ?thesis using u st i(1) by auto
  next
    case good
    have IH: "case foldResult body' [Suc i..<length ps] (withBuffer \<sigma> s b', n') of
        Inr t \<Rightarrow> (\<forall>j. Suc i \<le> j \<and> j < length ps \<longrightarrow> (\<exists>k. keep (ps ! j) = Inr k)) \<and>
          (\<exists>b' n'. t = (withBuffer \<sigma> s b', n') \<and> compacted keep ps b0 (length ps) b' n')
      | Inl e \<Rightarrow> \<exists>p \<in> set ps. keep p = Inl e"
      using Suc.hyps(1) [of "Suc i" b' n'] Suc.hyps(2) good(3) i(1) by simp
    have "\<exists>k. keep (ps ! j) = Inr k" if "i \<le> j" "\<forall>j. Suc i \<le> j \<and> j < length ps \<longrightarrow> (\<exists>k. keep (ps ! j) = Inr k)" "j < length ps" for j
      using that good(1) by (cases "j = i") auto
    then show ?thesis using IH u st good(2) by (auto split: sum.splits)
  qed
qed

lemma counter_compacts:
  assumes "n \<le> length (bufferOf \<sigma> s)"
  shows "case foldResult body [0..<n] (\<sigma>, 0) of
      Inr t \<Rightarrow> (\<forall>p < n. \<exists>k. keep p = Inr k) \<and>
        (\<exists>b' n'. t = (withBuffer \<sigma> s b', n') \<and> compacted keep [0..<n] (bufferOf \<sigma> s) n b' n')
    | Inl e \<Rightarrow> \<exists>p < n. keep p = Inl e"
proof -
  have c0: "compacted keep [0..<n] (bufferOf \<sigma> s) 0 (bufferOf \<sigma> s) 0" by (simp add: compacted_def)
  show ?thesis using fold_compacts [OF c0, of body \<sigma>] assms by (auto split: sum.splits)
qed

lemma select_compacts:
  assumes ok: "sel_ok (selVector (\<sigma> opS))" and len: "selectedSize (selVector (\<sigma> opS)) \<le> length (bufferOf \<sigma> s)"
  shows "case forEachSelectedIn opS body \<sigma> of
      Inr (\<sigma>', n) \<Rightarrow> (\<forall>p \<in> set (selectedPositions (selVector (\<sigma> opS))). \<exists>k. keep p = Inr k) \<and>
        (\<exists>b. \<sigma>' = withBuffer \<sigma> s b \<and> length b = length (bufferOf \<sigma> s) \<and>
          take n b = filter (\<lambda>p. keep p = Inr True) (selectedPositions (selVector (\<sigma> opS))) \<and>
          n = length (filter (\<lambda>p. keep p = Inr True) (selectedPositions (selVector (\<sigma> opS)))))
    | Inl e \<Rightarrow> \<exists>p \<in> set (selectedPositions (selVector (\<sigma> opS))). keep p = Inl e"
proof -
  let ?sv = "selVector (\<sigma> opS)" and ?b0 = "bufferOf \<sigma> s"
  let ?ps = "selectedPositions ?sv"
  let ?body' = "if isUnfiltered ?sv then body else (\<lambda>i t. body (selectedPosition (selVector (fst t opS)) i) t)"
  have c0: "compacted keep ?ps ?b0 0 ?b0 0" by (simp add: compacted_def)
  have st: "?body' j (withBuffer \<sigma> s b, n) = body (?ps ! j) (withBuffer \<sigma> s b, n)"
    if c: "compacted keep ?ps ?b0 j b n" and j: "j < length ?ps" for j b n
  proof (cases "selUnfiltered ?sv")
    case True
    then have "?ps = [0..<selectedSize ?sv]" using ok by (intro selectedPositions_unfiltered) (auto simp: sel_ok_def)
    then show ?thesis using True j by (simp add: isUnfiltered_def)
  next
    case False
    have "selectedPosition (selVector (withBuffer \<sigma> s b opS)) j = ?ps ! j"
    proof (cases "opS = s")
      case True
      then show ?thesis using False j c by (simp add: compacted_def bufferOf_def selectedPositions_def selectedPosition_def withBuffer_def)
    next
      case ne: False
      then show ?thesis using j by (simp add: selectedPositions_def)
    qed
    then show ?thesis using False by (simp add: isUnfiltered_def)
  qed
  have "forEachSelectedIn opS body \<sigma> = foldResult ?body' [0..<length ?ps] (withBuffer \<sigma> s ?b0, 0)"
    by (simp add: forEachSelectedIn_def Let_def)
  moreover have "(\<forall>j. 0 \<le> j \<and> j < length ?ps \<longrightarrow> (\<exists>k. keep (?ps ! j) = Inr k)) \<longleftrightarrow> (\<forall>p \<in> set ?ps. \<exists>k. keep p = Inr k)"
    by (simp add: all_set_conv_all_nth del: length_selectedPositions)
  moreover have "compacted keep ?ps ?b0 (length ?ps) b n \<Longrightarrow> length b = length ?b0 \<and>
      take n b = filter (\<lambda>p. keep p = Inr True) ?ps \<and> n = length (filter (\<lambda>p. keep p = Inr True) ?ps)" for b n
    by (auto simp: compacted_def simp del: length_selectedPositions)
  moreover have "case foldResult ?body' [0..<length ?ps] (withBuffer \<sigma> s ?b0, 0) of
      Inr t \<Rightarrow> (\<forall>j. 0 \<le> j \<and> j < length ?ps \<longrightarrow> (\<exists>k. keep (?ps ! j) = Inr k)) \<and>
        (\<exists>b' n'. t = (withBuffer \<sigma> s b', n') \<and> compacted keep ?ps ?b0 (length ?ps) b' n')
    | Inl e \<Rightarrow> \<exists>p \<in> set ?ps. keep p = Inl e"
    by (rule fold_compacts [OF c0 _ _ st]) (use len in simp_all)
  ultimately show ?thesis by (auto split: sum.splits)
qed

end

section \<open>Discarding null positions\<close>

text \<open>
  \<open>discardNull\<close> keeps the positions of a vector that are not null.  On an unfiltered selection the selector is switched to the
  buffer before the loop, whose body uses the loop counter as the position.
\<close>

definition discardNullBody :: "'a ValueVector \<Rightarrow> nat \<Rightarrow> chunk_states \<times> nat \<Rightarrow> (chunk_states \<times> nat) result" where
  "discardNullBody v pos t =
     (case t of (\<sigma>, selectedPos) \<Rightarrow>
        Inr (writeSelected \<sigma> (vecState v) selectedPos pos, selectedPos + (if isNull v pos then 0 else 1)))"

definition discardNull :: "chunk_states \<Rightarrow> 'a ValueVector \<Rightarrow> (bool \<times> chunk_states) result" where
  "discardNull \<sigma> v =
     (let s = vecState v in
      if isFlat (\<sigma> s) then Inr (\<not> isNull v (getPositionOfCurrIdx (\<sigma> s)), \<sigma>)
      else if hasNoNullsGuarantee v then Inr (True, \<sigma>)
      else bind_result
        (if isUnfiltered (selVector (\<sigma> s))
         then foldResult (discardNullBody v) [0..<selectedSize (selVector (\<sigma> s))] (mapSelVector resetSelectorToValuePosBuffer \<sigma> s, 0)
         else forEachSelectedIn s (discardNullBody v) \<sigma>)
        (\<lambda>(\<sigma>', selectedPos). Inr (0 < selectedPos, setSelectedSize \<sigma>' s selectedPos)))"

interpretation discard: compaction "discardNullBody v" "vecState v" "\<lambda>p. Inr (\<not> isNull v p)" for v :: "'a ValueVector"
  by unfold_locales (simp_all add: discardNullBody_def)

lemma selectedPositions_afterwards:
  assumes "take n b = ps" and "n \<le> length b"
  shows "selectedPositions (selVector (setSelectedSize (withBuffer (mapSelVector resetSelectorToValuePosBuffer \<sigma> s) s b) s n s)) = ps"
  using assms by (subst selectedPositions_filtered)
    (simp_all add: setSelectedSize_def mapSelVector_def resetSelectorToValuePosBuffer_def withBuffer_def)

lemma reset_filtered:
  assumes "\<not> selUnfiltered (selVector (\<sigma> s))"
  shows "mapSelVector resetSelectorToValuePosBuffer \<sigma> s = \<sigma>"
proof -
  have "resetSelectorToValuePosBuffer (selVector (\<sigma> s)) = selVector (\<sigma> s)"
    using assms by (cases "selVector (\<sigma> s)") (simp add: resetSelectorToValuePosBuffer_def)
  then show ?thesis by (simp add: mapSelVector_def)
qed

lemma sel_ok_filtered:
  assumes "sel_ok sv" and "selectedPositions sv' = filter P (selectedPositions sv)"
    and "selectedSize sv' \<le> length (selectedPositionsBuffer sv')" and "length (selectedPositionsBuffer sv') \<le> 2048"
  shows "sel_ok sv'"
  using assms unfolding sel_ok_def by (auto simp: list_all_iff)

lemma discardNull_keeps_non_null:
  assumes v: "vector_ok v" and s: "state_ok (\<sigma> (vecState v))" and unflat: "\<not> isFlat (\<sigma> (vecState v))"
  shows "\<exists>\<sigma>'. discardNull \<sigma> v = Inr (hasNoNullsGuarantee v \<or> selectedPositions (selVector (\<sigma>' (vecState v))) \<noteq> [], \<sigma>') \<and>
    selectedPositions (selVector (\<sigma>' (vecState v))) = filter (\<lambda>p. \<not> isNull v p) (selectedPositions (selVector (\<sigma> (vecState v)))) \<and>
    (\<forall>t. t \<noteq> vecState v \<longrightarrow> \<sigma>' t = \<sigma> t)"
proof -
  let ?s = "vecState v" and ?P = "\<lambda>p. \<not> isNull v p"
  let ?sv = "selVector (\<sigma> ?s)"
  let ?ps = "selectedPositions ?sv"
  let ?\<sigma>r = "mapSelVector resetSelectorToValuePosBuffer \<sigma> ?s"
  have ok: "sel_ok ?sv" using s by (simp add: state_ok_def)
  then have sz: "selectedSize ?sv \<le> length (bufferOf \<sigma> ?s)" and cap: "selectedSize ?sv \<le> 2048" by (simp_all add: sel_ok_def bufferOf_def)
  have bnd: "list_all (\<lambda>p. p < 2048) ?ps" using ok by (simp add: sel_ok_def)
  show ?thesis
  proof (cases "hasNoNullsGuarantee v")
    case True
    then have "filter ?P ?ps = ?ps" using v bnd by (auto simp: filter_id_conv list_all_iff no_nulls_guarantee)
    then show ?thesis using True unflat by (simp add: discardNull_def Let_def)
  next
    case g: False
    have goal: ?thesis if "discardNull \<sigma> v = Inr (0 < n, setSelectedSize (withBuffer ?\<sigma>r ?s b) ?s n)"
        "take n b = filter ?P ?ps" "n = length (filter ?P ?ps)" "length b = length (bufferOf \<sigma> ?s)" for n b
    proof -
      let ?\<sigma>' = "setSelectedSize (withBuffer ?\<sigma>r ?s b) ?s n"
      have "n \<le> length b" using that(2,3) by (metis length_take min.cobounded1)
      then have "selectedPositions (selVector (?\<sigma>' ?s)) = filter ?P ?ps"
        by (rule selectedPositions_afterwards [OF that(2)])
      moreover have "t \<noteq> ?s \<longrightarrow> ?\<sigma>' t = \<sigma> t" for t by (simp add: setSelectedSize_def mapSelVector_def)
      ultimately show ?thesis using that(1,3) g by (intro exI [of _ ?\<sigma>']) simp
    qed
    show ?thesis
    proof (cases "selUnfiltered ?sv")
      case True
      have pos: "?ps = [0..<selectedSize ?sv]" using True cap by (rule selectedPositions_unfiltered)
      have len: "selectedSize ?sv \<le> length (bufferOf ?\<sigma>r ?s)" "bufferOf ?\<sigma>r ?s = bufferOf \<sigma> ?s"
        using sz by (simp_all add: bufferOf_def mapSelVector_def resetSelectorToValuePosBuffer_def)
      obtain b n where r: "foldResult (discardNullBody v) [0..<selectedSize ?sv] (?\<sigma>r, 0) = Inr (withBuffer ?\<sigma>r ?s b, n)"
          and c: "compacted (\<lambda>p. Inr (\<not> isNull v p)) [0..<selectedSize ?sv] (bufferOf \<sigma> ?s) (selectedSize ?sv) b n"
        using discard.counter_compacts [where v = v, OF len(1)] len(2) by (auto split: sum.splits)
      show ?thesis
      proof (rule goal)
        show "discardNull \<sigma> v = Inr (0 < n, setSelectedSize (withBuffer ?\<sigma>r ?s b) ?s n)"
          using unflat g True r by (simp add: discardNull_def Let_def isUnfiltered_def)
      qed (use c in \<open>auto simp: compacted_def pos\<close>)
    next
      case False
      then have same: "?\<sigma>r = \<sigma>" by (rule reset_filtered)
      obtain b n where "forEachSelectedIn ?s (discardNullBody v) \<sigma> = Inr (withBuffer \<sigma> ?s b, n)"
          "length b = length (bufferOf \<sigma> ?s)" "take n b = filter ?P ?ps" "n = length (filter ?P ?ps)"
        using discard.select_compacts [where v = v and \<sigma> = \<sigma> and opS = ?s, OF ok sz] by (auto split: sum.splits)
      then show ?thesis using unflat g False by (intro goal [of n b]) (simp_all add: discardNull_def Let_def isUnfiltered_def same)
    qed
  qed
qed

end
