(* ===== verification/Operation_Executor.thy ===== *)
theory Operation_Executor
  imports Value_Vector
begin

text \<open>
  The vectorised executors of scalar functions: \<^verbatim>\<open>src/src/function/include/unary_operation_executor.h\<close>,
  \<^verbatim>\<open>src/src/function/include/binary_operation_executor.h\<close> and \<^verbatim>\<open>src/src/function/include/ternary_operation_executor.h\<close>.
  The function that the templates get as \<open>FUNC\<close> with its wrapper is a parameter that returns a value or throws.  The theorems
  compare the executors with the pointwise definition: the function at every selected position, null when an operand is null.
\<close>

section \<open>Unary operations\<close>

definition unaryExecuteOnValue :: "('a \<Rightarrow> 'r result) \<Rightarrow> 'a ValueVector \<Rightarrow> nat \<Rightarrow> 'r ValueVector \<Rightarrow> 'r ValueVector result" where
  "unaryExecuteOnValue f operand pos res = bind_result (f (vecValues operand ! pos)) (\<lambda>x. Inr (setValue res pos x))"

text \<open>The step that the executors take where nulls may occur: set the null bit of the result, then compute unless it is set.\<close>

definition setNullThen :: "bool \<Rightarrow> nat \<Rightarrow> ('r ValueVector \<Rightarrow> 'r ValueVector result) \<Rightarrow> 'r ValueVector \<Rightarrow> 'r ValueVector result" where
  "setNullThen isNullOperand resPos executeOnValue res =
     (let res' = setNull res resPos isNullOperand in
      if \<not> isNull res' resPos then executeOnValue res' else Inr res')"

definition unaryExecuteSwitch :: "chunk_states \<Rightarrow> ('a \<Rightarrow> 'r result) \<Rightarrow> 'a ValueVector \<Rightarrow> 'r ValueVector \<Rightarrow> 'r ValueVector result" where
  "unaryExecuteSwitch \<sigma> f operand res0 =
     (let res = setState res0 (vecState operand); st = \<sigma> (vecState operand) in
      if isFlat st then
        let pos = getPositionOfCurrIdx st in setNullThen (isNull operand pos) pos (unaryExecuteOnValue f operand pos) res
      else if hasNoNullsGuarantee operand then
        forEachSelected (selVector st) (\<lambda>i. unaryExecuteOnValue f operand i) res
      else
        forEachSelected (selVector st) (\<lambda>i. setNullThen (isNull operand i) i (unaryExecuteOnValue f operand i)) res)"

section \<open>Binary operations\<close>

definition binExecuteOnValue ::
  "('a \<Rightarrow> 'b \<Rightarrow> 'r result) \<Rightarrow> 'a ValueVector \<Rightarrow> 'b ValueVector \<Rightarrow> nat \<Rightarrow> nat \<Rightarrow> nat \<Rightarrow> 'r ValueVector \<Rightarrow> 'r ValueVector result" where
  "binExecuteOnValue f left right lPos rPos resPos res =
     bind_result (f (vecValues left ! lPos) (vecValues right ! rPos)) (\<lambda>x. Inr (setValue res resPos x))"

definition binExecuteBothFlat ::
  "chunk_states \<Rightarrow> ('a \<Rightarrow> 'b \<Rightarrow> 'r result) \<Rightarrow> 'a ValueVector \<Rightarrow> 'b ValueVector \<Rightarrow> 'r ValueVector \<Rightarrow> 'r ValueVector result" where
  "binExecuteBothFlat \<sigma> f left right res0 =
     (let res = setState res0 (vecState left);
          lPos = getPositionOfCurrIdx (\<sigma> (vecState left));
          rPos = getPositionOfCurrIdx (\<sigma> (vecState right));
          resPos = getPositionOfCurrIdx (\<sigma> (vecState res))
      in setNullThen (isNull left lPos \<or> isNull right rPos) resPos (binExecuteOnValue f left right lPos rPos resPos) res)"

definition binExecuteFlatUnFlat ::
  "chunk_states \<Rightarrow> ('a \<Rightarrow> 'b \<Rightarrow> 'r result) \<Rightarrow> 'a ValueVector \<Rightarrow> 'b ValueVector \<Rightarrow> 'r ValueVector \<Rightarrow> 'r ValueVector result" where
  "binExecuteFlatUnFlat \<sigma> f left right res0 =
     (let res = setState res0 (vecState right);
          lPos = getPositionOfCurrIdx (\<sigma> (vecState left));
          sv = selVector (\<sigma> (vecState right))
      in if isNull left lPos then Inr (setAllNull res)
         else if hasNoNullsGuarantee right then forEachSelected sv (\<lambda>i. binExecuteOnValue f left right lPos i i) res
         else forEachSelected sv (\<lambda>i. setNullThen (isNull right i) i (binExecuteOnValue f left right lPos i i)) res)"

definition binExecuteUnFlatFlat ::
  "chunk_states \<Rightarrow> ('a \<Rightarrow> 'b \<Rightarrow> 'r result) \<Rightarrow> 'a ValueVector \<Rightarrow> 'b ValueVector \<Rightarrow> 'r ValueVector \<Rightarrow> 'r ValueVector result" where
  "binExecuteUnFlatFlat \<sigma> f left right res0 =
     (let res = setState res0 (vecState left);
          rPos = getPositionOfCurrIdx (\<sigma> (vecState right));
          sv = selVector (\<sigma> (vecState left))
      in if isNull right rPos then Inr (setAllNull res)
         else if hasNoNullsGuarantee left then forEachSelected sv (\<lambda>i. binExecuteOnValue f left right i rPos i) res
         else forEachSelected sv (\<lambda>i. setNullThen (isNull left i) i (binExecuteOnValue f left right i rPos i)) res)"

definition binExecuteBothUnFlat ::
  "chunk_states \<Rightarrow> ('a \<Rightarrow> 'b \<Rightarrow> 'r result) \<Rightarrow> 'a ValueVector \<Rightarrow> 'b ValueVector \<Rightarrow> 'r ValueVector \<Rightarrow> 'r ValueVector result" where
  "binExecuteBothUnFlat \<sigma> f left right res0 =
     (let res = setState res0 (vecState left);
          sv = selVector (\<sigma> (vecState res))
      in if hasNoNullsGuarantee left \<and> hasNoNullsGuarantee right
         then forEachSelected sv (\<lambda>i. binExecuteOnValue f left right i i i) res
         else forEachSelected sv (\<lambda>i. setNullThen (isNull left i \<or> isNull right i) i (binExecuteOnValue f left right i i i)) res)"

definition binExecuteSwitch ::
  "chunk_states \<Rightarrow> ('a \<Rightarrow> 'b \<Rightarrow> 'r result) \<Rightarrow> 'a ValueVector \<Rightarrow> 'b ValueVector \<Rightarrow> 'r ValueVector \<Rightarrow> 'r ValueVector result" where
  "binExecuteSwitch \<sigma> f left right res =
     (let lFlat = isFlat (\<sigma> (vecState left)); rFlat = isFlat (\<sigma> (vecState right)) in
      if lFlat \<and> rFlat then binExecuteBothFlat \<sigma> f left right res
      else if lFlat \<and> \<not> rFlat then binExecuteFlatUnFlat \<sigma> f left right res
      else if \<not> lFlat \<and> rFlat then binExecuteUnFlatFlat \<sigma> f left right res
      else binExecuteBothUnFlat \<sigma> f left right res)"

text \<open>The selections: \<open>FUNC\<close> writes a byte that starts as 0, and a position passes when the byte is 1.\<close>

definition selectOnValue ::
  "('a \<Rightarrow> 'b \<Rightarrow> u8 result) \<Rightarrow> 'a ValueVector \<Rightarrow> 'b ValueVector \<Rightarrow> nat \<Rightarrow> nat \<Rightarrow> nat \<Rightarrow> state_id \<Rightarrow>
   chunk_states \<times> nat \<Rightarrow> (chunk_states \<times> nat) result" where
  "selectOnValue f left right lPos rPos resPos s t =
     bind_result (f (vecValues left ! lPos) (vecValues right ! rPos)) (\<lambda>resultValue.
       case t of (\<sigma>, numSelectedValues) \<Rightarrow>
         Inr (writeSelected \<sigma> s numSelectedValues resPos, numSelectedValues + (if resultValue = 1 then 1 else 0)))"

definition unless :: "bool \<Rightarrow> ('t \<Rightarrow> 't result) \<Rightarrow> 't \<Rightarrow> 't result" where
  "unless isNullOperand step t = (if \<not> isNullOperand then step t else Inr t)"

definition selectBothFlat ::
  "chunk_states \<Rightarrow> ('a \<Rightarrow> 'b \<Rightarrow> u8 result) \<Rightarrow> 'a ValueVector \<Rightarrow> 'b ValueVector \<Rightarrow> bool result" where
  "selectBothFlat \<sigma> f left right =
     (let lPos = getPositionOfCurrIdx (\<sigma> (vecState left)); rPos = getPositionOfCurrIdx (\<sigma> (vecState right)) in
      bind_result (if \<not> isNull left lPos \<and> \<not> isNull right rPos then f (vecValues left ! lPos) (vecValues right ! rPos) else Inr 0)
        (\<lambda>resultValue. Inr (resultValue = 1)))"

definition finishSelect :: "state_id \<Rightarrow> (chunk_states \<times> nat) result \<Rightarrow> (bool \<times> chunk_states) result" where
  "finishSelect s r = bind_result r (\<lambda>(\<sigma>, numSelectedValues). Inr (0 < numSelectedValues, setSelectedSize \<sigma> s numSelectedValues))"

definition selectFlatUnFlat ::
  "chunk_states \<Rightarrow> ('a \<Rightarrow> 'b \<Rightarrow> u8 result) \<Rightarrow> 'a ValueVector \<Rightarrow> 'b ValueVector \<Rightarrow> state_id \<Rightarrow> (bool \<times> chunk_states) result" where
  "selectFlatUnFlat \<sigma> f left right s =
     (let lPos = getPositionOfCurrIdx (\<sigma> (vecState left)) in
      if isNull left lPos then Inr (False, \<sigma>)
      else finishSelect s
        (if hasNoNullsGuarantee right then forEachSelectedIn (vecState right) (\<lambda>i. selectOnValue f left right lPos i i s) \<sigma>
         else forEachSelectedIn (vecState right) (\<lambda>i. unless (isNull right i) (selectOnValue f left right lPos i i s)) \<sigma>))"

definition selectUnFlatFlat ::
  "chunk_states \<Rightarrow> ('a \<Rightarrow> 'b \<Rightarrow> u8 result) \<Rightarrow> 'a ValueVector \<Rightarrow> 'b ValueVector \<Rightarrow> state_id \<Rightarrow> (bool \<times> chunk_states) result" where
  "selectUnFlatFlat \<sigma> f left right s =
     (let rPos = getPositionOfCurrIdx (\<sigma> (vecState right)) in
      if isNull right rPos then Inr (False, \<sigma>)
      else finishSelect s
        (if hasNoNullsGuarantee left then forEachSelectedIn (vecState left) (\<lambda>i. selectOnValue f left right i rPos i s) \<sigma>
         else forEachSelectedIn (vecState left) (\<lambda>i. unless (isNull left i) (selectOnValue f left right i rPos i s)) \<sigma>))"

definition selectBothUnFlat ::
  "chunk_states \<Rightarrow> ('a \<Rightarrow> 'b \<Rightarrow> u8 result) \<Rightarrow> 'a ValueVector \<Rightarrow> 'b ValueVector \<Rightarrow> state_id \<Rightarrow> (bool \<times> chunk_states) result" where
  "selectBothUnFlat \<sigma> f left right s =
     finishSelect s
       (if hasNoNullsGuarantee left \<and> hasNoNullsGuarantee right
        then forEachSelectedIn (vecState left) (\<lambda>i. selectOnValue f left right i i i s) \<sigma>
        else forEachSelectedIn (vecState left) (\<lambda>i. unless (isNull left i \<or> isNull right i) (selectOnValue f left right i i i s)) \<sigma>)"

definition binSelect ::
  "chunk_states \<Rightarrow> ('a \<Rightarrow> 'b \<Rightarrow> u8 result) \<Rightarrow> 'a ValueVector \<Rightarrow> 'b ValueVector \<Rightarrow> state_id \<Rightarrow> (bool \<times> chunk_states) result" where
  "binSelect \<sigma> f left right s =
     (let lFlat = isFlat (\<sigma> (vecState left)); rFlat = isFlat (\<sigma> (vecState right)) in
      if lFlat \<and> rFlat then bind_result (selectBothFlat \<sigma> f left right) (\<lambda>b. Inr (b, \<sigma>))
      else if lFlat \<and> \<not> rFlat then selectFlatUnFlat \<sigma> f left right s
      else if \<not> lFlat \<and> rFlat then selectUnFlatFlat \<sigma> f left right s
      else selectBothUnFlat \<sigma> f left right s)"

section \<open>The pointwise definition\<close>

text \<open>The value of an operand that belongs to position \<open>p\<close> of the result: a flat operand has one value for all positions.\<close>

definition operandAt :: "chunk_states \<Rightarrow> 'a ValueVector \<Rightarrow> nat \<Rightarrow> 'a option" where
  "operandAt \<sigma> v p = valueAt v (if isFlat (\<sigma> (vecState v)) then getPositionOfCurrIdx (\<sigma> (vecState v)) else p)"

fun lift1 :: "('a \<Rightarrow> 'r result) \<Rightarrow> 'a option \<Rightarrow> 'r option result" where
  "lift1 f None = Inr None"
| "lift1 f (Some x) = bind_result (f x) (\<lambda>y. Inr (Some y))"

fun lift2 :: "('a \<Rightarrow> 'b \<Rightarrow> 'r result) \<Rightarrow> 'a option \<Rightarrow> 'b option \<Rightarrow> 'r option result" where
  "lift2 f (Some x) (Some y) = bind_result (f x y) (\<lambda>z. Inr (Some z))"
| "lift2 f _ _ = Inr None"

text \<open>
  The executor delivers what is wanted at the positions \<open>ps\<close>, in a vector with state \<open>s\<close>; or it throws, and then the
  exception is that of one of the positions.
\<close>

definition delivers :: "nat list \<Rightarrow> state_id \<Rightarrow> (nat \<Rightarrow> 'r option result) \<Rightarrow> 'r ValueVector result \<Rightarrow> bool" where
  "delivers ps s want r \<longleftrightarrow>
     (case r of
        Inr v \<Rightarrow> vector_ok v \<and> vecState v = s \<and> (\<forall>p \<in> set ps. want p = Inr (valueAt v p))
      | Inl e \<Rightarrow> \<exists>p \<in> set ps. want p = Inl e)"

lemma delivers_cong: "(\<And>p. p \<in> set ps \<Longrightarrow> want p = want' p) \<Longrightarrow> delivers ps s want r = delivers ps s want' r"
  by (auto simp: delivers_def split: sum.splits)

lemma delivers_want: "delivers ps s want' r \<Longrightarrow> (\<And>p. p \<in> set ps \<Longrightarrow> want p = want' p) \<Longrightarrow> delivers ps s want r"
  using delivers_cong [of ps want want'] by blast

section \<open>Loop bodies\<close>

definition fastBody :: "(nat \<Rightarrow> 'r result) \<Rightarrow> nat \<Rightarrow> 'r ValueVector \<Rightarrow> 'r ValueVector result" where
  "fastBody val p res = bind_result (val p) (\<lambda>x. Inr (setValue res p x))"

definition nullBody :: "(nat \<Rightarrow> bool) \<Rightarrow> (nat \<Rightarrow> 'r result) \<Rightarrow> nat \<Rightarrow> 'r ValueVector \<Rightarrow> 'r ValueVector result" where
  "nullBody nul val p = setNullThen (nul p) p (fastBody val p)"

definition vecCell :: "'r ValueVector \<Rightarrow> nat \<Rightarrow> bool \<times> 'r" where
  "vecCell v p = (isNull v p, vecValues v ! p)"

definition fastOut :: "(nat \<Rightarrow> 'r result) \<Rightarrow> nat \<Rightarrow> bool \<times> 'r \<Rightarrow> (bool \<times> 'r) result" where
  "fastOut val p c = bind_result (val p) (\<lambda>x. Inr (fst c, x))"

definition nullOut :: "(nat \<Rightarrow> bool) \<Rightarrow> (nat \<Rightarrow> 'r result) \<Rightarrow> nat \<Rightarrow> bool \<times> 'r \<Rightarrow> (bool \<times> 'r) result" where
  "nullOut nul val p c = (if nul p then Inr (True, snd c) else bind_result (val p) (\<lambda>x. Inr (False, x)))"

interpretation fast: positionwise "fastBody val" "\<lambda>v. vector_ok v \<and> vecState v = s" vecCell "fastOut val" 2048
  for val :: "nat \<Rightarrow> 'r result" and s
proof unfold_locales
  fix v :: "'r ValueVector" and p e
  assume "fastOut val p (vecCell v p) = Inl e"
  then show "fastBody val p v = Inl e" by (auto simp: fastOut_def fastBody_def bind_result_eq_Inl)
next
  fix v :: "'r ValueVector" and p c
  assume v: "vector_ok v \<and> vecState v = s" and p: "p < 2048" and o: "fastOut val p (vecCell v p) = Inr c"
  then obtain x where x: "val p = Inr x" "c = (isNull v p, x)"
    by (auto simp: fastOut_def bind_result_eq_Inr vecCell_def)
  then show "\<exists>v'. fastBody val p v = Inr v' \<and> (vector_ok v' \<and> vecState v' = s) \<and> vecCell v' p = c \<and>
      (\<forall>q. q \<noteq> p \<longrightarrow> vecCell v' q = vecCell v q)"
    using v p by (intro exI [of _ "setValue v p x"]) (auto simp: fastBody_def vecCell_def length_vecValues)
qed

interpretation guarded: positionwise "nullBody nul val" "\<lambda>v. vector_ok v \<and> vecState v = s" vecCell "nullOut nul val" 2048
  for nul and val :: "nat \<Rightarrow> 'r result" and s
proof unfold_locales
  fix v :: "'r ValueVector" and p e
  assume "vector_ok v \<and> vecState v = s" "p < 2048" "nullOut nul val p (vecCell v p) = Inl e"
  then show "nullBody nul val p v = Inl e"
    by (auto simp: nullOut_def nullBody_def setNullThen_def fastBody_def isNull_setNull bind_result_eq_Inl Let_def split: if_splits)
next
  fix v :: "'r ValueVector" and p c
  assume v: "vector_ok v \<and> vecState v = s" and p: "p < 2048" and o: "nullOut nul val p (vecCell v p) = Inr c"
  have n: "isNull (setNull v p b) q = (if q = p then b else isNull v q)" for b q using v p by (simp add: isNull_setNull)
  show "\<exists>v'. nullBody nul val p v = Inr v' \<and> (vector_ok v' \<and> vecState v' = s) \<and> vecCell v' p = c \<and>
      (\<forall>q. q \<noteq> p \<longrightarrow> vecCell v' q = vecCell v q)"
  proof (cases "nul p")
    case True
    then show ?thesis using v p o n
      by (intro exI [of _ "setNull v p True"]) (simp add: nullBody_def nullOut_def setNullThen_def vecCell_def Let_def)
  next
    case False
    then obtain x where x: "val p = Inr x" "c = (False, x)" using o by (auto simp: nullOut_def bind_result_eq_Inr)
    then show ?thesis using v p n False
      by (intro exI [of _ "setValue (setNull v p False) p x"])
        (auto simp: nullBody_def setNullThen_def fastBody_def vecCell_def length_vecValues Let_def)
  qed
qed

text \<open>What the two kinds of loop deliver; the loop without null bits does so only where the result had no null before.\<close>

definition wanted :: "(nat \<Rightarrow> bool) \<Rightarrow> (nat \<Rightarrow> 'r result) \<Rightarrow> nat \<Rightarrow> 'r option result" where
  "wanted nul val p = (if nul p then Inr None else bind_result (val p) (\<lambda>x. Inr (Some x)))"

lemma nullBody_loop:
  assumes "vector_ok res" and "sel_ok sv"
  shows "delivers (selectedPositions sv) (vecState res) (wanted nul val) (forEachSelected sv (nullBody nul val) res)"
proof -
  have o: "wanted nul val p = Inr (valueAt v' p)" if "nullOut nul val p c = Inr (vecCell v' p)" for v' p c
    using that by (auto simp: nullOut_def wanted_def vecCell_def valueAt_def bind_result_eq_Inr split: if_splits)
  have e: "wanted nul val p = Inl e" if "nullOut nul val p c = Inl e" for p c e
    using that by (auto simp: nullOut_def wanted_def bind_result_eq_Inl split: if_splits)
  note L = guarded.loop [where nul = nul and val = val and v = res and s = "vecState res" and ps = "selectedPositions sv"]
  have ok: "distinct (selectedPositions sv)" "list_all (\<lambda>p. p < 2048) (selectedPositions sv)" using assms(2) by (simp_all add: sel_ok_def)
  show ?thesis
  proof (cases "foldResult (nullBody nul val) (selectedPositions sv) res")
    case (Inl x)
    then obtain p where "p \<in> set (selectedPositions sv)" "nullOut nul val p (vecCell res p) = Inl x" using L ok assms(1) by auto
    then show ?thesis using Inl e [of p "vecCell res p" x] by (auto simp: delivers_def forEachSelected_eq [OF assms(2)])
  next
    case (Inr v')
    then have "vector_ok v'" "vecState v' = vecState res" "\<forall>p \<in> set (selectedPositions sv). nullOut nul val p (vecCell res p) = Inr (vecCell v' p)"
      using L ok assms(1) by simp_all
    moreover have "\<forall>p \<in> set (selectedPositions sv). wanted nul val p = Inr (valueAt v' p)" using calculation(3) o by blast
    ultimately show ?thesis using Inr by (simp add: delivers_def forEachSelected_eq [OF assms(2)])
  qed
qed

lemma fastBody_loop:
  assumes "vector_ok res" and "sel_ok sv" and "\<And>p. p \<in> set (selectedPositions sv) \<Longrightarrow> \<not> isNull res p"
  shows "delivers (selectedPositions sv) (vecState res) (wanted (\<lambda>_. False) val) (forEachSelected sv (fastBody val) res)"
proof -
  have o: "wanted (\<lambda>_. False) val p = Inr (valueAt v' p)" if "fastOut val p (vecCell res p) = Inr (vecCell v' p)"
      "p \<in> set (selectedPositions sv)" for v' p
    using that assms(3) by (auto simp: fastOut_def wanted_def vecCell_def valueAt_def bind_result_eq_Inr split: if_splits)
  have e: "wanted (\<lambda>_. False) val p = Inl e" if "fastOut val p c = Inl e" for p c e
    using that by (auto simp: fastOut_def wanted_def bind_result_eq_Inl split: if_splits)
  note L = fast.loop [where val = val and v = res and s = "vecState res" and ps = "selectedPositions sv"]
  have ok: "distinct (selectedPositions sv)" "list_all (\<lambda>p. p < 2048) (selectedPositions sv)" using assms(2) by (simp_all add: sel_ok_def)
  show ?thesis
  proof (cases "foldResult (fastBody val) (selectedPositions sv) res")
    case (Inl x)
    then obtain p where "p \<in> set (selectedPositions sv)" "fastOut val p (vecCell res p) = Inl x" using L ok assms(1) by auto
    then show ?thesis using Inl e [of p "vecCell res p" x] by (auto simp: delivers_def forEachSelected_eq [OF assms(2)])
  next
    case (Inr v')
    then have "vector_ok v'" "vecState v' = vecState res" "\<forall>p \<in> set (selectedPositions sv). fastOut val p (vecCell res p) = Inr (vecCell v' p)"
      using L ok assms(1) by simp_all
    moreover have "\<forall>p \<in> set (selectedPositions sv). wanted (\<lambda>_. False) val p = Inr (valueAt v' p)" using calculation(3) o by blast
    ultimately show ?thesis using Inr by (simp add: delivers_def forEachSelected_eq [OF assms(2)])
  qed
qed

lemma nullBody_once:
  assumes "vector_ok res" and "p < 2048"
  shows "delivers [p] (vecState res) (wanted nul val) (nullBody nul val p res)"
proof (cases "nullOut nul val p (vecCell res p)")
  case (Inl e)
  then have "nullBody nul val p res = Inl e" using guarded.throws [of res "vecState res" p nul val e] assms by simp
  then show ?thesis using Inl by (auto simp: delivers_def nullOut_def wanted_def bind_result_eq_Inl split: if_splits)
next
  case (Inr c)
  then obtain v' where "nullBody nul val p res = Inr v'" "vector_ok v'" "vecState v' = vecState res" "vecCell v' p = c"
    using guarded.writes [of res "vecState res" p nul val c] assms by auto
  then show ?thesis using Inr
    by (auto simp: delivers_def nullOut_def wanted_def vecCell_def valueAt_def bind_result_eq_Inr split: if_splits)
qed

section \<open>The executors deliver the pointwise definition\<close>

definition resultState :: "chunk_states \<Rightarrow> 'a ValueVector \<Rightarrow> 'b ValueVector \<Rightarrow> state_id" where
  "resultState \<sigma> left right =
     (if isFlat (\<sigma> (vecState left)) \<and> \<not> isFlat (\<sigma> (vecState right)) then vecState right else vecState left)"

text \<open>What the callers guarantee: well-formed vectors and states, and one state for two unflat operands.\<close>

definition operands_ok :: "chunk_states \<Rightarrow> 'a ValueVector \<Rightarrow> 'b ValueVector \<Rightarrow> bool" where
  "operands_ok \<sigma> left right \<longleftrightarrow> vector_ok left \<and> vector_ok right \<and>
     state_ok (\<sigma> (vecState left)) \<and> state_ok (\<sigma> (vecState right)) \<and>
     (isFlat (\<sigma> (vecState left)) \<or> isFlat (\<sigma> (vecState right)) \<or> vecState left = vecState right)"

text \<open>
  The result has no null bits from an earlier batch, unless an unflat operand may contain nulls, so that the executor writes
  the null bits of all selected positions.
\<close>

definition cleanResult :: "chunk_states \<Rightarrow> 'a ValueVector \<Rightarrow> 'b ValueVector \<Rightarrow> 'r ValueVector \<Rightarrow> bool" where
  "cleanResult \<sigma> left right res \<longleftrightarrow> hasNoNullsGuarantee res \<or>
     (isFlat (\<sigma> (vecState left)) \<and> isFlat (\<sigma> (vecState right))) \<or>
     (\<not> isFlat (\<sigma> (vecState left)) \<and> \<not> hasNoNullsGuarantee left) \<or>
     (\<not> isFlat (\<sigma> (vecState right)) \<and> \<not> hasNoNullsGuarantee right)"

lemma lift2_valueAt:
  "lift2 f (valueAt l a) (valueAt r b) =
     (if isNull l a \<or> isNull r b then Inr None else bind_result (f (vecValues l ! a) (vecValues r ! b)) (\<lambda>z. Inr (Some z)))"
  by (simp add: valueAt_def)

lemma hasNoNullsGuarantee_setState [simp]: "hasNoNullsGuarantee (setState v s) = hasNoNullsGuarantee v"
  by (simp add: hasNoNullsGuarantee_def setState_def)

lemma setAllNull_delivers:
  "vector_ok res \<Longrightarrow> list_all (\<lambda>p. p < 2048) ps \<Longrightarrow> (\<And>p. p \<in> set ps \<Longrightarrow> want p = Inr None) \<Longrightarrow>
   delivers ps (vecState res) want (Inr (setAllNull res))"
  by (simp add: delivers_def valueAt_def isNull_setAllNull list_all_iff)

lemma selected_bound: "sel_ok sv \<Longrightarrow> p \<in> set (selectedPositions sv) \<Longrightarrow> p < 2048"
  by (auto simp: sel_ok_def list_all_iff)

lemma fastBody_loop_clean:
  assumes "vector_ok res" and "sel_ok sv" and "hasNoNullsGuarantee res"
    and "\<And>p. p \<in> set (selectedPositions sv) \<Longrightarrow> want p = wanted (\<lambda>_. False) val p"
  shows "delivers (selectedPositions sv) (vecState res) want (forEachSelected sv (fastBody val) res)"
proof -
  have "\<not> isNull res p" if "p \<in> set (selectedPositions sv)" for p
    using that assms(1-3) selected_bound no_nulls_guarantee by blast
  then show ?thesis using fastBody_loop [OF assms(1,2)] delivers_cong assms(4) by blast
qed

lemma nullBody_loop_cong:
  assumes "vector_ok res" and "sel_ok sv" and "\<And>p. p \<in> set (selectedPositions sv) \<Longrightarrow> want p = wanted nul val p"
  shows "delivers (selectedPositions sv) (vecState res) want (forEachSelected sv (nullBody nul val) res)"
  using nullBody_loop [OF assms(1,2)] delivers_cong assms(3) by blast

lemma bin_bodies:
  "(\<lambda>i. binExecuteOnValue f l r lPos i i) = fastBody (\<lambda>i. f (vecValues l ! lPos) (vecValues r ! i))"
  "(\<lambda>i. binExecuteOnValue f l r i rPos i) = fastBody (\<lambda>i. f (vecValues l ! i) (vecValues r ! rPos))"
  "(\<lambda>i. binExecuteOnValue f l r i i i) = fastBody (\<lambda>i. f (vecValues l ! i) (vecValues r ! i))"
  "(\<lambda>i. setNullThen (n i) i (binExecuteOnValue f l r lPos i i)) = nullBody n (\<lambda>i. f (vecValues l ! lPos) (vecValues r ! i))"
  "(\<lambda>i. setNullThen (n i) i (binExecuteOnValue f l r i rPos i)) = nullBody n (\<lambda>i. f (vecValues l ! i) (vecValues r ! rPos))"
  "(\<lambda>i. setNullThen (n i) i (binExecuteOnValue f l r i i i)) = nullBody n (\<lambda>i. f (vecValues l ! i) (vecValues r ! i))"
  by (simp_all add: fun_eq_iff fastBody_def nullBody_def binExecuteOnValue_def setNullThen_def Let_def)

lemma bin_body_once:
  "setNullThen b p (binExecuteOnValue f l r lPos rPos p) = nullBody (\<lambda>_. b) (\<lambda>_. f (vecValues l ! lPos) (vecValues r ! rPos)) p"
  by (simp add: fun_eq_iff fastBody_def nullBody_def binExecuteOnValue_def setNullThen_def Let_def)

text \<open>The choice that every executor makes for unflat operands.\<close>

lemma unflat_delivers:
  assumes "vector_ok res" and "sel_ok sv" and "guarantee \<Longrightarrow> hasNoNullsGuarantee res"
    and "\<And>p. guarantee \<Longrightarrow> p < 2048 \<Longrightarrow> \<not> nul p"
    and "\<And>p. want p = wanted nul val p"
  shows "delivers (selectedPositions sv) (vecState res) want
    (if guarantee then forEachSelected sv (fastBody val) res else forEachSelected sv (nullBody nul val) res)"
proof (cases guarantee)
  case True
  have "want p = wanted (\<lambda>_. False) val p" if "p \<in> set (selectedPositions sv)" for p
    using that assms(4) [OF True] selected_bound [OF assms(2)] assms(5) by (simp add: wanted_def)
  then show ?thesis using True fastBody_loop_clean [OF assms(1,2) assms(3) [OF True]] by simp
next
  case False
  then show ?thesis using nullBody_loop_cong [OF assms(1,2), of want nul val] assms(5) by simp
qed

lemma binExecuteBothFlat_delivers:
  assumes "operands_ok \<sigma> left right" and "vector_ok res"
    and "isFlat (\<sigma> (vecState left))" and "isFlat (\<sigma> (vecState right))"
  shows "delivers (activePositions (\<sigma> (vecState left))) (vecState left)
    (\<lambda>p. lift2 f (operandAt \<sigma> left p) (operandAt \<sigma> right p)) (binExecuteBothFlat \<sigma> f left right res)"
proof -
  let ?l = "getPositionOfCurrIdx (\<sigma> (vecState left))" and ?r = "getPositionOfCurrIdx (\<sigma> (vecState right))"
  have "?l < 2048" using assms by (simp add: operands_ok_def getPositionOfCurrIdx_bound)
  then have d: "delivers [?l] (vecState left) (wanted (\<lambda>_. isNull left ?l \<or> isNull right ?r) (\<lambda>_. f (vecValues left ! ?l) (vecValues right ! ?r)))
      (binExecuteBothFlat \<sigma> f left right res)"
    using nullBody_once [of "setState res (vecState left)" ?l] assms(2) by (simp add: binExecuteBothFlat_def Let_def bin_body_once)
  have "lift2 f (operandAt \<sigma> left ?l) (operandAt \<sigma> right ?l) =
      wanted (\<lambda>_. isNull left ?l \<or> isNull right ?r) (\<lambda>_. f (vecValues left ! ?l) (vecValues right ! ?r)) ?l"
    using assms(3,4) by (simp add: operandAt_def lift2_valueAt wanted_def)
  then have "delivers [?l] (vecState left) (\<lambda>p. lift2 f (operandAt \<sigma> left p) (operandAt \<sigma> right p)) (binExecuteBothFlat \<sigma> f left right res)"
    by (intro delivers_want [OF d]) simp
  then show ?thesis using assms(3) by (simp add: activePositions_def)
qed

lemma binExecuteFlatUnFlat_delivers:
  assumes "operands_ok \<sigma> left right" and "vector_ok res" and "cleanResult \<sigma> left right res"
    and "isFlat (\<sigma> (vecState left))" and "\<not> isFlat (\<sigma> (vecState right))"
  shows "delivers (activePositions (\<sigma> (vecState right))) (vecState right)
    (\<lambda>p. lift2 f (operandAt \<sigma> left p) (operandAt \<sigma> right p)) (binExecuteFlatUnFlat \<sigma> f left right res)"
proof -
  let ?l = "getPositionOfCurrIdx (\<sigma> (vecState left))" and ?sv = "selVector (\<sigma> (vecState right))"
  let ?res = "setState res (vecState right)"
  have ok: "sel_ok ?sv" "vector_ok right" "vector_ok ?res" "vecState ?res = vecState right"
    using assms(1,2) by (simp_all add: operands_ok_def state_ok_def)
  have w: "lift2 f (operandAt \<sigma> left p) (operandAt \<sigma> right p) = (if isNull left ?l then Inr None
      else wanted (isNull right) (\<lambda>i. f (vecValues left ! ?l) (vecValues right ! i)) p)" for p
    using assms(4,5) by (simp add: operandAt_def lift2_valueAt wanted_def)
  have a: "activePositions (\<sigma> (vecState right)) = selectedPositions ?sv" using assms(5) by (simp add: activePositions_def)
  have nn: "\<And>p. hasNoNullsGuarantee right \<Longrightarrow> p < 2048 \<Longrightarrow> \<not> isNull right p" by (auto simp: no_nulls_guarantee ok)
  have g: "hasNoNullsGuarantee right \<Longrightarrow> hasNoNullsGuarantee ?res" using assms(3-5) by (simp add: cleanResult_def)
  show ?thesis
  proof (cases "isNull left ?l")
    case True
    then show ?thesis using setAllNull_delivers [OF ok(3)] ok(1,4) w a by (simp add: binExecuteFlatUnFlat_def Let_def sel_ok_def)
  next
    case False
    have w': "lift2 f (operandAt \<sigma> left p) (operandAt \<sigma> right p) = wanted (isNull right) (\<lambda>i. f (vecValues left ! ?l) (vecValues right ! i)) p" for p using w False by simp
    show ?thesis using unflat_delivers [where guarantee = "hasNoNullsGuarantee right", OF ok(3,1) g nn w'] False ok(4) a by (simp add: binExecuteFlatUnFlat_def Let_def bin_bodies cong: if_cong split del: if_split)
  qed
qed

lemma binExecuteUnFlatFlat_delivers:
  assumes "operands_ok \<sigma> left right" and "vector_ok res" and "cleanResult \<sigma> left right res"
    and "\<not> isFlat (\<sigma> (vecState left))" and "isFlat (\<sigma> (vecState right))"
  shows "delivers (activePositions (\<sigma> (vecState left))) (vecState left)
    (\<lambda>p. lift2 f (operandAt \<sigma> left p) (operandAt \<sigma> right p)) (binExecuteUnFlatFlat \<sigma> f left right res)"
proof -
  let ?r = "getPositionOfCurrIdx (\<sigma> (vecState right))" and ?sv = "selVector (\<sigma> (vecState left))"
  let ?res = "setState res (vecState left)"
  have ok: "sel_ok ?sv" "vector_ok left" "vector_ok ?res" "vecState ?res = vecState left"
    using assms(1,2) by (simp_all add: operands_ok_def state_ok_def)
  have w: "lift2 f (operandAt \<sigma> left p) (operandAt \<sigma> right p) = (if isNull right ?r then Inr None
      else wanted (isNull left) (\<lambda>i. f (vecValues left ! i) (vecValues right ! ?r)) p)" for p
    using assms(4,5) by (simp add: operandAt_def lift2_valueAt wanted_def)
  have a: "activePositions (\<sigma> (vecState left)) = selectedPositions ?sv" using assms(4) by (simp add: activePositions_def)
  have nn: "\<And>p. hasNoNullsGuarantee left \<Longrightarrow> p < 2048 \<Longrightarrow> \<not> isNull left p" by (auto simp: no_nulls_guarantee ok)
  have g: "hasNoNullsGuarantee left \<Longrightarrow> hasNoNullsGuarantee ?res" using assms(3-5) by (simp add: cleanResult_def)
  show ?thesis
  proof (cases "isNull right ?r")
    case True
    then show ?thesis using setAllNull_delivers [OF ok(3)] ok(1,4) w a by (simp add: binExecuteUnFlatFlat_def Let_def sel_ok_def)
  next
    case False
    have w': "lift2 f (operandAt \<sigma> left p) (operandAt \<sigma> right p) = wanted (isNull left) (\<lambda>i. f (vecValues left ! i) (vecValues right ! ?r)) p" for p using w False by simp
    show ?thesis using unflat_delivers [where guarantee = "hasNoNullsGuarantee left", OF ok(3,1) g nn w'] False ok(4) a by (simp add: binExecuteUnFlatFlat_def Let_def bin_bodies cong: if_cong split del: if_split)
  qed
qed

lemma binExecuteBothUnFlat_delivers:
  assumes "operands_ok \<sigma> left right" and "vector_ok res" and "cleanResult \<sigma> left right res"
    and "\<not> isFlat (\<sigma> (vecState left))" and "\<not> isFlat (\<sigma> (vecState right))"
  shows "delivers (activePositions (\<sigma> (vecState left))) (vecState left)
    (\<lambda>p. lift2 f (operandAt \<sigma> left p) (operandAt \<sigma> right p)) (binExecuteBothUnFlat \<sigma> f left right res)"
proof -
  let ?sv = "selVector (\<sigma> (vecState left))" and ?res = "setState res (vecState left)"
  have ok: "sel_ok ?sv" "vector_ok left" "vector_ok right" "vector_ok ?res" "vecState ?res = vecState left"
    using assms(1,2) by (simp_all add: operands_ok_def state_ok_def)
  have w: "lift2 f (operandAt \<sigma> left p) (operandAt \<sigma> right p) =
      wanted (\<lambda>i. isNull left i \<or> isNull right i) (\<lambda>i. f (vecValues left ! i) (vecValues right ! i)) p" for p
    using assms(4,5) by (simp add: operandAt_def lift2_valueAt wanted_def)
  have a: "activePositions (\<sigma> (vecState left)) = selectedPositions ?sv" using assms(4) by (simp add: activePositions_def)
  have nn: "\<And>p. hasNoNullsGuarantee left \<and> hasNoNullsGuarantee right \<Longrightarrow> p < 2048 \<Longrightarrow> \<not> (isNull left p \<or> isNull right p)" by (auto simp: no_nulls_guarantee ok)
  have g: "hasNoNullsGuarantee left \<and> hasNoNullsGuarantee right \<Longrightarrow> hasNoNullsGuarantee ?res" using assms(3-5) by (simp add: cleanResult_def)
  show ?thesis using unflat_delivers [where guarantee = "hasNoNullsGuarantee left \<and> hasNoNullsGuarantee right", OF ok(4,1) g nn w] ok(5) a by (simp add: binExecuteBothUnFlat_def Let_def bin_bodies cong: if_cong split del: if_split)
qed

text \<open>
  C24: the binary executor, in each of its combinations of flat and unflat operands, filtered and unfiltered selections and with
  or without null checks, gives every selected position of the result the value of the function at the operands of that
  position, null when one of them is null; an exception is that of one of the selected positions.  The result must not carry
  null bits from an earlier batch.\<close>

theorem binary_execute_is_pointwise:
  assumes "operands_ok \<sigma> left right" and "vector_ok res" and "cleanResult \<sigma> left right res"
  shows "delivers (activePositions (\<sigma> (resultState \<sigma> left right))) (resultState \<sigma> left right)
    (\<lambda>p. lift2 f (operandAt \<sigma> left p) (operandAt \<sigma> right p)) (binExecuteSwitch \<sigma> f left right res)"
  using assms
  by (simp add: binExecuteSwitch_def Let_def resultState_def binExecuteBothFlat_delivers binExecuteFlatUnFlat_delivers
      binExecuteUnFlatFlat_delivers binExecuteBothUnFlat_delivers)

subsection \<open>States for examples\<close>

lemma state_ok_unfiltered:
  "n \<le> cap \<Longrightarrow> cap \<le> 2048 \<Longrightarrow> state_ok (initOriginalAndSelectedSize (newDataChunkState cap) n)"
proof -
  assume n: "n \<le> cap" "cap \<le> 2048"
  let ?sv = "selVector (initOriginalAndSelectedSize (newDataChunkState cap) n)"
  have "selectedPositions ?sv = [0..<n]"
    using n by (subst selectedPositions_unfiltered) (simp_all add: initOriginalAndSelectedSize_def newDataChunkState_def newSelectionVector_def)
  then show ?thesis using n
    by (simp add: state_ok_def sel_ok_def list_all_iff isFlat_def initOriginalAndSelectedSize_def newDataChunkState_def newSelectionVector_def)
qed

lemma state_ok_single: "state_ok getSingleValueDataChunkState"
  by (simp add: state_ok_def sel_ok_def isFlat_def getSingleValueDataChunkState_def newDataChunkState_def newSelectionVector_def
      selectedPositions_def selectedPosition_def INCREMENTAL_SELECTED_POS_def Let_def)

lemma flat_single [simp]: "isFlat getSingleValueDataChunkState" "getPositionOfCurrIdx getSingleValueDataChunkState = 0"
  by (simp_all add: isFlat_def getPositionOfCurrIdx_def getSingleValueDataChunkState_def newDataChunkState_def newSelectionVector_def
      selectedPosition_def INCREMENTAL_SELECTED_POS_def Let_def)

lemma unfiltered_simps [simp]:
  "\<not> isFlat (initOriginalAndSelectedSize (newDataChunkState cap) n)"
  "n \<le> 2048 \<Longrightarrow> activePositions (initOriginalAndSelectedSize (newDataChunkState cap) n) = [0..<n]"
proof -
  show u: "\<not> isFlat (initOriginalAndSelectedSize (newDataChunkState cap) n)"
    by (simp add: isFlat_def initOriginalAndSelectedSize_def newDataChunkState_def)
  show "n \<le> 2048 \<Longrightarrow> activePositions (initOriginalAndSelectedSize (newDataChunkState cap) n) = [0..<n]"
    using u unfolding activePositions_def
    by (simp, subst selectedPositions_unfiltered) (simp_all add: initOriginalAndSelectedSize_def newDataChunkState_def newSelectionVector_def)
qed

definition exampleStates :: chunk_states where
  "exampleStates s = (if s = 0 then getSingleValueDataChunkState else initOriginalAndSelectedSize (newDataChunkState 2048) 3)"

lemma exampleStates_simps [simp]:
  "exampleStates 0 = getSingleValueDataChunkState"
  "exampleStates (Suc s) = initOriginalAndSelectedSize (newDataChunkState 2048) 3"
  by (simp_all add: exampleStates_def)

text \<open>Seven, as a flat vector, and an unflat vector with values 0, 0, 0 of which the second is null.\<close>

definition exampleSeven :: "int ValueVector" where
  "exampleSeven = setValue (newValueVector 0 0) 0 7"

definition exampleNulls :: "int ValueVector" where
  "exampleNulls = setNull (newValueVector 0 1) 1 True"

lemma newValueVector_simps [simp]: "vecState (newValueVector x s) = s" "vecValues (newValueVector x s) = replicate 2048 x"
  by (simp_all add: newValueVector_def)

lemma isNull_newValueVector: "p < 2048 \<Longrightarrow> \<not> isNull (newValueVector x s) p"
  by (simp add: isNull_def newValueVector_def maskIsNull_setAll)

lemma example_vectors [simp]:
  "vector_ok exampleSeven" "vector_ok exampleNulls" "vecState exampleSeven = 0" "vecState exampleNulls = 1"
  "valueAt exampleSeven 0 = Some 7" "valueAt exampleNulls 0 = Some 0" "valueAt exampleNulls (Suc 0) = None"
  by (simp_all add: exampleSeven_def exampleNulls_def valueAt_def isNull_newValueVector isNull_setNull)

lemma example_operands: "operands_ok exampleStates exampleSeven exampleNulls"
  by (simp add: operands_ok_def state_ok_single state_ok_unfiltered)

lemma guarantee_newValueVector [simp]: "hasNoNullsGuarantee (newValueVector x s)"
  by (simp add: hasNoNullsGuarantee_def maskHasNoNullsGuarantee_def newValueVector_def newNullMask_def)

theorem binary_execute_is_pointwise_witness:
  "\<exists>v. binExecuteSwitch exampleStates (\<lambda>x y. Inr (x + y)) exampleSeven exampleNulls (newValueVector 0 5) = Inr v \<and>
     valueAt v 0 = Some 7 \<and> valueAt v 1 = None \<and> vecState v = 1"
proof -
  have "cleanResult exampleStates exampleSeven exampleNulls (newValueVector 0 5 :: int ValueVector)" by (simp add: cleanResult_def)
  from binary_execute_is_pointwise [OF example_operands _ this, of "\<lambda>x y. Inr (x + y)"]
  have d: "delivers [0..<3] 1 (\<lambda>p. lift2 (\<lambda>x y. Inr (x + y)) (operandAt exampleStates exampleSeven p) (operandAt exampleStates exampleNulls p))
      (binExecuteSwitch exampleStates (\<lambda>x y. Inr (x + y)) exampleSeven exampleNulls (newValueVector 0 5))"
    by (simp add: resultState_def)
  have no: "lift2 (\<lambda>x y. Inr (x + y)) a b \<noteq> Inl e" for a b :: "int option" and e by (cases a; cases b) simp_all
  show ?thesis
  proof (cases "binExecuteSwitch exampleStates (\<lambda>x y. Inr (x + y)) exampleSeven exampleNulls (newValueVector 0 5)")
    case (Inl e)
    then show ?thesis using d no by (simp add: delivers_def)
  next
    case (Inr v)
    then have s: "vecState v = 1" and w: "\<forall>p \<in> {0..<3}. lift2 (\<lambda>x y. Inr (x + y)) (operandAt exampleStates exampleSeven p)
        (operandAt exampleStates exampleNulls p) = Inr (valueAt v p)"
      using d by (simp_all add: delivers_def)
    have "Inr (valueAt v 0) = (Inr (Some 7) :: int option result)" using w [rule_format, of 0] by (simp add: operandAt_def)
    moreover have "Inr (valueAt v 1) = (Inr None :: int option result)" using w [rule_format, of 1] by (simp add: operandAt_def)
    ultimately show ?thesis using s Inr by simp
  qed
qed

section \<open>Null bits of an earlier batch\<close>

text \<open>
  C37: the null bits of the result are not cleared between batches.  When a flat operand is null, the executor sets all null
  bits of the result; when the next batch has no nulls at all, the loop without null checks writes the values and leaves the
  bits, so every selected position of the second batch reads as null although both operands have a value there.\<close>

theorem stale_nulls_hide_next_batch:
  assumes "operands_ok \<sigma> left right" and "isFlat (\<sigma> (vecState left))" and "\<not> isFlat (\<sigma> (vecState right))"
    and "vector_ok res" and "isNull left (getPositionOfCurrIdx (\<sigma> (vecState left)))"
    and "operands_ok \<sigma>2 left2 right2" and "isFlat (\<sigma>2 (vecState left2))" and "\<not> isFlat (\<sigma>2 (vecState right2))"
    and "\<not> isNull left2 (getPositionOfCurrIdx (\<sigma>2 (vecState left2)))" and "hasNoNullsGuarantee right2"
    and "binExecuteSwitch \<sigma> f left right res = Inr res1" and "binExecuteSwitch \<sigma>2 f left2 right2 res1 = Inr res2"
    and "p \<in> set (activePositions (\<sigma>2 (vecState right2)))"
  shows "operandAt \<sigma>2 left2 p \<noteq> None \<and> operandAt \<sigma>2 right2 p \<noteq> None \<and> valueAt res2 p = None"
proof (intro conjI)
  let ?sv = "selVector (\<sigma>2 (vecState right2))" and ?res = "setState res1 (vecState right2)"
  let ?val = "\<lambda>i. f (vecValues left2 ! getPositionOfCurrIdx (\<sigma>2 (vecState left2))) (vecValues right2 ! i)"
  have ok: "sel_ok ?sv" "vector_ok right2" using assms(6) by (simp_all add: operands_ok_def state_ok_def)
  have p: "p \<in> set (selectedPositions ?sv)" using assms(8,13) by (simp add: activePositions_def)
  have bound: "p < 2048" using selected_bound [OF ok(1) p] .
  show "operandAt \<sigma>2 left2 p \<noteq> None" using assms(7,9) by (simp add: operandAt_def valueAt_def)
  show "operandAt \<sigma>2 right2 p \<noteq> None" using assms(8,10) ok bound by (simp add: operandAt_def valueAt_def no_nulls_guarantee)
  have r1: "res1 = setAllNull (setState res (vecState right))" using assms(2,3,5,11) by (simp add: binExecuteSwitch_def binExecuteFlatUnFlat_def)
  have "foldResult (fastBody ?val) (selectedPositions ?sv) ?res = Inr res2"
    using assms(7-10,12) by (simp add: binExecuteSwitch_def binExecuteFlatUnFlat_def Let_def bin_bodies forEachSelected_eq [OF ok(1)])
  then have "fastOut ?val p (vecCell ?res p) = Inr (vecCell res2 p)"
    using fast.loop [where val = ?val and v = ?res and s = "vecState right2" and ps = "selectedPositions ?sv"] ok(1) p r1 assms(4)
    by (simp add: sel_ok_def)
  moreover have "isNull ?res p" using r1 bound by (simp add: isNull_setAllNull)
  ultimately show "valueAt res2 p = None" by (auto simp: fastOut_def vecCell_def valueAt_def bind_result_eq_Inr)
qed

definition exampleNullFlat :: "int ValueVector" where
  "exampleNullFlat = setNull (newValueVector 0 0) 0 True"

theorem stale_nulls_hide_next_batch_witness:
  "\<exists>res1 res2. binExecuteSwitch exampleStates (\<lambda>x y. Inr (x + y)) exampleNullFlat (newValueVector 1 1) (newValueVector 0 5) = Inr res1 \<and>
     binExecuteSwitch exampleStates (\<lambda>x y. Inr (x + y)) exampleSeven (newValueVector 1 1) res1 = Inr res2 \<and>
     operandAt exampleStates exampleSeven 2 \<noteq> None \<and> operandAt exampleStates (newValueVector (1::int) 1) 2 \<noteq> None \<and> valueAt res2 2 = None"
proof -
  let ?f = "\<lambda>x y :: int. Inr (x + y) :: int result" and ?r = "newValueVector 1 1 :: int ValueVector" and ?res = "newValueVector 0 5 :: int ValueVector"
  have s: "vecState ?r = 1" "vecState exampleNullFlat = 0" by (simp_all add: exampleNullFlat_def)
  have n: "isNull exampleNullFlat 0" "vector_ok exampleNullFlat" "\<not> isNull exampleSeven 0"
    by (simp_all add: exampleNullFlat_def isNull_setNull exampleSeven_def isNull_newValueVector)
  have ops: "operands_ok exampleStates exampleNullFlat ?r" "operands_ok exampleStates exampleSeven ?r"
    using s n by (simp_all add: operands_ok_def state_ok_single state_ok_unfiltered)
  have flat: "isFlat (exampleStates (vecState exampleNullFlat))" "isFlat (exampleStates (vecState exampleSeven))"
    "\<not> isFlat (exampleStates (vecState ?r))" using s by simp_all
  obtain res1 where r1: "binExecuteSwitch exampleStates ?f exampleNullFlat ?r ?res = Inr res1" "vector_ok res1"
    using flat n s by (simp add: binExecuteSwitch_def binExecuteFlatUnFlat_def)
  have "foldResult (fastBody (\<lambda>i. ?f a (b i))) ps v \<noteq> Inl e" for a b ps v e
    by (induction ps arbitrary: v) (simp_all add: fastBody_def)
  moreover have "sel_ok (selVector (exampleStates 1))" using state_ok_unfiltered [of 3 2048] by (simp add: state_ok_def)
  ultimately obtain res2 where r2: "binExecuteSwitch exampleStates ?f exampleSeven ?r res1 = Inr res2"
    using flat n s by (cases "binExecuteSwitch exampleStates ?f exampleSeven ?r res1")
      (auto simp: binExecuteSwitch_def binExecuteFlatUnFlat_def Let_def bin_bodies forEachSelected_eq)
  have "operandAt exampleStates exampleSeven 2 \<noteq> None \<and> operandAt exampleStates ?r 2 \<noteq> None \<and> valueAt res2 2 = None"
    using stale_nulls_hide_next_batch [OF ops(1) flat(1,3) _ _ ops(2) flat(2,3) _ _ r1(1) r2, of 2] n s by simp
  then show ?thesis using r1 r2 by blast
qed

section \<open>Unary operations are pointwise\<close>

lemma unary_bodies:
  "(\<lambda>i. unaryExecuteOnValue f v i) = fastBody (\<lambda>i. f (vecValues v ! i))"
  "(\<lambda>i. setNullThen (n i) i (unaryExecuteOnValue f v i)) = nullBody n (\<lambda>i. f (vecValues v ! i))"
  "(\<lambda>i. setNullThen (n i) i (fastBody val i)) = nullBody n val"
  by (simp_all add: fun_eq_iff fastBody_def nullBody_def unaryExecuteOnValue_def setNullThen_def Let_def)

text \<open>The unary executor gives the function at every selected position, null where the operand is null.\<close>

lemma unary_execute_is_pointwise:
  assumes "vector_ok operand" and "state_ok (\<sigma> (vecState operand))" and "vector_ok res"
    and "hasNoNullsGuarantee operand \<Longrightarrow> \<not> isFlat (\<sigma> (vecState operand)) \<Longrightarrow> hasNoNullsGuarantee res"
  shows "delivers (activePositions (\<sigma> (vecState operand))) (vecState operand) (\<lambda>p. lift1 f (operandAt \<sigma> operand p))
    (unaryExecuteSwitch \<sigma> f operand res)"
proof -
  let ?st = "\<sigma> (vecState operand)" and ?res = "setState res (vecState operand)"
  let ?pos = "getPositionOfCurrIdx ?st"
  have w: "lift1 f (valueAt operand p) = wanted (isNull operand) (\<lambda>i. f (vecValues operand ! i)) p" for p
    by (simp add: valueAt_def wanted_def)
  have res: "vector_ok ?res" "vecState ?res = vecState operand" using assms(3) by simp_all
  show ?thesis
  proof (cases "isFlat ?st")
    case True
    have "delivers [?pos] (vecState operand) (\<lambda>p. lift1 f (operandAt \<sigma> operand p)) (nullBody (isNull operand) (\<lambda>i. f (vecValues operand ! i)) ?pos ?res)"
    proof (rule delivers_want)
      show "delivers [?pos] (vecState operand) (wanted (isNull operand) (\<lambda>i. f (vecValues operand ! i)))
          (nullBody (isNull operand) (\<lambda>i. f (vecValues operand ! i)) ?pos ?res)"
        using nullBody_once [OF res(1) getPositionOfCurrIdx_bound [OF assms(2) True]] res(2) by simp
    qed (use True w in \<open>simp add: operandAt_def\<close>)
    moreover have "unaryExecuteSwitch \<sigma> f operand res = nullBody (isNull operand) (\<lambda>i. f (vecValues operand ! i)) ?pos ?res"
      using True fun_cong [OF unary_bodies(2) [of "isNull operand" f operand], of ?pos]
      by (simp add: unaryExecuteSwitch_def Let_def)
    ultimately show ?thesis using True by (simp add: activePositions_def)
  next
    case False
    have g: "hasNoNullsGuarantee operand \<Longrightarrow> hasNoNullsGuarantee ?res" using assms(4) False by simp
    have nn: "\<And>p. hasNoNullsGuarantee operand \<Longrightarrow> p < 2048 \<Longrightarrow> \<not> isNull operand p" using assms(1) by (simp add: no_nulls_guarantee)
    have ok: "sel_ok (selVector ?st)" using assms(2) by (simp add: state_ok_def)
    show ?thesis using unflat_delivers [where guarantee = "hasNoNullsGuarantee operand", OF res(1) ok g nn w] False res(2)
      by (simp add: unaryExecuteSwitch_def Let_def unary_bodies activePositions_def operandAt_def cong: if_cong split del: if_split)
  qed
qed

section \<open>Selections filter\<close>

definition selectBody :: "(nat \<Rightarrow> bool) \<Rightarrow> (nat \<Rightarrow> u8 result) \<Rightarrow> state_id \<Rightarrow> nat \<Rightarrow> chunk_states \<times> nat \<Rightarrow> (chunk_states \<times> nat) result" where
  "selectBody nul val s p = unless (nul p) (\<lambda>t. bind_result (val p) (\<lambda>x. case t of (\<sigma>, n) \<Rightarrow>
     Inr (writeSelected \<sigma> s n p, n + (if x = 1 then 1 else 0))))"

definition passes :: "(nat \<Rightarrow> bool) \<Rightarrow> (nat \<Rightarrow> u8 result) \<Rightarrow> nat \<Rightarrow> bool result" where
  "passes nul val p = (if nul p then Inr False else bind_result (val p) (\<lambda>x. Inr (x = 1)))"

interpretation selecting: compaction "selectBody nul val s" s "passes nul val" for nul val s
  by unfold_locales (auto simp: selectBody_def passes_def unless_def bind_result_eq_Inr bind_result_eq_Inl split: if_splits)

text \<open>
  What a selection promises: it keeps, in order, the active positions at which the predicate is true, and answers whether there
  is one; when it answers no, the caller discards the selection.
\<close>

definition selects :: "chunk_states \<Rightarrow> state_id \<Rightarrow> (nat \<Rightarrow> u8 option result) \<Rightarrow> (bool \<times> chunk_states) result \<Rightarrow> bool" where
  "selects \<sigma> s want r \<longleftrightarrow>
     (let ps = activePositions (\<sigma> s); kept = filter (\<lambda>p. want p = Inr (Some 1)) ps in
      case r of
        Inl e \<Rightarrow> \<exists>p \<in> set ps. want p = Inl e
      | Inr (b, \<sigma>') \<Rightarrow> (\<forall>p \<in> set ps. \<exists>x. want p = Inr x) \<and> (b \<longleftrightarrow> kept \<noteq> []) \<and>
          (b \<longrightarrow> \<not> isFlat (\<sigma> s) \<longrightarrow> selectedPositions (resetSelectorToValuePosBuffer (selVector (\<sigma>' s))) = kept) \<and>
          (\<forall>t. t \<noteq> s \<longrightarrow> \<sigma>' t = \<sigma> t))"

lemma selects_cong:
  assumes "\<And>p. p \<in> set (activePositions (\<sigma> s)) \<Longrightarrow> want p = want' p"
  shows "selects \<sigma> s want r = selects \<sigma> s want' r"
proof -
  have f: "filter (\<lambda>p. want p = Inr (Some 1)) (activePositions (\<sigma> s)) = filter (\<lambda>p. want' p = Inr (Some 1)) (activePositions (\<sigma> s))"
    using assms by (simp cong: filter_cong)
  have b: "(\<exists>p \<in> set (activePositions (\<sigma> s)). want p = Inl e) \<longleftrightarrow> (\<exists>p \<in> set (activePositions (\<sigma> s)). want' p = Inl e)"
      "(\<forall>p \<in> set (activePositions (\<sigma> s)). \<exists>x. want p = Inr x) \<longleftrightarrow> (\<forall>p \<in> set (activePositions (\<sigma> s)). \<exists>x. want' p = Inr x)" for e
    using assms by simp_all
  show ?thesis unfolding selects_def Let_def f b ..
qed

lemma wanted_passes:
  "passes nul val p = Inr True \<longleftrightarrow> wanted nul val p = Inr (Some 1)" "passes nul val p = Inl e \<longleftrightarrow> wanted nul val p = Inl e"
  "(\<exists>k. passes nul val p = Inr k) \<longleftrightarrow> (\<exists>x. wanted nul val p = Inr x)"
  by (cases "val p"; auto simp: passes_def wanted_def)+

lemma selectedPositions_setSelectedSize:
  assumes "take n b = ps" and "n \<le> length b"
  shows "selectedPositions (resetSelectorToValuePosBuffer (selVector (setSelectedSize (withBuffer \<sigma> s b) s n s))) = ps"
  using assms by (subst selectedPositions_filtered)
    (simp_all add: setSelectedSize_def resetSelectorToValuePosBuffer_def withBuffer_def)

lemma finishSelect_selects:
  assumes "state_ok (\<sigma> s)" and "\<not> isFlat (\<sigma> s)" and want: "\<And>p. want p = wanted nul val p"
  shows "selects \<sigma> s want (finishSelect s (forEachSelectedIn s (selectBody nul val s) \<sigma>))"
proof -
  let ?ps = "selectedPositions (selVector (\<sigma> s))"
  let ?kept = "filter (\<lambda>p. want p = Inr (Some 1)) ?ps"
  have ok: "sel_ok (selVector (\<sigma> s))" using assms(1) by (simp add: state_ok_def)
  have a: "activePositions (\<sigma> s) = ?ps" using assms(2) by (simp add: activePositions_def)
  have len: "selectedSize (selVector (\<sigma> s)) \<le> length (bufferOf \<sigma> s)" using ok by (simp add: sel_ok_def bufferOf_def)
  note L = selecting.select_compacts [where nul = nul and val = val and s = s and opS = s and \<sigma> = \<sigma>, OF ok len,
      unfolded wanted_passes, folded want]
  show ?thesis
  proof (cases "forEachSelectedIn s (selectBody nul val s) \<sigma>")
    case (Inl e)
    then show ?thesis using L by (simp add: selects_def finishSelect_def a)
  next
    case (Inr t)
    then obtain n b where r: "t = (withBuffer \<sigma> s b, n)" "length b = length (bufferOf \<sigma> s)" "take n b = ?kept" "n = length ?kept"
        and all: "\<forall>p \<in> set ?ps. \<exists>x. want p = Inr x"
      using L by (cases t) auto
    have "n \<le> length b" using r(3,4) by (metis length_take min.cobounded1)
    then have "selectedPositions (resetSelectorToValuePosBuffer (selVector (setSelectedSize (withBuffer \<sigma> s b) s n s))) = ?kept"
      by (rule selectedPositions_setSelectedSize [OF r(3)])
    moreover have "(0 < n) = (?kept \<noteq> [])" using r(4) by simp
    moreover have "\<forall>t. t \<noteq> s \<longrightarrow> setSelectedSize (withBuffer \<sigma> s b) s n t = \<sigma> t" by (simp add: setSelectedSize_def)
    ultimately show ?thesis using Inr r(1) all unfolding selects_def a Let_def by (simp add: finishSelect_def)
  qed
qed

lemma select_bodies:
  "(\<lambda>i. unless (n i) (selectOnValue f l r lPos i i s)) = selectBody n (\<lambda>i. f (vecValues l ! lPos) (vecValues r ! i)) s"
  "(\<lambda>i. unless (n i) (selectOnValue f l r i rPos i s)) = selectBody n (\<lambda>i. f (vecValues l ! i) (vecValues r ! rPos)) s"
  "(\<lambda>i. unless (n i) (selectOnValue f l r i i i s)) = selectBody n (\<lambda>i. f (vecValues l ! i) (vecValues r ! i)) s"
  by (simp_all add: fun_eq_iff selectBody_def selectOnValue_def unless_def)

lemma unless_False: "selectOnValue f l r lPos rPos resPos s = unless False (selectOnValue f l r lPos rPos resPos s)"
  by (simp add: fun_eq_iff unless_def)

text \<open>Skipping the null checks is the same as doing them when there are no nulls among the selected positions.\<close>

lemma selectBody_no_nulls:
  assumes "state_ok (\<sigma> s)" and "\<not> isFlat (\<sigma> s)" and "\<And>p. want p = wanted nul val p" and "\<And>p. p < 2048 \<Longrightarrow> \<not> nul p"
  shows "selects \<sigma> s want (finishSelect s (forEachSelectedIn s (selectBody (\<lambda>_. False) val s) \<sigma>))"
proof -
  have "selects \<sigma> s (wanted (\<lambda>_. False) val) (finishSelect s (forEachSelectedIn s (selectBody (\<lambda>_. False) val s) \<sigma>))"
    by (rule finishSelect_selects [where \<sigma> = \<sigma> and s = s, OF assms(1,2)]) simp
  moreover have "want p = wanted (\<lambda>_. False) val p" if "p \<in> set (activePositions (\<sigma> s))" for p
    using assms(3,4) activePositions_bound [OF assms(1) that] by (simp add: wanted_def)
  ultimately show ?thesis using selects_cong [of \<sigma> s want] by blast
qed

lemma selects_none:
  assumes "\<And>p. want p = Inr None"
  shows "selects \<sigma> s want (Inr (False, \<sigma>))"
  using assms by (simp add: selects_def)

lemma select_choice:
  assumes "state_ok (\<sigma> s)" and "\<not> isFlat (\<sigma> s)" and "\<And>p. want p = wanted nul val p" and "\<And>p. guarantee \<Longrightarrow> p < 2048 \<Longrightarrow> \<not> nul p"
  shows "selects \<sigma> s want (finishSelect s (if guarantee then forEachSelectedIn s (selectBody (\<lambda>_. False) val s) \<sigma>
    else forEachSelectedIn s (selectBody nul val s) \<sigma>))"
  using finishSelect_selects [where \<sigma> = \<sigma> and s = s, OF assms(1-3)] selectBody_no_nulls [where \<sigma> = \<sigma> and s = s, OF assms(1-3)] assms(4) by simp

lemma select_flat_unflat:
  assumes "operands_ok \<sigma> left right" and fu: "isFlat (\<sigma> (vecState left))" "\<not> isFlat (\<sigma> (vecState right))"
  shows "selects \<sigma> (resultState \<sigma> left right) (\<lambda>p. lift2 f (operandAt \<sigma> left p) (operandAt \<sigma> right p))
    (binSelect \<sigma> f left right (resultState \<sigma> left right))"
proof -
  let ?L = "\<sigma> (vecState left)" and ?R = "\<sigma> (vecState right)"
  let ?l = "getPositionOfCurrIdx ?L" and ?r = "getPositionOfCurrIdx ?R"
  let ?want = "\<lambda>p. lift2 f (operandAt \<sigma> left p) (operandAt \<sigma> right p)"
  have ok: "vector_ok left" "vector_ok right" "state_ok ?L" "state_ok ?R" using assms by (simp_all add: operands_ok_def)
  have nr: "\<And>p. hasNoNullsGuarantee right \<Longrightarrow> p < 2048 \<Longrightarrow> \<not> isNull right p" using ok by (simp add: no_nulls_guarantee)
  have w: "?want p = (if isNull left ?l then Inr None
      else wanted (isNull right) (\<lambda>i. f (vecValues left ! ?l) (vecValues right ! i)) p)" for p
    using fu by (simp add: operandAt_def lift2_valueAt wanted_def)
  show ?thesis
  proof (cases "isNull left ?l")
    case True
    then show ?thesis using fu w by (simp add: binSelect_def selectFlatUnFlat_def resultState_def selects_none)
  next
    case False
    then have w': "?want p = wanted (isNull right) (\<lambda>i. f (vecValues left ! ?l) (vecValues right ! i)) p" for p using w by simp
    show ?thesis using select_choice [where \<sigma> = \<sigma> and s = "vecState right" and guarantee = "hasNoNullsGuarantee right", OF ok(4) fu(2) w' nr] fu False
      unfolding select_bodies(1) [symmetric] unless_False [symmetric]
      by (simp add: binSelect_def selectFlatUnFlat_def resultState_def Let_def)
  qed
qed

lemma select_unflat_flat:
  assumes "operands_ok \<sigma> left right" and uf: "\<not> isFlat (\<sigma> (vecState left))" "isFlat (\<sigma> (vecState right))"
  shows "selects \<sigma> (resultState \<sigma> left right) (\<lambda>p. lift2 f (operandAt \<sigma> left p) (operandAt \<sigma> right p))
    (binSelect \<sigma> f left right (resultState \<sigma> left right))"
proof -
  let ?L = "\<sigma> (vecState left)" and ?R = "\<sigma> (vecState right)"
  let ?l = "getPositionOfCurrIdx ?L" and ?r = "getPositionOfCurrIdx ?R"
  let ?want = "\<lambda>p. lift2 f (operandAt \<sigma> left p) (operandAt \<sigma> right p)"
  have ok: "vector_ok left" "vector_ok right" "state_ok ?L" "state_ok ?R" using assms by (simp_all add: operands_ok_def)
  have nl: "\<And>p. hasNoNullsGuarantee left \<Longrightarrow> p < 2048 \<Longrightarrow> \<not> isNull left p" using ok by (simp add: no_nulls_guarantee)
  have w: "?want p = (if isNull right ?r then Inr None
      else wanted (isNull left) (\<lambda>i. f (vecValues left ! i) (vecValues right ! ?r)) p)" for p
    using uf by (simp add: operandAt_def lift2_valueAt wanted_def)
  show ?thesis
  proof (cases "isNull right ?r")
    case True
    then show ?thesis using uf w by (simp add: binSelect_def selectUnFlatFlat_def resultState_def selects_none)
  next
    case False
    then have w': "?want p = wanted (isNull left) (\<lambda>i. f (vecValues left ! i) (vecValues right ! ?r)) p" for p using w by simp
    show ?thesis using select_choice [where \<sigma> = \<sigma> and s = "vecState left" and guarantee = "hasNoNullsGuarantee left", OF ok(3) uf(1) w' nl] uf False
      unfolding select_bodies(2) [symmetric] unless_False [symmetric]
      by (simp add: binSelect_def selectUnFlatFlat_def resultState_def Let_def)
  qed
qed

text \<open>
  C25: the selection of a comparison keeps exactly the selected positions at which the comparison is true, null counting as not
  true, in their order, and returns whether there are any.  It writes the surviving positions into the same buffer from which
  it reads the selected ones.\<close>

theorem binary_select_filters_in_place:
  assumes "operands_ok \<sigma> left right"
  shows "selects \<sigma> (resultState \<sigma> left right) (\<lambda>p. lift2 f (operandAt \<sigma> left p) (operandAt \<sigma> right p))
    (binSelect \<sigma> f left right (resultState \<sigma> left right))"
proof -
  let ?L = "\<sigma> (vecState left)" and ?R = "\<sigma> (vecState right)"
  let ?l = "getPositionOfCurrIdx ?L" and ?r = "getPositionOfCurrIdx ?R"
  let ?want = "\<lambda>p. lift2 f (operandAt \<sigma> left p) (operandAt \<sigma> right p)"
  have ok: "vector_ok left" "vector_ok right" "state_ok ?L" "state_ok ?R" using assms by (simp_all add: operands_ok_def)
  have nr: "\<And>p. hasNoNullsGuarantee right \<Longrightarrow> p < 2048 \<Longrightarrow> \<not> isNull right p" using ok by (simp add: no_nulls_guarantee)
  have nl: "\<And>p. hasNoNullsGuarantee left \<Longrightarrow> p < 2048 \<Longrightarrow> \<not> isNull left p" using ok by (simp add: no_nulls_guarantee)
  consider (bf) "isFlat ?L" "isFlat ?R" | (fu) "isFlat ?L" "\<not> isFlat ?R" | (uf) "\<not> isFlat ?L" "isFlat ?R" | (bu) "\<not> isFlat ?L" "\<not> isFlat ?R"
    by blast
  then show ?thesis
  proof cases
    case bf
    then have w: "?want p = (if isNull left ?l \<or> isNull right ?r then Inr None
        else bind_result (f (vecValues left ! ?l) (vecValues right ! ?r)) (\<lambda>z. Inr (Some z)))" for p
      by (simp add: operandAt_def lift2_valueAt)
    then show ?thesis using bf
      by (cases "f (vecValues left ! ?l) (vecValues right ! ?r)")
        (auto simp: binSelect_def selectBothFlat_def resultState_def selects_def activePositions_def Let_def)
  next
    case fu
    then show ?thesis by (rule select_flat_unflat [OF assms])
  next
    case uf
    then show ?thesis by (rule select_unflat_flat [OF assms])
  next
    case bu
    then have w: "?want p = wanted (\<lambda>i. isNull left i \<or> isNull right i) (\<lambda>i. f (vecValues left ! i) (vecValues right ! i)) p" for p
      by (simp add: operandAt_def lift2_valueAt wanted_def)
    have n: "\<And>p. hasNoNullsGuarantee left \<and> hasNoNullsGuarantee right \<Longrightarrow> p < 2048 \<Longrightarrow> \<not> (isNull left p \<or> isNull right p)"
      using nl nr by simp
    show ?thesis using select_choice [where \<sigma> = \<sigma> and s = "vecState left" and guarantee = "hasNoNullsGuarantee left \<and> hasNoNullsGuarantee right", OF ok(3) bu(1) w n] bu
      unfolding select_bodies(3) [symmetric] unless_False [symmetric]
      by (simp add: binSelect_def selectBothUnFlat_def resultState_def Let_def)
  qed
qed

theorem binary_select_filters_in_place_witness:
  "\<exists>\<sigma>'. binSelect exampleStates (\<lambda>x y. Inr (if x > y then 1 else 0)) exampleSeven exampleNulls 1 = Inr (True, \<sigma>') \<and>
     selectedPositions (resetSelectorToValuePosBuffer (selVector (\<sigma>' 1))) = [0, 2]"
proof -
  let ?f = "\<lambda>x y :: int. Inr (if x > y then 1 else 0) :: u8 result"
  let ?want = "\<lambda>p. lift2 ?f (operandAt exampleStates exampleSeven p) (operandAt exampleStates exampleNulls p)"
  have s: "selects exampleStates 1 ?want (binSelect exampleStates ?f exampleSeven exampleNulls 1)"
    using binary_select_filters_in_place [OF example_operands, of ?f] by (simp add: resultState_def)
  have v: "valueAt exampleNulls 2 = Some 0"
    by (simp add: exampleNulls_def valueAt_def isNull_newValueVector isNull_setNull)
  have k: "filter (\<lambda>p. ?want p = Inr (Some 1)) [0..<3] = [0, 2]" by (simp add: upt_rec operandAt_def v [unfolded numeral_2_eq_2] numeral_2_eq_2)
  have "\<And>p e. ?want p \<noteq> Inl e" using lift2.elims by (metis (no_types, lifting) bind_result_Inr old.sum.distinct(1))
  then show ?thesis using s k unfolding selects_def
    by (cases "binSelect exampleStates ?f exampleSeven exampleNulls 1") (auto simp: Let_def)
qed

end
