(* ===== verification/Ternary_Executor.thy ===== *)
theory Ternary_Executor
  imports Operation_Executor
begin

text \<open>
  The executor of functions with three operands: \<^verbatim>\<open>src/src/function/include/ternary_operation_executor.h\<close>.  It has one routine per
  combination of flat and unflat operands.  One of them reads the selected positions from the state of the wrong operand; the
  theory shows what follows from that, and that the executor is pointwise otherwise.
\<close>

section \<open>The executor\<close>

type_synonym ('a, 'b, 'c, 'r) ternary_routine =
  "chunk_states \<Rightarrow> ('a \<Rightarrow> 'b \<Rightarrow> 'c \<Rightarrow> 'r result) \<Rightarrow> 'a ValueVector \<Rightarrow> 'b ValueVector \<Rightarrow> 'c ValueVector \<Rightarrow> 'r ValueVector \<Rightarrow>
   'r ValueVector result"

definition ternExecuteOnValue ::
  "('a \<Rightarrow> 'b \<Rightarrow> 'c \<Rightarrow> 'r result) \<Rightarrow> 'a ValueVector \<Rightarrow> 'b ValueVector \<Rightarrow> 'c ValueVector \<Rightarrow> nat \<Rightarrow> nat \<Rightarrow> nat \<Rightarrow> nat \<Rightarrow>
   'r ValueVector \<Rightarrow> 'r ValueVector result" where
  "ternExecuteOnValue f a b c aPos bPos cPos resPos res =
     bind_result (f (vecValues a ! aPos) (vecValues b ! bPos) (vecValues c ! cPos)) (\<lambda>x. Inr (setValue res resPos x))"

definition executeAllFlat :: "('a, 'b, 'c, 'r) ternary_routine" where
  "executeAllFlat \<sigma> f a b c res0 =
     (let res = setState res0 (vecState a);
          aPos = getPositionOfCurrIdx (\<sigma> (vecState a));
          bPos = getPositionOfCurrIdx (\<sigma> (vecState b));
          cPos = getPositionOfCurrIdx (\<sigma> (vecState c));
          resPos = getPositionOfCurrIdx (\<sigma> (vecState res))
      in setNullThen (isNull a aPos \<or> isNull b bPos \<or> isNull c cPos) resPos (ternExecuteOnValue f a b c aPos bPos cPos resPos) res)"

definition executeFlatFlatUnflat :: "('a, 'b, 'c, 'r) ternary_routine" where
  "executeFlatFlatUnflat \<sigma> f a b c res0 =
     (let res = setState res0 (vecState c);
          aPos = getPositionOfCurrIdx (\<sigma> (vecState a));
          bPos = getPositionOfCurrIdx (\<sigma> (vecState b));
          sv = selVector (\<sigma> (vecState c))
      in if isNull a aPos \<or> isNull b bPos then Inr (setAllNull res)
         else if hasNoNullsGuarantee c then forEachSelected sv (\<lambda>i. ternExecuteOnValue f a b c aPos bPos i i) res
         else forEachSelected sv (\<lambda>i. setNullThen (isNull c i) i (ternExecuteOnValue f a b c aPos bPos i i)) res)"

definition executeFlatUnflatUnflat :: "('a, 'b, 'c, 'r) ternary_routine" where
  "executeFlatUnflatUnflat \<sigma> f a b c res0 =
     (let res = setState res0 (vecState b);
          aPos = getPositionOfCurrIdx (\<sigma> (vecState a));
          sv = selVector (\<sigma> (vecState b))
      in if isNull a aPos then Inr (setAllNull res)
         else if hasNoNullsGuarantee b \<and> hasNoNullsGuarantee c then forEachSelected sv (\<lambda>i. ternExecuteOnValue f a b c aPos i i i) res
         else forEachSelected sv (\<lambda>i. setNullThen (isNull b i \<or> isNull c i) i (ternExecuteOnValue f a b c aPos i i i)) res)"

definition executeFlatUnflatFlat :: "('a, 'b, 'c, 'r) ternary_routine" where
  "executeFlatUnflatFlat \<sigma> f a b c res0 =
     (let res = setState res0 (vecState b);
          aPos = getPositionOfCurrIdx (\<sigma> (vecState a));
          cPos = getPositionOfCurrIdx (\<sigma> (vecState c));
          sv = selVector (\<sigma> (vecState b))
      in if isNull a aPos \<or> isNull c cPos then Inr (setAllNull res)
         else if hasNoNullsGuarantee b then forEachSelected sv (\<lambda>i. ternExecuteOnValue f a b c aPos i cPos i) res
         else forEachSelected sv (\<lambda>i. setNullThen (isNull b i) i (ternExecuteOnValue f a b c aPos i cPos i)) res)"

definition executeAllUnFlat :: "('a, 'b, 'c, 'r) ternary_routine" where
  "executeAllUnFlat \<sigma> f a b c res0 =
     (let res = setState res0 (vecState a);
          sv = selVector (\<sigma> (vecState a))
      in if hasNoNullsGuarantee a \<and> hasNoNullsGuarantee b \<and> hasNoNullsGuarantee c then forEachSelected sv (\<lambda>i. ternExecuteOnValue f a b c i i i i) res
         else forEachSelected sv (\<lambda>i. setNullThen (isNull a i \<or> isNull b i \<or> isNull c i) i (ternExecuteOnValue f a b c i i i i)) res)"

definition executeUnflatFlatFlat :: "('a, 'b, 'c, 'r) ternary_routine" where
  "executeUnflatFlatFlat \<sigma> f a b c res0 =
     (let res = setState res0 (vecState a);
          bPos = getPositionOfCurrIdx (\<sigma> (vecState b));
          cPos = getPositionOfCurrIdx (\<sigma> (vecState c));
          sv = selVector (\<sigma> (vecState a))
      in if isNull b bPos \<or> isNull c cPos then Inr (setAllNull res)
         else if hasNoNullsGuarantee a then forEachSelected sv (\<lambda>i. ternExecuteOnValue f a b c i bPos cPos i) res
         else forEachSelected sv (\<lambda>i. setNullThen (isNull a i) i (ternExecuteOnValue f a b c i bPos cPos i)) res)"

text \<open>The loop for filtered selections with nulls takes the position from the selection vector of \<open>b\<close>, which is flat.\<close>

definition executeUnflatFlatUnflat :: "('a, 'b, 'c, 'r) ternary_routine" where
  "executeUnflatFlatUnflat \<sigma> f a b c res0 =
     (let res = setState res0 (vecState a);
          bPos = getPositionOfCurrIdx (\<sigma> (vecState b));
          sv = selVector (\<sigma> (vecState a))
      in if isNull b bPos then Inr (setAllNull res)
         else if hasNoNullsGuarantee a \<and> hasNoNullsGuarantee c then forEachSelected sv (\<lambda>i. ternExecuteOnValue f a b c i bPos i i) res
         else if isUnfiltered sv then foldResult (\<lambda>i. setNullThen (isNull a i \<or> isNull c i) i (ternExecuteOnValue f a b c i bPos i i)) [0..<selectedSize sv] res
         else foldResult (\<lambda>k. let i = selectedPosition (selVector (\<sigma> (vecState b))) k in setNullThen (isNull a i \<or> isNull c i) i (ternExecuteOnValue f a b c i bPos i i))
                [0..<selectedSize sv] res)"

definition executeUnflatUnFlatFlat :: "('a, 'b, 'c, 'r) ternary_routine" where
  "executeUnflatUnFlatFlat \<sigma> f a b c res0 =
     (let res = setState res0 (vecState a);
          cPos = getPositionOfCurrIdx (\<sigma> (vecState c));
          sv = selVector (\<sigma> (vecState a))
      in if isNull c cPos then Inr (setAllNull res)
         else if hasNoNullsGuarantee a \<and> hasNoNullsGuarantee b then forEachSelected sv (\<lambda>i. ternExecuteOnValue f a b c i i cPos i) res
         else forEachSelected sv (\<lambda>i. setNullThen (isNull a i \<or> isNull b i) i (ternExecuteOnValue f a b c i i cPos i)) res)"

definition ternExecuteSwitch :: "('a, 'b, 'c, 'r) ternary_routine" where
  "ternExecuteSwitch \<sigma> f a b c res =
     (let aFlat = isFlat (\<sigma> (vecState a)); bFlat = isFlat (\<sigma> (vecState b)); cFlat = isFlat (\<sigma> (vecState c)) in
      if aFlat \<and> bFlat \<and> cFlat then executeAllFlat \<sigma> f a b c res
      else if aFlat \<and> bFlat \<and> \<not> cFlat then executeFlatFlatUnflat \<sigma> f a b c res
      else if aFlat \<and> \<not> bFlat \<and> \<not> cFlat then executeFlatUnflatUnflat \<sigma> f a b c res
      else if aFlat \<and> \<not> bFlat \<and> cFlat then executeFlatUnflatFlat \<sigma> f a b c res
      else if \<not> aFlat \<and> \<not> bFlat \<and> \<not> cFlat then executeAllUnFlat \<sigma> f a b c res
      else if \<not> aFlat \<and> \<not> bFlat \<and> cFlat then executeUnflatUnFlatFlat \<sigma> f a b c res
      else if \<not> aFlat \<and> bFlat \<and> cFlat then executeUnflatFlatFlat \<sigma> f a b c res
      else executeUnflatFlatUnflat \<sigma> f a b c res)"

section \<open>The pointwise definition\<close>

fun lift3 :: "('a \<Rightarrow> 'b \<Rightarrow> 'c \<Rightarrow> 'r result) \<Rightarrow> 'a option \<Rightarrow> 'b option \<Rightarrow> 'c option \<Rightarrow> 'r option result" where
  "lift3 f (Some x) (Some y) (Some z) = bind_result (f x y z) (\<lambda>r. Inr (Some r))"
| "lift3 f _ _ _ = Inr None"

lemma lift3_valueAt:
  "lift3 f (valueAt u p) (valueAt v q) (valueAt w r) = (if isNull u p \<or> isNull v q \<or> isNull w r then Inr None
     else bind_result (f (vecValues u ! p) (vecValues v ! q) (vecValues w ! r)) (\<lambda>z. Inr (Some z)))"
  by (simp add: valueAt_def)

definition ternState :: "chunk_states \<Rightarrow> 'a ValueVector \<Rightarrow> 'b ValueVector \<Rightarrow> 'c ValueVector \<Rightarrow> state_id" where
  "ternState \<sigma> a b c =
     (if \<not> isFlat (\<sigma> (vecState a)) then vecState a else if \<not> isFlat (\<sigma> (vecState b)) then vecState b
      else if \<not> isFlat (\<sigma> (vecState c)) then vecState c else vecState a)"

definition unflatIn :: "chunk_states \<Rightarrow> state_id \<Rightarrow> 'a ValueVector \<Rightarrow> bool" where
  "unflatIn \<sigma> s v \<longleftrightarrow> isFlat (\<sigma> (vecState v)) \<or> vecState v = s"

definition ternOperands_ok :: "chunk_states \<Rightarrow> 'a ValueVector \<Rightarrow> 'b ValueVector \<Rightarrow> 'c ValueVector \<Rightarrow> bool" where
  "ternOperands_ok \<sigma> a b c \<longleftrightarrow> vector_ok a \<and> vector_ok b \<and> vector_ok c \<and>
     state_ok (\<sigma> (vecState a)) \<and> state_ok (\<sigma> (vecState b)) \<and> state_ok (\<sigma> (vecState c)) \<and>
     unflatIn \<sigma> (ternState \<sigma> a b c) a \<and> unflatIn \<sigma> (ternState \<sigma> a b c) b \<and> unflatIn \<sigma> (ternState \<sigma> a b c) c"

definition mayBring :: "chunk_states \<Rightarrow> 'a ValueVector \<Rightarrow> bool" where
  "mayBring \<sigma> v \<longleftrightarrow> \<not> isFlat (\<sigma> (vecState v)) \<and> \<not> hasNoNullsGuarantee v"

definition ternClean :: "chunk_states \<Rightarrow> 'a ValueVector \<Rightarrow> 'b ValueVector \<Rightarrow> 'c ValueVector \<Rightarrow> 'r ValueVector \<Rightarrow> bool" where
  "ternClean \<sigma> a b c res \<longleftrightarrow> hasNoNullsGuarantee res \<or>
     (isFlat (\<sigma> (vecState a)) \<and> isFlat (\<sigma> (vecState b)) \<and> isFlat (\<sigma> (vecState c))) \<or>
     mayBring \<sigma> a \<or> mayBring \<sigma> b \<or> mayBring \<sigma> c"

abbreviation ternWant :: "chunk_states \<Rightarrow> ('a \<Rightarrow> 'b \<Rightarrow> 'c \<Rightarrow> 'r result) \<Rightarrow> 'a ValueVector \<Rightarrow> 'b ValueVector \<Rightarrow> 'c ValueVector \<Rightarrow>
    nat \<Rightarrow> 'r option result" where
  "ternWant \<sigma> f a b c p \<equiv> lift3 f (operandAt \<sigma> a p) (operandAt \<sigma> b p) (operandAt \<sigma> c p)"

lemmas ternary_setup = ternOperands_ok_def ternState_def unflatIn_def ternClean_def mayBring_def operandAt_def lift3_valueAt wanted_def

lemmas tern_bodies = fastBody_def [abs_def] nullBody_def [abs_def] ternExecuteOnValue_def [abs_def]

text \<open>All routines with an unflat operand make the same three-way choice.\<close>

lemma ternary_choice:
  assumes "vector_ok res" and "state_ok st" and "\<not> isFlat st"
    and "guarantee \<Longrightarrow> hasNoNullsGuarantee res" and "\<And>p. guarantee \<Longrightarrow> p < 2048 \<Longrightarrow> \<not> nul p"
    and "nullFlat \<Longrightarrow> (\<And>p. want p = Inr None)" and "\<not> nullFlat \<Longrightarrow> (\<And>p. want p = wanted nul val p)"
  shows "delivers (activePositions st) (vecState res) want
    (if nullFlat then Inr (setAllNull res)
     else if guarantee then forEachSelected (selVector st) (fastBody val) res else forEachSelected (selVector st) (nullBody nul val) res)"
proof -
  have ok: "sel_ok (selVector st)" "activePositions st = selectedPositions (selVector st)"
    using assms(2,3) by (simp_all add: state_ok_def activePositions_def)
  show ?thesis
  proof (cases nullFlat)
    case True
    then show ?thesis using setAllNull_delivers [OF assms(1)] assms(6) ok by (simp add: sel_ok_def)
  next
    case False
    then show ?thesis using unflat_delivers [where guarantee = guarantee, OF assms(1) ok(1) assms(4,5) assms(7)] ok(2) by simp
  qed
qed

lemma executeAllFlat_delivers:
  assumes "ternOperands_ok \<sigma> a b c" and "vector_ok res"
    and "isFlat (\<sigma> (vecState a))" and "isFlat (\<sigma> (vecState b))" and "isFlat (\<sigma> (vecState c))"
  shows "delivers (activePositions (\<sigma> (vecState a))) (vecState a) (ternWant \<sigma> f a b c) (executeAllFlat \<sigma> f a b c res)"
proof -
  let ?a = "getPositionOfCurrIdx (\<sigma> (vecState a))" and ?b = "getPositionOfCurrIdx (\<sigma> (vecState b))" and ?c = "getPositionOfCurrIdx (\<sigma> (vecState c))"
  let ?nul = "\<lambda>_. isNull a ?a \<or> isNull b ?b \<or> isNull c ?c" and ?val = "\<lambda>_. f (vecValues a ! ?a) (vecValues b ! ?b) (vecValues c ! ?c)"
  have "?a < 2048" using assms by (simp add: ternOperands_ok_def getPositionOfCurrIdx_bound)
  then have "delivers [?a] (vecState a) (wanted ?nul ?val) (nullBody ?nul ?val ?a (setState res (vecState a)))"
    using nullBody_once [of "setState res (vecState a)" ?a ?nul ?val] assms(2) by simp
  then have "delivers [?a] (vecState a) (ternWant \<sigma> f a b c) (nullBody ?nul ?val ?a (setState res (vecState a)))"
    by (rule delivers_want) (use assms(3-5) in \<open>simp add: operandAt_def lift3_valueAt wanted_def\<close>)
  moreover have "executeAllFlat \<sigma> f a b c res = nullBody ?nul ?val ?a (setState res (vecState a))"
    by (simp add: executeAllFlat_def Let_def nullBody_def setNullThen_def fastBody_def ternExecuteOnValue_def)
  ultimately show ?thesis using assms(3) by (simp add: activePositions_def)
qed

lemma executeFlatFlatUnflat_delivers:
  assumes "ternOperands_ok \<sigma> a b c" and "vector_ok res" and "ternClean \<sigma> a b c res"
    and "isFlat (\<sigma> (vecState a))" and "isFlat (\<sigma> (vecState b))" and "\<not> isFlat (\<sigma> (vecState c))"
  shows "delivers (activePositions (\<sigma> (vecState c))) (vecState c) (ternWant \<sigma> f a b c) (executeFlatFlatUnflat \<sigma> f a b c res)"
proof -
  have "delivers (activePositions (\<sigma> (vecState c))) (vecState (setState res (vecState c))) (ternWant \<sigma> f a b c)
    (if isNull a (getPositionOfCurrIdx (\<sigma> (vecState a))) \<or> isNull b (getPositionOfCurrIdx (\<sigma> (vecState b))) then Inr (setAllNull (setState res (vecState c)))
     else if hasNoNullsGuarantee c then forEachSelected (selVector (\<sigma> (vecState c))) (fastBody (\<lambda>i. f (vecValues a ! (getPositionOfCurrIdx (\<sigma> (vecState a)))) (vecValues b ! (getPositionOfCurrIdx (\<sigma> (vecState b)))) (vecValues c ! i))) (setState res (vecState c))
     else forEachSelected (selVector (\<sigma> (vecState c))) (nullBody (\<lambda>i. isNull c i) (\<lambda>i. f (vecValues a ! (getPositionOfCurrIdx (\<sigma> (vecState a)))) (vecValues b ! (getPositionOfCurrIdx (\<sigma> (vecState b)))) (vecValues c ! i))) (setState res (vecState c)))"
    by (rule ternary_choice) (use assms in \<open>auto simp: ternary_setup no_nulls_guarantee\<close>)
  then show ?thesis by (simp add: executeFlatFlatUnflat_def Let_def tern_bodies cong: if_cong split del: if_split)
qed

lemma executeFlatUnflatUnflat_delivers:
  assumes "ternOperands_ok \<sigma> a b c" and "vector_ok res" and "ternClean \<sigma> a b c res"
    and "isFlat (\<sigma> (vecState a))" and "\<not> isFlat (\<sigma> (vecState b))" and "\<not> isFlat (\<sigma> (vecState c))"
  shows "delivers (activePositions (\<sigma> (vecState b))) (vecState b) (ternWant \<sigma> f a b c) (executeFlatUnflatUnflat \<sigma> f a b c res)"
proof -
  have "delivers (activePositions (\<sigma> (vecState b))) (vecState (setState res (vecState b))) (ternWant \<sigma> f a b c)
    (if isNull a (getPositionOfCurrIdx (\<sigma> (vecState a))) then Inr (setAllNull (setState res (vecState b)))
     else if hasNoNullsGuarantee b \<and> hasNoNullsGuarantee c then forEachSelected (selVector (\<sigma> (vecState b))) (fastBody (\<lambda>i. f (vecValues a ! (getPositionOfCurrIdx (\<sigma> (vecState a)))) (vecValues b ! i) (vecValues c ! i))) (setState res (vecState b))
     else forEachSelected (selVector (\<sigma> (vecState b))) (nullBody (\<lambda>i. isNull b i \<or> isNull c i) (\<lambda>i. f (vecValues a ! (getPositionOfCurrIdx (\<sigma> (vecState a)))) (vecValues b ! i) (vecValues c ! i))) (setState res (vecState b)))"
    by (rule ternary_choice) (use assms in \<open>auto simp: ternary_setup no_nulls_guarantee\<close>)
  then show ?thesis by (simp add: executeFlatUnflatUnflat_def Let_def tern_bodies cong: if_cong split del: if_split)
qed

lemma executeFlatUnflatFlat_delivers:
  assumes "ternOperands_ok \<sigma> a b c" and "vector_ok res" and "ternClean \<sigma> a b c res"
    and "isFlat (\<sigma> (vecState a))" and "\<not> isFlat (\<sigma> (vecState b))" and "isFlat (\<sigma> (vecState c))"
  shows "delivers (activePositions (\<sigma> (vecState b))) (vecState b) (ternWant \<sigma> f a b c) (executeFlatUnflatFlat \<sigma> f a b c res)"
proof -
  have "delivers (activePositions (\<sigma> (vecState b))) (vecState (setState res (vecState b))) (ternWant \<sigma> f a b c)
    (if isNull a (getPositionOfCurrIdx (\<sigma> (vecState a))) \<or> isNull c (getPositionOfCurrIdx (\<sigma> (vecState c))) then Inr (setAllNull (setState res (vecState b)))
     else if hasNoNullsGuarantee b then forEachSelected (selVector (\<sigma> (vecState b))) (fastBody (\<lambda>i. f (vecValues a ! (getPositionOfCurrIdx (\<sigma> (vecState a)))) (vecValues b ! i) (vecValues c ! (getPositionOfCurrIdx (\<sigma> (vecState c)))))) (setState res (vecState b))
     else forEachSelected (selVector (\<sigma> (vecState b))) (nullBody (\<lambda>i. isNull b i) (\<lambda>i. f (vecValues a ! (getPositionOfCurrIdx (\<sigma> (vecState a)))) (vecValues b ! i) (vecValues c ! (getPositionOfCurrIdx (\<sigma> (vecState c)))))) (setState res (vecState b)))"
    by (rule ternary_choice) (use assms in \<open>auto simp: ternary_setup no_nulls_guarantee\<close>)
  then show ?thesis by (simp add: executeFlatUnflatFlat_def Let_def tern_bodies cong: if_cong split del: if_split)
qed

lemma executeAllUnFlat_delivers:
  assumes "ternOperands_ok \<sigma> a b c" and "vector_ok res" and "ternClean \<sigma> a b c res"
    and "\<not> isFlat (\<sigma> (vecState a))" and "\<not> isFlat (\<sigma> (vecState b))" and "\<not> isFlat (\<sigma> (vecState c))"
  shows "delivers (activePositions (\<sigma> (vecState a))) (vecState a) (ternWant \<sigma> f a b c) (executeAllUnFlat \<sigma> f a b c res)"
proof -
  have "delivers (activePositions (\<sigma> (vecState a))) (vecState (setState res (vecState a))) (ternWant \<sigma> f a b c)
    (if False then Inr (setAllNull (setState res (vecState a)))
     else if hasNoNullsGuarantee a \<and> hasNoNullsGuarantee b \<and> hasNoNullsGuarantee c then forEachSelected (selVector (\<sigma> (vecState a))) (fastBody (\<lambda>i. f (vecValues a ! i) (vecValues b ! i) (vecValues c ! i))) (setState res (vecState a))
     else forEachSelected (selVector (\<sigma> (vecState a))) (nullBody (\<lambda>i. isNull a i \<or> isNull b i \<or> isNull c i) (\<lambda>i. f (vecValues a ! i) (vecValues b ! i) (vecValues c ! i))) (setState res (vecState a)))"
    by (rule ternary_choice) (use assms in \<open>auto simp: ternary_setup no_nulls_guarantee\<close>)
  then show ?thesis by (simp add: executeAllUnFlat_def Let_def tern_bodies cong: if_cong split del: if_split)
qed

lemma executeUnflatFlatFlat_delivers:
  assumes "ternOperands_ok \<sigma> a b c" and "vector_ok res" and "ternClean \<sigma> a b c res"
    and "\<not> isFlat (\<sigma> (vecState a))" and "isFlat (\<sigma> (vecState b))" and "isFlat (\<sigma> (vecState c))"
  shows "delivers (activePositions (\<sigma> (vecState a))) (vecState a) (ternWant \<sigma> f a b c) (executeUnflatFlatFlat \<sigma> f a b c res)"
proof -
  have "delivers (activePositions (\<sigma> (vecState a))) (vecState (setState res (vecState a))) (ternWant \<sigma> f a b c)
    (if isNull b (getPositionOfCurrIdx (\<sigma> (vecState b))) \<or> isNull c (getPositionOfCurrIdx (\<sigma> (vecState c))) then Inr (setAllNull (setState res (vecState a)))
     else if hasNoNullsGuarantee a then forEachSelected (selVector (\<sigma> (vecState a))) (fastBody (\<lambda>i. f (vecValues a ! i) (vecValues b ! (getPositionOfCurrIdx (\<sigma> (vecState b)))) (vecValues c ! (getPositionOfCurrIdx (\<sigma> (vecState c)))))) (setState res (vecState a))
     else forEachSelected (selVector (\<sigma> (vecState a))) (nullBody (\<lambda>i. isNull a i) (\<lambda>i. f (vecValues a ! i) (vecValues b ! (getPositionOfCurrIdx (\<sigma> (vecState b)))) (vecValues c ! (getPositionOfCurrIdx (\<sigma> (vecState c)))))) (setState res (vecState a)))"
    by (rule ternary_choice) (use assms in \<open>auto simp: ternary_setup no_nulls_guarantee\<close>)
  then show ?thesis by (simp add: executeUnflatFlatFlat_def Let_def tern_bodies cong: if_cong split del: if_split)
qed

lemma executeUnflatUnFlatFlat_delivers:
  assumes "ternOperands_ok \<sigma> a b c" and "vector_ok res" and "ternClean \<sigma> a b c res"
    and "\<not> isFlat (\<sigma> (vecState a))" and "\<not> isFlat (\<sigma> (vecState b))" and "isFlat (\<sigma> (vecState c))"
  shows "delivers (activePositions (\<sigma> (vecState a))) (vecState a) (ternWant \<sigma> f a b c) (executeUnflatUnFlatFlat \<sigma> f a b c res)"
proof -
  have "delivers (activePositions (\<sigma> (vecState a))) (vecState (setState res (vecState a))) (ternWant \<sigma> f a b c)
    (if isNull c (getPositionOfCurrIdx (\<sigma> (vecState c))) then Inr (setAllNull (setState res (vecState a)))
     else if hasNoNullsGuarantee a \<and> hasNoNullsGuarantee b then forEachSelected (selVector (\<sigma> (vecState a))) (fastBody (\<lambda>i. f (vecValues a ! i) (vecValues b ! i) (vecValues c ! (getPositionOfCurrIdx (\<sigma> (vecState c)))))) (setState res (vecState a))
     else forEachSelected (selVector (\<sigma> (vecState a))) (nullBody (\<lambda>i. isNull a i \<or> isNull b i) (\<lambda>i. f (vecValues a ! i) (vecValues b ! i) (vecValues c ! (getPositionOfCurrIdx (\<sigma> (vecState c)))))) (setState res (vecState a)))"
    by (rule ternary_choice) (use assms in \<open>auto simp: ternary_setup no_nulls_guarantee\<close>)
  then show ?thesis by (simp add: executeUnflatUnFlatFlat_def Let_def tern_bodies cong: if_cong split del: if_split)
qed


definition wrongSelection :: "chunk_states \<Rightarrow> 'a ValueVector \<Rightarrow> 'b ValueVector \<Rightarrow> 'c ValueVector \<Rightarrow> bool" where
  "wrongSelection \<sigma> a b c \<longleftrightarrow>
     \<not> isFlat (\<sigma> (vecState a)) \<and> isFlat (\<sigma> (vecState b)) \<and> \<not> isFlat (\<sigma> (vecState c)) \<and>
     \<not> isUnfiltered (selVector (\<sigma> (vecState a))) \<and> (mayBring \<sigma> a \<or> mayBring \<sigma> c)"

lemma executeUnflatFlatUnflat_delivers:
  assumes "ternOperands_ok \<sigma> a b c" and "vector_ok res" and "ternClean \<sigma> a b c res" and "\<not> wrongSelection \<sigma> a b c"
    and "\<not> isFlat (\<sigma> (vecState a))" and "isFlat (\<sigma> (vecState b))" and "\<not> isFlat (\<sigma> (vecState c))"
  shows "delivers (activePositions (\<sigma> (vecState a))) (vecState a) (ternWant \<sigma> f a b c) (executeUnflatFlatUnflat \<sigma> f a b c res)"
proof -
  let ?b = "getPositionOfCurrIdx (\<sigma> (vecState b))" and ?sv = "selVector (\<sigma> (vecState a))" and ?res = "setState res (vecState a)"
  let ?val = "\<lambda>i. f (vecValues a ! i) (vecValues b ! ?b) (vecValues c ! i)"
  have d: "delivers (activePositions (\<sigma> (vecState a))) (vecState ?res) (ternWant \<sigma> f a b c)
    (if isNull b ?b then Inr (setAllNull ?res)
     else if hasNoNullsGuarantee a \<and> hasNoNullsGuarantee c then forEachSelected ?sv (fastBody ?val) ?res
     else forEachSelected ?sv (nullBody (\<lambda>i. isNull a i \<or> isNull c i) ?val) ?res)"
    by (rule ternary_choice) (use assms in \<open>auto simp: ternary_setup no_nulls_guarantee\<close>)
  have g: "\<not> (hasNoNullsGuarantee a \<and> hasNoNullsGuarantee c) \<Longrightarrow> isUnfiltered ?sv"
    using assms(4-7) by (auto simp: wrongSelection_def mayBring_def)
  show ?thesis
  proof (cases "hasNoNullsGuarantee a \<and> hasNoNullsGuarantee c")
    case True
    then show ?thesis using d by (simp add: executeUnflatFlatUnflat_def Let_def tern_bodies cong: if_cong split del: if_split)
  next
    case False
    then show ?thesis using d g [OF False]
      by (simp add: forEachSelected_def executeUnflatFlatUnflat_def Let_def tern_bodies cong: if_cong split del: if_split)
  qed
qed

text \<open>
  the ternary executor gives every selected position of the result the function at the three operands, null when one is
  null, in seven of its eight routines, and in the eighth unless the selection is filtered and an operand may contain
  nulls.\<close>

theorem ternary_execute_is_pointwise:
  assumes "ternOperands_ok \<sigma> a b c" and "vector_ok res" and "ternClean \<sigma> a b c res" and "\<not> wrongSelection \<sigma> a b c"
  shows "delivers (activePositions (\<sigma> (ternState \<sigma> a b c))) (ternState \<sigma> a b c) (ternWant \<sigma> f a b c) (ternExecuteSwitch \<sigma> f a b c res)"
  using executeAllFlat_delivers [OF assms(1,2), of f] executeFlatFlatUnflat_delivers [OF assms(1-3), of f]
    executeFlatUnflatUnflat_delivers [OF assms(1-3), of f] executeFlatUnflatFlat_delivers [OF assms(1-3), of f]
    executeAllUnFlat_delivers [OF assms(1-3), of f] executeUnflatFlatFlat_delivers [OF assms(1-3), of f]
    executeUnflatFlatUnflat_delivers [OF assms, of f] executeUnflatUnFlatFlat_delivers [OF assms(1-3), of f]
  by (simp add: ternExecuteSwitch_def Let_def ternState_def)

theorem ternary_execute_is_pointwise_witness:
  "\<exists>v. ternExecuteSwitch exampleStates (\<lambda>x y z. Inr (x + y + z)) exampleNulls exampleSeven exampleNulls (newValueVector 0 5) = Inr v \<and>
     valueAt v 0 = Some 7 \<and> valueAt v 1 = None"
proof -
  let ?f = "\<lambda>x y z :: int. Inr (x + y + z) :: int result"
  let ?r = "ternExecuteSwitch exampleStates ?f exampleNulls exampleSeven exampleNulls (newValueVector 0 5)"
  have ok: "ternOperands_ok exampleStates exampleNulls exampleSeven exampleNulls"
    by (simp add: ternOperands_ok_def ternState_def unflatIn_def state_ok_single state_ok_unfiltered)
  have "isUnfiltered (selVector (initOriginalAndSelectedSize (newDataChunkState 2048) 3))"
    by (simp add: isUnfiltered_def initOriginalAndSelectedSize_def newDataChunkState_def newSelectionVector_def)
  then have "\<not> wrongSelection exampleStates exampleNulls exampleSeven exampleNulls" by (simp add: wrongSelection_def)
  from ternary_execute_is_pointwise [OF ok _ _ this, of "newValueVector 0 5 :: int ValueVector" ?f]
  have d: "delivers [0..<3] 1 (ternWant exampleStates ?f exampleNulls exampleSeven exampleNulls) ?r"
    by (simp add: ternClean_def ternState_def)
  have no: "lift3 ?f x y z \<noteq> Inl e" for x y z :: "int option" and e by (cases x; cases y; cases z) simp_all
  show ?thesis
  proof (cases ?r)
    case (Inl e)
    then show ?thesis using d no by (simp add: delivers_def)
  next
    case (Inr v)
    then have w: "\<forall>p \<in> {0..<3}. ternWant exampleStates ?f exampleNulls exampleSeven exampleNulls p = Inr (valueAt v p)"
      using d by (simp add: delivers_def)
    have "Inr (valueAt v 0) = (Inr (Some 7) :: int option result)" using w [rule_format, of 0] by (simp add: operandAt_def)
    moreover have "Inr (valueAt v 1) = (Inr None :: int option result)" using w [rule_format, of 1] by (simp add: operandAt_def)
    ultimately show ?thesis using Inr by simp
  qed
qed

section \<open>The wrong selection vector\<close>

text \<open>
  C38: when the first and third operand are unflat with a filtered selection and may contain nulls, and the flat second operand
  has an unfiltered state (a literal), the executor writes the result at positions 0, 1, 2, ... and not at the selected ones: a
  selected position beyond them keeps the null bit and the value that the result vector happened to hold.\<close>

theorem ternary_misses_selected_position:
  assumes "ternOperands_ok \<sigma> a b c" and "vector_ok res" and "wrongSelection \<sigma> a b c"
    and "isUnfiltered (selVector (\<sigma> (vecState b)))" and "\<not> isNull b (getPositionOfCurrIdx (\<sigma> (vecState b)))"
    and "p \<in> set (activePositions (\<sigma> (vecState a)))" and "selectedSize (selVector (\<sigma> (vecState a))) \<le> p"
    and "ternExecuteSwitch \<sigma> f a b c res = Inr res'"
  shows "isNull res' p = isNull res p \<and> vecValues res' ! p = vecValues res ! p"
proof -
  let ?b = "getPositionOfCurrIdx (\<sigma> (vecState b))" and ?n = "selectedSize (selVector (\<sigma> (vecState a)))" and ?res = "setState res (vecState a)"
  let ?body = "nullBody (\<lambda>i. isNull a i \<or> isNull c i) (\<lambda>i. f (vecValues a ! i) (vecValues b ! ?b) (vecValues c ! i))"
  have n: "?n \<le> 2048" using assms(1) by (simp add: ternOperands_ok_def state_ok_def sel_ok_def)
  have "selectedPosition (selVector (\<sigma> (vecState b))) k = k" if "k < ?n" for k
    using that n assms(4) by (simp add: selectedPosition_def isUnfiltered_def INCREMENTAL_SELECTED_POS_def)
  then have m: "map (selectedPosition (selVector (\<sigma> (vecState b)))) [0..<?n] = [0..<?n]" by (intro map_idI) simp
  have "ternExecuteSwitch \<sigma> f a b c res = foldResult (\<lambda>k. ?body (selectedPosition (selVector (\<sigma> (vecState b))) k)) [0..<?n] ?res"
    using assms(3,5) by (auto simp: ternExecuteSwitch_def executeUnflatFlatUnflat_def wrongSelection_def mayBring_def Let_def tern_bodies)
  then have "foldResult ?body [0..<?n] ?res = Inr res'" using assms(8) foldResult_map [of ?body "selectedPosition (selVector (\<sigma> (vecState b)))" "[0..<?n]"] m by simp
  then have "vecCell res' p = vecCell ?res p"
    using guarded.loop [where nul = "\<lambda>i. isNull a i \<or> isNull c i" and val = "\<lambda>i. f (vecValues a ! i) (vecValues b ! ?b) (vecValues c ! i)"
        and v = ?res and s = "vecState a" and ps = "[0..<?n]"] assms(2,7) n by (simp add: list_all_iff)
  then show ?thesis by (simp add: vecCell_def)
qed

text \<open>Position 5 is the only selected one; the result vector holds 99 there.\<close>

definition filteredStates :: chunk_states where
  "filteredStates s = (if s = 0 then getSingleValueDataChunkState
     else \<lparr>currIdx = - 1, originalSize = 8, selVector = \<lparr>selUnfiltered = False, selectedSize = 1, selectedPositionsBuffer = [5]\<rparr>\<rparr>)"

theorem ternary_misses_selected_position_witness:
  "\<exists>v. ternExecuteSwitch filteredStates (\<lambda>x y z. Inr (x + y + z)) exampleNulls exampleSeven exampleNulls (newValueVector 99 5) = Inr v \<and>
     valueAt v 5 = Some 99"
proof -
  let ?f = "\<lambda>x y z :: int. Inr (x + y + z) :: int result" and ?res = "newValueVector 99 5 :: int ValueVector"
  have fs: "filteredStates 0 = getSingleValueDataChunkState" "filteredStates (Suc 0) =
      \<lparr>currIdx = - 1, originalSize = 8, selVector = \<lparr>selUnfiltered = False, selectedSize = 1, selectedPositionsBuffer = [5]\<rparr>\<rparr>"
    by (simp_all add: filteredStates_def)
  have pos: "selectedPositions \<lparr>selUnfiltered = False, selectedSize = Suc 0, selectedPositionsBuffer = [5]\<rparr> = [5]"
    by (simp add: selectedPositions_def selectedPosition_def)
  have st: "state_ok (filteredStates (Suc 0))" "\<not> isFlat (filteredStates (Suc 0))" "state_ok (filteredStates 0)" "isFlat (filteredStates 0)"
    by (simp_all add: fs state_ok_single) (simp_all add: state_ok_def sel_ok_def pos isFlat_def)
  have ops: "ternOperands_ok filteredStates exampleNulls exampleSeven exampleNulls"
    using st by (simp add: ternOperands_ok_def ternState_def unflatIn_def)
  have "\<not> hasNoNullsGuarantee exampleNulls"
    by (simp add: exampleNulls_def hasNoNullsGuarantee_def maskHasNoNullsGuarantee_def setNull_def maskSetNull_def)
  then have w: "wrongSelection filteredStates exampleNulls exampleSeven exampleNulls"
    using st by (simp add: wrongSelection_def mayBring_def) (simp add: fs isUnfiltered_def)
  have u: "isUnfiltered (selVector (filteredStates (vecState exampleSeven)))"
    by (simp add: fs isUnfiltered_def getSingleValueDataChunkState_def newDataChunkState_def newSelectionVector_def Let_def)
  have nb: "\<not> isNull exampleSeven (getPositionOfCurrIdx (filteredStates (vecState exampleSeven)))"
    by (simp add: fs) (simp add: exampleSeven_def isNull_newValueVector)
  have p: "5 \<in> set (activePositions (filteredStates (vecState exampleNulls)))" using st(2) by (simp add: activePositions_def) (simp add: fs pos)
  have sz: "selectedSize (selVector (filteredStates (vecState exampleNulls))) \<le> 5" by (simp add: fs)
  have "\<exists>v. ternExecuteSwitch filteredStates ?f exampleNulls exampleSeven exampleNulls ?res = Inr v"
    using st w nb by (simp add: ternExecuteSwitch_def executeUnflatFlatUnflat_def wrongSelection_def mayBring_def Let_def)
      (rule foldResult_total, simp add: setNullThen_def ternExecuteOnValue_def Let_def)
  then obtain v where v: "ternExecuteSwitch filteredStates ?f exampleNulls exampleSeven exampleNulls ?res = Inr v" ..
  from ternary_misses_selected_position [OF ops _ w u nb p sz v]
  have "isNull v 5 = isNull ?res 5 \<and> vecValues v ! 5 = vecValues ?res ! 5" by simp
  moreover have "\<not> isNull ?res 5" "vecValues ?res ! 5 = 99" by (simp_all add: isNull_newValueVector)
  ultimately show ?thesis using v by (simp add: valueAt_def)
qed

end
