(* ===== verification/Boolean_Executor.thy ===== *)
theory Boolean_Executor
  imports Operation_Executor
begin

text \<open>
  Boolean operations and null tests on vectors: \<^verbatim>\<open>src/src/function/boolean/operations/include/boolean_operations.h\<close>,
  \<^verbatim>\<open>src/src/function/boolean/include/boolean_operation_executor.h\<close>, \<^verbatim>\<open>src/src/function/null/operations/include/null_operations.h\<close>
  and \<^verbatim>\<open>src/src/function/null/include/null_operation_executor.h\<close>.  A boolean is a byte and the operations write the byte 2
  for null, which the executors turn into a null bit.  The reference is the three-valued logic on \<open>bool option\<close>.
\<close>

section \<open>Operations\<close>

definition NULL_BOOL :: u8 where "NULL_BOOL = 2"

text \<open>The operations take \<open>bool\<close> parameters: a byte converts to true when it is not 0; a \<open>bool\<close> converts back to 0 or 1.\<close>

definition toBool :: "u8 \<Rightarrow> bool" where "toBool x \<longleftrightarrow> x \<noteq> 0"

definition fromBool :: "bool \<Rightarrow> u8" where "fromBool b = (if b then 1 else 0)"

definition And_op :: "bool \<Rightarrow> bool \<Rightarrow> bool \<Rightarrow> bool \<Rightarrow> u8" where
  "And_op left right isLeftNull isRightNull =
     (if \<not> left \<and> \<not> isLeftNull then fromBool False
      else if \<not> right \<and> \<not> isRightNull then fromBool False
      else if isLeftNull \<or> isRightNull then NULL_BOOL
      else fromBool True)"

definition Or_op :: "bool \<Rightarrow> bool \<Rightarrow> bool \<Rightarrow> bool \<Rightarrow> u8" where
  "Or_op left right isLeftNull isRightNull =
     (if left \<and> \<not> isLeftNull then fromBool True
      else if right \<and> \<not> isRightNull then fromBool True
      else if isLeftNull \<or> isRightNull then NULL_BOOL
      else fromBool False)"

definition Xor_op :: "bool \<Rightarrow> bool \<Rightarrow> bool \<Rightarrow> bool \<Rightarrow> u8" where
  "Xor_op left right isLeftNull isRightNull = (if isLeftNull \<or> isRightNull then NULL_BOOL else fromBool (left \<noteq> right))"

definition Not_op :: "bool \<Rightarrow> bool \<Rightarrow> u8" where
  "Not_op operand isNullOperand = (if isNullOperand then NULL_BOOL else fromBool (\<not> operand))"

definition IsNull :: "'a \<Rightarrow> bool \<Rightarrow> u8" where "IsNull v isNullOperand = fromBool isNullOperand"

definition IsNotNull :: "'a \<Rightarrow> bool \<Rightarrow> u8" where "IsNotNull v isNullOperand = fromBool (\<not> isNullOperand)"

section \<open>Executors\<close>

type_synonym bool_op = "bool \<Rightarrow> bool \<Rightarrow> bool \<Rightarrow> bool \<Rightarrow> u8"

definition boolExecuteOnValue ::
  "bool_op \<Rightarrow> u8 ValueVector \<Rightarrow> u8 ValueVector \<Rightarrow> nat \<Rightarrow> nat \<Rightarrow> nat \<Rightarrow> u8 ValueVector \<Rightarrow> u8 ValueVector result" where
  "boolExecuteOnValue f left right lPos rPos resPos res =
     (let res' = setValue res resPos
            (f (toBool (vecValues left ! lPos)) (toBool (vecValues right ! rPos)) (isNull left lPos) (isNull right rPos))
      in Inr (setNull res' resPos (vecValues res' ! resPos = NULL_BOOL)))"

definition boolExecuteBothFlat ::
  "chunk_states \<Rightarrow> bool_op \<Rightarrow> u8 ValueVector \<Rightarrow> u8 ValueVector \<Rightarrow> u8 ValueVector \<Rightarrow> u8 ValueVector result" where
  "boolExecuteBothFlat \<sigma> f left right res0 =
     (let res = setState res0 (vecState left);
          lPos = getPositionOfCurrIdx (\<sigma> (vecState left));
          rPos = getPositionOfCurrIdx (\<sigma> (vecState right));
          resPos = getPositionOfCurrIdx (\<sigma> (vecState res))
      in boolExecuteOnValue f left right lPos rPos resPos res)"

definition boolExecuteFlatUnFlat ::
  "chunk_states \<Rightarrow> bool_op \<Rightarrow> u8 ValueVector \<Rightarrow> u8 ValueVector \<Rightarrow> u8 ValueVector \<Rightarrow> u8 ValueVector result" where
  "boolExecuteFlatUnFlat \<sigma> f left right res0 =
     (let res = setState res0 (vecState right);
          lPos = getPositionOfCurrIdx (\<sigma> (vecState left))
      in forEachSelected (selVector (\<sigma> (vecState right))) (\<lambda>i. boolExecuteOnValue f left right lPos i i) res)"

definition boolExecuteUnFlatFlat ::
  "chunk_states \<Rightarrow> bool_op \<Rightarrow> u8 ValueVector \<Rightarrow> u8 ValueVector \<Rightarrow> u8 ValueVector \<Rightarrow> u8 ValueVector result" where
  "boolExecuteUnFlatFlat \<sigma> f left right res0 =
     (let res = setState res0 (vecState left);
          rPos = getPositionOfCurrIdx (\<sigma> (vecState right))
      in forEachSelected (selVector (\<sigma> (vecState left))) (\<lambda>i. boolExecuteOnValue f left right i rPos i) res)"

definition boolExecuteBothUnFlat ::
  "chunk_states \<Rightarrow> bool_op \<Rightarrow> u8 ValueVector \<Rightarrow> u8 ValueVector \<Rightarrow> u8 ValueVector \<Rightarrow> u8 ValueVector result" where
  "boolExecuteBothUnFlat \<sigma> f left right res0 =
     (let res = setState res0 (vecState left)
      in forEachSelected (selVector (\<sigma> (vecState left))) (\<lambda>i. boolExecuteOnValue f left right i i i) res)"

definition boolExecute ::
  "chunk_states \<Rightarrow> bool_op \<Rightarrow> u8 ValueVector \<Rightarrow> u8 ValueVector \<Rightarrow> u8 ValueVector \<Rightarrow> u8 ValueVector result" where
  "boolExecute \<sigma> f left right res =
     (let lFlat = isFlat (\<sigma> (vecState left)); rFlat = isFlat (\<sigma> (vecState right)) in
      if lFlat \<and> rFlat then boolExecuteBothFlat \<sigma> f left right res
      else if lFlat \<and> \<not> rFlat then boolExecuteFlatUnFlat \<sigma> f left right res
      else if \<not> lFlat \<and> rFlat then boolExecuteUnFlatFlat \<sigma> f left right res
      else boolExecuteBothUnFlat \<sigma> f left right res)"

definition boolSelectOnValue ::
  "bool_op \<Rightarrow> u8 ValueVector \<Rightarrow> u8 ValueVector \<Rightarrow> nat \<Rightarrow> nat \<Rightarrow> nat \<Rightarrow> state_id \<Rightarrow> chunk_states \<times> nat \<Rightarrow> (chunk_states \<times> nat) result" where
  "boolSelectOnValue f left right lPos rPos resPos s t =
     (let resultValue = f (toBool (vecValues left ! lPos)) (toBool (vecValues right ! rPos)) (isNull left lPos) (isNull right rPos) in
      case t of (\<sigma>, numSelectedValues) \<Rightarrow>
        Inr (writeSelected \<sigma> s numSelectedValues resPos, numSelectedValues + (if resultValue = 1 then 1 else 0)))"

definition boolSelectBothFlat :: "chunk_states \<Rightarrow> bool_op \<Rightarrow> u8 ValueVector \<Rightarrow> u8 ValueVector \<Rightarrow> bool" where
  "boolSelectBothFlat \<sigma> f left right =
     (let lPos = getPositionOfCurrIdx (\<sigma> (vecState left)); rPos = getPositionOfCurrIdx (\<sigma> (vecState right)) in
      f (toBool (vecValues left ! lPos)) (toBool (vecValues right ! rPos)) (isNull left lPos) (isNull right rPos) = 1)"

definition boolSelectFlatUnFlat ::
  "chunk_states \<Rightarrow> bool_op \<Rightarrow> u8 ValueVector \<Rightarrow> u8 ValueVector \<Rightarrow> state_id \<Rightarrow> (bool \<times> chunk_states) result" where
  "boolSelectFlatUnFlat \<sigma> f left right s =
     (let lPos = getPositionOfCurrIdx (\<sigma> (vecState left)) in
      finishSelect s (forEachSelectedIn (vecState right) (\<lambda>i. boolSelectOnValue f left right lPos i i s) \<sigma>))"

definition boolSelectUnFlatFlat ::
  "chunk_states \<Rightarrow> bool_op \<Rightarrow> u8 ValueVector \<Rightarrow> u8 ValueVector \<Rightarrow> state_id \<Rightarrow> (bool \<times> chunk_states) result" where
  "boolSelectUnFlatFlat \<sigma> f left right s =
     (let rPos = getPositionOfCurrIdx (\<sigma> (vecState right)) in
      finishSelect s (forEachSelectedIn (vecState left) (\<lambda>i. boolSelectOnValue f left right i rPos i s) \<sigma>))"

definition boolSelectBothUnFlat ::
  "chunk_states \<Rightarrow> bool_op \<Rightarrow> u8 ValueVector \<Rightarrow> u8 ValueVector \<Rightarrow> state_id \<Rightarrow> (bool \<times> chunk_states) result" where
  "boolSelectBothUnFlat \<sigma> f left right s =
     finishSelect s (forEachSelectedIn (vecState left) (\<lambda>i. boolSelectOnValue f left right i i i s) \<sigma>)"

definition boolSelect ::
  "chunk_states \<Rightarrow> bool_op \<Rightarrow> u8 ValueVector \<Rightarrow> u8 ValueVector \<Rightarrow> state_id \<Rightarrow> (bool \<times> chunk_states) result" where
  "boolSelect \<sigma> f left right s =
     (let lFlat = isFlat (\<sigma> (vecState left)); rFlat = isFlat (\<sigma> (vecState right)) in
      if lFlat \<and> rFlat then Inr (boolSelectBothFlat \<sigma> f left right, \<sigma>)
      else if lFlat \<and> \<not> rFlat then boolSelectFlatUnFlat \<sigma> f left right s
      else if \<not> lFlat \<and> rFlat then boolSelectUnFlatFlat \<sigma> f left right s
      else boolSelectBothUnFlat \<sigma> f left right s)"

text \<open>Unary boolean operations.\<close>

definition unaryBoolExecuteOnValue :: "(bool \<Rightarrow> bool \<Rightarrow> u8) \<Rightarrow> u8 ValueVector \<Rightarrow> nat \<Rightarrow> u8 ValueVector \<Rightarrow> u8 ValueVector result" where
  "unaryBoolExecuteOnValue f operand pos res =
     (let res' = setValue res pos (f (toBool (vecValues operand ! pos)) (isNull operand pos))
      in Inr (setNull res' pos (vecValues res' ! pos = NULL_BOOL)))"

definition unaryBoolExecuteSwitch ::
  "chunk_states \<Rightarrow> (bool \<Rightarrow> bool \<Rightarrow> u8) \<Rightarrow> u8 ValueVector \<Rightarrow> u8 ValueVector \<Rightarrow> u8 ValueVector result" where
  "unaryBoolExecuteSwitch \<sigma> f operand res0 =
     (let res = setState res0 (vecState operand); st = \<sigma> (vecState operand) in
      if isFlat st then unaryBoolExecuteOnValue f operand (getPositionOfCurrIdx st) res
      else forEachSelected (selVector st) (\<lambda>i. unaryBoolExecuteOnValue f operand i) res)"

definition unaryBoolSelectOnValue ::
  "(bool \<Rightarrow> bool \<Rightarrow> u8) \<Rightarrow> u8 ValueVector \<Rightarrow> nat \<Rightarrow> state_id \<Rightarrow> chunk_states \<times> nat \<Rightarrow> (chunk_states \<times> nat) result" where
  "unaryBoolSelectOnValue f operand pos s t =
     (let resultValue = f (toBool (vecValues operand ! pos)) (isNull operand pos) in
      case t of (\<sigma>, numSelectedValues) \<Rightarrow>
        Inr (writeSelected \<sigma> s numSelectedValues pos, numSelectedValues + (if resultValue = 1 then 1 else 0)))"

definition unaryBoolSelect ::
  "chunk_states \<Rightarrow> (bool \<Rightarrow> bool \<Rightarrow> u8) \<Rightarrow> u8 ValueVector \<Rightarrow> state_id \<Rightarrow> (bool \<times> chunk_states) result" where
  "unaryBoolSelect \<sigma> f operand s =
     (let st = \<sigma> (vecState operand) in
      if isFlat st then
        let pos = getPositionOfCurrIdx st in Inr (f (toBool (vecValues operand ! pos)) (isNull operand pos) = 1, \<sigma>)
      else finishSelect s (forEachSelectedIn (vecState operand) (\<lambda>i. unaryBoolSelectOnValue f operand i s) \<sigma>))"

text \<open>Null tests; the null bits of the result are never written.\<close>

definition nullTestOnValue :: "('a \<Rightarrow> bool \<Rightarrow> u8) \<Rightarrow> 'a ValueVector \<Rightarrow> nat \<Rightarrow> u8 ValueVector \<Rightarrow> u8 ValueVector result" where
  "nullTestOnValue f operand pos res = Inr (setValue res pos (f (vecValues operand ! pos) (isNull operand pos)))"

definition nullExecute :: "chunk_states \<Rightarrow> ('a \<Rightarrow> bool \<Rightarrow> u8) \<Rightarrow> 'a ValueVector \<Rightarrow> u8 ValueVector \<Rightarrow> u8 ValueVector result" where
  "nullExecute \<sigma> f operand res0 =
     (let res = setState res0 (vecState operand); st = \<sigma> (vecState operand) in
      if isFlat st then nullTestOnValue f operand (getPositionOfCurrIdx st) res
      else forEachSelected (selVector st) (\<lambda>i. nullTestOnValue f operand i) res)"

definition nullSelectOnValue ::
  "('a \<Rightarrow> bool \<Rightarrow> u8) \<Rightarrow> 'a ValueVector \<Rightarrow> nat \<Rightarrow> state_id \<Rightarrow> chunk_states \<times> nat \<Rightarrow> (chunk_states \<times> nat) result" where
  "nullSelectOnValue f operand pos s t =
     (let resultValue = f (vecValues operand ! pos) (isNull operand pos) in
      case t of (\<sigma>, numSelectedValues) \<Rightarrow>
        Inr (writeSelected \<sigma> s numSelectedValues pos, numSelectedValues + (if resultValue = 1 then 1 else 0)))"

definition nullSelect :: "chunk_states \<Rightarrow> ('a \<Rightarrow> bool \<Rightarrow> u8) \<Rightarrow> 'a ValueVector \<Rightarrow> state_id \<Rightarrow> (bool \<times> chunk_states) result" where
  "nullSelect \<sigma> f operand s =
     (let st = \<sigma> (vecState operand) in
      if isFlat st then
        let pos = getPositionOfCurrIdx st in Inr (f (vecValues operand ! pos) (isNull operand pos) = 1, \<sigma>)
      else finishSelect s
        (foldResult (\<lambda>i t. nullSelectOnValue f operand (selectedPosition (selVector (fst t (vecState operand))) i) s t)
           [0..<selectedSize (selVector st)] (\<sigma>, 0)))"

section \<open>Three-valued logic\<close>

text \<open>The reference: the logic in which null is an unknown truth value.\<close>

fun kAnd :: "bool option \<Rightarrow> bool option \<Rightarrow> bool option" where
  "kAnd (Some False) _ = Some False"
| "kAnd _ (Some False) = Some False"
| "kAnd (Some True) (Some True) = Some True"
| "kAnd _ _ = None"

fun kNot :: "bool option \<Rightarrow> bool option" where
  "kNot None = None"
| "kNot (Some b) = Some (\<not> b)"

definition kOr :: "bool option \<Rightarrow> bool option \<Rightarrow> bool option" where
  "kOr x y = kNot (kAnd (kNot x) (kNot y))"

definition kXor :: "bool option \<Rightarrow> bool option \<Rightarrow> bool option" where
  "kXor x y = kOr (kAnd x (kNot y)) (kAnd (kNot x) y)"

text \<open>The truth value of a cell, and the byte an operation writes for a truth value.\<close>

definition truthOf :: "bool \<Rightarrow> bool \<Rightarrow> bool option" where
  "truthOf b isNullOperand = (if isNullOperand then None else Some b)"

fun byteOf :: "bool option \<Rightarrow> u8" where
  "byteOf None = NULL_BOOL"
| "byteOf (Some b) = fromBool b"

definition truthAt :: "chunk_states \<Rightarrow> u8 ValueVector \<Rightarrow> nat \<Rightarrow> bool option" where
  "truthAt \<sigma> v p = map_option toBool (operandAt \<sigma> v p)"

text \<open>The operations with the connectives that they compute.\<close>

definition implements2 :: "bool_op \<Rightarrow> (bool option \<Rightarrow> bool option \<Rightarrow> bool option) \<Rightarrow> bool" where
  "implements2 f k \<longleftrightarrow> (\<forall>l r ln rn. f l r ln rn = byteOf (k (truthOf l ln) (truthOf r rn)))"

lemma implements:
  "implements2 And_op kAnd" "implements2 Or_op kOr" "implements2 Xor_op kXor" "Not_op b n = byteOf (kNot (truthOf b n))"
proof -
  note defs = And_op_def Or_op_def Xor_op_def kOr_def kXor_def truthOf_def fromBool_def
  have "And_op l r ln rn = byteOf (kAnd (truthOf l ln) (truthOf r rn)) \<and> Or_op l r ln rn = byteOf (kOr (truthOf l ln) (truthOf r rn)) \<and>
      Xor_op l r ln rn = byteOf (kXor (truthOf l ln) (truthOf r rn))" for l r ln rn
    by (cases l; cases r; cases ln; cases rn) (simp_all add: defs)
  then show "implements2 And_op kAnd" "implements2 Or_op kOr" "implements2 Xor_op kXor" by (simp_all add: implements2_def)
  show "Not_op b n = byteOf (kNot (truthOf b n))" by (simp add: Not_op_def truthOf_def)
qed

section \<open>The executors compute the three-valued logic\<close>

definition byteBody :: "(nat \<Rightarrow> u8) \<Rightarrow> nat \<Rightarrow> u8 ValueVector \<Rightarrow> u8 ValueVector result" where
  "byteBody val p res = (let res' = setValue res p (val p) in Inr (setNull res' p (vecValues res' ! p = NULL_BOOL)))"

interpretation bytes: positionwise "byteBody val" "\<lambda>v. vector_ok v \<and> vecState v = s" vecCell
    "\<lambda>p _. Inr (val p = NULL_BOOL, val p)" 2048 for val s
proof unfold_locales
  fix v :: "u8 ValueVector" and p c
  assume v: "vector_ok v \<and> vecState v = s" and p: "p < 2048" and o: "Inr (val p = NULL_BOOL, val p) = (Inr c :: (bool \<times> u8) result)"
  let ?v = "setNull (setValue v p (val p)) p (val p = NULL_BOOL)"
  have "vector_ok (setValue v p (val p))" using v by simp
  then have n: "isNull ?v q = (if q = p then val p = NULL_BOOL else isNull v q)" for q
    using p isNull_setNull [of "setValue v p (val p)" p] by simp
  have "p < length (vecValues v)" using v p by (simp add: length_vecValues)
  then show "\<exists>v'. byteBody val p v = Inr v' \<and> (vector_ok v' \<and> vecState v' = s) \<and> vecCell v' p = c \<and>
      (\<forall>q. q \<noteq> p \<longrightarrow> vecCell v' q = vecCell v q)"
    using v p o n by (intro exI [of _ ?v]) (auto simp: byteBody_def vecCell_def Let_def)
qed simp

definition byteWanted :: "(nat \<Rightarrow> u8) \<Rightarrow> nat \<Rightarrow> u8 option result" where
  "byteWanted val p = Inr (if val p = NULL_BOOL then None else Some (val p))"

lemma byteBody_delivers:
  assumes "vector_ok res" and "distinct ps" and "list_all (\<lambda>p. p < 2048) ps"
  shows "delivers ps (vecState res) (byteWanted val) (foldResult (byteBody val) ps res)"
proof -
  note L = bytes.loop [where val = val and v = res and s = "vecState res" and ps = ps]
  show ?thesis
  proof (cases "foldResult (byteBody val) ps res")
    case (Inl e)
    then show ?thesis using L assms by simp
  next
    case (Inr v)
    then have v: "vector_ok v" "vecState v = vecState res" "\<forall>p \<in> set ps. (val p = NULL_BOOL, val p) = vecCell v p"
      using L assms by simp_all
    have "byteWanted val p = Inr (valueAt v p)" if "p \<in> set ps" for p
    proof -
      have "isNull v p \<longleftrightarrow> val p = NULL_BOOL" "vecValues v ! p = val p" using bspec [OF v(3) that] by (auto simp: vecCell_def)
      then show ?thesis by (simp add: byteWanted_def valueAt_def)
    qed
    then show ?thesis using Inr v(1,2) by (simp add: delivers_def)
  qed
qed

lemma bool_bodies:
  "(\<lambda>i. boolExecuteOnValue f l r lPos i i) =
     byteBody (\<lambda>i. f (toBool (vecValues l ! lPos)) (toBool (vecValues r ! i)) (isNull l lPos) (isNull r i))"
  "(\<lambda>i. boolExecuteOnValue f l r i rPos i) =
     byteBody (\<lambda>i. f (toBool (vecValues l ! i)) (toBool (vecValues r ! rPos)) (isNull l i) (isNull r rPos))"
  "(\<lambda>i. boolExecuteOnValue f l r i i i) =
     byteBody (\<lambda>i. f (toBool (vecValues l ! i)) (toBool (vecValues r ! i)) (isNull l i) (isNull r i))"
  "boolExecuteOnValue f l r lPos rPos p =
     byteBody (\<lambda>_. f (toBool (vecValues l ! lPos)) (toBool (vecValues r ! rPos)) (isNull l lPos) (isNull r rPos)) p"
  "(\<lambda>i. unaryBoolExecuteOnValue g l i) = byteBody (\<lambda>i. g (toBool (vecValues l ! i)) (isNull l i))"
  by (simp_all add: fun_eq_iff byteBody_def boolExecuteOnValue_def unaryBoolExecuteOnValue_def)

text \<open>The byte wanted at position \<open>p\<close>, whatever the flatness of the operands.\<close>

definition boolByte :: "chunk_states \<Rightarrow> bool_op \<Rightarrow> u8 ValueVector \<Rightarrow> u8 ValueVector \<Rightarrow> nat \<Rightarrow> u8" where
  "boolByte \<sigma> f left right p =
     (let lPos = (if isFlat (\<sigma> (vecState left)) then getPositionOfCurrIdx (\<sigma> (vecState left)) else p);
          rPos = (if isFlat (\<sigma> (vecState right)) then getPositionOfCurrIdx (\<sigma> (vecState right)) else p)
      in f (toBool (vecValues left ! lPos)) (toBool (vecValues right ! rPos)) (isNull left lPos) (isNull right rPos))"

lemma boolByte_kleene:
  "implements2 f k \<Longrightarrow> boolByte \<sigma> f left right p = byteOf (k (truthAt \<sigma> left p) (truthAt \<sigma> right p))"
  by (simp add: implements2_def boolByte_def truthAt_def operandAt_def valueAt_def truthOf_def Let_def)

lemma byteOf_simps:
  "(if byteOf x = NULL_BOOL then None else Some (byteOf x)) = map_option fromBool x" "byteOf x = 1 \<longleftrightarrow> x = Some True"
  by (cases x; simp add: NULL_BOOL_def fromBool_def)+

lemma boolExecute_fold:
  assumes "operands_ok \<sigma> left right"
  shows "boolExecute \<sigma> f left right res =
    foldResult (byteBody (boolByte \<sigma> f left right)) (activePositions (\<sigma> (resultState \<sigma> left right))) (setState res (resultState \<sigma> left right))"
proof -
  have ok: "sel_ok (selVector (\<sigma> (vecState left)))" "sel_ok (selVector (\<sigma> (vecState right)))"
    using assms by (simp_all add: operands_ok_def state_ok_def)
  show ?thesis
    by (auto simp: boolExecute_def boolExecuteBothFlat_def boolExecuteFlatUnFlat_def boolExecuteUnFlatFlat_def boolExecuteBothUnFlat_def
        resultState_def activePositions_def Let_def bool_bodies(1-3) boolExecuteOnValue_def byteBody_def boolByte_def [abs_def] forEachSelected_eq ok)
qed

text \<open>
  C26: AND, OR and XOR on vectors compute the three-valued logic in which null is unknown: at every selected position the result
  is the connective applied to the truth values of the operands there, null when it is unknown, for every combination of flat
  and unflat operands and whatever null bits the result vector held before.\<close>

theorem boolean_execute_is_three_valued:
  assumes "operands_ok \<sigma> left right" and "vector_ok res" and "(f, k) \<in> {(And_op, kAnd), (Or_op, kOr), (Xor_op, kXor)}"
  shows "\<exists>v. boolExecute \<sigma> f left right res = Inr v \<and> vector_ok v \<and> vecState v = resultState \<sigma> left right \<and>
    (\<forall>p \<in> set (activePositions (\<sigma> (resultState \<sigma> left right))).
       valueAt v p = map_option fromBool (k (truthAt \<sigma> left p) (truthAt \<sigma> right p)))"
proof -
  let ?s = "resultState \<sigma> left right"
  have st: "state_ok (\<sigma> ?s)" using assms(1) by (simp add: operands_ok_def resultState_def)
  have "delivers (activePositions (\<sigma> ?s)) ?s (byteWanted (boolByte \<sigma> f left right)) (boolExecute \<sigma> f left right res)"
    unfolding boolExecute_fold [OF assms(1)]
    using byteBody_delivers [of "setState res ?s" "activePositions (\<sigma> ?s)" "boolByte \<sigma> f left right"] assms(2)
      activePositions_distinct [OF st] activePositions_bound [OF st] by (simp add: list_all_iff)
  moreover have "byteWanted (boolByte \<sigma> f left right) p = Inr (map_option fromBool (k (truthAt \<sigma> left p) (truthAt \<sigma> right p)))" for p
  proof -
    have "implements2 f k" using assms(3) implements by auto
    then show ?thesis unfolding byteWanted_def by (simp only: boolByte_kleene byteOf_simps)
  qed
  ultimately show ?thesis by (cases "boolExecute \<sigma> f left right res") (auto simp: delivers_def)
qed

definition exampleBytes :: "u8 ValueVector" where
  "exampleBytes = setNull (newValueVector 1 1) 1 True"

lemma sample_bytes: "operands_ok exampleStates (newValueVector 0 0 :: u8 ValueVector) exampleBytes" "vecState exampleBytes = 1"
  by (simp_all add: operands_ok_def exampleBytes_def state_ok_single state_ok_unfiltered)

theorem boolean_execute_is_three_valued_witness:
  "\<exists>v. boolExecute exampleStates Or_op (newValueVector 0 0) exampleBytes (newValueVector 0 5) = Inr v \<and>
     valueAt v 0 = Some 1 \<and> valueAt v 1 = None"
proof -
  have a: "activePositions (exampleStates (resultState exampleStates (newValueVector 0 0 :: u8 ValueVector) exampleBytes)) = [0..<3]"
    by (simp add: resultState_def sample_bytes(2))
  have n: "isNull exampleBytes (Suc 0)" "\<not> isNull exampleBytes 0" by (simp_all add: exampleBytes_def isNull_setNull isNull_newValueVector)
  have l: "truthAt exampleStates (newValueVector 0 0) p = Some False" for p
    by (simp add: truthAt_def operandAt_def valueAt_def isNull_newValueVector toBool_def)
  have r: "truthAt exampleStates exampleBytes 0 = Some True" "truthAt exampleStates exampleBytes (Suc 0) = None"
    using n by (simp_all add: truthAt_def operandAt_def valueAt_def sample_bytes(2)) (simp add: exampleBytes_def toBool_def)
  show ?thesis
    using boolean_execute_is_three_valued [OF sample_bytes(1), of "newValueVector 0 5" Or_op kOr, unfolded a]
    by (auto simp: l r kOr_def fromBool_def)
qed

section \<open>Boolean selections and null tests\<close>

lemma bool_select_bodies:
  "(\<lambda>i. boolSelectOnValue f l r lPos i i s) =
     selectBody (\<lambda>_. False) (\<lambda>i. Inr (f (toBool (vecValues l ! lPos)) (toBool (vecValues r ! i)) (isNull l lPos) (isNull r i))) s"
  "(\<lambda>i. boolSelectOnValue f l r i rPos i s) =
     selectBody (\<lambda>_. False) (\<lambda>i. Inr (f (toBool (vecValues l ! i)) (toBool (vecValues r ! rPos)) (isNull l i) (isNull r rPos))) s"
  "(\<lambda>i. boolSelectOnValue f l r i i i s) =
     selectBody (\<lambda>_. False) (\<lambda>i. Inr (f (toBool (vecValues l ! i)) (toBool (vecValues r ! i)) (isNull l i) (isNull r i))) s"
  "(\<lambda>i. unaryBoolSelectOnValue g l i s) = selectBody (\<lambda>_. False) (\<lambda>i. Inr (g (toBool (vecValues l ! i)) (isNull l i))) s"
  by (simp_all add: fun_eq_iff selectBody_def unless_def boolSelectOnValue_def unaryBoolSelectOnValue_def Let_def)

lemma wanted_total: "wanted (\<lambda>_. False) (\<lambda>i. Inr (val i)) p = Inr (Some (val p))"
  by (simp add: wanted_def)

lemma boolSelect_selects:
  assumes "operands_ok \<sigma> left right"
  shows "selects \<sigma> (resultState \<sigma> left right) (\<lambda>p. Inr (Some (boolByte \<sigma> f left right p)))
    (boolSelect \<sigma> f left right (resultState \<sigma> left right))"
proof -
  let ?L = "\<sigma> (vecState left)" and ?R = "\<sigma> (vecState right)"
  have ok: "state_ok ?L" "state_ok ?R" using assms by (simp_all add: operands_ok_def)
  consider (bf) "isFlat ?L" "isFlat ?R" | (fu) "isFlat ?L" "\<not> isFlat ?R" | (uf) "\<not> isFlat ?L" "isFlat ?R" | (bu) "\<not> isFlat ?L" "\<not> isFlat ?R"
    by blast
  then show ?thesis
  proof cases
    case bf
    then show ?thesis
      by (simp add: boolSelect_def boolSelectBothFlat_def resultState_def selects_def activePositions_def boolByte_def Let_def)
  next
    case fu
    then show ?thesis using finishSelect_selects [where \<sigma> = \<sigma> and s = "vecState right" and nul = "\<lambda>_. False"
          and val = "\<lambda>i. Inr (boolByte \<sigma> f left right i)", OF ok(2) fu(2) wanted_total [symmetric]]
      by (simp add: boolSelect_def boolSelectFlatUnFlat_def resultState_def bool_select_bodies boolByte_def Let_def)
  next
    case uf
    then show ?thesis using finishSelect_selects [where \<sigma> = \<sigma> and s = "vecState left" and nul = "\<lambda>_. False"
          and val = "\<lambda>i. Inr (boolByte \<sigma> f left right i)", OF ok(1) uf(1) wanted_total [symmetric]]
      by (simp add: boolSelect_def boolSelectUnFlatFlat_def resultState_def bool_select_bodies boolByte_def Let_def)
  next
    case bu
    then show ?thesis using finishSelect_selects [where \<sigma> = \<sigma> and s = "vecState left" and nul = "\<lambda>_. False"
          and val = "\<lambda>i. Inr (boolByte \<sigma> f left right i)", OF ok(1) bu(1) wanted_total [symmetric]]
      by (simp add: boolSelect_def boolSelectBothUnFlat_def resultState_def bool_select_bodies boolByte_def Let_def)
  qed
qed

text \<open>A filter on AND, OR or XOR keeps the positions at which the connective is true, and only those.\<close>

lemma boolean_select_keeps_true:
  assumes "operands_ok \<sigma> left right" and "implements2 f k" and "\<not> isFlat (\<sigma> (resultState \<sigma> left right))"
  shows "\<exists>b \<sigma>'. boolSelect \<sigma> f left right (resultState \<sigma> left right) = Inr (b, \<sigma>') \<and>
    (b \<longrightarrow> selectedPositions (resetSelectorToValuePosBuffer (selVector (\<sigma>' (resultState \<sigma> left right)))) =
       filter (\<lambda>p. k (truthAt \<sigma> left p) (truthAt \<sigma> right p) = Some True) (activePositions (\<sigma> (resultState \<sigma> left right))))"
proof -
  let ?r = "boolSelect \<sigma> f left right (resultState \<sigma> left right)"
  have "(\<lambda>p. boolByte \<sigma> f left right p = 1) = (\<lambda>p. k (truthAt \<sigma> left p) (truthAt \<sigma> right p) = Some True)"
    using assms(2) by (simp add: boolByte_kleene byteOf_simps)
  then show ?thesis using boolSelect_selects [OF assms(1), of f] assms(3) by (cases ?r) (auto simp: selects_def Let_def)
qed

text \<open>
  NOT, IS NULL and IS NOT NULL.  The null tests leave the null bits of the result alone, so they need a result vector
  that never had a null; no operation gives it one.
\<close>

lemma not_execute_is_three_valued:
  assumes "vector_ok operand" and "state_ok (\<sigma> (vecState operand))" and "vector_ok res"
  shows "delivers (activePositions (\<sigma> (vecState operand))) (vecState operand)
    (\<lambda>p. Inr (map_option fromBool (kNot (truthAt \<sigma> operand p)))) (unaryBoolExecuteSwitch \<sigma> Not_op operand res)"
proof -
  let ?st = "\<sigma> (vecState operand)" and ?res = "setState res (vecState operand)"
  let ?val = "\<lambda>i. Not_op (toBool (vecValues operand ! i)) (isNull operand i)"
  have ok: "sel_ok (selVector ?st)" using assms(2) by (simp add: state_ok_def)
  have "unaryBoolExecuteSwitch \<sigma> Not_op operand res = foldResult (byteBody ?val) (activePositions ?st) ?res"
    by (auto simp: unaryBoolExecuteSwitch_def Let_def activePositions_def bool_bodies(5) unaryBoolExecuteOnValue_def byteBody_def
        forEachSelected_eq [OF ok])
  moreover have d: "delivers (activePositions ?st) (vecState operand) (byteWanted ?val) (foldResult (byteBody ?val) (activePositions ?st) ?res)"
    using byteBody_delivers [of ?res "activePositions ?st" ?val] assms(3) activePositions_distinct [OF assms(2)]
      activePositions_bound [OF assms(2)] by (simp add: list_all_iff)
  moreover have "Inr (map_option fromBool (kNot (truthAt \<sigma> operand p))) = byteWanted ?val p" if "p \<in> set (activePositions ?st)" for p
  proof -
    have "truthAt \<sigma> operand p = truthOf (toBool (vecValues operand ! p)) (isNull operand p)"
      using that by (auto simp: truthAt_def operandAt_def valueAt_def truthOf_def activePositions_def split: if_splits)
    then show ?thesis unfolding byteWanted_def by (simp only: implements byteOf_simps)
  qed
  ultimately show ?thesis by (simp only:) (rule delivers_want [OF d], simp)
qed

lemma null_test_delivers:
  assumes "state_ok (\<sigma> (vecState operand))" and "vector_ok res" and "hasNoNullsGuarantee res"
  shows "delivers (activePositions (\<sigma> (vecState operand))) (vecState operand)
    (\<lambda>p. Inr (Some (f (vecValues operand ! p) (isNull operand p)))) (nullExecute \<sigma> f operand res)"
proof -
  let ?st = "\<sigma> (vecState operand)" and ?res = "setState res (vecState operand)"
  let ?val = "\<lambda>i. Inr (f (vecValues operand ! i) (isNull operand i))"
  have ok: "sel_ok (selVector ?st)" using assms(1) by (simp add: state_ok_def)
  have b: "(\<lambda>i. nullTestOnValue f operand i) = fastBody ?val" by (simp add: fun_eq_iff nullTestOnValue_def fastBody_def)
  have fold: "nullExecute \<sigma> f operand res = foldResult (fastBody ?val) (activePositions ?st) ?res"
    by (auto simp: nullExecute_def Let_def activePositions_def b forEachSelected_eq [OF ok] nullTestOnValue_def fastBody_def)
  have nn: "\<not> isNull ?res p" if "p \<in> set (activePositions ?st)" for p
    using activePositions_bound [OF assms(1) that] assms(2,3) by (simp add: no_nulls_guarantee)
  note L = fast.loop [where val = ?val and v = ?res and s = "vecState operand" and ps = "activePositions ?st"]
  show ?thesis
    using L assms(2) nn activePositions_distinct [OF assms(1)] activePositions_bound [OF assms(1)]
    by (cases "foldResult (fastBody ?val) (activePositions ?st) ?res")
      (auto simp: delivers_def fold fastOut_def vecCell_def valueAt_def list_all_iff)
qed

end
