(* ===== verification/Pipeline.thy ===== *)
theory Pipeline
  imports Operation_Executor
begin

text \<open>
  Pull-based operators that narrow the batches of their child: \<^verbatim>\<open>filtering_operator.cpp\<close>, \<^verbatim>\<open>filter.cpp\<close>, \<^verbatim>\<open>skip.cpp\<close>,
  \<^verbatim>\<open>limit.cpp\<close>, \<^verbatim>\<open>flatten.cpp\<close>, \<^verbatim>\<open>multiplicity_reducer.cpp\<close> and the loop of \<^verbatim>\<open>result_collector.cpp\<close> of
  \<^verbatim>\<open>src/src/processor/physical_plan/operator\<close>, with the result set of \<^verbatim>\<open>src/src/processor/physical_plan/result/result_set.cpp\<close>.
  The child of an operator, the predicate of a filter and the table of the collector are virtual calls or code of other
  components; they are parameters.  The contract of a child is the locale \<open>batch_source\<close>.  Metrics are left out.
\<close>

section \<open>Operators\<close>

text \<open>
  An operator pulls: it updates the result set and the state of the operators below it, and says whether there is a batch.
  No value stands for a call that does not return.
\<close>

record ResultSet =
  multiplicity :: nat
  dataChunks :: "DataChunkState list"

type_synonym 'c puller = "ResultSet \<times> 'c \<Rightarrow> (bool \<times> ResultSet \<times> 'c) result option"

definition newResultSet :: "nat \<Rightarrow> ResultSet" where
  "newResultSet numDataChunks =
     \<lparr>multiplicity = 1, dataChunks = replicate numDataChunks (newDataChunkState DEFAULT_VECTOR_CAPACITY)\<rparr>"

definition to_u16 :: "int \<Rightarrow> nat" where
  "to_u16 i = nat (i mod 65536)"

definition to_u64 :: "nat \<Rightarrow> nat" where
  "to_u64 n = n mod 18446744073709551616"

definition to_i64 :: "int \<Rightarrow> int" where
  "to_i64 i = (i + 9223372036854775808) mod 18446744073709551616 - 9223372036854775808"

definition getNumTuplesWithoutMultiplicity :: "ResultSet \<Rightarrow> nat list \<Rightarrow> nat" where
  "getNumTuplesWithoutMultiplicity r dataChunksPosInScope =
     fold (\<lambda>pos numTuples. to_u64 (numTuples * getNumSelectedValues (dataChunks r ! pos))) dataChunksPosInScope 1"

definition getNumTuplesInResultSet :: "ResultSet \<Rightarrow> nat list \<Rightarrow> nat" where
  "getNumTuplesInResultSet r dataChunksPosInScope =
     to_u64 (getNumTuplesWithoutMultiplicity r dataChunksPosInScope * multiplicity r)"

definition selOf :: "ResultSet \<Rightarrow> nat \<Rightarrow> SelectionVector" where
  "selOf r k = selVector (dataChunks r ! k)"

definition withSel :: "ResultSet \<Rightarrow> nat \<Rightarrow> SelectionVector \<Rightarrow> ResultSet" where
  "withSel r k sv = r\<lparr>dataChunks := (dataChunks r)[k := (dataChunks r ! k)\<lparr>selVector := sv\<rparr>]\<rparr>"

subsection \<open>Saving and restoring selections\<close>

text \<open>The saved selection vector of a filtering operator; before the first save its pointer is null.\<close>

record PrevSelVector =
  prevIsNull :: bool
  prevSel :: SelectionVector

definition newPrevSelVector :: PrevSelVector where
  "newPrevSelVector = \<lparr>prevIsNull = True, prevSel = newSelectionVector DEFAULT_VECTOR_CAPACITY\<rparr>"

definition reInitPrevSelVector :: "PrevSelVector \<Rightarrow> PrevSelVector" where
  "reInitPrevSelVector prev = prev\<lparr>prevIsNull := True, prevSel := (prevSel prev)\<lparr>selectedSize := 0\<rparr>\<rparr>"

definition copyPositions :: "nat \<Rightarrow> nat list \<Rightarrow> nat list \<Rightarrow> nat list" where
  "copyPositions n to from = take n from @ drop n to"

definition restoreSelVector :: "PrevSelVector \<Rightarrow> SelectionVector \<Rightarrow> SelectionVector" where
  "restoreSelVector prev sv =
     (if prevIsNull prev then sv
      else let p = prevSel prev; sv1 = sv\<lparr>selectedSize := selectedSize p\<rparr> in
           if isUnfiltered p then resetSelectorToUnselected sv1
           else let sv2 = resetSelectorToValuePosBuffer sv1 in
                sv2\<lparr>selectedPositionsBuffer := copyPositions (selectedSize p) (selectedPositionsBuffer sv2) (selectedPositionsBuffer p)\<rparr>)"

definition saveSelVector :: "PrevSelVector \<Rightarrow> SelectionVector \<Rightarrow> PrevSelVector" where
  "saveSelVector prev sv =
     (let p = (prevSel prev)\<lparr>selectedSize := selectedSize sv\<rparr> in
      if isUnfiltered sv then \<lparr>prevIsNull = False, prevSel = resetSelectorToUnselected p\<rparr>
      else \<lparr>prevIsNull = False, prevSel = resetSelectorToValuePosBuffer
              (p\<lparr>selectedPositionsBuffer := copyPositions (selectedSize p) (selectedPositionsBuffer p) (selectedPositionsBuffer sv)\<rparr>)\<rparr>)"

subsection \<open>Filter\<close>

record 'c Filter =
  filterPrev :: PrevSelVector
  filterChild :: 'c

partial_function (option) filterGetNextTuples :: "nat \<Rightarrow> 'c puller \<Rightarrow> 'c puller \<Rightarrow> 'c Filter puller" where
  "filterGetNextTuples k child select t =
     (let (r, f) = t; r1 = withSel r k (restoreSelVector (filterPrev f) (selOf r k)) in
      case child (r1, filterChild f) of
        None \<Rightarrow> None
      | Some (Inl e) \<Rightarrow> Some (Inl e)
      | Some (Inr (hasNext, r2, c2)) \<Rightarrow>
          if \<not> hasNext then Some (Inr (False, r2, f\<lparr>filterChild := c2\<rparr>))
          else case select (r2, c2) of
                 None \<Rightarrow> None
               | Some (Inl e) \<Rightarrow> Some (Inl e)
               | Some (Inr (hasAtLeastOneSelectedValue, r3, c3)) \<Rightarrow>
                   let f' = f\<lparr>filterPrev := saveSelVector (filterPrev f) (selOf r2 k), filterChild := c3\<rparr>;
                       r4 = (if \<not> isFlat (dataChunks r3 ! k) \<and> isUnfiltered (selOf r3 k)
                             then withSel r3 k (resetSelectorToValuePosBuffer (selOf r3 k)) else r3)
                   in if hasAtLeastOneSelectedValue then Some (Inr (True, r4, f'))
                      else filterGetNextTuples k child select (r4, f'))"

subsection \<open>Skip\<close>

text \<open>
  \<open>numTupleSkippedBefore\<close> and \<open>numTuplesAvailable\<close> are declared by \<open>auto = 0u\<close> and have 32 bits; the counter and the number of
  tuples to skip have 64.
\<close>

record 'c Skip =
  skipPrev :: PrevSelVector
  skipCounter :: nat
  skipChild :: 'c

partial_function (option) skipLoop ::
  "nat \<Rightarrow> nat list \<Rightarrow> nat \<Rightarrow> 'c puller \<Rightarrow> ResultSet \<times> 'c Skip \<Rightarrow> (nat option \<times> ResultSet \<times> 'c Skip) result option" where
  "skipLoop k scope skipNumber child t =
     (let (r, f) = t; r1 = withSel r k (restoreSelVector (skipPrev f) (selOf r k)) in
      case child (r1, skipChild f) of
        None \<Rightarrow> None
      | Some (Inl e) \<Rightarrow> Some (Inl e)
      | Some (Inr (hasNext, r2, c2)) \<Rightarrow>
          if \<not> hasNext then Some (Inr (None, r2, f\<lparr>skipChild := c2\<rparr>))
          else let numTuplesAvailable = to_u32 (getNumTuplesInResultSet r2 scope);
                   numTupleSkippedBefore = to_u32 (skipCounter f);
                   f' = \<lparr>skipPrev = saveSelVector (skipPrev f) (selOf r2 k),
                         skipCounter = to_u64 (skipCounter f + numTuplesAvailable), skipChild = c2\<rparr>
               in if to_u32 (numTupleSkippedBefore + numTuplesAvailable) \<le> skipNumber
                  then skipLoop k scope skipNumber child (r2, f')
                  else Some (Inr (Some numTupleSkippedBefore, r2, f')))"

definition shiftPositions :: "nat \<Rightarrow> SelectionVector \<Rightarrow> SelectionVector" where
  "shiftPositions d sv =
     (if isUnfiltered sv then
        resetSelectorToValuePosBuffer (sv\<lparr>selectedPositionsBuffer :=
          fold (\<lambda>i b. b[i - d := i]) [d..<selectedSize sv] (selectedPositionsBuffer sv)\<rparr>)
      else sv\<lparr>selectedPositionsBuffer :=
          fold (\<lambda>i b. b[i - d := b ! i]) [d..<selectedSize sv] (selectedPositionsBuffer sv)\<rparr>)"

definition skipGetNextTuples :: "nat \<Rightarrow> nat list \<Rightarrow> nat \<Rightarrow> 'c puller \<Rightarrow> 'c Skip puller" where
  "skipGetNextTuples k scope skipNumber child t =
     (case skipLoop k scope skipNumber child t of
        None \<Rightarrow> None
      | Some (Inl e) \<Rightarrow> Some (Inl e)
      | Some (Inr (None, r, f)) \<Rightarrow> Some (Inr (False, r, f))
      | Some (Inr (Some numTupleSkippedBefore, r, f)) \<Rightarrow>
          let numTupleToSkipInCurrentResultSet = to_i64 (int skipNumber - int numTupleSkippedBefore) in
          if numTupleToSkipInCurrentResultSet \<le> 0 then Some (Inr (True, r, f))
          else let d = nat numTupleToSkipInCurrentResultSet;
                   sv = shiftPositions d (selOf r k)
               in Some (Inr (True, withSel r k (sv\<lparr>selectedSize := to_u16 (int (selectedSize sv) - int d)\<rparr>), f)))"

subsection \<open>Limit\<close>

record 'c Limit =
  limitCounter :: nat
  limitChild :: 'c

definition limitGetNextTuples :: "nat \<Rightarrow> nat list \<Rightarrow> nat \<Rightarrow> 'c puller \<Rightarrow> 'c Limit puller" where
  "limitGetNextTuples k scope limitNumber child t =
     (let (r, f) = t in
      case child (r, limitChild f) of
        None \<Rightarrow> None
      | Some (Inl e) \<Rightarrow> Some (Inl e)
      | Some (Inr (hasNext, r1, c1)) \<Rightarrow>
          if \<not> hasNext then Some (Inr (False, r1, f\<lparr>limitChild := c1\<rparr>))
          else let numTupleAvailable = getNumTuplesInResultSet r1 scope;
                   numTupleProcessedBefore = limitCounter f;
                   f' = \<lparr>limitCounter = to_u64 (limitCounter f + numTupleAvailable), limitChild = c1\<rparr>
               in if limitNumber < to_u64 (numTupleProcessedBefore + numTupleAvailable) then
                    let numTupleToProcessInCurrentResultSet = to_i64 (int limitNumber - int numTupleProcessedBefore) in
                    if numTupleToProcessInCurrentResultSet \<le> 0 then Some (Inr (False, r1, f'))
                    else Some (Inr (True, withSel r1 k ((selOf r1 k)\<lparr>selectedSize := to_u16 numTupleToProcessInCurrentResultSet\<rparr>), f'))
                  else Some (Inr (True, r1, f')))"

subsection \<open>Flatten\<close>

definition withCurrIdx :: "ResultSet \<Rightarrow> nat \<Rightarrow> int \<Rightarrow> ResultSet" where
  "withCurrIdx r k i = r\<lparr>dataChunks := (dataChunks r)[k := (dataChunks r ! k)\<lparr>currIdx := i\<rparr>]\<rparr>"

definition flattenGetNextTuples :: "nat \<Rightarrow> 'c puller \<Rightarrow> 'c puller" where
  "flattenGetNextTuples k child t =
     (case (if currIdx (dataChunks (fst t) ! k) = - 1 \<or> isCurrIdxLast (dataChunks (fst t) ! k)
            then child (withCurrIdx (fst t) k (- 1), snd t) else Some (Inr (True, t))) of
        None \<Rightarrow> None
      | Some (Inl e) \<Rightarrow> Some (Inl e)
      | Some (Inr (hasNext, r, c)) \<Rightarrow>
          if \<not> hasNext then Some (Inr (False, r, c)) else Some (Inr (True, withCurrIdx r k (currIdx (dataChunks r ! k) + 1), c)))"

subsection \<open>Multiplicity reducer\<close>

record 'c MultiplicityReducer =
  prevMultiplicity :: nat
  numRepeat :: nat
  reducerChild :: 'c

definition newMultiplicityReducer :: "'c \<Rightarrow> 'c MultiplicityReducer" where
  "newMultiplicityReducer c = \<lparr>prevMultiplicity = 1, numRepeat = 0, reducerChild = c\<rparr>"

definition reducerGetNextTuples :: "'c puller \<Rightarrow> 'c MultiplicityReducer puller" where
  "reducerGetNextTuples child t =
     (let (r, f) = t in
      case (if numRepeat f = 0
            then case child (r\<lparr>multiplicity := prevMultiplicity f\<rparr>, reducerChild f) of
                   None \<Rightarrow> None
                 | Some (Inl e) \<Rightarrow> Some (Inl e)
                 | Some (Inr (hasNext, r1, c1)) \<Rightarrow>
                     if \<not> hasNext then Some (Inr (False, r1, f\<lparr>reducerChild := c1\<rparr>))
                     else Some (Inr (True, r1\<lparr>multiplicity := 1\<rparr>, f\<lparr>prevMultiplicity := multiplicity r1, reducerChild := c1\<rparr>))
            else Some (Inr (True, r, f))) of
        None \<Rightarrow> None
      | Some (Inl e) \<Rightarrow> Some (Inl e)
      | Some (Inr (hasNext, r1, f1)) \<Rightarrow>
          if \<not> hasNext then Some (Inr (False, r1, f1))
          else let n = to_u64 (numRepeat f1 + 1)
               in Some (Inr (True, r1, f1\<lparr>numRepeat := (if n = prevMultiplicity f1 then 0 else n)\<rparr>)))"

subsection \<open>Result collector\<close>

text \<open>\<open>appendBatch\<close> stands for the append of the collector's table: it adds the tuples of the current batch once.\<close>

partial_function (option) collectorExecute ::
  "'c puller \<Rightarrow> (ResultSet \<times> 'c \<Rightarrow> 't \<Rightarrow> 't) \<Rightarrow> ResultSet \<times> 'c \<Rightarrow> 't \<Rightarrow> 't result option" where
  "collectorExecute child appendBatch t localTable =
     (case child t of
        None \<Rightarrow> None
      | Some (Inl e) \<Rightarrow> Some (Inl e)
      | Some (Inr (hasNext, t')) \<Rightarrow>
          if \<not> hasNext then Some (Inr localTable)
          else collectorExecute child appendBatch t' (fold (\<lambda>_. appendBatch t') [0..<multiplicity (fst t')] localTable))"

section \<open>Selections\<close>

text \<open>Two selection vectors that no reader can tell apart: the buffer beyond the selected positions is not read.\<close>

definition selEq :: "SelectionVector \<Rightarrow> SelectionVector \<Rightarrow> bool" where
  "selEq sv sv' \<longleftrightarrow> selUnfiltered sv = selUnfiltered sv' \<and> selectedSize sv = selectedSize sv' \<and>
     selectedPositions sv = selectedPositions sv' \<and>
     length (selectedPositionsBuffer sv) = length (selectedPositionsBuffer sv')"

lemma selEq_refl [simp]: "selEq sv sv"
  by (simp add: selEq_def)

lemma length_copyPositions:
  "n \<le> length to \<Longrightarrow> n \<le> length from \<Longrightarrow> length (copyPositions n to from) = length to"
  by (simp add: copyPositions_def)

lemma take_copyPositions: "n \<le> length from \<Longrightarrow> take n (copyPositions n to from) = take n from"
  by (simp add: copyPositions_def)

text \<open>Restoring what was saved gives back the selection that was saved, whatever happened to the selection vector in between.\<close>

lemma restore_saved:
  assumes "sel_ok sv" and "length (selectedPositionsBuffer (prevSel prev)) = DEFAULT_VECTOR_CAPACITY"
    and "length (selectedPositionsBuffer sv') = length (selectedPositionsBuffer sv)"
  shows "selEq (restoreSelVector (saveSelVector prev sv) sv') sv"
proof (cases "selUnfiltered sv")
  case True
  let ?r = "restoreSelVector (saveSelVector prev sv) sv'"
  have r: "selUnfiltered ?r" "selectedSize ?r = selectedSize sv" "selectedPositionsBuffer ?r = selectedPositionsBuffer sv'"
    using True by (simp_all add: restoreSelVector_def saveSelVector_def isUnfiltered_def resetSelectorToUnselected_def Let_def)
  have sz: "selectedSize sv \<le> 2048" using assms(1) by (simp add: sel_ok_def)
  have "selectedPositions ?r = selectedPositions sv"
    using True sz r selectedPositions_unfiltered [of ?r] selectedPositions_unfiltered [of sv] by simp
  then show ?thesis using True r assms(3) by (simp add: selEq_def)
next
  case False
  let ?r = "restoreSelVector (saveSelVector prev sv) sv'" and ?n = "selectedSize sv"
  have n: "?n \<le> length (selectedPositionsBuffer sv)" "?n \<le> 2048" using assms(1) by (simp_all add: sel_ok_def)
  have r: "\<not> selUnfiltered ?r" "selectedSize ?r = ?n"
      "selectedPositionsBuffer ?r = copyPositions ?n (selectedPositionsBuffer sv')
         (copyPositions ?n (selectedPositionsBuffer (prevSel prev)) (selectedPositionsBuffer sv))"
    using False by (simp_all add: restoreSelVector_def saveSelVector_def isUnfiltered_def resetSelectorToValuePosBuffer_def Let_def)
  have l: "?n \<le> length (copyPositions ?n (selectedPositionsBuffer (prevSel prev)) (selectedPositionsBuffer sv))"
    using n assms(2) by (simp add: length_copyPositions)
  have len: "length (selectedPositionsBuffer ?r) = length (selectedPositionsBuffer sv)"
    unfolding r(3) using n assms(3) l by (simp add: length_copyPositions)
  have "selectedPositions ?r = take ?n (selectedPositionsBuffer ?r)"
    using r(1,2) len n by (subst selectedPositions_filtered) simp_all
  also have "\<dots> = take ?n (selectedPositionsBuffer sv)" unfolding r(3) using l n by (simp add: take_copyPositions)
  also have "\<dots> = selectedPositions sv" using False n by (simp add: selectedPositions_filtered)
  finally show ?thesis using False r(1,2) len by (simp add: selEq_def)
qed

lemma length_saved_buffer:
  assumes "length (selectedPositionsBuffer (prevSel prev)) = DEFAULT_VECTOR_CAPACITY" and "sel_ok sv"
  shows "length (selectedPositionsBuffer (prevSel (saveSelVector prev sv))) = DEFAULT_VECTOR_CAPACITY"
  using assms by (simp add: saveSelVector_def Let_def resetSelectorToUnselected_def resetSelectorToValuePosBuffer_def
      length_copyPositions sel_ok_def)

section \<open>Batches\<close>

text \<open>
  A result set whose chunk \<open>k\<close> holds a batch: it is not flat, its selection is well-formed, the other chunks in scope are flat and
  tuples are not repeated, so the number of tuples is the number of selected positions.
\<close>

definition batch_ok :: "nat \<Rightarrow> nat list \<Rightarrow> ResultSet \<Rightarrow> bool" where
  "batch_ok k scope r \<longleftrightarrow> multiplicity r = 1 \<and> k < length (dataChunks r) \<and> currIdx (dataChunks r ! k) = - 1 \<and>
     k \<in> set scope \<and> distinct scope \<and> (\<forall>i \<in> set scope. i \<noteq> k \<longrightarrow> isFlat (dataChunks r ! i)) \<and>
     sel_ok (selOf r k) \<and> length (selectedPositionsBuffer (selOf r k)) = DEFAULT_VECTOR_CAPACITY"

lemma withSel_withSel [simp]: "withSel (withSel r k sv) k sv' = withSel r k sv'"
  by (cases "k < length (dataChunks r)") (simp_all add: withSel_def list_update_beyond)

lemma withSel_simps [simp]:
  "length (dataChunks (withSel r k sv)) = length (dataChunks r)"
  "k < length (dataChunks r) \<Longrightarrow> selOf (withSel r k sv) k = sv" "multiplicity (withSel r k sv) = multiplicity r"
  "k < length (dataChunks r) \<Longrightarrow> withSel r k (selOf r k) = r"
  "k < length (dataChunks r) \<Longrightarrow> isFlat (dataChunks (withSel r k sv) ! i) = isFlat (dataChunks r ! i)"
  "k < length (dataChunks r) \<Longrightarrow> currIdx (dataChunks (withSel r k sv) ! k) = currIdx (dataChunks r ! k)"
  by (auto simp: withSel_def selOf_def isFlat_def nth_list_update list_update_same_conv)

lemma batch_ok_withSel:
  "batch_ok k scope r \<Longrightarrow> sel_ok sv \<Longrightarrow> length (selectedPositionsBuffer sv) = DEFAULT_VECTOR_CAPACITY \<Longrightarrow>
   batch_ok k scope (withSel r k sv)"
  by (simp add: batch_ok_def)

lemma selectedSize_bound: "sel_ok sv \<Longrightarrow> selectedSize sv \<le> 2048"
  by (simp add: sel_ok_def)

lemma small_u64 [simp]: "n < 18446744073709551616 \<Longrightarrow> to_u64 n = n"
  by (simp add: to_u64_def)

lemma small_i64 [simp]: "- 9223372036854775808 \<le> i \<Longrightarrow> i < 9223372036854775808 \<Longrightarrow> to_i64 i = i"
  by (simp add: to_i64_def)

lemma fold_flat_chunks:
  assumes "\<forall>i \<in> set ps. i \<noteq> k \<longrightarrow> isFlat (cs ! i)" and "distinct ps" and "\<not> isFlat (cs ! k)"
    and "n \<le> 2048" and "selectedSize (selVector (cs ! k)) \<le> 2048"
  shows "fold (\<lambda>pos m. to_u64 (m * getNumSelectedValues (cs ! pos))) ps n =
    (if k \<in> set ps then n * selectedSize (selVector (cs ! k)) else n)"
proof -
  have flat: "fold (\<lambda>pos m. to_u64 (m * getNumSelectedValues (cs ! pos))) js m = m"
    if "\<forall>i \<in> set js. isFlat (cs ! i)" "m \<le> 2048 * 2048" for js m
    using that by (induction js arbitrary: m) (simp_all add: getNumSelectedValues_def)
  show ?thesis
  proof (cases "k \<in> set ps")
    case True
    then obtain xs ys where ps: "ps = xs @ k # ys" "k \<notin> set xs" by (meson split_list_first)
    have m: "n * selectedSize (selVector (cs ! k)) \<le> 2048 * 2048" using assms(4,5) by (intro mult_le_mono)
    have "\<forall>i \<in> set xs. isFlat (cs ! i)" "\<forall>i \<in> set ys. isFlat (cs ! i)" using assms(1,2) ps by auto
    then show ?thesis using True m assms(3,4) flat [of xs n] flat [of ys "n * selectedSize (selVector (cs ! k))"]
      by (simp add: ps(1) getNumSelectedValues_def)
  next
    case False
    then have "\<forall>i \<in> set ps. isFlat (cs ! i)" using assms(1) by auto
    then show ?thesis using flat [of ps n] assms(4) False by simp
  qed
qed

lemma numTuples_batch: "batch_ok k scope r \<Longrightarrow> getNumTuplesInResultSet r scope = selectedSize (selOf r k)"
  using fold_flat_chunks [of scope k "dataChunks r" 1] selectedSize_bound [of "selOf r k"]
  by (simp add: batch_ok_def getNumTuplesInResultSet_def getNumTuplesWithoutMultiplicity_def selOf_def isFlat_def)

lemma length_restoreSelVector:
  assumes "length (selectedPositionsBuffer (prevSel prev)) = DEFAULT_VECTOR_CAPACITY" and "selectedSize (prevSel prev) \<le> 2048"
    and "length (selectedPositionsBuffer sv) = DEFAULT_VECTOR_CAPACITY"
  shows "length (selectedPositionsBuffer (restoreSelVector prev sv)) = DEFAULT_VECTOR_CAPACITY"
  using assms by (simp add: restoreSelVector_def Let_def resetSelectorToUnselected_def resetSelectorToValuePosBuffer_def
      length_copyPositions)

text \<open>After a save, what is restored does not depend on the selection vector that is overwritten.\<close>

lemma restore_ignores:
  assumes "\<not> prevIsNull prev" and "length (selectedPositionsBuffer (prevSel prev)) = DEFAULT_VECTOR_CAPACITY"
    and "selectedSize (prevSel prev) \<le> 2048"
    and "length (selectedPositionsBuffer sv) = DEFAULT_VECTOR_CAPACITY" and "length (selectedPositionsBuffer sv') = DEFAULT_VECTOR_CAPACITY"
  shows "selEq (restoreSelVector prev sv) (restoreSelVector prev sv')"
proof (cases "selUnfiltered (prevSel prev)")
  case True
  let ?r = "\<lambda>sv. restoreSelVector prev sv"
  have r: "selUnfiltered (?r sv)" "selectedSize (?r sv) = selectedSize (prevSel prev)" "selectedPositionsBuffer (?r sv) = selectedPositionsBuffer sv" for sv
    using True assms(1) by (simp_all add: restoreSelVector_def isUnfiltered_def resetSelectorToUnselected_def Let_def)
  show ?thesis using r assms(3-5) by (simp add: selEq_def selectedPositions_unfiltered)
next
  case False
  let ?n = "selectedSize (prevSel prev)"
  have r: "\<not> selUnfiltered (restoreSelVector prev sv)" "selectedSize (restoreSelVector prev sv) = ?n"
      "selectedPositionsBuffer (restoreSelVector prev sv) = copyPositions ?n (selectedPositionsBuffer sv) (selectedPositionsBuffer (prevSel prev))" for sv
    using False assms(1) by (simp_all add: restoreSelVector_def isUnfiltered_def resetSelectorToValuePosBuffer_def Let_def)
  show ?thesis using r assms(2-5)
    by (simp add: selEq_def selectedPositions_filtered length_copyPositions take_copyPositions)
qed

subsection \<open>Shifting a selection\<close>

lemma shift_in_place:
  assumes "d \<le> n" and "n \<le> length b" and "\<And>j x. length x = length b \<Longrightarrow> (\<forall>i \<ge> j - d. i < length b \<longrightarrow> x ! i = b ! i) \<Longrightarrow> d \<le> j \<Longrightarrow> j < n \<Longrightarrow> v j x = w j"
  shows "length (fold (\<lambda>i b. b[i - d := v i b]) [d..<n] b) = length b \<and>
    (\<forall>i < length b. fold (\<lambda>i b. b[i - d := v i b]) [d..<n] b ! i = (if i < n - d then w (i + d) else b ! i))"
  using assms
proof (induction n)
  case (Suc n)
  show ?case
  proof (cases "d \<le> n")
    case True
    let ?x = "fold (\<lambda>i b. b[i - d := v i b]) [d..<n] b"
    have x: "length ?x = length b" "\<forall>i < length b. ?x ! i = (if i < n - d then w (i + d) else b ! i)"
      using Suc True by auto
    then have "v n ?x = w n" using Suc.prems(3) [of ?x n] True by auto
    moreover have "fold (\<lambda>i b. b[i - d := v i b]) [d..<Suc n] b = ?x[n - d := v n ?x]" using True by simp
    ultimately have f: "fold (\<lambda>i b. b[i - d := v i b]) [d..<Suc n] b = ?x[n - d := w n]" by simp
    show ?thesis unfolding f using x True by (auto simp: nth_list_update less_Suc_eq Suc_diff_le)
  next
    case False
    then have "d = Suc n" using Suc.prems(1) by simp
    then show ?thesis by simp
  qed
qed simp

lemma shiftPositions_drops:
  assumes "sel_ok sv" and "length (selectedPositionsBuffer sv) = DEFAULT_VECTOR_CAPACITY" and "d \<le> selectedSize sv"
  defines "sv' \<equiv> (shiftPositions d sv)\<lparr>selectedSize := selectedSize sv - d\<rparr>"
  shows "selectedPositions sv' = drop d (selectedPositions sv)" and "sel_ok sv'"
    and "length (selectedPositionsBuffer sv') = DEFAULT_VECTOR_CAPACITY"
proof -
  let ?b = "selectedPositionsBuffer sv" and ?n = "selectedSize sv"
  have n: "?n \<le> 2048" using assms(1) by (rule selectedSize_bound)
  have sz: "selectedSize (shiftPositions d sv) = ?n" "\<not> selUnfiltered (shiftPositions d sv)"
    by (simp_all add: shiftPositions_def isUnfiltered_def resetSelectorToValuePosBuffer_def)
  let ?w = "\<lambda>i. selectedPositions sv ! i" and ?b' = "selectedPositionsBuffer (shiftPositions d sv)"
  have b': "length ?b' = 2048 \<and> (\<forall>i < 2048. ?b' ! i = (if i < ?n - d then ?w (i + d) else ?b ! i))"
  proof (cases "selUnfiltered sv")
    case True
    have "?w i = i" if "i < ?n" for i using True n that by (simp add: selectedPositions_unfiltered)
    then show ?thesis
      using True assms(2,3) n shift_in_place [of d ?n ?b "\<lambda>i _. i" ?w]
      by (simp add: shiftPositions_def isUnfiltered_def resetSelectorToValuePosBuffer_def)
  next
    case False
    have "?w i = ?b ! i" if "i < ?n" for i using False n assms(2) that by (simp add: selectedPositions_filtered)
    then show ?thesis
      using False assms(2,3) n shift_in_place [of d ?n ?b "\<lambda>i b. b ! i" ?w]
      by (simp add: shiftPositions_def isUnfiltered_def)
  qed
  have "selectedPositions sv' = take (?n - d) ?b'"
    using sz b' n by (simp add: sv'_def selectedPositions_filtered)
  also have "\<dots> = drop d (selectedPositions sv)"
    using b' n assms(3) by (intro nth_equalityI) (auto simp: add.commute)
  finally show p: "selectedPositions sv' = drop d (selectedPositions sv)" .
  show "length (selectedPositionsBuffer sv') = DEFAULT_VECTOR_CAPACITY" using b' by (simp add: sv'_def)
  have "\<forall>x \<in> set (drop d (selectedPositions sv)). x < 2048" using assms(1) by (auto simp: sel_ok_def list_all_iff dest: in_set_dropD)
  moreover have "?n - d \<le> 2048" using n by simp
  ultimately show "sel_ok sv'" using b' p assms(1) by (simp add: sel_ok_def sv'_def list_all_iff)
qed

lemma sel_ok_truncated:
  assumes "sel_ok sv" and "m \<le> selectedSize sv"
  shows "sel_ok (sv\<lparr>selectedSize := m\<rparr>)" and "selectedPositions (sv\<lparr>selectedSize := m\<rparr>) = take m (selectedPositions sv)"
proof -
  show t: "selectedPositions (sv\<lparr>selectedSize := m\<rparr>) = take m (selectedPositions sv)"
    using assms by (intro nth_equalityI) (auto simp: selectedPositions_def selectedPosition_def)
  show "sel_ok (sv\<lparr>selectedSize := m\<rparr>)"
    using assms t by (auto simp: sel_ok_def list_all_iff dest: in_set_takeD)
qed

section \<open>The contract of a child\<close>

text \<open>
  \<open>rest\<close> gives the batches that are still to come, \<open>cell c p\<close> the tuple at position \<open>p\<close> of the current batch.  A child that is
  exhausted says so; otherwise the next batch is selected in chunk \<open>k\<close>.  A child may read the selection it left behind, so its
  behaviour is only promised when the selection has been restored.
\<close>

locale batch_source =
  fixes child :: "'c puller" and k :: nat and scope :: "nat list"
    and ok :: "ResultSet \<times> 'c \<Rightarrow> bool" and rest :: "ResultSet \<times> 'c \<Rightarrow> 'a list list" and cell :: "'c \<Rightarrow> nat \<Rightarrow> 'a"
  assumes exhausted: "ok (r, c) \<Longrightarrow> rest (r, c) = [] \<Longrightarrow> \<exists>t. child (r, c) = Some (Inr (False, t))"
    and delivers: "ok (r, c) \<Longrightarrow> rest (r, c) = b # bs \<Longrightarrow>
      \<exists>r' c'. child (r, c) = Some (Inr (True, r', c')) \<and> ok (r', c') \<and> rest (r', c') = bs \<and> batch_ok k scope r' \<and>
        map (cell c') (selectedPositions (selOf r' k)) = b"
    and same_selection: "ok (r, c) \<Longrightarrow> selEq sv (selOf r k) \<Longrightarrow> ok (withSel r k sv, c) \<and> rest (withSel r k sv, c) = rest (r, c)"
    and writable: "ok (r, c) \<Longrightarrow> k < length (dataChunks r) \<and> length (selectedPositionsBuffer (selOf r k)) = DEFAULT_VECTOR_CAPACITY"

text \<open>A child that rewrites the selection without reading it.\<close>

locale selection_writer = batch_source +
  assumes any_selection: "ok (r, c) \<Longrightarrow> length (selectedPositionsBuffer sv) = DEFAULT_VECTOR_CAPACITY \<Longrightarrow>
    ok (withSel r k sv, c) \<and> rest (withSel r k sv, c) = rest (r, c)"

text \<open>What \<^verbatim>\<open>Skip\<close> and \<^verbatim>\<open>Limit\<close> make of a sequence of batches when \<open>c\<close> tuples have been counted.\<close>

fun skipBatches :: "nat \<Rightarrow> nat \<Rightarrow> 'a list list \<Rightarrow> 'a list list" where
  "skipBatches s c [] = []"
| "skipBatches s c (b # bs) =
     (if c + length b \<le> s then skipBatches s (c + length b) bs else drop (s - c) b # skipBatches s (c + length b) bs)"

fun limitBatches :: "nat \<Rightarrow> nat \<Rightarrow> 'a list list \<Rightarrow> 'a list list" where
  "limitBatches l c [] = []"
| "limitBatches l c (b # bs) =
     (if c + length b \<le> l then b # limitBatches l (c + length b) bs
      else if l \<le> c then [] else take (l - c) b # limitBatches l (c + length b) bs)"

lemma concat_skipBatches: "concat (skipBatches s c bs) = drop (s - c) (concat bs)"
  by (induction s c bs rule: skipBatches.induct) auto

lemma limitBatches_over: "l < c \<Longrightarrow> limitBatches l c bs = []"
  by (cases bs) auto

lemma concat_limitBatches: "concat (limitBatches l c bs) = take (l - c) (concat bs)"
  by (induction l c bs rule: limitBatches.induct) (auto simp: limitBatches_over)

definition restored :: "nat \<Rightarrow> PrevSelVector \<Rightarrow> ResultSet \<Rightarrow> ResultSet" where
  "restored k prev r = withSel r k (restoreSelVector prev (selOf r k))"

definition saved_ok :: "nat \<Rightarrow> PrevSelVector \<Rightarrow> ResultSet \<Rightarrow> bool" where
  "saved_ok k prev r \<longleftrightarrow> k < length (dataChunks r) \<and> length (selectedPositionsBuffer (selOf r k)) = DEFAULT_VECTOR_CAPACITY \<and>
     length (selectedPositionsBuffer (prevSel prev)) = DEFAULT_VECTOR_CAPACITY \<and> selectedSize (prevSel prev) \<le> 2048"

definition skipOk :: "nat \<Rightarrow> (ResultSet \<times> 'c \<Rightarrow> bool) \<Rightarrow> (ResultSet \<times> 'c \<Rightarrow> 'a list list) \<Rightarrow> ResultSet \<times> 'c Skip \<Rightarrow> bool" where
  "skipOk k ok rest t = (case t of (r, f) \<Rightarrow> saved_ok k (skipPrev f) r \<and> ok (restored k (skipPrev f) r, skipChild f) \<and>
     skipCounter f + length (concat (rest (restored k (skipPrev f) r, skipChild f))) < 4294967296)"

definition skipRest :: "nat \<Rightarrow> (ResultSet \<times> 'c \<Rightarrow> 'a list list) \<Rightarrow> nat \<Rightarrow> ResultSet \<times> 'c Skip \<Rightarrow> 'a list list" where
  "skipRest k rest s t = (case t of (r, f) \<Rightarrow> skipBatches s (skipCounter f) (rest (restored k (skipPrev f) r, skipChild f)))"

definition limitOk :: "(ResultSet \<times> 'c \<Rightarrow> bool) \<Rightarrow> (ResultSet \<times> 'c \<Rightarrow> 'a list list) \<Rightarrow> nat \<Rightarrow> ResultSet \<times> 'c Limit \<Rightarrow> bool" where
  "limitOk ok rest l t = (case t of (r, f) \<Rightarrow> ok (r, limitChild f) \<and> l < 9223372036854775808 \<and>
     limitCounter f + length (concat (rest (r, limitChild f))) < 9223372036854775808)"

definition limitRest :: "(ResultSet \<times> 'c \<Rightarrow> 'a list list) \<Rightarrow> nat \<Rightarrow> ResultSet \<times> 'c Limit \<Rightarrow> 'a list list" where
  "limitRest rest l t = (case t of (r, f) \<Rightarrow> limitBatches l (limitCounter f) (rest (r, limitChild f)))"

text \<open>What a call of an operator ends with when \<open>bs\<close> are the batches that are still to come.\<close>

definition givesBatch ::
  "nat \<Rightarrow> nat list \<Rightarrow> (ResultSet \<times> 'c \<Rightarrow> bool) \<Rightarrow> (ResultSet \<times> 'c \<Rightarrow> 'a list list) \<Rightarrow> ('c \<Rightarrow> nat \<Rightarrow> 'a) \<Rightarrow>
   'a list list \<Rightarrow> (bool \<times> ResultSet \<times> 'c) result option \<Rightarrow> bool" where
  "givesBatch k scope ok rest cell bs out \<longleftrightarrow>
     (case bs of
        [] \<Rightarrow> \<exists>t. out = Some (Inr (False, t))
      | b # bs \<Rightarrow> \<exists>r c. out = Some (Inr (True, r, c)) \<and> ok (r, c) \<and> rest (r, c) = bs \<and> batch_ok k scope r \<and>
          map (cell c) (selectedPositions (selOf r k)) = b)"

text \<open>
  What the loop of \<^verbatim>\<open>Skip\<close> ends with when \<open>bs\<close> are the batches to deliver: the first batch that is not skipped as a whole, with
  the number of tuples counted before it.
\<close>

definition stopsAt ::
  "nat \<Rightarrow> nat list \<Rightarrow> (ResultSet \<times> 'c \<Rightarrow> bool) \<Rightarrow> (ResultSet \<times> 'c \<Rightarrow> 'a list list) \<Rightarrow> ('c \<Rightarrow> nat \<Rightarrow> 'a) \<Rightarrow> nat \<Rightarrow>
   'a list list \<Rightarrow> (nat option \<times> ResultSet \<times> 'c Skip) result option \<Rightarrow> bool" where
  "stopsAt k scope ok rest cell s bs out \<longleftrightarrow>
     (case bs of
        [] \<Rightarrow> \<exists>t. out = Some (Inr (None, t))
      | x # xs \<Rightarrow> \<exists>before r f prev b. out = Some (Inr (Some before, r, f)) \<and>
          x = drop (s - before) b \<and> s < before + length b \<and> map (cell (skipChild f)) (selectedPositions (selOf r k)) = b \<and>
          skipBatches s (skipCounter f) (rest (r, skipChild f)) = xs \<and> ok (r, skipChild f) \<and> batch_ok k scope r \<and>
          skipPrev f = saveSelVector prev (selOf r k) \<and> length (selectedPositionsBuffer (prevSel prev)) = DEFAULT_VECTOR_CAPACITY \<and>
          skipCounter f + length (concat (rest (r, skipChild f))) < 4294967296 \<and> before + length b < 4294967296)"

context batch_source
begin

lemma after_save:
  assumes "ok (r, c)" and "batch_ok k scope r" and "length (selectedPositionsBuffer sv) = DEFAULT_VECTOR_CAPACITY"
    and "length (selectedPositionsBuffer (prevSel prev)) = DEFAULT_VECTOR_CAPACITY"
  defines "prev' \<equiv> saveSelVector prev (selOf r k)"
  shows "ok (restored k prev' (withSel r k sv), c)" and "rest (restored k prev' (withSel r k sv), c) = rest (r, c)"
    and "saved_ok k prev' (withSel r k sv)"
proof -
  have b: "sel_ok (selOf r k)" "k < length (dataChunks r)" "length (selectedPositionsBuffer (selOf r k)) = DEFAULT_VECTOR_CAPACITY"
    using assms(2) by (simp_all add: batch_ok_def)
  have "selEq (restoreSelVector prev' sv) (selOf r k)"
    unfolding prev'_def using b assms(3,4) by (intro restore_saved) simp_all
  moreover have "restored k prev' (withSel r k sv) = withSel r k (restoreSelVector prev' sv)"
    using b(2) by (simp add: restored_def)
  ultimately show "ok (restored k prev' (withSel r k sv), c)" "rest (restored k prev' (withSel r k sv), c) = rest (r, c)"
    using same_selection [OF assms(1)] by simp_all
  have "selectedSize (prevSel prev') = selectedSize (selOf r k)"
    by (simp add: prev'_def saveSelVector_def Let_def resetSelectorToUnselected_def resetSelectorToValuePosBuffer_def)
  then show "saved_ok k prev' (withSel r k sv)"
    using b assms(3) length_saved_buffer [OF assms(4) b(1)] selectedSize_bound [OF b(1)] by (simp add: saved_ok_def prev'_def)
qed

lemma skip_loop:
  assumes "skipOk k ok rest (r, f)"
  shows "stopsAt k scope ok rest cell s (skipRest k rest s (r, f)) (skipLoop k scope s child (r, f))"
  using assms
proof (induction "rest (restored k (skipPrev f) r, skipChild f)" arbitrary: r f)
  case Nil
  let ?r1 = "restored k (skipPrev f) r"
  have "ok (?r1, skipChild f)" using Nil.prems by (simp add: skipOk_def)
  then obtain t where "child (?r1, skipChild f) = Some (Inr (False, t))" using exhausted Nil.hyps by metis
  then show ?case using Nil.hyps by (cases t) (subst skipLoop.simps, simp add: skipRest_def restored_def Let_def stopsAt_def)
next
  case (Cons b bs)
  let ?r1 = "restored k (skipPrev f) r"
  have ok1: "ok (?r1, skipChild f)" and saved: "saved_ok k (skipPrev f) r"
    and bound: "skipCounter f + length (concat (b # bs)) < 4294967296"
    using Cons.prems Cons.hyps(2) by (simp_all add: skipOk_def)
  obtain r2 c2 where child: "child (?r1, skipChild f) = Some (Inr (True, r2, c2))" and ok2: "ok (r2, c2)" "rest (r2, c2) = bs"
      and b2: "batch_ok k scope r2" "map (cell c2) (selectedPositions (selOf r2 k)) = b"
    using delivers [OF ok1 Cons.hyps(2) [symmetric]] by blast
  have n: "getNumTuplesInResultSet r2 scope = length b" using numTuples_batch [OF b2(1)] arg_cong [OF b2(2), of length] by simp
  let ?prev = "saveSelVector (skipPrev f) (selOf r2 k)"
  let ?f = "\<lparr>skipPrev = ?prev, skipCounter = skipCounter f + length b, skipChild = c2\<rparr>"
  have len: "length (selectedPositionsBuffer (prevSel (skipPrev f))) = DEFAULT_VECTOR_CAPACITY" using saved by (simp add: saved_ok_def)
  have k: "k < length (dataChunks r2)" "length (selectedPositionsBuffer (selOf r2 k)) = DEFAULT_VECTOR_CAPACITY"
    using b2(1) by (simp_all add: batch_ok_def)
  have again: "ok (restored k ?prev r2, c2)" "rest (restored k ?prev r2, c2) = bs" "saved_ok k ?prev r2"
    using after_save [OF ok2(1) b2(1) k(2) len] k ok2(2) by simp_all
  have step: "skipLoop k scope s child (r, f) =
      (if skipCounter f + length b \<le> s then skipLoop k scope s child (r2, ?f) else Some (Inr (Some (skipCounter f), r2, ?f)))"
    using child n bound by (subst skipLoop.simps) (simp add: restored_def Let_def to_u32_def)
  show ?case
  proof (cases "skipCounter f + length b \<le> s")
    case True
    have "skipOk k ok rest (r2, ?f)" using again bound by (simp add: skipOk_def)
    then have "stopsAt k scope ok rest cell s (skipRest k rest s (r2, ?f)) (skipLoop k scope s child (r2, ?f))"
      using Cons.hyps(1) [of ?f r2] again(2) by simp
    moreover have "skipRest k rest s (r, f) = skipRest k rest s (r2, ?f)"
      using True again(2) Cons.hyps(2) [symmetric] by (simp add: skipRest_def)
    ultimately show ?thesis using step True by simp
  next
    case False
    have "skipRest k rest s (r, f) = drop (s - skipCounter f) b # skipBatches s (skipCounter f + length b) bs"
      using False Cons.hyps(2) [symmetric] by (simp add: skipRest_def)
    moreover have "selectedSize (selOf r2 k) = length b" using arg_cong [OF b2(2), of length] by simp
    ultimately show ?thesis using step False ok2 b2 len bound by (auto simp: stopsAt_def)
  qed
qed

lemma skip_exhausted:
  assumes "skipOk k ok rest (r, f)" and "skipRest k rest s (r, f) = []"
  shows "\<exists>t. skipGetNextTuples k scope s child (r, f) = Some (Inr (False, t))"
  using skip_loop [OF assms(1), of s] assms(2) by (auto simp: stopsAt_def skipGetNextTuples_def)

lemma skip_delivers:
  assumes "skipOk k ok rest (r, f)" and "skipRest k rest s (r, f) = x # xs"
  shows "\<exists>r' f'. skipGetNextTuples k scope s child (r, f) = Some (Inr (True, r', f')) \<and> skipOk k ok rest (r', f') \<and>
    skipRest k rest s (r', f') = xs \<and> batch_ok k scope r' \<and> map (cell (skipChild f')) (selectedPositions (selOf r' k)) = x"
proof -
  obtain before r' f' prev b where loop: "skipLoop k scope s child (r, f) = Some (Inr (Some before, r', f'))"
      and x: "x = drop (s - before) b" "s < before + length b" "map (cell (skipChild f')) (selectedPositions (selOf r' k)) = b"
      and xs: "skipBatches s (skipCounter f') (rest (r', skipChild f')) = xs"
      and ok': "ok (r', skipChild f')" "batch_ok k scope r'"
      and prev: "skipPrev f' = saveSelVector prev (selOf r' k)" "length (selectedPositionsBuffer (prevSel prev)) = DEFAULT_VECTOR_CAPACITY"
      and bound: "skipCounter f' + length (concat (rest (r', skipChild f'))) < 4294967296" "before + length b < 4294967296"
    using skip_loop [OF assms(1), of s] unfolding assms(2) stopsAt_def list.case by blast
  let ?sv = "selOf r' k" and ?d = "s - before"
  have k: "k < length (dataChunks r')" "length (selectedPositionsBuffer ?sv) = DEFAULT_VECTOR_CAPACITY" "sel_ok ?sv"
    using ok'(2) by (simp_all add: batch_ok_def)
  have size: "selectedSize ?sv = length b" using arg_cong [OF x(3), of length] by simp
  define sv' where "sv' = (if ?d = 0 then ?sv else (shiftPositions ?d ?sv)\<lparr>selectedSize := selectedSize ?sv - ?d\<rparr>)"
  have "?d \<le> selectedSize ?sv" using x(2) size by simp
  note shift = shiftPositions_drops [OF k(3,2) this]
  have sv': "selectedPositions sv' = drop ?d (selectedPositions ?sv)" "sel_ok sv'"
      "length (selectedPositionsBuffer sv') = DEFAULT_VECTOR_CAPACITY"
    using shift k by (auto simp: sv'_def)
  have i64: "to_i64 (int s - int before) = int s - int before" using x(2) bound(2) by (intro small_i64) linarith+
  have "selectedSize (shiftPositions ?d ?sv) = length b"
    using size by (simp add: shiftPositions_def isUnfiltered_def resetSelectorToValuePosBuffer_def)
  moreover have "length b \<le> 2048" using selectedSize_bound [OF k(3)] size by simp
  ultimately have step: "skipGetNextTuples k scope s child (r, f) = Some (Inr (True, withSel r' k sv', f'))"
    using loop i64 k(1) size x(2) by (simp add: skipGetNextTuples_def Let_def sv'_def to_u16_def nat_diff_distrib)
  have "skipOk k ok rest (withSel r' k sv', f')" "skipRest k rest s (withSel r' k sv', f') = xs"
    using after_save [OF ok' sv'(3) prev(2)] bound(1) xs by (simp_all add: skipOk_def skipRest_def prev(1))
  moreover have "map (cell (skipChild f')) (selectedPositions sv') = x" unfolding sv'(1) x(1) using x(3) by (auto simp: drop_map)
  ultimately show ?thesis using step k(1) batch_ok_withSel [OF ok'(2) sv'(2,3)] by auto
qed

lemma restored_same:
  assumes saved: "saved_ok k prev r" and ok: "ok (restored k prev r, c)" and sv: "selEq sv (selOf r k)"
  shows "ok (restored k prev (withSel r k sv), c)" and "rest (restored k prev (withSel r k sv), c) = rest (restored k prev r, c)"
    and "saved_ok k prev (withSel r k sv)"
proof -
  have l: "k < length (dataChunks r)" "length (selectedPositionsBuffer sv) = DEFAULT_VECTOR_CAPACITY"
    using saved sv by (simp_all add: saved_ok_def selEq_def)
  show "saved_ok k prev (withSel r k sv)" using saved l by (simp add: saved_ok_def)
  have "selEq (restoreSelVector prev sv) (restoreSelVector prev (selOf r k))"
  proof (cases "prevIsNull prev")
    case True
    then show ?thesis using sv by (simp add: restoreSelVector_def)
  next
    case False
    then show ?thesis using saved l(2) by (intro restore_ignores) (simp_all add: saved_ok_def)
  qed
  then show "ok (restored k prev (withSel r k sv), c)" "rest (restored k prev (withSel r k sv), c) = rest (restored k prev r, c)"
    using same_selection [OF ok, of "restoreSelVector prev sv"] l(1) by (simp_all add: restored_def)
qed

lemma skip_same_selection:
  assumes "skipOk k ok rest (r, f)" and "selEq sv (selOf r k)"
  shows "skipOk k ok rest (withSel r k sv, f) \<and> skipRest k rest s (withSel r k sv, f) = skipRest k rest s (r, f)"
  using assms(1) restored_same [OF _ _ assms(2), of "skipPrev f" "skipChild f"] by (simp add: skipOk_def skipRest_def)

lemma skip_source: "batch_source (skipGetNextTuples k scope s child) k scope (skipOk k ok rest) (skipRest k rest s) (\<lambda>f. cell (skipChild f))"
proof unfold_locales
  fix r f
  show "skipOk k ok rest (r, f) \<Longrightarrow> k < length (dataChunks r) \<and> length (selectedPositionsBuffer (selOf r k)) = DEFAULT_VECTOR_CAPACITY"
    by (simp add: skipOk_def saved_ok_def)
qed (use skip_exhausted skip_delivers skip_same_selection in blast)+

text \<open>The collector gathers all the tuples that are still to come.\<close>

lemma collects:
  assumes "ok t" and "\<And>r c tbl. appendBatch (r, c) tbl = tbl @ map (cell c) (selectedPositions (selOf r k))"
  shows "collectorExecute child appendBatch t tbl = Some (Inr (tbl @ concat (rest t)))"
  using assms(1)
proof (induction "rest t" arbitrary: t tbl)
  case Nil
  then show ?case using exhausted [of "fst t" "snd t"] by (subst collectorExecute.simps) auto
next
  case (Cons b bs)
  then obtain r' c' where c: "child t = Some (Inr (True, r', c'))" "ok (r', c')" "rest (r', c') = bs" "batch_ok k scope r'"
      "map (cell c') (selectedPositions (selOf r' k)) = b"
    using delivers [of "fst t" "snd t" b bs] by auto
  have "collectorExecute child appendBatch t tbl = collectorExecute child appendBatch (r', c') (tbl @ b)"
    using c by (subst collectorExecute.simps) (simp add: assms(2) batch_ok_def)
  then show ?case using Cons.hyps(1) [of "(r', c')" "tbl @ b"] c(2,3) Cons.hyps(2) [symmetric] by simp
qed

end

context selection_writer
begin

lemma skip_writer:
  "selection_writer (skipGetNextTuples k scope s child) k scope (skipOk k ok rest) (skipRest k rest s) (\<lambda>f. cell (skipChild f))"
proof (rule selection_writer.intro [OF skip_source], unfold_locales)
  fix r f and sv :: SelectionVector
  assume ok: "skipOk k ok rest (r, f)" and sv: "length (selectedPositionsBuffer sv) = DEFAULT_VECTOR_CAPACITY"
  let ?prev = "skipPrev f"
  have a: "saved_ok k ?prev r" "ok (restored k ?prev r, skipChild f)" "k < length (dataChunks r)"
    using ok by (simp_all add: skipOk_def saved_ok_def)
  have "length (selectedPositionsBuffer (restoreSelVector ?prev sv)) = DEFAULT_VECTOR_CAPACITY"
    using a(1) sv by (intro length_restoreSelVector) (simp_all add: saved_ok_def)
  then have "ok (restored k ?prev (withSel r k sv), skipChild f)"
      "rest (restored k ?prev (withSel r k sv), skipChild f) = rest (restored k ?prev r, skipChild f)"
    using any_selection [OF a(2), of "restoreSelVector ?prev sv"] a(3) by (simp_all add: restored_def)
  then show "skipOk k ok rest (withSel r k sv, f) \<and> skipRest k rest s (withSel r k sv, f) = skipRest k rest s (r, f)"
    using ok a(1) sv by (simp add: skipOk_def skipRest_def saved_ok_def)
qed

lemma limit_delivers:
  assumes "limitOk ok rest l (r, f)" and "limitRest rest l (r, f) = x # xs"
  shows "\<exists>r' f'. limitGetNextTuples k scope l child (r, f) = Some (Inr (True, r', f')) \<and> limitOk ok rest l (r', f') \<and>
    limitRest rest l (r', f') = xs \<and> batch_ok k scope r' \<and> map (cell (limitChild f')) (selectedPositions (selOf r' k)) = x"
proof -
  have ok: "ok (r, limitChild f)" using assms(1) by (simp add: limitOk_def)
  obtain b bs where rest: "rest (r, limitChild f) = b # bs"
    using assms(2) by (cases "rest (r, limitChild f)") (auto simp: limitRest_def)
  obtain r' c' where c: "child (r, limitChild f) = Some (Inr (True, r', c'))" and ok': "ok (r', c')" "rest (r', c') = bs" "batch_ok k scope r'"
      and b: "map (cell c') (selectedPositions (selOf r' k)) = b"
    using delivers [OF ok rest] by blast
  have size: "selectedSize (selOf r' k) = length b" using arg_cong [OF b, of length] by simp
  have k: "k < length (dataChunks r')" "sel_ok (selOf r' k)" "length (selectedPositionsBuffer (selOf r' k)) = DEFAULT_VECTOR_CAPACITY"
    using ok'(3) by (simp_all add: batch_ok_def)
  let ?n = "limitCounter f" and ?f = "\<lparr>limitCounter = limitCounter f + length b, limitChild = c'\<rparr>"
  have bound: "?n + length b + length (concat bs) < 9223372036854775808" "l < 9223372036854775808"
    using assms(1) rest by (simp_all add: limitOk_def)
  note step = limitGetNextTuples_def c numTuples_batch [OF ok'(3)] size Let_def
  show ?thesis
  proof (cases "?n + length b \<le> l")
    case True
    have "limitGetNextTuples k scope l child (r, f) = Some (Inr (True, r', ?f))" using True bound by (simp add: step)
    moreover have "x = b" "xs = limitBatches l (?n + length b) bs" using True assms(2) rest by (auto simp: limitRest_def)
    ultimately show ?thesis using ok' b bound by (simp add: limitOk_def limitRest_def)
  next
    case False
    then have n: "?n < l" and x: "x = take (l - ?n) b" "xs = limitBatches l (?n + length b) bs"
      using assms(2) rest by (auto simp: limitRest_def split: if_splits)
    let ?sv = "(selOf r' k)\<lparr>selectedSize := l - ?n\<rparr>"
    have le: "l - ?n \<le> selectedSize (selOf r' k)" using False size by simp
    note sv = sel_ok_truncated [OF k(2) le]
    have "l - ?n \<le> 2048" using le selectedSize_bound [OF k(2)] by simp
    then have "limitGetNextTuples k scope l child (r, f) = Some (Inr (True, withSel r' k ?sv, ?f))"
      using False n bound by (simp add: step to_u16_def nat_diff_distrib)
    moreover have "batch_ok k scope (withSel r' k ?sv)" using ok'(3) sv(1) k(3) by (intro batch_ok_withSel) simp_all
    moreover have "ok (withSel r' k ?sv, c')" "rest (withSel r' k ?sv, c') = bs"
      using any_selection [OF ok'(1), of ?sv] ok'(2) k(3) by simp_all
    ultimately show ?thesis using sv(2) b x bound k(1) by (auto simp: limitOk_def limitRest_def take_map)
  qed
qed

lemma limit_exhausted:
  assumes "limitOk ok rest l (r, f)" and "limitRest rest l (r, f) = []"
  shows "\<exists>t. limitGetNextTuples k scope l child (r, f) = Some (Inr (False, t))"
proof (cases "rest (r, limitChild f)")
  case Nil
  then show ?thesis using exhausted [of r "limitChild f"] assms(1) by (auto simp: limitOk_def limitGetNextTuples_def)
next
  case (Cons b bs)
  have ok: "ok (r, limitChild f)" using assms(1) by (simp add: limitOk_def)
  obtain r' c' where c: "child (r, limitChild f) = Some (Inr (True, r', c'))" "batch_ok k scope r'"
      "map (cell c') (selectedPositions (selOf r' k)) = b"
    using delivers [OF ok Cons] by blast
  have "selectedSize (selOf r' k) = length b" using arg_cong [OF c(3), of length] by simp
  moreover have "l < limitCounter f + length b" "l \<le> limitCounter f" using assms(2) Cons by (auto simp: limitRest_def split: if_splits)
  moreover have "limitCounter f + length b < 9223372036854775808" using assms(1) Cons by (simp add: limitOk_def)
  ultimately show ?thesis using c(1) numTuples_batch [OF c(2)] by (simp add: limitGetNextTuples_def Let_def)
qed

lemma limit_writer:
  "selection_writer (limitGetNextTuples k scope l child) k scope (limitOk ok rest l) (limitRest rest l) (\<lambda>f. cell (limitChild f))"
proof unfold_locales
  fix r f and sv :: SelectionVector
  show "limitOk ok rest l (r, f) \<Longrightarrow> k < length (dataChunks r) \<and> length (selectedPositionsBuffer (selOf r k)) = DEFAULT_VECTOR_CAPACITY"
    using writable [of r "limitChild f"] by (simp add: limitOk_def)
  show "limitOk ok rest l (r, f) \<Longrightarrow> length (selectedPositionsBuffer sv) = DEFAULT_VECTOR_CAPACITY \<Longrightarrow>
      limitOk ok rest l (withSel r k sv, f) \<and> limitRest rest l (withSel r k sv, f) = limitRest rest l (r, f)"
    using any_selection by (simp add: limitOk_def limitRest_def)
  show "limitOk ok rest l (r, f) \<Longrightarrow> selEq sv (selOf r k) \<Longrightarrow>
      limitOk ok rest l (withSel r k sv, f) \<and> limitRest rest l (withSel r k sv, f) = limitRest rest l (r, f)"
    using same_selection by (simp add: limitOk_def limitRest_def)
qed (use limit_exhausted limit_delivers in blast)+

end

section \<open>Filtering\<close>

definition filterBatches :: "('a \<Rightarrow> bool) \<Rightarrow> 'a list list \<Rightarrow> 'a list list" where
  "filterBatches P bs = filter (\<lambda>b. b \<noteq> []) (map (filter P) bs)"

lemma concat_filterBatches: "concat (filterBatches P bs) = filter P (concat bs)"
  by (induction bs) (auto simp: filterBatches_def)

definition filterOk :: "nat \<Rightarrow> (ResultSet \<times> 'c \<Rightarrow> bool) \<Rightarrow> ResultSet \<times> 'c Filter \<Rightarrow> bool" where
  "filterOk k ok t = (case t of (r, f) \<Rightarrow> saved_ok k (filterPrev f) r \<and> ok (restored k (filterPrev f) r, filterChild f))"

definition filterRest :: "nat \<Rightarrow> (ResultSet \<times> 'c \<Rightarrow> 'a list list) \<Rightarrow> ('a \<Rightarrow> bool) \<Rightarrow> ResultSet \<times> 'c Filter \<Rightarrow> 'a list list" where
  "filterRest k rest P t = (case t of (r, f) \<Rightarrow> filterBatches P (rest (restored k (filterPrev f) r, filterChild f)))"

text \<open>
  The contract of the predicate of a filter: it answers whether a tuple of the batch satisfies \<open>P\<close>, and if so the buffer of the
  selection vector starts with the positions of these tuples.
\<close>

locale row_predicate = batch_source child k scope ok rest cell
  for child :: "'c puller" and k scope ok and rest :: "ResultSet \<times> 'c \<Rightarrow> 'a list list" and cell +
  fixes select :: "'c puller" and P :: "'a \<Rightarrow> bool"
  assumes narrows: "ok (r, c) \<Longrightarrow> batch_ok k scope r \<Longrightarrow>
    kept = filter (\<lambda>p. P (cell c p)) (selectedPositions (selOf r k)) \<Longrightarrow>
    \<exists>sv. select (r, c) = Some (Inr (kept \<noteq> [], withSel r k sv, c)) \<and>
      length (selectedPositionsBuffer sv) = DEFAULT_VECTOR_CAPACITY \<and>
      (kept \<noteq> [] \<longrightarrow> selectedPositions (resetSelectorToValuePosBuffer sv) = kept)"
begin

lemma kept_ok:
  assumes "batch_ok k scope r" and "selectedPositions sv = filter Q (selectedPositions (selOf r k))"
    and "length (selectedPositionsBuffer sv) = DEFAULT_VECTOR_CAPACITY"
  shows "batch_ok k scope (withSel r k sv)"
proof -
  have o: "sel_ok (selOf r k)" using assms(1) by (simp add: batch_ok_def)
  have "selectedSize sv \<le> selectedSize (selOf r k)"
    using length_filter_le [of Q "selectedPositions (selOf r k)"] unfolding assms(2) [symmetric] by simp
  then have "selectedSize sv \<le> 2048" using selectedSize_bound [OF o] by simp
  then have "sel_ok sv" using o assms(2,3) by (simp add: sel_ok_def list_all_iff)
  then show ?thesis using batch_ok_withSel [OF assms(1) _ assms(3)] by simp
qed

lemma filter_step:
  assumes "filterOk k ok (r, f)"
  shows "givesBatch k scope (filterOk k ok) (filterRest k rest P) (\<lambda>f. cell (filterChild f)) (filterRest k rest P (r, f)) (filterGetNextTuples k child select (r, f))"
  using assms
proof (induction "rest (restored k (filterPrev f) r, filterChild f)" arbitrary: r f)
  case Nil
  let ?r1 = "restored k (filterPrev f) r"
  have "ok (?r1, filterChild f)" using Nil.prems by (simp add: filterOk_def)
  then obtain t where "child (?r1, filterChild f) = Some (Inr (False, t))" using exhausted Nil.hyps by metis
  then show ?case using Nil.hyps
    by (cases t) (subst filterGetNextTuples.simps, simp add: filterRest_def filterBatches_def givesBatch_def restored_def Let_def)
next
  case (Cons b bs)
  let ?r1 = "restored k (filterPrev f) r"
  have ok1: "ok (?r1, filterChild f)" and saved: "saved_ok k (filterPrev f) r" using Cons.prems by (simp_all add: filterOk_def)
  obtain r2 c2 where child: "child (?r1, filterChild f) = Some (Inr (True, r2, c2))" and ok2: "ok (r2, c2)" "rest (r2, c2) = bs"
      and b2: "batch_ok k scope r2" "map (cell c2) (selectedPositions (selOf r2 k)) = b"
    using delivers [OF ok1 Cons.hyps(2) [symmetric]] by blast
  let ?kept = "filter (\<lambda>p. P (cell c2 p)) (selectedPositions (selOf r2 k))"
  obtain sv where sel: "select (r2, c2) = Some (Inr (?kept \<noteq> [], withSel r2 k sv, c2))"
      and sv: "length (selectedPositionsBuffer sv) = DEFAULT_VECTOR_CAPACITY"
        "?kept \<noteq> [] \<longrightarrow> selectedPositions (resetSelectorToValuePosBuffer sv) = ?kept"
    using narrows [OF ok2(1) b2(1) refl] by blast
  let ?sv = "resetSelectorToValuePosBuffer sv" and ?prev = "saveSelVector (filterPrev f) (selOf r2 k)"
  let ?f = "f\<lparr>filterPrev := ?prev, filterChild := c2\<rparr>"
  have k: "k < length (dataChunks r2)" "\<not> isFlat (dataChunks r2 ! k)" using b2(1) by (simp_all add: batch_ok_def isFlat_def)
  have len: "length (selectedPositionsBuffer ?sv) = DEFAULT_VECTOR_CAPACITY" using sv(1) by (simp add: resetSelectorToValuePosBuffer_def)
  have same: "?sv = sv" if "\<not> selUnfiltered sv" using that by (cases sv) (simp add: resetSelectorToValuePosBuffer_def)
  have step: "filterGetNextTuples k child select (r, f) =
      (if ?kept \<noteq> [] then Some (Inr (True, withSel r2 k ?sv, ?f)) else filterGetNextTuples k child select (withSel r2 k ?sv, ?f))"
    using child sel k same by (subst filterGetNextTuples.simps) (simp add: restored_def Let_def isUnfiltered_def)
  have "length (selectedPositionsBuffer (prevSel (filterPrev f))) = DEFAULT_VECTOR_CAPACITY" using saved by (simp add: saved_ok_def)
  note again = after_save [OF ok2(1) b2(1) len this]
  have ok': "filterOk k ok (withSel r2 k ?sv, ?f)" using again by (simp add: filterOk_def)
  have rest': "filterRest k rest P (withSel r2 k ?sv, ?f) = filterBatches P bs" using again ok2(2) by (simp add: filterRest_def)
  have cells: "map (cell c2) ?kept = filter P b" using b2(2) by (auto simp: filter_map comp_def)
  have whole: "filterRest k rest P (r, f) = (if ?kept = [] then [] else [filter P b]) @ filterBatches P bs"
    using Cons.hyps(2) [symmetric] cells by (auto simp: filterRest_def filterBatches_def)
  show ?case
  proof (cases "?kept = []")
    case True
    have "givesBatch k scope (filterOk k ok) (filterRest k rest P) (\<lambda>f. cell (filterChild f)) (filterRest k rest P (withSel r2 k ?sv, ?f)) (filterGetNextTuples k child select (withSel r2 k ?sv, ?f))"
      using Cons.hyps(1) [of ?f "withSel r2 k ?sv"] again(2) ok2(2) ok' by simp
    then show ?thesis using True step whole rest' by simp
  next
    case False
    then have p: "selectedPositions ?sv = ?kept" using sv(2) by simp
    show ?thesis using False step whole rest' ok' kept_ok [OF b2(1) p len] p cells k(1) by (auto simp: givesBatch_def)
  qed
qed

lemma filter_source: "batch_source (filterGetNextTuples k child select) k scope (filterOk k ok) (filterRest k rest P) (\<lambda>f. cell (filterChild f))"
proof unfold_locales
  fix r f b bs and sv :: SelectionVector
  show "filterOk k ok (r, f) \<Longrightarrow> filterRest k rest P (r, f) = [] \<Longrightarrow> \<exists>t. filterGetNextTuples k child select (r, f) = Some (Inr (False, t))"
    using filter_step [of r f] by (simp add: givesBatch_def)
  show "filterOk k ok (r, f) \<Longrightarrow> filterRest k rest P (r, f) = b # bs \<Longrightarrow>
      \<exists>r' f'. filterGetNextTuples k child select (r, f) = Some (Inr (True, r', f')) \<and> filterOk k ok (r', f') \<and>
        filterRest k rest P (r', f') = bs \<and> batch_ok k scope r' \<and> map (cell (filterChild f')) (selectedPositions (selOf r' k)) = b"
    using filter_step [of r f] by (simp add: givesBatch_def)
  show "filterOk k ok (r, f) \<Longrightarrow> selEq sv (selOf r k) \<Longrightarrow>
      filterOk k ok (withSel r k sv, f) \<and> filterRest k rest P (withSel r k sv, f) = filterRest k rest P (r, f)"
    using restored_same [of "filterPrev f" r "filterChild f" sv] by (simp add: filterOk_def filterRest_def)
  show "filterOk k ok (r, f) \<Longrightarrow> k < length (dataChunks r) \<and> length (selectedPositionsBuffer (selOf r k)) = DEFAULT_VECTOR_CAPACITY"
    by (simp add: filterOk_def saved_ok_def)
qed

end

section \<open>Flattening\<close>

lemma withCurrIdx_simps [simp]:
  "withCurrIdx (withCurrIdx r k i) k j = withCurrIdx r k j" "multiplicity (withCurrIdx r k i) = multiplicity r"
  "k < length (dataChunks r) \<Longrightarrow> currIdx (dataChunks (withCurrIdx r k i) ! k) = i"
  "k < length (dataChunks r) \<Longrightarrow> selVector (dataChunks (withCurrIdx r k i) ! k) = selVector (dataChunks r ! k)"
  by (cases "k < length (dataChunks r)"; simp add: withCurrIdx_def list_update_beyond)+

lemma withCurrIdx_same: "k < length (dataChunks r) \<Longrightarrow> currIdx (dataChunks r ! k) = i \<Longrightarrow> withCurrIdx r k i = r"
  by (auto simp: withCurrIdx_def list_update_same_conv)

context batch_source
begin

text \<open>Within a batch, each call of \<^verbatim>\<open>Flatten\<close> moves on to the next selected position.\<close>

lemma flatten_walks:
  assumes "batch_ok k scope r" and "i < selectedSize (selOf r k)"
    and "\<And>r c tbl. appendBatch (r, c) tbl = tbl @ [cell c (getPositionOfCurrIdx (dataChunks r ! k))]"
  shows "collectorExecute (flattenGetNextTuples k child) appendBatch (withCurrIdx r k (int i), c) tbl =
    collectorExecute (flattenGetNextTuples k child) appendBatch (withCurrIdx r k (int (selectedSize (selOf r k)) - 1), c)
      (tbl @ map (cell c) (drop (Suc i) (selectedPositions (selOf r k))))"
  using assms(2)
proof (induction "selectedSize (selOf r k) - Suc i" arbitrary: i tbl)
  case 0
  then have "int i = int (selectedSize (selOf r k)) - 1" by linarith
  then show ?case using 0 by simp
next
  case (Suc d)
  have k: "k < length (dataChunks r)" "multiplicity r = 1" using assms(1) by (simp_all add: batch_ok_def)
  let ?n = "selectedSize (selOf r k)"
  have i: "Suc i < ?n" using Suc.hyps(2) by simp
  have "flattenGetNextTuples k child (withCurrIdx r k (int i), c) = Some (Inr (True, withCurrIdx r k (int (Suc i)), c))"
    using k i by (simp add: flattenGetNextTuples_def isCurrIdxLast_def selOf_def add.commute)
  moreover have "getPositionOfCurrIdx (dataChunks (withCurrIdx r k (int (Suc i))) ! k) = selectedPositions (selOf r k) ! Suc i"
    using k(1) i by (simp add: getPositionOfCurrIdx_def selectedPositions_def selOf_def nat_add_distrib)
  ultimately have "collectorExecute (flattenGetNextTuples k child) appendBatch (withCurrIdx r k (int i), c) tbl =
      collectorExecute (flattenGetNextTuples k child) appendBatch (withCurrIdx r k (int (Suc i)), c)
        (tbl @ [cell c (selectedPositions (selOf r k) ! Suc i)])"
    using k(2) by (subst collectorExecute.simps) (simp add: assms(3))
  also have "\<dots> = collectorExecute (flattenGetNextTuples k child) appendBatch (withCurrIdx r k (int ?n - 1), c)
      ((tbl @ [cell c (selectedPositions (selOf r k) ! Suc i)]) @ map (cell c) (drop (Suc (Suc i)) (selectedPositions (selOf r k))))"
    using Suc.hyps(2) i by (intro Suc.hyps(1)) simp_all
  finally show ?case using i Cons_nth_drop_Suc [of "Suc i" "selectedPositions (selOf r k)"] by (simp flip: list.map(2))
qed

lemma flatten_collects:
  assumes "ok (r, c)" and "[] \<notin> set (rest (r, c))"
    and "\<And>r c tbl. appendBatch (r, c) tbl = tbl @ [cell c (getPositionOfCurrIdx (dataChunks r ! k))]"
    and "currIdx (dataChunks r ! k) = - 1" and "i = - 1 \<or> i = int (selectedSize (selOf r k)) - 1"
  shows "collectorExecute (flattenGetNextTuples k child) appendBatch (withCurrIdx r k i, c) tbl = Some (Inr (tbl @ concat (rest (r, c))))"
  using assms(1,2,4,5)
proof (induction "rest (r, c)" arbitrary: r c i tbl)
  case Nil
  have k: "k < length (dataChunks r)" using writable [OF Nil.prems(1)] by simp
  obtain t where "child (r, c) = Some (Inr (False, t))" using exhausted [OF Nil.prems(1)] Nil.hyps by metis
  then have "\<exists>t. flattenGetNextTuples k child (withCurrIdx r k i, c) = Some (Inr (False, t))"
    using Nil.prems(3,4) k by (cases t) (auto simp: flattenGetNextTuples_def isCurrIdxLast_def selOf_def withCurrIdx_same)
  then show ?case using Nil.hyps by (subst collectorExecute.simps) auto
next
  case (Cons b bs)
  have k: "k < length (dataChunks r)" using writable [OF Cons.prems(1)] by simp
  obtain r' c' where c': "child (r, c) = Some (Inr (True, r', c'))" "ok (r', c')" "rest (r', c') = bs" "batch_ok k scope r'"
      "map (cell c') (selectedPositions (selOf r' k)) = b"
    using delivers [OF Cons.prems(1) Cons.hyps(2) [symmetric]] by blast
  have k': "k < length (dataChunks r')" "multiplicity r' = 1" "currIdx (dataChunks r' ! k) = - 1" using c'(4) by (simp_all add: batch_ok_def)
  let ?ps = "selectedPositions (selOf r' k)" and ?n = "selectedSize (selOf r' k)"
  have "b \<noteq> []" using Cons.prems(2) Cons.hyps(2) [symmetric] by auto
  then have n: "0 < ?n" using arg_cong [OF c'(5), of length] by auto
  have call: "flattenGetNextTuples k child (withCurrIdx r k i, c) = Some (Inr (True, withCurrIdx r' k (int 0), c'))"
    using Cons.prems(3,4) k c'(1) k'(3) by (auto simp: flattenGetNextTuples_def isCurrIdxLast_def selOf_def withCurrIdx_same)
  have pos: "getPositionOfCurrIdx (dataChunks (withCurrIdx r' k (int 0)) ! k) = ?ps ! 0"
    using k'(1) n by (simp add: getPositionOfCurrIdx_def selectedPositions_def selOf_def)
  have "collectorExecute (flattenGetNextTuples k child) appendBatch (withCurrIdx r k i, c) tbl =
      collectorExecute (flattenGetNextTuples k child) appendBatch (withCurrIdx r' k (int 0), c') (tbl @ [cell c' (?ps ! 0)])"
    using call k'(2) pos by (subst collectorExecute.simps) (simp add: assms(3))
  also have "\<dots> = collectorExecute (flattenGetNextTuples k child) appendBatch (withCurrIdx r' k (int ?n - 1), c')
      ((tbl @ [cell c' (?ps ! 0)]) @ map (cell c') (drop (Suc 0) ?ps))"
    by (rule flatten_walks [OF c'(4) n assms(3)])
  also have "\<dots> = Some (Inr (((tbl @ [cell c' (?ps ! 0)]) @ map (cell c') (drop (Suc 0) ?ps)) @ concat (rest (r', c'))))"
    using Cons.hyps(2) [symmetric] Cons.prems(2) c'(2,3) k'(3) by (intro Cons.hyps(1)) auto
  finally have "collectorExecute (flattenGetNextTuples k child) appendBatch (withCurrIdx r k i, c) tbl =
      Some (Inr (((tbl @ [cell c' (?ps ! 0)]) @ map (cell c') (drop (Suc 0) ?ps)) @ concat (rest (r', c'))))" .
  moreover have "cell c' (?ps ! 0) # map (cell c') (drop (Suc 0) ?ps) = b"
    using n c'(5) Cons_nth_drop_Suc [of 0 ?ps] by (simp flip: list.map(2))
  ultimately show ?case using c'(3) Cons.hyps(2) [symmetric] by auto
qed

end

section \<open>Reducing multiplicities\<close>

text \<open>The states after \<open>n\<close> successive calls that deliver.\<close>

fun pulls :: "nat \<Rightarrow> 'c puller \<Rightarrow> ResultSet \<times> 'c \<Rightarrow> (ResultSet \<times> 'c) list option" where
  "pulls 0 pull t = Some []"
| "pulls (Suc n) pull t =
     (case pull t of Some (Inr (True, t')) \<Rightarrow> map_option ((#) t') (pulls n pull t') | _ \<Rightarrow> None)"

lemma reducer_repeats:
  assumes "0 < i" and "i < m" and "m < 18446744073709551616"
  shows "\<exists>ts. pulls (m - i) (reducerGetNextTuples child) (r, \<lparr>prevMultiplicity = m, numRepeat = i, reducerChild = c\<rparr>) =
      Some (ts @ [(r, \<lparr>prevMultiplicity = m, numRepeat = 0, reducerChild = c\<rparr>)]) \<and> (\<forall>t \<in> set ts. fst t = r)"
  using assms(1,2)
proof (induction "m - i" arbitrary: i)
  case (Suc d)
  let ?next = "\<lparr>prevMultiplicity = m, numRepeat = if Suc i = m then 0 else Suc i, reducerChild = c\<rparr>"
  have step: "reducerGetNextTuples child (r, \<lparr>prevMultiplicity = m, numRepeat = i, reducerChild = c\<rparr>) = Some (Inr (True, r, ?next))"
    using Suc.prems assms(3) by (simp add: reducerGetNextTuples_def Let_def)
  have d: "m - i = Suc d" using Suc.hyps(2) by simp
  show ?case
  proof (cases "Suc i = m")
    case True
    then have "d = 0" using Suc.hyps(2) by simp
    then show ?thesis using step True unfolding d by (intro exI [of _ "[]"]) simp
  next
    case False
    then have "\<exists>ts. pulls (m - Suc i) (reducerGetNextTuples child) (r, \<lparr>prevMultiplicity = m, numRepeat = Suc i, reducerChild = c\<rparr>) =
        Some (ts @ [(r, \<lparr>prevMultiplicity = m, numRepeat = 0, reducerChild = c\<rparr>)]) \<and> (\<forall>t \<in> set ts. fst t = r)"
      using Suc.hyps Suc.prems by (intro Suc.hyps(1)) simp_all
    moreover have "m - Suc i = d" using Suc.hyps(2) by simp
    ultimately show ?thesis using step False unfolding d
      by (auto intro: exI [of _ "(r, \<lparr>prevMultiplicity = m, numRepeat = Suc i, reducerChild = c\<rparr>) # ts" for ts])
  qed
qed simp

text \<open>
  A batch of multiplicity \<open>m\<close> is delivered \<open>m\<close> times with multiplicity 1; then the reducer is ready for the next
  batch and remembers the multiplicity that it has to restore.
\<close>

lemma reducer_delivers_each_copy:
  assumes "child (r\<lparr>multiplicity := p\<rparr>, c) = Some (Inr (True, r1, c1))" and "0 < multiplicity r1" and "multiplicity r1 < 18446744073709551616"
  shows "\<exists>ts. pulls (multiplicity r1) (reducerGetNextTuples child) (r, \<lparr>prevMultiplicity = p, numRepeat = 0, reducerChild = c\<rparr>) =
      Some (ts @ [(r1\<lparr>multiplicity := 1\<rparr>, \<lparr>prevMultiplicity = multiplicity r1, numRepeat = 0, reducerChild = c1\<rparr>)]) \<and>
      (\<forall>t \<in> set ts. fst t = r1\<lparr>multiplicity := 1\<rparr>)"
proof -
  let ?m = "multiplicity r1"
  have step: "reducerGetNextTuples child (r, \<lparr>prevMultiplicity = p, numRepeat = 0, reducerChild = c\<rparr>) =
      Some (Inr (True, r1\<lparr>multiplicity := 1\<rparr>, \<lparr>prevMultiplicity = ?m, numRepeat = if ?m = 1 then 0 else 1, reducerChild = c1\<rparr>))"
    using assms by (simp add: reducerGetNextTuples_def Let_def)
  have m: "?m = Suc (?m - 1)" using assms(2) by simp
  show ?thesis
  proof (cases "?m = 1")
    case True
    then show ?thesis using step by (intro exI [of _ "[]"]) simp
  next
    case False
    then obtain ts where ts: "pulls (?m - 1) (reducerGetNextTuples child)
          (r1\<lparr>multiplicity := 1\<rparr>, \<lparr>prevMultiplicity = ?m, numRepeat = 1, reducerChild = c1\<rparr>) =
        Some (ts @ [(r1\<lparr>multiplicity := 1\<rparr>, \<lparr>prevMultiplicity = ?m, numRepeat = 0, reducerChild = c1\<rparr>)])"
        "\<forall>t \<in> set ts. fst t = r1\<lparr>multiplicity := 1\<rparr>"
      using reducer_repeats [of 1 ?m child "r1\<lparr>multiplicity := 1\<rparr>" c1] assms(2,3) by auto
    let ?x = "(r1\<lparr>multiplicity := 1\<rparr>, \<lparr>prevMultiplicity = ?m, numRepeat = 1, reducerChild = c1\<rparr>)"
    have "pulls (Suc (?m - 1)) (reducerGetNextTuples child) (r, \<lparr>prevMultiplicity = p, numRepeat = 0, reducerChild = c\<rparr>) =
        Some ((?x # ts) @ [(r1\<lparr>multiplicity := 1\<rparr>, \<lparr>prevMultiplicity = ?m, numRepeat = 0, reducerChild = c1\<rparr>)])"
      using step False ts(1) by simp
    then show ?thesis using ts(2) unfolding m [symmetric] by (intro exI [of _ "?x # ts"]) simp
  qed
qed

section \<open>Large numbers of tuples to skip\<close>

text \<open>The 32-bit count of the loop of \<^verbatim>\<open>Skip\<close> never exceeds the largest 32-bit number.\<close>

lemma skipLoop_never_stops:
  assumes "4294967295 \<le> s" and "skipLoop k scope s child t = Some (Inr (res, t'))"
  shows "res = None"
proof -
  have "4294967295 \<le> s \<longrightarrow> (\<forall>x t''. (Inr (res, t') :: _ result) \<noteq> Inr (Some x, t''))"
  proof (rule skipLoop.raw_induct [where P = "\<lambda>k scope s child t out. 4294967295 \<le> s \<longrightarrow> (\<forall>x t''. out \<noteq> Inr (Some x, t''))", OF _ assms(2)])
    fix loop k scope s child and t :: "ResultSet \<times> 'a Skip" and out
    assume IH: "\<And>k scope s child t out. loop k scope s child t = Some out \<Longrightarrow> 4294967295 \<le> s \<longrightarrow> (\<forall>x t''. out \<noteq> Inr (Some x, t''))"
      and out: "(let (r, f) = t; r1 = withSel r k (restoreSelVector (skipPrev f) (selOf r k)) in
      case child (r1, skipChild f) of
        None \<Rightarrow> None
      | Some (Inl e) \<Rightarrow> Some (Inl e)
      | Some (Inr (hasNext, r2, c2)) \<Rightarrow>
          if \<not> hasNext then Some (Inr (None, r2, f\<lparr>skipChild := c2\<rparr>))
          else let numTuplesAvailable = to_u32 (getNumTuplesInResultSet r2 scope);
                   numTupleSkippedBefore = to_u32 (skipCounter f);
                   f' = \<lparr>skipPrev = saveSelVector (skipPrev f) (selOf r2 k),
                         skipCounter = to_u64 (skipCounter f + numTuplesAvailable), skipChild = c2\<rparr>
               in if to_u32 (numTupleSkippedBefore + numTuplesAvailable) \<le> s
                  then loop k scope s child (r2, f')
                  else Some (Inr (Some numTupleSkippedBefore, r2, f'))) = Some out"
    have "to_u32 x \<le> s" if "4294967295 \<le> s" for x using that mod_less_divisor [of 4294967296 x] by (simp add: to_u32_def)
    then show "4294967295 \<le> s \<longrightarrow> (\<forall>x t''. out \<noteq> Inr (Some x, t''))"
      using out IH by (auto simp: Let_def split: option.splits sum.splits prod.splits if_splits)
  qed
  then show ?thesis using assms(1) by (cases res) auto
qed


text \<open>A child that delivers batches of one tuple for ever.\<close>

definition endlessChild :: "unit puller" where
  "endlessChild t = Some (Inr (True, withSel (fst t) 0 ((selOf (fst t) 0)\<lparr>selectedSize := 1\<rparr>), ()))"


end
