(* ===== verification/Scan_Node_ID.thy ===== *)
theory Scan_Node_ID
  imports Pipeline Node_Statistics
begin

text \<open>
  The scan of the nodes of a table, morsel by morsel: \<^verbatim>\<open>scan_node_id.h\<close> and \<^verbatim>\<open>scan_node_id.cpp\<close> of
  \<^verbatim>\<open>src/src/processor/physical_plan/operator\<close>, with the semi mask that other pipelines of the query fill in.  The scan reads the
  statistics and the deleted nodes of the version of the table that its transaction sees; the mutex of the shared state makes
  every call of \<open>getNextRangeToRead\<close> one step.
\<close>

section \<open>The semi mask\<close>

record Mask =
  maskedFlag :: u8
  maskData :: "u8 list"

definition newMask :: "nat \<Rightarrow> u8 \<Rightarrow> Mask" where
  "newMask sz flag = \<lparr>maskedFlag = flag, maskData = replicate sz 0\<rparr>"

definition setMask :: "nat \<Rightarrow> u8 \<Rightarrow> u8 \<Rightarrow> Mask \<Rightarrow> Mask result" where
  "setMask pos maskerIdx maskValue m =
     (if length (maskData m) \<le> pos then Inl (UndefinedBehaviour ''mask index'')
      else if maskData m ! pos = maskerIdx then Inr (m\<lparr>maskData := (maskData m)[pos := maskValue]\<rparr>) else Inr m)"

definition isMasked :: "nat \<Rightarrow> Mask \<Rightarrow> bool result" where
  "isMasked pos m =
     (if length (maskData m) \<le> pos then Inl (UndefinedBehaviour ''mask index'') else Inr (maskData m ! pos = maskedFlag m))"

record ScanNodeIDSemiMask =
  nodeMask :: Mask
  morselMask :: Mask

definition newSemiMask :: "node_offset \<Rightarrow> u8 \<Rightarrow> ScanNodeIDSemiMask" where
  "newSemiMask mx flag =
     \<lparr>nodeMask = newMask (unat (mx + 1)) flag, morselMask = newMask (unat (drop_bit 11 mx + 1)) flag\<rparr>"

definition semiSetMask :: "node_offset \<Rightarrow> u8 \<Rightarrow> ScanNodeIDSemiMask \<Rightarrow> ScanNodeIDSemiMask result" where
  "semiSetMask nodeOffset maskerIdx sm =
     bind_result (setMask (unat nodeOffset) maskerIdx (maskerIdx + 1) (nodeMask sm)) (\<lambda>nm.
       bind_result (setMask (unat (drop_bit 11 nodeOffset)) maskerIdx (maskerIdx + 1) (morselMask sm)) (\<lambda>mm.
         Inr \<lparr>nodeMask = nm, morselMask = mm\<rparr>))"

section \<open>The shared state\<close>

record ScanNodeIDSharedState =
  initialized :: bool
  maxNodeOffset :: u64
  maxMorselIdx :: u64
  currentNodeOffset :: u64
  numMaskers :: u8
  semiMask :: "ScanNodeIDSemiMask option"

definition newSharedState :: ScanNodeIDSharedState where
  "newSharedState = \<lparr>initialized = False, maxNodeOffset = UINT64_MAX, maxMorselIdx = UINT64_MAX, currentNodeOffset = 0,
     numMaskers = 0, semiMask = None\<rparr>"

definition initializeShared :: "NodeStatisticsAndDeletedIDs \<Rightarrow> ScanNodeIDSharedState \<Rightarrow> ScanNodeIDSharedState" where
  "initializeShared n ss =
     (if initialized ss then ss
      else ss\<lparr>maxNodeOffset := getMaxNodeOffset n, maxMorselIdx := drop_bit 11 (getMaxNodeOffset n), initialized := True\<rparr>)"

definition initSemiMask :: "NodeStatisticsAndDeletedIDs \<Rightarrow> ScanNodeIDSharedState \<Rightarrow> ScanNodeIDSharedState" where
  "initSemiMask n ss =
     (case semiMask ss of
        None \<Rightarrow> ss\<lparr>semiMask := Some (newSemiMask (getMaxNodeOffset n) (numMaskers ss))\<rparr>
      | Some _ \<Rightarrow> ss)"

partial_function (option) nextMaskedMorsel :: "u64 \<Rightarrow> Mask \<Rightarrow> u64 \<Rightarrow> u64 result option" where
  "nextMaskedMorsel mx m currentMorselIdx =
     (if currentMorselIdx \<le> mx
      then case isMasked (unat currentMorselIdx) m of
             Inl e \<Rightarrow> Some (Inl e)
           | Inr b \<Rightarrow> if b then Some (Inr currentMorselIdx) else nextMaskedMorsel mx m (currentMorselIdx + 1)
      else Some (Inr currentMorselIdx))"

definition skipUnmaskedMorsels :: "ScanNodeIDSharedState \<Rightarrow> u64 result option" where
  "skipUnmaskedMorsels ss =
     (case semiMask ss of
        None \<Rightarrow> Some (Inr (currentNodeOffset ss))
      | Some sm \<Rightarrow>
          (case nextMaskedMorsel (maxMorselIdx ss) (morselMask sm) (drop_bit 11 (currentNodeOffset ss)) of
             None \<Rightarrow> None
           | Some (Inl e) \<Rightarrow> Some (Inl e)
           | Some (Inr i) \<Rightarrow> Some (Inr (min (i * 2048) (maxNodeOffset ss)))))"

definition getNextRangeToRead :: "ScanNodeIDSharedState \<Rightarrow> (u64 \<times> u64 \<times> ScanNodeIDSharedState) result option" where
  "getNextRangeToRead ss =
     (if maxNodeOffset ss < currentNodeOffset ss \<or> maxNodeOffset ss = UINT64_MAX
      then Some (Inr (currentNodeOffset ss, currentNodeOffset ss, ss))
      else case skipUnmaskedMorsels ss of
             None \<Rightarrow> None
           | Some (Inl e) \<Rightarrow> Some (Inl e)
           | Some (Inr startOffset) \<Rightarrow>
               let range = min 2048 (maxNodeOffset ss + 1 - startOffset)
               in Some (Inr (startOffset, startOffset + range, ss\<lparr>currentNodeOffset := startOffset + range\<rparr>)))"

section \<open>The operator\<close>

text \<open>
  \<open>outValues\<close> are the values of the output vector: node offset and table.  \<open>tableStatistics\<close> is the version of the statistics and
  deleted identifiers of the table that the transaction reads.
\<close>

record ScanNodeID =
  sharedState :: ScanNodeIDSharedState
  tableStatistics :: NodeStatisticsAndDeletedIDs
  scanTableID :: table_id
  outValues :: "(u64 \<times> table_id) list"

definition newScanNodeID :: "NodeStatisticsAndDeletedIDs \<Rightarrow> table_id \<Rightarrow> ScanNodeIDSharedState \<Rightarrow> ScanNodeID" where
  "newScanNodeID n t ss = \<lparr>sharedState = initializeShared n ss, tableStatistics = n, scanTableID = t,
     outValues = replicate DEFAULT_VECTOR_CAPACITY (0, 0)\<rparr>"

definition writeNodeIDs :: "u64 \<Rightarrow> nat \<Rightarrow> ScanNodeID \<Rightarrow> ScanNodeID" where
  "writeNodeIDs startOffset sz sc =
     sc\<lparr>outValues := map (\<lambda>i. (startOffset + of_nat i, scanTableID sc)) [0..<sz] @ drop sz (outValues sc)\<rparr>"

definition semiMaskBody :: "Mask \<Rightarrow> u64 \<Rightarrow> state_id \<Rightarrow> nat \<Rightarrow> chunk_states \<times> nat \<Rightarrow> (chunk_states \<times> nat) result" where
  "semiMaskBody m startOffset k i t =
     (let \<sigma> = writeSelected (fst t) k (snd t) i in
      bind_result (isMasked (unat (of_nat i + startOffset)) m) (\<lambda>b. Inr (\<sigma>, snd t + (if b then 1 else 0))))"

definition setMaskedSelection :: "nat \<Rightarrow> u64 \<Rightarrow> u64 \<Rightarrow> Mask \<Rightarrow> chunk_states \<Rightarrow> chunk_states result" where
  "setMaskedSelection k startOffset endOffset m \<sigma> =
     bind_result (foldResult (semiMaskBody m startOffset k) [0..<unat (endOffset - startOffset)]
                    (mapSelVector resetSelectorToValuePosBuffer \<sigma> k, 0))
       (\<lambda>(\<sigma>', numSelectedValues). Inr (setSelectedSize \<sigma>' k numSelectedValues))"

text \<open>The selection vector after the deleted nodes of the morsel are taken out; its size is a 16-bit number.\<close>

definition selectUndeleted :: "(nat list \<times> u64) option \<Rightarrow> SelectionVector \<Rightarrow> SelectionVector" where
  "selectUndeleted res sv =
     (case res of
        None \<Rightarrow> sv
      | Some (positions, sz) \<Rightarrow>
          (resetSelectorToValuePosBuffer sv)\<lparr>selectedPositionsBuffer := copyPositions (length positions) (selectedPositionsBuffer sv) positions,
             selectedSize := unat sz mod 65536\<rparr>)"

definition setSelVector :: "nat \<Rightarrow> u64 \<Rightarrow> u64 \<Rightarrow> ScanNodeID \<Rightarrow> chunk_states \<Rightarrow> chunk_states result" where
  "setSelVector k startOffset endOffset sc \<sigma> =
     bind_result
       (case semiMask (sharedState sc) of
          Some sm \<Rightarrow> setMaskedSelection k startOffset endOffset (nodeMask sm) \<sigma>
        | None \<Rightarrow> Inr (mapSelVector resetSelectorToUnselected \<sigma> k))
       (\<lambda>\<sigma>1. bind_result
          (setDeletedNodeOffsetsForMorsel (fst (outValues sc ! 0)) (originalSize (\<sigma>1 k)) (tableStatistics sc))
          (\<lambda>res. Inr (mapSelVector (selectUndeleted res) \<sigma>1 k)))"

definition scanRange :: "nat \<Rightarrow> u64 \<Rightarrow> u64 \<Rightarrow> ResultSet \<times> ScanNodeID \<Rightarrow> (ResultSet \<times> ScanNodeID) result" where
  "scanRange k startOffset endOffset t =
     (let (r, sc) = t; sz = unat (endOffset - startOffset); sc1 = writeNodeIDs startOffset sz sc;
          chunk = initOriginalAndSelectedSize (dataChunks r ! k) sz
      in bind_result (setSelVector k startOffset endOffset sc1 ((\<lambda>i. dataChunks r ! i)(k := chunk)))
           (\<lambda>\<sigma>. Inr (r\<lparr>dataChunks := (dataChunks r)[k := \<sigma> k]\<rparr>, sc1)))"

partial_function (option) scanGetNextTuples :: "nat \<Rightarrow> ScanNodeID puller" where
  "scanGetNextTuples k t =
     (case getNextRangeToRead (sharedState (snd t)) of
        None \<Rightarrow> None
      | Some (Inl e) \<Rightarrow> Some (Inl e)
      | Some (Inr (startOffset, endOffset, ss)) \<Rightarrow>
          if endOffset \<le> startOffset then Some (Inr (False, fst t, (snd t)\<lparr>sharedState := ss\<rparr>))
          else case scanRange k startOffset endOffset (fst t, (snd t)\<lparr>sharedState := ss\<rparr>) of
                 Inl e \<Rightarrow> Some (Inl e)
               | Inr t' \<Rightarrow> if selectedSize (selOf (fst t') k) = 0 then scanGetNextTuples k t' else Some (Inr (True, t')))"

subsection \<open>The masker\<close>

text \<open>
  A semi masker passes the batches of its child on and marks the nodes of the active positions of its key vector.  \<open>keys\<close> gives
  the values of that vector, chunk \<open>k\<close> is its state.
\<close>

definition maskBatch :: "u8 \<Rightarrow> DataChunkState \<Rightarrow> (u64 \<times> table_id) list \<Rightarrow> ScanNodeIDSemiMask \<Rightarrow> ScanNodeIDSemiMask result" where
  "maskBatch maskerIdx st values sm =
     (let startIdx = (if isFlat st then nat (currIdx st) else 0);
          numValues = (if isFlat st then 1 else selectedSize (selVector st))
      in foldResult (\<lambda>i. semiSetMask (fst (values ! selectedPosition (selVector st) (i + startIdx))) maskerIdx) [0..<numValues] sm)"

record 'c SemiMasker =
  maskerShared :: ScanNodeIDSharedState
  maskerChild :: 'c

definition maskerGetNextTuples :: "nat \<Rightarrow> u8 \<Rightarrow> ('c \<Rightarrow> (u64 \<times> table_id) list) \<Rightarrow> 'c puller \<Rightarrow> 'c SemiMasker puller" where
  "maskerGetNextTuples k maskerIdx keys child t =
     (let (r, f) = t in
      case child (r, maskerChild f) of
        None \<Rightarrow> None
      | Some (Inl e) \<Rightarrow> Some (Inl e)
      | Some (Inr (hasNext, r1, c1)) \<Rightarrow>
          if \<not> hasNext then Some (Inr (False, r1, f\<lparr>maskerChild := c1\<rparr>))
          else (case semiMask (maskerShared f) of
                  None \<Rightarrow> Some (Inl (UndefinedBehaviour ''semi mask is null''))
                | Some sm \<Rightarrow>
                    (case maskBatch maskerIdx (dataChunks r1 ! k) (keys c1) sm of
                       Inl e \<Rightarrow> Some (Inl e)
                     | Inr sm' \<Rightarrow> Some (Inr (True, r1, \<lparr>maskerShared = (maskerShared f)\<lparr>semiMask := Some sm'\<rparr>, maskerChild = c1\<rparr>)))))"

section \<open>What a scan delivers\<close>

function scanBatches :: "(nat \<Rightarrow> bool) \<Rightarrow> nat \<Rightarrow> nat \<Rightarrow> nat list list" where
  "scanBatches P N x =
     (if N \<le> x then []
      else let y = x + min 2048 (N - x); b = filter P [x..<y] in (if b = [] then [] else [b]) @ scanBatches P N y)"
  by pat_completeness auto
termination by (relation "measure (\<lambda>(P, N, x). N - x)") auto

declare scanBatches.simps [simp del]

lemma concat_scanBatches: "concat (scanBatches P N x) = filter P [x..<N]"
proof (induction P N x rule: scanBatches.induct)
  case (1 P N x)
  show ?case
  proof (cases "N \<le> x")
    case False
    let ?y = "x + min 2048 (N - x)"
    have "[x..<N] = [x..<?y] @ [?y..<N]" using False upt_add_eq_append [of x ?y "N - ?y"] by simp
    moreover have "concat (scanBatches P N x) = filter P [x..<?y] @ concat (scanBatches P N ?y)"
      using False by (subst scanBatches.simps) (auto simp: Let_def)
    ultimately show ?thesis using 1 False by simp
  qed (simp add: scanBatches.simps)
qed

lemma scanBatches_step:
  assumes "x < N" and "b = filter P [x..<x + min 2048 (N - x)]"
  shows "scanBatches P N x = (if b = [] then [] else [b]) @ scanBatches P N (x + min 2048 (N - x))"
  using assms by (subst scanBatches.simps) (simp add: Let_def)

lemma scanBatches_skip:
  assumes "\<forall>y. x \<le> y \<and> y < x + j * 2048 \<longrightarrow> \<not> P y" and "x + j * 2048 \<le> N"
  shows "scanBatches P N x = scanBatches P N (x + j * 2048)"
  using assms
proof (induction j arbitrary: x)
  case (Suc j)
  have m: "min 2048 (N - x) = 2048" "x < N" using Suc.prems(2) by auto
  have "filter P [x..<x + 2048] = []" using Suc.prems(1) by (auto simp: filter_empty_conv)
  then have "scanBatches P N x = scanBatches P N (x + 2048)" using scanBatches_step [OF m(2) refl, of P] m(1) by simp
  also have "\<dots> = scanBatches P N (x + 2048 + j * 2048)" using Suc.prems by (intro Suc.IH) auto
  finally show ?case by (simp add: add.assoc)
qed simp

lemma scanBatches_none: "\<forall>y. x \<le> y \<and> y < N \<longrightarrow> \<not> P y \<Longrightarrow> scanBatches P N x = []"
proof (induction P N x rule: scanBatches.induct)
  case (1 P N x)
  show ?case
  proof (cases "N \<le> x")
    case False
    then have "filter P [x..<x + min 2048 (N - x)] = []" using "1.prems" by (auto simp: filter_empty_conv)
    then show ?thesis using 1 False by (subst scanBatches.simps) (auto simp: Let_def)
  qed (simp add: scanBatches.simps)
qed

definition numNodes :: "ScanNodeID \<Rightarrow> nat" where
  "numNodes sc = (if numTuples (tableStatistics sc) = UINT64_MAX then 0 else unat (numTuples (tableStatistics sc)))"

definition scannable :: "ScanNodeID \<Rightarrow> nat \<Rightarrow> bool" where
  "scannable sc x \<longleftrightarrow> of_nat x \<notin> deletedSet (tableStatistics sc) \<and>
     (case semiMask (sharedState sc) of None \<Rightarrow> True | Some sm \<Rightarrow> isMasked x (nodeMask sm) = Inr True)"

definition scanCell :: "ScanNodeID \<Rightarrow> nat \<Rightarrow> nat" where
  "scanCell sc p = unat (fst (outValues sc ! p))"

definition scanRest :: "ResultSet \<times> ScanNodeID \<Rightarrow> nat list list" where
  "scanRest t = scanBatches (scannable (snd t)) (numNodes (snd t)) (unat (currentNodeOffset (sharedState (snd t))))"

text \<open>The masks have an entry for every node and every morsel, and the morsel of a masked node is masked.\<close>

definition semi_ok :: "nat \<Rightarrow> ScanNodeIDSemiMask \<Rightarrow> bool" where
  "semi_ok N sm \<longleftrightarrow> N \<le> length (maskData (nodeMask sm)) \<and> (N - 1) div 2048 < length (maskData (morselMask sm)) \<and>
     (\<forall>x < N. isMasked x (nodeMask sm) = Inr True \<longrightarrow> isMasked (x div 2048) (morselMask sm) = Inr True)"

definition chunk_ok :: "nat \<Rightarrow> nat list \<Rightarrow> ResultSet \<Rightarrow> bool" where
  "chunk_ok k scope r \<longleftrightarrow> multiplicity r = 1 \<and> k < length (dataChunks r) \<and> currIdx (dataChunks r ! k) = - 1 \<and>
     k \<in> set scope \<and> distinct scope \<and> (\<forall>i \<in> set scope. i \<noteq> k \<longrightarrow> isFlat (dataChunks r ! i)) \<and>
     length (selectedPositionsBuffer (selOf r k)) = DEFAULT_VECTOR_CAPACITY"

text \<open>
  The state of a scan between two calls: the next offset starts a morsel or is past the last node.  Where a semi mask is used, no
  node of the table is deleted.
\<close>

definition scan_state_ok :: "ScanNodeID \<Rightarrow> bool" where
  "scan_state_ok sc \<longleftrightarrow>
     (let ss = sharedState sc; n = tableStatistics sc; N = numNodes sc; x = unat (currentNodeOffset ss) in
      ns_inv n \<and> maxNodeOffset ss = getMaxNodeOffset n \<and> length (outValues sc) = DEFAULT_VECTOR_CAPACITY \<and>
      N < 9223372036854775808 \<and> (x = N \<or> x < N \<and> x mod 2048 = 0) \<and>
      (0 < N \<longrightarrow> maxMorselIdx ss = drop_bit 11 (maxNodeOffset ss) \<and> (N - 1) div 2048 < length (hasDeletedNodesPerMorsel n)) \<and>
      (case semiMask ss of None \<Rightarrow> True | Some sm \<Rightarrow> semi_ok N sm \<and> deletedSet n = {}))"

definition scan_ok :: "nat \<Rightarrow> nat list \<Rightarrow> ResultSet \<times> ScanNodeID \<Rightarrow> bool" where
  "scan_ok k scope t \<longleftrightarrow> chunk_ok k scope (fst t) \<and> scan_state_ok (snd t)"

lemma max_offset:
  assumes "ns_inv n" and "numTuples n \<noteq> UINT64_MAX"
  shows "unat (getMaxNodeOffset n) = unat (numTuples n) - 1" and "getMaxNodeOffset n \<noteq> UINT64_MAX"
    and "getMaxNodeOffset n + 1 = numTuples n" and "0 < unat (numTuples n)"
proof -
  have 0: "numTuples n \<noteq> 0" using assms(1) by (simp add: ns_inv_def)
  then show p: "0 < unat (numTuples n)" by (simp add: unat_gt_0)
  have m: "getMaxNodeOffset n = numTuples n - 1" using assms(2) by (simp add: getMaxNodeOffset_def getMaxNodeOffsetFromNumTuples_def)
  show "getMaxNodeOffset n + 1 = numTuples n" by (simp add: m)
  have le: "1 \<le> numTuples n" using p by (simp add: word_le_nat_alt)
  show "unat (getMaxNodeOffset n) = unat (numTuples n) - 1" using le by (simp add: m unat_sub)
  then show "getMaxNodeOffset n \<noteq> UINT64_MAX" using 0 by (auto simp: m UINT64_MAX_def)
qed

lemma nextMaskedMorsel_finds:
  assumes "unat mx < 9223372036854775808" and "unat mx < length (maskData m)" and "unat i \<le> unat mx + 1"
  shows "\<exists>j. nextMaskedMorsel mx m i = Some (Inr j) \<and> unat i \<le> unat j \<and> unat j \<le> unat mx + 1 \<and>
    (\<forall>l. unat i \<le> l \<and> l < unat j \<longrightarrow> isMasked l m \<noteq> Inr True) \<and> (unat j \<le> unat mx \<longrightarrow> isMasked (unat j) m = Inr True)"
  using assms(3)
proof (induction "unat mx + 1 - unat i" arbitrary: i)
  case 0
  then have "\<not> i \<le> mx" by (simp add: word_le_nat_alt)
  then show ?case by (subst nextMaskedMorsel.simps) (use 0 in auto)
next
  case (Suc d)
  then have le: "i \<le> mx" by (simp add: word_le_nat_alt)
  have r: "isMasked (unat i) m = Inr (maskData m ! unat i = maskedFlag m)"
    using le assms(2) by (simp add: isMasked_def word_le_nat_alt)
  show ?case
  proof (cases "maskData m ! unat i = maskedFlag m")
    case True
    then show ?thesis using le r Suc.prems by (subst nextMaskedMorsel.simps) auto
  next
    case False
    have i1: "unat (i + 1) = unat i + 1" using le assms(1) by (simp add: word_le_nat_alt unat_word_ariths)
    have d: "d = unat mx + 1 - unat (i + 1)" using Suc.hyps(2) i1 by simp
    obtain j where j: "nextMaskedMorsel mx m (i + 1) = Some (Inr j)" "unat (i + 1) \<le> unat j" "unat j \<le> unat mx + 1"
        "\<forall>l. unat (i + 1) \<le> l \<and> l < unat j \<longrightarrow> isMasked l m \<noteq> Inr True" "unat j \<le> unat mx \<longrightarrow> isMasked (unat j) m = Inr True"
      using Suc.hyps(1) [of "i + 1"] d i1 le by (auto simp: word_le_nat_alt)
    have "isMasked l m \<noteq> Inr True" if "unat i \<le> l" "l < unat j" for l
      using that j(4) i1 r False by (cases "l = unat i") auto
    moreover have "nextMaskedMorsel mx m i = Some (Inr j)" using j(1) le r False by (subst nextMaskedMorsel.simps) simp
    ultimately show ?thesis using j(2,3,5) i1 by auto
  qed
qed

lemma unat_min: "unat (min a b :: u64) = min (unat a) (unat b)"
  by (simp add: min_def word_le_nat_alt)

lemma unat_morsel: "unat (drop_bit 11 x :: u64) = unat x div 2048"
  by (simp add: drop_bit_eq_div unat_div)

lemma skipUnmasked_finds:
  assumes ok: "scan_state_ok sc" and x: "x = unat (currentNodeOffset (sharedState sc))" "x < numNodes sc"
  shows "\<exists>s. skipUnmaskedMorsels (sharedState sc) = Some (Inr s) \<and> x \<le> unat s \<and> unat s < numNodes sc \<and>
    (unat s mod 2048 = 0 \<and> scanBatches (scannable sc) (numNodes sc) x = scanBatches (scannable sc) (numNodes sc) (unat s) \<or>
     semiMask (sharedState sc) \<noteq> None \<and> unat s + 1 = numNodes sc \<and> (\<forall>y. x \<le> y \<and> y < numNodes sc \<longrightarrow> \<not> scannable sc y))"
proof (cases "semiMask (sharedState sc)")
  case None
  then show ?thesis using ok x by (auto simp: skipUnmaskedMorsels_def scan_state_ok_def Let_def)
next
  case (Some sm)
  let ?ss = "sharedState sc" and ?N = "numNodes sc" and ?n = "tableStatistics sc"
  have num: "numTuples ?n \<noteq> UINT64_MAX" "?N = unat (numTuples ?n)" using x(2) by (auto simp: numNodes_def split: if_splits)
  have inv: "ns_inv ?n" "maxNodeOffset ?ss = getMaxNodeOffset ?n" "?N < 9223372036854775808" "x mod 2048 = 0"
      "maxMorselIdx ?ss = drop_bit 11 (maxNodeOffset ?ss)" and semi: "semi_ok ?N sm"
    using ok x Some by (auto simp: scan_state_ok_def Let_def)
  have mx: "unat (maxNodeOffset ?ss) = ?N - 1" using max_offset(1) [OF inv(1) num(1)] inv(2) num(2) by simp
  then have mm: "unat (maxMorselIdx ?ss) = (?N - 1) div 2048" using inv(5) by (simp add: unat_morsel)
  let ?i = "drop_bit 11 (currentNodeOffset ?ss)" and ?m = "morselMask sm"
  have i: "unat ?i = x div 2048" by (simp add: unat_morsel x(1))
  have le: "x div 2048 \<le> (?N - 1) div 2048" using x(2) by (intro div_le_mono) simp
  have small: "(?N - 1) div 2048 < 9223372036854775808" using inv(3) div_le_dividend [of "?N - 1" 2048] by linarith
  obtain j where j: "nextMaskedMorsel (maxMorselIdx ?ss) ?m ?i = Some (Inr j)" "x div 2048 \<le> unat j" "unat j \<le> (?N - 1) div 2048 + 1"
      "\<forall>l. x div 2048 \<le> l \<and> l < unat j \<longrightarrow> isMasked l ?m \<noteq> Inr True"
    using nextMaskedMorsel_finds [of "maxMorselIdx ?ss" ?m ?i] semi small mm i le by (auto simp: semi_ok_def)
  have skipped: "\<not> scannable sc y" if "x \<le> y" "y < ?N" "y div 2048 < unat j" for y
  proof -
    have "x div 2048 \<le> y div 2048" using that(1) by (rule div_le_mono)
    then have "isMasked (y div 2048) ?m \<noteq> Inr True" using j(4) that(3) by simp
    then show ?thesis using semi that(2) Some by (auto simp: semi_ok_def scannable_def)
  qed
  have jl: "unat (j * 2048) = unat j * 2048" using j(3) inv(3) by (simp add: unat_word_ariths)
  have s: "skipUnmaskedMorsels ?ss = Some (Inr (min (j * 2048) (maxNodeOffset ?ss)))" using Some j(1) by (simp add: skipUnmaskedMorsels_def)
  show ?thesis
  proof (cases "unat j \<le> (?N - 1) div 2048")
    case True
    have jN: "unat j * 2048 \<le> ?N - 1" using True by (simp add: less_eq_div_iff_mult_less_eq)
    have "x div 2048 * 2048 + (unat j - x div 2048) * 2048 = unat j * 2048" using j(2) by (simp only: add_mult_distrib [symmetric] le_add_diff_inverse)
    then have xj: "x + (unat j - x div 2048) * 2048 = unat j * 2048" using div_mult_mod_eq [of x 2048] inv(4) by simp
    have "\<not> scannable sc y" if "x \<le> y" "y < unat j * 2048" for y
      using that jN x(2) by (intro skipped) (auto simp: less_mult_imp_div_less)
    then have "scanBatches (scannable sc) ?N x = scanBatches (scannable sc) ?N (unat j * 2048)"
      using scanBatches_skip [of x "unat j - x div 2048" "scannable sc" ?N] jN unfolding xj by simp
    moreover have "unat (min (j * 2048) (maxNodeOffset ?ss)) = unat j * 2048" using jN by (simp add: unat_min jl mx)
    ultimately show ?thesis using s xj jN x(2) by (intro exI [of _ "min (j * 2048) (maxNodeOffset ?ss)"]) auto
  next
    case False
    then have j': "unat j = (?N - 1) div 2048 + 1" using j(3) by simp
    have "?N - 1 \<le> unat j * 2048" unfolding j' using dividend_less_div_times [of 2048 "?N - 1"] by simp
    then have "unat (min (j * 2048) (maxNodeOffset ?ss)) = ?N - 1" by (simp add: unat_min jl mx)
    moreover have "\<not> scannable sc y" if "x \<le> y" "y < ?N" for y
      using that by (intro skipped) (auto simp: j' less_Suc_eq_le intro: div_le_mono)
    ultimately show ?thesis using s x(2) Some by (intro exI [of _ "min (j * 2048) (maxNodeOffset ?ss)"]) auto
  qed
qed

lemma next_range:
  assumes ok: "scan_state_ok sc" and x: "x = unat (currentNodeOffset (sharedState sc))" "x < numNodes sc"
  shows "\<exists>s e. getNextRangeToRead (sharedState sc) = Some (Inr (s, e, (sharedState sc)\<lparr>currentNodeOffset := e\<rparr>)) \<and>
    unat s < numNodes sc \<and> unat e = unat s + min 2048 (numNodes sc - unat s) \<and> (unat e = numNodes sc \<or> unat e mod 2048 = 0) \<and>
    x < unat e \<and> (semiMask (sharedState sc) = None \<longrightarrow> unat s mod 2048 = 0) \<and>
    scanBatches (scannable sc) (numNodes sc) x =
      (let b = filter (scannable sc) [unat s..<unat e] in (if b = [] then [] else [b]) @ scanBatches (scannable sc) (numNodes sc) (unat e))"
proof -
  let ?ss = "sharedState sc" and ?N = "numNodes sc" and ?n = "tableStatistics sc"
  have num: "numTuples ?n \<noteq> UINT64_MAX" "?N = unat (numTuples ?n)" using x(2) by (auto simp: numNodes_def split: if_splits)
  have inv: "ns_inv ?n" "maxNodeOffset ?ss = getMaxNodeOffset ?n" "?N < 9223372036854775808"
    using ok by (auto simp: scan_state_ok_def Let_def)
  note mx = max_offset [OF inv(1) num(1)]
  obtain s where s: "skipUnmaskedMorsels ?ss = Some (Inr s)" "x \<le> unat s" "unat s < ?N"
      and or: "unat s mod 2048 = 0 \<and> scanBatches (scannable sc) ?N x = scanBatches (scannable sc) ?N (unat s) \<or>
     semiMask ?ss \<noteq> None \<and> unat s + 1 = ?N \<and> (\<forall>y. x \<le> y \<and> y < ?N \<longrightarrow> \<not> scannable sc y)"
    using skipUnmasked_finds [OF ok x] by (elim exE conjE) (rule that)
  define range where "range = min 2048 (maxNodeOffset ?ss + 1 - s)"
  have "s \<le> numTuples ?n" using s(3) num(2) by (simp add: word_le_nat_alt)
  then have ur: "unat range = min 2048 (?N - unat s)" using num(2) mx(3) inv(2) by (simp add: range_def unat_min unat_sub)
  then have e: "unat (s + range) = unat s + min 2048 (?N - unat s)" using s(3) inv(3) by (simp add: unat_word_ariths)
  have "\<not> maxNodeOffset ?ss < currentNodeOffset ?ss" using mx(1) x inv(2) num(2) by (simp add: word_less_nat_alt)
  then have g: "getNextRangeToRead ?ss = Some (Inr (s, s + range, ?ss\<lparr>currentNodeOffset := s + range\<rparr>))"
    using mx(2) inv(2) s(1) by (simp add: getNextRangeToRead_def Let_def range_def)
  have al: "unat (s + range) = ?N \<or> unat (s + range) mod 2048 = 0"
    unfolding e using or s(3) by (auto simp: min_def mod_add_self2)
  have "scanBatches (scannable sc) ?N x =
      (let b = filter (scannable sc) [unat s..<unat (s + range)] in (if b = [] then [] else [b]) @ scanBatches (scannable sc) ?N (unat (s + range)))"
    using or
  proof
    assume "unat s mod 2048 = 0 \<and> scanBatches (scannable sc) ?N x = scanBatches (scannable sc) ?N (unat s)"
    then show ?thesis using scanBatches_step [OF s(3) refl, of "scannable sc"] by (simp add: e Let_def)
  next
    assume a: "semiMask ?ss \<noteq> None \<and> unat s + 1 = ?N \<and> (\<forall>y. x \<le> y \<and> y < ?N \<longrightarrow> \<not> scannable sc y)"
    then have "unat (s + range) = ?N" using e by linarith
    moreover have "filter (scannable sc) [unat s..<?N] = []" using a s(2) by (auto simp: filter_empty_conv)
    moreover have "scanBatches (scannable sc) ?N x = []" using a by (intro scanBatches_none) blast
    ultimately show ?thesis by (simp add: scanBatches.simps [of _ ?N ?N])
  qed
  moreover have "x < unat (s + range)" using e s(2,3) by linarith
  moreover have "semiMask ?ss = None \<longrightarrow> unat s mod 2048 = 0" using or by blast
  ultimately show ?thesis using g s(3) e al by (intro exI [of _ s] exI [of _ "s + range"] conjI)
qed

subsection \<open>One range\<close>

interpretation masking: compaction "semiMaskBody m startOffset k" k "\<lambda>p. isMasked (unat (of_nat p + startOffset)) m" for m startOffset k
  by unfold_locales (simp_all add: semiMaskBody_def Let_def)

lemma masked_selection:
  assumes "unat startOffset + sz \<le> length (maskData m)" and "unat startOffset + sz < 18446744073709551616"
    and "unat (endOffset - startOffset) = sz" and "sz \<le> 2048" and "length (bufferOf \<sigma> k) = 2048"
  shows "\<exists>b. setMaskedSelection k startOffset endOffset m \<sigma> = Inr (\<sigma>(k := (\<sigma> k)\<lparr>selVector := \<lparr>selUnfiltered = False,
      selectedSize = length (filter (\<lambda>p. isMasked (unat startOffset + p) m = Inr True) [0..<sz]), selectedPositionsBuffer = b\<rparr>\<rparr>)) \<and>
      length b = 2048 \<and> take (length (filter (\<lambda>p. isMasked (unat startOffset + p) m = Inr True) [0..<sz])) b =
        filter (\<lambda>p. isMasked (unat startOffset + p) m = Inr True) [0..<sz]"
proof -
  let ?\<sigma> = "mapSelVector resetSelectorToValuePosBuffer \<sigma> k" and ?keep = "\<lambda>p. isMasked (unat (of_nat p + startOffset)) m"
  let ?f = "filter (\<lambda>p. isMasked (unat startOffset + p) m = Inr True) [0..<sz]"
  have buf: "length (bufferOf ?\<sigma> k) = 2048" using assms(5) by (simp add: bufferOf_def mapSelVector_def resetSelectorToValuePosBuffer_def)
  have u: "unat (of_nat p + startOffset) = unat startOffset + p" if "p < sz" for p
    using that assms(2) by (simp add: unat_word_ariths unat_of_nat)
  have keep: "?keep p = Inr (maskData m ! (unat startOffset + p) = maskedFlag m)" if "p < sz" for p
    using u [OF that] that assms(1) by (simp add: isMasked_def)
  have f: "filter (\<lambda>p. ?keep p = Inr True) [0..<sz] = ?f" using u by (intro filter_cong) auto
  have "\<not> (\<exists>p < sz. ?keep p = Inl e)" for e using keep by auto
  then obtain b n where fold: "foldResult (semiMaskBody m startOffset k) [0..<sz] (?\<sigma>, 0) = Inr (withBuffer ?\<sigma> k b, n)"
      and c: "compacted ?keep [0..<sz] (bufferOf ?\<sigma> k) sz b n"
    using masking.counter_compacts [of sz ?\<sigma> k startOffset m] assms(4) buf by (auto split: sum.splits)
  have n: "n = length ?f" "take n b = ?f" "length b = 2048" using c f buf by (auto simp: compacted_def)
  have "setMaskedSelection k startOffset endOffset m \<sigma> = Inr (\<sigma>(k := (\<sigma> k)\<lparr>selVector := \<lparr>selUnfiltered = False,
      selectedSize = n, selectedPositionsBuffer = b\<rparr>\<rparr>))"
    unfolding setMaskedSelection_def assms(3) fold
    by (cases "selVector (\<sigma> k)") (simp add: setSelectedSize_def withBuffer_def mapSelVector_def resetSelectorToValuePosBuffer_def)
  then show ?thesis using n by blast
qed

lemma no_deletions:
  assumes "ns_inv n" and "deletedSet n = {}" and "unat (morselOf x) < length (hasDeletedNodesPerMorsel n)"
  shows "setDeletedNodeOffsetsForMorsel x z n = Inr None"
proof -
  have "map_of (deletedNodeOffsetsPerMorsel n) (morselOf x) = None"
  proof (rule ccontr)
    assume "map_of (deletedNodeOffsetsPerMorsel n) (morselOf x) \<noteq> None"
    then obtain xs where xs: "map_of (deletedNodeOffsetsPerMorsel n) (morselOf x) = Some xs" by blast
    then have e: "entry_inv (numTuples n) (morselOf x) xs" using assms(1) by (simp add: ns_inv_def)
    then have "hd xs \<in> set xs" "morselOf (hd xs) = morselOf x" by (auto simp: entry_inv_def)
    then show False using deletedSet_iff [OF assms(1), of "hd xs"] xs assms(2) by simp
  qed
  then show ?thesis using assms(1,3) by (simp add: setDeletedNodeOffsetsForMorsel_def ns_inv_def Let_def)
qed

text \<open>The selection of a range: exactly the positions of the nodes that are to be scanned.\<close>

definition selectsExactly :: "SelectionVector \<Rightarrow> nat list \<Rightarrow> bool" where
  "selectsExactly sv ps \<longleftrightarrow> selectedPositions sv = ps \<and> length (selectedPositionsBuffer sv) = DEFAULT_VECTOR_CAPACITY"

lemma selectsExactly_ok:
  assumes "selectsExactly sv (filter Q [0..<sz])" and "sz \<le> 2048"
  shows "sel_ok sv"
proof -
  have "selectedSize sv = length (filter Q [0..<sz])" using assms(1) length_selectedPositions [of sv] by (simp add: selectsExactly_def)
  also have "\<dots> \<le> length [0..<sz]" by (rule length_filter_le)
  finally show ?thesis using assms by (simp add: selectsExactly_def sel_ok_def list_all_iff)
qed

lemma selectsExactly_buffer:
  assumes "take (length ps) b = ps" and "length b = 2048"
  shows "selectsExactly \<lparr>selUnfiltered = False, selectedSize = length ps, selectedPositionsBuffer = b\<rparr> ps"
proof -
  have "length ps \<le> length b" using arg_cong [OF assms(1), of length] by simp
  then show ?thesis using assms by (simp add: selectsExactly_def selectedPositions_filtered)
qed

lemma selection_of_range:
  assumes ok: "scan_state_ok sc" and s: "unat s < numNodes sc" "unat e = unat s + min 2048 (numNodes sc - unat s)"
    and al: "semiMask (sharedState sc) = None \<longrightarrow> unat s mod 2048 = 0"
    and out: "fst (outValues sc ! 0) = s" and sz: "originalSize (\<sigma> k) = unat e - unat s" "selectedSize (selVector (\<sigma> k)) = unat e - unat s"
    and buf: "length (bufferOf \<sigma> k) = 2048"
  shows "\<exists>sv. setSelVector k s e sc \<sigma> = Inr (\<sigma>(k := (\<sigma> k)\<lparr>selVector := sv\<rparr>)) \<and>
    selectsExactly sv (filter (\<lambda>p. scannable sc (unat s + p)) [0..<unat e - unat s])"
proof -
  let ?n = "tableStatistics sc" and ?N = "numNodes sc" and ?sz = "unat e - unat s"
  have num: "numTuples ?n \<noteq> UINT64_MAX" "?N = unat (numTuples ?n)" using s(1) by (auto simp: numNodes_def split: if_splits)
  have inv: "ns_inv ?n" "?N < 9223372036854775808" "(?N - 1) div 2048 < length (hasDeletedNodesPerMorsel ?n)"
    using ok s(1) by (auto simp: scan_state_ok_def Let_def)
  have sz2: "?sz = min 2048 (?N - unat s)" using s(2) by simp
  have d: "unat (e - s) = ?sz" using s(2) by (simp add: unat_sub word_le_nat_alt)
  have "unat s div 2048 \<le> (?N - 1) div 2048" using s(1) by (intro div_le_mono) simp
  then have m: "unat (morselOf s) < length (hasDeletedNodesPerMorsel ?n)" using inv(3) by (simp add: morselOf_def unat_div)
  show ?thesis
  proof (cases "semiMask (sharedState sc)")
    case (Some sm)
    have semi: "?N \<le> length (maskData (nodeMask sm))" "deletedSet ?n = {}" using ok Some by (auto simp: scan_state_ok_def Let_def semi_ok_def)
    let ?f = "filter (\<lambda>p. isMasked (unat s + p) (nodeMask sm) = Inr True) [0..<?sz]"
    have b: "unat s + ?sz \<le> ?N" using sz2 s(1) by linarith
    obtain b where b: "setMaskedSelection k s e (nodeMask sm) \<sigma> = Inr (\<sigma>(k := (\<sigma> k)\<lparr>selVector := \<lparr>selUnfiltered = False,
        selectedSize = length ?f, selectedPositionsBuffer = b\<rparr>\<rparr>))" "length b = 2048" "take (length ?f) b = ?f"
      using masked_selection [of s ?sz "nodeMask sm" e \<sigma> k] semi(1) inv(2) d sz2 buf b by auto
    have "?f = filter (\<lambda>p. scannable sc (unat s + p)) [0..<?sz]" using Some semi(2) by (simp add: scannable_def)
    moreover have "setSelVector k s e sc \<sigma> = Inr (\<sigma>(k := (\<sigma> k)\<lparr>selVector := \<lparr>selUnfiltered = False,
        selectedSize = length ?f, selectedPositionsBuffer = b\<rparr>\<rparr>))"
      using b(1) Some no_deletions [OF inv(1) semi(2) m] by (simp add: setSelVector_def out mapSelVector_def selectUndeleted_def)
    ultimately show ?thesis using selectsExactly_buffer [OF b(3,2)] by auto
  next
    case None
    have "s mod 2048 = 0" using al None by (simp add: word_unat_eq_iff unat_mod)
    from setDeletedNodeOffsetsForMorsel_spec [OF inv(1) this m, of ?sz] sz2 num(2)
    obtain res where res: "setDeletedNodeOffsetsForMorsel s ?sz ?n = Inr res"
        "case res of None \<Rightarrow> \<forall>p < 2048. s + of_nat p \<notin> deletedSet ?n
         | Some (positions, w) \<Rightarrow> positions = filter (\<lambda>p. s + of_nat p \<notin> deletedSet ?n) [0..<?sz] \<and>
             w = of_nat (length positions)" by auto
    let ?g = "filter (\<lambda>p. s + of_nat p \<notin> deletedSet ?n) [0..<?sz]"
    have g: "filter (\<lambda>p. scannable sc (unat s + p)) [0..<?sz] = ?g" using None by (simp add: scannable_def)
    have len: "length ?g \<le> 2048" using length_filter_le [of "\<lambda>p. s + of_nat p \<notin> deletedSet ?n" "[0..<?sz]"] sz2 by simp
    let ?sv = "resetSelectorToUnselected (selVector (\<sigma> k))"
    have set: "setSelVector k s e sc \<sigma> = Inr (\<sigma>(k := (\<sigma> k)\<lparr>selVector := selectUndeleted res ?sv\<rparr>))"
      using None res(1) sz by (simp add: setSelVector_def out mapSelVector_def)
    have "selectsExactly (selectUndeleted res ?sv) ?g"
    proof (cases res)
      case None
      then have "?g = [0..<?sz]" using res(2) sz2 by simp
      then show ?thesis using None sz(2) sz2 buf
        by (simp add: selectsExactly_def selectUndeleted_def selectedPositions_unfiltered resetSelectorToUnselected_def bufferOf_def)
    next
      case (Some t)
      then have t: "t = (?g, of_nat (length ?g))" using res(2) by (cases t) simp
      have "selectUndeleted res ?sv = \<lparr>selUnfiltered = False, selectedSize = length ?g,
          selectedPositionsBuffer = copyPositions (length ?g) (selectedPositionsBuffer (selVector (\<sigma> k))) ?g\<rparr>"
        using len by (simp add: Some t selectUndeleted_def resetSelectorToUnselected_def resetSelectorToValuePosBuffer_def unat_of_nat)
      then show ?thesis using len buf by (simp add: selectsExactly_buffer take_copyPositions length_copyPositions bufferOf_def)
    qed
    then show ?thesis using set g by auto
  qed
qed

lemma batch_chunk: "batch_ok k scope r \<longleftrightarrow> chunk_ok k scope r \<and> sel_ok (selOf r k)"
  by (auto simp: batch_ok_def chunk_ok_def)

lemma filter_shift: "map (\<lambda>p. x + p) (filter (\<lambda>p. P (x + p)) [0..<m]) = filter P [x..<x + m]"
proof -
  have "[x..<x + m] = map (\<lambda>p. x + p) [0..<m]" using map_add_upt [of x m] by (simp add: add.commute)
  then show ?thesis by (simp add: filter_map comp_def)
qed

lemma range_delivers:
  assumes chunk: "chunk_ok k scope r" and ok: "scan_state_ok sc" and s: "unat s < numNodes sc" "unat e = unat s + min 2048 (numNodes sc - unat s)"
    and e: "unat e = numNodes sc \<or> unat e mod 2048 = 0" and al: "semiMask (sharedState sc) = None \<longrightarrow> unat s mod 2048 = 0"
  defines "sc0 \<equiv> sc\<lparr>sharedState := (sharedState sc)\<lparr>currentNodeOffset := e\<rparr>\<rparr>"
  shows "\<exists>r' sc'. scanRange k s e (r, sc0) = Inr (r', sc') \<and> batch_ok k scope r' \<and> scan_state_ok sc' \<and> scannable sc' = scannable sc \<and>
    numNodes sc' = numNodes sc \<and> currentNodeOffset (sharedState sc') = e \<and>
    map (scanCell sc') (selectedPositions (selOf r' k)) = filter (scannable sc) [unat s..<unat e]"
proof -
  let ?sz = "unat e - unat s" and ?N = "numNodes sc"
  have inv: "?N < 9223372036854775808" "length (outValues sc) = 2048" using ok by (auto simp: scan_state_ok_def Let_def)
  have sz: "0 < ?sz" "?sz \<le> 2048" "unat s + ?sz = unat e" "unat e \<le> ?N" using s by auto
  have d: "unat (e - s) = ?sz" using s(2) by (simp add: unat_sub word_le_nat_alt)
  define sc1 where "sc1 = writeNodeIDs s ?sz sc0"
  have sc1: "sharedState sc1 = (sharedState sc)\<lparr>currentNodeOffset := e\<rparr>" "tableStatistics sc1 = tableStatistics sc" "length (outValues sc1) = 2048"
    using inv(2) sz(2) by (simp_all add: sc1_def sc0_def writeNodeIDs_def)
  have same: "scannable sc1 = scannable sc" "numNodes sc1 = ?N" by (simp_all add: fun_eq_iff scannable_def numNodes_def sc1)
  have ok1: "scan_state_ok sc1" using ok e sc1 sz(4) by (auto simp: scan_state_ok_def Let_def same)
  have out: "outValues sc1 ! p = (s + of_nat p, scanTableID sc)" if "p < ?sz" for p
    using that by (simp add: sc1_def sc0_def writeNodeIDs_def nth_append)
  have cell: "scanCell sc1 p = unat s + p" if "p < ?sz" for p
    using that sz(3,4) inv(1) by (simp add: scanCell_def out unat_word_ariths unat_of_nat)
  let ?chunk = "initOriginalAndSelectedSize (dataChunks r ! k) ?sz"
  let ?\<sigma> = "(\<lambda>i. dataChunks r ! i)(k := ?chunk)"
  have k: "k < length (dataChunks r)" "length (bufferOf ?\<sigma> k) = 2048"
    using chunk by (simp_all add: chunk_ok_def bufferOf_def initOriginalAndSelectedSize_def selOf_def)
  obtain sv where sv: "setSelVector k s e sc1 ?\<sigma> = Inr (?\<sigma>(k := ?chunk\<lparr>selVector := sv\<rparr>))"
      and sel: "selectsExactly sv (filter (\<lambda>p. scannable sc (unat s + p)) [0..<?sz])"
    using selection_of_range [OF ok1, of s e ?\<sigma> k] s al sc1(1) out [OF sz(1)] k(2) by (auto simp: same initOriginalAndSelectedSize_def)
  define r' where "r' = r\<lparr>dataChunks := (dataChunks r)[k := ?chunk\<lparr>selVector := sv\<rparr>]\<rparr>"
  have step: "scanRange k s e (r, sc0) = Inr (r', sc1)" using sv by (simp add: scanRange_def Let_def d sc1_def r'_def)
  have selOf: "selOf r' k = sv" using k(1) by (simp add: r'_def selOf_def)
  have "chunk_ok k scope r'" using chunk sel
    by (auto simp: chunk_ok_def r'_def selOf_def selectsExactly_def isFlat_def initOriginalAndSelectedSize_def nth_list_update)
  then have b: "batch_ok k scope r'" using selectsExactly_ok [OF sel sz(2)] by (simp add: batch_chunk selOf)
  have "map (scanCell sc1) (selectedPositions sv) = map (\<lambda>p. unat s + p) (filter (\<lambda>p. scannable sc (unat s + p)) [0..<?sz])"
    using sel cell by (simp add: selectsExactly_def)
  also have "\<dots> = filter (scannable sc) [unat s..<unat e]" using filter_shift [of "unat s" "scannable sc" ?sz] sz(3) by simp
  finally show ?thesis using step b ok1 same sc1(1) selOf by auto
qed

text \<open>A call of the scan goes on until a range has a node to deliver, or the table is exhausted.\<close>

lemma scan_step:
  assumes "scan_ok k scope (r, sc)"
  shows "givesBatch k scope (scan_ok k scope) scanRest scanCell (scanRest (r, sc)) (scanGetNextTuples k (r, sc))"
  using assms
proof (induction "numNodes sc - unat (currentNodeOffset (sharedState sc))" arbitrary: r sc rule: less_induct)
  case less
  let ?N = "numNodes sc" and ?x = "unat (currentNodeOffset (sharedState sc))" and ?P = "scannable sc"
  have chunk: "chunk_ok k scope r" and ok: "scan_state_ok sc" using less.prems by (simp_all add: scan_ok_def)
  show ?case
  proof (cases "?x < ?N")
    case False
    let ?n = "tableStatistics sc"
    have inv: "ns_inv ?n" "maxNodeOffset (sharedState sc) = getMaxNodeOffset ?n" using ok by (auto simp: scan_state_ok_def Let_def)
    have "maxNodeOffset (sharedState sc) = UINT64_MAX \<or> maxNodeOffset (sharedState sc) < currentNodeOffset (sharedState sc)"
    proof (cases "numTuples ?n = UINT64_MAX")
      case True
      then show ?thesis using inv(2) by (simp add: getMaxNodeOffset_def getMaxNodeOffsetFromNumTuples_def)
    next
      case ne: False
      then show ?thesis using max_offset(1,4) [OF inv(1) ne] False inv(2) by (intro disjI2) (simp add: numNodes_def word_less_nat_alt less_eq_Suc_le)
    qed
    then have "getNextRangeToRead (sharedState sc) =
        Some (Inr (currentNodeOffset (sharedState sc), currentNodeOffset (sharedState sc), sharedState sc))"
      by (auto simp: getNextRangeToRead_def)
    then show ?thesis using False by (subst scanGetNextTuples.simps) (simp add: givesBatch_def scanRest_def scanBatches.simps [of _ ?N])
  next
    case True
    obtain s e where g: "getNextRangeToRead (sharedState sc) = Some (Inr (s, e, (sharedState sc)\<lparr>currentNodeOffset := e\<rparr>))"
        and s: "unat s < ?N" "unat e = unat s + min 2048 (?N - unat s)" and e: "unat e = ?N \<or> unat e mod 2048 = 0" "?x < unat e"
        and al: "semiMask (sharedState sc) = None \<longrightarrow> unat s mod 2048 = 0"
        and rest: "scanBatches ?P ?N ?x =
          (let b = filter ?P [unat s..<unat e] in (if b = [] then [] else [b]) @ scanBatches ?P ?N (unat e))"
      using next_range [OF ok refl True] by (elim exE conjE) (rule that)
    obtain r' sc' where step: "scanRange k s e (r, sc\<lparr>sharedState := (sharedState sc)\<lparr>currentNodeOffset := e\<rparr>\<rparr>) = Inr (r', sc')"
        and b': "batch_ok k scope r'" and ok': "scan_state_ok sc'" and same: "scannable sc' = ?P" "numNodes sc' = ?N"
        and cur: "currentNodeOffset (sharedState sc') = e"
        and cells: "map (scanCell sc') (selectedPositions (selOf r' k)) = filter ?P [unat s..<unat e]"
      using range_delivers [OF chunk ok s e(1) al] by blast
    have scan': "scan_ok k scope (r', sc')" using b' ok' by (simp add: scan_ok_def batch_chunk)
    have rest': "scanRest (r', sc') = scanBatches ?P ?N (unat e)" by (simp add: scanRest_def same cur)
    have se: "\<not> e \<le> s" using s by (simp add: word_le_nat_alt)
    have call: "scanGetNextTuples k (r, sc) =
        (if selectedSize (selOf r' k) = 0 then scanGetNextTuples k (r', sc') else Some (Inr (True, r', sc')))"
      by (subst scanGetNextTuples.simps) (simp add: g se step)
    have sz: "selectedSize (selOf r' k) = length (filter ?P [unat s..<unat e])" using arg_cong [OF cells, of length] by simp
    show ?thesis
    proof (cases "filter ?P [unat s..<unat e] = []")
      case empty: True
      have "givesBatch k scope (scan_ok k scope) scanRest scanCell (scanRest (r', sc')) (scanGetNextTuples k (r', sc'))"
        using less.hyps [OF _ scan'] e(2) True by (simp add: same cur)
      moreover have "scanRest (r, sc) = scanRest (r', sc')" using rest empty by (simp add: rest' scanRest_def [of "(r, sc)"])
      ultimately show ?thesis using call sz empty by simp
    next
      case False
      then have "scanRest (r, sc) = filter ?P [unat s..<unat e] # scanRest (r', sc')" using rest by (simp add: rest' scanRest_def [of "(r, sc)"] Let_def)
      then show ?thesis using call sz False scan' b' cells by (auto simp: givesBatch_def)
    qed
  qed
qed

interpretation scan: selection_writer "scanGetNextTuples k" k scope "scan_ok k scope" scanRest scanCell for k scope
proof unfold_locales
  fix r sc b bs and sv :: SelectionVector
  show "scan_ok k scope (r, sc) \<Longrightarrow> scanRest (r, sc) = [] \<Longrightarrow> \<exists>t. scanGetNextTuples k (r, sc) = Some (Inr (False, t))"
    using scan_step [of k scope r sc] by (simp add: givesBatch_def)
  show "scan_ok k scope (r, sc) \<Longrightarrow> scanRest (r, sc) = b # bs \<Longrightarrow>
      \<exists>r' c'. scanGetNextTuples k (r, sc) = Some (Inr (True, r', c')) \<and> scan_ok k scope (r', c') \<and> scanRest (r', c') = bs \<and>
        batch_ok k scope r' \<and> map (scanCell c') (selectedPositions (selOf r' k)) = b"
    using scan_step [of k scope r sc] by (simp add: givesBatch_def)
  show "scan_ok k scope (r, sc) \<Longrightarrow> k < length (dataChunks r) \<and> length (selectedPositionsBuffer (selOf r k)) = DEFAULT_VECTOR_CAPACITY"
    by (simp add: scan_ok_def chunk_ok_def)
  show any: "scan_ok k scope (r, sc) \<Longrightarrow> length (selectedPositionsBuffer sv) = DEFAULT_VECTOR_CAPACITY \<Longrightarrow>
      scan_ok k scope (withSel r k sv, sc) \<and> scanRest (withSel r k sv, sc) = scanRest (r, sc)"
    by (auto simp: scan_ok_def chunk_ok_def scanRest_def)
  show "scan_ok k scope (r, sc) \<Longrightarrow> selEq sv (selOf r k) \<Longrightarrow>
      scan_ok k scope (withSel r k sv, sc) \<and> scanRest (withSel r k sv, sc) = scanRest (r, sc)"
    using any by (simp add: selEq_def scan_ok_def chunk_ok_def)
qed

section \<open>Filling the semi mask\<close>

text \<open>
  The maskers run one after the other; every call of \<open>setMask\<close> is by some masker on some node.  A mask entry counts the maskers
  that passed a node, and the entry of the morsel is never behind that of its nodes.
\<close>

definition counts_ok :: "nat \<Rightarrow> u8 \<Rightarrow> ScanNodeIDSemiMask \<Rightarrow> bool" where
  "counts_ok N flag sm \<longleftrightarrow> maskedFlag (nodeMask sm) = flag \<and> maskedFlag (morselMask sm) = flag \<and>
     length (maskData (nodeMask sm)) = N \<and> length (maskData (morselMask sm)) = (N - 1) div 2048 + 1 \<and>
     (\<forall>x < N. maskData (nodeMask sm) ! x \<le> maskData (morselMask sm) ! (x div 2048)) \<and>
     (\<forall>i \<le> (N - 1) div 2048. maskData (morselMask sm) ! i \<le> flag)"

lemma counts_ok_covers: "counts_ok N flag sm \<Longrightarrow> 0 < N \<Longrightarrow> semi_ok N sm"
proof -
  assume c: "counts_ok N flag sm" and "0 < N"
  have "isMasked (x div 2048) (morselMask sm) = Inr True" if x: "x < N" "isMasked x (nodeMask sm) = Inr True" for x
  proof -
    have "x div 2048 \<le> (N - 1) div 2048" using x(1) by (intro div_le_mono) simp
    moreover have "maskData (nodeMask sm) ! x = flag" using x c by (simp add: isMasked_def counts_ok_def)
    ultimately show ?thesis using c x(1) by (force simp: isMasked_def counts_ok_def)
  qed
  then show "semi_ok N sm" using c by (simp add: semi_ok_def counts_ok_def)
qed

lemma newSemiMask_counts:
  assumes "unat mx = N - 1" and "0 < N" and "N < 9223372036854775808"
  shows "counts_ok N flag (newSemiMask mx flag)"
proof -
  have a: "unat (mx + 1) = N" using assms by (simp add: unat_word_ariths)
  have "(N - 1) div 2048 < 9223372036854775808" using assms(3) div_le_dividend [of "N - 1" 2048] by linarith
  then have b: "unat (drop_bit 11 mx + 1) = (N - 1) div 2048 + 1" using assms(1) by (simp add: unat_word_ariths unat_morsel)
  have "x div 2048 < Suc ((N - Suc 0) div 2048)" if "x < N" for x
    using that div_le_mono [of x "N - 1" 2048] by simp
  then show ?thesis using b by (simp add: counts_ok_def newSemiMask_def newMask_def a less_Suc_eq_le del: replicate_Suc)
qed

lemma setMask_keeps:
  assumes "counts_ok N flag sm" and "unat x < N" and "m < flag"
  shows "\<exists>sm'. semiSetMask x m sm = Inr sm' \<and> counts_ok N flag sm'"
proof -
  let ?nd = "maskData (nodeMask sm)" and ?md = "maskData (morselMask sm)" and ?i = "unat x div 2048"
  have len: "length ?nd = N" "length ?md = (N - 1) div 2048 + 1" and le: "\<forall>x < N. ?nd ! x \<le> ?md ! (x div 2048)"
      and top: "\<forall>i \<le> (N - 1) div 2048. ?md ! i \<le> flag"
    using assms(1) by (simp_all add: counts_ok_def)
  have i: "?i \<le> (N - 1) div 2048" using assms(2) by (intro div_le_mono) simp
  have m1: "m + 1 \<le> flag" using assms(3) by (rule inc_le)
  have "unat flag < 256" using unsigned_less [of flag, where ?'a = nat] by simp
  then have m2: "m \<le> m + 1" using assms(3) by (simp add: word_less_nat_alt word_le_nat_alt unat_word_ariths)
  define nd where "nd = (if ?nd ! unat x = m then ?nd[unat x := m + 1] else ?nd)"
  define md where "md = (if ?md ! ?i = m then ?md[?i := m + 1] else ?md)"
  let ?sm = "\<lparr>nodeMask = (nodeMask sm)\<lparr>maskData := nd\<rparr>, morselMask = (morselMask sm)\<lparr>maskData := md\<rparr>\<rparr>"
  have step: "semiSetMask x m sm = Inr ?sm"
    using len assms(2) i by (simp add: semiSetMask_def setMask_def unat_morsel nd_def md_def)
  have up: "?md ! j \<le> md ! j" "md ! j \<le> flag" if "j \<le> (N - 1) div 2048" for j
    using that len(2) i m1 m2 top by (auto simp: md_def nth_list_update)
  have "nd ! y \<le> md ! (y div 2048)" if y: "y < N" for y
  proof (cases "y = unat x \<and> ?nd ! unat x = m")
    case True
    then have "m \<le> ?md ! ?i" using le assms(2) by force
    moreover have "nd ! y = m + 1" using True len(1) y by (simp add: nd_def)
    moreover have "m + 1 \<le> md ! ?i"
    proof (cases "?md ! ?i = m")
      case True
      then show ?thesis using len(2) i by (simp add: md_def)
    next
      case False
      then have "m < ?md ! ?i" using \<open>m \<le> ?md ! ?i\<close> by simp
      then show ?thesis using False by (simp add: md_def inc_le)
    qed
    ultimately show ?thesis using True by simp
  next
    case False
    have "y div 2048 \<le> (N - 1) div 2048" using y by (intro div_le_mono) simp
    then have "?nd ! y \<le> md ! (y div 2048)" using le y up(1) order_trans by blast
    then show ?thesis using False by (auto simp: nd_def nth_list_update)
  qed
  then have "counts_ok N flag ?sm" using assms(1) len up(2) by (simp add: counts_ok_def nd_def md_def split: if_splits)
  then show ?thesis using step by blast
qed

lemma setMasks_keep:
  assumes "counts_ok N flag sm" and "list_all (\<lambda>(x, m). unat x < N \<and> m < flag) calls"
  shows "\<exists>sm'. foldResult (\<lambda>(x, m). semiSetMask x m) calls sm = Inr sm' \<and> counts_ok N flag sm'"
  using assms
proof (induction calls arbitrary: sm)
  case (Cons c calls)
  obtain sm1 where "semiSetMask (fst c) (snd c) sm = Inr sm1" "counts_ok N flag sm1"
    using setMask_keeps [OF Cons.prems(1), of "fst c" "snd c"] Cons.prems(2) by (auto split: prod.splits)
  then show ?case using Cons.IH [of sm1] Cons.prems(2) by (auto split: prod.splits)
qed simp

text \<open>A masker makes one such call for every active position of its batch.\<close>

lemma foldResult_Nil: "foldResult f [] = Inr"
  by (rule ext) simp

lemma maskBatch_calls:
  "maskBatch m st values sm = foldResult (\<lambda>(x, m). semiSetMask x m) (map (\<lambda>p. (fst (values ! p), m)) (activePositions st)) sm"
  by (simp add: maskBatch_def Let_def activePositions_def selectedPositions_def getPositionOfCurrIdx_def comp_def foldResult_map foldResult_Nil)

lemma masker_keeps_counts:
  assumes "child (r, maskerChild f) = Some (Inr (True, r1, c1))" and "semiMask (maskerShared f) = Some sm" and "counts_ok N flag sm"
    and "m < flag" and "\<forall>p \<in> set (activePositions (dataChunks r1 ! k)). unat (fst (keys c1 ! p)) < N"
  shows "\<exists>sm' f'. maskerGetNextTuples k m keys child (r, f) = Some (Inr (True, r1, f')) \<and> maskerChild f' = c1 \<and>
    semiMask (maskerShared f') = Some sm' \<and> counts_ok N flag sm'"
proof -
  obtain sm' where "maskBatch m (dataChunks r1 ! k) (keys c1) sm = Inr sm'" "counts_ok N flag sm'"
    using setMasks_keep [OF assms(3), of "map (\<lambda>p. (fst (keys c1 ! p), m)) (activePositions (dataChunks r1 ! k))"] assms(4,5)
    by (auto simp: maskBatch_calls list_all_iff)
  then show ?thesis using assms(1,2) by (simp add: maskerGetNextTuples_def)
qed

section \<open>Plans over a scan\<close>

interpretation skippedScan: selection_writer "skipGetNextTuples k scope s (scanGetNextTuples k)" k scope
  "skipOk k (scan_ok k scope) scanRest" "skipRest k scanRest s" "\<lambda>f. scanCell (skipChild f)" for k scope s
  by (rule scan.skip_writer)

interpretation limitedScan: selection_writer "limitGetNextTuples k scope l (skipGetNextTuples k scope s (scanGetNextTuples k))" k scope
  "limitOk (skipOk k (scan_ok k scope) scanRest) (skipRest k scanRest s) l" "limitRest (skipRest k scanRest s) l"
  "\<lambda>f. scanCell (skipChild (limitChild f))" for k scope l s
  by (rule skippedScan.limit_writer)

text \<open>The offsets of the nodes of a table, in ascending order.\<close>

definition liveOffsets :: "NodeStatisticsAndDeletedIDs \<Rightarrow> nat list" where
  "liveOffsets n = filter (\<lambda>x. of_nat x \<notin> deletedSet n) [0..<if numTuples n = UINT64_MAX then 0 else unat (numTuples n)]"

text \<open>The state of a table that a scan can run on: every morsel has its flag for deleted nodes.\<close>

definition scan_ready :: "NodeStatisticsAndDeletedIDs \<Rightarrow> bool" where
  "scan_ready n \<longleftrightarrow> ns_inv n \<and> (numTuples n \<noteq> UINT64_MAX \<longrightarrow> unat (numTuples n) < 9223372036854775808 \<and>
     unat (morselOf (getMaxNodeOffset n)) < length (hasDeletedNodesPerMorsel n))"

lemma fresh_scan:
  assumes "scan_ready n" and "\<not> initialized ss" and "currentNodeOffset ss = 0"
    and "case semiMask ss of None \<Rightarrow> True | Some sm \<Rightarrow> semi_ok (unat (numTuples n)) sm \<and> deletedSet n = {} \<and> numTuples n \<noteq> UINT64_MAX"
  shows "scan_ok 0 [0] (newResultSet 1, newScanNodeID n t ss)"
proof -
  have "chunk_ok 0 [0] (newResultSet 1)"
    by (simp add: chunk_ok_def newResultSet_def newDataChunkState_def selOf_def newSelectionVector_def)
  moreover have "scan_state_ok (newScanNodeID n t ss)"
    using assms max_offset [of n]
    by (auto simp: scan_state_ok_def Let_def newScanNodeID_def initializeShared_def numNodes_def scan_ready_def morselOf_def unat_div
        split: option.splits)
  ultimately show ?thesis by (simp add: scan_ok_def)
qed

lemma fresh_plain_scan:
  assumes "scan_ready n"
  shows "scan_ok 0 [0] (newResultSet 1, newScanNodeID n t newSharedState)"
    and "concat (scanRest (newResultSet 1, newScanNodeID n t newSharedState)) = liveOffsets n"
proof -
  show "scan_ok 0 [0] (newResultSet 1, newScanNodeID n t newSharedState)"
    using fresh_scan [OF assms, of newSharedState] by (simp add: newSharedState_def)
  have "scannable (newScanNodeID n t newSharedState) = (\<lambda>x. of_nat x \<notin> deletedSet n)"
    by (simp add: fun_eq_iff scannable_def newScanNodeID_def initializeShared_def newSharedState_def)
  then show "concat (scanRest (newResultSet 1, newScanNodeID n t newSharedState)) = liveOffsets n"
    by (simp add: scanRest_def concat_scanBatches liveOffsets_def newScanNodeID_def initializeShared_def newSharedState_def numNodes_def)
qed

lemma fresh_restored:
  "restored 0 newPrevSelVector (newResultSet 1) = newResultSet 1" "saved_ok 0 newPrevSelVector (newResultSet 1)"
  by (simp_all add: restored_def restoreSelVector_def saved_ok_def newPrevSelVector_def newSelectionVector_def newResultSet_def
      newDataChunkState_def selOf_def withSel_def)

text \<open>
  C13: the plan that collects a scan through \<^verbatim>\<open>Skip\<close> and \<^verbatim>\<open>Limit\<close> ends, and its result is the slice of the nodes of the table
  that the query asks for: the nodes that are not deleted, in the order of their offsets, without the first \<open>s\<close> of them, at most \<open>l\<close>.
  The table has a flag for each of its morsels and fewer than 2^32 nodes.
\<close>

theorem plan_slices_live_nodes:
  assumes "scan_ready n" and "numTuples n \<noteq> UINT64_MAX \<longrightarrow> unat (numTuples n) < 4294967296" and "l < 9223372036854775808"
  shows "collectorExecute (limitGetNextTuples 0 [0] l (skipGetNextTuples 0 [0] s (scanGetNextTuples 0)))
      (\<lambda>(r, f) table. table @ map (scanCell (skipChild (limitChild f))) (selectedPositions (selOf r 0)))
      (newResultSet 1, \<lparr>limitCounter = 0, limitChild = \<lparr>skipPrev = newPrevSelVector, skipCounter = 0,
         skipChild = newScanNodeID n t newSharedState\<rparr>\<rparr>) [] =
    Some (Inr (take l (drop s (liveOffsets n))))"
  supply One_nat_def [simp del]
proof -
  let ?scan = "newScanNodeID n t newSharedState"
  let ?skip = "\<lparr>skipPrev = newPrevSelVector, skipCounter = 0, skipChild = ?scan\<rparr>"
  let ?t = "(newResultSet 1, \<lparr>limitCounter = 0, limitChild = ?skip\<rparr>)"
  note fresh = fresh_plain_scan [OF assms(1), of t]
  have len: "length (liveOffsets n) < 4294967296"
    using assms(2) length_filter_le [of "\<lambda>x. of_nat x \<notin> deletedSet n" "[0..<unat (numTuples n)]"] by (auto simp: liveOffsets_def)
  note r = fresh_restored
  have skip: "skipOk 0 (scan_ok 0 [0]) scanRest (newResultSet 1, ?skip)" using fresh len by (simp add: skipOk_def r)
  have rest: "concat (skipRest 0 scanRest s (newResultSet 1, ?skip)) = drop s (liveOffsets n)"
    using fresh(2) by (simp add: skipRest_def concat_skipBatches r(1))
  have ok: "limitOk (skipOk 0 (scan_ok 0 [0]) scanRest) (skipRest 0 scanRest s) l ?t"
    using skip len assms(3) by (simp add: limitOk_def rest)
  have "concat (limitRest (skipRest 0 scanRest s) l ?t) = take l (drop s (liveOffsets n))"
    using rest by (simp add: limitRest_def concat_limitBatches)
  then show ?thesis using limitedScan.collects [OF ok, of "\<lambda>(r, f) table. table @ map (scanCell (skipChild (limitChild f))) (selectedPositions (selOf r 0))"]
    by simp
qed

lemma sampleStats_ready: "scan_ready sampleStats"
  using sampleStats_inv by (simp add: scan_ready_def sampleStats_def getMaxNodeOffset_def getMaxNodeOffsetFromNumTuples_def morselOf_def)

theorem plan_slices_live_nodes_witness:
  "collectorExecute (limitGetNextTuples 0 [0] 5 (skipGetNextTuples 0 [0] 3 (scanGetNextTuples 0)))
      (\<lambda>(r, f) table. table @ map (scanCell (skipChild (limitChild f))) (selectedPositions (selOf r 0)))
      (newResultSet 1, \<lparr>limitCounter = 0, limitChild = \<lparr>skipPrev = newPrevSelVector, skipCounter = 0,
         skipChild = newScanNodeID sampleStats 0 newSharedState\<rparr>\<rparr>) [] =
    Some (Inr (take 5 (drop 3 (liveOffsets sampleStats))))"
  by (rule plan_slices_live_nodes [OF sampleStats_ready]) (simp_all add: sampleStats_def)


definition plainStats :: NodeStatisticsAndDeletedIDs where
  "plainStats = \<lparr>numTuples = 3, tableID = 0, adjLists = [], adjColumns = [],
     hasDeletedNodesPerMorsel = [False], deletedNodeOffsetsPerMorsel = []\<rparr>"


subsection \<open>The last range of a masked scan\<close>

text \<open>
  When no morsel from the current one on is masked, \<open>getNextRangeToRead\<close> clips the start to the last node and hands out a range
  of one node, which does not start a morsel.
\<close>

lemma unmasked_tail_range:
  assumes inv: "ns_inv n" and num: "numTuples n \<noteq> UINT64_MAX" "unat (numTuples n) < 9223372036854775808" and flag: "flag \<noteq> 0"
  defines "mx \<equiv> getMaxNodeOffset n"
    and "ss \<equiv> initializeShared n (initSemiMask n (newSharedState\<lparr>numMaskers := flag\<rparr>))"
  shows "getNextRangeToRead ss = Some (Inr (mx, mx + 1, ss\<lparr>currentNodeOffset := mx + 1\<rparr>))"
    and "unat (mx + 1 - mx) = 1" and "\<not> mx + 1 \<le> mx" and "semiMask ss = Some (newSemiMask mx flag)"
proof -
  let ?N = "unat (numTuples n)" and ?sm = "newSemiMask mx flag"
  note m = max_offset [OF inv num(1), folded mx_def]
  have ss: "ss = \<lparr>initialized = True, maxNodeOffset = mx, maxMorselIdx = drop_bit 11 mx, currentNodeOffset = 0, numMaskers = flag,
      semiMask = Some ?sm\<rparr>"
    by (simp add: ss_def initializeShared_def initSemiMask_def newSharedState_def mx_def)
  then show "semiMask ss = Some ?sm" by simp
  show "unat (mx + 1 - mx) = 1" by simp
  show n: "\<not> mx + 1 \<le> mx" using m by (simp add: word_le_nat_alt)
  have c: "counts_ok ?N flag ?sm" using newSemiMask_counts [OF m(1,4) num(2)] .
  have mm: "unat (drop_bit 11 mx) = (?N - 1) div 2048" by (simp add: unat_morsel m(1))
  have unmasked: "isMasked i (morselMask ?sm) \<noteq> Inr True" for i
    using flag by (auto simp: isMasked_def newSemiMask_def newMask_def)
  have small: "(?N - 1) div 2048 < 9223372036854775808" using num(2) div_le_dividend [of "?N - 1" 2048] by linarith
  obtain j where j: "nextMaskedMorsel (drop_bit 11 mx) (morselMask ?sm) 0 = Some (Inr j)" "unat j \<le> (?N - 1) div 2048 + 1"
      "unat j \<le> (?N - 1) div 2048 \<longrightarrow> isMasked (unat j) (morselMask ?sm) = Inr True"
    using nextMaskedMorsel_finds [of "drop_bit 11 mx" "morselMask ?sm" 0] small mm c by (auto simp: counts_ok_def)
  then have uj: "unat j = (?N - 1) div 2048 + 1" using unmasked [of "unat j"] by linarith
  have "unat (j * 2048) = unat j * 2048" using uj num(2) by (simp add: unat_word_ariths)
  then have "mx \<le> j * 2048" using dividend_less_div_times [of 2048 "?N - 1"] by (simp add: word_le_nat_alt m(1) uj)
  then have "skipUnmaskedMorsels ss = Some (Inr mx)" using j(1) by (simp add: skipUnmaskedMorsels_def ss min_def)
  moreover have two: "\<not> (2048 :: u64) \<le> 1" by (simp add: word_le_nat_alt)
  ultimately show "getNextRangeToRead ss = Some (Inr (mx, mx + 1, ss\<lparr>currentNodeOffset := mx + 1\<rparr>))"
    using m(2) two by (simp add: getNextRangeToRead_def ss Let_def min_def)
qed

lemma wrapped_size:
  assumes "2 \<le> m" and "m \<le> 2048"
  shows "unat (1 - of_nat m :: u64) mod 65536 = 65537 - m"
proof -
  have k: "unat (word_of_int i :: u64) = nat (i mod 18446744073709551616)" for i by (simp add: unsigned_of_int take_bit_eq_mod)
  have "(1 - int m) mod 18446744073709551616 = ((1 - int m) + 18446744073709551616) mod 18446744073709551616"
    by (rule mod_add_self2 [symmetric])
  also have "\<dots> = (1 - int m) + 18446744073709551616" using assms by (intro mod_pos_pos_trivial) simp_all
  finally have "unat (1 - of_nat m :: u64) = nat ((1 - int m) + 18446744073709551616)" using k [of "1 - int m"] by simp
  also have "\<dots> = (65537 - m) + 65536 * 281474976710655" using assms by simp
  finally have e: "unat (1 - of_nat m :: u64) = (65537 - m) + 65536 * 281474976710655" .
  have "(65537 - m) mod 65536 = 65537 - m" using assms by simp
  then show ?thesis unfolding e by (simp only: mod_mult_self2)
qed

lemma length_selectLoop: "length (selectLoop morselBegin ps itr nextDel) \<le> length ps"
  by (induction morselBegin ps itr nextDel rule: selectLoop.induct) auto

text \<open>
  C35: a masked scan over deleted nodes.  Suppose no masker has passed a node and the last morsel has at least two deleted nodes.
  The scan should deliver nothing.  It reads the last node as a range of its own, and the size of the selection is computed as the
  size of that range less all the deleted nodes of the morsel: the subtraction wraps around in 16 bits, and the scan
  delivers a batch whose selection vector claims more than 63000 positions of a buffer that holds 2048.
\<close>

theorem masked_tail_overflows_selection:
  assumes "ns_inv n" and "numTuples n \<noteq> UINT64_MAX" and "unat (numTuples n) < 9223372036854775808" and "flag \<noteq> 0"
    and "map_of (deletedNodeOffsetsPerMorsel n) (morselOf (getMaxNodeOffset n)) = Some ds" and "2 \<le> length ds" and "length ds \<le> 2048"
  shows "\<exists>r sc. scanGetNextTuples 0 (newResultSet 1, newScanNodeID n t (initSemiMask n (newSharedState\<lparr>numMaskers := flag\<rparr>))) =
      Some (Inr (True, r, sc)) \<and> selectedSize (selOf r 0) = 65537 - length ds \<and>
      length (selectedPositionsBuffer (selOf r 0)) = 2048"
proof -
  let ?mx = "getMaxNodeOffset n" and ?ss = "initializeShared n (initSemiMask n (newSharedState\<lparr>numMaskers := flag\<rparr>))"
  note tail = unmasked_tail_range [OF assms(1-4)] and mx = max_offset [OF assms(1,2)]
  let ?sc = "(newScanNodeID n t (initSemiMask n (newSharedState\<lparr>numMaskers := flag\<rparr>)))\<lparr>sharedState := ?ss\<lparr>currentNodeOffset := ?mx + 1\<rparr>\<rparr>"
  define sc1 where "sc1 = writeNodeIDs ?mx 1 ?sc"
  have sc1: "semiMask (sharedState sc1) = Some (newSemiMask ?mx flag)" "tableStatistics sc1 = n" "fst (outValues sc1 ! 0) = ?mx"
    using tail(4) by (simp_all add: sc1_def writeNodeIDs_def newScanNodeID_def)
  let ?chunk = "initOriginalAndSelectedSize (newDataChunkState DEFAULT_VECTOR_CAPACITY) 1"
  let ?\<sigma> = "(\<lambda>i. dataChunks (newResultSet 1) ! i)(0 := ?chunk)"
  have c: "counts_ok (unat (numTuples n)) flag (newSemiMask ?mx flag)" using newSemiMask_counts [OF mx(1,4) assms(3)] .
  obtain b z where b: "setMaskedSelection 0 ?mx (?mx + 1) (nodeMask (newSemiMask ?mx flag)) ?\<sigma> =
      Inr (?\<sigma>(0 := ?chunk\<lparr>selVector := \<lparr>selUnfiltered = False, selectedSize = z, selectedPositionsBuffer = b\<rparr>\<rparr>))" "length b = 2048"
    using masked_selection [of ?mx 1 "nodeMask (newSemiMask ?mx flag)" "?mx + 1" ?\<sigma> 0] c mx(1,4) assms(3)
    by (auto simp: counts_ok_def bufferOf_def initOriginalAndSelectedSize_def newDataChunkState_def newSelectionVector_def)
  obtain d ds' where ds: "ds = d # ds'" using assms(6) by (cases ds) auto
  have has: "unat (morselOf ?mx) < length (hasDeletedNodesPerMorsel n)" "hasDeletedNodesPerMorsel n ! unat (morselOf ?mx)"
    using assms(1,5) by (auto simp: ns_inv_def)
  define ps where "ps = selectLoop (morselOf ?mx * 2048) [0..<1] ds (ucast (d - morselOf ?mx * 2048))"
  have ps: "setDeletedNodeOffsetsForMorsel ?mx 1 n = Inr (Some (ps, 1 - of_nat (length ds)))"
    using has assms(5) ds by (simp add: setDeletedNodeOffsetsForMorsel_def ps_def Let_def)
  have ps1: "length ps \<le> 1" using length_selectLoop [of _ "[0..<1]" ds] by (simp only: ps_def) simp
  let ?sv = "selectUndeleted (Some (ps, 1 - of_nat (length ds))) \<lparr>selUnfiltered = False, selectedSize = z, selectedPositionsBuffer = b\<rparr>"
  have "setSelVector 0 ?mx (?mx + 1) sc1 ?\<sigma> = Inr (?\<sigma>(0 := ?chunk\<lparr>selVector := ?sv\<rparr>))"
    using b(1) ps by (simp add: setSelVector_def sc1 mapSelVector_def initOriginalAndSelectedSize_def)
  then have range: "scanRange 0 ?mx (?mx + 1) (newResultSet 1, ?sc) = Inr (\<lparr>multiplicity = 1, dataChunks = [?chunk\<lparr>selVector := ?sv\<rparr>]\<rparr>, sc1)"
    using tail(2) by (simp add: scanRange_def Let_def sc1_def newResultSet_def)
  have "unat (1 - of_nat (length ds) :: u64) mod 65536 = 65537 - length ds"
    using assms(6,7) by (rule wrapped_size)
  then have sz: "selectedSize ?sv = 65537 - length ds" by (simp add: selectUndeleted_def)
  have len: "length (selectedPositionsBuffer ?sv) = 2048"
    using ps1 b(2) by (simp add: selectUndeleted_def resetSelectorToValuePosBuffer_def length_copyPositions)
  have "sharedState (newScanNodeID n t (initSemiMask n (newSharedState\<lparr>numMaskers := flag\<rparr>))) = ?ss" by (simp add: newScanNodeID_def)
  then show ?thesis using tail(1,3) range sz len assms(7)
    by (subst scanGetNextTuples.simps) (simp add: selOf_def)
qed

definition tailStats :: NodeStatisticsAndDeletedIDs where
  "tailStats = \<lparr>numTuples = 3, tableID = 0, adjLists = [], adjColumns = [],
     hasDeletedNodesPerMorsel = [True], deletedNodeOffsetsPerMorsel = [(0, [0, 1])]\<rparr>"

lemma tailStats_inv: "ns_inv tailStats"
proof -
  have "k = 0" if "unat k = 0" for k :: u64 using that by (simp add: unat_eq_zero)
  then show ?thesis
    by (auto simp: ns_inv_def tailStats_def entry_inv_def oset_inv_def morselOf_def UINT64_MAX_def split: if_splits)
qed

theorem masked_tail_overflows_selection_witness:
  "\<exists>r sc. scanGetNextTuples 0 (newResultSet 1, newScanNodeID tailStats 0 (initSemiMask tailStats (newSharedState\<lparr>numMaskers := 1\<rparr>))) =
      Some (Inr (True, r, sc)) \<and> selectedSize (selOf r 0) = 65535 \<and> length (selectedPositionsBuffer (selOf r 0)) = 2048"
  using masked_tail_overflows_selection [OF tailStats_inv, of 1 "[0, 1]" 0]
  by (simp add: tailStats_def UINT64_MAX_def morselOf_def getMaxNodeOffset_def getMaxNodeOffsetFromNumTuples_def)

subsection \<open>Filtering and flattening a scan\<close>

text \<open>
  The selection of a comparison of the node with a literal, as a filter calls it: \<open>FunctionExpressionEvaluator::select\<close> evaluates
  its children, of which the reference to the vector of the scan does nothing and the literal has a vector with one
  value, and calls the selection of the binary executor on the selection vector of the chunk.
\<close>

definition comparisonSelect :: "nat \<Rightarrow> (u64 \<times> table_id \<Rightarrow> 'b \<Rightarrow> u8 result) \<Rightarrow> 'b \<Rightarrow> ScanNodeID puller" where
  "comparisonSelect k f literal t =
     (let (r, sc) = t;
          \<sigma> = (\<lambda>i. if i = k then dataChunks r ! k else getSingleValueDataChunkState);
          left = \<lparr>vecValues = outValues sc, vecNullMask = newNullMask, vecState = k\<rparr>;
          right = setValue (newValueVector literal (Suc k)) 0 literal
      in case binSelect \<sigma> f left right k of
           Inl e \<Rightarrow> Some (Inl e)
         | Inr (b, \<sigma>') \<Rightarrow> Some (Inr (b, r\<lparr>dataChunks := (dataChunks r)[k := \<sigma>' k]\<rparr>, sc)))"

text \<open>A comparison operation, given by its truth value on the offset of the node.\<close>

definition compareOffset :: "(nat \<Rightarrow> 'b \<Rightarrow> bool) \<Rightarrow> u64 \<times> table_id \<Rightarrow> 'b \<Rightarrow> u8 result" where
  "compareOffset P x y = Inr (if P (unat (fst x)) y then 1 else 0)"

lemma finishSelect_shape:
  assumes "sel_ok (selVector (\<sigma> s))" and "length (bufferOf \<sigma> s) = 2048" and "\<And>p. \<exists>b. passes nul val p = Inr b"
    and kept: "kept = filter (\<lambda>p. passes nul val p = Inr True) (selectedPositions (selVector (\<sigma> s)))"
  shows "\<exists>b. finishSelect s (forEachSelectedIn s (selectBody nul val s) \<sigma>) =
      Inr (kept \<noteq> [], setSelectedSize (withBuffer \<sigma> s b) s (length kept)) \<and> length b = 2048 \<and> take (length kept) b = kept"
proof -
  have len: "selectedSize (selVector (\<sigma> s)) \<le> length (bufferOf \<sigma> s)" using selectedSize_bound [OF assms(1)] assms(2) by simp
  note L = selecting.select_compacts [where nul = nul and val = val and s = s and opS = s and \<sigma> = \<sigma>, OF assms(1) len, folded kept]
  show ?thesis
  proof (cases "forEachSelectedIn s (selectBody nul val s) \<sigma>")
    case (Inl e)
    then show ?thesis using L assms(3) by (auto simp: sum.case) (metis Inl_Inr_False)
  next
    case (Inr t)
    then show ?thesis using L assms(2) by (cases t) (auto simp: finishSelect_def)
  qed
qed

lemma comparison_narrows:
  assumes b: "batch_ok k scope r" and kept: "kept = filter (\<lambda>p. P (scanCell sc p) literal) (selectedPositions (selOf r k))"
  shows "\<exists>sv. comparisonSelect k (compareOffset P) literal (r, sc) = Some (Inr (kept \<noteq> [], withSel r k sv, sc)) \<and>
    length (selectedPositionsBuffer sv) = DEFAULT_VECTOR_CAPACITY \<and>
    (kept \<noteq> [] \<longrightarrow> selectedPositions (resetSelectorToValuePosBuffer sv) = kept)"
proof -
  let ?\<sigma> = "\<lambda>i. if i = k then dataChunks r ! k else getSingleValueDataChunkState"
  let ?left = "\<lparr>vecValues = outValues sc, vecNullMask = newNullMask, vecState = k\<rparr>"
  let ?right = "setValue (newValueVector literal (Suc k)) 0 literal"
  let ?val = "\<lambda>i. compareOffset P (outValues sc ! i) literal"
  have k: "k < length (dataChunks r)" "\<not> isFlat (dataChunks r ! k)" "sel_ok (selVector (?\<sigma> k))" "length (bufferOf ?\<sigma> k) = 2048"
    using b by (simp_all add: batch_ok_def isFlat_def selOf_def bufferOf_def)
  have one: "isFlat getSingleValueDataChunkState" "getPositionOfCurrIdx getSingleValueDataChunkState = 0"
    by (simp_all add: getSingleValueDataChunkState_def newDataChunkState_def newSelectionVector_def isFlat_def getPositionOfCurrIdx_def
        selectedPosition_def INCREMENTAL_SELECTED_POS_def Let_def)
  have "hasNoNullsGuarantee ?left" by (simp add: hasNoNullsGuarantee_def maskHasNoNullsGuarantee_def newNullMask_def)
  moreover have "\<not> isNull ?right 0" by (simp add: isNull_newValueVector)
  moreover have "vecValues ?right ! 0 = literal" "vecState ?right = Suc k" by (simp_all add: newValueVector_def)
  ultimately have bin: "binSelect ?\<sigma> (compareOffset P) ?left ?right k = finishSelect k (forEachSelectedIn k (selectBody (\<lambda>_. False) ?val k) ?\<sigma>)"
    using k(2) one select_bodies(2) [of "\<lambda>_. False" "compareOffset P" ?left ?right 0 k]
    by (simp add: binSelect_def selectUnFlatFlat_def Let_def flip: unless_False)
  have passes: "passes (\<lambda>_. False) ?val p = Inr (P (scanCell sc p) literal)" for p
    by (simp add: passes_def compareOffset_def scanCell_def)
  obtain bf where bf: "finishSelect k (forEachSelectedIn k (selectBody (\<lambda>_. False) ?val k) ?\<sigma>) =
      Inr (kept \<noteq> [], setSelectedSize (withBuffer ?\<sigma> k bf) k (length kept))" "length bf = 2048" "take (length kept) bf = kept"
    using finishSelect_shape [OF k(3,4), of "\<lambda>_. False" ?val kept] by (auto simp: passes kept selOf_def)
  let ?sv = "(selVector (dataChunks r ! k))\<lparr>selectedPositionsBuffer := bf, selectedSize := length kept\<rparr>"
  have "comparisonSelect k (compareOffset P) literal (r, sc) = Some (Inr (kept \<noteq> [], withSel r k ?sv, sc))"
    unfolding comparisonSelect_def Let_def prod.case bin bf(1)
    by (simp add: withSel_def setSelectedSize_def withBuffer_def)
  moreover have "length kept \<le> length bf" using arg_cong [OF bf(3), of length] by simp
  then have "selectedPositions (resetSelectorToValuePosBuffer ?sv) = kept"
    using bf(3) by (simp add: selectedPositions_filtered resetSelectorToValuePosBuffer_def)
  ultimately show ?thesis using bf(2) by (intro exI [of _ ?sv]) simp
qed

interpretation comparedScan: row_predicate "scanGetNextTuples k" k scope "scan_ok k scope" scanRest scanCell
  "comparisonSelect k (compareOffset P) literal" "\<lambda>x. P x literal" for k scope literal P
  by unfold_locales (rule comparison_narrows)

interpretation filteredScan: batch_source "filterGetNextTuples k (scanGetNextTuples k) (comparisonSelect k (compareOffset P) literal)" k scope
  "filterOk k (scan_ok k scope)" "filterRest k scanRest (\<lambda>x. P x literal)" "\<lambda>f. scanCell (filterChild f)" for k scope literal P
  by (rule comparedScan.filter_source)





end
