(* ===== verification/Spec2Isabelle.thy ===== *)
theory Spec2Isabelle
  imports Wal_Replayer Buffer_Pool Transaction_Manager Node_Statistics Timestamp Hash_Index Order_By Ternary_Executor Boolean_Executor Scan_Node_ID
begin

text \<open>
  A verification development for the storage core, the temporal types, the vectorised execution and the sorting of GraphflowDB,
  an embeddable property graph database in C++ (\<^verbatim>\<open>src/src\<close>).

  \<^bold>\<open>The program.\<close>  A query is parsed, bound, planned and executed by a processor over a storage layer.  The storage
  layer keeps every structure (columns, lists, hash indexes, statistics) in files of pages.  Pages are read and written
  through the buffer pool; a write transaction never changes an original page but writes a new version of it into the
  write-ahead log (WAL), and the versioned file handle remembers for each page whether such a version exists.  There is at
  most one write transaction, and any number of read-only ones, which keep seeing the old versions.  A commit logs a
  commit record; the checkpoint waits until the readers have left, installs the new versions and clears the log.
  The processor pulls batches of tuples through a tree of operators: a scan fills vectors of up to 2048 values, operators and
  expressions work on the positions that a selection vector selects, and a null mask says which values are null.
  Each node table has statistics (the number of nodes and the deleted offsets that can be reused) and a hash index from
  primary keys to node offsets.

  \<^bold>\<open>The theories.\<close>  Each theory opens with what it holds; the names of the definitions are those of the source.
  \<^item> \<open>Prelude\<close>: the result type (\<open>error + 'a\<close>, one constructor per exception class; \<open>UndefinedBehaviour\<close> and
    \<open>Blocks\<close> are values too), word types, constants, lemmas on lists and words, the collection \<open>inv_simps\<close>.
  \<^item> \<open>Interfaces\<close>: the contracts between components as locales.  \<open>record_log\<close> (interpreted in \<open>Wal\<close>),
    \<open>two_version_store\<close> (interpreted in \<open>Node_Statistics\<close>), \<open>key_index\<close> (interpreted in \<open>Linear_Hashing\<close>, used by
    \<open>Hash_Index\<close>).
  \<^item> \<open>Wal_Record\<close>, \<open>Wal\<close>: \<^verbatim>\<open>storage/wal\<close>.  Log records, header pages and their chain, the logging operations, flush,
    reopening, clearing and the iterator.
  \<^item> \<open>File_Handle\<close>: \<^verbatim>\<open>storage/buffer_manager/file_handle.cpp\<close> and \<^verbatim>\<open>versioned_file_handle.cpp\<close>.  Page locks, the
    page-to-frame map, adding and removing pages, page groups and WAL page versions.
  \<^item> \<open>Storage_Structure\<close>: \<^verbatim>\<open>storage/storage_structure/storage_structure_utils.cpp\<close>.  How a write transaction gets its own version of
    a page: the record and the page in the log, the version in the file handle, the frames.
  \<^item> \<open>Wal_Replayer\<close>: \<^verbatim>\<open>storage/wal_replayer.cpp\<close> and its callers in \<^verbatim>\<open>main/database.cpp\<close>.  The replay of the log at commit, rollback
    and recovery, over a family of paged files.
  \<^item> \<open>Buffer_Pool\<close>: \<^verbatim>\<open>storage/buffer_manager/buffer_pool.cpp\<close>.  Frames, pinning, the clock sweep, eviction, dirty pages,
    flushing and removal, as operations that return an error or a value together with the state they leave.
  \<^item> \<open>Transaction_Manager\<close>: \<^verbatim>\<open>transaction\<close>.  Begin, commit, rollback and the stop-and-wait function; \<open>tm_step\<close> is the
    interleaving of threads that call them.
  \<^item> \<open>Std_Containers\<close>, \<open>Node_Statistics\<close>: \<^verbatim>\<open>storage/store/nodes_statistics_and_deleted_ids.cpp\<close> and
    \<^verbatim>\<open>table_statistics.cpp\<close>.  Allocation and deletion of nodes, the selection of live nodes in a scan, the two versions of
    the statistics, and their file.
  \<^item> \<open>Date\<close>, \<open>Timestamp\<close>: \<^verbatim>\<open>common/types\<close>.  Calendar conversion, arithmetic, parts, truncation, printing and parsing of
    dates, times, timestamps and intervals.
  \<^item> \<open>In_Mem_Hash_Index\<close>, \<open>Linear_Hashing\<close>: \<^verbatim>\<open>storage/index/in_mem_hash_index.cpp\<close>.  The first theory holds the model
    (slots, slot arrays in pages, chains, splits) and the lemmas on single slots, pages and chains; the second the
    representation relation between index states and maps and the theorems.
  \<^item> \<open>Hash_Index\<close>: \<^verbatim>\<open>storage/index/hash_index.cpp\<close>.  The file of a flushed index, opening it, and the inserts and deletes
    of a write transaction over it.
  \<^item> \<open>Key_Encoder\<close>, \<open>Order_By\<close>: \<^verbatim>\<open>processor/physical_plan/operator/order_by/order_by_key_encoder.cpp\<close>.  The first theory has
    the bytes of one value and of one tuple and their order, the second the key blocks and \<open>encodeKeys\<close>.
  \<^item> \<open>Gf_String\<close>: \<^verbatim>\<open>common/types/gf_string.cpp\<close>, equality and order of strings.
  \<^item> \<open>Counting_Sort\<close>, \<open>Radix_Sort\<close>: \<^verbatim>\<open>processor/physical_plan/operator/order_by/radix_sort.cpp\<close>.  The first theory is about lists, the
    second about a block of bytes: the rounds of the radix sort, ties, and the sorting of a block.
  \<^item> \<open>Null_Mask\<close>, \<open>Value_Vector\<close>: \<^verbatim>\<open>common/null_mask.cpp\<close>, \<^verbatim>\<open>common/vector\<close>, \<^verbatim>\<open>common/data_chunk\<close>.  Null masks and the copying of null bits
    between pages and vectors; selection vectors and chunk states in a store, because operators rewrite the selection that they
    read.  The locales \<open>positionwise\<close> and \<open>compaction\<close> are the contracts of loop bodies that compute position by position and
    that narrow a selection in place; they are interpreted on the bodies of the executors, of \<open>discardNull\<close> and of the scan.
  \<^item> \<open>Operation_Executor\<close>, \<open>Ternary_Executor\<close>, \<open>Boolean_Executor\<close>: \<^verbatim>\<open>function/include\<close>, \<^verbatim>\<open>function/boolean\<close>, \<^verbatim>\<open>function/null\<close>.  The
    executors of unary, binary, ternary, Boolean and null operations for flat and unflat operands; the operation is a parameter.
  \<^item> \<open>Pipeline\<close>: \<^verbatim>\<open>processor/physical_plan/operator\<close>.  Filter, Skip, Limit, Flatten, MultiplicityReducer and the loop of the result collector.
    The locale \<open>batch_source\<close> is the contract of a child, \<open>selection_writer\<close> that of a child that does not read the
    selection, \<open>row_predicate\<close> that of the predicate of a filter; operators over a source are shown to be sources again.
  \<^item> \<open>Scan_Node_ID\<close>: \<^verbatim>\<open>scan_node_id.cpp\<close> and \<^verbatim>\<open>semi_masker.cpp\<close> there.  The scan over the statistics of a table, the semi mask, and
    the interpretations of the pipeline contracts: the scan, Skip and Limit over it, and Filter with a comparison executor.

  \<^bold>\<open>What is shown.\<close>
  \<^item> Log: for every sequence of records the iterator returns the sequence, also after a reopen; a logged page is private.
  \<^item> Buffer pool: a pinned page has the content of the file or of the last write, eviction and flushing lose no dirty
    page, and a failed pin leaks the page lock.
  \<^item> Transactions: at most one writer in every interleaving; effects of commit and rollback; that the stop-and-wait
    function with active readers always times out, and that it can deadlock with a begin.
  \<^item> Commit, rollback, recovery: for every sequence of page updates and additions the commit installs exactly these, the
    rollback restores the pages, and recovery from the flushed log redoes the transaction; a crash between the two halves of the
    flush corrupts a page, and an update of a page is lost when the frame of its version is evicted before and after it.
  \<^item> Page versions: set, get, clear and the one rollback order that leaves a stale version.
  \<^item> Statistics: an allocated offset is unused, a delete removes exactly one node, a scan selects the live nodes, readers are
    isolated, commits atomic, the file is read back; and the inputs on which vectors are indexed out of range.
  \<^item> Calendar: dates and day numbers are inverse to each other, texts are read back, adding an interval and taking a
    difference are exact, and where comparison, division and conversion do not do what they should.
  \<^item> Hash index: loading builds the map of first values, histories refine a map, splits keep all lookups, the file round
    trip, the view of the writer; and the two histories in which deletes go wrong.
  \<^item> Sorting: \<open>memcmp\<close> of encoded keys is the ORDER BY order, \<open>encodeKeys\<close> appends one tuple per row, a sorted block without string
    columns holds the same tuples in order, and how sorting a tie of a string column corrupts the keys.
  \<^item> Execution: null bits are copied one by one whatever the alignment, executors compute the SQL value at every selected position,
    Boolean operations the three-valued ones, selections keep the positions where the predicate is true; plans that collect a scan
    through Skip and Limit, Filter or Flatten end with the slice, the filtered nodes or every node of the table.  The
    inputs on which null bits are stale, positions are missed, sizes wrap around or 32-bit counters skip everything.

  \<^bold>\<open>Fuel and bounds.\<close>  Loops along a chain of overflow slots get as much fuel as there are overflow slots plus two, the
  reading of the page mapper as much as the file has pages, a reservation 64 level increments, the replay of the log one unit for each
  of its records; the theorems show that
  this is enough (an exhausted loop would be the value \<open>Blocks\<close>).  The loops of the operators and of the null bits are partial
  functions whose missing value stands for not returning; the theorems show that they return.  The index theorems hold up to \<open>2 ^ 30\<close>
  entries, where the C++ masks, computed in \<open>int\<close>, overflow.  The clock sweep and all the other loops are structural or
  have a termination proof.  64-bit and 32-bit counters, masks and hashes are words; dates and timestamps are integers
  with the overflow conditions of the C++ code written out.

  \<^bold>\<open>Not modelled.\<close>  Parser, binder and planner; joins, aggregates, list and column scans, updates, factorized and hash tables
  of the processor; the catalog; CSV copying; columns, lists and disk arrays, except for the page versions of a write transaction
  and the null bits; the scalar functions that the executors apply; the API, shell and bindings.  Of the hash index, STRING keys (their hash, insert and
  equality functions on overflow pages).  Files are page sequences: operating-system calls and their failures are left
  out.  Mutexes that a call takes and releases itself are left out unless an interleaving can be observed through them
  (page locks, frame locks, the mutexes of the transaction manager and of the primary slots are kept).
\<close>

end
